(* ===== verification/Prelude.thy ===== *)
theory Prelude
  imports Main "HOL-Library.AList"
begin

text \<open>
  What every component shares: the errors the TypeScript sources can throw, as values of a
  sum type with its bind and its loop (\<open>efold\<close>, a \<open>for ... of\<close> whose body may throw), the
  insertion-ordered \<open>Set\<close> (\<open>sadd\<close>), and the lemma collections that carry the component
  proofs. A JavaScript \<open>Map\<close> or object is an association list in insertion order, read by
  \<open>map_of\<close> and changed by \<open>AList.update\<close> (an existing key keeps its place, a new one goes
  last) and \<open>AList.delete\<close>.
\<close>

named_theorems dg_simps \<open>rewrite rules for directed graphs\<close>
named_theorems inv_intros \<open>introduction rules for the components' invariants\<close>

section \<open>Errors\<close>

text \<open>
  \<open>OutOfFuel\<close> is not an error of the sources: it is the value of a recursive model that was
  given too little fuel. Each such model has a lemma that says how much fuel is enough.
\<close>

datatype js_error =
    AssertionError
  | TypeError
  | ApplicationError string
  | OperationalError string
  | UserError string
  | UnexpectedError string
  | PlainError string
  | OutOfFuel

type_synonym 'a result = "js_error + 'a"

fun ebind :: "'e + 'a \<Rightarrow> ('a \<Rightarrow> 'e + 'b) \<Rightarrow> 'e + 'b" where
  "ebind (Inl e) f = Inl e"
| "ebind (Inr x) f = f x"

fun efold :: "('a \<Rightarrow> 's \<Rightarrow> 'e + 's) \<Rightarrow> 'a list \<Rightarrow> 's \<Rightarrow> 'e + 's" where
  "efold f [] s = Inr s"
| "efold f (x # xs) s = ebind (f x s) (efold f xs)"

definition assert_ok :: "bool \<Rightarrow> 'a \<Rightarrow> 'a result" where
  "assert_ok b x = (if b then Inr x else Inl AssertionError)"

lemma ebind_eq_Inr [simp]: "ebind x f = Inr y \<longleftrightarrow> (\<exists>z. x = Inr z \<and> f z = Inr y)"
  by (cases x) auto

lemma ebind_eq_InrE [elim]:
  assumes "ebind x f = Inr y" obtains z where "x = Inr z" "f z = Inr y"
  using assms by (cases x) auto

lemma ebind_cong [fundef_cong]:
  "x = y \<Longrightarrow> (\<And>z. y = Inr z \<Longrightarrow> f z = g z) \<Longrightarrow> ebind x f = ebind y g"
  by (cases y) auto

lemma assert_ok_simps [simp]:
  "assert_ok True x = Inr x" "assert_ok False x = Inl AssertionError"
  "assert_ok b x = Inr y \<longleftrightarrow> b \<and> x = y"
  by (auto simp: assert_ok_def)

lemma efold_append [simp]: "efold f (xs @ ys) s = ebind (efold f xs s) (efold f ys)"
proof (induction xs arbitrary: s)
  case Nil
  then show ?case by simp
next
  case (Cons x xs)
  then show ?case by (cases "f x s") auto
qed

lemma efold_cong [fundef_cong]:
  "xs = ys \<Longrightarrow> s = t \<Longrightarrow> (\<And>x u. x \<in> set ys \<Longrightarrow> f x u = g x u) \<Longrightarrow> efold f xs s = efold g ys t"
proof (induction xs arbitrary: ys s t)
  case Nil
  then show ?case by auto
next
  case (Cons x xs)
  then have "efold f xs = efold g xs" by (intro ext) auto
  with Cons.prems show ?case by auto
qed

subsection \<open>Reasoning about loops that may throw\<close>

lemma efold_invariant:
  assumes "efold f xs s = Inr s'" and "P s"
    and "\<And>x u v. x \<in> set xs \<Longrightarrow> P u \<Longrightarrow> f x u = Inr v \<Longrightarrow> P v"
  shows "P s'"
  using assms
proof (induction xs arbitrary: s)
  case Nil
  then show ?case by simp
next
  case (Cons x xs)
  from Cons.prems(1) obtain v where v: "f x s = Inr v" "efold f xs v = Inr s'" by auto
  from Cons.prems(3) [OF _ Cons.prems(2) v(1)] have "P v" by simp
  with v(2) Cons.prems(3) show ?case by (intro Cons.IH [of v]) auto
qed

text \<open>What the body establishes at one element, and keeps at the others, holds at the end.\<close>

lemma efold_reaches:
  assumes "efold f xs s = Inr t" "x \<in> set xs" "P s"
    and keeps: "\<And>y u v. y \<in> set xs \<Longrightarrow> P u \<Longrightarrow> f y u = Inr v \<Longrightarrow> P v"
    and establishes: "\<And>u v. P u \<Longrightarrow> f x u = Inr v \<Longrightarrow> Q v"
    and stays: "\<And>y u v. y \<in> set xs \<Longrightarrow> P u \<Longrightarrow> Q u \<Longrightarrow> f y u = Inr v \<Longrightarrow> Q v"
  shows "Q t"
proof -
  obtain ys zs where xs: "xs = ys @ x # zs" using assms(2) by (meson split_list)
  then obtain u v where u: "efold f ys s = Inr u" "f x u = Inr v" "efold f zs v = Inr t" using assms(1) by auto
  have "P u" using efold_invariant [OF u(1), of P] assms(3) keeps xs by auto
  then have "P v \<and> Q v" using keeps [of x] establishes u(2) assms(2) by blast
  moreover have "P b \<and> Q b" if "y \<in> set zs" "P a \<and> Q a" "f y a = Inr b" for y a b
    using keeps [of y a b] stays [of y a b] that xs by simp
  ultimately show ?thesis using efold_invariant [OF u(3), of "\<lambda>w. P w \<and> Q w"] by blast
qed

lemma efold_total_prefix:
  assumes "P [] s"
    and "\<And>ys x zs u. xs = ys @ x # zs \<Longrightarrow> P ys u \<Longrightarrow> \<exists>v. f x u = Inr v \<and> P (ys @ [x]) v"
  shows "\<exists>s'. efold f xs s = Inr s' \<and> P xs s'"
  using assms
proof (induction xs rule: rev_induct)
  case Nil
  then show ?case by simp
next
  case (snoc x xs)
  have "\<exists>u. efold f xs s = Inr u \<and> P xs u"
  proof (rule snoc.IH)
    show "P [] s" by (rule snoc.prems(1))
    fix ys y zs u
    assume "xs = ys @ y # zs" and "P ys u"
    then show "\<exists>v. f y u = Inr v \<and> P (ys @ [y]) v"
      by (intro snoc.prems(2) [of ys y "zs @ [x]"]) auto
  qed
  then obtain u where u: "efold f xs s = Inr u" "P xs u" by blast
  from snoc.prems(2) [of xs x "[]" u] u obtain v where "f x u = Inr v" "P (xs @ [x]) v" by auto
  with u show ?case by auto
qed

lemma efold_total:
  assumes "P s" and "\<And>x u. x \<in> set xs \<Longrightarrow> P u \<Longrightarrow> \<exists>v. f x u = Inr v \<and> P v"
  shows "\<exists>s'. efold f xs s = Inr s' \<and> P s'"
  using efold_total_prefix [of "\<lambda>_. P" s xs f] assms by auto

lemma efold_pure: "efold (\<lambda>x s. Inr (g x s)) xs s = Inr (fold g xs s)"
  by (induction xs arbitrary: s) auto

lemma fold_invariant_set:
  assumes "P s" and "\<And>x u. x \<in> set xs \<Longrightarrow> P u \<Longrightarrow> P (g x u)"
  shows "P (fold g xs s)"
  using assms by (induction xs arbitrary: s) auto

section \<open>Insertion-ordered sets\<close>

definition sadd :: "'a \<Rightarrow> 'a list \<Rightarrow> 'a list" where
  "sadd x xs = (if x \<in> set xs then xs else xs @ [x])"

definition saddAll :: "'a list \<Rightarrow> 'a list \<Rightarrow> 'a list" where
  "saddAll ys xs = fold sadd ys xs"

definition sdel :: "'a \<Rightarrow> 'a list \<Rightarrow> 'a list" where
  "sdel x xs = filter (\<lambda>y. y \<noteq> x) xs"

lemma set_sadd [simp]: "set (sadd x xs) = insert x (set xs)"
  by (auto simp: sadd_def)

lemma distinct_sadd [simp]: "distinct (sadd x xs) = distinct xs"
  by (auto simp: sadd_def)

lemma set_saddAll [simp]: "set (saddAll ys xs) = set ys \<union> set xs"
  unfolding saddAll_def by (induction ys arbitrary: xs) auto

lemma distinct_saddAll [simp]: "distinct (saddAll ys xs) = distinct xs"
  unfolding saddAll_def by (induction ys arbitrary: xs) auto

lemma set_sdel [simp]: "set (sdel x xs) = set xs - {x}"
  by (auto simp: sdel_def)

lemma distinct_sdel [simp]: "distinct xs \<Longrightarrow> distinct (sdel x xs)"
  by (auto simp: sdel_def)

section \<open>Lists and association lists\<close>

text \<open>\<open>findIndex\<close>: the first index whose element satisfies the predicate, if any.\<close>

fun findIndex :: "('a \<Rightarrow> bool) \<Rightarrow> 'a list \<Rightarrow> nat option" where
  "findIndex p [] = None"
| "findIndex p (x # xs) = (if p x then Some 0 else map_option Suc (findIndex p xs))"

text \<open>\<open>splice(i, 1)\<close>: the list without its \<open>i\<close>-th element.\<close>

definition splice1 :: "nat \<Rightarrow> 'a list \<Rightarrow> 'a list" where
  "splice1 i xs = take i xs @ drop (Suc i) xs"

lemma findIndex_Some:
  "findIndex p xs = Some i \<Longrightarrow> i < length xs \<and> p (xs ! i) \<and> (\<forall>j < i. \<not> p (xs ! j))"
proof (induction xs arbitrary: i)
  case Nil
  then show ?case by simp
next
  case (Cons x xs)
  show ?case
  proof (cases "p x")
    case True
    with Cons.prems show ?thesis by simp
  next
    case False
    with Cons.prems obtain k where k: "i = Suc k" "findIndex p xs = Some k" by auto
    with Cons.IH [OF k(2)] False show ?thesis by (auto simp: less_Suc_eq_0_disj)
  qed
qed

lemma findIndex_None: "findIndex p xs = None \<longleftrightarrow> (\<forall>x \<in> set xs. \<not> p x)"
  by (induction xs) auto

lemma findIndex_split:
  "findIndex p xs = Some i \<Longrightarrow>
     \<exists>ys x zs. xs = ys @ x # zs \<and> length ys = i \<and> p x \<and> (\<forall>y \<in> set ys. \<not> p y)"
proof (induction xs arbitrary: i)
  case Nil
  then show ?case by simp
next
  case (Cons x xs)
  show ?case
  proof (cases "p x")
    case True
    with Cons.prems show ?thesis by (intro exI [of _ "[]"]) auto
  next
    case False
    with Cons.prems obtain k where k: "i = Suc k" "findIndex p xs = Some k" by auto
    from Cons.IH [OF k(2)] obtain ys y zs where
      "xs = ys @ y # zs \<and> length ys = k \<and> p y \<and> (\<forall>z \<in> set ys. \<not> p z)" by blast
    with False k(1) show ?thesis by (intro exI [of _ "x # ys"]) auto
  qed
qed

lemma splice1_append [simp]: "length ys = i \<Longrightarrow> splice1 i (ys @ x # zs) = ys @ zs"
  by (simp add: splice1_def)

lemma length_splice1: "i < length xs \<Longrightarrow> length (splice1 i xs) = length xs - 1"
  by (simp add: splice1_def)

lemma set_splice1_subset: "set (splice1 i xs) \<subseteq> set xs"
  by (auto simp: splice1_def dest: in_set_takeD in_set_dropD)

lemma distinct_splice1: "distinct xs \<Longrightarrow> distinct (splice1 i xs)"
  by (auto simp: splice1_def set_take_disj_set_drop_if_distinct)

lemma map_of_AList_update [simp]: "map_of (AList.update k v al) = (map_of al)(k \<mapsto> v)"
  by (rule update_conv')

lemma map_of_AList_delete [simp]: "map_of (AList.delete k al) = (map_of al)(k := None)"
  by (rule delete_conv')

lemma map_of_distinct_values:
  "distinct (map fst al) \<Longrightarrow> (k, v) \<in> set al \<longleftrightarrow> map_of al k = Some v"
  by auto

lemma map_of_Some_in_values: "map_of al k = Some v \<Longrightarrow> v \<in> snd ` set al"
  by (force dest: map_of_SomeD)

lemma values_AList_update: "snd ` set (AList.update k v al) \<subseteq> insert v (snd ` set al)"
  by (induction al) auto

lemma set_AList_update:
  "distinct (map fst al) \<Longrightarrow>
     set (AList.update k v al) = insert (k, v) {(k', v') \<in> set al. k' \<noteq> k}"
  by (induction al) (auto intro: rev_image_eqI)

lemma set_AList_delete: "set (AList.delete k al) = {(k', v') \<in> set al. k' \<noteq> k}"
  by (induction al) auto

lemma AList_update_same: "map_of al k = Some v \<Longrightarrow> AList.update k v al = al"
  by (induction al) (auto split: if_splits)

end
