(* ===== verification/Workflow_Types.thy ===== *)
theory Workflow_Types
  imports Prelude
begin

text \<open>
  The data model of a workflow (\<open>packages/workflow/src/interfaces.ts\<close>): nodes, connection
  types, the nested connection tables, and the run data an execution leaves behind.

  A node is a JavaScript object, compared by identity (\<open>===\<close>). The field \<open>n_ref\<close> stands for
  that identity: two records are the same object when they are equal, and two objects with the
  same contents differ in \<open>n_ref\<close>. Optional fields are options (\<open>None\<close> is \<open>undefined\<close>). An object
  used as a dictionary is an association list in insertion order; the run data is polymorphic in
  the type \<open>'i\<close> of the items the nodes pass on.
\<close>

datatype node_connection_type =
    AiAgent | AiChain | AiDocument | AiEmbedding | AiLanguageModel | AiMemory
  | AiOutputParser | AiRetriever | AiReranker | AiTextSplitter | AiTool | AiVectorStore
  | Main

fun ctype_string :: "node_connection_type \<Rightarrow> string" where
  "ctype_string AiAgent = ''ai_agent''"
| "ctype_string AiChain = ''ai_chain''"
| "ctype_string AiDocument = ''ai_document''"
| "ctype_string AiEmbedding = ''ai_embedding''"
| "ctype_string AiLanguageModel = ''ai_languageModel''"
| "ctype_string AiMemory = ''ai_memory''"
| "ctype_string AiOutputParser = ''ai_outputParser''"
| "ctype_string AiRetriever = ''ai_retriever''"
| "ctype_string AiReranker = ''ai_reranker''"
| "ctype_string AiTextSplitter = ''ai_textSplitter''"
| "ctype_string AiTool = ''ai_tool''"
| "ctype_string AiVectorStore = ''ai_vectorStore''"
| "ctype_string Main = ''main''"

datatype on_error = StopWorkflow | ContinueRegularOutput | ContinueErrorOutput

record inode =
  n_ref :: nat
  n_id :: string
  n_name :: string
  n_type :: string
  n_typeVersion :: nat
  n_position :: "int \<times> int"
  n_disabled :: "bool option"
  n_retryOnFail :: "bool option"
  n_maxTries :: "int option"
  n_waitBetweenTries :: "int option"
  n_alwaysOutputData :: "bool option"
  n_executeOnce :: "bool option"
  n_onError :: "on_error option"
  n_continueOnFail :: "bool option"
  n_rewireOutputLogTo :: "node_connection_type option"
  n_parameters :: "(string \<times> string) list"

text \<open>\<open>if (node.disabled)\<close>: undefined counts as false.\<close>

definition isDisabled :: "inode \<Rightarrow> bool" where
  "isDisabled n \<longleftrightarrow> n_disabled n = Some True"

text \<open>A plain enabled node, used where only the reference and the name matter.\<close>

definition mkNode :: "nat \<Rightarrow> string \<Rightarrow> inode" where
  "mkNode r nm = \<lparr>n_ref = r, n_id = nm, n_name = nm, n_type = ''t'', n_typeVersion = 1,
     n_position = (0, 0), n_disabled = None, n_retryOnFail = None, n_maxTries = None,
     n_waitBetweenTries = None, n_alwaysOutputData = None, n_executeOnce = None,
     n_onError = None, n_continueOnFail = None, n_rewireOutputLogTo = None, n_parameters = []\<rparr>"

section \<open>Connections\<close>

record iconnection =
  c_node :: string
  c_type :: node_connection_type
  c_index :: nat

type_synonym node_input_connections = "iconnection list option list"
type_synonym inode_connections = "(node_connection_type \<times> node_input_connections) list"
type_synonym iconnections = "(string \<times> inode_connections) list"

section \<open>JSON\<close>

text \<open>A JSON value; \<open>JUndefined\<close> is a property that is present with the value \<open>undefined\<close>.\<close>

datatype json =
    JUndefined | JNull | JBool bool | JNum int | JStr string | JArr "json list"
  | JObj "(string \<times> json) list"

fun truthy :: "json \<Rightarrow> bool" where
  "truthy JUndefined = False"
| "truthy JNull = False"
| "truthy (JBool b) = b"
| "truthy (JNum n) = (n \<noteq> 0)"
| "truthy (JStr s) = (s \<noteq> [])"
| "truthy _ = True"

text \<open>A number as a string.\<close>

fun nat_string :: "nat \<Rightarrow> string" where
  "nat_string n =
     (if n < 10 then [char_of (48 + n)] else nat_string (n div 10) @ [char_of (48 + n mod 10)])"

declare nat_string.simps [simp del]

section \<open>Run data\<close>

record source_data =
  previousNode :: string
  previousNodeOutput :: "nat option"
  previousNodeRun :: "nat option"

type_synonym 'i task_data_connections = "(node_connection_type \<times> 'i list option list) list"
type_synonym task_data_connections_source = "(node_connection_type \<times> source_data option list) list"

datatype execution_status =
  StNew | StRunning | StSuccess | StError | StCanceled | StCrashed | StWaiting | StUnknown

record 'i task_data =
  t_executionIndex :: "nat option"
  t_source :: "source_data option list"
  t_executionStatus :: "execution_status option"
  t_data :: "'i task_data_connections option"
  t_inputOverride :: "'i task_data_connections option"
  t_error :: "string option"

type_synonym 'i run_data = "(string \<times> 'i task_data list) list"
type_synonym 'i pin_data = "(string \<times> 'i list) list"

section \<open>Workflows\<close>

text \<open>
  The part of a node type's description the engine reads. Node types are plugged in by name and
  version (\<open>nodeTypes.getByNameAndVersion\<close>): a workflow carries that lookup as a function.
\<close>

record node_type =
  nt_name :: string
  nt_group :: "string list"
  nt_trigger :: bool
  nt_poll :: bool
  nt_webhook :: bool
  nt_execute :: bool
  nt_inputs :: nat
  nt_requiredInputs :: "nat list option + nat"

record 'i workflow =
  w_nodes :: "(string \<times> inode) list"
  w_connectionsBySourceNode :: iconnections
  w_connectionsByDestinationNode :: iconnections
  w_nodeTypes :: "string \<Rightarrow> nat \<Rightarrow> node_type option"
  w_executionOrder :: "string option"
  w_pinData :: "'i pin_data option"

definition wf_getNode :: "'i workflow \<Rightarrow> string \<Rightarrow> inode option" where
  "wf_getNode w nm = map_of (w_nodes w) nm"

text \<open>\<open>Array.prototype.at\<close>: negative indices count from the end, out of range is undefined.\<close>

definition js_at :: "'a list \<Rightarrow> int \<Rightarrow> 'a option" where
  "js_at xs i =
     (let j = (if i < 0 then int (length xs) + i else i)
      in if 0 \<le> j \<and> j < int (length xs) then Some (xs ! nat j) else None)"

text \<open>\<open>x ?? d\<close>, and \<open>x || d\<close> for objects.\<close>

definition orElse :: "'a option \<Rightarrow> 'a \<Rightarrow> 'a" where
  "orElse x d = (case x of Some y \<Rightarrow> y | None \<Rightarrow> d)"

lemma orElse_simps [simp]: "orElse None d = d" "orElse (Some x) d = x"
  by (simp_all add: orElse_def)

text \<open>\<open>xs[i]\<close> read and written: a write past the end extends the array with the filler.\<close>

definition js_get :: "'a list \<Rightarrow> nat \<Rightarrow> 'a option" where
  "js_get xs i = (if i < length xs then Some (xs ! i) else None)"

definition js_set :: "'a \<Rightarrow> 'a list \<Rightarrow> nat \<Rightarrow> 'a \<Rightarrow> 'a list" where
  "js_set d xs i x =
     (if i < length xs then xs[i := x] else xs @ replicate (i - length xs) d @ [x])"

lemma js_get_simps [simp]:
  "js_get [] i = None" "js_get (x # xs) 0 = Some x" "js_get (x # xs) (Suc i) = js_get xs i"
  by (auto simp: js_get_def)

lemma js_get_Some_mem: "js_get xs i = Some x \<Longrightarrow> x \<in> set xs"
  by (auto simp: js_get_def split: if_splits)

lemma js_at_Some_mem: "js_at xs i = Some x \<Longrightarrow> x \<in> set xs"
  by (auto simp: js_at_def Let_def split: if_splits)

lemma js_at_nat [simp]: "js_at xs (int i) = js_get xs i"
  by (auto simp: js_at_def js_get_def)

lemma js_get_js_set [simp]: "js_get (js_set d xs i x) i = Some x"
  by (auto simp: js_get_def js_set_def nth_append)

lemma js_get_js_set_other:
  "j \<noteq> i \<Longrightarrow> js_get (js_set d xs i x) j =
     (if j < length xs then Some (xs ! j) else if j < i then Some d else None)"
  by (auto simp: js_get_def js_set_def nth_append)

lemma length_js_set [simp]: "length (js_set d xs i x) = max (length xs) (Suc i)"
  by (auto simp: js_set_def)

end
