(* ===== verification/DirectedGraph.thy ===== *)
theory DirectedGraph
  imports Workflow_Types
begin

text \<open>
  \<open>packages/core/src/execution-engine/partial-execution-utils/directed-graph.ts\<close>: the class
  \<open>DirectedGraph\<close>, its state and every operation. A graph is a \<open>Map\<close> from names to nodes and a
  \<open>Map\<close> from connection keys to connections. The recursive searches carry fuel for the depth of
  the recursion; \<open>depth_fuel\<close> (one more than the number of connections) is always enough.
\<close>

section \<open>State\<close>

record graph_connection =
  g_from :: inode
  g_to :: inode
  g_type :: node_connection_type
  g_outputIndex :: nat
  g_inputIndex :: nat

record dgraph =
  d_nodes :: "(string \<times> inode) list"
  d_connections :: "(string \<times> graph_connection) list"

definition newDirectedGraph :: dgraph where
  "newDirectedGraph = \<lparr>d_nodes = [], d_connections = []\<rparr>"

text \<open>The key of a connection, a template string.\<close>

definition makeKey :: "graph_connection \<Rightarrow> string" where
  "makeKey c = n_name (g_from c) @ ''-'' @ ctype_string (g_type c) @ ''-'' @
     nat_string (g_outputIndex c) @ ''-'' @ nat_string (g_inputIndex c) @ ''-'' @ n_name (g_to c)"

section \<open>Reading and editing\<close>

definition hasNode :: "dgraph \<Rightarrow> string \<Rightarrow> bool" where
  "hasNode g nm \<longleftrightarrow> map_of (d_nodes g) nm \<noteq> None"

definition getNodes :: "dgraph \<Rightarrow> inode list" where
  "getNodes g = map snd (d_nodes g)"

definition getNodesByNames :: "dgraph \<Rightarrow> string list \<Rightarrow> inode list" where
  "getNodesByNames g names =
     fold (\<lambda>nm s. case map_of (d_nodes g) nm of Some n \<Rightarrow> sadd n s | None \<Rightarrow> s) names []"

definition connectionValues :: "dgraph \<Rightarrow> graph_connection list" where
  "connectionValues g = map snd (d_connections g)"

definition getConnections :: "dgraph \<Rightarrow> inode option \<Rightarrow> graph_connection list" where
  "getConnections g toF =
     filter (\<lambda>c. case toF of Some n \<Rightarrow> g_to c = n | None \<Rightarrow> True) (connectionValues g)"

definition addNode :: "inode \<Rightarrow> dgraph \<Rightarrow> dgraph" where
  "addNode n g = g\<lparr>d_nodes := AList.update (n_name n) n (d_nodes g)\<rparr>"

definition addNodes :: "inode list \<Rightarrow> dgraph \<Rightarrow> dgraph" where
  "addNodes ns g = fold addNode ns g"

text \<open>\<open>this.nodes.get(node.name) === node\<close>\<close>

definition nodeExists :: "dgraph \<Rightarrow> inode \<Rightarrow> bool" where
  "nodeExists g n \<longleftrightarrow> map_of (d_nodes g) (n_name n) = Some n"

definition setConnection :: "graph_connection \<Rightarrow> dgraph \<Rightarrow> dgraph" where
  "setConnection c g = g\<lparr>d_connections := AList.update (makeKey c) c (d_connections g)\<rparr>"

definition addConnection ::
  "inode \<Rightarrow> inode \<Rightarrow> node_connection_type option \<Rightarrow> nat option \<Rightarrow> nat option \<Rightarrow> dgraph \<Rightarrow> dgraph result"
where
  "addConnection from to ty oi ii g =
     (if \<not> nodeExists g from then Inl AssertionError
      else if \<not> nodeExists g to then Inl AssertionError
      else Inr (setConnection
        \<lparr>g_from = from, g_to = to,
         g_type = (case ty of None \<Rightarrow> Main | Some t \<Rightarrow> t),
         g_outputIndex = (case oi of None \<Rightarrow> 0 | Some i \<Rightarrow> i),
         g_inputIndex = (case ii of None \<Rightarrow> 0 | Some i \<Rightarrow> i)\<rparr> g))"

text \<open>A whole \<open>GraphConnection\<close> passed as the input of \<open>addConnection\<close>.\<close>

definition addGraphConnection :: "graph_connection \<Rightarrow> dgraph \<Rightarrow> dgraph result" where
  "addGraphConnection c =
     addConnection (g_from c) (g_to c) (Some (g_type c)) (Some (g_outputIndex c)) (Some (g_inputIndex c))"

definition addConnections :: "graph_connection list \<Rightarrow> dgraph \<Rightarrow> dgraph result" where
  "addConnections cs g = efold addGraphConnection cs g"

definition getDirectChildConnections :: "dgraph \<Rightarrow> inode \<Rightarrow> graph_connection list result" where
  "getDirectChildConnections g n =
     assert_ok (nodeExists g n) (filter (\<lambda>c. g_from c = n) (connectionValues g))"

definition getDirectParentConnections :: "dgraph \<Rightarrow> inode \<Rightarrow> graph_connection list result" where
  "getDirectParentConnections g n =
     assert_ok (nodeExists g n) (filter (\<lambda>c. g_to c = n) (connectionValues g))"

definition getConnection ::
  "dgraph \<Rightarrow> inode \<Rightarrow> nat \<Rightarrow> node_connection_type \<Rightarrow> nat \<Rightarrow> inode \<Rightarrow> graph_connection option" where
  "getConnection g from oi ty ii to =
     map_of (d_connections g)
       (makeKey \<lparr>g_from = from, g_to = to, g_type = ty, g_outputIndex = oi, g_inputIndex = ii\<rparr>)"

definition clone :: "dgraph \<Rightarrow> dgraph result" where
  "clone g = addConnections (getConnections g None) (addNodes (getNodes g) newDirectedGraph)"

section \<open>Removing a node\<close>

definition dropConnectionsOf :: "inode \<Rightarrow> dgraph \<Rightarrow> dgraph" where
  "dropConnectionsOf n g =
     g\<lparr>d_connections := filter (\<lambda>(k, c). \<not> (g_to c = n \<or> g_from c = n)) (d_connections g)\<rparr>"

definition dropNode :: "inode \<Rightarrow> dgraph \<Rightarrow> dgraph" where
  "dropNode n g = g\<lparr>d_nodes := AList.delete (n_name n) (d_nodes g)\<rparr>"

text \<open>The connections that bridge the removed node: each parent with each child.\<close>

definition bridgeConnections ::
  "(graph_connection \<Rightarrow> bool) \<Rightarrow> graph_connection list \<Rightarrow> graph_connection list \<Rightarrow> graph_connection list"
where
  "bridgeConnections skip incoming outgoing =
     concat (map (\<lambda>i. map (\<lambda>j. i\<lparr>g_to := g_to j, g_inputIndex := g_inputIndex j\<rparr>)
                      (filter (\<lambda>j. \<not> skip j) outgoing))
                 (filter (\<lambda>i. \<not> skip i) incoming))"

definition removeNode :: "inode \<Rightarrow> dgraph \<Rightarrow> dgraph" where
  "removeNode n g = dropNode n (dropConnectionsOf n g)"

definition removeNodeReconnect ::
  "(graph_connection \<Rightarrow> bool) \<Rightarrow> inode \<Rightarrow> dgraph \<Rightarrow> (dgraph \<times> graph_connection list) result" where
  "removeNodeReconnect skip n g =
     ebind (getDirectParentConnections g n) (\<lambda>incoming.
     ebind (getDirectChildConnections g n) (\<lambda>outgoing.
       let new = bridgeConnections skip incoming outgoing
       in Inr (dropNode n (fold setConnection new (dropConnectionsOf n g)), new)))"

section \<open>Searching\<close>

fun getChildrenRecursive :: "dgraph \<Rightarrow> nat \<Rightarrow> inode \<Rightarrow> inode list \<Rightarrow> inode list result" where
  "getChildrenRecursive g 0 n children = Inl OutOfFuel"
| "getChildrenRecursive g (Suc f) n children =
     ebind (getDirectChildConnections g n) (\<lambda>direct.
       efold (\<lambda>c s. if g_to c \<in> set s then Inr s
                    else getChildrenRecursive g f (g_to c) (sadd (g_to c) s)) direct children)"

definition depth_fuel :: "dgraph \<Rightarrow> nat" where
  "depth_fuel g = Suc (length (d_connections g))"

definition getChildren :: "dgraph \<Rightarrow> inode \<Rightarrow> inode list result" where
  "getChildren g n = getChildrenRecursive g (depth_fuel g) n []"

fun getParentConnectionsRecursive ::
  "dgraph \<Rightarrow> nat \<Rightarrow> inode \<Rightarrow> graph_connection list \<Rightarrow> graph_connection list result" where
  "getParentConnectionsRecursive g 0 n connections = Inl OutOfFuel"
| "getParentConnectionsRecursive g (Suc f) n connections =
     ebind (getDirectParentConnections g n) (\<lambda>parents.
       efold (\<lambda>c s. if c \<in> set s then Inr s
                    else getParentConnectionsRecursive g f (g_from c) (sadd c s)) parents connections)"

definition getParentConnections :: "dgraph \<Rightarrow> inode \<Rightarrow> graph_connection list result" where
  "getParentConnections g n = getParentConnectionsRecursive g (depth_fuel g) n []"

text \<open>
  The search returns the node found, if any, and the set of seen nodes, which the source keeps
  in a mutable \<open>Set\<close>; once a node is found the loop over the children returns.
\<close>

fun depthFirstSearchRecursive ::
  "dgraph \<Rightarrow> (inode \<Rightarrow> bool) \<Rightarrow> nat \<Rightarrow> inode \<Rightarrow> inode list \<Rightarrow> (inode option \<times> inode list) result" where
  "depthFirstSearchRecursive g fn 0 from seen = Inl OutOfFuel"
| "depthFirstSearchRecursive g fn (Suc f) from seen =
     (if from \<in> set seen then Inr (None, seen)
      else if fn from then Inr (Some from, sadd from seen)
      else ebind (getDirectChildConnections g from) (\<lambda>direct.
        efold (\<lambda>c (found, s). case found of
                  Some x \<Rightarrow> Inr (found, s)
                | None \<Rightarrow> depthFirstSearchRecursive g fn f (g_to c) s)
              direct (None, sadd from seen)))"

definition depthFirstSearch :: "dgraph \<Rightarrow> inode \<Rightarrow> (inode \<Rightarrow> bool) \<Rightarrow> inode option result" where
  "depthFirstSearch g from fn =
     ebind (depthFirstSearchRecursive g fn (Suc (Suc (length (d_nodes g)))) from [])
       (\<lambda>(found, s). Inr found)"

section \<open>Invariant\<close>

text \<open>
  Nodes are registered under their names, connections under their keys, and both ends of every
  connection are the registered node objects.
\<close>

definition dg_inv :: "dgraph \<Rightarrow> bool" where
  "dg_inv g \<longleftrightarrow> distinct (map fst (d_nodes g)) \<and> distinct (map fst (d_connections g)) \<and>
     (\<forall>(k, n) \<in> set (d_nodes g). k = n_name n) \<and>
     (\<forall>(k, c) \<in> set (d_connections g). k = makeKey c \<and> nodeExists g (g_from c) \<and> nodeExists g (g_to c))"

text \<open>The edge relation, of all connections and of the \<open>main\<close> ones only.\<close>

definition edges :: "dgraph \<Rightarrow> (inode \<times> inode) set" where
  "edges g = {(g_from c, g_to c) | c. c \<in> set (connectionValues g)}"

definition main_edges :: "dgraph \<Rightarrow> (inode \<times> inode) set" where
  "main_edges g = {(g_from c, g_to c) | c. c \<in> set (connectionValues g) \<and> g_type c = Main}"

lemma dg_invD:
  assumes "dg_inv g"
  shows "distinct (map fst (d_nodes g))" "distinct (map fst (d_connections g))"
    "(k, n) \<in> set (d_nodes g) \<Longrightarrow> k = n_name n"
    "(k, c) \<in> set (d_connections g) \<Longrightarrow> k = makeKey c"
    "c \<in> set (connectionValues g) \<Longrightarrow> nodeExists g (g_from c)"
    "c \<in> set (connectionValues g) \<Longrightarrow> nodeExists g (g_to c)"
  using assms by (auto simp: dg_inv_def connectionValues_def)

lemma dg_inv_connections_iff:
  "dg_inv g \<Longrightarrow> (k, c) \<in> set (d_connections g) \<longleftrightarrow> c \<in> set (connectionValues g) \<and> k = makeKey c"
  by (force simp: connectionValues_def dest: dg_invD(4))

lemma nodeExists_iff: "dg_inv g \<Longrightarrow> nodeExists g n \<longleftrightarrow> n \<in> set (getNodes g)"
  using dg_invD(1,3) [of g] unfolding nodeExists_def getNodes_def
  by (metis (no_types, lifting) imageE image_eqI list.set_map map_of_eq_Some_iff prod.collapse snd_conv)

lemma finite_edges [simp]: "finite (edges g)"
  by (rule finite_subset [of _ "(\<lambda>c. (g_from c, g_to c)) ` set (connectionValues g)"])
    (auto simp: edges_def)

lemma edges_nodes: "dg_inv g \<Longrightarrow> (a, b) \<in> edges g \<Longrightarrow> nodeExists g a \<and> nodeExists g b"
  by (auto simp: edges_def dest: dg_invD)

lemma main_edges_subset: "main_edges g \<subseteq> edges g"
  by (auto simp: edges_def main_edges_def)

lemma edges_rtrancl_nodes:
  "(a, b) \<in> (edges g)\<^sup>* \<Longrightarrow> dg_inv g \<Longrightarrow> nodeExists g a \<Longrightarrow> nodeExists g b"
  by (induction rule: rtrancl_induct) (auto dest: edges_nodes)

subsection \<open>Editing keeps the invariant\<close>

lemma nodeExists_addNode:
  "nodeExists (addNode n g) m \<longleftrightarrow> (if n_name m = n_name n then m = n else nodeExists g m)"
  by (auto simp: nodeExists_def addNode_def)

lemma nodeExists_addNode_mono:
  "(hasNode g (n_name n) \<Longrightarrow> nodeExists g n) \<Longrightarrow> nodeExists g m \<Longrightarrow> nodeExists (addNode n g) m"
  by (auto simp: addNode_def hasNode_def nodeExists_def)

lemma nodeExists_setConnection [simp]: "nodeExists (setConnection c g) n = nodeExists g n"
  by (simp add: nodeExists_def setConnection_def)

lemma connectionValues_addNode [simp]: "connectionValues (addNode n g) = connectionValues g"
  by (simp add: connectionValues_def addNode_def)

lemma dg_inv_new [simp, inv_intros]: "dg_inv newDirectedGraph"
  by (simp add: dg_inv_def newDirectedGraph_def)

lemma dg_inv_addNode [inv_intros]:
  assumes "dg_inv g" and "hasNode g (n_name n) \<Longrightarrow> nodeExists g n"
  shows "dg_inv (addNode n g)"
proof -
  have "\<And>m. nodeExists g m \<Longrightarrow> nodeExists (addNode n g) m"
    using assms(2) by (rule nodeExists_addNode_mono)
  moreover have "\<forall>(k, m) \<in> set (AList.update (n_name n) n (d_nodes g)). k = n_name m"
    using assms(1) by (auto simp: set_AList_update dg_inv_def)
  ultimately show ?thesis
    using assms(1) by (fastforce simp: dg_inv_def distinct_update addNode_def [of n g])
qed

lemma dg_inv_setConnection [inv_intros]:
  assumes "dg_inv g" "nodeExists g (g_from c)" "nodeExists g (g_to c)"
  shows "dg_inv (setConnection c g)"
proof -
  have "\<forall>(k, d) \<in> set (AList.update (makeKey c) c (d_connections g)).
      k = makeKey d \<and> nodeExists g (g_from d) \<and> nodeExists g (g_to d)"
    using assms by (auto simp: set_AList_update dg_inv_def)
  then have "\<forall>(k, d) \<in> set (d_connections (setConnection c g)).
      k = makeKey d \<and> nodeExists (setConnection c g) (g_from d) \<and> nodeExists (setConnection c g) (g_to d)"
    by (simp add: setConnection_def nodeExists_def)
  then show ?thesis
    using assms(1) by (simp add: dg_inv_def setConnection_def distinct_update)
qed

lemma addConnection_ok:
  "nodeExists g from \<Longrightarrow> nodeExists g to \<Longrightarrow> \<exists>g'. addConnection from to ty oi ii g = Inr g'"
  by (simp add: addConnection_def)

lemma dg_inv_addConnection:
  "dg_inv g \<Longrightarrow> addConnection from to ty oi ii g = Inr g' \<Longrightarrow> dg_inv g'"
  by (auto simp: addConnection_def intro!: dg_inv_setConnection split: if_splits)

lemma addGraphConnection_simp:
  "addGraphConnection c g =
     (if nodeExists g (g_from c) \<and> nodeExists g (g_to c) then Inr (setConnection c g)
      else Inl AssertionError)"
  by (cases c) (auto simp: addGraphConnection_def addConnection_def)

lemma connectionValues_setConnection_subset:
  "set (connectionValues (setConnection c g)) \<subseteq> insert c (set (connectionValues g))"
  using values_AList_update by (force simp: connectionValues_def setConnection_def)

lemma connectionValues_setConnection_mem [simp]:
  "c \<in> set (connectionValues (setConnection c g))"
proof -
  have "map_of (d_connections (setConnection c g)) (makeKey c) = Some c"
    by (simp add: setConnection_def)
  then show ?thesis by (auto simp: connectionValues_def dest: map_of_Some_in_values)
qed

lemma connectionValues_setConnection_other:
  assumes "dg_inv g" "d \<in> set (connectionValues g)" "makeKey d \<noteq> makeKey c"
  shows "d \<in> set (connectionValues (setConnection c g))"
proof -
  have "map_of (d_connections g) (makeKey d) = Some d"
    using assms(1,2) dg_inv_connections_iff by (simp add: dg_invD(2))
  with assms(3) have "map_of (d_connections (setConnection c g)) (makeKey d) = Some d"
    by (simp add: setConnection_def)
  then show ?thesis by (auto simp: connectionValues_def dest: map_of_Some_in_values)
qed

lemma nodeExists_dropNode [simp]:
  "nodeExists (dropNode n g) m \<longleftrightarrow> n_name m \<noteq> n_name n \<and> nodeExists g m"
  by (auto simp: nodeExists_def dropNode_def)

lemma connectionValues_drop [simp]:
  "connectionValues (dropNode n g) = connectionValues g"
  "set (connectionValues (dropConnectionsOf n g)) =
     {c \<in> set (connectionValues g). g_from c \<noteq> n \<and> g_to c \<noteq> n}"
  by (auto simp: connectionValues_def dropNode_def dropConnectionsOf_def)

lemma nodeExists_dropConnectionsOf [simp]: "nodeExists (dropConnectionsOf n g) m = nodeExists g m"
  by (simp add: nodeExists_def dropConnectionsOf_def)

lemma dg_inv_dropConnectionsOf: "dg_inv g \<Longrightarrow> dg_inv (dropConnectionsOf n g)"
  unfolding dg_inv_def by (auto simp: dropConnectionsOf_def distinct_map_filter nodeExists_def)

lemma dg_inv_dropNode:
  assumes "dg_inv g" and "nodeExists g n"
    and "\<forall>c \<in> set (connectionValues g). g_from c \<noteq> n \<and> g_to c \<noteq> n"
  shows "dg_inv (dropNode n g)"
proof -
  have *: "n_name m \<noteq> n_name n" if "nodeExists g m" "m \<noteq> n" for m
    using that assms(2) by (auto simp: nodeExists_def)
  have "\<forall>(k, c) \<in> set (d_connections g).
      k = makeKey c \<and> nodeExists (dropNode n g) (g_from c) \<and> nodeExists (dropNode n g) (g_to c)"
  proof clarify
    fix k c assume "(k, c) \<in> set (d_connections g)"
    then have c: "c \<in> set (connectionValues g)" "k = makeKey c"
      using assms(1) by (simp_all add: dg_inv_connections_iff)
    with assms(1,3) * show "k = makeKey c \<and> nodeExists (dropNode n g) (g_from c) \<and>
        nodeExists (dropNode n g) (g_to c)"
      by (auto dest: dg_invD)
  qed
  with assms(1) show ?thesis
    by (auto simp: dg_inv_def dropNode_def distinct_delete set_AList_delete)
qed

lemma dg_inv_removeNode [inv_intros]:
  "dg_inv g \<Longrightarrow> nodeExists g n \<Longrightarrow> dg_inv (removeNode n g)"
  unfolding removeNode_def by (intro dg_inv_dropNode dg_inv_dropConnectionsOf) auto

lemma nodeExists_fold_setConnection [simp]:
  "nodeExists (fold setConnection cs g) n = nodeExists g n"
  by (induction cs arbitrary: g) auto

lemma dg_inv_fold_setConnection:
  "dg_inv g \<Longrightarrow> \<forall>c \<in> set cs. nodeExists g (g_from c) \<and> nodeExists g (g_to c) \<Longrightarrow>
     dg_inv (fold setConnection cs g)"
  by (induction cs arbitrary: g) (simp_all add: dg_inv_setConnection)

lemma connectionValues_fold_setConnection:
  "set (connectionValues (fold setConnection cs g)) \<subseteq> set cs \<union> set (connectionValues g)"
proof (induction cs arbitrary: g)
  case Nil
  then show ?case by simp
next
  case (Cons c cs)
  from Cons.IH [of "setConnection c g"] connectionValues_setConnection_subset [of c g]
  show ?case by auto
qed

text \<open>\<open>{ reconnectConnections: true }\<close>: the bridges between the parents and the children.\<close>

lemma set_bridgeConnections:
  "set (bridgeConnections skip is os) =
     {i\<lparr>g_to := g_to j, g_inputIndex := g_inputIndex j\<rparr> | i j.
        i \<in> set is \<and> j \<in> set os \<and> \<not> skip i \<and> \<not> skip j}"
  by (auto simp: bridgeConnections_def)

definition bridges :: "(graph_connection \<Rightarrow> bool) \<Rightarrow> inode \<Rightarrow> dgraph \<Rightarrow> graph_connection list" where
  "bridges skip n g = bridgeConnections skip (filter (\<lambda>c. g_to c = n) (connectionValues g))
     (filter (\<lambda>c. g_from c = n) (connectionValues g))"

lemma removeNodeReconnect_ok:
  "nodeExists g n \<Longrightarrow> removeNodeReconnect skip n g =
     Inr (dropNode n (fold setConnection (bridges skip n g) (dropConnectionsOf n g)), bridges skip n g)"
  by (simp add: removeNodeReconnect_def getDirectParentConnections_def
      getDirectChildConnections_def bridges_def Let_def)

lemma bridgesE:
  assumes "c \<in> set (bridges skip n g)"
  obtains i j where "i \<in> set (connectionValues g)" "j \<in> set (connectionValues g)"
    "g_to i = n" "g_from j = n" "\<not> skip i" "\<not> skip j" "g_from c = g_from i" "g_to c = g_to j"
    "g_type c = g_type i"
  using assms by (auto simp: bridges_def set_bridgeConnections)

definition no_self_loop :: "(graph_connection \<Rightarrow> bool) \<Rightarrow> inode \<Rightarrow> dgraph \<Rightarrow> bool" where
  "no_self_loop skip n g \<longleftrightarrow>
     (\<forall>c \<in> set (connectionValues g). g_from c = n \<and> g_to c = n \<longrightarrow> skip c)"

lemma dg_inv_removeNodeReconnect [inv_intros]:
  assumes "dg_inv g" "nodeExists g n" "no_self_loop skip n g"
    and "removeNodeReconnect skip n g = Inr (g', new)"
  shows "dg_inv g'"
proof -
  let ?bs = "bridges skip n g" and ?h = "dropConnectionsOf n g"
  have g': "g' = dropNode n (fold setConnection ?bs ?h)"
    using assms(2,4) by (auto simp: removeNodeReconnect_ok)
  have ends: "g_from c \<noteq> n \<and> g_to c \<noteq> n \<and> nodeExists g (g_from c) \<and> nodeExists g (g_to c)"
    if "c \<in> set ?bs" for c
    using that assms(1,3) by (elim bridgesE) (auto simp: no_self_loop_def dest: dg_invD)
  have "dg_inv (fold setConnection ?bs ?h)"
    using assms(1) ends by (intro dg_inv_fold_setConnection dg_inv_dropConnectionsOf) auto
  moreover have "\<forall>c \<in> set (connectionValues (fold setConnection ?bs ?h)). g_from c \<noteq> n \<and> g_to c \<noteq> n"
    using connectionValues_fold_setConnection [of ?bs ?h] ends by auto
  ultimately show ?thesis
    unfolding g' using assms(2) by (intro dg_inv_dropNode) auto
qed

subsection \<open>Keys\<close>

lemma nat_string_no_dash: "CHR ''-'' \<notin> set (nat_string n)"
proof (induction n rule: nat_string.induct)
  case (1 n)
  have "CHR ''-'' \<noteq> char_of (48 + k)" if "k < 10" for k :: nat
  proof
    assume "CHR ''-'' = char_of (48 + k)"
    then have "(of_char CHR ''-'' :: nat) = of_char (char_of (48 + k) :: char)" by simp
    with that show False by (simp add: of_char_of)
  qed
  note nd = this
  show ?case
  proof (cases "n < 10")
    case True
    with nd [of n] show ?thesis by (simp add: nat_string.simps [of n])
  next
    case False
    with nd [of "n mod 10"] 1 show ?thesis by (simp add: nat_string.simps [of n])
  qed
qed

lemma nat_string_inj: "nat_string m = nat_string n \<Longrightarrow> m = n"
proof (induction m arbitrary: n rule: nat_string.induct)
  case (1 m)
  have digit: "char_of (48 + k) = (char_of (48 + l) :: char) \<Longrightarrow> k = l" if "k < 10" "l < 10" for k l :: nat
  proof -
    assume "char_of (48 + k) = (char_of (48 + l) :: char)"
    then have "of_char (char_of (48 + k) :: char) = (of_char (char_of (48 + l) :: char) :: nat)" by simp
    with that show "k = l" by (simp add: of_char_of)
  qed
  have ne: "nat_string k \<noteq> []" "[] \<noteq> nat_string k" for k by (simp_all add: nat_string.simps [of k])
  show ?case
  proof (cases "m < 10 \<or> n < 10")
    case True
    with "1.prems" ne digit show ?thesis
      by (auto simp: nat_string.simps [of m] nat_string.simps [of n] split: if_splits)
  next
    case False
    then have eq: "nat_string (m div 10) = nat_string (n div 10)"
      "char_of (48 + m mod 10) = (char_of (48 + n mod 10) :: char)"
      using "1.prems" by (auto simp: nat_string.simps [of m] nat_string.simps [of n])
    with False "1.IH" have "m div 10 = n div 10" by auto
    moreover from eq(2) have "m mod 10 = n mod 10" by (rule digit [rotated 2]) auto
    ultimately show ?thesis by (metis div_mult_mod_eq)
  qed
qed

lemma split_at_unique:
  "x \<notin> set as \<Longrightarrow> x \<notin> set bs \<Longrightarrow> as @ x # as' = bs @ x # bs' \<Longrightarrow> as = bs \<and> as' = bs'"
proof (induction as arbitrary: bs)
  case Nil
  then show ?case by (cases bs) auto
next
  case (Cons a as)
  then show ?case by (cases bs) auto
qed

lemma ctype_string_inj: "ctype_string t = ctype_string u \<Longrightarrow> t = u"
  by (cases t; cases u) auto

lemma ctype_string_no_dash: "CHR ''-'' \<notin> set (ctype_string t)"
  by (cases t) auto

lemma makeKey_inj:
  assumes "makeKey c = makeKey d"
    and "CHR ''-'' \<notin> set (n_name (g_from c))" "CHR ''-'' \<notin> set (n_name (g_from d))"
  shows "n_name (g_from c) = n_name (g_from d) \<and> g_type c = g_type d \<and>
    g_outputIndex c = g_outputIndex d \<and> g_inputIndex c = g_inputIndex d \<and>
    n_name (g_to c) = n_name (g_to d)"
proof -
  let ?d = "CHR ''-''"
  let ?i = "\<lambda>c. nat_string (g_inputIndex c) @ ?d # n_name (g_to c)"
  let ?o = "\<lambda>c. nat_string (g_outputIndex c) @ ?d # ?i c"
  let ?t = "\<lambda>c. ctype_string (g_type c) @ ?d # ?o c"
  have "n_name (g_from c) @ ?d # ?t c = n_name (g_from d) @ ?d # ?t d"
    using assms(1) by (simp only: makeKey_def append_Cons append_Nil append_assoc)
  then have 1: "n_name (g_from c) = n_name (g_from d)" "?t c = ?t d"
    using split_at_unique [OF assms(2,3)] by blast+
  from split_at_unique [OF ctype_string_no_dash ctype_string_no_dash 1(2)]
  have 2: "ctype_string (g_type c) = ctype_string (g_type d)" "?o c = ?o d" by blast+
  from split_at_unique [OF nat_string_no_dash nat_string_no_dash 2(2)]
  have 3: "nat_string (g_outputIndex c) = nat_string (g_outputIndex d)" "?i c = ?i d" by blast+
  from split_at_unique [OF nat_string_no_dash nat_string_no_dash 3(2)]
  have 4: "nat_string (g_inputIndex c) = nat_string (g_inputIndex d)" "n_name (g_to c) = n_name (g_to d)"
    by blast+
  from 1(1) ctype_string_inj [OF 2(1)] nat_string_inj [OF 3(1)] nat_string_inj [OF 4(1)] 4(2)
  show ?thesis by simp
qed

section \<open>Recursive visits\<close>

text \<open>
  \<open>getChildrenRecursive\<close> and \<open>getParentConnectionsRecursive\<close> are one pattern: from a node, go
  over its outgoing items; skip an item already collected, otherwise collect it and visit its
  target. The locale states the pattern; both functions are interpretations of it.
\<close>

definition out_rel :: "('n \<Rightarrow> 'c list) \<Rightarrow> ('c \<Rightarrow> 'n) \<Rightarrow> ('n \<times> 'n) set" where
  "out_rel out tgt = {(n, tgt c) | n c. c \<in> set (out n)}"

locale recursive_visit =
  fixes visit :: "nat \<Rightarrow> 'n \<Rightarrow> 'c list \<Rightarrow> 'c list result"
    and out :: "'n \<Rightarrow> 'c list" and tgt :: "'c \<Rightarrow> 'n" and V :: "'n set" and E :: "'c set"
  assumes visit_Suc: "n \<in> V \<Longrightarrow> visit (Suc f) n s =
      efold (\<lambda>c s. if c \<in> set s then Inr s else visit f (tgt c) (sadd c s)) (out n) s"
    and out_E: "n \<in> V \<Longrightarrow> set (out n) \<subseteq> E"
    and tgt_V: "c \<in> E \<Longrightarrow> tgt c \<in> V"
    and finite_E: "finite E"
begin

definition visited_ok :: "'n \<Rightarrow> 'c list \<Rightarrow> 'c list \<Rightarrow> bool" where
  "visited_ok n s u \<longleftrightarrow> set s \<subseteq> set u \<and> set u \<subseteq> E \<and> (distinct s \<longrightarrow> distinct u) \<and>
     (\<forall>c \<in> set u - set s. set (out (tgt c)) \<subseteq> set u) \<and>
     (\<forall>c \<in> set u - set s. \<exists>m. (n, m) \<in> (out_rel out tgt)\<^sup>* \<and> c \<in> set (out m))"

lemma visited_ok_step:
  assumes "visited_ok n s u" and "c \<in> set (out n)" and "visited_ok (tgt c) (sadd c u) v"
    and "set (out (tgt c)) \<subseteq> set v"
  shows "visited_ok n s v"
proof -
  have nc: "(n, tgt c) \<in> out_rel out tgt" using assms(2) by (auto simp: out_rel_def)
  have reach: "\<exists>m. (n, m) \<in> (out_rel out tgt)\<^sup>* \<and> d \<in> set (out m)"
    if d: "d \<in> set v - set s" for d
  proof (cases "d \<in> set u \<or> d = c")
    case True
    with d assms(1,2) show ?thesis by (auto simp: visited_ok_def)
  next
    case False
    with d have "d \<in> set v - set (sadd c u)" by simp
    with assms(3) obtain m where "(tgt c, m) \<in> (out_rel out tgt)\<^sup>*" "d \<in> set (out m)"
      unfolding visited_ok_def by blast
    with nc show ?thesis by (meson converse_rtrancl_into_rtrancl)
  qed
  have closed: "set (out (tgt d)) \<subseteq> set v" if d: "d \<in> set v - set s" for d
  proof (cases "d \<in> set u \<or> d = c")
    case True
    have uv: "set u \<subseteq> set v" using assms(3) by (auto simp: visited_ok_def)
    from True show ?thesis
    proof
      assume "d \<in> set u"
      with d assms(1) have "set (out (tgt d)) \<subseteq> set u" by (auto simp: visited_ok_def)
      with uv show ?thesis by blast
    qed (use assms(4) in simp)
  next
    case False
    with d assms(3) show ?thesis by (auto simp: visited_ok_def)
  qed
  show ?thesis
    using reach closed assms(1,3) by (auto simp: visited_ok_def)
qed

theorem visit_ok:
  "n \<in> V \<Longrightarrow> set s \<subseteq> E \<Longrightarrow> card (E - set s) < f \<Longrightarrow>
     \<exists>u. visit f n s = Inr u \<and> visited_ok n s u \<and> set (out n) \<subseteq> set u"
proof (induction f arbitrary: n s)
  case 0
  then show ?case by simp
next
  case (Suc f)
  let ?P = "\<lambda>ys u. visited_ok n s u \<and> set ys \<subseteq> set u"
  have "\<exists>u. efold (\<lambda>c s. if c \<in> set s then Inr s else visit f (tgt c) (sadd c s)) (out n) s = Inr u \<and>
      ?P (out n) u"
  proof (rule efold_total_prefix)
    show "?P [] s" using Suc.prems(2) by (auto simp: visited_ok_def)
    fix ys c zs u
    assume split: "out n = ys @ c # zs" and P: "?P ys u"
    show "\<exists>v. (if c \<in> set u then Inr u else visit f (tgt c) (sadd c u)) = Inr v \<and> ?P (ys @ [c]) v"
    proof (cases "c \<in> set u")
      case True
      with P show ?thesis by auto
    next
      case False
      have c: "c \<in> set (out n)" by (simp add: split)
      then have cE: "c \<in> E" using out_E [OF Suc.prems(1)] by blast
      have "card (E - set (sadd c u)) < card (E - set u)"
        using False cE finite_E by (intro psubset_card_mono) auto
      also have "\<dots> \<le> card (E - set s)"
        using P finite_E by (intro card_mono) (auto simp: visited_ok_def)
      finally have "card (E - set (sadd c u)) < f" using Suc.prems(3) by simp
      moreover have "set (sadd c u) \<subseteq> E" using P cE by (auto simp: visited_ok_def)
      ultimately obtain v where v: "visit f (tgt c) (sadd c u) = Inr v"
        "visited_ok (tgt c) (sadd c u) v" "set (out (tgt c)) \<subseteq> set v"
        using Suc.IH [OF tgt_V [OF cE]] by blast
      from visited_ok_step [OF _ c v(2,3)] P have "visited_ok n s v" by blast
      moreover have "set (ys @ [c]) \<subseteq> set v" using P v(2) by (auto simp: visited_ok_def)
      ultimately show ?thesis using False v(1) by auto
    qed
  qed
  with visit_Suc [OF Suc.prems(1)] show ?case by simp
qed

theorem visit_from_empty:
  assumes "n \<in> V" and "card E < f"
  shows "\<exists>u. visit f n [] = Inr u \<and> distinct u \<and>
    set u = {c. \<exists>m. (n, m) \<in> (out_rel out tgt)\<^sup>* \<and> c \<in> set (out m)}"
proof -
  from visit_ok [of n "[]" f] assms obtain u where
    u: "visit f n [] = Inr u" "visited_ok n [] u" "set (out n) \<subseteq> set u" by auto
  have "set (out m) \<subseteq> set u" if "(n, m) \<in> (out_rel out tgt)\<^sup>*" for m
    using that
  proof (induction rule: rtrancl_induct)
    case base
    show ?case by (rule u(3))
  next
    case (step m m')
    then obtain c where "m' = tgt c" "c \<in> set u" by (auto simp: out_rel_def)
    with u(2) show ?case by (auto simp: visited_ok_def)
  qed
  with u(2) have "set u = {c. \<exists>m. (n, m) \<in> (out_rel out tgt)\<^sup>* \<and> c \<in> set (out m)}"
    by (auto simp: visited_ok_def)
  with u(1,2) show ?thesis by (auto simp: visited_ok_def)
qed

end

subsection \<open>\<open>getChildren\<close>\<close>

text \<open>
  The nodes a call reaches are those registered in the graph; outside of it the visit is only
  ever called by the assertion that fails, so the interpretation fixes the graph's own nodes.
\<close>

definition childNodes :: "dgraph \<Rightarrow> inode \<Rightarrow> inode list" where
  "childNodes g n = map g_to (filter (\<lambda>c. g_from c = n) (connectionValues g))"

definition parentConns :: "dgraph \<Rightarrow> inode \<Rightarrow> graph_connection list" where
  "parentConns g n = filter (\<lambda>c. g_to c = n) (connectionValues g)"

lemma set_childNodes: "m \<in> set (childNodes g n) \<longleftrightarrow> (n, m) \<in> edges g"
  by (auto simp: childNodes_def edges_def)

lemma set_parentConns: "c \<in> set (parentConns g n) \<longleftrightarrow> c \<in> set (connectionValues g) \<and> g_to c = n"
  by (auto simp: parentConns_def)

lemma efold_map: "efold f (map h xs) s = efold (\<lambda>x. f (h x)) xs s"
proof (induction xs arbitrary: s)
  case Nil
  then show ?case by simp
next
  case (Cons x xs)
  then have "efold f (map h xs) = efold (\<lambda>x. f (h x)) xs" by (intro ext)
  then show ?case by simp
qed

lemma out_rel_childNodes: "out_rel (childNodes g) id = edges g"
  by (auto simp: out_rel_def set_childNodes)

lemma out_rel_parentConns: "out_rel (parentConns g) g_from = (edges g)\<inverse>"
  by (auto simp: out_rel_def edges_def parentConns_def)

interpretation children: recursive_visit "getChildrenRecursive g" "childNodes g" id
    "{n. dg_inv g \<and> nodeExists g n}" "{m. dg_inv g \<and> m \<in> g_to ` set (connectionValues g)}" for g
proof unfold_locales
  fix n f s
  assume "n \<in> {n. dg_inv g \<and> nodeExists g n}"
  then show "getChildrenRecursive g (Suc f) n s = efold (\<lambda>c s. if c \<in> set s then Inr s
      else getChildrenRecursive g f (id c) (sadd c s)) (childNodes g n) s"
    by (simp add: getDirectChildConnections_def childNodes_def efold_map cong: if_cong)
next
  fix c assume "c \<in> {m. dg_inv g \<and> m \<in> g_to ` set (connectionValues g)}"
  then show "id c \<in> {n. dg_inv g \<and> nodeExists g n}" by (auto dest: dg_invD)
qed (auto simp: childNodes_def)

interpretation parents: recursive_visit "getParentConnectionsRecursive g" "parentConns g" g_from
    "{n. dg_inv g \<and> nodeExists g n}" "{c. dg_inv g \<and> c \<in> set (connectionValues g)}" for g
proof unfold_locales
  fix n f s
  assume "n \<in> {n. dg_inv g \<and> nodeExists g n}"
  then show "getParentConnectionsRecursive g (Suc f) n s = efold (\<lambda>c s. if c \<in> set s then Inr s
      else getParentConnectionsRecursive g f (g_from c) (sadd c s)) (parentConns g n) s"
    by (simp add: getDirectParentConnections_def parentConns_def)
next
  fix c assume "c \<in> {c. dg_inv g \<and> c \<in> set (connectionValues g)}"
  then show "g_from c \<in> {n. dg_inv g \<and> nodeExists g n}" by (auto dest: dg_invD)
qed (auto simp: parentConns_def)

lemma card_values_less: "card {c. P \<and> c \<in> h ` set (connectionValues g)} < depth_fuel g"
proof -
  have "card {c. P \<and> c \<in> h ` set (connectionValues g)} \<le> card (h ` set (connectionValues g))"
    by (intro card_mono) auto
  also have "\<dots> \<le> length (connectionValues g)" by (meson card_image_le card_length finite_set le_trans)
  finally show ?thesis by (simp add: depth_fuel_def connectionValues_def)
qed

lemma getChildren_ok:
  assumes "dg_inv g" "nodeExists g n"
  shows "\<exists>u. getChildren g n = Inr u \<and> distinct u \<and> set u = {m. (n, m) \<in> (edges g)\<^sup>+}"
proof -
  from children.visit_from_empty [of n g "depth_fuel g"] card_values_less [of "dg_inv g" g_to g] assms
  obtain u where u: "getChildren g n = Inr u" "distinct u"
    "set u = {c. \<exists>m. (n, m) \<in> (edges g)\<^sup>* \<and> c \<in> set (childNodes g m)}"
    by (auto simp: getChildren_def out_rel_childNodes)
  have "set u = {m. (n, m) \<in> (edges g)\<^sup>+}"
    using u(3) by (auto simp: set_childNodes dest: rtrancl_into_trancl1 tranclD2)
  with u(1,2) show ?thesis by blast
qed

lemma getParentConnections_ok:
  assumes "dg_inv g" "nodeExists g n"
  shows "\<exists>u. getParentConnections g n = Inr u \<and> distinct u \<and>
    set u = {c \<in> set (connectionValues g). (g_to c, n) \<in> (edges g)\<^sup>*}"
proof -
  from parents.visit_from_empty [of n g "depth_fuel g"] card_values_less [of "dg_inv g" id g] assms
  obtain u where u: "getParentConnections g n = Inr u" "distinct u"
    "set u = {c. \<exists>m. (n, m) \<in> ((edges g)\<inverse>)\<^sup>* \<and> c \<in> set (parentConns g m)}"
    by (auto simp: getParentConnections_def out_rel_parentConns)
  have "set u = {c \<in> set (connectionValues g). (g_to c, n) \<in> (edges g)\<^sup>*}"
    using u(3) by (auto simp: set_parentConns rtrancl_converse)
  with u(1,2) show ?thesis by blast
qed

lemmas visit_results = getChildren_ok getParentConnections_ok

subsection \<open>\<open>depthFirstSearch\<close>\<close>

text \<open>
  What one call promises: a node found satisfies the predicate and is reachable; if none is
  found, everything newly seen fails the predicate and its children have been seen.
\<close>

definition dfs_ok ::
  "dgraph \<Rightarrow> (inode \<Rightarrow> bool) \<Rightarrow> inode \<Rightarrow> inode list \<Rightarrow> inode option \<times> inode list \<Rightarrow> bool" where
  "dfs_ok g fn src seen r \<longleftrightarrow> (case r of (found, s) \<Rightarrow>
     set seen \<subseteq> set s \<and> set s \<subseteq> set (getNodes g) \<and>
     (case found of
        Some x \<Rightarrow> fn x \<and> (src, x) \<in> (edges g)\<^sup>*
      | None \<Rightarrow> (\<forall>n \<in> set s - set seen. \<not> fn n \<and> set (childNodes g n) \<subseteq> set s)))"

lemma length_getNodes: "dg_inv g \<Longrightarrow> card (set (getNodes g)) \<le> length (d_nodes g)"
  by (metis card_length getNodes_def length_map)

lemma getDirectChildConnections_ok:
  "nodeExists g n \<Longrightarrow> getDirectChildConnections g n =
     Inr (filter (\<lambda>c. g_from c = n) (connectionValues g))"
  by (simp add: getDirectChildConnections_def)

lemma depthFirstSearchRecursive_ok:
  assumes inv: "dg_inv g"
  shows "nodeExists g src \<Longrightarrow> set seen \<subseteq> set (getNodes g) \<Longrightarrow>
     card (set (getNodes g) - set seen) < f \<Longrightarrow>
     \<exists>r. depthFirstSearchRecursive g fn f src seen = Inr r \<and> dfs_ok g fn src seen r \<and>
       (fst r = None \<longrightarrow> src \<in> set (snd r))"
proof (induction f arbitrary: src seen)
  case 0
  then show ?case by simp
next
  case (Suc f)
  let ?N = "set (getNodes g)"
  have fromN: "src \<in> ?N" using Suc.prems(1) inv by (simp add: nodeExists_iff)
  consider "src \<in> set seen" | "src \<notin> set seen" "fn src" | "src \<notin> set seen" "\<not> fn src" by blast
  then show ?case
  proof cases
    case 1
    with Suc.prems show ?thesis by (auto simp: dfs_ok_def)
  next
    case 2
    with Suc.prems fromN show ?thesis by (auto simp: dfs_ok_def)
  next
    case 3
    let ?cs = "filter (\<lambda>c. g_from c = src) (connectionValues g)"
    let ?step = "\<lambda>c (found, s). case found of Some x \<Rightarrow> Inr (found, s)
        | None \<Rightarrow> depthFirstSearchRecursive g fn f (g_to c) s"
    let ?P = "\<lambda>ys r. case r of (found, s) \<Rightarrow> set (sadd src seen) \<subseteq> set s \<and> set s \<subseteq> ?N \<and>
       (case found of Some x \<Rightarrow> fn x \<and> (src, x) \<in> (edges g)\<^sup>*
        | None \<Rightarrow> g_to ` set ys \<subseteq> set s \<and>
            (\<forall>n \<in> set s - set (sadd src seen). \<not> fn n \<and> set (childNodes g n) \<subseteq> set s))"
    have "\<exists>r. efold ?step ?cs (None, sadd src seen) = Inr r \<and> ?P ?cs r"
    proof (rule efold_total_prefix)
      show "?P [] (None, sadd src seen)" using Suc.prems(2) fromN by auto
      fix ys c zs r
      assume split: "?cs = ys @ c # zs" and P: "?P ys r"
      obtain found s where r: "r = (found, s)" by (cases r)
      show "\<exists>v. ?step c r = Inr v \<and> ?P (ys @ [c]) v"
      proof (cases found)
        case (Some x)
        with P r show ?thesis by auto
      next
        case None
        have "c \<in> set ?cs" using split by (metis in_set_conv_decomp)
        then have c: "c \<in> set (connectionValues g)" "g_from c = src" by auto
        then have e: "(src, g_to c) \<in> edges g" by (auto simp: edges_def)
        have sN: "set s \<subseteq> ?N" "set (sadd src seen) \<subseteq> set s" using P r by auto
        have "card (?N - set s) < card (?N - set seen)"
          using sN fromN 3(1) by (intro psubset_card_mono) auto
        with Suc.prems(3) have "card (?N - set s) < f" by simp
        from Suc.IH [OF dg_invD(6) [OF inv c(1)] sN(1) this] obtain found' s' where
          v: "depthFirstSearchRecursive g fn f (g_to c) s = Inr (found', s')"
            "dfs_ok g fn (g_to c) s (found', s')" "found' = None \<longrightarrow> g_to c \<in> set s'" by auto
        have "?P (ys @ [c]) (found', s')"
        proof (cases found')
          case (Some x)
          with v(2) e sN show ?thesis
            by (auto simp: dfs_ok_def intro: converse_rtrancl_into_rtrancl)
        next
          case None': None
          have old: "\<not> fn n \<and> set (childNodes g n) \<subseteq> set s'" if "n \<in> set s' - set (sadd src seen)" for n
          proof (cases "n \<in> set s")
            case True
            with that P r None have "\<not> fn n \<and> set (childNodes g n) \<subseteq> set s" by auto
            moreover have "set s \<subseteq> set s'" using v(2) by (auto simp: dfs_ok_def)
            ultimately show ?thesis by blast
          next
            case False
            with that v(2) None' show ?thesis by (auto simp: dfs_ok_def)
          qed
          have "g_to ` set ys \<subseteq> set s" using P r None by auto
          with v(2,3) old None' sN show ?thesis by (auto simp: dfs_ok_def)
        qed
        with v(1) r None show ?thesis by auto
      qed
    qed
    then obtain found s where fs: "efold ?step ?cs (None, sadd src seen) = Inr (found, s)"
      "?P ?cs (found, s)" by auto
    have eq: "depthFirstSearchRecursive g fn (Suc f) src seen = Inr (found, s)"
      using 3 fs(1) Suc.prems(1) by (simp add: getDirectChildConnections_ok)
    have "set (childNodes g src) \<subseteq> set s" if "found = None"
      using fs(2) that by (auto simp: childNodes_def)
    with fs(2) 3(2) have "dfs_ok g fn src seen (found, s)" "found = None \<longrightarrow> src \<in> set s"
      by (auto simp: dfs_ok_def split: option.splits)
    with eq show ?thesis by auto
  qed
qed

lemma depthFirstSearch_ok:
  assumes "dg_inv g" "nodeExists g src"
  shows "\<exists>r. depthFirstSearch g src fn = Inr r \<and>
    (\<forall>x. r = Some x \<longrightarrow> fn x \<and> (src, x) \<in> (edges g)\<^sup>*) \<and>
    (r = None \<longrightarrow> (\<forall>x. (src, x) \<in> (edges g)\<^sup>* \<longrightarrow> \<not> fn x))"
proof -
  have "card (set (getNodes g) - set []) < Suc (Suc (length (d_nodes g)))"
    using length_getNodes [OF assms(1)] by simp
  from depthFirstSearchRecursive_ok [OF assms _ this, of fn] obtain res where
    res: "depthFirstSearchRecursive g fn (Suc (Suc (length (d_nodes g)))) src [] = Inr res"
      "dfs_ok g fn src [] res" "fst res = None \<longrightarrow> src \<in> set (snd res)" by force
  obtain found s where r0: "res = (found, s)" by (cases res)
  have r: "depthFirstSearchRecursive g fn (Suc (Suc (length (d_nodes g)))) src [] = Inr (found, s)"
      "dfs_ok g fn src [] (found, s)" "found = None \<longrightarrow> src \<in> set s" using res r0 by auto
  have "x \<in> set s \<and> \<not> fn x" if "(src, x) \<in> (edges g)\<^sup>*" "found = None" for x
    using that
  proof (induction rule: rtrancl_induct)
    case base
    with r(2,3) show ?case by (auto simp: dfs_ok_def)
  next
    case (step y z)
    then have z: "z \<in> set (childNodes g y)" and y: "y \<in> set s" by (auto simp: set_childNodes)
    have "\<forall>n \<in> set s. \<not> fn n \<and> set (childNodes g n) \<subseteq> set s"
      using step.prems r(2) by (auto simp: dfs_ok_def)
    with y z show ?case by blast
  qed
  moreover have "depthFirstSearch g src fn = Inr found"
    using r(1) by (simp only: depthFirstSearch_def ebind.simps split_conv)
  ultimately show ?thesis using r(2) by (cases found) (auto simp: dfs_ok_def)
qed

section \<open>Removing a node keeps the reachability of the others\<close>

text \<open>Bridging a node without a self-loop, as a fact about relations.\<close>

lemma bridge_trancl:
  assumes loop: "(n, n) \<notin> E" and path: "(a, b) \<in> E\<^sup>+" and "a \<noteq> n"
    and keep: "\<And>p q. (p, q) \<in> E \<Longrightarrow> p \<noteq> n \<Longrightarrow> q \<noteq> n \<Longrightarrow> (p, q) \<in> F"
    and bridge: "\<And>p q. (p, n) \<in> E \<Longrightarrow> (n, q) \<in> E \<Longrightarrow> (p, q) \<in> F"
  shows "(b \<noteq> n \<longrightarrow> (a, b) \<in> F\<^sup>+) \<and> (b = n \<longrightarrow> (\<exists>p. p \<noteq> n \<and> (a, p) \<in> F\<^sup>* \<and> (p, n) \<in> E))"
  using path
proof (induction rule: trancl_induct)
  case (base b)
  then show ?case using \<open>a \<noteq> n\<close> keep by auto
next
  case (step b c)
  show ?case
  proof (cases "b = n")
    case True
    with step.IH obtain p where p: "(a, p) \<in> F\<^sup>*" "(p, n) \<in> E" by blast
    from True step.hyps(2) loop have "c \<noteq> n" by blast
    moreover have "(p, c) \<in> F" using bridge p(2) step.hyps(2) True by blast
    ultimately show ?thesis using p(1) by (auto dest: rtrancl_into_trancl1)
  next
    case False
    with step.IH have ab: "(a, b) \<in> F\<^sup>+" by blast
    show ?thesis
    proof (cases "c = n")
      case True
      with ab False step.hyps(2) show ?thesis by (auto dest: trancl_into_rtrancl)
    next
      case c: False
      with False step.hyps(2) keep have "(b, c) \<in> F" by blast
      with ab c show ?thesis by (auto dest: trancl_into_trancl)
    qed
  qed
qed

definition not_main :: "graph_connection \<Rightarrow> bool" where
  "not_main c \<longleftrightarrow> g_type c \<noteq> Main"

text \<open>
  Names without the separator of the keys. Only such a graph is safe from one connection
  overwriting another (\<open>makeKey_collision\<close> in \<open>Graph_Properties\<close> shows that names with a dash can collide).
\<close>

definition dash_free :: "dgraph \<Rightarrow> bool" where
  "dash_free g \<longleftrightarrow> (\<forall>n \<in> set (getNodes g). CHR ''-'' \<notin> set (n_name n))"

lemma makeKey_eq_ends:
  assumes "dg_inv g" "dash_free g" "makeKey c = makeKey d"
    and "nodeExists g (g_from c)" "nodeExists g (g_from d)" "nodeExists g (g_to c)" "nodeExists g (g_to d)"
  shows "g_from c = g_from d \<and> g_to c = g_to d \<and> g_type c = g_type d"
proof -
  have "CHR ''-'' \<notin> set (n_name (g_from c))" "CHR ''-'' \<notin> set (n_name (g_from d))"
    using assms by (simp_all add: dash_free_def nodeExists_iff)
  from makeKey_inj [OF assms(3) this] assms(4-7) show ?thesis by (simp add: nodeExists_def)
qed

text \<open>
  Adding connections keeps the edges of what was there: a connection is overwritten only by one
  with the same ends and the same type.
\<close>

lemma main_edges_setConnection:
  assumes "dg_inv g" "dash_free g" "nodeExists g (g_from c)" "nodeExists g (g_to c)"
  shows "main_edges (setConnection c g) =
    main_edges g \<union> (if g_type c = Main then {(g_from c, g_to c)} else {})"
proof
  show "main_edges (setConnection c g) \<subseteq> main_edges g \<union> (if g_type c = Main then {(g_from c, g_to c)} else {})"
    using connectionValues_setConnection_subset [of c g] by (auto simp: main_edges_def)
  have "(g_from d, g_to d) \<in> main_edges (setConnection c g)"
    if d: "d \<in> set (connectionValues g)" "g_type d = Main" for d
  proof (cases "makeKey d = makeKey c")
    case True
    from makeKey_eq_ends [OF assms(1,2) True _ assms(3) _ assms(4)]
      dg_invD(5,6) [OF assms(1) d(1)] d(2)
    have "g_from d = g_from c \<and> g_to d = g_to c \<and> g_type c = Main" by simp
    then show ?thesis by (auto simp: main_edges_def)
  next
    case False
    with connectionValues_setConnection_other [OF assms(1) d(1)] d(2) show ?thesis
      by (auto simp: main_edges_def)
  qed
  then show "main_edges g \<union> (if g_type c = Main then {(g_from c, g_to c)} else {})
      \<subseteq> main_edges (setConnection c g)"
    by (auto simp: main_edges_def [of g]) (auto simp: main_edges_def)
qed

lemma getNodes_setConnection [simp]: "getNodes (setConnection c g) = getNodes g"
  by (simp add: getNodes_def setConnection_def)

lemma main_edges_fold_setConnection:
  assumes "dg_inv g" "dash_free g" "\<forall>c \<in> set cs. nodeExists g (g_from c) \<and> nodeExists g (g_to c)"
  shows "main_edges (fold setConnection cs g) =
    main_edges g \<union> {(g_from c, g_to c) | c. c \<in> set cs \<and> g_type c = Main}"
  using assms
proof (induction cs arbitrary: g)
  case Nil
  then show ?case by simp
next
  case (Cons c cs)
  have "main_edges (fold setConnection cs (setConnection c g)) =
      main_edges (setConnection c g) \<union> {(g_from c, g_to c) | c. c \<in> set cs \<and> g_type c = Main}"
    using Cons.prems by (intro Cons.IH) (auto simp: dg_inv_setConnection dash_free_def)
  with main_edges_setConnection [of g c] Cons.prems show ?case by auto
qed

lemma removeNodeReconnect_main_edges:
  assumes inv: "dg_inv g" "dash_free g" and n: "nodeExists g n"
    and r: "removeNodeReconnect not_main n g = Inr (g', new)"
  shows "main_edges g' = {(a, b) \<in> main_edges g. a \<noteq> n \<and> b \<noteq> n} \<union>
    {(a, b). (a, n) \<in> main_edges g \<and> (n, b) \<in> main_edges g}"
proof -
  let ?bs = "bridges not_main n g" and ?h = "dropConnectionsOf n g"
  have g': "g' = dropNode n (fold setConnection ?bs ?h)"
    using n r by (auto simp: removeNodeReconnect_ok)
  have h: "dg_inv ?h" "dash_free ?h"
    using dg_inv_dropConnectionsOf [OF inv(1)] inv(2)
    by (simp_all add: dash_free_def getNodes_def dropConnectionsOf_def)
  have ends: "\<forall>c \<in> set ?bs. nodeExists ?h (g_from c) \<and> nodeExists ?h (g_to c)"
    using inv(1) by (auto elim!: bridgesE dest: dg_invD)
  have "main_edges g' = main_edges ?h \<union> {(g_from c, g_to c) | c. c \<in> set ?bs \<and> g_type c = Main}"
    using main_edges_fold_setConnection [OF h ends] by (simp add: g' main_edges_def)
  moreover have "main_edges ?h = {(a, b) \<in> main_edges g. a \<noteq> n \<and> b \<noteq> n}"
    by (auto simp: main_edges_def)
  moreover have "{(g_from c, g_to c) | c. c \<in> set ?bs \<and> g_type c = Main} =
      {(a, b). (a, n) \<in> main_edges g \<and> (n, b) \<in> main_edges g}"
  proof (intro equalityI subsetI)
    fix e assume "e \<in> {(g_from c, g_to c) | c. c \<in> set ?bs \<and> g_type c = Main}"
    then obtain c where c: "e = (g_from c, g_to c)" "c \<in> set ?bs" "g_type c = Main" by blast
    from c(2) obtain i j where ij: "i \<in> set (connectionValues g)" "j \<in> set (connectionValues g)"
      "g_to i = n" "g_from j = n" "\<not> not_main i" "\<not> not_main j" "g_from c = g_from i" "g_to c = g_to j"
      by (rule bridgesE)
    have "(g_from i, g_to i) \<in> main_edges g" "(g_from j, g_to j) \<in> main_edges g"
      using ij(1,2,5,6) by (auto simp: main_edges_def not_main_def)
    then have "(g_from i, n) \<in> main_edges g" "(n, g_to j) \<in> main_edges g"
      by (simp_all add: ij(3,4))
    with c(1) ij(7,8) show "e \<in> {(a, b). (a, n) \<in> main_edges g \<and> (n, b) \<in> main_edges g}" by simp
  next
    fix e assume "e \<in> {(a, b). (a, n) \<in> main_edges g \<and> (n, b) \<in> main_edges g}"
    then obtain i j where ij: "e = (g_from i, g_to j)" "i \<in> set (connectionValues g)"
      "j \<in> set (connectionValues g)" "g_to i = n" "g_from j = n" "g_type i = Main" "g_type j = Main"
      by (auto simp: main_edges_def)
    let ?c = "i\<lparr>g_to := g_to j, g_inputIndex := g_inputIndex j\<rparr>"
    have "?c \<in> set ?bs"
      using ij by (auto simp: bridges_def set_bridgeConnections not_main_def)
    then show "e \<in> {(g_from c, g_to c) | c. c \<in> set ?bs \<and> g_type c = Main}"
      using ij by (intro CollectI exI [of _ ?c]) simp
  qed
  ultimately show ?thesis by simp
qed

lemma removeNodeReconnect_trancl:
  assumes "dg_inv g" "dash_free g" "nodeExists g n" "(n, n) \<notin> main_edges g"
    and "removeNodeReconnect not_main n g = Inr (g', new)" and "a \<noteq> n" "b \<noteq> n"
  shows "(a, b) \<in> (main_edges g')\<^sup>+ \<longleftrightarrow> (a, b) \<in> (main_edges g)\<^sup>+"
proof
  note eq = removeNodeReconnect_main_edges [OF assms(1-3,5)]
  have "main_edges g' \<subseteq> (main_edges g)\<^sup>+"
    unfolding eq by (auto intro: r_into_trancl trancl_into_trancl)
  then have "(main_edges g')\<^sup>+ \<subseteq> (main_edges g)\<^sup>+" by (metis trancl_id trans_trancl trancl_mono_subset)
  then show "(a, b) \<in> (main_edges g')\<^sup>+ \<Longrightarrow> (a, b) \<in> (main_edges g)\<^sup>+" by blast
  assume "(a, b) \<in> (main_edges g)\<^sup>+"
  from bridge_trancl [OF assms(4) this assms(6), of "main_edges g'"] assms(7)
  show "(a, b) \<in> (main_edges g')\<^sup>+" by (auto simp: eq)
qed

end
