(* ===== verification/StronglyConnected.thy ===== *)
theory StronglyConnected
  imports DirectedGraph
begin

text \<open>
  \<open>DirectedGraph.getStronglyConnectedComponents\<close>: the variant of Tarjan's algorithm the source
  implements. The mutable variables of the closure (\<open>id\<close>, \<open>visited\<close>, \<open>ids\<close>, \<open>lowLinkValues\<close>,
  \<open>stack\<close>, \<open>stronglyConnectedComponents\<close>) are the record \<open>tarjan\<close>; the stack has its top at
  the head of the list.
\<close>
section \<open>The algorithm\<close>

record tarjan =
  tj_id :: nat
  tj_visited :: "inode list"
  tj_ids :: "inode \<Rightarrow> nat option"
  tj_low :: "inode \<Rightarrow> nat option"
  tj_stack :: "inode list"
  tj_sccs :: "inode list list"

definition initTarjan :: tarjan where
  "initTarjan = \<lparr>tj_id = 0, tj_visited = [], tj_ids = Map.empty, tj_low = Map.empty,
     tj_stack = [], tj_sccs = []\<rparr>"

text \<open>The \<open>while\<close> loop that pops one component; the result is the rest of the stack and the set.\<close>

fun popComponent :: "(inode \<Rightarrow> nat option) \<Rightarrow> nat \<Rightarrow> inode list \<Rightarrow> inode list \<Rightarrow> inode list \<times> inode list" where
  "popComponent low ownId [] scc = ([], scc)"
| "popComponent low ownId (x # st) scc =
     (if low x = Some ownId then popComponent low ownId st (sadd x scc) else (x # st, scc))"

definition enterNode :: "inode \<Rightarrow> tarjan \<Rightarrow> tarjan" where
  "enterNode node st = st\<lparr>tj_visited := sadd node (tj_visited st),
     tj_low := (tj_low st)(node \<mapsto> tj_id st), tj_ids := (tj_ids st)(node \<mapsto> tj_id st),
     tj_id := Suc (tj_id st), tj_stack := node # tj_stack st\<rparr>"

definition updateLow :: "inode \<Rightarrow> inode \<Rightarrow> tarjan \<Rightarrow> tarjan result" where
  "updateLow node child st =
     (if child \<in> set (tj_stack st) then
        (case (tj_low st child, tj_low st node) of
           (Some childLow, Some ownLow) \<Rightarrow> Inr (st\<lparr>tj_low := (tj_low st)(node \<mapsto> min childLow ownLow)\<rparr>)
         | _ \<Rightarrow> Inl AssertionError)
      else Inr st)"

definition leaveNode :: "inode \<Rightarrow> tarjan \<Rightarrow> tarjan result" where
  "leaveNode node st =
     (case (tj_ids st node, tj_low st node) of
        (Some ownId, Some ownLow) \<Rightarrow>
          (if ownId = ownLow then
             (case popComponent (tj_low st) ownId (tj_stack st) [] of (rest, scc) \<Rightarrow>
                Inr (st\<lparr>tj_stack := rest,
                        tj_sccs := tj_sccs st @ (if scc = [] then [] else [scc])\<rparr>))
           else Inr st)
      | _ \<Rightarrow> Inl AssertionError)"

fun followNode :: "dgraph \<Rightarrow> nat \<Rightarrow> inode \<Rightarrow> tarjan \<Rightarrow> tarjan result" where
  "followNode g 0 node st = Inl OutOfFuel"
| "followNode g (Suc f) node st =
     (if node \<in> set (tj_visited st) then Inr st
      else ebind (getDirectChildConnections g node) (\<lambda>direct.
        ebind (efold (\<lambda>c st. ebind (followNode g f (g_to c) st) (updateLow node (g_to c)))
                 direct (enterNode node st))
          (leaveNode node)))"

definition getStronglyConnectedComponents :: "dgraph \<Rightarrow> inode list list result" where
  "getStronglyConnectedComponents g =
     ebind (efold (followNode g (Suc (Suc (length (d_nodes g))))) (getNodes g) initTarjan)
       (\<lambda>st. Inr (tj_sccs st))"

section \<open>Invariant of the depth-first search\<close>

text \<open>
  Every visited node has an id and a low link; the low link is the id of some node it reaches,
  and not above its own id; the stack is sorted by id, newest first; the components and the
  stack hold visited nodes, each at most once.
\<close>

definition tj_inv :: "dgraph \<Rightarrow> tarjan \<Rightarrow> bool" where
  "tj_inv g st \<longleftrightarrow>
     set (tj_visited st) \<subseteq> set (getNodes g) \<and>
     dom (tj_ids st) = set (tj_visited st) \<and> dom (tj_low st) = set (tj_visited st) \<and>
     inj_on (tj_ids st) (set (tj_visited st)) \<and>
     (\<forall>v i. tj_ids st v = Some i \<longrightarrow> i < tj_id st) \<and>
     (\<forall>v l. tj_low st v = Some l \<longrightarrow>
        l \<le> the (tj_ids st v) \<and> (\<exists>w. tj_ids st w = Some l \<and> (v, w) \<in> (edges g)\<^sup>*)) \<and>
     set (tj_stack st) \<subseteq> set (tj_visited st) \<and>
     sorted_wrt (\<lambda>a b. the (tj_ids st b) < the (tj_ids st a)) (tj_stack st) \<and>
     (\<forall>scc \<in> set (tj_sccs st). scc \<noteq> [] \<and> set scc \<subseteq> set (tj_visited st) \<and>
        (\<forall>a \<in> set scc. \<forall>b \<in> set scc. (a, b) \<in> (edges g)\<^sup>*)) \<and>
     distinct (concat (tj_sccs st) @ tj_stack st)"

lemma tj_inv_init: "tj_inv g initTarjan"
  by (simp add: tj_inv_def initTarjan_def)

lemma popComponent_spec:
  "popComponent low i st scc = (rest, out) \<Longrightarrow>
     \<exists>ps. st = ps @ rest \<and> out = saddAll ps scc \<and> (\<forall>p \<in> set ps. low p = Some i) \<and>
       (rest = [] \<or> low (hd rest) \<noteq> Some i)"
proof (induction st arbitrary: scc)
  case Nil
  then show ?case by (auto simp: saddAll_def)
next
  case (Cons x st)
  show ?case
  proof (cases "low x = Some i")
    case True
    with Cons obtain ps where "st = ps @ rest \<and> out = saddAll ps (sadd x scc) \<and>
        (\<forall>p \<in> set ps. low p = Some i) \<and> (rest = [] \<or> low (hd rest) \<noteq> Some i)" by auto
    with True show ?thesis by (intro exI [of _ "x # ps"]) (auto simp: saddAll_def)
  next
    case False
    with Cons.prems show ?thesis by (intro exI [of _ "[]"]) (auto simp: saddAll_def)
  qed
qed

lemma saddAll_distinct: "distinct ps \<Longrightarrow> saddAll ps [] = ps"
proof -
  have "distinct (scc @ ps) \<Longrightarrow> saddAll ps scc = scc @ ps" for scc :: "'a list"
    by (induction ps arbitrary: scc) (auto simp: saddAll_def sadd_def)
  from this [of "[]"] show "distinct ps \<Longrightarrow> saddAll ps [] = ps" by simp
qed

lemma tj_invD:
  assumes "tj_inv g st"
  shows "set (tj_visited st) \<subseteq> set (getNodes g)"
    and "v \<in> set (tj_visited st) \<Longrightarrow> \<exists>i. tj_ids st v = Some i"
    and "tj_ids st v = Some i \<Longrightarrow> v \<in> set (tj_visited st)"
    and "v \<in> set (tj_visited st) \<Longrightarrow> \<exists>i. tj_low st v = Some i"
    and "tj_low st v = Some i \<Longrightarrow> v \<in> set (tj_visited st)"
    and "tj_ids st v = Some i \<Longrightarrow> tj_ids st w = Some i \<Longrightarrow> v = w"
    and "tj_ids st v = Some i \<Longrightarrow> i < tj_id st"
    and "tj_low st v = Some l \<Longrightarrow> tj_ids st v = Some i \<Longrightarrow> l \<le> i"
    and "tj_low st v = Some l \<Longrightarrow> \<exists>w. tj_ids st w = Some l \<and> (v, w) \<in> (edges g)\<^sup>*"
    and "v \<in> set (tj_stack st) \<Longrightarrow> v \<in> set (tj_visited st)"
    and "sorted_wrt (\<lambda>a b. the (tj_ids st b) < the (tj_ids st a)) (tj_stack st)"
    and "scc \<in> set (tj_sccs st) \<Longrightarrow> scc \<noteq> [] \<and> set scc \<subseteq> set (tj_visited st) \<and>
           (\<forall>a \<in> set scc. \<forall>b \<in> set scc. (a, b) \<in> (edges g)\<^sup>*)"
    and "distinct (concat (tj_sccs st) @ tj_stack st)"
proof -
  from assms have d: "set (tj_visited st) \<subseteq> set (getNodes g)"
     "dom (tj_ids st) = set (tj_visited st)" "dom (tj_low st) = set (tj_visited st)"
     "inj_on (tj_ids st) (set (tj_visited st))"
     "\<forall>v i. tj_ids st v = Some i \<longrightarrow> i < tj_id st"
     "\<forall>v l. tj_low st v = Some l \<longrightarrow>
        l \<le> the (tj_ids st v) \<and> (\<exists>w. tj_ids st w = Some l \<and> (v, w) \<in> (edges g)\<^sup>*)"
     "set (tj_stack st) \<subseteq> set (tj_visited st)"
    unfolding tj_inv_def by simp_all
  note dom = d(2,3)
  show "set (tj_visited st) \<subseteq> set (getNodes g)" by (rule d(1))
  show "v \<in> set (tj_visited st) \<Longrightarrow> \<exists>i. tj_ids st v = Some i" using dom(1) by blast
  show v: "tj_ids st v = Some i \<Longrightarrow> v \<in> set (tj_visited st)" for v i using dom(1) by blast
  show "v \<in> set (tj_visited st) \<Longrightarrow> \<exists>i. tj_low st v = Some i" using dom(2) by blast
  show "tj_low st v = Some i \<Longrightarrow> v \<in> set (tj_visited st)" using dom(2) by blast
  show "tj_ids st v = Some i \<Longrightarrow> tj_ids st w = Some i \<Longrightarrow> v = w"
    using v [of v i] v [of w i] d(4) by (simp add: inj_on_def)
  show "tj_ids st v = Some i \<Longrightarrow> i < tj_id st" using d(5) by blast
  show "tj_low st v = Some l \<Longrightarrow> tj_ids st v = Some i \<Longrightarrow> l \<le> i" using d(6) by (metis option.sel)
  show "tj_low st v = Some l \<Longrightarrow> \<exists>w. tj_ids st w = Some l \<and> (v, w) \<in> (edges g)\<^sup>*" using d(6) by blast
  show "v \<in> set (tj_stack st) \<Longrightarrow> v \<in> set (tj_visited st)" using d(7) by blast
qed (use assms in \<open>simp_all add: tj_inv_def\<close>)

lemma tj_invI:
  assumes "set (tj_visited st) \<subseteq> set (getNodes g)"
    and "\<And>v. v \<in> set (tj_visited st) \<longleftrightarrow> tj_ids st v \<noteq> None"
    and "\<And>v. v \<in> set (tj_visited st) \<longleftrightarrow> tj_low st v \<noteq> None"
    and "\<And>v w i. tj_ids st v = Some i \<Longrightarrow> tj_ids st w = Some i \<Longrightarrow> v = w"
    and "\<And>v i. tj_ids st v = Some i \<Longrightarrow> i < tj_id st"
    and "\<And>v l i. tj_low st v = Some l \<Longrightarrow> tj_ids st v = Some i \<Longrightarrow> l \<le> i"
    and "\<And>v l. tj_low st v = Some l \<Longrightarrow> \<exists>w. tj_ids st w = Some l \<and> (v, w) \<in> (edges g)\<^sup>*"
    and "\<And>v. v \<in> set (tj_stack st) \<Longrightarrow> v \<in> set (tj_visited st)"
    and "sorted_wrt (\<lambda>a b. the (tj_ids st b) < the (tj_ids st a)) (tj_stack st)"
    and "\<And>scc. scc \<in> set (tj_sccs st) \<Longrightarrow> scc \<noteq> [] \<and> set scc \<subseteq> set (tj_visited st) \<and>
           (\<forall>a \<in> set scc. \<forall>b \<in> set scc. (a, b) \<in> (edges g)\<^sup>*)"
    and "distinct (concat (tj_sccs st) @ tj_stack st)"
  shows "tj_inv g st"
proof -
  have "dom (tj_ids st) = set (tj_visited st)" "dom (tj_low st) = set (tj_visited st)"
    using assms(2,3) by (auto simp: dom_def)
  moreover have "inj_on (tj_ids st) (set (tj_visited st))"
    using assms(2,4) by (auto simp: inj_on_def)
  moreover have "l \<le> the (tj_ids st v)" if "tj_low st v = Some l" for v l
    using that assms(2,3,6) by (metis option.collapse option.distinct(1))
  ultimately show ?thesis
    unfolding tj_inv_def using assms(1,5,7-11) by blast
qed

text \<open>The stack's order only depends on the ids of its members.\<close>

lemma sorted_stack_cong:
  assumes "sorted_wrt (\<lambda>a b. the (f b) < the (f a)) xs" and "\<And>x. x \<in> set xs \<Longrightarrow> f x = h x"
  shows "sorted_wrt (\<lambda>a b. the (h b) < the (h a)) xs"
  using assms(1)
proof (rule sorted_wrt_mono_rel [rotated])
  fix a b assume "a \<in> set xs" "b \<in> set xs" "the (f b) < the (f a)"
  then show "the (h b) < the (h a)" using assms(2) by simp
qed

lemma enterNode_inv:
  assumes inv: "tj_inv g st" and new: "node \<notin> set (tj_visited st)" and "node \<in> set (getNodes g)"
  shows "tj_inv g (enterNode node st)"
proof (rule tj_invI)
  let ?st = "enterNode node st"
  note D = tj_invD [OF inv]
  have st: "node \<notin> set (tj_stack st)" using new D(10) by blast
  have ids: "tj_ids st node = None" "tj_low st node = None"
    using new D(3,5) by (meson option.exhaust)+
  have idless: "the (tj_ids st v) < tj_id st" if "v \<in> set (tj_stack st)" for v
    using D(2) [OF D(10) [OF that]] D(7) by auto
  show "set (tj_visited ?st) \<subseteq> set (getNodes g)" using D(1) assms(3) by (simp add: enterNode_def)
  show "v \<in> set (tj_visited ?st) \<longleftrightarrow> tj_ids ?st v \<noteq> None" for v
    using D(2,3) [of v] by (auto simp: enterNode_def)
  show "v \<in> set (tj_visited ?st) \<longleftrightarrow> tj_low ?st v \<noteq> None" for v
    using D(4,5) [of v] by (auto simp: enterNode_def)
  show "v = w" if "tj_ids ?st v = Some i" "tj_ids ?st w = Some i" for v w i
    using that D(6) [of v i w] D(7) [of v i] D(7) [of w i] by (auto simp: enterNode_def split: if_splits)
  show "i < tj_id ?st" if "tj_ids ?st v = Some i" for v i
    using that D(7) by (auto simp: enterNode_def less_Suc_eq split: if_splits)
  show "l \<le> i" if "tj_low ?st v = Some l" "tj_ids ?st v = Some i" for v l i
    using that D(8) by (auto simp: enterNode_def split: if_splits)
  show "\<exists>w. tj_ids ?st w = Some l \<and> (v, w) \<in> (edges g)\<^sup>*" if "tj_low ?st v = Some l" for v l
  proof (cases "v = node")
    case True
    with that show ?thesis by (intro exI [of _ node]) (auto simp: enterNode_def)
  next
    case False
    with that D(9) [of v l] obtain w where w: "tj_ids st w = Some l" "(v, w) \<in> (edges g)\<^sup>*"
      by (auto simp: enterNode_def)
    with ids show ?thesis by (intro exI [of _ w]) (auto simp: enterNode_def)
  qed
  show "v \<in> set (tj_visited ?st)" if "v \<in> set (tj_stack ?st)" for v
    using that D(10) by (auto simp: enterNode_def)
  have "sorted_wrt (\<lambda>a b. the (tj_ids ?st b) < the (tj_ids ?st a)) (tj_stack st)"
    using D(11) by (rule sorted_stack_cong) (use st in \<open>auto simp: enterNode_def\<close>)
  with idless st show "sorted_wrt (\<lambda>a b. the (tj_ids ?st b) < the (tj_ids ?st a)) (tj_stack ?st)"
    by (auto simp: enterNode_def)
  show "scc \<noteq> [] \<and> set scc \<subseteq> set (tj_visited ?st) \<and>
      (\<forall>a \<in> set scc. \<forall>b \<in> set scc. (a, b) \<in> (edges g)\<^sup>*)" if "scc \<in> set (tj_sccs ?st)" for scc
    using that D(12) [of scc] by (auto simp: enterNode_def)
  have "node \<notin> set (concat (tj_sccs st))" using new D(12) by auto
  with D(13) st show "distinct (concat (tj_sccs ?st) @ tj_stack ?st)"
    by (auto simp: enterNode_def)
qed

lemma updateLow_inv:
  assumes inv: "tj_inv g st" and "node \<in> set (tj_visited st)" and e: "(node, child) \<in> edges g"
  shows "\<exists>st'. updateLow node child st = Inr st' \<and> tj_inv g st' \<and> tj_visited st' = tj_visited st \<and>
    tj_ids st' = tj_ids st \<and> tj_stack st' = tj_stack st \<and> tj_sccs st' = tj_sccs st"
proof (cases "child \<in> set (tj_stack st)")
  case False
  with inv show ?thesis by (simp add: updateLow_def)
next
  case True
  note D = tj_invD [OF inv]
  from D(4) [OF D(10) [OF True]] D(4) [OF assms(2)] obtain c k where
    low: "tj_low st child = Some c" "tj_low st node = Some k" by blast
  let ?st = "st\<lparr>tj_low := (tj_low st)(node \<mapsto> min c k)\<rparr>"
  have "tj_inv g ?st"
  proof (rule tj_invI)
    show "v \<in> set (tj_visited ?st) \<longleftrightarrow> tj_low ?st v \<noteq> None" for v
      using D(4,5) [of v] assms(2) by auto
    show "v \<in> set (tj_visited ?st) \<longleftrightarrow> tj_ids ?st v \<noteq> None" for v
      using D(2,3) [of v] by auto
    show "l \<le> i" if "tj_low ?st v = Some l" "tj_ids ?st v = Some i" for v l i
      using that D(8) low(2) by (force split: if_splits)
    show "\<exists>w. tj_ids ?st w = Some l \<and> (v, w) \<in> (edges g)\<^sup>*" if "tj_low ?st v = Some l" for v l
    proof (cases "v = node \<and> l = c")
      case True
      from D(9) [OF low(1)] obtain w where "tj_ids st w = Some c" "(child, w) \<in> (edges g)\<^sup>*" by blast
      with True e show ?thesis by (auto intro: converse_rtrancl_into_rtrancl)
    next
      case False
      with that low(2) have "tj_low st v = Some l" by (auto simp: min_def split: if_splits)
      then show ?thesis using D(9) by simp
    qed
    show "v = w" if "tj_ids ?st v = Some i" "tj_ids ?st w = Some i" for v w i
      using that D(6) by simp
    show "scc \<noteq> [] \<and> set scc \<subseteq> set (tj_visited ?st) \<and>
      (\<forall>a \<in> set scc. \<forall>b \<in> set scc. (a, b) \<in> (edges g)\<^sup>*)" if "scc \<in> set (tj_sccs ?st)" for scc
      using that D(12) [of scc] by simp
  qed (use D(1,7,10,11,13) in auto)
  with True low show ?thesis by (simp add: updateLow_def)
qed

text \<open>
  The nodes popped with low link equal to the id of the node all lie above it on the stack, so
  the node reaches them; each of them reaches the node whose id is its low link, the node.
\<close>

lemma popComponent_members:
  assumes inv: "tj_inv g st" and stk: "tj_stack st = new @ node # below"
    and reach: "\<forall>v \<in> set new. (node, v) \<in> (edges g)\<^sup>*" and ids: "tj_ids st node = Some i"
    and pop: "tj_stack st = ps @ rest" "\<forall>p \<in> set ps. tj_low st p = Some i"
  shows "\<exists>keep. rest = keep @ below \<and> set keep \<subseteq> insert node (set new)"
    and "p \<in> set ps \<Longrightarrow> (node, p) \<in> (edges g)\<^sup>* \<and> (p, node) \<in> (edges g)\<^sup>*"
proof -
  note D = tj_invD [OF inv]
  have below: "tj_low st v \<noteq> Some i" if "v \<in> set below" for v
  proof
    assume low: "tj_low st v = Some i"
    obtain k where k: "tj_ids st v = Some k" using D(2,5) low by blast
    have "the (tj_ids st v) < the (tj_ids st node)"
      using D(11) that unfolding stk by (auto simp: sorted_wrt_append)
    with k ids D(8) [OF low k] show False by simp
  qed
  from stk pop(1) have "ps @ rest = (new @ [node]) @ below" by simp
  from iffD1 [OF append_eq_append_conv2 this] obtain us where us: "ps = (new @ [node]) @ us \<and> us @ rest = below \<or>
      ps @ us = new @ [node] \<and> rest = us @ below"
    by blast
  have *: "ps @ us = new @ [node] \<and> rest = us @ below \<or> us = [] \<and> ps = new @ [node] \<and> rest = below"
  proof (cases us)
    case Nil
    with us show ?thesis by auto
  next
    case (Cons u us')
    with us below [of u] pop(2) show ?thesis by auto
  qed
  then have "set ps \<union> set us = set (new @ [node])" by (metis append_Nil2 set_append)
  then have sub: "set us \<subseteq> insert node (set new)" "set ps \<subseteq> insert node (set new)" by auto
  with * show "\<exists>keep. rest = keep @ below \<and> set keep \<subseteq> insert node (set new)"
    by (intro exI [of _ us]) auto
  assume p: "p \<in> set ps"
  with pop(2) D(9) obtain w where "tj_ids st w = Some i" "(p, w) \<in> (edges g)\<^sup>*" by blast
  moreover from this ids D(6) have "w = node" by blast
  moreover have "(node, p) \<in> (edges g)\<^sup>*" using p sub(2) reach by auto
  ultimately show "(node, p) \<in> (edges g)\<^sup>* \<and> (p, node) \<in> (edges g)\<^sup>*" by blast
qed

lemma leaveNode_inv:
  assumes inv: "tj_inv g st" and stk: "tj_stack st = new @ node # below"
    and reach: "\<forall>v \<in> set new. (node, v) \<in> (edges g)\<^sup>*"
  shows "\<exists>st'. leaveNode node st = Inr st' \<and> tj_inv g st' \<and> tj_visited st' = tj_visited st \<and>
    tj_ids st' = tj_ids st \<and>
    (\<exists>keep. tj_stack st' = keep @ below \<and> (\<forall>v \<in> set keep. (node, v) \<in> (edges g)\<^sup>*))"
proof -
  note D = tj_invD [OF inv]
  have "node \<in> set (tj_visited st)" using D(10) stk by simp
  with D(2,4) obtain i l where il: "tj_ids st node = Some i" "tj_low st node = Some l" by blast
  show ?thesis
  proof (cases "i = l")
    case False
    with il inv stk reach show ?thesis
      by (intro exI [of _ st]) (auto simp: leaveNode_def intro!: exI [of _ "new @ [node]"])
  next
    case True
    obtain rest scc where pc: "popComponent (tj_low st) i (tj_stack st) [] = (rest, scc)"
      by (cases "popComponent (tj_low st) i (tj_stack st) []")
    from popComponent_spec [OF this] obtain ps where
      ps: "tj_stack st = ps @ rest" "scc = saddAll ps []" "\<forall>p \<in> set ps. tj_low st p = Some i" by blast
    note M = popComponent_members [OF inv stk reach il(1) ps(1,3)]
    have dist: "distinct (concat (tj_sccs st) @ ps @ rest)" using D(13) ps(1) by simp
    then have scc: "scc = ps" using ps(2) by (simp add: saddAll_distinct)
    let ?st = "st\<lparr>tj_stack := rest, tj_sccs := tj_sccs st @ (if scc = [] then [] else [scc])\<rparr>"
    have "tj_inv g ?st"
    proof (rule tj_invI)
      show "v \<in> set (tj_visited ?st) \<longleftrightarrow> tj_ids ?st v \<noteq> None"
        "v \<in> set (tj_visited ?st) \<longleftrightarrow> tj_low ?st v \<noteq> None" for v
        using D(2-5) [of v] by auto
      show "v \<in> set (tj_visited ?st)" if "v \<in> set (tj_stack ?st)" for v
        using that D(10) ps(1) by simp
      show "sorted_wrt (\<lambda>a b. the (tj_ids ?st b) < the (tj_ids ?st a)) (tj_stack ?st)"
        using D(11) unfolding ps(1) by (simp add: sorted_wrt_append)
      show "c \<noteq> [] \<and> set c \<subseteq> set (tj_visited ?st) \<and>
        (\<forall>a \<in> set c. \<forall>b \<in> set c. (a, b) \<in> (edges g)\<^sup>*)" if "c \<in> set (tj_sccs ?st)" for c
      proof (cases "c \<in> set (tj_sccs st)")
        case True
        with D(12) show ?thesis by simp
      next
        case False
        with that scc have c: "c = ps" "ps \<noteq> []" by (auto split: if_splits)
        moreover have "(a, b) \<in> (edges g)\<^sup>*" if "a \<in> set ps" "b \<in> set ps" for a b
          using M(2) [OF that(1)] M(2) [OF that(2)] by (meson rtrancl_trans)
        ultimately show ?thesis using D(10) ps(1) by auto
      qed
      show "v = w" if "tj_ids ?st v = Some k" "tj_ids ?st w = Some k" for v w k
        using that D(6) by simp
      show "\<exists>w. tj_ids ?st w = Some k \<and> (v, w) \<in> (edges g)\<^sup>*" if "tj_low ?st v = Some k" for v k
        using that D(9) by simp
      show "k \<le> j" if "tj_low ?st v = Some k" "tj_ids ?st v = Some j" for v k j
        using that D(8) by simp
    qed (use D(1,7) dist scc in auto)
    moreover have "\<exists>keep. rest = keep @ below \<and> (\<forall>v \<in> set keep. (node, v) \<in> (edges g)\<^sup>*)"
      using M(1) reach by blast
    ultimately show ?thesis using il True pc by (auto simp: leaveNode_def)
  qed
qed

section \<open>The search\<close>

definition follows :: "dgraph \<Rightarrow> inode \<Rightarrow> tarjan \<Rightarrow> inode list \<Rightarrow> tarjan \<Rightarrow> bool" where
  "follows g node st below st' \<longleftrightarrow> tj_inv g st' \<and> set (tj_visited st) \<subseteq> set (tj_visited st') \<and>
     node \<in> set (tj_visited st') \<and>
     (\<exists>new. tj_stack st' = new @ below \<and> (\<forall>v \<in> set new. (node, v) \<in> (edges g)\<^sup>*))"

lemma followNode_ok:
  assumes g: "dg_inv g"
  shows "nodeExists g node \<Longrightarrow> tj_inv g st \<Longrightarrow>
    card (set (getNodes g) - set (tj_visited st)) < f \<Longrightarrow>
    \<exists>st'. followNode g f node st = Inr st' \<and> follows g node st (tj_stack st) st'"
proof (induction f arbitrary: node st)
  case 0
  then show ?case by simp
next
  case (Suc f)
  show ?case
  proof (cases "node \<in> set (tj_visited st)")
    case True
    with Suc.prems show ?thesis by (auto simp: follows_def)
  next
    case new: False
    let ?N = "set (getNodes g)" and ?e = "enterNode node st"
    let ?cs = "filter (\<lambda>c. g_from c = node) (connectionValues g)"
    let ?step = "\<lambda>c st. ebind (followNode g f (g_to c) st) (updateLow node (g_to c))"
    let ?P = "\<lambda>_ u. tj_inv g u \<and> set (tj_visited ?e) \<subseteq> set (tj_visited u) \<and>
      (\<exists>k. tj_stack u = k @ node # tj_stack st \<and> (\<forall>v \<in> set k. (node, v) \<in> (edges g)\<^sup>*))"
    have nodeN: "node \<in> ?N" using Suc.prems(1) g by (simp add: nodeExists_iff)
    have "\<exists>u. efold ?step ?cs ?e = Inr u \<and> ?P ?cs u"
    proof (rule efold_total_prefix)
      show "?P [] ?e"
        using enterNode_inv [OF Suc.prems(2) new nodeN] by (auto simp: enterNode_def)
      fix ys c zs u
      assume split: "?cs = ys @ c # zs" and P: "?P ys u"
      have "c \<in> set ?cs" using split by (metis in_set_conv_decomp)
      then have c: "c \<in> set (connectionValues g)" "(node, g_to c) \<in> edges g" by (auto simp: edges_def)
      have vis: "node \<in> set (tj_visited u)" using P by (auto simp: enterNode_def)
      have "card (?N - set (tj_visited u)) < card (?N - set (tj_visited st))"
        using P nodeN new by (intro psubset_card_mono) (auto simp: enterNode_def)
      with Suc.prems(3) have "card (?N - set (tj_visited u)) < f" by simp
      with Suc.IH [OF dg_invD(6) [OF g c(1)]] P obtain w where
        w: "followNode g f (g_to c) u = Inr w" "follows g (g_to c) u (tj_stack u) w" by blast
      then have "tj_inv g w" "node \<in> set (tj_visited w)" using vis by (auto simp: follows_def)
      from updateLow_inv [OF this c(2)] obtain x where x: "updateLow node (g_to c) w = Inr x"
        "tj_inv g x" "tj_visited x = tj_visited w" "tj_stack x = tj_stack w" by blast
      obtain k where k: "tj_stack u = k @ node # tj_stack st" "\<forall>v \<in> set k. (node, v) \<in> (edges g)\<^sup>*"
        using P by blast
      obtain k' where k': "tj_stack w = k' @ tj_stack u" "\<forall>v \<in> set k'. (g_to c, v) \<in> (edges g)\<^sup>*"
        using w(2) by (auto simp: follows_def)
      have "\<forall>v \<in> set (k' @ k). (node, v) \<in> (edges g)\<^sup>*"
        using k(2) k'(2) c(2) by (auto intro: converse_rtrancl_into_rtrancl)
      then have "?P (ys @ [c]) x"
        using x w(2) P k(1) k'(1) by (auto simp: follows_def intro!: exI [of _ "k' @ k"])
      with w(1) x(1) show "\<exists>v. ?step c u = Inr v \<and> ?P (ys @ [c]) v" by auto
    qed
    then obtain u k where u: "efold ?step ?cs ?e = Inr u" "tj_inv g u"
      "set (tj_visited ?e) \<subseteq> set (tj_visited u)" "tj_stack u = k @ node # tj_stack st"
      "\<forall>v \<in> set k. (node, v) \<in> (edges g)\<^sup>*" by blast
    from leaveNode_inv [OF u(2,4,5)] obtain x where x: "leaveNode node u = Inr x" "tj_inv g x"
      "tj_visited x = tj_visited u"
      "\<exists>keep. tj_stack x = keep @ tj_stack st \<and> (\<forall>v \<in> set keep. (node, v) \<in> (edges g)\<^sup>*)" by blast
    have "followNode g (Suc f) node st = Inr x"
      using new Suc.prems(1) u(1) x(1) by (simp add: getDirectChildConnections_ok)
    moreover have "follows g node st (tj_stack st) x"
      using x u(3) by (auto simp: follows_def enterNode_def)
    ultimately show ?thesis by blast
  qed
qed

lemma getStronglyConnectedComponents_ok:
  assumes g: "dg_inv g"
  shows "\<exists>sccs. getStronglyConnectedComponents g = Inr sccs \<and> distinct (concat sccs) \<and>
    (\<forall>scc \<in> set sccs. scc \<noteq> [] \<and> set scc \<subseteq> set (getNodes g) \<and>
       (\<forall>a \<in> set scc. \<forall>b \<in> set scc. (a, b) \<in> (edges g)\<^sup>*))"
proof -
  have "\<exists>st. efold (followNode g (Suc (Suc (length (d_nodes g))))) (getNodes g) initTarjan = Inr st \<and> tj_inv g st"
  proof (rule efold_total)
    show "tj_inv g initTarjan" by (rule tj_inv_init)
    fix x u assume x: "x \<in> set (getNodes g)" and u: "tj_inv g u"
    have "card (set (getNodes g) - set (tj_visited u)) \<le> card (set (getNodes g))"
      by (intro card_mono) auto
    then have "card (set (getNodes g) - set (tj_visited u)) < Suc (Suc (length (d_nodes g)))"
      using length_getNodes [OF g] by simp
    with followNode_ok [OF g _ u, of x "Suc (Suc (length (d_nodes g)))"] x g
    show "\<exists>v. followNode g (Suc (Suc (length (d_nodes g)))) x u = Inr v \<and> tj_inv g v"
      unfolding nodeExists_iff [OF g] follows_def by blast
  qed
  then obtain st where st: "efold (followNode g (Suc (Suc (length (d_nodes g))))) (getNodes g) initTarjan = Inr st"
    "tj_inv g st" by blast
  note D = tj_invD [OF st(2)]
  have "getStronglyConnectedComponents g = Inr (tj_sccs st)"
    using st(1) by (simp add: getStronglyConnectedComponents_def del: followNode.simps)
  with D(1,12,13) show ?thesis by (auto simp: subset_iff)
qed

end
