(* ===== verification/Graph_Properties.thy ===== *)
theory Graph_Properties
  imports StronglyConnected
begin

text \<open>
  Concrete graphs, used wherever a statement is applied to a case, and the properties of
  \<open>DirectedGraph\<close>: searches, removal of a node, connected components.
\<close>

section \<open>Example graphs\<close>

definition nodeA :: inode where "nodeA = mkNode 1 ''A''"
definition nodeB :: inode where "nodeB = mkNode 2 ''B''"
definition nodeC :: inode where "nodeC = mkNode 3 ''C''"
definition nodeD :: inode where "nodeD = mkNode 4 ''D''"

definition conn :: "inode \<Rightarrow> inode \<Rightarrow> graph_connection" where
  "conn a b = \<lparr>g_from = a, g_to = b, g_type = Main, g_outputIndex = 0, g_inputIndex = 0\<rparr>"

text \<open>\<open>A \<rightarrow> B \<rightarrow> C\<close> with the two cycles \<open>B \<rightarrow> A\<close> and \<open>C \<rightarrow> B\<close>.\<close>

definition exGraph :: dgraph where
  "exGraph = fold setConnection [conn nodeA nodeB, conn nodeB nodeC, conn nodeB nodeA, conn nodeC nodeB]
     (addNodes [nodeA, nodeB, nodeC] newDirectedGraph)"

text \<open>The chain \<open>A \<rightarrow> B \<rightarrow> C\<close>.\<close>

definition exChain :: dgraph where
  "exChain = fold setConnection [conn nodeA nodeB, conn nodeB nodeC]
     (addNodes [nodeA, nodeB, nodeC] newDirectedGraph)"

lemmas ex_defs = exGraph_def exChain_def nodeA_def nodeB_def nodeC_def nodeD_def conn_def mkNode_def
  addNodes_def addNode_def newDirectedGraph_def setConnection_def makeKey_def nat_string.simps

lemma dg_inv_exGraph [simp]: "dg_inv exGraph"
  by (simp add: dg_inv_def nodeExists_def ex_defs)

lemma dg_inv_exChain [simp]: "dg_inv exChain"
  by (simp add: dg_inv_def nodeExists_def ex_defs)

lemma nodeExists_ex [simp]:
  "nodeExists exGraph nodeA" "nodeExists exGraph nodeB" "nodeExists exGraph nodeC"
  "nodeExists exChain nodeA" "nodeExists exChain nodeB" "nodeExists exChain nodeC"
  by code_simp+

lemma edges_image:
  "edges g = (\<lambda>c. (g_from c, g_to c)) ` set (connectionValues g)"
  "main_edges g = (\<lambda>c. (g_from c, g_to c)) ` set (filter (\<lambda>c. g_type c = Main) (connectionValues g))"
  by (auto simp: edges_def main_edges_def)

lemma main_edges_exChain: "main_edges exChain = {(nodeA, nodeB), (nodeB, nodeC)}"
proof -
  have "connectionValues exChain = [conn nodeA nodeB, conn nodeB nodeC]" by code_simp
  then show ?thesis by (simp add: edges_image conn_def)
qed

lemma edges_exGraph:
  "edges exGraph = {(nodeA, nodeB), (nodeB, nodeC), (nodeB, nodeA), (nodeC, nodeB)}"
proof -
  have "connectionValues exGraph = [conn nodeA nodeB, conn nodeB nodeC, conn nodeB nodeA, conn nodeC nodeB]"
    by code_simp
  then show ?thesis by (simp add: edges_image conn_def)
qed

section \<open>Properties\<close>

text \<open>
  C8: \<open>removeNode(n, {reconnectConnections: true})\<close> that skips the connections that are not
  \<open>main\<close>, on a well-formed graph whose names hold no dash and whose node \<open>n\<close> has no \<open>main\<close>
  connection to itself: it returns a well-formed graph without \<open>n\<close>, and between the other nodes
  there is a path of \<open>main\<close> connections exactly when there was one before.
\<close>

theorem removeNode_keeps_reachability:
  assumes "dg_inv g" "dash_free g" "nodeExists g n" "(n, n) \<notin> main_edges g"
  shows "\<exists>g' new. removeNodeReconnect not_main n g = Inr (g', new) \<and> dg_inv g' \<and>
    (\<forall>m. nodeExists g' m \<longleftrightarrow> nodeExists g m \<and> m \<noteq> n) \<and>
    (\<forall>a b. a \<noteq> n \<and> b \<noteq> n \<longrightarrow> ((a, b) \<in> (main_edges g')\<^sup>+ \<longleftrightarrow> (a, b) \<in> (main_edges g)\<^sup>+))"
proof -
  obtain g' new where r: "removeNodeReconnect not_main n g = Inr (g', new)"
    using removeNodeReconnect_ok [OF assms(3)] by blast
  have "no_self_loop not_main n g"
    using assms(4) by (auto simp: no_self_loop_def not_main_def main_edges_def)
  with assms(1,3) r have "dg_inv g'" by (blast intro: dg_inv_removeNodeReconnect)
  moreover have "nodeExists g' m \<longleftrightarrow> nodeExists g m \<and> m \<noteq> n" for m
    using r assms(3) by (auto simp: removeNodeReconnect_ok) (auto simp: nodeExists_def)
  ultimately show ?thesis
    using r removeNodeReconnect_trancl [OF assms r] by blast
qed

lemma removeNode_keeps_reachability_witness:
  "\<exists>g' new. removeNodeReconnect not_main nodeB exChain = Inr (g', new) \<and> dg_inv g' \<and>
     (nodeA, nodeC) \<in> (main_edges g')\<^sup>+ \<and> \<not> nodeExists g' nodeB"
proof -
  have "dash_free exChain" by code_simp
  moreover have "(nodeB, nodeB) \<notin> main_edges exChain"
    by (simp add: main_edges_exChain nodeA_def nodeB_def nodeC_def mkNode_def)
  moreover have "(nodeA, nodeC) \<in> (main_edges exChain)\<^sup>+"
    by (auto simp: main_edges_exChain intro: trancl_into_trancl r_into_trancl)
  moreover have "nodeA \<noteq> nodeB" "nodeC \<noteq> nodeB"
    by (simp_all add: nodeA_def nodeB_def nodeC_def mkNode_def)
  ultimately show ?thesis
    using removeNode_keeps_reachability [of exChain nodeB] by auto
qed

text \<open>
  \<open>getChildren\<close> on a well-formed graph returns, each once, exactly the nodes that can be
  reached over one or more connections (the node itself only when it lies on a cycle).
\<close>

theorem getChildren_reachable:
  assumes "dg_inv g" "nodeExists g n"
  shows "\<exists>s. getChildren g n = Inr s \<and> distinct s \<and> set s = {m. (n, m) \<in> (edges g)\<^sup>+}"
  using assms by (rule getChildren_ok)

lemma getChildren_reachable_witness:
  "getChildren exGraph nodeC = Inr [nodeB, nodeC, nodeA] \<and> nodeC \<in> {m. (nodeC, m) \<in> (edges exGraph)\<^sup>+}"
proof -
  have "getChildren exGraph nodeC = Inr [nodeB, nodeC, nodeA]" by code_simp
  with getChildren_reachable [of exGraph nodeC] show ?thesis by auto
qed

text \<open>
  \<open>getParentConnections\<close> on a well-formed graph returns, each once, exactly the connections
  from whose target the node can be reached.
\<close>

theorem getParentConnections_reaching:
  assumes "dg_inv g" "nodeExists g n"
  shows "\<exists>s. getParentConnections g n = Inr s \<and> distinct s \<and>
    set s = {c \<in> set (connectionValues g). (g_to c, n) \<in> (edges g)\<^sup>*}"
  using assms by (rule getParentConnections_ok)

lemma getParentConnections_reaching_witness:
  "getParentConnections exChain nodeC = Inr [conn nodeB nodeC, conn nodeA nodeB] \<and>
   (g_to (conn nodeA nodeB), nodeC) \<in> (edges exChain)\<^sup>*"
proof -
  have "getParentConnections exChain nodeC = Inr [conn nodeB nodeC, conn nodeA nodeB]" by code_simp
  with getParentConnections_reaching [of exChain nodeC] show ?thesis by auto
qed

text \<open>
  \<open>depthFirstSearch\<close> on a well-formed graph returns; a node it finds satisfies the predicate
  and can be reached, and when it finds none, no node that can be reached satisfies it.
\<close>

lemma depthFirstSearch_complete:
  assumes "dg_inv g" "nodeExists g src"
  shows "\<exists>r. depthFirstSearch g src fn = Inr r \<and>
    (\<forall>x. r = Some x \<longrightarrow> fn x \<and> (src, x) \<in> (edges g)\<^sup>*) \<and>
    (r = None \<longrightarrow> (\<forall>x. (src, x) \<in> (edges g)\<^sup>* \<longrightarrow> \<not> fn x))"
  using assms by (rule depthFirstSearch_ok)

lemma depthFirstSearch_complete_witness:
  "depthFirstSearch exChain nodeB (\<lambda>n. n = nodeA) = Inr None \<and> (nodeB, nodeA) \<notin> (edges exChain)\<^sup>*"
proof -
  have "depthFirstSearch exChain nodeB (\<lambda>n. n = nodeA) = Inr None" by code_simp
  with depthFirstSearch_complete [of exChain nodeB "\<lambda>n. n = nodeA"] show ?thesis by auto
qed

text \<open>
  Two connections of a graph can have the same key when the names of the nodes contain the
  separator: adding the second one silently replaces the first.
\<close>

lemma makeKey_collision:
  "\<exists>a b c d. makeKey (conn a b) = makeKey (conn c d) \<and> n_name a \<noteq> n_name c \<and>
     ebind (addConnection a b None None None (addNodes [a, b, c, d] newDirectedGraph))
       (addConnection c d None None None) =
     Inr (setConnection (conn c d) (addNodes [a, b, c, d] newDirectedGraph))"
  by (intro exI [of _ "mkNode 1 ''A-main-0-0-B''"] exI [of _ "mkNode 2 ''C''"]
      exI [of _ "mkNode 3 ''A''"] exI [of _ "mkNode 4 ''B-main-0-0-C''"]) code_simp

text \<open>
  Removing a node that has a \<open>main\<close> connection to itself, with reconnection, leaves
  connections to the removed node behind, so that reading its neighbours throws.
\<close>

theorem removeNode_self_loop_dangling:
  "\<exists>g n g' m new. dg_inv g \<and> nodeExists g n \<and> removeNodeReconnect not_main n g = Inr (g', new) \<and>
     \<not> nodeExists g' n \<and> nodeExists g' m \<and> (m, n) \<in> edges g' \<and>
     getChildren g' m = Inl AssertionError"
proof -
  let ?g = "fold setConnection [conn nodeA nodeB, conn nodeB nodeB] (addNodes [nodeA, nodeB] newDirectedGraph)"
  let ?r = "projr (removeNodeReconnect not_main nodeB ?g)"
  have "dg_inv ?g" by (simp add: dg_inv_def nodeExists_def ex_defs)
  moreover have "removeNodeReconnect not_main nodeB ?g = Inr (fst ?r, snd ?r)" by code_simp
  moreover have "nodeExists ?g nodeB" "\<not> nodeExists (fst ?r) nodeB" "nodeExists (fst ?r) nodeA"
    "getChildren (fst ?r) nodeA = Inl AssertionError"
    by code_simp+
  moreover have "conn nodeA nodeB \<in> set (connectionValues (fst ?r))" by code_simp
  then have "(nodeA, nodeB) \<in> edges (fst ?r)" by (force simp: edges_image conn_def)
  ultimately show ?thesis by blast
qed

text \<open>
  \<open>getStronglyConnectedComponents\<close> on a well-formed graph returns pairwise disjoint,
  non-empty sets of nodes, and every two nodes of one set can reach each other.
\<close>

lemma scc_sound:
  assumes "dg_inv g"
  shows "\<exists>sccs. getStronglyConnectedComponents g = Inr sccs \<and> distinct (concat sccs) \<and>
    (\<forall>scc \<in> set sccs. scc \<noteq> [] \<and> set scc \<subseteq> set (getNodes g) \<and>
       (\<forall>a \<in> set scc. \<forall>b \<in> set scc. (a, b) \<in> (edges g)\<^sup>*))"
  using assms by (rule getStronglyConnectedComponents_ok)

lemma scc_sound_witness:
  "getStronglyConnectedComponents exChain = Inr [[nodeC], [nodeB], [nodeA]] \<and>
   distinct (concat [[nodeC], [nodeB], [nodeA]])"
proof -
  have "getStronglyConnectedComponents exChain = Inr [[nodeC], [nodeB], [nodeA]]" by code_simp
  with scc_sound [of exChain] show ?thesis by auto
qed

text \<open>
  The converse fails. In a well-formed graph where two nodes reach each other, a nested
  cycle stops the popping early and no component at all is returned.
\<close>

lemma scc_misses_nested_cycle:
  "\<exists>g a b. dg_inv g \<and> a \<in> set (getNodes g) \<and> (a, b) \<in> edges g \<and> (b, a) \<in> edges g \<and>
     getStronglyConnectedComponents g = Inr []"
proof (intro exI conjI)
  show "nodeA \<in> set (getNodes exGraph)" by code_simp
  show "(nodeA, nodeB) \<in> edges exGraph" "(nodeB, nodeA) \<in> edges exGraph"
    by (simp_all add: edges_exGraph)
  show "getStronglyConnectedComponents exGraph = Inr []" by code_simp
qed simp

end
