(* ===== verification/GraphTables.thy ===== *)
theory GraphTables
  imports Graph_Properties
begin

text \<open>
  \<open>DirectedGraph\<close>'s conversions: \<open>toIConnections\<close> writes the graph out as the nested connection
  tables of a workflow, \<open>fromWorkflow\<close> and \<open>fromNodesAndConnections\<close> read such tables. The
  conversions agree (\<open>toIConnections_roundtrip\<close>) as long as no node has outgoing connections of two
  types, which is exactly when the export does not throw (\<open>toIConnections_uniform\<close>).
\<close>

section \<open>Operations\<close>

text \<open>
  One connection entered in the nested table. The source creates the record of a node with one
  connection type only, the type of the node's first connection; the list of any other type is
  undefined and reading it throws.
\<close>

definition enterTable :: "graph_connection \<Rightarrow> iconnections \<Rightarrow> iconnections result" where
  "enterTable c result =
     (let nm = n_name (g_from c);
          rc = (case map_of result nm of Some rc \<Rightarrow> rc | None \<Rightarrow> [(g_type c, [])])
      in case map_of rc (g_type c) of
           None \<Rightarrow> Inl TypeError
         | Some outs \<Rightarrow>
             (let group = (case js_get outs (g_outputIndex c) of Some (Some cs) \<Rightarrow> cs | _ \<Rightarrow> []);
                  new = \<lparr>c_node = n_name (g_to c), c_type = g_type c, c_index = g_inputIndex c\<rparr>;
                  outs' = js_set None outs (g_outputIndex c) (Some (group @ [new]))
              in Inr (AList.update nm (AList.update (g_type c) outs' rc) result)))"

definition toIConnections :: "dgraph \<Rightarrow> iconnections result" where
  "toIConnections g = efold enterTable (connectionValues g) []"

text \<open>\<open>outputs.entries()\<close>; a hole counts as no connection (\<open>conns ?? []\<close>).\<close>

definition outputEntries :: "node_input_connections \<Rightarrow> (nat \<times> iconnection list) list" where
  "outputEntries outs = zip [0..<length outs] (map (\<lambda>cs. case cs of Some l \<Rightarrow> l | None \<Rightarrow> []) outs)"

text \<open>The nested loops over a table, with the node lookup of the caller.\<close>

definition addTableConnections ::
  "(string \<Rightarrow> inode option) \<Rightarrow> iconnections \<Rightarrow> dgraph \<Rightarrow> dgraph result" where
  "addTableConnections lookup conns g =
     efold (\<lambda>(fromName, rc) g.
       case lookup fromName of None \<Rightarrow> Inl AssertionError
       | Some src \<Rightarrow>
         efold (\<lambda>(ty, outs).
           efold (\<lambda>(oi, cs).
             efold (\<lambda>c g.
               case lookup (c_node c) of None \<Rightarrow> Inl AssertionError
               | Some dst \<Rightarrow> addConnection src dst (Some ty) (Some oi) (Some (c_index c)) g) cs)
           (outputEntries outs)) rc g) conns g"

definition fromNodesAndConnections :: "inode list \<Rightarrow> iconnections \<Rightarrow> dgraph result" where
  "fromNodesAndConnections nodes conns =
     addTableConnections (map_of (fold (\<lambda>n m. AList.update (n_name n) n m) nodes [])) conns
       (addNodes nodes newDirectedGraph)"

definition fromWorkflow :: "'i workflow \<Rightarrow> dgraph result" where
  "fromWorkflow w =
     addTableConnections (wf_getNode w) (w_connectionsBySourceNode w)
       (addNodes (map snd (w_nodes w)) newDirectedGraph)"

section \<open>Tables as sets of entries\<close>

definition conn_entry :: "graph_connection \<Rightarrow> iconnection" where
  "conn_entry c = \<lparr>c_node = n_name (g_to c), c_type = g_type c, c_index = g_inputIndex c\<rparr>"

text \<open>What the loop of \<open>toIConnections\<close> keeps: the table holds the connections seen so far.\<close>

definition cell :: "node_input_connections \<Rightarrow> nat \<Rightarrow> iconnection set" where
  "cell outs oi = {x. \<exists>l. js_get outs oi = Some (Some l) \<and> x \<in> set l}"

definition seen_cell :: "graph_connection list \<Rightarrow> string \<Rightarrow> nat \<Rightarrow> iconnection set" where
  "seen_cell cs nm oi = conn_entry ` {c \<in> set cs. n_name (g_from c) = nm \<and> g_outputIndex c = oi}"

definition table_row :: "graph_connection list \<Rightarrow> string \<Rightarrow> node_connection_type \<Rightarrow> node_input_connections \<Rightarrow> bool" where
  "table_row cs nm ty outs \<longleftrightarrow> nm \<in> (\<lambda>c. n_name (g_from c)) ` set cs \<and>
     (\<forall>c \<in> set cs. n_name (g_from c) = nm \<longrightarrow> g_type c = ty) \<and> cell outs = seen_cell cs nm"

definition table_of :: "graph_connection list \<Rightarrow> iconnections \<Rightarrow> bool" where
  "table_of cs t \<longleftrightarrow> distinct (map fst t) \<and>
     (\<forall>nm rc. map_of t nm = Some rc \<longrightarrow> (\<exists>ty outs. rc = [(ty, outs)] \<and> table_row cs nm ty outs)) \<and>
     (\<forall>c \<in> set cs. map_of t (n_name (g_from c)) \<noteq> None)"

lemma table_of_Nil: "table_of [] []"
  by (simp add: table_of_def)

lemma cell_js_set:
  "cell (js_set None outs oi (Some ((case js_get outs oi of Some (Some l) \<Rightarrow> l | _ \<Rightarrow> []) @ [x]))) =
     (cell outs)(oi := insert x (cell outs oi))"
proof (intro ext)
  fix j
  show "cell (js_set None outs oi (Some ((case js_get outs oi of Some (Some l) \<Rightarrow> l | _ \<Rightarrow> []) @ [x]))) j =
     ((cell outs)(oi := insert x (cell outs oi))) j"
  proof (cases "j = oi")
    case True
    then show ?thesis by (cases "js_get outs oi") (auto simp: cell_def split: option.splits)
  next
    case False
    then have "js_get (js_set None outs oi y) j = Some (Some l) \<longleftrightarrow> js_get outs j = Some (Some l)" for y l
      by (simp add: js_get_js_set_other) (simp add: js_get_def)
    with False show ?thesis by (simp add: cell_def)
  qed
qed

lemma seen_cell_snoc:
  "seen_cell (cs @ [c]) nm = (if nm = n_name (g_from c)
     then (seen_cell cs nm)(g_outputIndex c := insert (conn_entry c) (seen_cell cs nm (g_outputIndex c)))
     else seen_cell cs nm)"
proof (intro ext)
  fix oi
  have "{d \<in> set (cs @ [c]). n_name (g_from d) = nm \<and> g_outputIndex d = oi} =
    {d \<in> set cs. n_name (g_from d) = nm \<and> g_outputIndex d = oi} \<union>
    (if n_name (g_from c) = nm \<and> g_outputIndex c = oi then {c} else {})" by auto
  then show "seen_cell (cs @ [c]) nm oi = (if nm = n_name (g_from c)
     then (seen_cell cs nm)(g_outputIndex c := insert (conn_entry c) (seen_cell cs nm (g_outputIndex c)))
     else seen_cell cs nm) oi"
    by (simp add: seen_cell_def)
qed

lemma enterTable_ok:
  assumes t: "table_of cs t"
    and ty: "\<forall>d \<in> set cs. n_name (g_from d) = n_name (g_from c) \<longrightarrow> g_type d = g_type c"
  shows "\<exists>t'. enterTable c t = Inr t' \<and> table_of (cs @ [c]) t'"
proof -
  let ?nm = "n_name (g_from c)" and ?ty = "g_type c" and ?oi = "g_outputIndex c"
  obtain outs where outs: "(case map_of t ?nm of Some rc \<Rightarrow> rc | None \<Rightarrow> [(?ty, [])]) = [(?ty, outs)]"
    "cell outs = seen_cell cs ?nm"
  proof (cases "map_of t ?nm")
    case None
    with t have "\<forall>d \<in> set cs. n_name (g_from d) \<noteq> ?nm" by (auto simp: table_of_def)
    then have "cell [] = seen_cell cs ?nm" by (auto simp: cell_def seen_cell_def intro!: ext)
    with None show ?thesis by (intro that [of "[]"]) simp_all
  next
    case (Some rc)
    with t obtain ty' outs where rc: "rc = [(ty', outs)]" "table_row cs ?nm ty' outs"
      unfolding table_of_def by blast
    from rc(2) ty have "ty' = ?ty" by (auto simp: table_row_def)
    with Some rc show ?thesis by (intro that [of outs]) (simp_all add: table_row_def)
  qed
  define outs' where "outs' = js_set None outs ?oi
    (Some ((case js_get outs ?oi of Some (Some l) \<Rightarrow> l | _ \<Rightarrow> []) @ [conn_entry c]))"
  have eq: "enterTable c t = Inr (AList.update ?nm [(?ty, outs')] t)"
    using outs(1) by (simp add: enterTable_def Let_def outs'_def conn_entry_def)
  have row: "table_row (cs @ [c]) ?nm ?ty outs'"
    using ty by (auto simp: table_row_def seen_cell_snoc outs(2) outs'_def cell_js_set)
  have "table_of (cs @ [c]) (AList.update ?nm [(?ty, outs')] t)"
    unfolding table_of_def
  proof (intro conjI allI impI ballI)
    show "distinct (map fst (AList.update ?nm [(?ty, outs')] t))"
      using t by (simp add: table_of_def distinct_update)
  next
    fix d assume "d \<in> set (cs @ [c])"
    with t show "map_of (AList.update ?nm [(?ty, outs')] t) (n_name (g_from d)) \<noteq> None"
      by (auto simp: table_of_def)
  next
    fix nm rc
    assume rc: "map_of (AList.update ?nm [(?ty, outs')] t) nm = Some rc"
    show "\<exists>ty o'. rc = [(ty, o')] \<and> table_row (cs @ [c]) nm ty o'"
    proof (cases "nm = ?nm")
      case True
      with rc have "rc = [(?ty, outs')]" by simp
      with True row show ?thesis by blast
    next
      case False
      with rc t obtain ty' o' where "rc = [(ty', o')]" "table_row cs nm ty' o'"
        unfolding table_of_def by (metis fun_upd_other map_of_AList_update)
      with False show ?thesis by (auto simp: table_row_def seen_cell_snoc)
    qed
  qed
  with eq show ?thesis by blast
qed

definition uniform_out :: "dgraph \<Rightarrow> bool" where
  "uniform_out g \<longleftrightarrow> (\<forall>c \<in> set (connectionValues g). \<forall>d \<in> set (connectionValues g).
     n_name (g_from c) = n_name (g_from d) \<longrightarrow> g_type c = g_type d)"

lemma toIConnections_ok:
  assumes "uniform_out g"
  shows "\<exists>t. toIConnections g = Inr t \<and> table_of (connectionValues g) t"
  unfolding toIConnections_def
proof (rule efold_total_prefix)
  show "table_of [] []" by (rule table_of_Nil)
  fix ys c zs t
  assume "connectionValues g = ys @ c # zs" "table_of ys t"
  with assms show "\<exists>v. enterTable c t = Inr v \<and> table_of (ys @ [c]) v"
    by (intro enterTable_ok) (auto simp: uniform_out_def)
qed

lemma enterTable_mixed:
  assumes t: "table_of cs t" and d: "d \<in> set cs" "n_name (g_from d) = n_name (g_from c)" "g_type d \<noteq> g_type c"
  shows "enterTable c t = Inl TypeError"
proof -
  have "map_of t (n_name (g_from d)) \<noteq> None" using t d(1) unfolding table_of_def by blast
  then obtain rc where rc: "map_of t (n_name (g_from c)) = Some rc" using d(2) by auto
  with t obtain ty outs where "rc = [(ty, outs)]" "table_row cs (n_name (g_from c)) ty outs"
    unfolding table_of_def by blast
  moreover from this d have "ty = g_type d" by (auto simp: table_row_def)
  ultimately show ?thesis using rc d(3) by (simp add: enterTable_def)
qed

lemma toIConnections_prefix:
  "efold enterTable cs [] = Inr t \<Longrightarrow> table_of cs t \<and>
    (\<forall>c \<in> set cs. \<forall>d \<in> set cs. n_name (g_from c) = n_name (g_from d) \<longrightarrow> g_type c = g_type d)"
proof (induction cs arbitrary: t rule: rev_induct)
  case Nil
  then show ?case by (simp add: table_of_Nil)
next
  case (snoc c cs)
  then obtain u where u: "efold enterTable cs [] = Inr u" "enterTable c u = Inr t" by auto
  note IH = snoc.IH [OF u(1)]
  have ty: "\<forall>d \<in> set cs. n_name (g_from d) = n_name (g_from c) \<longrightarrow> g_type d = g_type c"
  proof (intro ballI impI, rule ccontr)
    fix d assume "d \<in> set cs" "n_name (g_from d) = n_name (g_from c)" "g_type d \<noteq> g_type c"
    with enterTable_mixed [OF conjunct1 [OF IH]] u(2) show False by simp
  qed
  from enterTable_ok [OF conjunct1 [OF IH] this] u(2) have "table_of (cs @ [c]) t" by simp
  moreover have "\<forall>a \<in> set (cs @ [c]). \<forall>d \<in> set (cs @ [c]).
      n_name (g_from a) = n_name (g_from d) \<longrightarrow> g_type a = g_type d"
    using IH ty by (metis Un_iff empty_iff insert_iff list.set(1,2) set_append)
  ultimately show ?case by blast
qed

section \<open>Reading a table\<close>

lemma efold_concat: "efold f (concat xss) = efold (efold f) xss"
proof (induction xss)
  case Nil
  then show ?case by (simp add: fun_eq_iff)
next
  case (Cons xs xss)
  then show ?case by (intro ext) simp
qed

lemma efold_map_list: "efold f (map h xs) = efold (\<lambda>x. f (h x)) xs"
proof (induction xs)
  case Nil
  then show ?case by (simp add: fun_eq_iff)
next
  case (Cons x xs)
  then show ?case by (intro ext) simp
qed

definition flatTable :: "iconnections \<Rightarrow> (string \<times> node_connection_type \<times> nat \<times> iconnection) list" where
  "flatTable t = concat (map (\<lambda>(nm, rc). concat (map (\<lambda>(ty, outs).
     concat (map (\<lambda>(oi, cs). map (\<lambda>c. (nm, ty, oi, c)) cs) (outputEntries outs))) rc)) t)"

definition tableStep ::
  "(string \<Rightarrow> inode option) \<Rightarrow> string \<times> node_connection_type \<times> nat \<times> iconnection \<Rightarrow> dgraph \<Rightarrow> dgraph result" where
  "tableStep lookup = (\<lambda>(nm, ty, oi, c) g. case lookup (c_node c) of None \<Rightarrow> Inl AssertionError
     | Some dst \<Rightarrow> addConnection (the (lookup nm)) dst (Some ty) (Some oi) (Some (c_index c)) g)"

lemma tableStep_simp:
  "lookup nm = Some src \<Longrightarrow> tableStep lookup (nm, ty, oi, c) =
     (\<lambda>g. case lookup (c_node c) of None \<Rightarrow> Inl AssertionError
       | Some dst \<Rightarrow> addConnection src dst (Some ty) (Some oi) (Some (c_index c)) g)"
  by (simp add: tableStep_def fun_eq_iff split: option.split)

lemma addTableConnections_flat:
  assumes "\<forall>nm \<in> fst ` set t. lookup nm \<noteq> None"
  shows "addTableConnections lookup t g = efold (tableStep lookup) (flatTable t) g"
proof -
  have "efold (tableStep lookup) (flatTable t) g = efold (\<lambda>(nm, rc). efold (\<lambda>(ty, outs).
      efold (\<lambda>(oi, cs). efold (\<lambda>c. tableStep lookup (nm, ty, oi, c)) cs) (outputEntries outs)) rc) t g"
    by (simp add: flatTable_def efold_concat efold_map_list split_def)
  also have "\<dots> = addTableConnections lookup t g"
    unfolding addTableConnections_def
    using assms by (intro efold_cong) (auto simp: tableStep_simp)
  finally show ?thesis ..
qed

lemma set_outputEntries:
  "(oi, cs) \<in> set (outputEntries outs) \<longleftrightarrow>
     (\<exists>x. js_get outs oi = Some x \<and> cs = (case x of Some l \<Rightarrow> l | None \<Rightarrow> []))"
proof -
  have "(oi, cs) \<in> set (outputEntries outs) \<longleftrightarrow>
      oi < length outs \<and> cs = (case outs ! oi of Some l \<Rightarrow> l | None \<Rightarrow> [])"
    by (auto simp: outputEntries_def set_zip intro!: exI [of _ oi])
  then show ?thesis by (auto simp: js_get_def)
qed

lemma set_flatTable:
  "(nm, ty, oi, c) \<in> set (flatTable t) \<longleftrightarrow>
     (\<exists>rc outs. (nm, rc) \<in> set t \<and> (ty, outs) \<in> set rc \<and> c \<in> cell outs oi)"
proof -
  have cell: "(\<exists>cs. (oi, cs) \<in> set (outputEntries outs) \<and> c \<in> set cs) \<longleftrightarrow> c \<in> cell outs oi" for outs
    by (auto simp: set_outputEntries cell_def split: option.splits)
  have "(nm, ty, oi, c) \<in> set (flatTable t) \<longleftrightarrow> (\<exists>rc outs. (nm, rc) \<in> set t \<and> (ty, outs) \<in> set rc \<and>
      (\<exists>cs. (oi, cs) \<in> set (outputEntries outs) \<and> c \<in> set cs))"
    unfolding flatTable_def by fastforce
  then show ?thesis by (simp only: cell)
qed

section \<open>The way back\<close>

lemma AList_update_new: "k \<notin> fst ` set al \<Longrightarrow> AList.update k v al = al @ [(k, v)]"
  by (induction al) auto

lemma fold_update_names:
  "distinct (map fst (acc @ al)) \<Longrightarrow> \<forall>(k, n) \<in> set al. k = n_name n \<Longrightarrow>
     fold (\<lambda>n m. AList.update (n_name n) n m) (map snd al) acc = acc @ al"
proof (induction al arbitrary: acc)
  case Nil
  then show ?case by simp
next
  case (Cons p al)
  obtain k n where p: "p = (k, n)" by (cases p)
  with Cons.prems have "n_name n = k" "k \<notin> fst ` set acc" by auto
  with Cons p show ?case by (simp add: AList_update_new)
qed

lemma addNodes_nodes:
  "addNodes ns g = g\<lparr>d_nodes := fold (\<lambda>n m. AList.update (n_name n) n m) ns (d_nodes g)\<rparr>"
proof (induction ns arbitrary: g)
  case Nil
  then show ?case by (simp add: addNodes_def)
next
  case (Cons n ns)
  then show ?case by (simp add: addNodes_def addNode_def)
qed

lemma rebuild_nodes:
  assumes "dg_inv g"
  shows "fold (\<lambda>n m. AList.update (n_name n) n m) (getNodes g) [] = d_nodes g"
    and "addNodes (getNodes g) newDirectedGraph = \<lparr>d_nodes = d_nodes g, d_connections = []\<rparr>"
proof -
  show "fold (\<lambda>n m. AList.update (n_name n) n m) (getNodes g) [] = d_nodes g"
    using fold_update_names [of "[]" "d_nodes g"] assms by (simp add: getNodes_def dg_inv_def)
  then show "addNodes (getNodes g) newDirectedGraph = \<lparr>d_nodes = d_nodes g, d_connections = []\<rparr>"
    by (simp add: addNodes_nodes newDirectedGraph_def)
qed

text \<open>Setting connections with pairwise different keys keeps every one of them.\<close>

lemma set_fold_setConnection:
  assumes "inj_on makeKey (set cs)" "d_connections g = []"
  shows "set (connectionValues (fold setConnection cs g)) = set cs"
proof
  show "set (connectionValues (fold setConnection cs g)) \<subseteq> set cs"
    using connectionValues_fold_setConnection [of cs g] assms(2) by (auto simp: connectionValues_def)
  have "inj_on makeKey (set cs) \<Longrightarrow> c \<in> set cs \<Longrightarrow>
      map_of (d_connections (fold setConnection cs g)) (makeKey c) = Some c" for c
  proof (induction cs rule: rev_induct)
    case Nil
    then show ?case by simp
  next
    case (snoc d cs)
    then show ?case by (auto simp: setConnection_def inj_on_def)
  qed
  with assms(1) show "set cs \<subseteq> set (connectionValues (fold setConnection cs g))"
    by (auto simp: connectionValues_def dest: map_of_Some_in_values)
qed

lemma fold_tableStep:
  assumes "\<forall>(nm, ty, oi, c) \<in> set es. nodeExists g (f nm) \<and> lookup nm = Some (f nm) \<and>
      nodeExists g (f (c_node c)) \<and> lookup (c_node c) = Some (f (c_node c))"
  shows "efold (tableStep lookup) es g = Inr (fold setConnection
    (map (\<lambda>(nm, ty, oi, c). \<lparr>g_from = f nm, g_to = f (c_node c), g_type = ty,
        g_outputIndex = oi, g_inputIndex = c_index c\<rparr>) es) g)"
  using assms
proof (induction es arbitrary: g)
  case Nil
  then show ?case by simp
next
  case (Cons e es)
  obtain nm ty oi c where e: "e = (nm, ty, oi, c)" by (cases e)
  with Cons.prems have "tableStep lookup e g = Inr (setConnection \<lparr>g_from = f nm, g_to = f (c_node c), g_type = ty,
        g_outputIndex = oi, g_inputIndex = c_index c\<rparr> g)"
    by (auto simp: tableStep_simp addConnection_def)
  with Cons e show ?case by (simp add: split_def)
qed

lemma makeKey_inj_on:
  assumes "dg_inv g"
  shows "inj_on makeKey (set (connectionValues g))"
proof (rule inj_onI)
  fix c d assume cd: "c \<in> set (connectionValues g)" "d \<in> set (connectionValues g)" "makeKey c = makeKey d"
  have "map_of (d_connections g) (makeKey e) = Some e" if "e \<in> set (connectionValues g)" for e
  proof (rule map_of_is_SomeI [OF dg_invD(2) [OF assms]])
    show "(makeKey e, e) \<in> set (d_connections g)"
      using iffD2 [OF dg_inv_connections_iff [OF assms, of "makeKey e" e]] that by blast
  qed
  from this [OF cd(1), unfolded cd(3)] this [OF cd(2)] have "Some c = Some d" by (rule trans [OF sym])
  then show "c = d" by (rule option.inject [THEN iffD1])
qed

lemma table_roundtrip:
  assumes g: "dg_inv g" and t: "table_of (connectionValues g) t"
  shows "\<exists>g'. fromNodesAndConnections (getNodes g) t = Inr g' \<and> d_nodes g' = d_nodes g \<and>
    dg_inv g' \<and> set (connectionValues g') = set (connectionValues g)"
proof -
  let ?l = "map_of (d_nodes g)" and ?g0 = "\<lparr>d_nodes = d_nodes g, d_connections = []\<rparr>"
  let ?mk = "\<lambda>(nm, ty, oi, c). \<lparr>g_from = the (?l nm), g_to = the (?l (c_node c)), g_type = ty,
        g_outputIndex = oi, g_inputIndex = c_index c\<rparr>"
  have exs: "nodeExists g (g_from c) \<and> nodeExists g (g_to c)" if "c \<in> set (connectionValues g)" for c
    using that g by (auto dest: dg_invD)
  have rebuild: "?mk (n_name (g_from c), g_type c, g_outputIndex c, conn_entry c) = c"
    if "c \<in> set (connectionValues g)" for c
    using exs [OF that] by (simp add: nodeExists_def conn_entry_def)
  have flat: "(nm, ty, oi, x) \<in> set (flatTable t) \<longleftrightarrow> (\<exists>c \<in> set (connectionValues g).
      nm = n_name (g_from c) \<and> ty = g_type c \<and> oi = g_outputIndex c \<and> x = conn_entry c)" for nm ty oi x
  proof
    assume "(nm, ty, oi, x) \<in> set (flatTable t)"
    then obtain rc outs where "map_of t nm = Some rc" "(ty, outs) \<in> set rc" "x \<in> cell outs oi"
      using t by (auto simp: set_flatTable table_of_def)
    moreover from this t have "table_row (connectionValues g) nm ty outs"
      unfolding table_of_def by fastforce
    ultimately have row: "x \<in> seen_cell (connectionValues g) nm oi"
      "\<forall>c \<in> set (connectionValues g). n_name (g_from c) = nm \<longrightarrow> g_type c = ty"
      by (simp_all add: table_row_def)
    from row(1) obtain d where "d \<in> set (connectionValues g)" "n_name (g_from d) = nm"
      "g_outputIndex d = oi" "conn_entry d = x" by (auto simp: seen_cell_def)
    with row(2) show "\<exists>c \<in> set (connectionValues g).
      nm = n_name (g_from c) \<and> ty = g_type c \<and> oi = g_outputIndex c \<and> x = conn_entry c"
      by (intro bexI [of _ d]) auto
  next
    assume "\<exists>c \<in> set (connectionValues g).
      nm = n_name (g_from c) \<and> ty = g_type c \<and> oi = g_outputIndex c \<and> x = conn_entry c"
    then obtain c where c: "c \<in> set (connectionValues g)"
      "nm = n_name (g_from c)" "ty = g_type c" "oi = g_outputIndex c" "x = conn_entry c" by blast
    from t c(1) have "map_of t (n_name (g_from c)) \<noteq> None" unfolding table_of_def by blast
    with c(2) obtain rc where rc: "map_of t nm = Some rc" by auto
    with t obtain ty' outs where row: "rc = [(ty', outs)]" "table_row (connectionValues g) nm ty' outs"
      unfolding table_of_def by blast
    with c have "ty' = ty" "x \<in> cell outs oi" by (auto simp: table_row_def seen_cell_def)
    with rc row(1) show "(nm, ty, oi, x) \<in> set (flatTable t)"
      by (auto simp: set_flatTable dest: map_of_SomeD)
  qed
  have img: "set (map ?mk (flatTable t)) = set (connectionValues g)"
  proof (intro equalityI subsetI)
    fix c assume "c \<in> set (map ?mk (flatTable t))"
    then show "c \<in> set (connectionValues g)" using rebuild by (auto simp: flat)
  next
    fix c assume c: "c \<in> set (connectionValues g)"
    then have "(n_name (g_from c), g_type c, g_outputIndex c, conn_entry c) \<in> set (flatTable t)"
      by (auto simp: flat)
    with rebuild [OF c] show "c \<in> set (map ?mk (flatTable t))"
      unfolding set_map by (rule image_eqI [OF sym])
  qed
  have keys: "\<forall>nm \<in> fst ` set t. ?l nm \<noteq> None"
  proof
    fix nm assume "nm \<in> fst ` set t"
    then have "map_of t nm \<noteq> None" by (simp add: map_of_eq_None_iff)
    with t obtain ty outs where "table_row (connectionValues g) nm ty outs"
      unfolding table_of_def by blast
    with exs show "?l nm \<noteq> None" by (auto simp: table_row_def nodeExists_def)
  qed
  have "efold (tableStep ?l) (flatTable t) ?g0 = Inr (fold setConnection (map ?mk (flatTable t)) ?g0)"
    by (rule fold_tableStep) (use exs in \<open>auto simp: flat nodeExists_def conn_entry_def\<close>)
  then have eq: "fromNodesAndConnections (getNodes g) t = Inr (fold setConnection (map ?mk (flatTable t)) ?g0)"
    using keys by (simp add: fromNodesAndConnections_def rebuild_nodes [OF g] addTableConnections_flat)
  have "inj_on makeKey (set (connectionValues g))"
    by (rule makeKey_inj_on [OF g])
  with img have vals: "set (connectionValues (fold setConnection (map ?mk (flatTable t)) ?g0)) = set (connectionValues g)"
    by (subst set_fold_setConnection) simp_all
  moreover have "dg_inv ?g0" using g by (simp add: dg_inv_def)
  then have "dg_inv (fold setConnection (map ?mk (flatTable t)) ?g0)"
    using exs img by (intro dg_inv_fold_setConnection) (auto simp: nodeExists_def)
  moreover have "d_nodes (fold setConnection cs g) = d_nodes g" for cs and g :: dgraph
    by (induction cs arbitrary: g) (simp_all add: setConnection_def)
  ultimately show ?thesis using eq by simp
qed

section \<open>Properties\<close>

text \<open>
  C39: a well-formed graph written out as nested connection tables and read back with
  \<open>fromNodesAndConnections\<close> is the same graph: the same nodes in the same order and the same
  connections.
\<close>

theorem toIConnections_roundtrip:
  assumes "dg_inv g" "toIConnections g = Inr t"
  shows "\<exists>g'. fromNodesAndConnections (getNodes g) t = Inr g' \<and> d_nodes g' = d_nodes g \<and>
    dg_inv g' \<and> set (connectionValues g') = set (connectionValues g)"
  using assms toIConnections_prefix [of "connectionValues g" t]
  by (intro table_roundtrip) (simp_all add: toIConnections_def)

lemma toIConnections_roundtrip_witness:
  "\<exists>g'. fromNodesAndConnections [nodeA, nodeB, nodeC]
      [(''A'', [(Main, [Some [\<lparr>c_node = ''B'', c_type = Main, c_index = 0\<rparr>]])]),
       (''B'', [(Main, [Some [\<lparr>c_node = ''C'', c_type = Main, c_index = 0\<rparr>]])])] = Inr g' \<and>
     set (connectionValues g') = {conn nodeA nodeB, conn nodeB nodeC}"
proof -
  have "toIConnections exChain = Inr
      [(''A'', [(Main, [Some [\<lparr>c_node = ''B'', c_type = Main, c_index = 0\<rparr>]])]),
       (''B'', [(Main, [Some [\<lparr>c_node = ''C'', c_type = Main, c_index = 0\<rparr>]])])]"
    "getNodes exChain = [nodeA, nodeB, nodeC]" "connectionValues exChain = [conn nodeA nodeB, conn nodeB nodeC]"
    by code_simp+
  with toIConnections_roundtrip [of exChain] show ?thesis by auto
qed

text \<open>
  A graph can be written out as nested tables exactly when all connections that leave one
  node have the same type; a node with outgoing connections of two types (which is legal in a
  workflow) makes the export throw.
\<close>

theorem toIConnections_uniform:
  "(\<exists>t. toIConnections g = Inr t) \<longleftrightarrow> uniform_out g"
  using toIConnections_ok [of g] toIConnections_prefix [of "connectionValues g"]
  by (auto simp: toIConnections_def uniform_out_def)

end
