(* ===== verification/StartNodes.thy ===== *)
theory StartNodes
  imports GraphTables
begin

text \<open>
  Where a partial execution starts, and which run data it keeps: \<open>get-incoming-data.ts\<close>,
  \<open>run-data-utils.ts\<close>, \<open>find-start-nodes.ts\<close> and \<open>clean-run-data.ts\<close> of
  \<open>packages/core/src/execution-engine/partial-execution-utils\<close>. The search for start nodes carries a
  set of seen nodes per path, so its depth is at most the number of nodes plus one, the fuel given.
  \<open>findStartNodes_exact\<close> and \<open>cleanRunData_exact\<close> characterise both results by reachability.
\<close>

section \<open>Reading run data\<close>

definition getIncomingData ::
  "'i run_data \<Rightarrow> string \<Rightarrow> int \<Rightarrow> node_connection_type \<Rightarrow> nat \<Rightarrow> 'i list option result" where
  "getIncomingData rd nm runIndex ty outputIndex =
     (case map_of rd nm of None \<Rightarrow> Inr None
      | Some runs \<Rightarrow> (case js_at runs runIndex of None \<Rightarrow> Inr None
        | Some td \<Rightarrow> (case t_data td of None \<Rightarrow> Inr None
          | Some d \<Rightarrow> (case map_of d ty of None \<Rightarrow> Inl TypeError
            | Some outs \<Rightarrow> Inr (case js_get outs outputIndex of Some (Some items) \<Rightarrow> Some items | _ \<Rightarrow> None)))))"

definition getRunIndexLength :: "'i run_data \<Rightarrow> string \<Rightarrow> nat" where
  "getRunIndexLength rd nm = (case map_of rd nm of Some runs \<Rightarrow> length runs | None \<Rightarrow> 0)"

fun anyRunFrom ::
  "'i run_data \<Rightarrow> string \<Rightarrow> node_connection_type \<Rightarrow> nat \<Rightarrow> nat list \<Rightarrow> ('i list \<times> nat) option result" where
  "anyRunFrom rd nm ty oi [] = Inr None"
| "anyRunFrom rd nm ty oi (r # rs) =
     ebind (getIncomingData rd nm (int r) ty oi) (\<lambda>d.
       case d of Some (x # xs) \<Rightarrow> Inr (Some (x # xs, r)) | _ \<Rightarrow> anyRunFrom rd nm ty oi rs)"

definition getIncomingDataFromAnyRun ::
  "'i run_data \<Rightarrow> string \<Rightarrow> node_connection_type \<Rightarrow> nat \<Rightarrow> ('i list \<times> nat) option result" where
  "getIncomingDataFromAnyRun rd nm ty oi = anyRunFrom rd nm ty oi [0..<getRunIndexLength rd nm]"

text \<open>\<open>Object.values(runData).flat()\<close>, the numeric indices, their maximum plus one.\<close>

definition getNextExecutionIndex :: "'i run_data \<Rightarrow> nat" where
  "getNextExecutionIndex rd =
     (let previousIndices = List.map_filter t_executionIndex (concat (map snd rd))
      in if previousIndices = [] then 0 else Max (set previousIndices) + 1)"

definition isDirty :: "inode \<Rightarrow> 'i run_data \<Rightarrow> 'i pin_data \<Rightarrow> bool" where
  "isDirty node rd pin =
     (let hasAnError = (case map_of rd (n_name node) of
            Some runs \<Rightarrow> list_ex (\<lambda>td. t_error td \<noteq> None) runs | None \<Rightarrow> False)
      in if hasAnError then True
         else if map_of pin (n_name node) \<noteq> None then False
         else if map_of rd (n_name node) \<noteq> None then False
         else True)"

section \<open>Start nodes\<close>

definition isALoop :: "dgraph \<Rightarrow> inode \<Rightarrow> bool result" where
  "isALoop g n = ebind (getChildren g n) (\<lambda>cs. Inr (n \<in> set cs))"

text \<open>A loop node whose \<open>done\<close> output has no data in the last run is a start node.\<close>

definition loopPending :: "dgraph \<Rightarrow> 'i run_data \<Rightarrow> inode \<Rightarrow> bool result" where
  "loopPending g rd n =
     (if n_type n = ''n8n-nodes-base.splitInBatches'' then
        ebind (isALoop g n) (\<lambda>loop.
        ebind (getIncomingData rd (n_name n) (- 1) Main (if loop then 0 else 1)) (\<lambda>d.
          Inr (case d of None \<Rightarrow> True | Some items \<Rightarrow> items = [])))
      else Inr False)"

definition hasOutputData :: "'i run_data \<Rightarrow> graph_connection \<Rightarrow> bool result" where
  "hasOutputData rd c =
     ebind (getIncomingDataFromAnyRun rd (n_name (g_from c)) (g_type c) (g_outputIndex c))
       (\<lambda>d. Inr (case d of None \<Rightarrow> False | Some (items, _) \<Rightarrow> items \<noteq> []))"

fun findStartNodesRecursive ::
  "dgraph \<Rightarrow> inode \<Rightarrow> 'i run_data \<Rightarrow> 'i pin_data \<Rightarrow> nat \<Rightarrow> inode \<Rightarrow> inode list \<Rightarrow> inode list \<Rightarrow> inode list result"
where
  "findStartNodesRecursive g dest rd pin 0 cur startNodes seen = Inl OutOfFuel"
| "findStartNodesRecursive g dest rd pin (Suc f) cur startNodes seen =
     (if isDirty cur rd pin then Inr (sadd cur startNodes)
      else if cur = dest then Inr (sadd cur startNodes)
      else ebind (loopPending g rd cur) (\<lambda>pending.
        if pending then Inr (sadd cur startNodes)
        else if cur \<in> set seen then Inr startNodes
        else ebind (getDirectChildConnections g cur) (\<lambda>outGoing.
          efold (\<lambda>c s. ebind (hasOutputData rd c) (\<lambda>hasRunData.
             if \<not> hasRunData \<and> map_of pin (n_name (g_from c)) = None then Inr s
             else findStartNodesRecursive g dest rd pin f (g_to c) s (sadd cur seen)))
           outGoing startNodes)))"

definition findStartNodes ::
  "dgraph \<Rightarrow> inode \<Rightarrow> inode \<Rightarrow> 'i run_data \<Rightarrow> 'i pin_data \<Rightarrow> inode list result" where
  "findStartNodes g trigger destination rd pin =
     findStartNodesRecursive g destination rd pin (Suc (Suc (length (d_nodes g)))) trigger [] []"

section \<open>Cleaning run data\<close>

definition cleanNode :: "dgraph \<Rightarrow> inode \<Rightarrow> 'i run_data \<Rightarrow> 'i run_data result" where
  "cleanNode g node rd =
     ebind (getParentConnections g node) (\<lambda>cs.
       Inr (fold (\<lambda>c rd. if g_type c = Main then rd else AList.delete (n_name (g_from c)) rd) cs
              (AList.delete (n_name node) rd)))"

definition cleanRunData :: "'i run_data \<Rightarrow> dgraph \<Rightarrow> inode list \<Rightarrow> 'i run_data result" where
  "cleanRunData rd g nodesToClean =
     ebind (efold (\<lambda>n rd.
         ebind (getChildren g n) (\<lambda>children.
           efold (cleanNode g) (n # children) (AList.delete (n_name n) rd))) nodesToClean rd)
       (\<lambda>rd. Inr (filter (\<lambda>(nm, _). hasNode g nm) rd))"

section \<open>Lemmas\<close>

text \<open>
  Run data that has an entry for every connection type the graph uses: then no read of the
  run data throws.
\<close>

definition run_data_typed :: "dgraph \<Rightarrow> 'i run_data \<Rightarrow> bool" where
  "run_data_typed g rd \<longleftrightarrow> (\<forall>(nm, runs) \<in> set rd. \<forall>td \<in> set runs. \<forall>d. t_data td = Some d \<longrightarrow>
     map_of d Main \<noteq> None \<and>
     (\<forall>c \<in> set (connectionValues g). n_name (g_from c) = nm \<longrightarrow> map_of d (g_type c) \<noteq> None))"

lemma getIncomingData_ok:
  assumes "\<And>runs td d. map_of rd nm = Some runs \<Longrightarrow> td \<in> set runs \<Longrightarrow> t_data td = Some d \<Longrightarrow> map_of d ty \<noteq> None"
  shows "\<exists>r. getIncomingData rd nm i ty oi = Inr r"
proof (cases "\<exists>runs td d. map_of rd nm = Some runs \<and> js_at runs i = Some td \<and> t_data td = Some d")
  case True
  then obtain runs td d where r: "map_of rd nm = Some runs" "js_at runs i = Some td" "t_data td = Some d" by blast
  from assms [OF r(1) js_at_Some_mem [OF r(2)] r(3)] r show ?thesis by (auto simp: getIncomingData_def)
next
  case False
  then show ?thesis by (auto simp: getIncomingData_def split: option.splits)
qed

lemma anyRunFrom_ok:
  assumes "\<And>i. \<exists>r. getIncomingData rd nm i ty oi = Inr r"
  shows "\<exists>r. anyRunFrom rd nm ty oi is = Inr r"
proof (induction "is")
  case Nil
  then show ?case by simp
next
  case (Cons i "is")
  from assms [of "int i"] obtain d where "getIncomingData rd nm (int i) ty oi = Inr d" by blast
  with Cons show ?case by (auto split: option.splits list.splits)
qed

lemma hasOutputData_ok:
  assumes "run_data_typed g rd" "c \<in> set (connectionValues g)"
  shows "\<exists>b. hasOutputData rd c = Inr b"
proof -
  have "\<exists>r. getIncomingData rd (n_name (g_from c)) i (g_type c) oi = Inr r" for i oi
    by (rule getIncomingData_ok) (use assms in \<open>fastforce simp: run_data_typed_def dest: map_of_SomeD\<close>)
  from anyRunFrom_ok [OF this] obtain r where
    "getIncomingDataFromAnyRun rd (n_name (g_from c)) (g_type c) (g_outputIndex c) = Inr r"
    unfolding getIncomingDataFromAnyRun_def by blast
  then show ?thesis by (simp add: hasOutputData_def)
qed

lemma loopPending_ok:
  assumes "dg_inv g" "run_data_typed g rd" "nodeExists g n"
  shows "\<exists>b. loopPending g rd n = Inr b"
proof -
  from getChildren_ok [OF assms(1,3)] obtain cs where cs: "getChildren g n = Inr cs" by blast
  have "\<exists>r. getIncomingData rd (n_name n) (- 1) Main oi = Inr r" for oi
    by (rule getIncomingData_ok) (use assms(2) in \<open>fastforce simp: run_data_typed_def dest: map_of_SomeD\<close>)
  then obtain r where "getIncomingData rd (n_name n) (- 1) Main (if n \<in> set cs then 0 else 1) = Inr r" by blast
  with cs have "\<exists>b. ebind (isALoop g n) (\<lambda>loop.
      ebind (getIncomingData rd (n_name n) (- 1) Main (if loop then 0 else 1)) (\<lambda>d.
        Inr (case d of None \<Rightarrow> True | Some items \<Rightarrow> items = []))) = Inr b"
    by (simp add: isALoop_def)
  then show ?thesis unfolding loopPending_def by (cases "n_type n = ''n8n-nodes-base.splitInBatches''") auto
qed

text \<open>Where the search stops, and the connections it follows.\<close>

definition stopsAt :: "dgraph \<Rightarrow> inode \<Rightarrow> 'i run_data \<Rightarrow> 'i pin_data \<Rightarrow> inode \<Rightarrow> bool" where
  "stopsAt g dest rd pin n \<longleftrightarrow> isDirty n rd pin \<or> n = dest \<or> loopPending g rd n = Inr True"

definition followedConnection :: "'i run_data \<Rightarrow> 'i pin_data \<Rightarrow> graph_connection \<Rightarrow> bool" where
  "followedConnection rd pin c \<longleftrightarrow> hasOutputData rd c = Inr True \<or> map_of pin (n_name (g_from c)) \<noteq> None"

definition followed :: "dgraph \<Rightarrow> inode \<Rightarrow> 'i run_data \<Rightarrow> 'i pin_data \<Rightarrow> (inode \<times> inode) set" where
  "followed g dest rd pin = {(g_from c, g_to c) | c. c \<in> set (connectionValues g) \<and>
     \<not> stopsAt g dest rd pin (g_from c) \<and> followedConnection rd pin c}"

lemma rtrancl_last_visit:
  assumes "(a, x) \<in> R\<^sup>*" "x \<noteq> a"
  shows "\<exists>b. (a, b) \<in> R \<and> (b, x) \<in> {(p, q) \<in> R. p \<noteq> a}\<^sup>*"
  using assms
proof (induction rule: rtrancl_induct)
  case base
  then show ?case by simp
next
  case (step y z)
  show ?case
  proof (cases "y = a")
    case True
    with step.hyps(2) show ?thesis by blast
  next
    case False
    with step.IH obtain b where "(a, b) \<in> R" "(b, y) \<in> {(p, q) \<in> R. p \<noteq> a}\<^sup>*" by blast
    moreover have "(y, z) \<in> {(p, q) \<in> R. p \<noteq> a}" using False step.hyps(2) by simp
    ultimately show ?thesis by (meson rtrancl.rtrancl_into_rtrancl)
  qed
qed

definition reaches_avoiding :: "('n \<times> 'n) set \<Rightarrow> 'n set \<Rightarrow> 'n \<Rightarrow> 'n set" where
  "reaches_avoiding R seen a = {x. (a, x) \<in> {(p, q) \<in> R. p \<notin> seen}\<^sup>*}"

lemma reaches_avoiding_self [simp]: "a \<in> reaches_avoiding R seen a"
  by (simp add: reaches_avoiding_def)

lemma reaches_avoiding_stuck:
  assumes "\<And>q. (a, q) \<in> R \<Longrightarrow> a \<in> seen"
  shows "reaches_avoiding R seen a = {a}"
proof -
  have "x = a" if "(a, x) \<in> {(p, q) \<in> R. p \<notin> seen}\<^sup>*" for x
    using that assms by (induction rule: rtrancl_induct) auto
  then show ?thesis by (auto simp: reaches_avoiding_def)
qed

lemma reaches_avoiding_step:
  assumes "a \<notin> seen"
  shows "reaches_avoiding R seen a = insert a (\<Union>b \<in> {b. (a, b) \<in> R}. reaches_avoiding R (insert a seen) b)"
proof (intro equalityI subsetI)
  fix x assume x: "x \<in> reaches_avoiding R seen a"
  show "x \<in> insert a (\<Union>b \<in> {b. (a, b) \<in> R}. reaches_avoiding R (insert a seen) b)"
  proof (cases "x = a")
    case False
    with x obtain b where b: "(a, b) \<in> R" "(b, x) \<in> {(p, q) \<in> {(p, q) \<in> R. p \<notin> seen}. p \<noteq> a}\<^sup>*"
      using rtrancl_last_visit [of a x "{(p, q) \<in> R. p \<notin> seen}"] by (auto simp: reaches_avoiding_def)
    have "{(p, q) \<in> {(p, q) \<in> R. p \<notin> seen}. p \<noteq> a} = {(p, q) \<in> R. p \<notin> insert a seen}" by auto
    with b show ?thesis by (auto simp: reaches_avoiding_def)
  qed simp
next
  fix x assume "x \<in> insert a (\<Union>b \<in> {b. (a, b) \<in> R}. reaches_avoiding R (insert a seen) b)"
  then consider "x = a" | b where "(a, b) \<in> R" "(b, x) \<in> {(p, q) \<in> R. p \<notin> insert a seen}\<^sup>*"
    by (auto simp: reaches_avoiding_def)
  then show "x \<in> reaches_avoiding R seen a"
  proof cases
    case 1
    then show ?thesis by simp
  next
    case 2
    have "{(p, q) \<in> R. p \<notin> insert a seen} \<subseteq> {(p, q) \<in> R. p \<notin> seen}" by auto
    with 2(2) have "(b, x) \<in> {(p, q) \<in> R. p \<notin> seen}\<^sup>*" using rtrancl_mono by blast
    with 2(1) assms show ?thesis
      unfolding reaches_avoiding_def by (auto intro: converse_rtrancl_into_rtrancl)
  qed
qed

lemma findStartNodesRecursive_ok:
  assumes g: "dg_inv g" and rd: "run_data_typed g rd"
  shows "nodeExists g cur \<Longrightarrow> card (set (getNodes g) - set seen) < f \<Longrightarrow>
    \<exists>s'. findStartNodesRecursive g dest rd pin f cur s seen = Inr s' \<and>
      set s' = set s \<union> {x \<in> reaches_avoiding (followed g dest rd pin) (set seen) cur. stopsAt g dest rd pin x}"
proof (induction f arbitrary: cur s seen)
  case 0
  then show ?case by simp
next
  case (Suc f)
  let ?R = "followed g dest rd pin" and ?stop = "stopsAt g dest rd pin" and ?N = "set (getNodes g)"
  obtain pending where pending: "loopPending g rd cur = Inr pending"
    using loopPending_ok [OF g rd Suc.prems(1)] by blast
  consider (stop) "?stop cur" | (seen) "\<not> ?stop cur" "cur \<in> set seen" | (go) "\<not> ?stop cur" "cur \<notin> set seen"
    by blast
  then show ?case
  proof cases
    case stop
    have "reaches_avoiding ?R (set seen) cur = {cur}"
      by (rule reaches_avoiding_stuck) (use stop in \<open>auto simp: followed_def\<close>)
    with stop pending show ?thesis by (auto simp: stopsAt_def)
  next
    case seen
    have "reaches_avoiding ?R (set seen) cur = {cur}"
      by (rule reaches_avoiding_stuck) (use seen in auto)
    with seen pending show ?thesis by (auto simp: stopsAt_def)
  next
    case go
    let ?cs = "filter (\<lambda>c. g_from c = cur) (connectionValues g)"
    let ?step = "\<lambda>c s. ebind (hasOutputData rd c) (\<lambda>hasRunData.
        if \<not> hasRunData \<and> map_of pin (n_name (g_from c)) = None then Inr s
        else findStartNodesRecursive g dest rd pin f (g_to c) s (sadd cur seen))"
    let ?found = "\<lambda>ys. {x. ?stop x \<and> (\<exists>c \<in> set ys. followedConnection rd pin c \<and>
        x \<in> reaches_avoiding ?R (insert cur (set seen)) (g_to c))}"
    have "\<exists>u. efold ?step ?cs s = Inr u \<and> set u = set s \<union> ?found ?cs"
    proof (rule efold_total_prefix [where P = "\<lambda>ys u. set u = set s \<union> ?found ys"])
      show "set s = set s \<union> ?found []" by simp
      fix ys c zs u
      assume split: "?cs = ys @ c # zs" and u: "set u = set s \<union> ?found ys"
      have "c \<in> set ?cs" using split by (metis in_set_conv_decomp)
      then have c: "c \<in> set (connectionValues g)" "g_from c = cur" by auto
      obtain b where b: "hasOutputData rd c = Inr b" using hasOutputData_ok [OF rd c(1)] by blast
      show "\<exists>v. ?step c u = Inr v \<and> set v = set s \<union> ?found (ys @ [c])"
      proof (cases "followedConnection rd pin c")
        case False
        with b u show ?thesis by (auto simp: followedConnection_def)
      next
        case True
        have "card (?N - set (sadd cur seen)) < card (?N - set seen)"
          using Suc.prems(1) go(2) by (intro psubset_card_mono) (auto simp: nodeExists_iff [OF g])
        with Suc.prems(2) have "card (?N - set (sadd cur seen)) < f" by simp
        from Suc.IH [OF dg_invD(6) [OF g c(1)] this, of u] obtain v where v:
          "findStartNodesRecursive g dest rd pin f (g_to c) u (sadd cur seen) = Inr v"
          "set v = set u \<union> {x \<in> reaches_avoiding ?R (set (sadd cur seen)) (g_to c). ?stop x}" by blast
        have "?step c u = Inr v" using True b v(1) by (auto simp: followedConnection_def)
        moreover have "set v = set s \<union> ?found (ys @ [c])" using True u v(2) by auto
        ultimately show ?thesis by blast
      qed
    qed
    then obtain u where u: "efold ?step ?cs s = Inr u" "set u = set s \<union> ?found ?cs" by blast
    have np: "\<not> isDirty cur rd pin" "cur \<noteq> dest" "\<not> pending" using go(1) pending by (auto simp: stopsAt_def)
    have "findStartNodesRecursive g dest rd pin (Suc f) cur s seen = Inr u"
      using np go(2) pending u(1) Suc.prems(1) by (simp add: getDirectChildConnections_ok)
    moreover have "{x \<in> reaches_avoiding ?R (set seen) cur. ?stop x} = ?found ?cs"
    proof -
      have "{b. (cur, b) \<in> ?R} = g_to ` {c \<in> set ?cs. followedConnection rd pin c}"
        using go(1) by (auto simp: followed_def)
      then show ?thesis using go(1) unfolding reaches_avoiding_step [OF go(2)] by auto
    qed
    ultimately show ?thesis using u(2) by auto
  qed
qed

lemma findStartNodes_ok:
  assumes "dg_inv g" "run_data_typed g rd" "nodeExists g trigger"
  shows "\<exists>s. findStartNodes g trigger dest rd pin = Inr s \<and>
    set s = {x. (trigger, x) \<in> (followed g dest rd pin)\<^sup>* \<and> stopsAt g dest rd pin x}"
proof -
  have "card (set (getNodes g) - set []) < Suc (Suc (length (d_nodes g)))"
    using length_getNodes [OF assms(1)] by simp
  from findStartNodesRecursive_ok [OF assms this, of dest pin "[]"] obtain s where
    "findStartNodesRecursive g dest rd pin (Suc (Suc (length (d_nodes g)))) trigger [] [] = Inr s"
    "set s = {x \<in> reaches_avoiding (followed g dest rd pin) {} trigger. stopsAt g dest rd pin x}" by auto
  then show ?thesis
    by (simp add: findStartNodes_def reaches_avoiding_def del: findStartNodesRecursive.simps)
qed

text \<open>Every node the search reaches is clean, and the walk to it goes over connections with data.\<close>

lemma followed_edges: "followed g dest rd pin \<subseteq> edges g"
  by (auto simp: followed_def edges_def)

section \<open>What cleaning removes\<close>

lemma map_of_fold_delete:
  "map_of (fold (\<lambda>c rd. if g_type c = Main then rd else AList.delete (n_name (g_from c)) rd) cs rd) nm =
     (if \<exists>c \<in> set cs. g_type c \<noteq> Main \<and> n_name (g_from c) = nm then None else map_of rd nm)"
  by (induction cs arbitrary: rd) auto

definition cleanedBy :: "dgraph \<Rightarrow> inode \<Rightarrow> string \<Rightarrow> bool" where
  "cleanedBy g m nm \<longleftrightarrow> nm = n_name m \<or>
     (\<exists>c \<in> set (connectionValues g). (g_to c, m) \<in> (edges g)\<^sup>* \<and> g_type c \<noteq> Main \<and> n_name (g_from c) = nm)"

lemma cleanNode_ok:
  assumes "dg_inv g" "nodeExists g m"
  shows "\<exists>rd'. cleanNode g m rd = Inr rd' \<and>
    (\<forall>nm. map_of rd' nm = (if cleanedBy g m nm then None else map_of rd nm))"
proof -
  from getParentConnections_ok [OF assms] obtain cs where cs: "getParentConnections g m = Inr cs"
    "set cs = {c \<in> set (connectionValues g). (g_to c, m) \<in> (edges g)\<^sup>*}" by blast
  then show ?thesis by (auto simp: cleanNode_def map_of_fold_delete cleanedBy_def)
qed

lemma cleanChildren_ok:
  assumes "dg_inv g" "\<forall>m \<in> set ms. nodeExists g m"
  shows "\<exists>rd'. efold (cleanNode g) ms rd = Inr rd' \<and>
    (\<forall>nm. map_of rd' nm = (if \<exists>m \<in> set ms. cleanedBy g m nm then None else map_of rd nm))"
  using assms(2)
proof (induction ms arbitrary: rd)
  case Nil
  then show ?case by simp
next
  case (Cons m ms)
  from cleanNode_ok [OF assms(1), of m rd] Cons.prems obtain rd1 where rd1: "cleanNode g m rd = Inr rd1"
    "\<forall>nm. map_of rd1 nm = (if cleanedBy g m nm then None else map_of rd nm)" by auto
  from Cons.IH [of rd1] Cons.prems obtain rd2 where "efold (cleanNode g) ms rd1 = Inr rd2"
    "\<forall>nm. map_of rd2 nm = (if \<exists>m \<in> set ms. cleanedBy g m nm then None else map_of rd1 nm)" by auto
  with rd1 show ?case by (intro exI [of _ rd2]) auto
qed

definition cleaned :: "dgraph \<Rightarrow> inode list \<Rightarrow> string \<Rightarrow> bool" where
  "cleaned g ns nm \<longleftrightarrow> (\<exists>n \<in> set ns. \<exists>m. (n, m) \<in> (edges g)\<^sup>* \<and> cleanedBy g m nm)"

lemma cleanRunData_ok:
  assumes g: "dg_inv g" and ns: "\<forall>n \<in> set ns. nodeExists g n"
  shows "\<exists>rd'. cleanRunData rd g ns = Inr rd' \<and>
    (\<forall>nm. map_of rd' nm = (if hasNode g nm \<and> \<not> cleaned g ns nm then map_of rd nm else None))"
proof -
  let ?step = "\<lambda>n rd. ebind (getChildren g n) (\<lambda>children.
      efold (cleanNode g) (n # children) (AList.delete (n_name n) rd))"
  have "\<exists>rd'. efold ?step ns rd = Inr rd' \<and>
      (\<forall>nm. map_of rd' nm = (if cleaned g ns nm then None else map_of rd nm))"
    using ns
  proof (induction ns arbitrary: rd)
    case Nil
    then show ?case by (simp add: cleaned_def)
  next
    case (Cons n ns)
    from Cons.prems getChildren_ok [OF g, of n] obtain ms where
      ms: "getChildren g n = Inr ms" "set ms = {m. (n, m) \<in> (edges g)\<^sup>+}" by auto
    have "\<forall>m \<in> set (n # ms). nodeExists g m"
      using Cons.prems ms(2) edges_rtrancl_nodes [OF _ g] by (auto dest: trancl_into_rtrancl)
    from cleanChildren_ok [OF g this, of "AList.delete (n_name n) rd"] obtain rd1 where
      rd1: "efold (cleanNode g) (n # ms) (AList.delete (n_name n) rd) = Inr rd1"
      "\<forall>nm. map_of rd1 nm = (if \<exists>m \<in> set (n # ms). cleanedBy g m nm then None
         else map_of (AList.delete (n_name n) rd) nm)" by blast
    have "set (n # ms) = {m. (n, m) \<in> (edges g)\<^sup>*}" using ms(2) by (auto simp: rtrancl_eq_or_trancl)
    then have "(\<exists>m \<in> set (n # ms). cleanedBy g m nm) \<longleftrightarrow> cleaned g [n] nm" for nm
      unfolding cleaned_def by (simp only: set_simps(1) list.set) blast
    moreover have "cleaned g [n] (n_name n)" by (auto simp: cleaned_def cleanedBy_def)
    ultimately have rd1': "map_of rd1 nm = (if cleaned g [n] nm then None else map_of rd nm)" for nm
      using rd1(2) by auto
    from Cons.IH [of rd1] Cons.prems obtain rd2 where "efold ?step ns rd1 = Inr rd2"
      "\<forall>nm. map_of rd2 nm = (if cleaned g ns nm then None else map_of rd1 nm)" by auto
    with ms rd1(1) rd1' show ?case by (intro exI [of _ rd2]) (auto simp: cleaned_def)
  qed
  then obtain rd' where rd': "efold ?step ns rd = Inr rd'"
    "\<forall>nm. map_of rd' nm = (if cleaned g ns nm then None else map_of rd nm)" by blast
  have "map_of (filter (\<lambda>(nm, _). hasNode g nm) rd') nm = (if hasNode g nm then map_of rd' nm else None)" for nm
    by (induction rd') auto
  with rd' show ?thesis by (simp add: cleanRunData_def)
qed

lemma getNextExecutionIndex_fresh:
  assumes "(nm, runs) \<in> set rd" "td \<in> set runs" "t_executionIndex td = Some i"
  shows "i < getNextExecutionIndex rd"
proof -
  let ?is = "List.map_filter t_executionIndex (concat (map snd rd))"
  have i: "i \<in> set ?is" using assms by (force simp: List.map_filter_def)
  then have "i \<le> Max (set ?is)" "?is \<noteq> []" by (auto intro: Max_ge)
  then show ?thesis by (simp add: getNextExecutionIndex_def Let_def)
qed

section \<open>Properties\<close>

text \<open>A finished run of a node that put the items on its first \<open>main\<close> output.\<close>

definition exRun :: "'i list \<Rightarrow> 'i task_data" where
  "exRun items = \<lparr>t_executionIndex = None, t_source = [], t_executionStatus = Some StSuccess,
     t_data = Some [(Main, [Some items])], t_inputOverride = None, t_error = None\<rparr>"

text \<open>
  C7: \<open>findStartNodes\<close> returns, and its result is exactly the set of nodes at which the search
  stops (dirty, the destination, or an unfinished loop node) and that the trigger reaches over
  nodes at which it does not stop and over outputs with run data or pinned data. The search does
  not miss a start node because it cuts off cycles.
\<close>

theorem findStartNodes_exact:
  assumes "dg_inv g" "run_data_typed g rd" "nodeExists g trigger"
  shows "\<exists>s. findStartNodes g trigger dest rd pin = Inr s \<and>
    set s = {x. (trigger, x) \<in> (followed g dest rd pin)\<^sup>* \<and> stopsAt g dest rd pin x}"
  using assms by (rule findStartNodes_ok)

lemma findStartNodes_exact_witness:
  "findStartNodes exGraph nodeA nodeC [(''A'', [exRun [0 :: nat]])] [] = Inr [nodeB] \<and>
   (nodeA, nodeB) \<in> (followed exGraph nodeC [(''A'', [exRun [0 :: nat]])] [])\<^sup>*"
proof -
  have "findStartNodes exGraph nodeA nodeC [(''A'', [exRun [0 :: nat]])] [] = Inr [nodeB]" by code_simp
  moreover have "run_data_typed exGraph [(''A'', [exRun [0 :: nat]])]"
  proof -
    have "connectionValues exGraph = [conn nodeA nodeB, conn nodeB nodeC, conn nodeB nodeA, conn nodeC nodeB]"
      by code_simp
    then show ?thesis by (auto simp: run_data_typed_def exRun_def conn_def)
  qed
  ultimately show ?thesis
    using findStartNodes_exact [of exGraph "[(''A'', [exRun [0 :: nat]])]" nodeA nodeC "[]"] by auto
qed

text \<open>
  \<open>cleanRunData\<close> returns, and what is left is exactly the run data of the nodes of the graph
  that are neither a node to clean, nor reachable from one, nor the source of a connection
  that is not \<open>main\<close> and from whose target such a node can be reached.
\<close>

lemma cleanRunData_exact:
  assumes "dg_inv g" "\<forall>n \<in> set ns. nodeExists g n"
  shows "\<exists>rd'. cleanRunData rd g ns = Inr rd' \<and>
    (\<forall>nm. map_of rd' nm = (if hasNode g nm \<and> \<not> cleaned g ns nm then map_of rd nm else None))"
  using assms by (rule cleanRunData_ok)

text \<open>
  The witness: \<open>C\<close> is a model of the agent \<open>A\<close>, and \<open>B\<close> follows \<open>A\<close>. Cleaning \<open>B\<close> keeps the
  run of \<open>A\<close> but deletes the run of its model, because the parents are followed upstream.
\<close>

definition exAgent :: dgraph where
  "exAgent = fold setConnection [conn nodeA nodeB, (conn nodeC nodeA)\<lparr>g_type := AiLanguageModel\<rparr>]
     (addNodes [nodeA, nodeB, nodeC] newDirectedGraph)"

lemma cleanRunData_exact_witness:
  "cleanRunData [(''A'', [exRun [0 :: nat]]), (''B'', []), (''C'', [])] exAgent [nodeB] =
     Inr [(''A'', [exRun [0]])] \<and> cleaned exAgent [nodeB] ''C''"
proof -
  have "dg_inv exAgent" by (simp add: dg_inv_def nodeExists_def exAgent_def ex_defs)
  moreover have "nodeExists exAgent nodeB" "hasNode exAgent ''C''" by code_simp+
  moreover have "cleanRunData [(''A'', [exRun [0 :: nat]]), (''B'', []), (''C'', [])] exAgent [nodeB] =
     Inr [(''A'', [exRun [0]])]" by code_simp
  ultimately show ?thesis
    using cleanRunData_exact [of exAgent "[nodeB]" "[(''A'', [exRun [0 :: nat]]), (''B'', []), (''C'', [])]"]
    by (auto split: if_splits)
qed

end
