(* ===== verification/Subgraph.thy ===== *)
theory Subgraph
  imports StartNodes
begin

text \<open>
  The graph a partial execution works on: \<open>filter-disabled-nodes.ts\<close>, \<open>find-subgraph.ts\<close>,
  \<open>handle-cycles.ts\<close> and \<open>anyReachableRootHasRunData\<close> of \<open>find-trigger-for-partial-execution.ts\<close>
  (\<open>packages/core/src/execution-engine/partial-execution-utils\<close>). The recursion of \<open>findSubgraph\<close>
  never visits the target of a connection of its branch twice, so its depth is at most the number of
  nodes plus one, the fuel given.
\<close>

section \<open>Operations\<close>

definition removeDisabled :: "inode \<Rightarrow> dgraph \<Rightarrow> dgraph result" where
  "removeDisabled n g =
     (if isDisabled n then
        ebind (removeNodeReconnect (\<lambda>c. g_type c \<noteq> Main) n g) (\<lambda>(g', _). Inr g')
      else Inr g)"

definition filterDisabledNodes :: "dgraph \<Rightarrow> dgraph result" where
  "filterDisabledNodes g =
     ebind (clone g) (\<lambda>filteredGraph. efold removeDisabled (getNodes filteredGraph) filteredGraph)"

text \<open>Keep a branch: both ends of every connection are added, then the connection.\<close>

definition keepConnection :: "graph_connection \<Rightarrow> dgraph \<Rightarrow> dgraph result" where
  "keepConnection c newGraph = addGraphConnection c (addNodes [g_from c, g_to c] newGraph)"

definition keepBranch :: "graph_connection list \<Rightarrow> dgraph \<Rightarrow> dgraph result" where
  "keepBranch = efold keepConnection"

fun findSubgraphRecursive ::
  "dgraph \<Rightarrow> inode \<Rightarrow> inode \<Rightarrow> nat \<Rightarrow> inode \<Rightarrow> graph_connection list \<Rightarrow> dgraph \<Rightarrow> dgraph result" where
  "findSubgraphRecursive g destinationNode trigger 0 current branch newGraph = Inl OutOfFuel"
| "findSubgraphRecursive g destinationNode trigger (Suc f) current branch newGraph =
     (if current = trigger then keepBranch branch (addNode trigger newGraph)
      else ebind (getDirectParentConnections g current) (\<lambda>parents.
        if parents = [] then Inr newGraph
        else if current = destinationNode \<and> list_ex (\<lambda>c. g_to c = destinationNode) branch then Inr newGraph
        else if list_ex (\<lambda>c. g_to c = current) branch then keepBranch branch newGraph
        else efold (\<lambda>p newGraph.
               if g_type p \<noteq> Main then Inr newGraph
               else findSubgraphRecursive g destinationNode trigger f (g_from p) (branch @ [p]) newGraph)
             parents newGraph))"

text \<open>The loop that adds the connections of the utility nodes back.\<close>

definition addUtilityConnections :: "dgraph \<Rightarrow> inode \<Rightarrow> dgraph \<Rightarrow> dgraph result" where
  "addUtilityConnections g node subgraph =
     ebind (getParentConnections g node) (\<lambda>cs.
       efold (\<lambda>c s. if g_type c = Main then Inr s else keepConnection c s) cs subgraph)"

definition findSubgraph :: "dgraph \<Rightarrow> inode \<Rightarrow> inode \<Rightarrow> dgraph result" where
  "findSubgraph g destination trigger =
     ebind (findSubgraphRecursive g destination trigger (Suc (Suc (length (d_nodes g)))) destination []
              newDirectedGraph) (\<lambda>subgraph.
       efold (addUtilityConnections g) (getNodes subgraph) subgraph)"

text \<open>One pass of the loops of \<open>handleCycles\<close>: a start node and a cycle.\<close>

definition replaceStart :: "dgraph \<Rightarrow> inode \<Rightarrow> inode \<Rightarrow> inode list \<Rightarrow> inode list \<Rightarrow> inode list result" where
  "replaceStart g trigger startNode cycle newStartNodes =
     (if startNode \<in> set cycle then
        ebind (depthFirstSearch g trigger (\<lambda>n. n \<in> set cycle)) (\<lambda>firstNode.
          case firstNode of None \<Rightarrow> Inl AssertionError
          | Some first \<Rightarrow> Inr (sadd first (sdel startNode newStartNodes)))
      else Inr newStartNodes)"

definition handleCycles :: "dgraph \<Rightarrow> inode list \<Rightarrow> inode \<Rightarrow> inode list result" where
  "handleCycles g startNodes trigger =
     ebind (getStronglyConnectedComponents g) (\<lambda>components.
       let cycles = filter (\<lambda>cycle. length cycle \<ge> 1) components
       in if cycles = [] then Inr startNodes
          else efold (\<lambda>startNode. efold (replaceStart g trigger startNode) cycles) startNodes startNodes)"

text \<open>\<open>anyReachableRootHasRunData\<close> of \<open>find-trigger-for-partial-execution.ts\<close>.\<close>

definition anyReachableRootHasRunData :: "dgraph \<Rightarrow> string \<Rightarrow> 'i run_data \<Rightarrow> bool result" where
  "anyReachableRootHasRunData g destinationNodeName rd =
     (case map_of (d_nodes g) destinationNodeName of
        None \<Rightarrow> Inr False
      | Some destinationNode \<Rightarrow>
          ebind (getParentConnections g destinationNode) (\<lambda>cs.
          ebind (efold (\<lambda>n roots.
              ebind (getDirectParentConnections g n) (\<lambda>ps.
                Inr (if list_ex (\<lambda>c. g_type c = Main) ps then roots else sadd n roots)))
              (saddAll (map g_from cs) []) []) (\<lambda>rootNodes.
            Inr (list_ex (\<lambda>n. map_of rd (n_name n) \<noteq> None) rootNodes))))"

section \<open>Cloning\<close>

lemma fold_setConnection_rebuild:
  "distinct (map fst (d_connections g @ al)) \<Longrightarrow> \<forall>(k, c) \<in> set al. k = makeKey c \<Longrightarrow>
     fold setConnection (map snd al) g = g\<lparr>d_connections := d_connections g @ al\<rparr>"
proof (induction al arbitrary: g)
  case Nil
  then show ?case by simp
next
  case (Cons p al)
  obtain k c where p: "p = (k, c)" by (cases p)
  with Cons.prems have "makeKey c = k" "k \<notin> fst ` set (d_connections g)" by auto
  then have "setConnection c g = g\<lparr>d_connections := d_connections g @ [(k, c)]\<rparr>"
    by (simp add: setConnection_def AList_update_new)
  with Cons.IH [of "setConnection c g"] Cons.prems p show ?case by simp
qed

lemma addConnections_ok:
  "\<forall>c \<in> set cs. nodeExists g (g_from c) \<and> nodeExists g (g_to c) \<Longrightarrow>
     addConnections cs g = Inr (fold setConnection cs g)"
  unfolding addConnections_def
  by (induction cs arbitrary: g) (simp_all add: addGraphConnection_simp)

text \<open>A clone is equal to the graph it was made from.\<close>

lemma clone_id:
  assumes "dg_inv g"
  shows "clone g = Inr g"
proof -
  let ?g0 = "\<lparr>d_nodes = d_nodes g, d_connections = []\<rparr>"
  have "\<forall>c \<in> set (connectionValues g). nodeExists ?g0 (g_from c) \<and> nodeExists ?g0 (g_to c)"
    using dg_invD(5,6) [OF assms] by (simp add: nodeExists_def)
  moreover have "getConnections g None = connectionValues g" by (simp add: getConnections_def)
  moreover have "fold setConnection (connectionValues g) ?g0 = g"
  proof -
    have "\<forall>(k, c) \<in> set (d_connections g). k = makeKey c" using dg_invD(4) [OF assms] by auto
    then show ?thesis
      using fold_setConnection_rebuild [of ?g0 "d_connections g"] dg_invD(2) [OF assms]
      by (simp add: connectionValues_def)
  qed
  ultimately show ?thesis
    by (simp add: clone_def rebuild_nodes [OF assms] addConnections_ok)
qed

lemma distinct_getNodes:
  assumes "dg_inv g"
  shows "distinct (getNodes g)"
proof -
  have "map fst (d_nodes g) = map n_name (getNodes g)"
    using assms by (auto simp: dg_inv_def getNodes_def)
  with dg_invD(1) [OF assms] have "distinct (map n_name (getNodes g))" by simp
  then show ?thesis by (simp add: distinct_map)
qed

section \<open>Filtering disabled nodes\<close>

text \<open>\<open>via E D\<close>: one step of \<open>E\<close>, then any number of steps that leave nodes of \<open>D\<close>.\<close>

definition via :: "('n \<times> 'n) set \<Rightarrow> 'n set \<Rightarrow> ('n \<times> 'n) set" where
  "via E D = E O {(x, y) \<in> E. x \<in> D}\<^sup>*"

lemma via_empty [simp]: "via E {} = E"
  by (auto simp: via_def)

lemma via_base: "(a, b) \<in> E \<Longrightarrow> (a, b) \<in> via E D"
  by (auto simp: via_def)

lemma via_step: "(a, x) \<in> via E D \<Longrightarrow> x \<in> D \<Longrightarrow> (x, b) \<in> E \<Longrightarrow> (a, b) \<in> via E D"
  unfolding via_def by (auto intro: rtrancl_into_rtrancl)

lemma via_mono: "D \<subseteq> D' \<Longrightarrow> via E D \<subseteq> via E D'"
  unfolding via_def by (intro relcomp_mono rtrancl_mono subset_refl) auto

lemma via_induct [consumes 1, case_names base step]:
  assumes "(a, b) \<in> via E D" and "\<And>b. (a, b) \<in> E \<Longrightarrow> P b"
    and "\<And>x b. (a, x) \<in> via E D \<Longrightarrow> x \<in> D \<Longrightarrow> (x, b) \<in> E \<Longrightarrow> P x \<Longrightarrow> P b"
  shows "P b"
proof -
  from assms(1) obtain c where c: "(a, c) \<in> E" "(c, b) \<in> {(x, y) \<in> E. x \<in> D}\<^sup>*"
    by (auto simp: via_def)
  from c(2) have "(a, b) \<in> via E D \<and> P b"
  proof (induction rule: rtrancl_induct)
    case base
    with c(1) assms(2) show ?case by (auto intro: via_base)
  next
    case (step y z)
    with assms(3) show ?case by (auto intro: via_step)
  qed
  then show ?thesis ..
qed

lemma via_comp: "(a, x) \<in> via E D \<Longrightarrow> x \<in> D \<Longrightarrow> (x, b) \<in> via E D \<Longrightarrow> (a, b) \<in> via E D"
  by (rotate_tac 2, induction rule: via_induct) (auto intro: via_step)

lemma via_insert:
  "via E (insert n D) = via E D \<union> {(a, b). (a, n) \<in> via E D \<and> (n, b) \<in> via E D}"
proof (intro equalityI subsetI)
  fix p assume "p \<in> via E (insert n D)"
  then obtain a b where p: "p = (a, b)" "(a, b) \<in> via E (insert n D)" by (cases p) auto
  from p(2) have "(a, b) \<in> via E D \<or> (a, n) \<in> via E D \<and> (n, b) \<in> via E D"
    by (induction rule: via_induct) (auto intro: via_base via_step)
  with p(1) show "p \<in> via E D \<union> {(a, b). (a, n) \<in> via E D \<and> (n, b) \<in> via E D}" by auto
next
  fix p assume "p \<in> via E D \<union> {(a, b). (a, n) \<in> via E D \<and> (n, b) \<in> via E D}"
  then show "p \<in> via E (insert n D)"
    using via_mono [of D "insert n D" E] by (auto intro: via_comp)
qed

lemma via_trancl: "via E D \<subseteq> E\<^sup>+"
proof (intro subrelI)
  fix a b assume "(a, b) \<in> via E D"
  then show "(a, b) \<in> E\<^sup>+" by (induction rule: via_induct) (auto intro: trancl_into_trancl)
qed

lemma via_reachability:
  assumes "a \<notin> D" "b \<notin> D"
  shows "(a, b) \<in> {(x, y) \<in> via E D. x \<notin> D \<and> y \<notin> D}\<^sup>+ \<longleftrightarrow> (a, b) \<in> E\<^sup>+"
proof
  let ?F = "{(x, y) \<in> via E D. x \<notin> D \<and> y \<notin> D}"
  have "?F \<subseteq> via E D" by blast
  then have "?F \<subseteq> E\<^sup>+" using via_trancl by (rule subset_trans)
  from trancl_mono_subset [OF this] have "?F\<^sup>+ \<subseteq> E\<^sup>+" by simp
  then show "(a, b) \<in> ?F\<^sup>+ \<Longrightarrow> (a, b) \<in> E\<^sup>+" by blast
  assume "(a, b) \<in> E\<^sup>+"
  then have "(b \<notin> D \<longrightarrow> (a, b) \<in> ?F\<^sup>+) \<and> (b \<in> D \<longrightarrow> (\<exists>p. p \<notin> D \<and> (a, p) \<in> ?F\<^sup>* \<and> (p, b) \<in> via E D))"
  proof (induction rule: trancl_induct)
    case (base b)
    then show ?case using assms(1) by (auto intro: via_base)
  next
    case (step b c)
    show ?case
    proof (cases "b \<in> D")
      case True
      with step.IH obtain p where p: "p \<notin> D" "(a, p) \<in> ?F\<^sup>*" "(p, b) \<in> via E D" by blast
      with True step.hyps(2) have "(p, c) \<in> via E D" by (auto intro: via_step)
      with p(1) have "c \<notin> D \<Longrightarrow> (p, c) \<in> ?F" by simp
      with p \<open>(p, c) \<in> via E D\<close> show ?thesis by (meson rtrancl_into_trancl1)
    next
      case False
      with step.IH have ab: "(a, b) \<in> ?F\<^sup>+" by blast
      have bc: "(b, c) \<in> via E D" using step.hyps(2) by (rule via_base)
      with False have "c \<notin> D \<Longrightarrow> (b, c) \<in> ?F" by simp
      with ab bc False show ?thesis by (meson trancl_into_trancl trancl_into_rtrancl)
    qed
  qed
  with assms(2) show "(a, b) \<in> ?F\<^sup>+" by blast
qed

text \<open>No \<open>main\<close> path from a disabled node over disabled nodes back to itself.\<close>

definition no_disabled_cycle :: "dgraph \<Rightarrow> bool" where
  "no_disabled_cycle g \<longleftrightarrow> (\<forall>n. isDisabled n \<longrightarrow> (n, n) \<notin> via (main_edges g) (Collect isDisabled))"

lemma not_main_eq: "(\<lambda>c. g_type c \<noteq> Main) = not_main"
  by (simp add: not_main_def fun_eq_iff)

lemma removeDisabled_step:
  assumes g: "dg_inv g" "dash_free g" "nodeExists g n" "isDisabled n" "(n, n) \<notin> main_edges g"
  shows "\<exists>g'. removeDisabled n g = Inr g' \<and> dg_inv g' \<and> dash_free g' \<and>
    (\<forall>m. nodeExists g' m \<longleftrightarrow> nodeExists g m \<and> m \<noteq> n) \<and>
    main_edges g' = {(a, b) \<in> main_edges g. a \<noteq> n \<and> b \<noteq> n} \<union>
      {(a, b). (a, n) \<in> main_edges g \<and> (n, b) \<in> main_edges g}"
proof -
  obtain g' new where r: "removeNodeReconnect not_main n g = Inr (g', new)"
    using removeNodeReconnect_ok [OF g(3)] by blast
  have "no_self_loop not_main n g"
    using g(5) by (auto simp: no_self_loop_def not_main_def main_edges_def)
  with g(1,3) r have inv: "dg_inv g'" by (blast intro: dg_inv_removeNodeReconnect)
  have ex: "\<forall>m. nodeExists g' m \<longleftrightarrow> nodeExists g m \<and> m \<noteq> n"
    using r g(3) by (auto simp: removeNodeReconnect_ok) (auto simp: nodeExists_def)
  then have "dash_free g'"
    using g(1,2) inv by (auto simp: dash_free_def nodeExists_iff [symmetric])
  with inv ex r g(4) removeNodeReconnect_main_edges [OF g(1-3) r] show ?thesis
    by (simp add: removeDisabled_def not_main_eq)
qed

lemma filterDisabledNodes_ok:
  assumes g: "dg_inv g" "dash_free g" "no_disabled_cycle g"
  shows "\<exists>g'. filterDisabledNodes g = Inr g' \<and> dg_inv g' \<and>
    (\<forall>m. nodeExists g' m \<longleftrightarrow> nodeExists g m \<and> \<not> isDisabled m) \<and>
    (\<forall>a b. \<not> isDisabled a \<and> \<not> isDisabled b \<longrightarrow>
       ((a, b) \<in> (main_edges g')\<^sup>+ \<longleftrightarrow> (a, b) \<in> (main_edges g)\<^sup>+))"
proof -
  let ?E = "main_edges g"
  let ?D = "\<lambda>ys. {n \<in> set ys. isDisabled n}"
  let ?P = "\<lambda>ys h. dg_inv h \<and> dash_free h \<and> (\<forall>m. nodeExists h m \<longleftrightarrow> nodeExists g m \<and> m \<notin> ?D ys) \<and>
    main_edges h = {(a, b) \<in> via ?E (?D ys). a \<notin> ?D ys \<and> b \<notin> ?D ys}"
  have "\<exists>h. efold removeDisabled (getNodes g) g = Inr h \<and> ?P (getNodes g) h"
  proof (rule efold_total_prefix)
    show "?P [] g" using g(1,2) by simp
    fix ys n zs h
    assume split: "getNodes g = ys @ n # zs" and P: "?P ys h"
    show "\<exists>h'. removeDisabled n h = Inr h' \<and> ?P (ys @ [n]) h'"
    proof (cases "isDisabled n")
      case False
      then have "?D (ys @ [n]) = ?D ys" by auto
      with False P show ?thesis by (simp add: removeDisabled_def)
    next
      case True
      have "distinct (getNodes g)" by (rule distinct_getNodes [OF g(1)])
      with split have new: "n \<notin> ?D ys" "n \<in> set (getNodes g)" by auto
      have D: "?D (ys @ [n]) = insert n (?D ys)" using True by auto
      have "via ?E (?D ys) \<subseteq> via ?E (Collect isDisabled)" by (rule via_mono) auto
      with True g(3) have loop: "(n, n) \<notin> main_edges h"
        using P by (auto simp: no_disabled_cycle_def)
      have "nodeExists h n" using P new g(1) by (simp add: nodeExists_iff)
      from removeDisabled_step [OF _ _ this True loop] P obtain h' where h': "removeDisabled n h = Inr h'"
        "dg_inv h'" "dash_free h'" "\<forall>m. nodeExists h' m \<longleftrightarrow> nodeExists h m \<and> m \<noteq> n"
        "main_edges h' = {(a, b) \<in> main_edges h. a \<noteq> n \<and> b \<noteq> n} \<union>
          {(a, b). (a, n) \<in> main_edges h \<and> (n, b) \<in> main_edges h}" by blast
      have "main_edges h' = {(a, b) \<in> via ?E (?D (ys @ [n])). a \<notin> ?D (ys @ [n]) \<and> b \<notin> ?D (ys @ [n])}"
        unfolding h'(5) D via_insert using P loop new(1) by auto
      with h'(1-4) P D show ?thesis by auto
    qed
  qed
  then obtain h where h: "efold removeDisabled (getNodes g) g = Inr h" "?P (getNodes g) h" by blast
  have "nodeExists h m \<longleftrightarrow> nodeExists g m \<and> \<not> isDisabled m" for m
    using h(2) g(1) by (auto simp: nodeExists_iff)
  moreover have "(a, b) \<in> (main_edges h)\<^sup>+ \<longleftrightarrow> (a, b) \<in> ?E\<^sup>+" if "\<not> isDisabled a" "\<not> isDisabled b" for a b
    using via_reachability [of a "?D (getNodes g)" b ?E] h(2) that by auto
  ultimately show ?thesis
    using h by (auto simp: filterDisabledNodes_def clone_id [OF g(1)])
qed

section \<open>The subgraph between trigger and destination\<close>

definition subgraph_of :: "dgraph \<Rightarrow> dgraph \<Rightarrow> bool" where
  "subgraph_of g h \<longleftrightarrow> dg_inv h \<and> set (getNodes h) \<subseteq> set (getNodes g) \<and>
     set (connectionValues h) \<subseteq> set (connectionValues g)"

lemma subgraph_new: "subgraph_of g newDirectedGraph"
  by (simp add: subgraph_of_def getNodes_def connectionValues_def) (simp add: newDirectedGraph_def)

lemma set_getNodes_addNode:
  assumes "dg_inv h" "hasNode h (n_name n) \<Longrightarrow> nodeExists h n"
  shows "set (getNodes (addNode n h)) = insert n (set (getNodes h))"
proof -
  have inv: "dg_inv (addNode n h)" using assms by (rule dg_inv_addNode)
  have "m \<in> set (getNodes (addNode n h)) \<longleftrightarrow> m = n \<or> m \<in> set (getNodes h)" for m
    unfolding nodeExists_iff [OF inv, symmetric] nodeExists_iff [OF assms(1), symmetric]
    using assms(2) unfolding nodeExists_addNode by (auto simp: hasNode_def nodeExists_def)
  then show ?thesis by auto
qed

lemma subgraph_addNode:
  assumes "dg_inv g" "subgraph_of g h" "nodeExists g n"
  shows "subgraph_of g (addNode n h) \<and> set (getNodes (addNode n h)) = insert n (set (getNodes h)) \<and>
    connectionValues (addNode n h) = connectionValues h"
proof -
  have h: "dg_inv h" "set (getNodes h) \<subseteq> set (getNodes g)" using assms(2) by (simp_all add: subgraph_of_def)
  have same: "nodeExists h n" if has: "hasNode h (n_name n)"
  proof -
    from has obtain m where m: "map_of (d_nodes h) (n_name n) = Some m" by (auto simp: hasNode_def)
    then have "n_name m = n_name n" using dg_invD(3) [OF h(1), of "n_name n" m] by (auto dest: map_of_SomeD)
    moreover from m have "m \<in> set (getNodes h)" by (force simp: getNodes_def dest: map_of_SomeD)
    with h(2) have "nodeExists g m" using assms(1) by (auto simp: nodeExists_iff)
    ultimately have "m = n" using assms(3) by (simp add: nodeExists_def)
    with m show ?thesis by (simp add: nodeExists_def)
  qed
  have "set (getNodes (addNode n h)) = insert n (set (getNodes h))"
    using h(1) same by (rule set_getNodes_addNode)
  moreover have "dg_inv (addNode n h)" using h(1) same by (rule dg_inv_addNode)
  moreover note assms
  ultimately show ?thesis by (auto simp: subgraph_of_def nodeExists_iff)
qed

lemma set_connectionValues_setConnection:
  assumes g: "dg_inv g" and h: "subgraph_of g h" and c: "c \<in> set (connectionValues g)"
  shows "set (connectionValues (setConnection c h)) = insert c (set (connectionValues h))"
proof (intro equalityI subsetI)
  fix d assume "d \<in> set (connectionValues (setConnection c h))"
  then show "d \<in> insert c (set (connectionValues h))"
    using connectionValues_setConnection_subset [of c h] by auto
next
  fix d assume d: "d \<in> insert c (set (connectionValues h))"
  show "d \<in> set (connectionValues (setConnection c h))"
  proof (cases "d = c")
    case True
    then show ?thesis by (force simp: setConnection_def connectionValues_def intro: map_of_Some_in_values)
  next
    case False
    with d have dh: "d \<in> set (connectionValues h)" by simp
    with h have "d \<in> set (connectionValues g)" by (auto simp: subgraph_of_def)
    with c False makeKey_inj_on [OF g] have "makeKey d \<noteq> makeKey c" by (auto simp: inj_on_def)
    with connectionValues_setConnection_other [of h d c] dh h show ?thesis by (simp add: subgraph_of_def)
  qed
qed

lemma keepConnection_ok:
  assumes g: "dg_inv g" and h: "subgraph_of g h" and c: "c \<in> set (connectionValues g)"
  shows "\<exists>h'. keepConnection c h = Inr h' \<and> subgraph_of g h' \<and>
    set (getNodes h') = {g_from c, g_to c} \<union> set (getNodes h) \<and>
    set (connectionValues h') = insert c (set (connectionValues h))"
proof -
  note ex = dg_invD(5,6) [OF g c]
  let ?h1 = "addNode (g_from c) h" and ?h2 = "addNode (g_to c) (addNode (g_from c) h)"
  note s1 = subgraph_addNode [OF g h ex(1)]
  note s2 = subgraph_addNode [OF g conjunct1 [OF s1] ex(2)]
  have inv2: "dg_inv ?h2" using s2 by (simp add: subgraph_of_def)
  have nodes: "set (getNodes ?h2) = {g_from c, g_to c} \<union> set (getNodes h)" using s1 s2 by auto
  then have ends: "nodeExists ?h2 (g_from c)" "nodeExists ?h2 (g_to c)"
    by (simp_all add: nodeExists_iff [OF inv2])
  have vals: "set (connectionValues (setConnection c ?h2)) = insert c (set (connectionValues h))"
    using set_connectionValues_setConnection [OF g conjunct1 [OF s2] c] by simp
  have "subgraph_of g (setConnection c ?h2)"
    using dg_inv_setConnection [OF inv2 ends] vals nodes c s2 h by (auto simp: subgraph_of_def)
  then show ?thesis
    using ends nodes vals by (simp add: keepConnection_def addGraphConnection_simp addNodes_def)
qed

lemma keepBranch_ok:
  assumes g: "dg_inv g"
  shows "subgraph_of g h \<Longrightarrow> set cs \<subseteq> set (connectionValues g) \<Longrightarrow>
    \<exists>h'. keepBranch cs h = Inr h' \<and> subgraph_of g h' \<and>
      set (getNodes h) \<subseteq> set (getNodes h') \<and> set (connectionValues h') = set cs \<union> set (connectionValues h)"
proof (induction cs arbitrary: h)
  case Nil
  then show ?case by (simp add: keepBranch_def)
next
  case (Cons c cs)
  from keepConnection_ok [OF g Cons.prems(1), of c] Cons.prems(2) obtain h1 where
    h1: "keepConnection c h = Inr h1" "subgraph_of g h1" "set (getNodes h1) = {g_from c, g_to c} \<union> set (getNodes h)"
      "set (connectionValues h1) = insert c (set (connectionValues h))" by auto
  from Cons.IH [OF h1(2)] Cons.prems(2) obtain h2 where "keepBranch cs h1 = Inr h2" "subgraph_of g h2"
    "set (getNodes h1) \<subseteq> set (getNodes h2)"
    "set (connectionValues h2) = set cs \<union> set (connectionValues h1)" by auto
  with h1 show ?case by (auto simp: keepBranch_def)
qed

text \<open>A path of \<open>main\<close> connections read backwards, from a node to the trigger.\<close>

fun backPath :: "dgraph \<Rightarrow> inode \<Rightarrow> inode \<Rightarrow> graph_connection list \<Rightarrow> bool" where
  "backPath g trigger n [] \<longleftrightarrow> n = trigger"
| "backPath g trigger n (c # cs) \<longleftrightarrow> n \<noteq> trigger \<and> c \<in> set (connectionValues g) \<and> g_type c = Main \<and>
     g_to c = n \<and> backPath g trigger (g_from c) cs"

text \<open>What a call of the recursion adds to the new graph.\<close>

definition branch_ok :: "dgraph \<Rightarrow> inode \<Rightarrow> graph_connection list \<Rightarrow> bool" where
  "branch_ok g dest branch \<longleftrightarrow> (\<forall>c \<in> set branch. c \<in> set (connectionValues g) \<and> g_type c = Main \<and>
     (g_to c, dest) \<in> (main_edges g)\<^sup>*)"

definition extends :: "dgraph \<Rightarrow> inode \<Rightarrow> dgraph \<Rightarrow> dgraph \<Rightarrow> bool" where
  "extends g dest h h' \<longleftrightarrow> subgraph_of g h' \<and> set (getNodes h) \<subseteq> set (getNodes h') \<and>
     set (connectionValues h) \<subseteq> set (connectionValues h') \<and>
     branch_ok g dest (filter (\<lambda>c. c \<notin> set (connectionValues h)) (connectionValues h'))"

lemma extends_refl: "subgraph_of g h \<Longrightarrow> extends g dest h h"
  by (simp add: extends_def branch_ok_def)

lemma extends_trans: "extends g dest h h1 \<Longrightarrow> extends g dest h1 h2 \<Longrightarrow> extends g dest h h2"
  unfolding extends_def branch_ok_def by auto

lemma keepBranch_extends:
  assumes "dg_inv g" "subgraph_of g h" "branch_ok g dest cs"
  shows "\<exists>h'. keepBranch cs h = Inr h' \<and> extends g dest h h' \<and> set cs \<subseteq> set (connectionValues h')"
proof -
  have "set cs \<subseteq> set (connectionValues g)" using assms(3) by (auto simp: branch_ok_def)
  from keepBranch_ok [OF assms(1,2) this] obtain h' where "keepBranch cs h = Inr h'" "subgraph_of g h'"
      "set (getNodes h) \<subseteq> set (getNodes h')" "set (connectionValues h') = set cs \<union> set (connectionValues h)" by blast
  with assms(3) show ?thesis by (auto simp: extends_def branch_ok_def)
qed

definition keeps_paths :: "dgraph \<Rightarrow> inode \<Rightarrow> inode \<Rightarrow> graph_connection list \<Rightarrow> dgraph \<Rightarrow> bool" where
  "keeps_paths g trigger n branch h \<longleftrightarrow> (\<forall>p. backPath g trigger n p \<and> distinct (map g_to p) \<and>
     set (map g_to p) \<inter> g_to ` set branch = {} \<longrightarrow>
     trigger \<in> set (getNodes h) \<and> set (branch @ p) \<subseteq> set (connectionValues h))"

lemma keeps_paths_mono: "keeps_paths g trigger n branch h \<Longrightarrow> extends g dest h h' \<Longrightarrow> keeps_paths g trigger n branch h'"
  unfolding keeps_paths_def extends_def by blast

lemma findSubgraphRecursive_ok:
  assumes g: "dg_inv g" and trigger: "nodeExists g trigger"
  shows "nodeExists g cur \<Longrightarrow> subgraph_of g h \<Longrightarrow> branch_ok g dest branch \<Longrightarrow>
    (cur, dest) \<in> (main_edges g)\<^sup>* \<Longrightarrow> card (set (getNodes g) - g_to ` set branch) < f \<Longrightarrow>
    \<exists>h'. findSubgraphRecursive g dest trigger f cur branch h = Inr h' \<and> extends g dest h h' \<and>
      keeps_paths g trigger cur branch h'"
proof (induction f arbitrary: cur branch h)
  case 0
  then show ?case by simp
next
  case (Suc f)
  let ?ps = "filter (\<lambda>c. g_to c = cur) (connectionValues g)"
  have skip: "keeps_paths g trigger cur branch h'" if "cur \<noteq> trigger" "cur \<in> g_to ` set branch" for h'
    unfolding keeps_paths_def
  proof (intro allI impI)
    fix p assume p: "backPath g trigger cur p \<and> distinct (map g_to p) \<and> set (map g_to p) \<inter> g_to ` set branch = {}"
    with that show "trigger \<in> set (getNodes h') \<and> set (branch @ p) \<subseteq> set (connectionValues h')"
      by (cases p) auto
  qed
  consider (trigger) "cur = trigger" | (none) "cur \<noteq> trigger" "?ps = []"
    | (cycle) "cur \<noteq> trigger" "?ps \<noteq> []" "cur \<in> g_to ` set branch"
    | (go) "cur \<noteq> trigger" "?ps \<noteq> []" "cur \<notin> g_to ` set branch" by blast
  then show ?case
  proof cases
    case trigger
    note s = subgraph_addNode [OF g Suc.prems(2) assms(2)]
    from keepBranch_extends [OF g conjunct1 [OF s] Suc.prems(3)] obtain h' where
      h': "keepBranch branch (addNode trigger h) = Inr h'" "extends g dest (addNode trigger h) h'"
        "set branch \<subseteq> set (connectionValues h')" by blast
    have "extends g dest h (addNode trigger h)" using s by (auto simp: extends_def branch_ok_def)
    then have "extends g dest h h'" using h'(2) by (rule extends_trans)
    moreover have "trigger \<in> set (getNodes h')" using h'(2) s by (auto simp: extends_def)
    then have "keeps_paths g trigger cur branch h'"
      unfolding keeps_paths_def using trigger h'(3) by (auto elim: backPath.elims)
    ultimately show ?thesis using trigger h'(1) by simp
  next
    case none
    have "keeps_paths g trigger cur branch h"
      unfolding keeps_paths_def
    proof (intro allI impI)
      fix p assume "backPath g trigger cur p \<and> distinct (map g_to p) \<and> set (map g_to p) \<inter> g_to ` set branch = {}"
      with none show "trigger \<in> set (getNodes h) \<and> set (branch @ p) \<subseteq> set (connectionValues h)"
        by (cases p) (auto simp: filter_empty_conv)
    qed
    moreover have "findSubgraphRecursive g dest trigger (Suc f) cur branch h = Inr h"
      using none Suc.prems(1) by (simp add: getDirectParentConnections_def)
    ultimately show ?thesis using extends_refl [OF Suc.prems(2)] by blast
  next
    case cycle
    from keepBranch_extends [OF g Suc.prems(2,3)] obtain h' where
      h': "keepBranch branch h = Inr h'" "extends g dest h h'" by blast
    have run: "findSubgraphRecursive g dest trigger (Suc f) cur branch h = (if cur = dest then Inr h else Inr h')"
      using cycle Suc.prems(1) h'(1)
      by (auto simp: getDirectParentConnections_def list_ex_iff)
    have "extends g dest h (if cur = dest then h else h')"
      using h'(2) extends_refl [OF Suc.prems(2)] by simp
    moreover note skip [OF cycle(1,3)]
    moreover have "findSubgraphRecursive g dest trigger (Suc f) cur branch h = Inr (if cur = dest then h else h')"
      unfolding run by simp
    ultimately show ?thesis by blast
  next
    case go
    let ?step = "\<lambda>p h. if g_type p \<noteq> Main then Inr h
        else findSubgraphRecursive g dest trigger f (g_from p) (branch @ [p]) h"
    let ?P = "\<lambda>ys u. extends g dest h u \<and>
      (\<forall>p \<in> set ys. g_type p = Main \<longrightarrow> keeps_paths g trigger (g_from p) (branch @ [p]) u)"
    have "\<exists>u. efold ?step ?ps h = Inr u \<and> ?P ?ps u"
    proof (rule efold_total_prefix)
      show "?P [] h" using extends_refl [OF Suc.prems(2)] by simp
      fix ys p zs u
      assume split: "?ps = ys @ p # zs" and P: "?P ys u"
      have "p \<in> set ?ps" using split by (metis in_set_conv_decomp)
      then have p: "p \<in> set (connectionValues g)" "g_to p = cur" by auto
      show "\<exists>v. ?step p u = Inr v \<and> ?P (ys @ [p]) v"
      proof (cases "g_type p = Main")
        case False
        with P show ?thesis by auto
      next
        case True
        with p have e: "(g_from p, cur) \<in> main_edges g" by (auto simp: main_edges_def)
        have 1: "branch_ok g dest (branch @ [p])"
          using Suc.prems(3,4) p True by (auto simp: branch_ok_def)
        have 2: "(g_from p, dest) \<in> (main_edges g)\<^sup>*"
          using e Suc.prems(4) by (rule converse_rtrancl_into_rtrancl)
        have "card (set (getNodes g) - g_to ` set (branch @ [p])) < card (set (getNodes g) - g_to ` set branch)"
          using Suc.prems(1) go(3) p(2) by (intro psubset_card_mono) (auto simp: nodeExists_iff [OF g])
        with Suc.prems(5) have 3: "card (set (getNodes g) - g_to ` set (branch @ [p])) < f" by simp
        have "subgraph_of g u" using P by (simp add: extends_def)
        from Suc.IH [OF dg_invD(5) [OF g p(1)] this 1 2 3] obtain v where
          v: "findSubgraphRecursive g dest trigger f (g_from p) (branch @ [p]) u = Inr v"
            "extends g dest u v" "keeps_paths g trigger (g_from p) (branch @ [p]) v" by blast
        have "\<forall>q \<in> set ys. g_type q = Main \<longrightarrow> keeps_paths g trigger (g_from q) (branch @ [q]) v"
          using P keeps_paths_mono [OF _ v(2)] by blast
        moreover have "extends g dest h v" using P v(2) by (blast intro: extends_trans)
        ultimately show ?thesis using v(1,3) True by auto
      qed
    qed
    then obtain u where u: "efold ?step ?ps h = Inr u" "?P ?ps u" by blast
    have "keeps_paths g trigger cur branch u"
      unfolding keeps_paths_def
    proof (intro allI impI)
      fix q assume q: "backPath g trigger cur q \<and> distinct (map g_to q) \<and> set (map g_to q) \<inter> g_to ` set branch = {}"
      with go(1) obtain p q' where pq: "q = p # q'" by (cases q) auto
      with q have p: "p \<in> set ?ps" "g_type p = Main" "backPath g trigger (g_from p) q'" by auto
      with u(2) have k: "keeps_paths g trigger (g_from p) (branch @ [p]) u" by blast
      have "set (map g_to q') \<inter> g_to ` set (branch @ [p]) = {}" "distinct (map g_to q')" using q pq by auto
      with k p(3) have "trigger \<in> set (getNodes u) \<and> set ((branch @ [p]) @ q') \<subseteq> set (connectionValues u)"
        unfolding keeps_paths_def by blast
      with pq show "trigger \<in> set (getNodes u) \<and> set (branch @ q) \<subseteq> set (connectionValues u)" by simp
    qed
    moreover have "findSubgraphRecursive g dest trigger (Suc f) cur branch h = Inr u"
      using go Suc.prems(1) u(1) by (auto simp: getDirectParentConnections_def list_ex_iff)
    ultimately show ?thesis using u(2) by blast
  qed
qed

text \<open>The second phase adds back utility connections of the input graph.\<close>

definition utility_ext :: "dgraph \<Rightarrow> dgraph \<Rightarrow> dgraph \<Rightarrow> bool" where
  "utility_ext g h h' \<longleftrightarrow> subgraph_of g h' \<and> set (getNodes h) \<subseteq> set (getNodes h') \<and>
     set (connectionValues h) \<subseteq> set (connectionValues h') \<and>
     (\<forall>c \<in> set (connectionValues h') - set (connectionValues h). g_type c \<noteq> Main)"

lemma utility_ext_trans: "utility_ext g h h1 \<Longrightarrow> utility_ext g h1 h2 \<Longrightarrow> utility_ext g h h2"
  unfolding utility_ext_def by blast

lemma addUtilityConnections_ok:
  assumes g: "dg_inv g" and h: "subgraph_of g h" and n: "nodeExists g n"
  shows "\<exists>h'. addUtilityConnections g n h = Inr h' \<and> utility_ext g h h' \<and>
    (\<forall>c \<in> set (connectionValues g). g_type c \<noteq> Main \<and> (g_to c, n) \<in> (edges g)\<^sup>* \<longrightarrow>
       c \<in> set (connectionValues h'))"
proof -
  from getParentConnections_ok [OF g n] obtain cs where cs: "getParentConnections g n = Inr cs"
    "set cs = {c \<in> set (connectionValues g). (g_to c, n) \<in> (edges g)\<^sup>*}" by blast
  let ?step = "\<lambda>c s. if g_type c = Main then Inr s else keepConnection c s"
  have "\<exists>h'. efold ?step cs h = Inr h' \<and> utility_ext g h h' \<and>
      (\<forall>c \<in> set cs. g_type c \<noteq> Main \<longrightarrow> c \<in> set (connectionValues h'))"
  proof (rule efold_total_prefix [where P = "\<lambda>ys u. utility_ext g h u \<and>
      (\<forall>c \<in> set ys. g_type c \<noteq> Main \<longrightarrow> c \<in> set (connectionValues u))"])
    show "utility_ext g h h \<and> (\<forall>c \<in> set []. g_type c \<noteq> Main \<longrightarrow> c \<in> set (connectionValues h))"
      using h by (simp add: utility_ext_def)
    fix ys c zs u
    assume split: "cs = ys @ c # zs" and P: "utility_ext g h u \<and>
      (\<forall>c \<in> set ys. g_type c \<noteq> Main \<longrightarrow> c \<in> set (connectionValues u))"
    show "\<exists>v. ?step c u = Inr v \<and> utility_ext g h v \<and>
      (\<forall>c \<in> set (ys @ [c]). g_type c \<noteq> Main \<longrightarrow> c \<in> set (connectionValues v))"
    proof (cases "g_type c = Main")
      case True
      with P show ?thesis by auto
    next
      case False
      have "c \<in> set (connectionValues g)" using split cs(2) by auto
      moreover have "subgraph_of g u" using P by (simp add: utility_ext_def)
      ultimately obtain v where "keepConnection c u = Inr v" "subgraph_of g v"
        "set (getNodes v) = {g_from c, g_to c} \<union> set (getNodes u)"
        "set (connectionValues v) = insert c (set (connectionValues u))"
        using keepConnection_ok [OF g] by blast
      with False P show ?thesis by (auto simp: utility_ext_def)
    qed
  qed
  with cs show ?thesis by (auto simp: addUtilityConnections_def)
qed

lemma findSubgraph_ok:
  assumes g: "dg_inv g" and ex: "nodeExists g destination" "nodeExists g trigger"
  shows "\<exists>h. findSubgraph g destination trigger = Inr h \<and> subgraph_of g h \<and>
    (\<forall>c \<in> set (connectionValues h). g_type c = Main \<longrightarrow> (g_to c, destination) \<in> (main_edges g)\<^sup>*) \<and>
    (\<forall>p. backPath g trigger destination p \<and> distinct (map g_to p) \<longrightarrow>
       trigger \<in> set (getNodes h) \<and> set p \<subseteq> set (connectionValues h) \<and>
       (\<forall>n \<in> insert trigger (g_to ` set p). \<forall>c \<in> set (connectionValues g).
          g_type c \<noteq> Main \<and> (g_to c, n) \<in> (edges g)\<^sup>* \<longrightarrow> c \<in> set (connectionValues h)))"
proof -
  let ?f = "Suc (Suc (length (d_nodes g)))"
  have "card (set (getNodes g) - g_to ` set []) < ?f" using length_getNodes [OF g] by simp
  moreover have "branch_ok g destination []" by (simp add: branch_ok_def)
  ultimately obtain h1 where h1: "findSubgraphRecursive g destination trigger ?f destination [] newDirectedGraph = Inr h1"
    "extends g destination newDirectedGraph h1" "keeps_paths g trigger destination [] h1"
    using findSubgraphRecursive_ok [OF g ex(2,1) subgraph_new] by blast
  have s1: "subgraph_of g h1" using h1(2) by (simp add: extends_def)
  have empty: "connectionValues newDirectedGraph = []"
    by (simp add: connectionValues_def newDirectedGraph_def)
  let ?P = "\<lambda>ys u. utility_ext g h1 u \<and> (\<forall>n \<in> set ys. \<forall>c \<in> set (connectionValues g).
      g_type c \<noteq> Main \<and> (g_to c, n) \<in> (edges g)\<^sup>* \<longrightarrow> c \<in> set (connectionValues u))"
  have "\<exists>h. efold (addUtilityConnections g) (getNodes h1) h1 = Inr h \<and> ?P (getNodes h1) h"
  proof (rule efold_total_prefix)
    show "?P [] h1" using s1 by (simp add: utility_ext_def)
    fix ys n zs u
    assume split: "getNodes h1 = ys @ n # zs" and P: "?P ys u"
    have "n \<in> set (getNodes h1)" using split by simp
    with s1 have n: "nodeExists g n" by (auto simp: subgraph_of_def nodeExists_iff [OF g])
    have "subgraph_of g u" using P by (simp add: utility_ext_def)
    from addUtilityConnections_ok [OF g this n] obtain v where v: "addUtilityConnections g n u = Inr v"
      "utility_ext g u v" "\<forall>c \<in> set (connectionValues g). g_type c \<noteq> Main \<and> (g_to c, n) \<in> (edges g)\<^sup>* \<longrightarrow>
       c \<in> set (connectionValues v)" by blast
    have "utility_ext g h1 v" using P v(2) by (blast intro: utility_ext_trans)
    moreover have "set (connectionValues u) \<subseteq> set (connectionValues v)" using v(2) by (simp add: utility_ext_def)
    ultimately have "?P (ys @ [n]) v" using P v(3) by auto
    with v(1) show "\<exists>v. addUtilityConnections g n u = Inr v \<and> ?P (ys @ [n]) v" by blast
  qed
  then obtain h where h: "efold (addUtilityConnections g) (getNodes h1) h1 = Inr h" "?P (getNodes h1) h" by blast
  have "findSubgraph g destination trigger = Inr h"
    unfolding findSubgraph_def h1(1) by (simp add: h(1))
  moreover have "subgraph_of g h" using h(2) by (simp add: utility_ext_def)
  moreover have "(g_to c, destination) \<in> (main_edges g)\<^sup>*" if "c \<in> set (connectionValues h)" "g_type c = Main" for c
  proof -
    have "c \<in> set (connectionValues h1)" using that h(2) by (auto simp: utility_ext_def)
    with h1(2) show ?thesis by (simp add: extends_def branch_ok_def empty)
  qed
  moreover have "trigger \<in> set (getNodes h) \<and> set p \<subseteq> set (connectionValues h) \<and>
       (\<forall>n \<in> insert trigger (g_to ` set p). \<forall>c \<in> set (connectionValues g).
          g_type c \<noteq> Main \<and> (g_to c, n) \<in> (edges g)\<^sup>* \<longrightarrow> c \<in> set (connectionValues h))"
    if "backPath g trigger destination p" "distinct (map g_to p)" for p
  proof -
    have "trigger \<in> set (getNodes h1)" "set p \<subseteq> set (connectionValues h1)"
      using that h1(3) by (auto simp: keeps_paths_def)
    moreover have "set (getNodes h1) \<subseteq> set (getNodes h)" "set (connectionValues h1) \<subseteq> set (connectionValues h)"
      using h(2) by (simp_all add: utility_ext_def)
    moreover have "insert trigger (g_to ` set p) \<subseteq> set (getNodes h1)"
    proof -
      have inv1: "dg_inv h1" using s1 by (simp add: subgraph_of_def)
      have "g_to c \<in> set (getNodes h1)" if "c \<in> set p" for c
      proof -
        have "c \<in> set (connectionValues h1)" using that calculation(2) by blast
        from dg_invD(6) [OF inv1 this] show ?thesis by (simp add: nodeExists_iff [OF inv1])
      qed
      with calculation(1) show ?thesis by blast
    qed
    ultimately show ?thesis using h(2) by blast
  qed
  ultimately show ?thesis by blast
qed

section \<open>Cycles\<close>

definition cycle_entry :: "dgraph \<Rightarrow> inode \<Rightarrow> inode list list \<Rightarrow> inode \<Rightarrow> inode" where
  "cycle_entry g trigger sccs n = (case find (\<lambda>scc. n \<in> set scc) sccs of None \<Rightarrow> n
     | Some scc \<Rightarrow> (case depthFirstSearch g trigger (\<lambda>m. m \<in> set scc) of Inr (Some m) \<Rightarrow> m | _ \<Rightarrow> n))"

lemma cycle_entry_ok:
  assumes g: "dg_inv g" and t: "nodeExists g trigger"
    and sccs: "\<forall>scc \<in> set sccs. \<forall>a \<in> set scc. \<forall>b \<in> set scc. (a, b) \<in> (edges g)\<^sup>*"
    and n: "(trigger, n) \<in> (edges g)\<^sup>*"
  shows "(n, cycle_entry g trigger sccs n) \<in> (edges g)\<^sup>* \<and> (cycle_entry g trigger sccs n, n) \<in> (edges g)\<^sup>* \<and>
    (trigger, cycle_entry g trigger sccs n) \<in> (edges g)\<^sup>*"
proof (cases "find (\<lambda>scc. n \<in> set scc) sccs")
  case None
  with n show ?thesis by (simp add: cycle_entry_def)
next
  case (Some scc)
  then have scc: "scc \<in> set sccs" "n \<in> set scc" by (auto simp: find_Some_iff)
  from depthFirstSearch_ok [OF g t, of "\<lambda>m. m \<in> set scc"] n scc(2) obtain m where
    "depthFirstSearch g trigger (\<lambda>m. m \<in> set scc) = Inr (Some m)" "m \<in> set scc" "(trigger, m) \<in> (edges g)\<^sup>*"
    by (metis option.exhaust)
  with Some scc sccs show ?thesis by (auto simp: cycle_entry_def)
qed

lemma find_disjoint:
  "distinct (concat xss) \<Longrightarrow> xs \<in> set xss \<Longrightarrow> x \<in> set xs \<Longrightarrow> find (\<lambda>ys. x \<in> set ys) xss = Some xs"
  by (induction xss) auto

lemma cycle_entry_idem:
  assumes g: "dg_inv g" and t: "nodeExists g trigger" and d: "distinct (concat sccs)"
    and n: "(trigger, n) \<in> (edges g)\<^sup>*"
  shows "cycle_entry g trigger sccs (cycle_entry g trigger sccs n) = cycle_entry g trigger sccs n"
proof (cases "find (\<lambda>scc. n \<in> set scc) sccs")
  case None
  then show ?thesis by (simp add: cycle_entry_def)
next
  case (Some scc)
  then have scc: "scc \<in> set sccs" "n \<in> set scc" by (auto simp: find_Some_iff)
  from depthFirstSearch_ok [OF g t, of "\<lambda>m. m \<in> set scc"] n scc(2) obtain m where
    m: "depthFirstSearch g trigger (\<lambda>m. m \<in> set scc) = Inr (Some m)" "m \<in> set scc"
    by (metis option.exhaust)
  with Some find_disjoint [OF d scc(1) m(2)] show ?thesis by (simp add: cycle_entry_def)
qed

lemma replaceStart_row:
  assumes g: "dg_inv g" and t: "nodeExists g trigger" and n: "(trigger, n) \<in> (edges g)\<^sup>*"
  shows "distinct (concat sccs) \<Longrightarrow> [] \<notin> set sccs \<Longrightarrow>
    \<exists>s'. efold (replaceStart g trigger n) sccs s = Inr s' \<and>
      set s' = (if find (\<lambda>scc. n \<in> set scc) sccs = None then set s
                else insert (cycle_entry g trigger sccs n) (set s - {n}))"
proof (induction sccs arbitrary: s)
  case Nil
  then show ?case by simp
next
  case (Cons scc sccs)
  show ?case
  proof (cases "n \<in> set scc")
    case False
    from Cons.prems have "distinct (concat sccs)" "[] \<notin> set sccs" by auto
    from Cons.IH [OF this] obtain s' where "efold (replaceStart g trigger n) sccs s = Inr s'"
      "set s' = (if find (\<lambda>scc. n \<in> set scc) sccs = None then set s
                else insert (cycle_entry g trigger sccs n) (set s - {n}))" by blast
    moreover have "replaceStart g trigger n scc s = Inr s" "find (\<lambda>scc. n \<in> set scc) (scc # sccs) = find (\<lambda>scc. n \<in> set scc) sccs"
      "cycle_entry g trigger (scc # sccs) n = cycle_entry g trigger sccs n"
      using False by (simp_all add: replaceStart_def cycle_entry_def)
    ultimately show ?thesis by simp
  next
    case True
    from depthFirstSearch_ok [OF g t, of "\<lambda>m. m \<in> set scc"] n True obtain m where
      m: "depthFirstSearch g trigger (\<lambda>m. m \<in> set scc) = Inr (Some m)" by (metis option.exhaust)
    have "\<forall>c \<in> set sccs. n \<notin> set c" using Cons.prems(1) True by auto
    then have none: "find (\<lambda>scc. n \<in> set scc) sccs = None" by (auto simp: find_None_iff)
    from Cons.IH [of "sadd m (sdel n s)"] Cons.prems none obtain s' where
      "efold (replaceStart g trigger n) sccs (sadd m (sdel n s)) = Inr s'"
      "set s' = insert m (set s - {n})" by auto
    moreover have "replaceStart g trigger n scc s = Inr (sadd m (sdel n s))" "cycle_entry g trigger (scc # sccs) n = m"
      using True m by (simp_all add: replaceStart_def cycle_entry_def)
    ultimately show ?thesis using True by simp
  qed
qed

lemma handleCycles_ok:
  assumes g: "dg_inv g" and t: "nodeExists g trigger"
    and s: "\<forall>n \<in> set startNodes. (trigger, n) \<in> (edges g)\<^sup>*"
  shows "\<exists>sccs s'. getStronglyConnectedComponents g = Inr sccs \<and>
    handleCycles g startNodes trigger = Inr s' \<and> set s' = cycle_entry g trigger sccs ` set startNodes"
proof -
  from getStronglyConnectedComponents_ok [OF g] obtain sccs where sccs: "getStronglyConnectedComponents g = Inr sccs"
    "distinct (concat sccs)" "\<forall>scc \<in> set sccs. scc \<noteq> []"
    "\<forall>scc \<in> set sccs. \<forall>a \<in> set scc. \<forall>b \<in> set scc. (a, b) \<in> (edges g)\<^sup>*" by blast
  have all: "filter (\<lambda>cycle. length cycle \<ge> 1) sccs = sccs"
    using sccs(3) by (simp add: filter_id_conv Suc_le_eq)
  let ?e = "cycle_entry g trigger sccs"
  let ?P = "\<lambda>ys u. set u = ?e ` set ys \<union> (set startNodes - set ys)"
  have "\<exists>s'. efold (\<lambda>n. efold (replaceStart g trigger n) sccs) startNodes startNodes = Inr s' \<and> ?P startNodes s'"
  proof (rule efold_total_prefix [where P = ?P])
    show "?P [] startNodes" by simp
    fix ys n zs u
    assume split: "startNodes = ys @ n # zs" and P: "?P ys u"
    have n: "(trigger, n) \<in> (edges g)\<^sup>*" using s split by simp
    from sccs(3) have "[] \<notin> set sccs" by auto
    from replaceStart_row [OF g t n sccs(2) this, of u] obtain v where
      v: "efold (replaceStart g trigger n) sccs u = Inr v" "set v =
        (if find (\<lambda>scc. n \<in> set scc) sccs = None then set u else insert (?e n) (set u - {n}))" by blast
    have "?P (ys @ [n]) v"
    proof (cases "find (\<lambda>scc. n \<in> set scc) sccs = None")
      case True
      then have e: "?e n = n" by (simp add: cycle_entry_def)
      then have "n \<in> set ys \<Longrightarrow> n \<in> ?e ` set ys" by (metis imageI)
      with e v(2) P True split show ?thesis by auto
    next
      case False
      have "n \<in> ?e ` set ys \<Longrightarrow> ?e n = n"
        using cycle_entry_idem [OF g t sccs(2)] s split by auto
      with v(2) P False split show ?thesis by auto
    qed
    with v(1) show "\<exists>v. efold (replaceStart g trigger n) sccs u = Inr v \<and> ?P (ys @ [n]) v" by blast
  qed
  then obtain s' where s': "efold (\<lambda>n. efold (replaceStart g trigger n) sccs) startNodes startNodes = Inr s'"
    "set s' = ?e ` set startNodes" by auto
  show ?thesis
  proof (cases "sccs = []")
    case True
    then have "?e n = n" for n by (simp add: cycle_entry_def)
    with sccs(1) True show ?thesis by (auto simp: handleCycles_def)
  next
    case False
    with sccs(1) s' all show ?thesis by (auto simp: handleCycles_def)
  qed
qed

section \<open>Properties\<close>

text \<open>
  \<open>filterDisabledNodes\<close> on a well-formed graph whose names hold no dash, and with no
  \<open>main\<close> cycle of disabled nodes only: it returns a well-formed graph with exactly the enabled
  nodes, and between enabled nodes there is a \<open>main\<close> path exactly when there was one before.
\<close>

lemma filterDisabledNodes_reachability:
  assumes "dg_inv g" "dash_free g" "no_disabled_cycle g"
  shows "\<exists>g'. filterDisabledNodes g = Inr g' \<and> dg_inv g' \<and>
    (\<forall>m. nodeExists g' m \<longleftrightarrow> nodeExists g m \<and> \<not> isDisabled m) \<and>
    (\<forall>a b. \<not> isDisabled a \<and> \<not> isDisabled b \<longrightarrow>
       ((a, b) \<in> (main_edges g')\<^sup>+ \<longleftrightarrow> (a, b) \<in> (main_edges g)\<^sup>+))"
  using assms by (rule filterDisabledNodes_ok)

text \<open>The witness: \<open>A \<rightarrow> X \<rightarrow> Y \<rightarrow> C\<close> with \<open>X\<close> and \<open>Y\<close> disabled.\<close>

definition nodeX :: inode where "nodeX = (mkNode 5 ''X'')\<lparr>n_disabled := Some True\<rparr>"
definition nodeY :: inode where "nodeY = (mkNode 6 ''Y'')\<lparr>n_disabled := Some True\<rparr>"
definition exDisabled :: dgraph where
  "exDisabled = fold setConnection [conn nodeA nodeX, conn nodeX nodeY, conn nodeY nodeC]
     (addNodes [nodeA, nodeX, nodeY, nodeC] newDirectedGraph)"

lemma filterDisabledNodes_reachability_witness:
  "\<exists>g'. filterDisabledNodes exDisabled = Inr g' \<and> (nodeA, nodeC) \<in> (main_edges g')\<^sup>+ \<and> \<not> nodeExists g' nodeX"
proof -
  have "connectionValues exDisabled = [conn nodeA nodeX, conn nodeX nodeY, conn nodeY nodeC]" by code_simp
  then have E: "main_edges exDisabled = {(nodeA, nodeX), (nodeX, nodeY), (nodeY, nodeC)}"
    by (simp add: edges_image conn_def)
  have d: "\<not> isDisabled nodeA" "\<not> isDisabled nodeC" "isDisabled nodeX" by code_simp+
  have ne: "nodeA \<noteq> nodeX" "nodeA \<noteq> nodeY" "nodeC \<noteq> nodeX" "nodeX \<noteq> nodeY" "nodeC \<noteq> nodeY" "nodeA \<noteq> nodeC" by code_simp+
  have "(a, b) \<in> via (main_edges exDisabled) (Collect isDisabled) \<Longrightarrow>
     a = nodeA \<and> b \<noteq> nodeA \<or> a = nodeX \<and> (b = nodeY \<or> b = nodeC) \<or> a = nodeY \<and> b = nodeC" for a b
    by (induction rule: via_induct) (use ne d in \<open>auto simp: E\<close>)
  then have "no_disabled_cycle exDisabled" using ne unfolding no_disabled_cycle_def by metis
  moreover have "dg_inv exDisabled" by (simp add: dg_inv_def nodeExists_def exDisabled_def nodeX_def nodeY_def ex_defs)
  moreover have "dash_free exDisabled" by code_simp
  moreover have "(nodeA, nodeC) \<in> (main_edges exDisabled)\<^sup>+"
    unfolding E by (meson insertI1 insertI2 r_into_trancl trancl_into_trancl)
  ultimately show ?thesis using filterDisabledNodes_reachability [of exDisabled] d by blast
qed

text \<open>
  \<open>findSubgraph\<close> on a well-formed graph returns a well-formed part of it. Every \<open>main\<close>
  connection it keeps leads to the destination, and it keeps every connection of every simple
  \<open>main\<close> path from the trigger to the destination, with all utility connections that lead to a
  node of the path.
\<close>

lemma findSubgraph_paths:
  assumes "dg_inv g" "nodeExists g destination" "nodeExists g trigger"
  shows "\<exists>h. findSubgraph g destination trigger = Inr h \<and> subgraph_of g h \<and>
    (\<forall>c \<in> set (connectionValues h). g_type c = Main \<longrightarrow> (g_to c, destination) \<in> (main_edges g)\<^sup>*) \<and>
    (\<forall>p. backPath g trigger destination p \<and> distinct (map g_to p) \<longrightarrow>
       trigger \<in> set (getNodes h) \<and> set p \<subseteq> set (connectionValues h) \<and>
       (\<forall>n \<in> insert trigger (g_to ` set p). \<forall>c \<in> set (connectionValues g).
          g_type c \<noteq> Main \<and> (g_to c, n) \<in> (edges g)\<^sup>* \<longrightarrow> c \<in> set (connectionValues h)))"
  using assms by (rule findSubgraph_ok)

lemma findSubgraph_paths_witness:
  "\<exists>h. findSubgraph exGraph nodeC nodeA = Inr h \<and> conn nodeA nodeB \<in> set (connectionValues h) \<and>
     backPath exGraph nodeA nodeC [conn nodeB nodeC, conn nodeA nodeB]"
proof -
  have p: "backPath exGraph nodeA nodeC [conn nodeB nodeC, conn nodeA nodeB]" by code_simp
  moreover have "distinct (map g_to [conn nodeB nodeC, conn nodeA nodeB])" by code_simp
  ultimately show ?thesis
    using findSubgraph_paths [of exGraph nodeC nodeA] by (auto simp del: backPath.simps)
qed

text \<open>
  The subgraph can hold nodes the trigger does not reach: a cycle that leads to the
  destination is kept whether or not the trigger leads to the cycle.
\<close>

lemma findSubgraph_keeps_unreachable_cycle:
  "\<exists>g destination trigger h n. dg_inv g \<and> nodeExists g destination \<and> nodeExists g trigger \<and>
     findSubgraph g destination trigger = Inr h \<and> nodeExists h n \<and> (trigger, n) \<notin> (edges g)\<^sup>*"
proof -
  let ?g = "fold setConnection [conn nodeA nodeC, conn nodeB nodeC, conn nodeD nodeB, conn nodeB nodeD]
     (addNodes [nodeA, nodeB, nodeC, nodeD] newDirectedGraph)"
  let ?h = "projr (findSubgraph ?g nodeC nodeA)"
  have inv: "dg_inv ?g" by (simp add: dg_inv_def nodeExists_def ex_defs)
  have "nodeExists ?g nodeA" "getChildren ?g nodeA = Inr [nodeC]" "nodeB \<noteq> nodeA" "nodeB \<noteq> nodeC" by code_simp+
  with getChildren_ok [OF inv, of nodeA] have "(nodeA, nodeB) \<notin> (edges ?g)\<^sup>*"
    by (auto simp: rtrancl_eq_or_trancl)
  moreover have "dg_inv ?g" by (simp add: dg_inv_def nodeExists_def ex_defs)
  moreover have "nodeExists ?g nodeC" "nodeExists ?g nodeA" "findSubgraph ?g nodeC nodeA = Inr ?h" "nodeExists ?h nodeB"
    by code_simp+
  ultimately show ?thesis by blast
qed

text \<open>
  \<open>handleCycles\<close> returns when the trigger reaches every start node, and replaces every start
  node by the entry of its cycle: a node the trigger reaches, that reaches the start node and is
  reached from it, and that is the start node itself when no reported cycle holds it.
\<close>

lemma handleCycles_entries:
  assumes "dg_inv g" "nodeExists g trigger" "\<forall>n \<in> set startNodes. (trigger, n) \<in> (edges g)\<^sup>*"
  shows "\<exists>sccs s'. getStronglyConnectedComponents g = Inr sccs \<and>
    handleCycles g startNodes trigger = Inr s' \<and> set s' = cycle_entry g trigger sccs ` set startNodes \<and>
    (\<forall>n \<in> set startNodes. (n, cycle_entry g trigger sccs n) \<in> (edges g)\<^sup>* \<and>
       (cycle_entry g trigger sccs n, n) \<in> (edges g)\<^sup>* \<and> (trigger, cycle_entry g trigger sccs n) \<in> (edges g)\<^sup>*)"
proof -
  from handleCycles_ok [OF assms] getStronglyConnectedComponents_ok [OF assms(1)] obtain sccs s' where
    s: "getStronglyConnectedComponents g = Inr sccs" "handleCycles g startNodes trigger = Inr s'"
      "set s' = cycle_entry g trigger sccs ` set startNodes"
      "\<forall>scc \<in> set sccs. \<forall>a \<in> set scc. \<forall>b \<in> set scc. (a, b) \<in> (edges g)\<^sup>*" by auto
  with cycle_entry_ok [OF assms(1,2) s(4)] assms(3) show ?thesis by blast
qed

text \<open>The witness: \<open>A \<rightarrow> B\<close> with the cycle \<open>B \<rightarrow> C \<rightarrow> B\<close>; the start node \<open>C\<close> is replaced by \<open>B\<close>.\<close>

definition exCycle :: dgraph where
  "exCycle = fold setConnection [conn nodeA nodeB, conn nodeB nodeC, conn nodeC nodeB]
     (addNodes [nodeA, nodeB, nodeC] newDirectedGraph)"

lemma handleCycles_entries_witness:
  "handleCycles exCycle [nodeC] nodeA = Inr [nodeB] \<and> (nodeB, nodeC) \<in> (edges exCycle)\<^sup>*"
proof -
  have "connectionValues exCycle = [conn nodeA nodeB, conn nodeB nodeC, conn nodeC nodeB]" by code_simp
  then have E: "edges exCycle = {(nodeA, nodeB), (nodeB, nodeC), (nodeC, nodeB)}"
    by (simp add: edges_image conn_def)
  have "dg_inv exCycle" by (simp add: dg_inv_def nodeExists_def exCycle_def ex_defs)
  moreover have "nodeExists exCycle nodeA" by code_simp
  moreover have "(nodeA, nodeC) \<in> (edges exCycle)\<^sup>*"
    unfolding E by (meson insertI1 insertI2 r_into_rtrancl rtrancl.rtrancl_into_rtrancl)
  moreover have run: "handleCycles exCycle [nodeC] nodeA = Inr [nodeB]" by code_simp
  ultimately show ?thesis using handleCycles_entries [of exCycle nodeA "[nodeC]"] by auto
qed

end
