(* ===== verification/ExecutionStack.thy ===== *)
theory ExecutionStack
  imports Subgraph "HOL-Library.Multiset"
begin

text \<open>
  The state a partial execution hands to the engine: \<open>get-source-data-groups.ts\<close> and
  \<open>recreate-node-execution-stack.ts\<close> of
  \<open>packages/core/src/execution-engine/partial-execution-utils\<close>. The comparison of node names
  (\<open>localeCompare\<close>, which depends on the locale) and the empty item are arguments. An object keyed
  by run indices is an association list with ascending keys (\<open>by_run\<close>).
\<close>

section \<open>State\<close>

text \<open>
  An action a node requests of the engine, and what the metadata of a stack item says: whether the node
  is taken up again after its actions, the runs of these, and the source its items are looked up at.
\<close>

record engine_action =
  ea_nodeName :: string
  ea_input :: "(string \<times> json) list"
  ea_type :: node_connection_type
  ea_id :: string
  ea_parentNodeName :: "string option"
  ea_itemIndex :: "nat option"

record sub_node_action =
  sn_action :: engine_action
  sn_nodeName :: string
  sn_runIndex :: nat

record task_metadata =
  tm_preserveSourceOverwrite :: bool
  tm_preservedSourceOverwrite :: "source_data option"
  tm_nodeWasResumed :: bool
  tm_subNodeExecutionData :: "(sub_node_action list \<times> json) option"

record 'i execute_data =
  e_node :: inode
  e_data :: "'i task_data_connections"
  e_source :: "task_data_connections_source option"
  e_runIndex :: "nat option"
  e_metadata :: "task_metadata option"

text \<open>
  An object keyed by run indices; JavaScript lists such keys in ascending order, which
  \<open>ikUpdate\<close> keeps.
\<close>

type_synonym 'a by_run = "(nat \<times> 'a) list"
type_synonym 'i waiting_execution = "(string \<times> 'i task_data_connections by_run) list"
type_synonym waiting_execution_source = "(string \<times> task_data_connections_source by_run) list"

fun ikUpdate :: "nat \<Rightarrow> 'a \<Rightarrow> 'a by_run \<Rightarrow> 'a by_run" where
  "ikUpdate k v [] = [(k, v)]"
| "ikUpdate k v ((k', v') # al) =
     (if k < k' then (k, v) # (k', v') # al
      else if k = k' then (k, v) # al else (k', v') # ikUpdate k v al)"

section \<open>Groups of sources\<close>

record source_connection_group =
  sg_complete :: bool
  sg_connections :: "graph_connection list"

definition newGroup :: source_connection_group where
  "newGroup = \<lparr>sg_complete = True, sg_connections = []\<rparr>"

text \<open>The comparison of names, \<open>localeCompare\<close>, is a parameter \<open>cmp\<close>; the result is its sign.\<close>

definition sortByInputIndexThenByName ::
  "(string \<Rightarrow> string \<Rightarrow> int) \<Rightarrow> graph_connection \<Rightarrow> graph_connection \<Rightarrow> int" where
  "sortByInputIndexThenByName cmp c1 c2 =
     (if g_inputIndex c1 = g_inputIndex c2 then cmp (n_name (g_from c1)) (n_name (g_from c2))
      else int (g_inputIndex c1) - int (g_inputIndex c2))"

text \<open>\<open>Array.prototype.sort\<close>: a stable sort, as insertion sort.\<close>

fun js_insort :: "('a \<Rightarrow> 'a \<Rightarrow> int) \<Rightarrow> 'a \<Rightarrow> 'a list \<Rightarrow> 'a list" where
  "js_insort cmp x [] = [x]"
| "js_insort cmp x (y # ys) = (if cmp x y \<le> 0 then x # y # ys else y # js_insort cmp x ys)"

definition js_sort :: "('a \<Rightarrow> 'a \<Rightarrow> int) \<Rightarrow> 'a list \<Rightarrow> 'a list" where
  "js_sort cmp xs = foldr (js_insort cmp) xs []"

definition minIndex :: "graph_connection list \<Rightarrow> graph_connection list \<Rightarrow> nat" where
  "minIndex withData withoutData = Min (g_inputIndex ` set (withData @ withoutData))"

text \<open>
  The \<open>while\<close> loop. \<open>idx\<close> is the input index looked for (the source's \<open>currentInputIndex\<close> after
  its increment). Once no connection is left the current group is pushed.
\<close>

function groupLoop :: "graph_connection list \<Rightarrow> graph_connection list \<Rightarrow> nat \<Rightarrow> source_connection_group \<Rightarrow>
    source_connection_group list" where
  "groupLoop withData withoutData idx cur =
     (if withData = [] \<and> withoutData = [] then [cur]
      else case findIndex (\<lambda>c. g_inputIndex c = idx) withData of
        Some i \<Rightarrow> groupLoop (splice1 i withData) withoutData (Suc idx)
                   (cur\<lparr>sg_connections := sg_connections cur @ [withData ! i]\<rparr>)
      | None \<Rightarrow>
         (case findIndex (\<lambda>c. g_inputIndex c = idx) withoutData of
            Some i \<Rightarrow> groupLoop withData (splice1 i withoutData) (Suc idx)
                   (cur\<lparr>sg_connections := sg_connections cur @ [withoutData ! i], sg_complete := False\<rparr>)
          | None \<Rightarrow> cur # groupLoop withData withoutData (minIndex withData withoutData) newGroup))"
  by pat_completeness auto

definition hasSourceData :: "'i run_data \<Rightarrow> 'i pin_data \<Rightarrow> graph_connection \<Rightarrow> bool" where
  "hasSourceData rd pin c \<longleftrightarrow>
     map_of rd (n_name (g_from c)) \<noteq> None \<or> map_of pin (n_name (g_from c)) \<noteq> None"

definition getSourceDataGroups ::
  "(string \<Rightarrow> string \<Rightarrow> int) \<Rightarrow> dgraph \<Rightarrow> inode \<Rightarrow> 'i run_data \<Rightarrow> 'i pin_data \<Rightarrow> source_connection_group list"
where
  "getSourceDataGroups cmp g node rd pin =
     (let connections = getConnections g (Some node);
          withData = filter (hasSourceData rd pin) connections;
          withoutData = filter (\<lambda>c. \<not> hasSourceData rd pin c \<and> g_type c = Main) connections
      in if withData = [] \<and> withoutData = [] then []
         else let withData = js_sort (sortByInputIndexThenByName cmp) withData;
                  withoutData = js_sort (sortByInputIndexThenByName cmp) withoutData
              in groupLoop withData withoutData (minIndex withData withoutData) newGroup)"

lemma minIndex_present:
  assumes "\<not> (withData = [] \<and> withoutData = [])"
  shows "\<exists>c \<in> set (withData @ withoutData). g_inputIndex c = minIndex withData withoutData"
proof -
  have "Min (g_inputIndex ` set (withData @ withoutData)) \<in> g_inputIndex ` set (withData @ withoutData)"
    by (rule Min_in) (use assms in auto)
  then show ?thesis by (auto simp: minIndex_def)
qed

termination groupLoop
proof (relation "measure (\<lambda>(w, wo, idx, cur). 2 * (length w + length wo) +
    (if \<exists>c \<in> set (w @ wo). g_inputIndex c = idx then 0 else 1))", goal_cases)
  case 1
  then show ?case by simp
next
  case (2 w wo idx cur)
  then have "\<not> (\<exists>c \<in> set (w @ wo). g_inputIndex c = idx)" by (auto simp: findIndex_None)
  with minIndex_present [OF 2(1)] show ?case by simp
next
  case (3 w wo idx cur i)
  from findIndex_Some [OF 3(3)] have "Suc (length (splice1 i wo)) = length wo"
    "\<exists>c \<in> set (w @ wo). g_inputIndex c = idx" by (auto simp: length_splice1)
  then show ?case by auto
next
  case (4 w wo idx cur i)
  from findIndex_Some [OF 4(2)] have "Suc (length (splice1 i w)) = length w"
    "\<exists>c \<in> set (w @ wo). g_inputIndex c = idx" by (auto simp: length_splice1)
  then show ?case by auto
qed

declare groupLoop.simps [simp del]

section \<open>The execution stack\<close>

definition addWaitingExecution :: "'i waiting_execution \<Rightarrow> string \<Rightarrow> nat \<Rightarrow> node_connection_type \<Rightarrow> nat \<Rightarrow>
    'i list option \<Rightarrow> 'i waiting_execution" where
  "addWaitingExecution waiting nodeName runIndex inputType inputIndex executionData =
     (let waitingObject = orElse (map_of waiting nodeName) [];
          taskData = orElse (map_of waitingObject runIndex) [];
          dataList = js_set None (orElse (map_of taskData inputType) []) inputIndex executionData
      in AList.update nodeName (ikUpdate runIndex (AList.update inputType dataList taskData) waitingObject) waiting)"

definition addWaitingExecutionSource :: "waiting_execution_source \<Rightarrow> string \<Rightarrow> nat \<Rightarrow> node_connection_type \<Rightarrow>
    nat \<Rightarrow> source_data option \<Rightarrow> waiting_execution_source" where
  "addWaitingExecutionSource waiting nodeName runIndex inputType inputIndex sourceData =
     (let waitingObject = orElse (map_of waiting nodeName) [];
          taskData = orElse (map_of waitingObject runIndex) [];
          dataList = js_set None (orElse (map_of taskData inputType) []) inputIndex sourceData
      in AList.update nodeName (ikUpdate runIndex (AList.update inputType dataList taskData) waitingObject) waiting)"

record 'i execution_stack =
  es_stack :: "'i execute_data list"
  es_waiting :: "'i waiting_execution"
  es_waitingSource :: waiting_execution_source

text \<open>One connection of a complete group: its data and its source go to the end of the two lists.\<close>

definition pushIncoming :: "'i run_data \<Rightarrow> 'i pin_data \<Rightarrow> graph_connection \<Rightarrow>
    'i list option list \<times> source_data option list \<Rightarrow> ('i list option list \<times> source_data option list) result" where
  "pushIncoming rd pin c = (\<lambda>(incomingData, sources).
     let nm = n_name (g_from c);
         src = (\<lambda>runIndex. Some \<lparr>previousNode = nm, previousNodeOutput = Some (g_outputIndex c),
                  previousNodeRun = Some runIndex\<rparr>)
     in case map_of pin nm of
          Some items \<Rightarrow> Inr (incomingData @ [Some items], sources @ [src 0])
        | None \<Rightarrow>
            if map_of rd nm = None then Inl AssertionError
            else ebind (getIncomingDataFromAnyRun rd nm (g_type c) (g_outputIndex c)) (\<lambda>d.
              case d of Some (items, runIndex) \<Rightarrow> Inr (incomingData @ [Some items], sources @ [src runIndex])
              | None \<Rightarrow> Inr (incomingData, sources @ [src 0])))"

text \<open>One connection of an incomplete group: its data waits, if there is any.\<close>

definition waitIncoming :: "'i run_data \<Rightarrow> string \<Rightarrow> nat \<Rightarrow> graph_connection \<Rightarrow> 'i execution_stack \<Rightarrow>
    'i execution_stack result" where
  "waitIncoming rd nodeName nextRunIndex c st =
     ebind (getIncomingDataFromAnyRun rd (n_name (g_from c)) (g_type c) (g_outputIndex c)) (\<lambda>d.
       case d of None \<Rightarrow> Inr st
       | Some (items, _) \<Rightarrow> Inr (st\<lparr>
           es_waiting := addWaitingExecution (es_waiting st) nodeName nextRunIndex (g_type c) (g_inputIndex c) (Some items),
           es_waitingSource := addWaitingExecutionSource (es_waitingSource st) nodeName nextRunIndex (g_type c)
             (g_inputIndex c) (Some \<lparr>previousNode = n_name (g_from c), previousNodeOutput = Some (g_outputIndex c),
                previousNodeRun = Some nextRunIndex\<rparr>)\<rparr>))"

definition stackGroup :: "'i run_data \<Rightarrow> 'i pin_data \<Rightarrow> inode \<Rightarrow> source_connection_group \<Rightarrow>
    'i execution_stack \<Rightarrow> 'i execution_stack result" where
  "stackGroup rd pin startNode grp st =
     (if sg_complete grp then
        ebind (efold (pushIncoming rd pin) (sg_connections grp) ([], [])) (\<lambda>(incomingData, sources).
          Inr (st\<lparr>es_stack := es_stack st @ [\<lparr>e_node = startNode, e_data = [(Main, incomingData)],
             e_source = Some [(Main, sources)], e_runIndex = None, e_metadata = None\<rparr>]\<rparr>))
      else
        efold (waitIncoming rd (n_name startNode)
          (case map_of (es_waiting st) (n_name startNode) of Some w \<Rightarrow> length w | None \<Rightarrow> 0))
          (sg_connections grp) st)"

definition stackStartNode :: "(string \<Rightarrow> string \<Rightarrow> int) \<Rightarrow> 'i \<Rightarrow> dgraph \<Rightarrow> 'i run_data \<Rightarrow> 'i pin_data \<Rightarrow>
    inode \<Rightarrow> 'i execution_stack \<Rightarrow> 'i execution_stack result" where
  "stackStartNode cmp emptyItem g rd pin startNode st =
     ebind (getDirectParentConnections g startNode) (\<lambda>parents.
       if filter (\<lambda>c. g_type c = Main) parents = [] then
         Inr (st\<lparr>es_stack := es_stack st @ [\<lparr>e_node = startNode, e_data = [(Main, [Some [emptyItem]])],
            e_source = None, e_runIndex = None, e_metadata = None\<rparr>]\<rparr>)
       else efold (stackGroup rd pin startNode) (getSourceDataGroups cmp g startNode rd pin) st)"

text \<open>\<open>emptyItem\<close> is the item \<open>{ json: {} }\<close>.\<close>

definition recreateNodeExecutionStack :: "(string \<Rightarrow> string \<Rightarrow> int) \<Rightarrow> 'i \<Rightarrow> dgraph \<Rightarrow> inode list \<Rightarrow>
    'i run_data \<Rightarrow> 'i pin_data \<Rightarrow> 'i execution_stack result" where
  "recreateNodeExecutionStack cmp emptyItem g startNodes rd pin =
     (if list_ex (\<lambda>n. n_disabled n = Some True) (getNodes g) then Inl AssertionError
      else efold (stackStartNode cmp emptyItem g rd pin) startNodes
             \<lparr>es_stack = [], es_waiting = [], es_waitingSource = []\<rparr>)"

section \<open>Groups: lemmas\<close>

lemma mset_js_sort [simp]: "mset (js_sort cmp xs) = mset xs"
proof -
  have "mset (js_insort cmp x ys) = add_mset x (mset ys)" for x ys
    by (induction ys) auto
  then show ?thesis unfolding js_sort_def by (induction xs) auto
qed

lemma set_js_sort [simp]: "set (js_sort cmp xs) = set xs"
  by (metis mset_js_sort set_mset_mset)

lemma js_sort_Nil [simp]: "js_sort cmp xs = [] \<longleftrightarrow> xs = []"
  by (metis mset_js_sort mset_zero_iff)

definition group_ok :: "(graph_connection \<Rightarrow> bool) \<Rightarrow> source_connection_group \<Rightarrow> bool" where
  "group_ok P grp \<longleftrightarrow> (sg_complete grp \<longleftrightarrow> (\<forall>c \<in> set (sg_connections grp). P c)) \<and>
     (\<exists>s. map g_inputIndex (sg_connections grp) = [s..<s + length (sg_connections grp)])"

lemma mset_splice1: "i < length xs \<Longrightarrow> add_mset (xs ! i) (mset (splice1 i xs)) = mset xs"
  by (metis append_take_drop_id id_take_nth_drop mset.simps(2) mset_append splice1_def union_mset_add_mset_right)

lemma groupLoop_spec:
  assumes "\<forall>c \<in> set w. P c" "\<forall>c \<in> set wo. \<not> P c" "group_ok P cur"
    and "map g_inputIndex (sg_connections cur) = [idx - length (sg_connections cur)..<idx]"
    and "length (sg_connections cur) \<le> idx"
    and "sg_connections cur = [] \<Longrightarrow> \<exists>c \<in> set (w @ wo). g_inputIndex c = idx"
  shows "mset (concat (map sg_connections (groupLoop w wo idx cur))) =
      mset (sg_connections cur) + mset w + mset wo \<and>
    (\<forall>grp \<in> set (groupLoop w wo idx cur). group_ok P grp \<and> sg_connections grp \<noteq> [])"
  using assms
proof (induction w wo idx cur rule: groupLoop.induct)
  case (1 w wo idx cur)
  let ?n = "length (sg_connections cur)"
  have step: "group_ok P (cur\<lparr>sg_connections := sg_connections cur @ [c], sg_complete := b\<rparr>) \<and>
      map g_inputIndex (sg_connections cur @ [c]) = [Suc idx - Suc ?n..<Suc idx]"
    if "g_inputIndex c = idx" "b \<longleftrightarrow> sg_complete cur \<and> P c" for c b
  proof -
    have "map g_inputIndex (sg_connections cur @ [c]) = [idx - ?n..<Suc idx]"
      using "1.prems"(4) that(1) by simp
    moreover have "idx - ?n + Suc ?n = Suc idx" using "1.prems"(5) by simp
    ultimately show ?thesis
      using "1.prems"(3) that(2) by (auto simp: group_ok_def intro!: exI [of _ "idx - ?n"])
  qed
  show ?case
  proof (cases "w = [] \<and> wo = []")
    case True
    with "1.prems"(3,6) show ?thesis by (subst (1 2) groupLoop.simps) auto
  next
    case ne: False
    show ?thesis
    proof (cases "findIndex (\<lambda>c. g_inputIndex c = idx) w")
      case (Some i)
      note i = findIndex_Some [OF Some]
      have Pi: "P (w ! i)" using i "1.prems"(1) by auto
      let ?cur = "cur\<lparr>sg_connections := sg_connections cur @ [w ! i]\<rparr>"
      have "group_ok P ?cur \<and> map g_inputIndex (sg_connections ?cur) = [Suc idx - length (sg_connections ?cur)..<Suc idx]"
        using step [of "w ! i" "sg_complete cur"] i Pi by simp
      with "1.IH"(3) [OF ne Some] "1.prems" set_splice1_subset [of i w]
      have "mset (concat (map sg_connections (groupLoop (splice1 i w) wo (Suc idx) ?cur))) =
          mset (sg_connections ?cur) + mset (splice1 i w) + mset wo \<and>
        (\<forall>grp \<in> set (groupLoop (splice1 i w) wo (Suc idx) ?cur). group_ok P grp \<and> sg_connections grp \<noteq> [])"
        by auto
      moreover have "groupLoop w wo idx cur = groupLoop (splice1 i w) wo (Suc idx) ?cur"
        using ne Some by (subst groupLoop.simps) auto
      ultimately show ?thesis using mset_splice1 [of i w] i by simp
    next
      case none: None
      show ?thesis
      proof (cases "findIndex (\<lambda>c. g_inputIndex c = idx) wo")
        case (Some i)
        note i = findIndex_Some [OF Some]
        have Pi: "\<not> P (wo ! i)" using i "1.prems"(2) by auto
        let ?cur = "cur\<lparr>sg_connections := sg_connections cur @ [wo ! i], sg_complete := False\<rparr>"
        have "group_ok P ?cur \<and> map g_inputIndex (sg_connections ?cur) = [Suc idx - length (sg_connections ?cur)..<Suc idx]"
          using step [of "wo ! i" False] i Pi by simp
        with "1.IH"(2) [OF ne none Some] "1.prems" set_splice1_subset [of i wo]
        have "mset (concat (map sg_connections (groupLoop w (splice1 i wo) (Suc idx) ?cur))) =
            mset (sg_connections ?cur) + mset w + mset (splice1 i wo) \<and>
          (\<forall>grp \<in> set (groupLoop w (splice1 i wo) (Suc idx) ?cur). group_ok P grp \<and> sg_connections grp \<noteq> [])"
          by auto
        moreover have "groupLoop w wo idx cur = groupLoop w (splice1 i wo) (Suc idx) ?cur"
          using ne none Some by (subst groupLoop.simps) auto
        ultimately show ?thesis using mset_splice1 [of i wo] i by simp
      next
        case None
        have "group_ok P newGroup" by (simp add: group_ok_def newGroup_def)
        with "1.IH"(1) [OF ne none None] "1.prems"(1,2) minIndex_present [OF ne]
        have "mset (concat (map sg_connections (groupLoop w wo (minIndex w wo) newGroup))) = mset w + mset wo \<and>
          (\<forall>grp \<in> set (groupLoop w wo (minIndex w wo) newGroup). group_ok P grp \<and> sg_connections grp \<noteq> [])"
          by (simp add: newGroup_def)
        moreover have "groupLoop w wo idx cur = cur # groupLoop w wo (minIndex w wo) newGroup"
          using ne none None by (subst groupLoop.simps) auto
        moreover have "sg_connections cur \<noteq> []"
          using "1.prems"(6) none None by (auto simp: findIndex_None)
        ultimately show ?thesis using "1.prems"(3) by (simp add: add.assoc)
      qed
    qed
  qed
qed

lemma getSourceDataGroups_ok:
  "mset (concat (map sg_connections (getSourceDataGroups cmp g node rd pin))) =
     mset (filter (\<lambda>c. g_to c = node \<and> (hasSourceData rd pin c \<or> g_type c = Main)) (connectionValues g)) \<and>
   (\<forall>grp \<in> set (getSourceDataGroups cmp g node rd pin).
      group_ok (hasSourceData rd pin) grp \<and> sg_connections grp \<noteq> [])"
proof -
  let ?P = "hasSourceData rd pin" and ?cs = "getConnections g (Some node)"
  let ?w = "filter ?P ?cs" and ?wo = "filter (\<lambda>c. \<not> ?P c \<and> g_type c = Main) ?cs"
  let ?sort = "js_sort (sortByInputIndexThenByName cmp)"
  have gs: "getSourceDataGroups cmp g node rd pin = (if ?w = [] \<and> ?wo = [] then []
      else groupLoop (?sort ?w) (?sort ?wo) (minIndex (?sort ?w) (?sort ?wo)) newGroup)"
    by (simp add: getSourceDataGroups_def Let_def)
  have conns: "mset ?w + mset ?wo =
      mset (filter (\<lambda>c. g_to c = node \<and> (?P c \<or> g_type c = Main)) (connectionValues g))"
  proof -
    have "mset (filter ?P xs) + mset (filter (\<lambda>c. \<not> ?P c \<and> g_type c = Main) xs) =
        mset (filter (\<lambda>c. ?P c \<or> g_type c = Main) xs)" for xs
      by (induction xs) auto
    from this [of ?cs] show ?thesis by (simp add: getConnections_def conj_commute)
  qed
  show ?thesis
  proof (cases "?w = [] \<and> ?wo = []")
    case True
    then have "mset ?w + mset ?wo = {#}" by simp
    with conns have "mset (filter (\<lambda>c. g_to c = node \<and> (?P c \<or> g_type c = Main)) (connectionValues g)) = {#}" by simp
    moreover have "getSourceDataGroups cmp g node rd pin = []" using gs True by presburger
    ultimately show ?thesis by simp
  next
    case False
    then have ne: "\<not> (?sort ?w = [] \<and> ?sort ?wo = [])" unfolding js_sort_Nil .
    have "group_ok ?P newGroup" by (simp add: group_ok_def newGroup_def)
    then have "mset (concat (map sg_connections (groupLoop (?sort ?w) (?sort ?wo) (minIndex (?sort ?w) (?sort ?wo)) newGroup))) =
        mset (sg_connections newGroup) + mset (?sort ?w) + mset (?sort ?wo) \<and>
      (\<forall>grp \<in> set (groupLoop (?sort ?w) (?sort ?wo) (minIndex (?sort ?w) (?sort ?wo)) newGroup).
         group_ok ?P grp \<and> sg_connections grp \<noteq> [])"
      using minIndex_present [OF ne] by (intro groupLoop_spec) (auto simp: newGroup_def)
    moreover have "getSourceDataGroups cmp g node rd pin =
        groupLoop (?sort ?w) (?sort ?wo) (minIndex (?sort ?w) (?sort ?wo)) newGroup"
      using gs False by presburger
    moreover have "mset (sg_connections newGroup) + mset (?sort ?w) + mset (?sort ?wo) = mset ?w + mset ?wo"
      by (simp add: newGroup_def)
    ultimately show ?thesis unfolding conns [symmetric] by presburger
  qed
qed

section \<open>The stack: lemmas\<close>

definition incomingOf :: "'i run_data \<Rightarrow> 'i pin_data \<Rightarrow> graph_connection \<Rightarrow> ('i list \<times> nat) option" where
  "incomingOf rd pin c = (case map_of pin (n_name (g_from c)) of Some items \<Rightarrow> Some (items, 0)
     | None \<Rightarrow> (case getIncomingDataFromAnyRun rd (n_name (g_from c)) (g_type c) (g_outputIndex c) of
         Inr d \<Rightarrow> d | Inl _ \<Rightarrow> None))"

definition sourceOf :: "'i run_data \<Rightarrow> 'i pin_data \<Rightarrow> graph_connection \<Rightarrow> source_data" where
  "sourceOf rd pin c = \<lparr>previousNode = n_name (g_from c), previousNodeOutput = Some (g_outputIndex c),
     previousNodeRun = Some (case incomingOf rd pin c of Some (_, r) \<Rightarrow> r | None \<Rightarrow> 0)\<rparr>"

lemma getIncomingDataFromAnyRun_ok:
  assumes "run_data_typed g rd" "c \<in> set (connectionValues g)"
  shows "\<exists>d. getIncomingDataFromAnyRun rd (n_name (g_from c)) (g_type c) (g_outputIndex c) = Inr d"
  using hasOutputData_ok [OF assms] by (auto simp: hasOutputData_def)

lemma pushIncoming_ok:
  assumes "run_data_typed g rd" "c \<in> set (connectionValues g)" "hasSourceData rd pin c"
  shows "pushIncoming rd pin c (ds, ss) =
    Inr (ds @ (case incomingOf rd pin c of Some (items, _) \<Rightarrow> [Some items] | None \<Rightarrow> []),
         ss @ [Some (sourceOf rd pin c)])"
proof -
  from getIncomingDataFromAnyRun_ok [OF assms(1,2)] obtain d where
    "getIncomingDataFromAnyRun rd (n_name (g_from c)) (g_type c) (g_outputIndex c) = Inr d" by blast
  with assms(3) show ?thesis
    by (auto simp: pushIncoming_def Let_def incomingOf_def sourceOf_def hasSourceData_def split: option.splits)
qed

definition incomingItems :: "'i run_data \<Rightarrow> 'i pin_data \<Rightarrow> graph_connection list \<Rightarrow> 'i list option list" where
  "incomingItems rd pin cs = concat (map (\<lambda>c. case incomingOf rd pin c of Some (items, _) \<Rightarrow> [Some items] | None \<Rightarrow> []) cs)"

lemma pushIncoming_all:
  assumes "run_data_typed g rd"
  shows "\<forall>c \<in> set cs. c \<in> set (connectionValues g) \<and> hasSourceData rd pin c \<Longrightarrow>
    efold (pushIncoming rd pin) cs (ds, ss) =
      Inr (ds @ incomingItems rd pin cs, ss @ map (\<lambda>c. Some (sourceOf rd pin c)) cs)"
proof (induction cs arbitrary: ds ss)
  case Nil
  then show ?case by (simp add: incomingItems_def)
next
  case (Cons c cs)
  then show ?case using pushIncoming_ok [OF assms, of c pin ds ss] by (simp add: incomingItems_def)
qed

text \<open>The entry of the stack a complete group becomes.\<close>

definition entryOf :: "'i run_data \<Rightarrow> 'i pin_data \<Rightarrow> inode \<Rightarrow> source_connection_group \<Rightarrow> 'i execute_data" where
  "entryOf rd pin n grp = \<lparr>e_node = n, e_data = [(Main, incomingItems rd pin (sg_connections grp))],
     e_source = Some [(Main, map (\<lambda>c. Some (sourceOf rd pin c)) (sg_connections grp))],
     e_runIndex = None, e_metadata = None\<rparr>"

definition entriesOf :: "(string \<Rightarrow> string \<Rightarrow> int) \<Rightarrow> 'i \<Rightarrow> dgraph \<Rightarrow> 'i run_data \<Rightarrow> 'i pin_data \<Rightarrow> inode \<Rightarrow>
    'i execute_data list" where
  "entriesOf cmp emptyItem g rd pin n =
     (if \<forall>c \<in> set (connectionValues g). g_to c = n \<longrightarrow> g_type c \<noteq> Main
      then [\<lparr>e_node = n, e_data = [(Main, [Some [emptyItem]])], e_source = None, e_runIndex = None, e_metadata = None\<rparr>]
      else map (entryOf rd pin n) (filter sg_complete (getSourceDataGroups cmp g n rd pin)))"

text \<open>Reading a cell of the waiting tables.\<close>

definition waitCell :: "(string \<times> (node_connection_type \<times> 'a option list) list by_run) list \<Rightarrow> string \<Rightarrow> nat \<Rightarrow>
    node_connection_type \<Rightarrow> nat \<Rightarrow> 'a option" where
  "waitCell w nm r ty i =
     (case js_get (orElse (map_of (orElse (map_of (orElse (map_of w nm) []) r) []) ty) []) i of
        Some x \<Rightarrow> x | None \<Rightarrow> None)"

lemma map_of_ikUpdate [simp]: "map_of (ikUpdate k v al) = (map_of al)(k \<mapsto> v)"
  by (induction k v al rule: ikUpdate.induct) (auto simp: fun_eq_iff)

lemma js_get_js_set_None:
  "(case js_get (js_set None xs i x) j of Some y \<Rightarrow> y | None \<Rightarrow> None) =
     (if j = i then x else case js_get xs j of Some y \<Rightarrow> y | None \<Rightarrow> None)"
  by (auto simp: js_get_js_set_other) (auto simp: js_get_def)

lemma waitCell_update:
  "waitCell (AList.update nm (ikUpdate r (AList.update ty (js_set None
      (orElse (map_of (orElse (map_of (orElse (map_of w nm) []) r) []) ty) []) i x)
      (orElse (map_of (orElse (map_of w nm) []) r) [])) (orElse (map_of w nm) [])) w) nm' r' ty' i' =
   (if nm' = nm \<and> r' = r \<and> ty' = ty \<and> i' = i then x else waitCell w nm' r' ty' i')"
  by (auto simp: waitCell_def orElse_def js_get_js_set_None)

lemma waitCell_addWaiting:
  "waitCell (addWaitingExecution w nm r ty i x) nm' r' ty' i' =
     (if nm' = nm \<and> r' = r \<and> ty' = ty \<and> i' = i then x else waitCell w nm' r' ty' i')"
  "waitCell (addWaitingExecutionSource ws nm r ty i y) nm' r' ty' i' =
     (if nm' = nm \<and> r' = r \<and> ty' = ty \<and> i' = i then y else waitCell ws nm' r' ty' i')"
  unfolding addWaitingExecution_def addWaitingExecutionSource_def Let_def by (rule waitCell_update)+

text \<open>
  The two waiting tables hold data and source at the same places, and a cell holds what a
  connection into the node has put out.
\<close>

definition waiting_ok :: "dgraph \<Rightarrow> 'i run_data \<Rightarrow> 'i waiting_execution \<Rightarrow> waiting_execution_source \<Rightarrow> bool" where
  "waiting_ok g rd w ws \<longleftrightarrow> (\<forall>nm r ty i.
     (waitCell w nm r ty i = None \<longleftrightarrow> waitCell ws nm r ty i = None) \<and>
     (\<forall>items s. waitCell w nm r ty i = Some items \<and> waitCell ws nm r ty i = Some s \<longrightarrow>
        (\<exists>c \<in> set (connectionValues g). \<exists>run. n_name (g_to c) = nm \<and> g_type c = ty \<and> g_inputIndex c = i \<and>
           previousNode s = n_name (g_from c) \<and> previousNodeOutput s = Some (g_outputIndex c) \<and>
           getIncomingDataFromAnyRun rd (n_name (g_from c)) ty (g_outputIndex c) = Inr (Some (items, run)))))"

lemma waitIncoming_ok:
  assumes rd: "run_data_typed g rd" and c: "c \<in> set (connectionValues g)" "n_name (g_to c) = nm"
    and w: "waiting_ok g rd (es_waiting st) (es_waitingSource st)"
  shows "\<exists>st'. waitIncoming rd nm k c st = Inr st' \<and> es_stack st' = es_stack st \<and>
    waiting_ok g rd (es_waiting st') (es_waitingSource st')"
proof -
  from getIncomingDataFromAnyRun_ok [OF rd c(1)] obtain d where
    d: "getIncomingDataFromAnyRun rd (n_name (g_from c)) (g_type c) (g_outputIndex c) = Inr d" by blast
  show ?thesis
  proof (cases d)
    case None
    with d w show ?thesis by (simp add: waitIncoming_def)
  next
    case (Some p)
    obtain items run where p: "p = (items, run)" by (cases p)
    have "waiting_ok g rd (addWaitingExecution (es_waiting st) nm k (g_type c) (g_inputIndex c) (Some items))
       (addWaitingExecutionSource (es_waitingSource st) nm k (g_type c) (g_inputIndex c)
         (Some \<lparr>previousNode = n_name (g_from c), previousNodeOutput = Some (g_outputIndex c), previousNodeRun = Some k\<rparr>))"
      unfolding waiting_ok_def waitCell_addWaiting
    proof (intro allI)
      fix nm' r' ty' i'
      from w have "(waitCell (es_waiting st) nm' r' ty' i' = None \<longleftrightarrow> waitCell (es_waitingSource st) nm' r' ty' i' = None) \<and>
     (\<forall>items s. waitCell (es_waiting st) nm' r' ty' i' = Some items \<and> waitCell (es_waitingSource st) nm' r' ty' i' = Some s \<longrightarrow>
        (\<exists>c \<in> set (connectionValues g). \<exists>run. n_name (g_to c) = nm' \<and> g_type c = ty' \<and> g_inputIndex c = i' \<and>
           previousNode s = n_name (g_from c) \<and> previousNodeOutput s = Some (g_outputIndex c) \<and>
           getIncomingDataFromAnyRun rd (n_name (g_from c)) ty' (g_outputIndex c) = Inr (Some (items, run))))"
        unfolding waiting_ok_def by blast
      with c d Some p show "((if nm' = nm \<and> r' = k \<and> ty' = g_type c \<and> i' = g_inputIndex c then Some items
            else waitCell (es_waiting st) nm' r' ty' i') = None \<longleftrightarrow>
          (if nm' = nm \<and> r' = k \<and> ty' = g_type c \<and> i' = g_inputIndex c
            then Some \<lparr>previousNode = n_name (g_from c), previousNodeOutput = Some (g_outputIndex c), previousNodeRun = Some k\<rparr>
            else waitCell (es_waitingSource st) nm' r' ty' i') = None) \<and>
        (\<forall>its s. (if nm' = nm \<and> r' = k \<and> ty' = g_type c \<and> i' = g_inputIndex c then Some items
            else waitCell (es_waiting st) nm' r' ty' i') = Some its \<and>
          (if nm' = nm \<and> r' = k \<and> ty' = g_type c \<and> i' = g_inputIndex c
            then Some \<lparr>previousNode = n_name (g_from c), previousNodeOutput = Some (g_outputIndex c), previousNodeRun = Some k\<rparr>
            else waitCell (es_waitingSource st) nm' r' ty' i') = Some s \<longrightarrow>
          (\<exists>c \<in> set (connectionValues g). \<exists>run. n_name (g_to c) = nm' \<and> g_type c = ty' \<and> g_inputIndex c = i' \<and>
            previousNode s = n_name (g_from c) \<and> previousNodeOutput s = Some (g_outputIndex c) \<and>
            getIncomingDataFromAnyRun rd (n_name (g_from c)) ty' (g_outputIndex c) = Inr (Some (its, run))))"
        by (cases "nm' = nm \<and> r' = k \<and> ty' = g_type c \<and> i' = g_inputIndex c") auto
    qed
    with d Some p show ?thesis by (simp add: waitIncoming_def)
  qed
qed

lemma waitIncoming_all:
  assumes rd: "run_data_typed g rd"
  shows "\<forall>c \<in> set cs. c \<in> set (connectionValues g) \<and> n_name (g_to c) = nm \<Longrightarrow>
    waiting_ok g rd (es_waiting st) (es_waitingSource st) \<Longrightarrow>
    \<exists>st'. efold (waitIncoming rd nm k) cs st = Inr st' \<and> es_stack st' = es_stack st \<and>
      waiting_ok g rd (es_waiting st') (es_waitingSource st')"
proof (induction cs arbitrary: st)
  case Nil
  then show ?case by simp
next
  case (Cons c cs)
  from waitIncoming_ok [OF rd _ _ Cons.prems(2), of c nm k] Cons.prems(1) obtain st1 where
    "waitIncoming rd nm k c st = Inr st1" "es_stack st1 = es_stack st"
    "waiting_ok g rd (es_waiting st1) (es_waitingSource st1)" by auto
  with Cons.IH [of st1] Cons.prems(1) show ?case by auto
qed

lemma stackGroup_ok:
  assumes rd: "run_data_typed g rd"
    and grp: "set (sg_connections grp) \<subseteq> {c \<in> set (connectionValues g). g_to c = n}"
      "group_ok (hasSourceData rd pin) grp"
    and w: "waiting_ok g rd (es_waiting st) (es_waitingSource st)"
  shows "\<exists>st'. stackGroup rd pin n grp st = Inr st' \<and>
    es_stack st' = es_stack st @ (if sg_complete grp then [entryOf rd pin n grp] else []) \<and>
    waiting_ok g rd (es_waiting st') (es_waitingSource st')"
proof (cases "sg_complete grp")
  case True
  with grp have "\<forall>c \<in> set (sg_connections grp). c \<in> set (connectionValues g) \<and> hasSourceData rd pin c"
    by (auto simp: group_ok_def)
  from pushIncoming_all [OF rd this, of "[]" "[]"] True w show ?thesis
    by (simp add: stackGroup_def entryOf_def)
next
  case False
  have "\<forall>c \<in> set (sg_connections grp). c \<in> set (connectionValues g) \<and> n_name (g_to c) = n_name n"
    using grp(1) by auto
  from waitIncoming_all [OF rd this w] False show ?thesis by (simp add: stackGroup_def)
qed

lemma getSourceDataGroups_members:
  "grp \<in> set (getSourceDataGroups cmp g n rd pin) \<Longrightarrow>
     set (sg_connections grp) \<subseteq> {c \<in> set (connectionValues g). g_to c = n} \<and> group_ok (hasSourceData rd pin) grp"
proof -
  assume grp: "grp \<in> set (getSourceDataGroups cmp g n rd pin)"
  note ok = getSourceDataGroups_ok [of cmp g n rd pin]
  from ok have "set (concat (map sg_connections (getSourceDataGroups cmp g n rd pin))) \<subseteq>
      {c \<in> set (connectionValues g). g_to c = n}"
    by (subst set_mset_mset [symmetric], subst conjunct1 [OF ok]) auto
  with grp ok show ?thesis by auto
qed

lemma stackStartNode_ok:
  assumes g: "dg_inv g" and rd: "run_data_typed g (rd :: 'i run_data)" and n: "nodeExists g n"
    and w: "waiting_ok g rd (es_waiting st) (es_waitingSource st)"
  shows "\<exists>st'. stackStartNode cmp emptyItem g rd pin n st = Inr st' \<and>
    es_stack st' = es_stack st @ entriesOf cmp emptyItem g rd pin n \<and>
    waiting_ok g rd (es_waiting st') (es_waitingSource st')"
proof -
  let ?ps = "filter (\<lambda>c. g_to c = n) (connectionValues g)"
  let ?gs = "getSourceDataGroups cmp g n rd pin"
  have ps: "getDirectParentConnections g n = Inr ?ps" using n by (simp add: getDirectParentConnections_def)
  show ?thesis
  proof (cases "filter (\<lambda>c. g_type c = Main) ?ps = []")
    case True
    then have "\<forall>c \<in> set (connectionValues g). g_to c = n \<longrightarrow> g_type c \<noteq> Main" by (auto simp: filter_empty_conv)
    with ps True w show ?thesis by (simp add: stackStartNode_def entriesOf_def)
  next
    case False
    then have ne: "\<not> (\<forall>c \<in> set (connectionValues g). g_to c = n \<longrightarrow> g_type c \<noteq> Main)"
      by (auto simp: filter_empty_conv)
    have "\<exists>st'. efold (stackGroup rd pin n) ?gs st = Inr st' \<and>
        es_stack st' = es_stack st @ map (entryOf rd pin n) (filter sg_complete ?gs) \<and>
        waiting_ok g rd (es_waiting st') (es_waitingSource st')"
    proof (rule efold_total_prefix [where P = "\<lambda>ys u. es_stack u = es_stack st @ map (entryOf rd pin n) (filter sg_complete ys) \<and>
        waiting_ok g rd (es_waiting u) (es_waitingSource u)"])
      show "es_stack st = es_stack st @ map (entryOf rd pin n) (filter sg_complete []) \<and>
        waiting_ok g rd (es_waiting st) (es_waitingSource st)" using w by simp
      fix ys grp zs and u :: "'i execution_stack"
      assume split: "?gs = ys @ grp # zs" and P: "es_stack u = es_stack st @ map (entryOf rd pin n) (filter sg_complete ys) \<and>
        waiting_ok g rd (es_waiting u) (es_waitingSource u)"
      have "grp \<in> set ?gs" using split by simp
      from getSourceDataGroups_members [OF this]
      have grp: "set (sg_connections grp) \<subseteq> {c \<in> set (connectionValues g). g_to c = n}"
        "group_ok (hasSourceData rd pin) grp" by blast+
      from stackGroup_ok [OF rd grp conjunct2 [OF P]] P
      show "\<exists>v. stackGroup rd pin n grp u = Inr v \<and>
          es_stack v = es_stack st @ map (entryOf rd pin n) (filter sg_complete (ys @ [grp])) \<and>
          waiting_ok g rd (es_waiting v) (es_waitingSource v)" by auto
    qed
    then obtain st' where "efold (stackGroup rd pin n) ?gs st = Inr st'"
      "es_stack st' = es_stack st @ map (entryOf rd pin n) (filter sg_complete ?gs)"
      "waiting_ok g rd (es_waiting st') (es_waitingSource st')" by blast
    moreover have "entriesOf cmp emptyItem g rd pin n = map (entryOf rd pin n) (filter sg_complete ?gs)"
      unfolding entriesOf_def if_not_P [OF ne] ..
    moreover have "stackStartNode cmp emptyItem g rd pin n st = efold (stackGroup rd pin n) ?gs st"
      unfolding stackStartNode_def ps ebind.simps if_not_P [OF False] ..
    ultimately show ?thesis by simp
  qed
qed

lemma recreateNodeExecutionStack_ok:
  assumes g: "dg_inv g" and rd: "run_data_typed g (rd :: 'i run_data)"
    and d: "\<forall>n. nodeExists g n \<longrightarrow> \<not> isDisabled n" and s: "\<forall>n \<in> set startNodes. nodeExists g n"
  shows "\<exists>st. recreateNodeExecutionStack cmp emptyItem g startNodes rd pin = Inr st \<and>
    es_stack st = concat (map (entriesOf cmp emptyItem g rd pin) startNodes) \<and>
    waiting_ok g rd (es_waiting st) (es_waitingSource st)"
proof -
  let ?init = "\<lparr>es_stack = [], es_waiting = [], es_waitingSource = []\<rparr>"
  let ?P = "\<lambda>ys u. es_stack u = concat (map (entriesOf cmp emptyItem g rd pin) ys) \<and>
    waiting_ok g rd (es_waiting u) (es_waitingSource u)"
  have "\<exists>st. efold (stackStartNode cmp emptyItem g rd pin) startNodes ?init = Inr st \<and> ?P startNodes st"
  proof (rule efold_total_prefix [where P = ?P])
    show "?P [] ?init" by (simp add: waiting_ok_def waitCell_def orElse_def)
    fix ys n zs and u :: "'i execution_stack"
    assume split: "startNodes = ys @ n # zs" and P: "?P ys u"
    have "nodeExists g n" using split s by simp
    from stackStartNode_ok [OF g rd this conjunct2 [OF P], of cmp emptyItem pin] P
    show "\<exists>v. stackStartNode cmp emptyItem g rd pin n u = Inr v \<and> ?P (ys @ [n]) v" by auto
  qed
  moreover have "\<not> list_ex (\<lambda>n. n_disabled n = Some True) (getNodes g)"
    using d by (auto simp: list_ex_iff nodeExists_iff [OF g] isDisabled_def)
  ultimately show ?thesis unfolding recreateNodeExecutionStack_def by simp
qed

section \<open>Properties\<close>

text \<open>
  \<open>getSourceDataGroups\<close> distributes the incoming connections (all \<open>main\<close> ones, and those of
  other types whose source has data) over groups, each connection exactly once. No group is
  empty, the input indices of a group are consecutive, one connection per input, and a group is
  marked complete exactly when every source in it has run data or pinned data. The loop always ends.
\<close>

lemma getSourceDataGroups_partition:
  "mset (concat (map sg_connections (getSourceDataGroups cmp g node rd pin))) =
     mset (filter (\<lambda>c. g_to c = node \<and> (hasSourceData rd pin c \<or> g_type c = Main)) (connectionValues g)) \<and>
   (\<forall>grp \<in> set (getSourceDataGroups cmp g node rd pin). sg_connections grp \<noteq> [] \<and>
      (sg_complete grp \<longleftrightarrow> (\<forall>c \<in> set (sg_connections grp). hasSourceData rd pin c)) \<and>
      (\<exists>s. map g_inputIndex (sg_connections grp) = [s..<s + length (sg_connections grp)]))"
  using getSourceDataGroups_ok [of cmp g node rd pin] by (auto simp: group_ok_def)

text \<open>The names \<open>A\<close> to \<open>D\<close> compared by their first character.\<close>

definition exCompare :: "string \<Rightarrow> string \<Rightarrow> int" where
  "exCompare a b = int (of_char (hd a)) - int (of_char (hd b))"

text \<open>\<open>A\<close> feeds input 0 of \<open>D\<close>, \<open>B\<close> and \<open>C\<close> feed input 1.\<close>

definition exJoin :: dgraph where
  "exJoin = fold setConnection [conn nodeA nodeD, (conn nodeB nodeD)\<lparr>g_inputIndex := 1\<rparr>,
      (conn nodeC nodeD)\<lparr>g_inputIndex := 1\<rparr>]
     (addNodes [nodeA, nodeB, nodeC, nodeD] newDirectedGraph)"

lemma dg_inv_exJoin [simp]: "dg_inv exJoin"
  by (simp add: dg_inv_def nodeExists_def exJoin_def ex_defs)

lemma getSourceDataGroups_partition_witness:
  "map (map (n_name \<circ> g_from) \<circ> sg_connections) (getSourceDataGroups exCompare exJoin nodeD
      [(''A'', [exRun [0 :: nat]]), (''B'', []), (''C'', [])] []) = [[''A'', ''B''], [''C'']] \<and>
   mset (concat (map sg_connections (getSourceDataGroups exCompare exJoin nodeD
      [(''A'', [exRun [0 :: nat]]), (''B'', []), (''C'', [])] []))) = mset (connectionValues exJoin)"
proof
  show "map (map (n_name \<circ> g_from) \<circ> sg_connections) (getSourceDataGroups exCompare exJoin nodeD
      [(''A'', [exRun [0 :: nat]]), (''B'', []), (''C'', [])] []) = [[''A'', ''B''], [''C'']]"
    by code_simp
  have "filter (\<lambda>c. g_to c = nodeD \<and> (hasSourceData [(''A'', [exRun [0 :: nat]]), (''B'', []), (''C'', [])] [] c \<or>
      g_type c = Main)) (connectionValues exJoin) = connectionValues exJoin" by code_simp
  then show "mset (concat (map sg_connections (getSourceDataGroups exCompare exJoin nodeD
      [(''A'', [exRun [0 :: nat]]), (''B'', []), (''C'', [])] []))) = mset (connectionValues exJoin)"
    using getSourceDataGroups_partition [of exCompare exJoin nodeD "[(''A'', [exRun [0 :: nat]]), (''B'', []), (''C'', [])]" "[]"]
    by simp
qed

text \<open>
  C6: \<open>recreateNodeExecutionStack\<close> on a well-formed graph without disabled nodes and with typed
  run data returns. The stack holds, start node by start node, one entry per complete group of
  its sources (or one entry with a single empty item when nothing leads to it), and the two waiting
  tables hold data and source at the same places, each the output of a connection into the node.
\<close>

theorem recreateNodeExecutionStack_exact:
  assumes "dg_inv g" "run_data_typed g rd" "\<forall>n. nodeExists g n \<longrightarrow> \<not> isDisabled n"
    and "\<forall>n \<in> set startNodes. nodeExists g n"
  shows "\<exists>st. recreateNodeExecutionStack cmp emptyItem g startNodes rd pin = Inr st \<and>
    es_stack st = concat (map (entriesOf cmp emptyItem g rd pin) startNodes) \<and>
    waiting_ok g rd (es_waiting st) (es_waitingSource st)"
  using assms by (rule recreateNodeExecutionStack_ok)

lemma run_data_typed_exJoin:
  "run_data_typed exJoin [(''A'', [exRun [0 :: nat]]), (''B'', [exRun [1]]), (''C'', [exRun [2]])]"
proof -
  have "connectionValues exJoin = [conn nodeA nodeD, (conn nodeB nodeD)\<lparr>g_inputIndex := 1\<rparr>,
      (conn nodeC nodeD)\<lparr>g_inputIndex := 1\<rparr>]" by code_simp
  then show ?thesis by (auto simp: run_data_typed_def exRun_def conn_def)
qed

lemma recreateNodeExecutionStack_exact_witness:
  "\<exists>st. recreateNodeExecutionStack exCompare (9 :: nat) exJoin [nodeD]
       [(''A'', [exRun [0]]), (''B'', [exRun [1]]), (''C'', [exRun [2]])] [] = Inr st \<and>
     map e_data (es_stack st) = [[(Main, [Some [0], Some [1]])], [(Main, [Some [2]])]]"
proof -
  have nodes: "getNodes exJoin = [nodeA, nodeB, nodeC, nodeD]" by code_simp
  have "\<not> isDisabled nodeA" "\<not> isDisabled nodeB" "\<not> isDisabled nodeC" "\<not> isDisabled nodeD" by code_simp+
  then have d: "\<forall>n. nodeExists exJoin n \<longrightarrow> \<not> isDisabled n" by (auto simp: nodeExists_iff nodes)
  have s: "\<forall>n \<in> set [nodeD]. nodeExists exJoin n" by code_simp
  have "map e_data (concat (map (entriesOf exCompare (9 :: nat) exJoin
      [(''A'', [exRun [0]]), (''B'', [exRun [1]]), (''C'', [exRun [2]])] []) [nodeD])) =
      [[(Main, [Some [0], Some [1]])], [(Main, [Some [2]])]]" by code_simp
  with recreateNodeExecutionStack_exact [OF dg_inv_exJoin run_data_typed_exJoin d s, of exCompare 9 "[]"]
  show ?thesis by metis
qed

text \<open>
  The data of a complete group goes to the inputs from 0 on, whatever input its connections
  lead to: with two sources on input 1 the second one is handed to the node on input 0.
\<close>

lemma recreate_shifts_input:
  "\<exists>g rd st e. dg_inv g \<and> recreateNodeExecutionStack exCompare (9 :: nat) g [nodeD] rd [] = Inr st \<and>
     e \<in> set (es_stack st) \<and> e_data e = [(Main, [Some [2]])] \<and>
     map_of rd ''C'' = Some [exRun [2]] \<and>
     filter (\<lambda>c. n_name (g_from c) = ''C'') (connectionValues g) = [(conn nodeC nodeD)\<lparr>g_inputIndex := 1\<rparr>]"
proof -
  let ?rd = "[(''A'', [exRun [0]]), (''B'', [exRun [1]]), (''C'', [exRun [2 :: nat]])]"
  let ?st = "projr (recreateNodeExecutionStack exCompare (9 :: nat) exJoin [nodeD] ?rd [])"
  have "recreateNodeExecutionStack exCompare (9 :: nat) exJoin [nodeD] ?rd [] = Inr ?st" by code_simp
  moreover have "es_stack ?st ! 1 \<in> set (es_stack ?st)"
    by (rule nth_mem) code_simp
  moreover have "e_data (es_stack ?st ! 1) = [(Main, [Some [2]])]" "map_of ?rd ''C'' = Some [exRun [2]]"
    "filter (\<lambda>c. n_name (g_from c) = ''C'') (connectionValues exJoin) = [(conn nodeC nodeD)\<lparr>g_inputIndex := 1\<rparr>]"
    by code_simp+
  ultimately show ?thesis using dg_inv_exJoin by blast
qed

text \<open>
  In an incomplete group, pinned data is not used: a pinned source of a node that also has a
  source without data leaves no trace, neither on the stack nor in the waiting tables.
\<close>

lemma recreate_drops_pinned_data:
  "\<exists>g. dg_inv g \<and> conn nodeA nodeD \<in> set (connectionValues g) \<and>
     recreateNodeExecutionStack exCompare (9 :: nat) g [nodeD] [] [(''A'', [1])] =
       Inr \<lparr>es_stack = [], es_waiting = [], es_waitingSource = []\<rparr>"
proof (intro exI conjI)
  show "conn nodeA nodeD \<in> set (connectionValues exJoin)" by code_simp
  show "recreateNodeExecutionStack exCompare (9 :: nat) exJoin [nodeD] [] [(''A'', [1])] =
       Inr \<lparr>es_stack = [], es_waiting = [], es_waitingSource = []\<rparr>" by code_simp
qed simp

end
