(* ===== verification/Connections.thy ===== *)
theory Connections
  imports ExecutionStack
begin

text \<open>
  Connection tables: the helpers of \<open>packages/workflow/src/common\<close>. \<open>flatTable\<close> lists the entries of
  a table in the order of the sources' nested loops. The traversal \<open>getConnectedNodes\<close> keeps a list of
  checked nodes per path, so its depth is at most the number of keys of the table plus one, the
  fuel given.
\<close>

section \<open>The table by destination\<close>

text \<open>
  One connection entered under its destination. The list of the input is first filled up with
  empty lists to the index (\<open>push([])\<close>), so the optional \<open>push\<close> always finds a list.
\<close>

definition addByDestination ::
  "string \<times> node_connection_type \<times> nat \<times> iconnection \<Rightarrow> iconnections \<Rightarrow> iconnections" where
  "addByDestination = (\<lambda>(sourceNode, ty, oi, c) ret.
     let rc = orElse (map_of ret (c_node c)) [];
         ins = orElse (map_of rc (c_type c)) [];
         filled = ins @ replicate (Suc (c_index c) - length ins) (Some []);
         new = \<lparr>c_node = sourceNode, c_type = ty, c_index = oi\<rparr>
     in AList.update (c_node c)
          (AList.update (c_type c)
             (filled[c_index c := map_option (\<lambda>l. l @ [new]) (filled ! c_index c)]) rc) ret)"

definition mapConnectionsByDestination :: "iconnections \<Rightarrow> iconnections" where
  "mapConnectionsByDestination conns = fold addByDestination (flatTable conns) []"

section \<open>Connected nodes\<close>

datatype connection_filter = OfType node_connection_type | AllTypes | AllNonMain

fun filterTypes :: "connection_filter \<Rightarrow> inode_connections \<Rightarrow> node_connection_type list" where
  "filterTypes AllTypes rc = map fst rc"
| "filterTypes AllNonMain rc = filter (\<lambda>t. t \<noteq> Main) (map fst rc)"
| "filterTypes (OfType t) rc = [t]"

text \<open>All connections of one type, the \<open>null\<close> entries skipped.\<close>

definition allConnections :: "node_input_connections \<Rightarrow> iconnection list" where
  "allConnections outs = concat (map (\<lambda>cs. case cs of Some l \<Rightarrow> l | None \<Rightarrow> []) outs)"

text \<open>
  The loop over \<open>addNodes\<close> from its end: a node found before is moved to the front.
\<close>

definition moveToFront :: "string list \<Rightarrow> string list \<Rightarrow> string list" where
  "moveToFront found returnNodes = fold (\<lambda>p ret. p # remove1 p ret) (rev found) returnNodes"

fun getConnectedNodesFrom ::
  "iconnections \<Rightarrow> connection_filter \<Rightarrow> nat \<Rightarrow> string \<Rightarrow> int \<Rightarrow> string list \<Rightarrow> string list result" where
  "getConnectedNodesFrom conns flt 0 nm depth checked = Inl OutOfFuel"
| "getConnectedNodesFrom conns flt (Suc f) nm depth checked =
     (let newDepth = (if depth = - 1 then depth else depth - 1)
      in if depth = 0 then Inr []
         else case map_of conns nm of None \<Rightarrow> Inr []
           | Some rc \<Rightarrow>
               efold (\<lambda>ty ret. case map_of rc ty of None \<Rightarrow> Inr ret
                  | Some outs \<Rightarrow>
                      if nm \<in> set checked then Inr ret
                      else efold (\<lambda>c ret.
                             if c_node c \<in> set (checked @ [nm]) then Inr ret
                             else ebind (getConnectedNodesFrom conns flt f (c_node c) newDepth (checked @ [nm]))
                                    (\<lambda>found. Inr (moveToFront found (c_node c # ret))))
                           (allConnections outs) ret)
                 (filterTypes flt rc) [])"

definition getConnectedNodes ::
  "iconnections \<Rightarrow> string \<Rightarrow> connection_filter \<Rightarrow> int \<Rightarrow> string list result" where
  "getConnectedNodes conns nm flt depth = getConnectedNodesFrom conns flt (Suc (Suc (length conns))) nm depth []"

definition getChildNodes :: "'i workflow \<Rightarrow> string \<Rightarrow> connection_filter \<Rightarrow> int \<Rightarrow> string list result" where
  "getChildNodes w = getConnectedNodes (w_connectionsBySourceNode w)"

definition getParentNodes :: "'i workflow \<Rightarrow> string \<Rightarrow> connection_filter \<Rightarrow> int \<Rightarrow> string list result" where
  "getParentNodes w = getConnectedNodes (w_connectionsByDestinationNode w)"

definition getNodeByName :: "inode list \<Rightarrow> string \<Rightarrow> inode option" where
  "getNodeByName nodes nm = find (\<lambda>n. n_name n = nm) nodes"

section \<open>The table by destination: lemmas\<close>

definition keys_distinct :: "iconnections \<Rightarrow> bool" where
  "keys_distinct t \<longleftrightarrow> distinct (map fst t) \<and> (\<forall>(nm, rc) \<in> set t. distinct (map fst rc))"

definition cellAt :: "iconnections \<Rightarrow> string \<Rightarrow> node_connection_type \<Rightarrow> nat \<Rightarrow> iconnection set" where
  "cellAt t nm ty i = cell (orElse (map_of (orElse (map_of t nm) []) ty) []) i"

lemma cell_Nil [simp]: "cell [] i = {}"
  by (simp add: cell_def)

lemma flatTable_cellAt:
  assumes "keys_distinct t"
  shows "(nm, ty, i, c) \<in> set (flatTable t) \<longleftrightarrow> c \<in> cellAt t nm ty i"
proof
  assume "(nm, ty, i, c) \<in> set (flatTable t)"
  then obtain rc outs where "(nm, rc) \<in> set t" "(ty, outs) \<in> set rc" "c \<in> cell outs i"
    by (auto simp: set_flatTable)
  moreover from this assms have "map_of t nm = Some rc" "map_of rc ty = Some outs"
    by (auto simp: keys_distinct_def)
  ultimately show "c \<in> cellAt t nm ty i" by (simp add: cellAt_def)
next
  assume "c \<in> cellAt t nm ty i"
  then obtain rc outs where "map_of t nm = Some rc" "map_of rc ty = Some outs" "c \<in> cell outs i"
    unfolding cellAt_def by (cases "map_of t nm"; cases "map_of (orElse (map_of t nm) []) ty") auto
  then show "(nm, ty, i, c) \<in> set (flatTable t)"
    by (auto simp: set_flatTable dest!: map_of_SomeD)
qed

lemma cell_append_empty: "cell (ins @ replicate n (Some [])) = cell ins"
  by (intro ext) (auto simp: cell_def js_get_def nth_append split: if_splits)

lemma cell_list_update:
  "k < length xs \<Longrightarrow> xs ! k = Some l \<Longrightarrow> cell (xs[k := Some (l @ [new])]) = (cell xs)(k := insert new (cell xs k))"
  by (intro ext) (auto simp: cell_def js_get_def nth_list_update split: if_splits)

text \<open>What the nested loops keep: unique keys, lists without holes, and the entries seen so far.\<close>

definition no_holes :: "iconnections \<Rightarrow> bool" where
  "no_holes t \<longleftrightarrow> (\<forall>(nm, rc) \<in> set t. \<forall>(ty, ins) \<in> set rc. None \<notin> set ins)"

lemma no_holes_get:
  assumes "no_holes t"
  shows "None \<notin> set (orElse (map_of (orElse (map_of t nm) []) ty) [])"
proof (cases "map_of t nm")
  case None
  then show ?thesis by simp
next
  case (Some rc)
  show ?thesis
  proof (cases "map_of rc ty")
    case None
    with Some show ?thesis by simp
  next
    case (Some ins)
    from map_of_SomeD [OF \<open>map_of t nm = Some rc\<close>] map_of_SomeD [OF Some] assms have "None \<notin> set ins"
      unfolding no_holes_def by blast
    with Some \<open>map_of t nm = Some rc\<close> show ?thesis by simp
  qed
qed

lemma keys_distinct_update:
  assumes "keys_distinct t"
  shows "keys_distinct (AList.update nm (AList.update ty ins (orElse (map_of t nm) [])) t)"
proof -
  have "distinct (map fst (orElse (map_of t nm) []))"
    using assms by (cases "map_of t nm") (auto simp: keys_distinct_def dest!: map_of_SomeD)
  then show ?thesis
    using assms by (auto simp: keys_distinct_def distinct_update set_AList_update)
qed

lemma no_holes_update:
  assumes "keys_distinct t" "no_holes t" "None \<notin> set ins"
  shows "no_holes (AList.update nm (AList.update ty ins (orElse (map_of t nm) [])) t)"
proof -
  have "distinct (map fst (orElse (map_of t nm) []))"
    using assms(1) by (cases "map_of t nm") (auto simp: keys_distinct_def dest!: map_of_SomeD)
  moreover have "(ty', ins') \<in> set (orElse (map_of t nm) []) \<Longrightarrow> None \<notin> set ins'" for ty' ins'
    using assms(2) by (cases "map_of t nm") (auto simp: no_holes_def dest!: map_of_SomeD)
  ultimately show ?thesis
    using assms by (auto simp: no_holes_def keys_distinct_def set_AList_update)
qed

lemma addByDestination_ok:
  assumes t: "keys_distinct t" "no_holes t"
  shows "keys_distinct (addByDestination (src, ty, oi, c) t) \<and> no_holes (addByDestination (src, ty, oi, c) t) \<and>
    cellAt (addByDestination (src, ty, oi, c) t) nm ty' i =
      cellAt t nm ty' i \<union> (if nm = c_node c \<and> ty' = c_type c \<and> i = c_index c
        then {\<lparr>c_node = src, c_type = ty, c_index = oi\<rparr>} else {})"
proof -
  let ?rc = "orElse (map_of t (c_node c)) []"
  let ?ins = "orElse (map_of ?rc (c_type c)) []"
  let ?f = "?ins @ replicate (Suc (c_index c) - length ?ins) (Some [])"
  let ?new = "\<lparr>c_node = src, c_type = ty, c_index = oi\<rparr>"
  have k: "c_index c < length ?f" by simp
  have f: "None \<notin> set ?f" using no_holes_get [OF t(2)] by auto
  have "?f ! c_index c \<noteq> None" using nth_mem [OF k] f by metis
  then obtain l where l: "?f ! c_index c = Some l" by blast
  let ?upd = "?f[c_index c := Some (l @ [?new])]"
  have upd: "None \<notin> set ?upd" using f set_update_subset_insert [of ?f] by fastforce
  have eq: "addByDestination (src, ty, oi, c) t =
      AList.update (c_node c) (AList.update (c_type c) ?upd ?rc) t"
    by (simp add: addByDestination_def Let_def l)
  have "cell ?upd = (cell ?ins)(c_index c := insert ?new (cell ?ins (c_index c)))"
    unfolding cell_list_update [OF k l] cell_append_empty ..
  then have "cellAt (AList.update (c_node c) (AList.update (c_type c) ?upd ?rc) t) nm ty' i =
      cellAt t nm ty' i \<union> (if nm = c_node c \<and> ty' = c_type c \<and> i = c_index c then {?new} else {})"
    by (simp add: cellAt_def)
  with keys_distinct_update [OF t(1)] no_holes_update [OF t upd] show ?thesis
    unfolding eq by blast
qed

lemma mapConnectionsByDestination_ok:
  "keys_distinct (mapConnectionsByDestination t) \<and>
   ((dst, ty', i, x) \<in> set (flatTable (mapConnectionsByDestination t)) \<longleftrightarrow>
      (c_node x, c_type x, c_index x, \<lparr>c_node = dst, c_type = ty', c_index = i\<rparr>) \<in> set (flatTable t))"
proof -
  have inv: "keys_distinct (fold addByDestination es []) \<and> no_holes (fold addByDestination es []) \<and>
      (\<forall>nm ty' i. cellAt (fold addByDestination es []) nm ty' i =
         {\<lparr>c_node = src, c_type = ty, c_index = oi\<rparr> | src ty oi.
            (src, ty, oi, \<lparr>c_node = nm, c_type = ty', c_index = i\<rparr>) \<in> set es})" for es
  proof (induction es rule: rev_induct)
    case Nil
    then show ?case by (simp add: keys_distinct_def no_holes_def cellAt_def)
  next
    case (snoc e es)
    obtain src ty oi c where e: "e = (src, ty, oi, c)" by (cases e)
    note ok = addByDestination_ok [of "fold addByDestination es []" src ty oi c]
    have c: "c = \<lparr>c_node = nm, c_type = ty', c_index = i\<rparr> \<longleftrightarrow> nm = c_node c \<and> ty' = c_type c \<and> i = c_index c" for nm ty' i
      by (cases c) auto
    show ?case using snoc.IH ok by (auto simp: e c)
  qed
  let ?m = "mapConnectionsByDestination t"
  have m: "keys_distinct ?m" "cellAt ?m dst ty' i = {\<lparr>c_node = src, c_type = ty, c_index = oi\<rparr> | src ty oi.
            (src, ty, oi, \<lparr>c_node = dst, c_type = ty', c_index = i\<rparr>) \<in> set (flatTable t)}"
    using inv [of "flatTable t"] by (simp_all add: mapConnectionsByDestination_def)
  have "x \<in> cellAt ?m dst ty' i \<longleftrightarrow>
      (c_node x, c_type x, c_index x, \<lparr>c_node = dst, c_type = ty', c_index = i\<rparr>) \<in> set (flatTable t)"
    unfolding m(2) by (cases x) auto
  with m(1) show ?thesis by (simp add: flatTable_cellAt)
qed

section \<open>Connected nodes: lemmas\<close>

definition conn_rel :: "iconnections \<Rightarrow> connection_filter \<Rightarrow> (string \<times> string) set" where
  "conn_rel conns flt = {(a, c_node c) | a c rc ty outs. map_of conns a = Some rc \<and> ty \<in> set (filterTypes flt rc) \<and>
     map_of rc ty = Some outs \<and> c \<in> set (allConnections outs)}"

definition avoiding :: "('n \<times> 'n) set \<Rightarrow> 'n set \<Rightarrow> 'n \<Rightarrow> 'n set" where
  "avoiding R S n = {x. x \<noteq> n \<and> x \<notin> S \<and> (n, x) \<in> {(p, q) \<in> R. q \<notin> S}\<^sup>+}"

lemma avoiding_step:
  assumes "n \<notin> S"
  shows "avoiding R S n = (\<Union>b \<in> {b. (n, b) \<in> R \<and> b \<notin> insert n S}. insert b (avoiding R (insert n S) b))"
proof (intro equalityI subsetI)
  let ?R = "{(p, q) \<in> R. q \<notin> S}"
  fix x assume x: "x \<in> avoiding R S n"
  then have "(n, x) \<in> ?R\<^sup>*" "x \<noteq> n" "x \<notin> S" by (auto simp: avoiding_def)
  from rtrancl_last_visit [OF this(1,2)] obtain b where
    b: "(n, b) \<in> ?R" "(b, x) \<in> {(p, q) \<in> ?R. p \<noteq> n}\<^sup>*" by blast
  have "b \<noteq> n"
  proof
    assume "b = n"
    from b(2) this \<open>x \<noteq> n\<close> show False by (cases rule: converse_rtranclE) auto
  qed
  moreover have "(b, y) \<in> {(p, q) \<in> R. q \<notin> insert n S}\<^sup>* \<or> y = n" if "(b, y) \<in> {(p, q) \<in> ?R. p \<noteq> n}\<^sup>*" for y
    using that
  proof (induction rule: rtrancl_induct)
    case base
    then show ?case by simp
  next
    case (step y z)
    then have yz: "(b, y) \<in> {(p, q) \<in> R. q \<notin> insert n S}\<^sup>*" "(y, z) \<in> R" "z \<notin> S" by auto
    show ?case
    proof (cases "z = n")
      case False
      with yz have "(y, z) \<in> {(p, q) \<in> R. q \<notin> insert n S}" by simp
      with yz(1) show ?thesis by (blast intro: rtrancl_into_rtrancl)
    qed simp
  qed
  from this [OF b(2)] \<open>x \<noteq> n\<close> have "(b, x) \<in> {(p, q) \<in> R. q \<notin> insert n S}\<^sup>*" by blast
  then have "x = b \<or> x \<in> avoiding R (insert n S) b"
    using \<open>x \<noteq> n\<close> \<open>x \<notin> S\<close> by (auto simp: avoiding_def rtrancl_eq_or_trancl)
  ultimately show "x \<in> (\<Union>b \<in> {b. (n, b) \<in> R \<and> b \<notin> insert n S}. insert b (avoiding R (insert n S) b))"
    using b(1) by auto
next
  fix x assume "x \<in> (\<Union>b \<in> {b. (n, b) \<in> R \<and> b \<notin> insert n S}. insert b (avoiding R (insert n S) b))"
  then obtain b where b: "(n, b) \<in> R" "b \<notin> insert n S" "x = b \<or> x \<in> avoiding R (insert n S) b" by auto
  then have nb: "(n, b) \<in> {(p, q) \<in> R. q \<notin> S}" by simp
  from b(3) show "x \<in> avoiding R S n"
  proof
    assume "x = b"
    with b nb show ?thesis by (auto simp: avoiding_def)
  next
    assume x: "x \<in> avoiding R (insert n S) b"
    have "{(p, q) \<in> R. q \<notin> insert n S} \<subseteq> {(p, q) \<in> R. q \<notin> S}" by auto
    from trancl_mono_subset [OF this] x have "(b, x) \<in> {(p, q) \<in> R. q \<notin> S}\<^sup>+" by (auto simp: avoiding_def)
    with nb have "(n, x) \<in> {(p, q) \<in> R. q \<notin> S}\<^sup>+" by (rule trancl_into_trancl2)
    with x show ?thesis by (auto simp: avoiding_def)
  qed
qed

lemma avoiding_no_succ: "(\<And>b. (n, b) \<notin> R) \<Longrightarrow> avoiding R S n = {}"
  by (auto simp: avoiding_def dest: tranclD)

lemma set_moveToFront [simp]: "set (moveToFront found ret) = set found \<union> set ret"
proof -
  have "set (fold (\<lambda>p ret. p # remove1 p ret) ps ret) = set ps \<union> set ret" for ps and ret :: "string list"
  proof (induction ps arbitrary: ret)
    case Nil
    then show ?case by simp
  next
    case (Cons p ps)
    have "set (p # remove1 p ret) = insert p (set ret)"
      using set_remove1_subset [of p ret] by (auto simp: in_set_remove1) (metis in_set_remove1)
    with Cons show ?case by simp
  qed
  then show ?thesis by (simp add: moveToFront_def)
qed

lemma UN_case_option:
  "x \<in> (\<Union>k \<in> K. case m k of None \<Rightarrow> {} | Some v \<Rightarrow> H v) \<longleftrightarrow> (\<exists>k \<in> K. \<exists>v. m k = Some v \<and> x \<in> H v)"
proof -
  have "x \<in> (case m k of None \<Rightarrow> {} | Some v \<Rightarrow> H v) \<longleftrightarrow> (\<exists>v. m k = Some v \<and> x \<in> H v)" for k
    by (cases "m k") auto
  then show ?thesis by blast
qed

lemma getConnectedNodesFrom_ok:
  "nm \<notin> set checked \<Longrightarrow> card (fst ` set conns - set checked) < f \<Longrightarrow>
   \<exists>r. getConnectedNodesFrom conns flt f nm (- 1) checked = Inr r \<and>
     set r = avoiding (conn_rel conns flt) (set checked) nm"
proof (induction f arbitrary: nm checked)
  case 0
  then show ?case by simp
next
  case (Suc f)
  let ?R = "conn_rel conns flt" and ?S = "insert nm (set checked)"
  show ?case
  proof (cases "map_of conns nm")
    case None
    then have "\<And>b. (nm, b) \<notin> ?R" by (auto simp: conn_rel_def)
    from avoiding_no_succ [OF this] None show ?thesis by simp
  next
    case (Some rc)
    let ?inner = "\<lambda>c ret. if c_node c \<in> set (checked @ [nm]) then Inr ret
        else ebind (getConnectedNodesFrom conns flt f (c_node c) (- 1) (checked @ [nm]))
               (\<lambda>found. Inr (moveToFront found (c_node c # ret)))"
    let ?outer = "\<lambda>ty ret. case map_of rc ty of None \<Rightarrow> Inr ret
        | Some outs \<Rightarrow> if nm \<in> set checked then Inr ret else efold ?inner (allConnections outs) ret"
    let ?F = "\<lambda>cs. \<Union>b \<in> {b \<in> c_node ` set cs. b \<notin> ?S}. insert b (avoiding ?R ?S b)"
    have "nm \<in> fst ` set conns" using Some by (force dest: map_of_SomeD)
    with Suc.prems have "card (fst ` set conns - set (checked @ [nm])) < card (fst ` set conns - set checked)"
      by (intro psubset_card_mono) auto
    with Suc.prems have card: "card (fst ` set conns - set (checked @ [nm])) < f" by simp
    have inner: "\<exists>r. efold ?inner cs ret = Inr r \<and> set r = set ret \<union> ?F cs" for cs ret
    proof (rule efold_total_prefix [where P = "\<lambda>ys r. set r = set ret \<union> ?F ys"])
      show "set ret = set ret \<union> ?F []" by simp
      fix ys c zs u
      assume u: "set u = set ret \<union> ?F ys"
      show "\<exists>v. ?inner c u = Inr v \<and> set v = set ret \<union> ?F (ys @ [c])"
      proof (cases "c_node c \<in> set (checked @ [nm])")
        case True
        with u show ?thesis by auto
      next
        case False
        from Suc.IH [OF False card] obtain r where
          "getConnectedNodesFrom conns flt f (c_node c) (- 1) (checked @ [nm]) = Inr r"
          "set r = avoiding ?R ?S (c_node c)" by auto
        with u False show ?thesis by auto
      qed
    qed
    let ?G = "\<lambda>tys. \<Union>ty \<in> set tys. case map_of rc ty of None \<Rightarrow> {} | Some outs \<Rightarrow> ?F (allConnections outs)"
    have outer: "\<exists>r. efold ?outer tys [] = Inr r \<and> set r = ?G tys" for tys
    proof (rule efold_total_prefix [where P = "\<lambda>ys r. set r = ?G ys"])
      show "set [] = ?G []" by simp
      fix ys ty zs u
      assume u: "set u = ?G ys"
      show "\<exists>v. ?outer ty u = Inr v \<and> set v = ?G (ys @ [ty])"
      proof (cases "map_of rc ty")
        case None
        with u show ?thesis by simp
      next
        case (Some outs)
        from inner [of "allConnections outs" u] obtain r where
          "efold ?inner (allConnections outs) u = Inr r" "set r = set u \<union> ?F (allConnections outs)" by blast
        with u Some Suc.prems(1) show ?thesis by (intro exI [of _ r]) auto
      qed
    qed
    from outer [of "filterTypes flt rc"] obtain r where
      r: "efold ?outer (filterTypes flt rc) [] = Inr r" "set r = ?G (filterTypes flt rc)" by blast
    have "?G (filterTypes flt rc) = avoiding ?R (set checked) nm"
    proof -
      have R: "(nm, b) \<in> ?R \<longleftrightarrow> (\<exists>ty outs c. ty \<in> set (filterTypes flt rc) \<and> map_of rc ty = Some outs \<and>
          c \<in> set (allConnections outs) \<and> b = c_node c)" for b
        using Some unfolding conn_rel_def by auto
      have A: "x \<in> ?G (filterTypes flt rc) \<longleftrightarrow> (\<exists>ty outs c. ty \<in> set (filterTypes flt rc) \<and> map_of rc ty = Some outs \<and>
          c \<in> set (allConnections outs) \<and> c_node c \<notin> ?S \<and> (x = c_node c \<or> x \<in> avoiding ?R ?S (c_node c)))" for x
        unfolding UN_case_option by fast
      have B: "x \<in> avoiding ?R (set checked) nm \<longleftrightarrow>
          (\<exists>b. (nm, b) \<in> ?R \<and> b \<notin> ?S \<and> (x = b \<or> x \<in> avoiding ?R ?S b))" for x
        unfolding avoiding_step [OF Suc.prems(1)] by fast
      show ?thesis
      proof (rule set_eqI)
        fix x
        show "x \<in> ?G (filterTypes flt rc) \<longleftrightarrow> x \<in> avoiding ?R (set checked) nm"
          unfolding A B R by fast
      qed
    qed
    moreover have "getConnectedNodesFrom conns flt (Suc f) nm (- 1) checked = Inr r"
      using Some r(1) by (simp add: Let_def cong: if_cong)
    ultimately show ?thesis using r(2) by auto
  qed
qed

lemma getConnectedNodes_ok:
  "\<exists>r. getConnectedNodes conns nm flt (- 1) = Inr r \<and> set r = {m. m \<noteq> nm \<and> (nm, m) \<in> (conn_rel conns flt)\<^sup>+}"
proof -
  have "card (fst ` set conns - set []) < Suc (Suc (length conns))"
    using card_image_le [of "set conns" fst] card_length [of conns] by simp
  from getConnectedNodesFrom_ok [of nm "[]", OF _ this, of flt] obtain r where
    "getConnectedNodesFrom conns flt (Suc (Suc (length conns))) nm (- 1) [] = Inr r"
    "set r = avoiding (conn_rel conns flt) {} nm" by auto
  then show ?thesis
    by (simp add: getConnectedNodes_def avoiding_def del: getConnectedNodesFrom.simps)
qed

section \<open>Properties\<close>

text \<open>
  \<open>mapConnectionsByDestination\<close> inverts a connection table: it has a connection from input
  \<open>i\<close> of type \<open>ty'\<close> of \<open>dst\<close> back to \<open>x\<close> exactly when the given table has the connection from
  the output \<open>x\<close> names to that input, and its keys are unique.
\<close>

lemma mapConnectionsByDestination_inverts:
  "keys_distinct (mapConnectionsByDestination t) \<and>
   ((dst, ty', i, x) \<in> set (flatTable (mapConnectionsByDestination t)) \<longleftrightarrow>
      (c_node x, c_type x, c_index x, \<lparr>c_node = dst, c_type = ty', c_index = i\<rparr>) \<in> set (flatTable t))"
  by (rule mapConnectionsByDestination_ok)

text \<open>
  \<open>getConnectedNodes\<close> without a depth limit returns, and finds exactly the other nodes that
  can be reached over connections of the chosen types.
\<close>

lemma getConnectedNodes_reachable:
  "\<exists>r. getConnectedNodes conns nm flt (- 1) = Inr r \<and> set r = {m. m \<noteq> nm \<and> (nm, m) \<in> (conn_rel conns flt)\<^sup>+}"
  by (rule getConnectedNodes_ok)

text \<open>
  The result can hold a node twice: a node that was found below an earlier connection and is
  then met as a direct connection is added again.
\<close>

theorem getConnectedNodes_duplicates:
  "\<exists>conns r. getConnectedNodes conns ''A'' (OfType Main) (- 1) = Inr r \<and> \<not> distinct r"
proof (intro exI conjI)
  let ?c = "\<lambda>n. \<lparr>c_node = n, c_type = Main, c_index = 0\<rparr>"
  show "getConnectedNodes [(''A'', [(Main, [Some [?c ''B'', ?c ''C'']])]), (''B'', [(Main, [Some [?c ''C'']])])]
      ''A'' (OfType Main) (- 1) = Inr [''C'', ''C'', ''B'']" by code_simp
  show "\<not> distinct [''C'', ''C'', ''B'']" by simp
qed

end
