(* ===== verification/WorkflowGraph.thy ===== *)
theory WorkflowGraph
  imports Connections
begin

text \<open>
  The graph queries of \<open>class Workflow\<close> (\<open>packages/workflow/src/workflow.ts\<close>) and the trigger
  selection of a partial execution. A \<open>while\<close> loop over a queue is a \<open>function\<close> with a
  termination proof; the recursion \<open>getHighestNode\<close>, whose list of checked nodes is shared by
  all calls, passes that list on as state and gets the number of nodes as fuel.
\<close>

section \<open>The tables of a workflow\<close>

definition setNodes :: "inode list \<Rightarrow> 'i workflow \<Rightarrow> 'i workflow" where
  "setNodes nodes w = w\<lparr>w_nodes := fold (\<lambda>n al. AList.update (n_name n) n al) nodes []\<rparr>"

definition setConnections :: "iconnections \<Rightarrow> 'i workflow \<Rightarrow> 'i workflow" where
  "setConnections conns w =
     w\<lparr>w_connectionsBySourceNode := conns,
       w_connectionsByDestinationNode := mapConnectionsByDestination conns\<rparr>"

definition queryNodes :: "(node_type \<Rightarrow> bool) \<Rightarrow> 'i workflow \<Rightarrow> inode list" where
  "queryNodes check w =
     filter (\<lambda>n. n_disabled n \<noteq> Some True \<and>
         (case w_nodeTypes w (n_type n) (n_typeVersion n) of None \<Rightarrow> False | Some t \<Rightarrow> check t))
       (map snd (w_nodes w))"

definition getTriggerNodes :: "'i workflow \<Rightarrow> inode list" where
  "getTriggerNodes w = queryNodes nt_trigger w"

definition getPollNodes :: "'i workflow \<Rightarrow> inode list" where
  "getPollNodes w = queryNodes nt_poll w"

definition wf_getNodes :: "'i workflow \<Rightarrow> string list \<Rightarrow> inode list" where
  "wf_getNodes w names = List.map_filter (wf_getNode w) names"

definition getPinDataOfNode :: "'i workflow \<Rightarrow> string \<Rightarrow> 'i list option" where
  "getPinDataOfNode w nm = (case w_pinData w of None \<Rightarrow> None | Some p \<Rightarrow> map_of p nm)"

section \<open>Renaming a node\<close>

definition toLowerCase :: "string \<Rightarrow> string" where
  "toLowerCase s = map (\<lambda>c. let k = (of_char c :: nat) in if 65 \<le> k \<and> k \<le> 90 then char_of (k + 32) else c) s"

definition restrictedKeys :: "string list" where
  "restrictedKeys = [''hasOwnProperty'', ''isPrototypeOf'', ''propertyIsEnumerable'', ''toLocaleString'',
     ''toString'', ''valueOf'', ''constructor'', ''prototype'', ''__proto__'', ''__defineGetter__'',
     ''__defineSetter__'', ''__lookupGetter__'', ''__lookupSetter__'']"

text \<open>An object's key moved: \<open>al[new] = al[old]; delete al[old]\<close>.\<close>

definition moveKey :: "string \<Rightarrow> string \<Rightarrow> ('a \<Rightarrow> 'a) \<Rightarrow> (string \<times> 'a) list \<Rightarrow> (string \<times> 'a) list" where
  "moveKey old new f al = (case map_of al old of None \<Rightarrow> al
     | Some v \<Rightarrow> AList.delete old (AList.update new (f v) al))"

definition renameTargets :: "string \<Rightarrow> string \<Rightarrow> iconnections \<Rightarrow> iconnections" where
  "renameTargets old new =
     map (map_prod id (map (map_prod id (map (map_option (map
       (\<lambda>c. if c_node c = old then c\<lparr>c_node := new\<rparr> else c)))))))"

text \<open>
  \<open>rewriteParameters\<close> stands for the rewriting of the expressions in a node's parameters.
\<close>

definition renameNode ::
  "(string \<Rightarrow> string \<Rightarrow> inode \<Rightarrow> inode) \<Rightarrow> string \<Rightarrow> string \<Rightarrow> 'i workflow \<Rightarrow> 'i workflow result" where
  "renameNode rewriteParameters currentName newName w =
     (if toLowerCase newName \<in> set (map toLowerCase restrictedKeys)
      then Inl (UserError (''Node name \"'' @ newName @ ''\" is a restricted name.''))
      else Inr (w\<lparr>w_nodes := map (map_prod id (rewriteParameters currentName newName))
                   (moveKey currentName newName (\<lambda>n. n\<lparr>n_name := newName\<rparr>) (w_nodes w)),
                 w_connectionsBySourceNode := renameTargets currentName newName
                   (moveKey currentName newName id (w_connectionsBySourceNode w))\<rparr>))"

section \<open>The highest parents\<close>

text \<open>
  The connections of an input that are looked at: with \<open>nodeConnectionIndex\<close> only those of that input.
\<close>

definition connectionsAtIndex :: "nat option \<Rightarrow> node_input_connections \<Rightarrow> iconnection list" where
  "connectionsAtIndex idx ins = concat (map (\<lambda>(i, cs). if idx = None \<or> idx = Some i then orElse cs [] else [])
     (enumerate 0 ins))"

fun getHighestFrom ::
  "'i workflow \<Rightarrow> nat \<Rightarrow> string \<Rightarrow> nat option \<Rightarrow> string list \<Rightarrow> (string list \<times> string list) result" where
  "getHighestFrom w 0 nm idx checked = Inl OutOfFuel"
| "getHighestFrom w (Suc f) nm idx checked =
     (case wf_getNode w nm of None \<Rightarrow> Inl TypeError
      | Some node \<Rightarrow>
          let currentHighest = (if n_disabled node = Some False then [nm] else [])
          in case map_of (orElse (map_of (w_connectionsByDestinationNode w) nm) []) Main of
               None \<Rightarrow> Inr (currentHighest, checked)
             | Some ins \<Rightarrow>
                 if nm \<in> set checked then Inr (currentHighest, checked)
                 else efold (\<lambda>c (returnNodes, checked).
                        if c_node c \<in> set checked then Inr (returnNodes, checked)
                        else case wf_getNode w (c_node c) of None \<Rightarrow> Inr (returnNodes, checked)
                          | Some parent \<Rightarrow>
                              ebind (getHighestFrom w f (c_node c) None checked) (\<lambda>(found, checked).
                                Inr (saddAll (if found = [] \<and> n_disabled parent \<noteq> Some True
                                              then [c_node c] else found) returnNodes, checked)))
                        (connectionsAtIndex idx ins) ([], checked @ [nm]))"

definition getHighestNode :: "'i workflow \<Rightarrow> string \<Rightarrow> nat option \<Rightarrow> string list result" where
  "getHighestNode w nm idx =
     ebind (getHighestFrom w (Suc (Suc (length (w_nodes w)))) nm idx []) (\<lambda>(r, _). Inr r)"

section \<open>Breadth-first search\<close>

record connected_node =
  cn_name :: string
  cn_indicies :: "nat list"
  cn_depth :: nat

definition mainConnections :: "iconnections \<Rightarrow> string \<Rightarrow> iconnection list" where
  "mainConnections conns nm = (case map_of conns nm of None \<Rightarrow> []
     | Some rc \<Rightarrow> (case map_of rc Main of None \<Rightarrow> [] | Some outs \<Rightarrow> allConnections outs))"

text \<open>
  One element of the queue. \<open>visited\<close> and \<open>returnConns\<close> hold the same objects: the indices merged
  into a visited node show in the result, so the result is a list of names read from \<open>visited\<close>.
\<close>

definition bfsVisit :: "iconnections \<Rightarrow> nat \<Rightarrow> connected_node \<Rightarrow>
    (string \<times> connected_node) list \<times> connected_node list \<Rightarrow> (string \<times> connected_node) list \<times> connected_node list" where
  "bfsVisit conns depth cur = (\<lambda>(visited, queue).
     case map_of visited (cn_name cur) of
       Some v \<Rightarrow> (AList.update (cn_name cur)
                   (v\<lparr>cn_indicies := saddAll (cn_indicies v @ cn_indicies cur) []\<rparr>) visited, queue)
     | None \<Rightarrow> (AList.update (cn_name cur) cur visited,
               queue @ map (\<lambda>c. \<lparr>cn_name = c_node c, cn_indicies = [c_index c], cn_depth = depth\<rparr>)
                 (mainConnections conns (cn_name cur))))"

definition bfsLevel :: "iconnections \<Rightarrow> nat \<Rightarrow> connected_node list \<Rightarrow>
    (string \<times> connected_node) list \<Rightarrow> (string \<times> connected_node) list \<times> connected_node list" where
  "bfsLevel conns depth toAdd visited = fold (bfsVisit conns depth) toAdd (visited, [])"

lemma bfsVisit_simp:
  "bfsVisit conns depth cur (visited, queue) =
     (case map_of visited (cn_name cur) of
       Some v \<Rightarrow> (AList.update (cn_name cur)
                   (v\<lparr>cn_indicies := saddAll (cn_indicies v @ cn_indicies cur) []\<rparr>) visited, queue)
     | None \<Rightarrow> (AList.update (cn_name cur) cur visited,
               queue @ map (\<lambda>c. \<lparr>cn_name = c_node c, cn_indicies = [c_index c], cn_depth = depth\<rparr>)
                 (mainConnections conns (cn_name cur))))"
  by (simp add: bfsVisit_def)

definition bfs_grows :: "string set \<Rightarrow> string set \<Rightarrow> (string \<times> connected_node) list \<times> connected_node list \<Rightarrow> bool" where
  "bfs_grows K V s \<longleftrightarrow> V \<subseteq> fst ` set (fst s) \<and> (snd s \<noteq> [] \<longrightarrow> K \<inter> (fst ` set (fst s) - V) \<noteq> {})"

lemma bfs_grows_bfsVisit:
  assumes "bfs_grows (fst ` set conns) V s"
  shows "bfs_grows (fst ` set conns) V (bfsVisit conns depth cur s)"
proof (cases s)
  case (Pair v q)
  show ?thesis
  proof (cases "map_of v (cn_name cur)")
    case None
    have "mainConnections conns (cn_name cur) \<noteq> [] \<Longrightarrow> cn_name cur \<in> fst ` set conns"
      by (auto simp: mainConnections_def split: option.splits dest: map_of_SomeD intro: rev_image_eqI)
    moreover have "cn_name cur \<notin> fst ` set v" using None by (simp add: map_of_eq_None_iff)
    ultimately show ?thesis
      using None assms unfolding Pair bfs_grows_def bfsVisit_simp by (simp add: dom_update) blast
  next
    case (Some x)
    with assms show ?thesis unfolding Pair bfs_grows_def bfsVisit_simp by (simp add: dom_update) blast
  qed
qed

lemma bfsLevel_decreases:
  assumes "bfsLevel conns depth toAdd visited = (visited', queue)"
  shows "fst ` set visited \<subseteq> fst ` set visited' \<and>
    (queue \<noteq> [] \<longrightarrow> (fst ` set conns - fst ` set visited') \<subset> (fst ` set conns - fst ` set visited))"
proof -
  have "bfs_grows (fst ` set conns) (fst ` set visited) (fold (bfsVisit conns depth) toAdd (visited, []))"
    by (rule fold_invariant_set) (simp_all add: bfs_grows_def bfs_grows_bfsVisit [unfolded bfs_grows_def])
  then show ?thesis using assms unfolding bfsLevel_def bfs_grows_def by auto
qed

function (sequential) bfsLoop :: "iconnections \<Rightarrow> int \<Rightarrow> nat \<Rightarrow> connected_node list \<Rightarrow>
    (string \<times> connected_node) list \<Rightarrow> (string \<times> connected_node) list" where
  "bfsLoop conns maxDepth depth queue visited =
     (if queue = [] \<or> maxDepth \<noteq> - 1 \<and> int depth > maxDepth then visited
      else case bfsLevel conns (Suc depth) queue visited of (visited', queue') \<Rightarrow>
        bfsLoop conns maxDepth (Suc depth) queue' visited')"
  by pat_completeness auto

termination
proof (relation "inv_image (less_than <*lex*> less_than)
    (\<lambda>(conns, maxDepth, depth, queue, visited). (card (fst ` set conns - fst ` set visited), length queue))", goal_cases)
  case 1
  show ?case by auto
next
  case (2 conns maxDepth depth queue visited visited' queue')
  note d = bfsLevel_decreases [OF 2(2) [symmetric]]
  have "card (fst ` set conns - fst ` set visited') \<le> card (fst ` set conns - fst ` set visited)"
    using d by (intro card_mono) auto
  moreover have "queue' \<noteq> [] \<Longrightarrow> card (fst ` set conns - fst ` set visited') < card (fst ` set conns - fst ` set visited)"
    using d by (intro psubset_card_mono) auto
  ultimately show ?case using 2(1) by (cases "queue' = []") auto
qed

declare bfsLoop.simps [simp del]

definition searchNodesBFS :: "iconnections \<Rightarrow> string \<Rightarrow> int \<Rightarrow> connected_node list" where
  "searchNodesBFS conns sourceNode maxDepth =
     map snd (filter (\<lambda>(nm, _). nm \<noteq> sourceNode)
       (bfsLoop conns maxDepth 0 [\<lparr>cn_name = sourceNode, cn_indicies = [], cn_depth = 0\<rparr>] []))"

definition getParentNodesByDepth :: "'i workflow \<Rightarrow> string \<Rightarrow> int \<Rightarrow> connected_node list" where
  "getParentNodesByDepth w nm maxDepth = searchNodesBFS (w_connectionsByDestinationNode w) nm maxDepth"

section \<open>Breadth-first search: lemmas\<close>

definition main_rel :: "iconnections \<Rightarrow> (string \<times> string) set" where
  "main_rel conns = {(a, b). \<exists>c \<in> set (mainConnections conns a). c_node c = b}"

text \<open>\<open>k\<close> is the length of a shortest path.\<close>

definition dist :: "('n \<times> 'n) set \<Rightarrow> 'n \<Rightarrow> 'n \<Rightarrow> nat \<Rightarrow> bool" where
  "dist R s m k \<longleftrightarrow> (s, m) \<in> R ^^ k \<and> (\<forall>j < k. (s, m) \<notin> R ^^ j)"

lemma dist_unique: "dist R s m j \<Longrightarrow> dist R s m k \<Longrightarrow> j = k"
  by (meson dist_def linorder_neqE_nat)

lemma dist_exists: "(s, m) \<in> R ^^ k \<Longrightarrow> \<exists>j \<le> k. dist R s m j"
  unfolding dist_def using exists_least_iff [of "\<lambda>j. (s, m) \<in> R ^^ j"] by (meson not_less)

lemma dist_0 [simp]: "dist R s m 0 \<longleftrightarrow> m = s"
  by (auto simp: dist_def)

lemma dist_shorter:
  assumes "dist R s m k" "d \<le> k"
  shows "\<exists>p. dist R s p d \<and> (p, m) \<in> R ^^ (k - d)"
proof -
  from assms have "(s, m) \<in> R ^^ d O R ^^ (k - d)" by (simp add: dist_def flip: relpow_add)
  then obtain p where p: "(s, p) \<in> R ^^ d" "(p, m) \<in> R ^^ (k - d)" by blast
  have "(s, p) \<notin> R ^^ j" if "j < d" for j
  proof
    assume "(s, p) \<in> R ^^ j"
    with p(2) have "(s, m) \<in> R ^^ (j + (k - d))" by (auto simp: relpow_add)
    moreover have "j + (k - d) < k" using that assms(2) by simp
    ultimately show False using assms(1) by (auto simp: dist_def)
  qed
  with p show ?thesis by (auto simp: dist_def)
qed

text \<open>
  What a level of the search keeps. \<open>toAdd\<close> is what is left of the level, \<open>queue\<close> the next one.
\<close>

definition bfs_inv :: "iconnections \<Rightarrow> string \<Rightarrow> nat \<Rightarrow> (string \<times> connected_node) list \<Rightarrow>
    connected_node list \<Rightarrow> connected_node list \<Rightarrow> bool" where
  "bfs_inv conns s d visited toAdd queue \<longleftrightarrow>
     (\<forall>m v. map_of visited m = Some v \<longrightarrow> cn_name v = m \<and> dist (main_rel conns) s m (cn_depth v) \<and> cn_depth v \<le> d) \<and>
     (\<forall>m k. dist (main_rel conns) s m k \<and> k < d \<longrightarrow> map_of visited m \<noteq> None) \<and>
     (\<forall>q \<in> set toAdd. cn_depth q = d \<and> (s, cn_name q) \<in> main_rel conns ^^ d) \<and>
     (\<forall>m. dist (main_rel conns) s m d \<longrightarrow> map_of visited m \<noteq> None \<or> m \<in> cn_name ` set toAdd) \<and>
     (\<forall>q \<in> set queue. cn_depth q = Suc d \<and> (s, cn_name q) \<in> main_rel conns ^^ Suc d) \<and>
     (\<forall>m b. map_of visited m \<noteq> None \<and> dist (main_rel conns) s m d \<and> (m, b) \<in> main_rel conns \<longrightarrow> b \<in> cn_name ` set queue)"

definition indices_inv :: "iconnections \<Rightarrow> (string \<times> connected_node) list \<Rightarrow> connected_node list \<Rightarrow> bool" where
  "indices_inv conns visited pending \<longleftrightarrow> distinct (map fst visited) \<and>
     (\<forall>m i. (\<exists>v. map_of visited m = Some v \<and> i \<in> set (cn_indicies v)) \<or> (\<exists>q \<in> set pending. cn_name q = m \<and> i \<in> set (cn_indicies q))
       \<longleftrightarrow> (\<exists>a c. map_of visited a \<noteq> None \<and> c \<in> set (mainConnections conns a) \<and> c_node c = m \<and> c_index c = i))"

lemma bfs_inv_step:
  assumes inv: "bfs_inv conns s d visited (cur # toAdd) queue"
    and step: "bfsVisit conns (Suc d) cur (visited, queue) = (visited', queue')"
  shows "bfs_inv conns s d visited' toAdd queue'"
proof (cases "map_of visited (cn_name cur)")
  case (Some v)
  with step have v': "map_of visited' = (map_of visited)(cn_name cur \<mapsto> v\<lparr>cn_indicies := saddAll (cn_indicies v @ cn_indicies cur) []\<rparr>)"
    "queue' = queue"
    by (auto simp: bfsVisit_simp)
  have "cn_name v = cn_name cur" using inv Some unfolding bfs_inv_def by blast
  moreover have "(map_of visited' m \<noteq> None) \<longleftrightarrow> (map_of visited m \<noteq> None)" for m using Some by (auto simp: v')
  ultimately show ?thesis using inv Some unfolding bfs_inv_def
    by (simp add: v' del: not_None_eq relpow.simps split: if_splits) (metis (no_types, lifting) option.distinct(1))
next
  case None
  let ?R = "main_rel conns"
  from None step have v': "map_of visited' = (map_of visited)(cn_name cur \<mapsto> cur)"
    "queue' = queue @ map (\<lambda>c. \<lparr>cn_name = c_node c, cn_indicies = [c_index c], cn_depth = Suc d\<rparr>) (mainConnections conns (cn_name cur))"
    by (auto simp: bfsVisit_simp)
  have cur: "cn_depth cur = d" "(s, cn_name cur) \<in> ?R ^^ d" using inv by (auto simp: bfs_inv_def)
  have "dist ?R s (cn_name cur) d"
  proof -
    obtain j where j: "j \<le> d" "dist ?R s (cn_name cur) j" using dist_exists [OF cur(2)] by blast
    with inv None have "\<not> j < d" unfolding bfs_inv_def by blast
    with j show ?thesis by simp
  qed
  moreover have "(s, c_node c) \<in> ?R ^^ Suc d" if "c \<in> set (mainConnections conns (cn_name cur))" for c
    using cur(2) that by (auto simp: main_rel_def intro: relpow_Suc_I)
  then have "\<forall>q \<in> set queue'. cn_depth q = Suc d \<and> (s, cn_name q) \<in> ?R ^^ Suc d"
    using inv unfolding bfs_inv_def v'(2) by (auto simp del: relpow.simps)
  moreover have "cn_name ` set queue' = cn_name ` set queue \<union> {b. (cn_name cur, b) \<in> ?R}"
    unfolding v'(2) by (auto simp: main_rel_def image_Un image_image)
  ultimately show ?thesis using inv cur(1) unfolding bfs_inv_def v'(1) by (auto simp del: relpow.simps)
qed

lemma indices_inv_step:
  assumes inv: "indices_inv conns visited (cur # toAdd @ queue)"
    and step: "bfsVisit conns d cur (visited, queue) = (visited', queue')"
  shows "indices_inv conns visited' (toAdd @ queue')"
proof (cases "map_of visited (cn_name cur)")
  case (Some v)
  with step have v': "visited' = AList.update (cn_name cur) (v\<lparr>cn_indicies := saddAll (cn_indicies v @ cn_indicies cur) []\<rparr>) visited"
    "queue' = queue"
    by (auto simp: bfsVisit_simp)
  have "map_of visited' a \<noteq> None \<longleftrightarrow> map_of visited a \<noteq> None" for a using Some by (auto simp: v')
  moreover have "(\<exists>v. map_of visited' m = Some v \<and> i \<in> set (cn_indicies v)) \<or> (\<exists>q \<in> set (toAdd @ queue'). cn_name q = m \<and> i \<in> set (cn_indicies q))
    \<longleftrightarrow> (\<exists>v. map_of visited m = Some v \<and> i \<in> set (cn_indicies v)) \<or> (\<exists>q \<in> set (cur # toAdd @ queue). cn_name q = m \<and> i \<in> set (cn_indicies q))" for m i
    using Some by (auto simp: v')
  moreover have "distinct (map fst visited')" using inv by (simp add: v' indices_inv_def distinct_update)
  ultimately show ?thesis using inv unfolding indices_inv_def by presburger
next
  case None
  from None step have v': "visited' = AList.update (cn_name cur) cur visited"
    "queue' = queue @ map (\<lambda>c. \<lparr>cn_name = c_node c, cn_indicies = [c_index c], cn_depth = d\<rparr>) (mainConnections conns (cn_name cur))"
    by (auto simp: bfsVisit_simp)
  let ?M = "mainConnections conns"
  have A: "(\<exists>v. map_of visited' m = Some v \<and> i \<in> set (cn_indicies v)) \<or> (\<exists>q \<in> set (toAdd @ queue'). cn_name q = m \<and> i \<in> set (cn_indicies q))
    \<longleftrightarrow> ((\<exists>v. map_of visited m = Some v \<and> i \<in> set (cn_indicies v)) \<or> (\<exists>q \<in> set (cur # toAdd @ queue). cn_name q = m \<and> i \<in> set (cn_indicies q)))
      \<or> (\<exists>c \<in> set (?M (cn_name cur)). c_node c = m \<and> c_index c = i)" for m i
  proof -
    have "(\<exists>q \<in> set (toAdd @ queue'). cn_name q = m \<and> i \<in> set (cn_indicies q)) \<longleftrightarrow>
        (\<exists>q \<in> set (toAdd @ queue). cn_name q = m \<and> i \<in> set (cn_indicies q))
        \<or> (\<exists>c \<in> set (?M (cn_name cur)). c_node c = m \<and> c_index c = i)"
      unfolding v' set_append bex_Un set_map bex_simps by auto
    then show ?thesis using None by (auto simp: v')
  qed
  have B: "(\<exists>a c. map_of visited' a \<noteq> None \<and> c \<in> set (?M a) \<and> c_node c = m \<and> c_index c = i) \<longleftrightarrow>
      (\<exists>a c. map_of visited a \<noteq> None \<and> c \<in> set (?M a) \<and> c_node c = m \<and> c_index c = i)
      \<or> (\<exists>c \<in> set (?M (cn_name cur)). c_node c = m \<and> c_index c = i)" for m i
  proof -
    have "map_of visited' a \<noteq> None \<longleftrightarrow> map_of visited a \<noteq> None \<or> a = cn_name cur" for a by (auto simp: v')
    then show ?thesis by blast
  qed
  have "distinct (map fst visited')" using inv by (simp add: v' indices_inv_def distinct_update)
  with inv show ?thesis unfolding indices_inv_def A B by presburger
qed

lemma bfs_inv_fold:
  assumes "bfs_inv conns s d visited toAdd queue" "indices_inv conns visited (toAdd @ queue)"
    and "fold (bfsVisit conns (Suc d)) toAdd (visited, queue) = (visited', queue')"
  shows "bfs_inv conns s d visited' [] queue' \<and> indices_inv conns visited' queue'"
  using assms
proof (induction toAdd arbitrary: visited queue)
  case Nil
  then show ?case by simp
next
  case (Cons cur toAdd)
  obtain v q where vq: "bfsVisit conns (Suc d) cur (visited, queue) = (v, q)" by fastforce
  show ?case
  proof (rule Cons.IH)
    show "bfs_inv conns s d v toAdd q" by (rule bfs_inv_step [OF Cons.prems(1) vq])
    show "indices_inv conns v (toAdd @ q)" using Cons.prems(2) by (intro indices_inv_step [OF _ vq]) simp
    show "fold (bfsVisit conns (Suc d)) toAdd (v, q) = (visited', queue')" using Cons.prems(3) by (simp add: vq)
  qed
qed

lemma bfs_inv_next:
  assumes "bfs_inv conns s d visited [] queue"
  shows "bfs_inv conns s (Suc d) visited queue []"
proof -
  let ?R = "main_rel conns"
  have le: "k \<le> d" if "map_of visited m \<noteq> None" "dist ?R s m k" for m k
    using that assms dist_unique [of ?R s m k] unfolding bfs_inv_def by blast
  have "m \<in> cn_name ` set queue" if m: "dist ?R s m (Suc d)" for m
  proof -
    from dist_shorter [OF m, of d] obtain p where "dist ?R s p d" "(p, m) \<in> ?R" by auto
    moreover from this assms have "map_of visited p \<noteq> None" by (auto simp: bfs_inv_def)
    ultimately show ?thesis using assms unfolding bfs_inv_def by blast
  qed
  moreover have "\<not> (map_of visited m \<noteq> None \<and> dist ?R s m (Suc d))" for m
    using le [of m "Suc d"] by auto
  ultimately show ?thesis
    using assms unfolding bfs_inv_def by (simp add: less_Suc_eq le_Suc_eq del: relpow.simps not_None_eq) blast
qed

lemma bfsLoop_ok:
  assumes "bfs_inv conns s depth visited queue []" "\<forall>m v. map_of visited m = Some v \<longrightarrow> cn_depth v < depth"
    "indices_inv conns visited queue" "maxDepth = - 1 \<or> int depth \<le> maxDepth + 1 \<or> visited = []"
  defines "r \<equiv> bfsLoop conns maxDepth depth queue visited"
  shows "distinct (map fst r) \<and>
    (\<forall>m k. (\<exists>v. map_of r m = Some v \<and> cn_depth v = k) \<longleftrightarrow>
        dist (main_rel conns) s m k \<and> (maxDepth = - 1 \<or> int k \<le> maxDepth)) \<and>
    (\<forall>m v. map_of r m = Some v \<longrightarrow> cn_name v = m) \<and>
    (maxDepth = - 1 \<longrightarrow> indices_inv conns r [])"
  using assms(1-4) unfolding r_def
proof (induction conns maxDepth depth queue visited rule: bfsLoop.induct)
  case (1 conns maxDepth depth queue visited)
  note inv = "1.prems"
  let ?R = "main_rel conns"
  have depth: "(\<exists>v. map_of visited m = Some v \<and> cn_depth v = k) \<longleftrightarrow> dist ?R s m k \<and> k < depth" for m k
    using inv(1,2) dist_unique [of ?R s m] unfolding bfs_inv_def by (metis not_None_eq)
  show ?case
  proof (cases "queue = [] \<or> maxDepth \<noteq> - 1 \<and> int depth > maxDepth")
    case True
    then have eq: "bfsLoop conns maxDepth depth queue visited = visited" by (simp add: bfsLoop.simps)
    have dom: "k < depth \<longleftrightarrow> maxDepth = - 1 \<or> int k \<le> maxDepth" if m: "dist ?R s m k" for m k
    proof (cases "queue = []")
      case True
      have "k < depth"
      proof (rule ccontr)
        assume "\<not> k < depth"
        with dist_shorter [OF m, of depth] obtain p where "dist ?R s p depth" by auto
        with inv(1) True have "map_of visited p \<noteq> None" unfolding bfs_inv_def by auto
        then obtain v where v: "map_of visited p = Some v" by blast
        with depth [of p "cn_depth v"] have "dist ?R s p (cn_depth v)" "cn_depth v < depth" by blast+
        with dist_unique [OF \<open>dist ?R s p depth\<close>] show False by blast
      qed
      moreover have "maxDepth \<noteq> - 1 \<Longrightarrow> int k \<le> maxDepth"
      proof -
        assume "maxDepth \<noteq> - 1"
        from \<open>k < depth\<close> depth [of m k] m have "visited \<noteq> []" by auto
        with inv(4) \<open>maxDepth \<noteq> - 1\<close> \<open>k < depth\<close> show "int k \<le> maxDepth" by simp
      qed
      ultimately show ?thesis by blast
    next
      case False
      with True have d: "maxDepth \<noteq> - 1" "int depth > maxDepth" by auto
      from inv(4) show ?thesis
      proof (elim disjE)
        assume "visited = []"
        have "depth = 0"
        proof (rule ccontr)
          assume "depth \<noteq> 0"
          with depth [of s 0] \<open>visited = []\<close> show False by simp
        qed
        with d show ?thesis by simp
      qed (use d in auto)
    qed
    have "cn_name v = m" if "map_of visited m = Some v" for m v
      using inv(1) that unfolding bfs_inv_def by blast
    moreover have "indices_inv conns visited []" if "maxDepth = - 1" using inv(3) True that by simp
    moreover have "distinct (map fst visited)" using inv(3) by (simp add: indices_inv_def)
    moreover have "(\<exists>v. map_of visited m = Some v \<and> cn_depth v = k) \<longleftrightarrow>
        dist ?R s m k \<and> (maxDepth = - 1 \<or> int k \<le> maxDepth)" for m k
      using depth [of m k] dom [of m k] by blast
    ultimately show ?thesis unfolding eq by simp
  next
    case False
    obtain visited' queue' where l: "bfsLevel conns (Suc depth) queue visited = (visited', queue')" by fastforce
    from bfs_inv_fold [OF inv(1)] inv(3) l
    have fld: "bfs_inv conns s depth visited' [] queue'" "indices_inv conns visited' queue'"
      unfolding bfsLevel_def by auto
    have "\<forall>m v. map_of visited' m = Some v \<longrightarrow> cn_depth v < Suc depth"
      using fld(1) unfolding bfs_inv_def by (auto simp: less_Suc_eq_le)
    moreover have "maxDepth = - 1 \<or> int (Suc depth) \<le> maxDepth + 1 \<or> visited' = []" using False by auto
    moreover have eq: "bfsLoop conns maxDepth depth queue visited = bfsLoop conns maxDepth (Suc depth) queue' visited'"
      using False l by (subst bfsLoop.simps) auto
    ultimately show ?thesis
      unfolding eq by (intro "1.IH" [OF False l [symmetric] bfs_inv_next [OF fld(1)] _ fld(2)])
  qed
qed

lemma main_rel_rtrancl: "(s, m) \<in> (main_rel conns)\<^sup>* \<longleftrightarrow> (\<exists>k. dist (main_rel conns) s m k)"
  using dist_exists [of s m _ "main_rel conns"] by (auto simp: rtrancl_power dist_def)

section \<open>The distance to every node\<close>

lemma searchNodesBFS_ok:
  fixes conns :: iconnections and s :: string and maxDepth :: int
  defines "r \<equiv> searchNodesBFS conns s maxDepth"
  shows "distinct (map cn_name r) \<and>
    (\<forall>m k. (\<exists>v \<in> set r. cn_name v = m \<and> cn_depth v = k) \<longleftrightarrow>
        m \<noteq> s \<and> dist (main_rel conns) s m k \<and> (maxDepth = - 1 \<or> int k \<le> maxDepth)) \<and>
    (maxDepth = - 1 \<longrightarrow> (\<forall>v \<in> set r. set (cn_indicies v) =
        {c_index c | a c. (s, a) \<in> (main_rel conns)\<^sup>* \<and> c \<in> set (mainConnections conns a) \<and> c_node c = cn_name v}))"
proof -
  let ?q = "[\<lparr>cn_name = s, cn_indicies = [], cn_depth = 0\<rparr>]" and ?R = "main_rel conns"
  let ?l = "bfsLoop conns maxDepth 0 ?q []"
  have "bfs_inv conns s 0 [] ?q []" "indices_inv conns [] ?q" by (simp_all add: bfs_inv_def indices_inv_def)
  note B = bfsLoop_ok [OF this(1) _ this(2), of maxDepth]
  have l: "distinct (map fst ?l)"
    "\<And>m k. (\<exists>v. map_of ?l m = Some v \<and> cn_depth v = k) \<longleftrightarrow> dist ?R s m k \<and> (maxDepth = - 1 \<or> int k \<le> maxDepth)"
    "\<And>m v. map_of ?l m = Some v \<Longrightarrow> cn_name v = m" "maxDepth = - 1 \<Longrightarrow> indices_inv conns ?l []"
    by (rule B [THEN conjunct1] B [THEN conjunct2, THEN conjunct1, rule_format]
      B [THEN conjunct2, THEN conjunct2, THEN conjunct1, rule_format]
      B [THEN conjunct2, THEN conjunct2, THEN conjunct2, rule_format]; simp)+
  have mem: "(m, v) \<in> set ?l \<longleftrightarrow> map_of ?l m = Some v" for m v using l(1) by simp
  have set_r: "v \<in> set r \<longleftrightarrow> map_of ?l (cn_name v) = Some v \<and> cn_name v \<noteq> s" for v
  proof -
    have "v \<in> set r \<longleftrightarrow> (\<exists>m. (m, v) \<in> set ?l \<and> m \<noteq> s)" unfolding r_def searchNodesBFS_def by force
    also have "\<dots> \<longleftrightarrow> map_of ?l (cn_name v) = Some v \<and> cn_name v \<noteq> s" unfolding mem using l(3) by blast
    finally show ?thesis .
  qed
  have names: "map cn_name r = filter (\<lambda>m. m \<noteq> s) (map fst ?l)"
  proof -
    have "map cn_name (map snd (filter (\<lambda>(nm, _). nm \<noteq> s) xs)) = filter (\<lambda>m. m \<noteq> s) (map fst xs)"
      if "\<forall>(m, v) \<in> set xs. cn_name v = m" for xs
      using that by (induction xs) auto
    moreover have "\<forall>(m, v) \<in> set ?l. cn_name v = m" using l(3) by (auto simp: mem)
    ultimately show ?thesis unfolding r_def searchNodesBFS_def by blast
  qed
  have "(\<exists>v \<in> set r. cn_name v = m \<and> cn_depth v = k) \<longleftrightarrow>
        m \<noteq> s \<and> (\<exists>v. map_of ?l m = Some v \<and> cn_depth v = k)" for m k
    unfolding Bex_def set_r using l(3) by blast
  then have "(\<exists>v \<in> set r. cn_name v = m \<and> cn_depth v = k) \<longleftrightarrow>
        m \<noteq> s \<and> dist ?R s m k \<and> (maxDepth = - 1 \<or> int k \<le> maxDepth)" for m k
    unfolding l(2) .
  moreover have "set (cn_indicies v) =
        {c_index c | a c. (s, a) \<in> ?R\<^sup>* \<and> c \<in> set (mainConnections conns a) \<and> c_node c = cn_name v}"
    if "maxDepth = - 1" "v \<in> set r" for v
  proof -
    have dom: "map_of ?l a \<noteq> None \<longleftrightarrow> (s, a) \<in> ?R\<^sup>*" for a
      using l(2) [of a] that(1) unfolding main_rel_rtrancl by (metis not_None_eq)
    from l(4) [OF that(1)] that(2) have "i \<in> set (cn_indicies v) \<longleftrightarrow>
        (\<exists>a c. map_of ?l a \<noteq> None \<and> c \<in> set (mainConnections conns a) \<and> c_node c = cn_name v \<and> c_index c = i)" for i
      unfolding indices_inv_def set_r by (metis (no_types, lifting) empty_iff list.set(1) option.inject)
    note this [unfolded dom]
    then show ?thesis unfolding set_eq_iff mem_Collect_eq by metis
  qed
  moreover have "distinct (map cn_name r)" unfolding names using l(1) by simp
  ultimately show ?thesis by blast
qed

section \<open>The connection to a parent\<close>

record inode_connection =
  sourceIndex :: nat
  destinationIndex :: nat

text \<open>The connections of all inputs, each with its position within its input.\<close>

definition connectionPositions :: "node_input_connections \<Rightarrow> (nat \<times> iconnection) list" where
  "connectionPositions ins = concat (map (\<lambda>cs. enumerate 0 (orElse cs [])) ins)"

lemma card_keys_sadd:
  assumes "cur \<notin> set visited"
  shows "card (fst ` set conns - insert cur (set visited)) \<le> card (fst ` set conns - set visited)"
    "map_of conns cur = Some rc \<Longrightarrow> card (fst ` set conns - insert cur (set visited)) < card (fst ` set conns - set visited)"
proof -
  show "card (fst ` set conns - insert cur (set visited)) \<le> card (fst ` set conns - set visited)"
    by (rule card_mono) auto
  assume "map_of conns cur = Some rc"
  then have "cur \<in> fst ` set conns" by (force dest: map_of_SomeD)
  with assms show "card (fst ` set conns - insert cur (set visited)) < card (fst ` set conns - set visited)"
    by (intro psubset_card_mono) auto
qed

function (sequential) connectionSearch ::
  "iconnections \<Rightarrow> node_connection_type \<Rightarrow> string \<Rightarrow> string list \<Rightarrow> string list \<Rightarrow> inode_connection option" where
  "connectionSearch conns ty parent visited [] = None"
| "connectionSearch conns ty parent visited (cur # queue) =
     (if cur \<in> set visited then connectionSearch conns ty parent visited queue
      else case map_of conns cur of
        None \<Rightarrow> connectionSearch conns ty parent (sadd cur visited) queue
      | Some rc \<Rightarrow> (case map_of rc ty of
          None \<Rightarrow> connectionSearch conns ty parent (sadd cur visited) queue
        | Some ins \<Rightarrow> (case find (\<lambda>(d, c). c_node c = parent) (connectionPositions ins) of
            Some (d, c) \<Rightarrow> Some \<lparr>sourceIndex = c_index c, destinationIndex = d\<rparr>
          | None \<Rightarrow> connectionSearch conns ty parent (sadd cur visited)
              (queue @ filter (\<lambda>n. n \<notin> set (sadd cur visited))
                 (map (\<lambda>(d, c). c_node c) (connectionPositions ins))))))"
  by pat_completeness auto

termination
proof (relation "inv_image (less_than <*lex*> less_than)
    (\<lambda>(conns, ty, parent, visited, queue). (card (fst ` set conns - set visited), length queue))", goal_cases)
  case 1
  show ?case by auto
next
  case 2
  then show ?case by simp
next
  case (3 conns ty parent visited cur queue)
  then show ?case using card_keys_sadd(1) [of cur visited conns] by auto
next
  case (4 conns ty parent visited cur queue)
  then show ?case using card_keys_sadd(1) [of cur visited conns] by auto
next
  case (5 conns ty parent visited cur queue rc)
  then show ?case using card_keys_sadd(2) [of cur visited conns rc] by simp
qed

definition getNodeConnectionIndexes ::
  "'i workflow \<Rightarrow> string \<Rightarrow> string \<Rightarrow> node_connection_type \<Rightarrow> inode_connection option" where
  "getNodeConnectionIndexes w nm parent ty =
     (case wf_getNode w parent of None \<Rightarrow> None
      | Some _ \<Rightarrow> connectionSearch (w_connectionsByDestinationNode w) ty parent [] [nm])"

lemma set_connectionPositions:
  "(d, c) \<in> set (connectionPositions ins) \<longleftrightarrow> (\<exists>l. Some l \<in> set ins \<and> js_get l d = Some c)"
proof -
  have "(d, c) \<in> set (enumerate 0 (orElse cs [])) \<longleftrightarrow> (\<exists>l. cs = Some l \<and> js_get l d = Some c)" for cs
    by (cases cs) (auto simp: in_set_enumerate_eq js_get_def split: if_splits)
  then show ?thesis by (auto simp: connectionPositions_def)
qed

lemma nodes_connectionPositions:
  "(\<lambda>(d, c). c_node c) ` set (connectionPositions ins) = c_node ` set (allConnections ins)"
proof -
  have "(\<exists>d. (d, c) \<in> set (connectionPositions ins)) \<longleftrightarrow> c \<in> set (allConnections ins)" for c
    unfolding set_connectionPositions
    by (auto simp: allConnections_def js_get_def in_set_conv_nth split: option.splits) (metis nth_mem option.exhaust)+
  then show ?thesis by force
qed

definition connection_to :: "iconnections \<Rightarrow> node_connection_type \<Rightarrow> string \<Rightarrow> string \<Rightarrow> inode_connection \<Rightarrow> bool" where
  "connection_to conns ty n parent ic \<longleftrightarrow> (\<exists>rc ins l c. map_of conns n = Some rc \<and> map_of rc ty = Some ins \<and>
     Some l \<in> set ins \<and> js_get l (destinationIndex ic) = Some c \<and> c_node c = parent \<and> sourceIndex ic = c_index c)"

lemma conn_rel_of_type:
  "map_of conns n = Some rc \<Longrightarrow> map_of rc ty = Some ins \<Longrightarrow>
     (n, b) \<in> conn_rel conns (OfType ty) \<longleftrightarrow> b \<in> (\<lambda>(d, c). c_node c) ` set (connectionPositions ins)"
  unfolding nodes_connectionPositions by (auto simp: conn_rel_def)

lemma conn_rel_of_type_None:
  "map_of conns n = None \<or> map_of (the (map_of conns n)) ty = None \<Longrightarrow> (n, b) \<notin> conn_rel conns (OfType ty)"
  by (auto simp: conn_rel_def)

lemma connectionSearch_sound:
  assumes "connectionSearch conns ty parent visited queue = Some ic"
    "\<forall>q \<in> set queue. (nm, q) \<in> (conn_rel conns (OfType ty))\<^sup>*"
  shows "\<exists>n. (nm, n) \<in> (conn_rel conns (OfType ty))\<^sup>* \<and> connection_to conns ty n parent ic"
  using assms
proof (induction conns ty parent visited queue rule: connectionSearch.induct)
  case (1 conns ty parent visited)
  then show ?case by simp
next
  case (2 conns ty parent visited cur queue)
  note IH = "2.IH" and prems = "2.prems"
  show ?case
  proof (cases "cur \<in> set visited")
    case True
    with IH(1) prems show ?thesis by simp
  next
    case new: False
    show ?thesis
    proof (cases "map_of conns cur")
      case None
      with IH(2) new prems show ?thesis by simp
    next
      case rc: (Some rc)
      show ?thesis
      proof (cases "map_of rc ty")
        case None
        with IH(3) rc new prems show ?thesis by simp
      next
        case ins: (Some ins)
        show ?thesis
        proof (cases "find (\<lambda>(d, c). c_node c = parent) (connectionPositions ins)")
          case None
          have "(nm, q) \<in> (conn_rel conns (OfType ty))\<^sup>*" if "q \<in> (\<lambda>(d, c). c_node c) ` set (connectionPositions ins)" for q
            using that prems(2) conn_rel_of_type [OF rc ins, of q] by (auto intro: rtrancl_into_rtrancl)
          with prems(2) have "\<forall>q \<in> set (queue @ filter (\<lambda>n. n \<notin> set (sadd cur visited))
              (map (\<lambda>(d, c). c_node c) (connectionPositions ins))). (nm, q) \<in> (conn_rel conns (OfType ty))\<^sup>*"
            by auto
          with IH(4) [OF new rc ins None] prems(1) new rc ins None show ?thesis by simp
        next
          case (Some dc)
          obtain d c where dc: "dc = (d, c)" by (cases dc)
          from Some have "(d, c) \<in> set (connectionPositions ins)" "c_node c = parent"
            by (auto simp: find_Some_iff dc in_set_conv_nth)
          moreover have "ic = \<lparr>sourceIndex = c_index c, destinationIndex = d\<rparr>"
            using prems(1) new rc ins Some dc by simp
          ultimately have "connection_to conns ty cur parent ic"
            using rc ins by (auto simp: connection_to_def set_connectionPositions)
          with prems(2) show ?thesis by auto
        qed
      qed
    qed
  qed
qed

lemma connectionSearch_complete:
  assumes "connectionSearch conns ty parent visited queue = None"
    "\<forall>v \<in> set visited. \<forall>b. (v, b) \<in> conn_rel conns (OfType ty) \<longrightarrow> b \<noteq> parent \<and> b \<in> set visited \<union> set queue"
  shows "\<exists>S. set visited \<union> set queue \<subseteq> S \<and>
    (\<forall>v \<in> S. \<forall>b. (v, b) \<in> conn_rel conns (OfType ty) \<longrightarrow> b \<noteq> parent \<and> b \<in> S)"
  using assms
proof (induction conns ty parent visited queue rule: connectionSearch.induct)
  case (1 conns ty parent visited)
  then show ?case by (intro exI [of _ "set visited"]) simp
next
  case (2 conns ty parent visited cur queue)
  note IH = "2.IH" and prems = "2.prems"
  let ?R = "conn_rel conns (OfType ty)"
  have leaf: "\<forall>v \<in> set (sadd cur visited). \<forall>b. (v, b) \<in> ?R \<longrightarrow> b \<noteq> parent \<and> b \<in> set (sadd cur visited) \<union> set queue"
    if "\<And>b. (cur, b) \<notin> ?R"
    using prems(2) that by auto
  show ?case
  proof (cases "cur \<in> set visited")
    case True
    with IH(1) prems show ?thesis by (simp add: insert_absorb)
  next
    case new: False
    show ?thesis
    proof (cases "map_of conns cur")
      case None
      from leaf conn_rel_of_type_None [of conns cur ty] None IH(2) [OF new None] new prems(1) show ?thesis by simp
    next
      case rc: (Some rc)
      show ?thesis
      proof (cases "map_of rc ty")
        case None
        from leaf conn_rel_of_type_None [of conns cur ty] rc None IH(3) [OF new rc None] new prems(1) show ?thesis by simp
      next
        case ins: (Some ins)
        let ?P = "connectionPositions ins"
        have none: "find (\<lambda>(d, c). c_node c = parent) ?P = None"
          using prems(1) new rc ins by (auto split: option.splits prod.splits)
        let ?queue = "queue @ filter (\<lambda>n. n \<notin> set (sadd cur visited)) (map (\<lambda>(d, c). c_node c) ?P)"
        have cur: "b \<noteq> parent \<and> b \<in> set (sadd cur visited) \<union> set ?queue" if "(cur, b) \<in> ?R" for b
        proof -
          from that have "b \<in> (\<lambda>(d, c). c_node c) ` set ?P" by (simp add: conn_rel_of_type [OF rc ins])
          with none show ?thesis by (auto simp: find_None_iff)
        qed
        have "\<forall>v \<in> set (sadd cur visited). \<forall>b. (v, b) \<in> ?R \<longrightarrow> b \<noteq> parent \<and> b \<in> set (sadd cur visited) \<union> set ?queue"
        proof (intro ballI allI impI)
          fix v b assume v: "v \<in> set (sadd cur visited)" and vb: "(v, b) \<in> ?R"
          show "b \<noteq> parent \<and> b \<in> set (sadd cur visited) \<union> set ?queue"
          proof (cases "v = cur")
            case True
            with cur vb show ?thesis by simp
          next
            case False
            with v have "v \<in> set visited" by simp
            with prems(2) vb show ?thesis by fastforce
          qed
        qed
        moreover have "connectionSearch conns ty parent (sadd cur visited) ?queue = None"
          using prems(1) new rc ins none by simp
        ultimately obtain S where S: "set (sadd cur visited) \<union> set ?queue \<subseteq> S"
          "\<forall>v \<in> S. \<forall>b. (v, b) \<in> ?R \<longrightarrow> b \<noteq> parent \<and> b \<in> S"
          using IH(4) [OF new rc ins none] by blast
        then show ?thesis by (intro exI [of _ S]) auto
      qed
    qed
  qed
qed

lemma getNodeConnectionIndexes_ok:
  fixes w :: "'i workflow" and ty :: node_connection_type
  defines "R \<equiv> conn_rel (w_connectionsByDestinationNode w) (OfType ty)"
  shows "(getNodeConnectionIndexes w nm parent ty = None \<longleftrightarrow> wf_getNode w parent = None \<or> (nm, parent) \<notin> R\<^sup>+)"
    "getNodeConnectionIndexes w nm parent ty = Some ic \<Longrightarrow>
       \<exists>n. (nm, n) \<in> R\<^sup>* \<and> connection_to (w_connectionsByDestinationNode w) ty n parent ic"
proof -
  let ?conns = "w_connectionsByDestinationNode w"
  have sound: "\<exists>n. (nm, n) \<in> R\<^sup>* \<and> connection_to ?conns ty n parent ic"
    if "connectionSearch ?conns ty parent [] [nm] = Some ic" for ic
    using connectionSearch_sound [OF that, of nm] by (simp add: R_def)
  have edge: "(n, parent) \<in> R" if "connection_to ?conns ty n parent ic" for n ic
  proof -
    from that obtain rc ins l c where c: "map_of ?conns n = Some rc" "map_of rc ty = Some ins" "Some l \<in> set ins"
      "js_get l (destinationIndex ic) = Some c" "c_node c = parent"
      unfolding connection_to_def by blast
    then have "(destinationIndex ic, c) \<in> set (connectionPositions ins)" by (auto simp: set_connectionPositions)
    then show ?thesis using c(5) unfolding R_def conn_rel_of_type [OF c(1,2)] by force
  qed
  have "(nm, parent) \<notin> R\<^sup>+" if none: "connectionSearch ?conns ty parent [] [nm] = None"
  proof
    assume "(nm, parent) \<in> R\<^sup>+"
    from connectionSearch_complete [OF none] obtain S where S: "nm \<in> S"
      "\<And>v b. v \<in> S \<Longrightarrow> (v, b) \<in> R \<Longrightarrow> b \<noteq> parent \<and> b \<in> S" unfolding R_def by auto
    have "y \<noteq> parent \<and> y \<in> S" if "(nm, y) \<in> R\<^sup>+" for y
      using that by (induction rule: trancl_induct) (use S in blast)+
    with \<open>(nm, parent) \<in> R\<^sup>+\<close> show False by blast
  qed
  moreover have "(nm, parent) \<in> R\<^sup>+" if "connectionSearch ?conns ty parent [] [nm] = Some ic" for ic
    using sound [OF that] edge by (auto intro: rtrancl_into_trancl1)
  ultimately have "connectionSearch ?conns ty parent [] [nm] = None \<longleftrightarrow> (nm, parent) \<notin> R\<^sup>+"
    by (cases "connectionSearch ?conns ty parent [] [nm]") simp_all
  then show "(getNodeConnectionIndexes w nm parent ty = None \<longleftrightarrow> wf_getNode w parent = None \<or> (nm, parent) \<notin> R\<^sup>+)"
    unfolding getNodeConnectionIndexes_def by (cases "wf_getNode w parent") simp_all
  show "\<exists>n. (nm, n) \<in> R\<^sup>* \<and> connection_to ?conns ty n parent ic"
    if "getNodeConnectionIndexes w nm parent ty = Some ic"
    using that sound [of ic] unfolding getNodeConnectionIndexes_def by (cases "wf_getNode w parent") simp_all
qed

section \<open>The highest parents: lemmas\<close>

text \<open>Edges to existing parents over \<open>main\<close> inputs, and nodes without such inputs.\<close>

definition parent_rel :: "'i workflow \<Rightarrow> (string \<times> string) set" where
  "parent_rel w = {(v, b) \<in> conn_rel (w_connectionsByDestinationNode w) (OfType Main). wf_getNode w b \<noteq> None}"

definition main_inputs :: "'i workflow \<Rightarrow> string \<Rightarrow> node_input_connections option" where
  "main_inputs w nm = map_of (orElse (map_of (w_connectionsByDestinationNode w) nm) []) Main"

definition enabled_node :: "'i workflow \<Rightarrow> string \<Rightarrow> bool" where
  "enabled_node w x \<longleftrightarrow> (\<exists>n. wf_getNode w x = Some n \<and> n_disabled n \<noteq> Some True)"

lemma parent_rel_edge:
  assumes "main_inputs w nm = Some ins"
  shows "(nm, b) \<in> parent_rel w \<longleftrightarrow> b \<in> c_node ` set (connectionsAtIndex None ins) \<and> wf_getNode w b \<noteq> None"
    "c \<in> set (connectionsAtIndex idx ins) \<Longrightarrow> wf_getNode w (c_node c) \<noteq> None \<Longrightarrow> (nm, c_node c) \<in> parent_rel w"
proof -
  obtain rc where rc: "map_of (w_connectionsByDestinationNode w) nm = Some rc" "map_of rc Main = Some ins"
    using assms by (cases "map_of (w_connectionsByDestinationNode w) nm") (auto simp: main_inputs_def)
  have "concat (map (\<lambda>(i, cs). orElse cs []) (enumerate k ins)) = concat (map (\<lambda>cs. orElse cs []) ins)" for k
    by (induction ins arbitrary: k) simp_all
  then have "connectionsAtIndex None ins = concat (map (\<lambda>cs. orElse cs []) ins)"
    by (simp add: connectionsAtIndex_def)
  moreover have "orElse cs [] = (case cs of Some l \<Rightarrow> l | None \<Rightarrow> [])" for cs :: "iconnection list option"
    by (cases cs) simp_all
  ultimately have all: "set (connectionsAtIndex None ins) = set (allConnections ins)"
    by (simp add: allConnections_def)
  show A: "(nm, b) \<in> parent_rel w \<longleftrightarrow> b \<in> c_node ` set (connectionsAtIndex None ins) \<and> wf_getNode w b \<noteq> None" for b
    unfolding all parent_rel_def conn_rel_def using rc by auto
  assume c: "c \<in> set (connectionsAtIndex idx ins)" "wf_getNode w (c_node c) \<noteq> None"
  have "set (connectionsAtIndex idx ins) \<subseteq> set (connectionsAtIndex None ins)"
    by (fastforce simp: connectionsAtIndex_def split: if_splits)
  with c A show "(nm, c_node c) \<in> parent_rel w" by blast
qed

lemma parent_rel_leaf: "main_inputs w nm = None \<Longrightarrow> (nm, b) \<notin> parent_rel w"
  by (cases "map_of (w_connectionsByDestinationNode w) nm") (auto simp: main_inputs_def parent_rel_def conn_rel_def)

text \<open>
  What a call keeps: the nodes found are enabled ancestors, and every parent of a node checked
  meanwhile is checked itself or has no parents and was found.
\<close>

definition reported :: "'i workflow \<Rightarrow> string list \<Rightarrow> string list \<Rightarrow> string \<Rightarrow> bool" where
  "reported w found checked b \<longleftrightarrow> b \<in> set checked \<or> main_inputs w b = None \<and> (enabled_node w b \<longrightarrow> b \<in> set found)"

definition high_inv :: "'i workflow \<Rightarrow> string \<Rightarrow> string list \<Rightarrow> string list \<Rightarrow> string list \<Rightarrow> bool" where
  "high_inv w nm old found checked \<longleftrightarrow> set old \<subseteq> set checked \<and> distinct found \<and>
     (\<forall>x \<in> set found. enabled_node w x \<and> (nm, x) \<in> (parent_rel w)\<^sup>*) \<and>
     (\<forall>v \<in> set checked - set old. main_inputs w v \<noteq> None \<and>
        (\<forall>b. (v, b) \<in> parent_rel w \<longrightarrow> reported w found checked b))"

lemma reported_mono:
  "reported w found checked b \<Longrightarrow> set found \<subseteq> set found' \<Longrightarrow> set checked \<subseteq> set checked' \<Longrightarrow> reported w found' checked' b"
  by (auto simp: reported_def)

definition high_result :: "'i workflow \<Rightarrow> string \<Rightarrow> string list \<Rightarrow> string list \<Rightarrow> string list \<Rightarrow> bool" where
  "high_result w nm old found checked \<longleftrightarrow> high_inv w nm old found checked \<and>
     (main_inputs w nm \<noteq> None \<longrightarrow> nm \<in> set checked) \<and> (main_inputs w nm = None \<longrightarrow> set found \<subseteq> {nm})"

text \<open>The loop over the connections, after those in \<open>ys\<close>.\<close>

definition high_loop :: "'i workflow \<Rightarrow> string \<Rightarrow> string list \<Rightarrow> iconnection list \<Rightarrow> string list \<times> string list \<Rightarrow> bool" where
  "high_loop w nm old ys s \<longleftrightarrow> high_inv w nm (old @ [nm]) (fst s) (snd s) \<and> set (old @ [nm]) \<subseteq> set (snd s) \<and>
     (\<forall>c \<in> set ys. wf_getNode w (c_node c) \<noteq> None \<longrightarrow> reported w (fst s) (snd s) (c_node c))"

lemma high_loop_step:
  assumes loop: "high_loop w nm old ys (found, checked)"
    and edge: "(nm, c_node c) \<in> parent_rel w"
    and parent: "wf_getNode w (c_node c) = Some p"
    and res: "high_result w (c_node c) checked r checked'"
  shows "high_loop w nm old (ys @ [c])
    (saddAll (if r = [] \<and> n_disabled p \<noteq> Some True then [c_node c] else r) found, checked')"
proof -
  define A where "A = (if r = [] \<and> n_disabled p \<noteq> Some True then [c_node c] else r)"
  have mono: "set old \<subseteq> set checked" "nm \<in> set checked" "set checked \<subseteq> set checked'"
    using loop res by (auto simp: high_loop_def high_inv_def high_result_def)
  have add: "enabled_node w x \<and> (nm, x) \<in> (parent_rel w)\<^sup>*" if "x \<in> set A" for x
  proof (cases "r = [] \<and> n_disabled p \<noteq> Some True")
    case True
    with that parent edge show ?thesis by (auto simp: enabled_node_def A_def)
  next
    case False
    with that have "x \<in> set r" by (auto simp: A_def split: if_splits)
    with res have "enabled_node w x" "(c_node c, x) \<in> (parent_rel w)\<^sup>*" by (auto simp: high_result_def high_inv_def)
    with edge show ?thesis by (auto intro: converse_rtrancl_into_rtrancl)
  qed
  have sub: "set found \<subseteq> set (saddAll A found)" "set r \<subseteq> set (saddAll A found)" by (auto simp: A_def)
  have c: "reported w (saddAll A found) checked' (c_node c)"
  proof (cases "main_inputs w (c_node c)")
    case None
    with res have "set r \<subseteq> {c_node c}" by (simp add: high_result_def)
    then have "r = [] \<or> c_node c \<in> set r" by (cases r) auto
    with None parent show ?thesis by (auto simp: reported_def enabled_node_def A_def)
  next
    case (Some ins)
    with res show ?thesis by (auto simp: reported_def high_result_def)
  qed
  have old: "reported w (saddAll A found) checked' b" if "reported w found checked b" for b
    by (rule reported_mono [OF that sub(1) mono(3)])
  have new: "reported w (saddAll A found) checked' b" if "reported w r checked' b" for b
    by (rule reported_mono [OF that sub(2)]) simp
  have closed: "\<forall>v \<in> set checked' - set (old @ [nm]). main_inputs w v \<noteq> None \<and>
      (\<forall>b. (v, b) \<in> parent_rel w \<longrightarrow> reported w (saddAll A found) checked' b)"
  proof
    fix v assume v: "v \<in> set checked' - set (old @ [nm])"
    show "main_inputs w v \<noteq> None \<and> (\<forall>b. (v, b) \<in> parent_rel w \<longrightarrow> reported w (saddAll A found) checked' b)"
    proof (cases "v \<in> set checked")
      case True
      with v loop show ?thesis by (auto simp: high_loop_def high_inv_def intro: old)
    next
      case False
      with v res show ?thesis by (auto simp: high_result_def high_inv_def intro: new)
    qed
  qed
  have found: "\<forall>x \<in> set (saddAll A found). enabled_node w x \<and> (nm, x) \<in> (parent_rel w)\<^sup>*"
  proof
    fix x assume "x \<in> set (saddAll A found)"
    then consider "x \<in> set A" | "x \<in> set found" by auto
    then show "enabled_node w x \<and> (nm, x) \<in> (parent_rel w)\<^sup>*"
      by cases (use add loop in \<open>auto simp: high_loop_def high_inv_def\<close>)
  qed
  have "set (old @ [nm]) \<subseteq> set checked'" "distinct (saddAll A found)"
    using mono loop by (auto simp: high_loop_def high_inv_def)
  moreover have "\<forall>c' \<in> set (ys @ [c]). wf_getNode w (c_node c') \<noteq> None \<longrightarrow>
      reported w (saddAll A found) checked' (c_node c')"
    using loop c old by (auto simp: high_loop_def)
  ultimately show ?thesis
    using closed found unfolding high_loop_def A_def [symmetric] high_inv_def fst_conv snd_conv by blast
qed

lemma getHighestFrom_ok:
  "nm \<notin> set checked \<Longrightarrow> wf_getNode w nm \<noteq> None \<Longrightarrow> card (fst ` set (w_nodes w) - set checked) < f \<Longrightarrow>
   \<exists>r c'. getHighestFrom w f nm idx checked = Inr (r, c') \<and>
     (if idx = None then high_result w nm checked r c'
      else distinct r \<and> (\<forall>x \<in> set r. enabled_node w x \<and> (nm, x) \<in> (parent_rel w)\<^sup>*))"
proof (induction f arbitrary: nm checked idx)
  case 0
  then show ?case by simp
next
  case (Suc f)
  obtain node where node: "wf_getNode w nm = Some node" using Suc.prems(2) by blast
  show ?case
  proof (cases "main_inputs w nm")
    case None
    with node show ?thesis
      by (auto simp: main_inputs_def high_result_def high_inv_def enabled_node_def)
  next
    case (Some ins)
    let ?body = "\<lambda>c (returnNodes, checked).
        if c_node c \<in> set checked then Inr (returnNodes, checked)
        else case wf_getNode w (c_node c) of None \<Rightarrow> Inr (returnNodes, checked)
          | Some parent \<Rightarrow> ebind (getHighestFrom w f (c_node c) None checked) (\<lambda>(found, checked).
              Inr (saddAll (if found = [] \<and> n_disabled parent \<noteq> Some True then [c_node c] else found) returnNodes, checked))"
    let ?cs = "connectionsAtIndex idx ins"
    have "nm \<in> fst ` set (w_nodes w)" using node by (force simp: wf_getNode_def dest: map_of_SomeD)
    with Suc.prems(1,3) have card: "card (fst ` set (w_nodes w) - set old) < f" if "set (checked @ [nm]) \<subseteq> set old" for old
    proof -
      have "card (fst ` set (w_nodes w) - set old) < card (fst ` set (w_nodes w) - set checked)"
        using that \<open>nm \<in> fst ` set (w_nodes w)\<close> Suc.prems(1) by (intro psubset_card_mono) auto
      with Suc.prems(3) show ?thesis by simp
    qed
    have "\<exists>s. efold ?body ?cs ([], checked @ [nm]) = Inr s \<and> high_loop w nm checked ?cs s"
    proof (rule efold_total_prefix [where P = "high_loop w nm checked"])
      show "high_loop w nm checked [] ([], checked @ [nm])" by (simp add: high_loop_def high_inv_def)
      fix ys c zs and u :: "string list \<times> string list"
      assume cs: "?cs = ys @ c # zs" and u: "high_loop w nm checked ys u"
      obtain found old where fo: "u = (found, old)" by (cases u)
      show "\<exists>v. ?body c u = Inr v \<and> high_loop w nm checked (ys @ [c]) v"
      proof (cases "c_node c \<in> set old \<or> wf_getNode w (c_node c) = None")
        case True
        then have "?body c u = Inr u" by (auto simp: fo)
        with u True show ?thesis by (auto simp: high_loop_def fo reported_def)
      next
        case False
        then obtain p where p: "wf_getNode w (c_node c) = Some p" "c_node c \<notin> set old" by auto
        have "set (checked @ [nm]) \<subseteq> set old" using u by (simp add: high_loop_def fo)
        from Suc.IH [OF p(2) _ card [OF this], of None] p(1) obtain r c' where
          r: "getHighestFrom w f (c_node c) None old = Inr (r, c')" "high_result w (c_node c) old r c'" by auto
        have "(nm, c_node c) \<in> parent_rel w"
          using p(1) cs by (intro parent_rel_edge(2) [OF Some, of c idx]) auto
        from high_loop_step [OF u [unfolded fo] this p(1) r(2)] p r(1) show ?thesis by (auto simp: fo)
      qed
    qed
    then obtain r c' where rc: "efold ?body ?cs ([], checked @ [nm]) = Inr (r, c')" "high_loop w nm checked ?cs (r, c')"
      by force
    have "getHighestFrom w (Suc f) nm idx checked = Inr (r, c')"
      using node Some Suc.prems(1) rc(1) by (simp add: main_inputs_def Let_def)
    moreover have "high_result w nm checked r c'" if "idx = None"
    proof -
      have "main_inputs w v \<noteq> None \<and> (\<forall>b. (v, b) \<in> parent_rel w \<longrightarrow> reported w r c' b)"
        if v: "v \<in> set c' - set checked" for v
      proof (cases "v = nm")
        case True
        with Some rc(2) \<open>idx = None\<close> parent_rel_edge(1) [OF Some] show ?thesis by (auto simp: high_loop_def)
      next
        case False
        with v rc(2) show ?thesis by (auto simp: high_loop_def high_inv_def)
      qed
      with rc(2) Some show ?thesis unfolding high_result_def high_loop_def high_inv_def by auto
    qed
    moreover have "distinct r \<and> (\<forall>x \<in> set r. enabled_node w x \<and> (nm, x) \<in> (parent_rel w)\<^sup>*)"
      using rc(2) by (simp add: high_loop_def high_inv_def)
    ultimately show ?thesis by auto
  qed
qed

lemma getHighestNode_ok:
  assumes "wf_getNode w nm \<noteq> None"
  shows "\<exists>r. getHighestNode w nm idx = Inr r \<and> distinct r \<and>
    (\<forall>x \<in> set r. enabled_node w x \<and> (nm, x) \<in> (parent_rel w)\<^sup>*) \<and>
    (idx = None \<longrightarrow> (\<forall>x. (nm, x) \<in> (parent_rel w)\<^sup>+ \<and> main_inputs w x = None \<and> enabled_node w x \<longrightarrow> x \<in> set r))"
proof -
  have "card (fst ` set (w_nodes w) - set []) < Suc (Suc (length (w_nodes w)))"
    using card_image_le [of "set (w_nodes w)" fst] card_length [of "w_nodes w"] by simp
  from getHighestFrom_ok [OF _ assms this, of idx] obtain r c' where
    r: "getHighestFrom w (Suc (Suc (length (w_nodes w)))) nm idx [] = Inr (r, c')"
    "if idx = None then high_result w nm [] r c'
     else distinct r \<and> (\<forall>x \<in> set r. enabled_node w x \<and> (nm, x) \<in> (parent_rel w)\<^sup>*)" by auto
  have "x \<in> set r" if "idx = None" "(nm, x) \<in> (parent_rel w)\<^sup>+" "main_inputs w x = None" "enabled_node w x" for x
  proof -
    from r(2) that(1) have res: "high_result w nm [] r c'" by simp
    from that(2) parent_rel_leaf have "main_inputs w nm \<noteq> None" by (fastforce dest: tranclD)
    with res have nm: "nm \<in> set c'" by (simp add: high_result_def)
    have "reported w r c' y" if "(nm, y) \<in> (parent_rel w)\<^sup>+" for y
      using that
    proof (induction rule: trancl_induct)
      case (base y)
      with nm res show ?case by (auto simp: high_result_def high_inv_def)
    next
      case (step y z)
      then have "y \<in> set c'" using parent_rel_leaf [of w y z] by (auto simp: reported_def)
      with step(2) res show ?case by (auto simp: high_result_def high_inv_def)
    qed
    from this [OF that(2)] show ?thesis using that(3,4) res by (auto simp: reported_def high_result_def high_inv_def)
  qed
  with r show ?thesis by (auto simp: getHighestNode_def high_result_def high_inv_def simp del: getHighestFrom.simps split: if_splits)
qed

section \<open>The start node\<close>

definition STARTING_NODE_TYPES :: "string list" where
  "STARTING_NODE_TYPES = [''n8n-nodes-base.manualTrigger'', ''n8n-nodes-base.executeWorkflowTrigger'',
     ''n8n-nodes-base.errorTrigger'', ''n8n-nodes-base.evaluationTrigger'', ''n8n-nodes-base.formTrigger'']"

definition MANUAL_CHAT_TRIGGER_LANGCHAIN_NODE_TYPE :: string where
  "MANUAL_CHAT_TRIGGER_LANGCHAIN_NODE_TYPE = ''@n8n/n8n-nodes-langchain.manualChatTrigger''"

definition indexOf :: "'a list \<Rightarrow> 'a \<Rightarrow> int" where
  "indexOf xs x = (case findIndex (\<lambda>y. y = x) xs of None \<Rightarrow> - 1 | Some i \<Rightarrow> int i)"

text \<open>The loop over the candidates: the first enabled trigger or poll node.\<close>

fun firstTrigger :: "'i workflow \<Rightarrow> string list \<Rightarrow> inode option result" where
  "firstTrigger w [] = Inr None"
| "firstTrigger w (nm # names) =
     (case wf_getNode w nm of None \<Rightarrow> Inl TypeError
      | Some node \<Rightarrow> (case w_nodeTypes w (n_type node) (n_typeVersion node) of None \<Rightarrow> Inl TypeError
        | Some t \<Rightarrow>
            if nt_name t = MANUAL_CHAT_TRIGGER_LANGCHAIN_NODE_TYPE then firstTrigger w names
            else if nt_trigger t \<or> nt_poll t
              then (if n_disabled node = Some True then firstTrigger w names else Inr (Some node))
            else firstTrigger w names))"

definition firstStartingNode :: "'i workflow \<Rightarrow> inode option" where
  "firstStartingNode w =
     find (\<lambda>n. n_type n \<in> set STARTING_NODE_TYPES \<and> n_disabled n \<noteq> Some True)
       (List.map_filter (\<lambda>nm. wf_getNode w nm)
         (map n_name (sort_key (\<lambda>n. indexOf STARTING_NODE_TYPES (n_type n)) (map snd (w_nodes w)))))"

definition getStartNodeOf :: "'i workflow \<Rightarrow> string list \<Rightarrow> inode option result" where
  "getStartNodeOf w nodeNames =
     (case (if length nodeNames = 1 then wf_getNode w (hd nodeNames) else None) of
        Some node \<Rightarrow> if \<not> isDisabled node then Inr (Some node)
          else ebind (firstTrigger w nodeNames) (\<lambda>r. Inr (if r \<noteq> None then r else firstStartingNode w))
      | None \<Rightarrow> ebind (firstTrigger w nodeNames) (\<lambda>r. Inr (if r \<noteq> None then r else firstStartingNode w)))"

definition getStartNode :: "'i workflow \<Rightarrow> string option \<Rightarrow> inode option result" where
  "getStartNode w destinationNode =
     (if destinationNode = None \<or> destinationNode = Some [] then getStartNodeOf w (map fst (w_nodes w))
      else ebind (getHighestNode w (the destinationNode) None) (\<lambda>highest.
        let nodeNames = (if highest = [] then [the destinationNode] else highest)
        in ebind (getStartNodeOf w nodeNames) (\<lambda>r.
             Inr (if r \<noteq> None then r else wf_getNode w (hd nodeNames)))))"

definition getConnectionsBetweenNodes ::
  "'i workflow \<Rightarrow> string list \<Rightarrow> string list \<Rightarrow> (iconnection \<times> iconnection) list" where
  "getConnectionsBetweenNodes w sources targets =
     concat (map (\<lambda>source. concat (map (\<lambda>(ty, outs). concat (map (\<lambda>(i, cs).
         map (\<lambda>c. (\<lparr>c_node = source, c_type = ty, c_index = i\<rparr>, c))
           (filter (\<lambda>c. c_node c \<in> set targets) cs))
       (outputEntries outs)))
       (orElse (map_of (w_connectionsBySourceNode w) source) []))) sources)"

section \<open>The trigger of a partial execution\<close>

definition isTriggerNode :: "node_type option \<Rightarrow> bool result" where
  "isTriggerNode t = (case t of None \<Rightarrow> Inl TypeError | Some t \<Rightarrow> Inr (''trigger'' \<in> set (nt_group t)))"

definition findAllParentTriggers :: "'i workflow \<Rightarrow> string \<Rightarrow> inode list result" where
  "findAllParentTriggers w destinationNodeName =
     ebind (getParentNodes w destinationNodeName (OfType Main) (- 1)) (\<lambda>names.
     ebind (efold (\<lambda>nm acc. case wf_getNode w nm of None \<Rightarrow> Inl AssertionError
              | Some node \<Rightarrow> Inr (acc @ [(node, w_nodeTypes w (n_type node) (n_typeVersion node))])) names []) (\<lambda>parents.
     efold (\<lambda>(node, t) acc. ebind (isTriggerNode t) (\<lambda>b. Inr (if b then acc @ [node] else acc))) parents []))"

definition endsWith :: "string \<Rightarrow> string \<Rightarrow> bool" where
  "endsWith s suffix \<longleftrightarrow> length suffix \<le> length s \<and> drop (length s - length suffix) s = suffix"

definition isWebhook :: "inode \<Rightarrow> bool" where
  "isWebhook n \<longleftrightarrow> endsWith (n_type n) ''webhook''"

text \<open>
  The sort of the pinned triggers. Its comparator says "smaller" of every webhook, also against
  another one; as an insertion sort from the left every webhook goes to the front, which is the
  order the source's comment names: webhooks first and reversed.
\<close>

fun insertBefore :: "('a \<Rightarrow> 'a \<Rightarrow> int) \<Rightarrow> 'a \<Rightarrow> 'a list \<Rightarrow> 'a list" where
  "insertBefore cmp x [] = [x]"
| "insertBefore cmp x (y # ys) = (if cmp x y < 0 then x # y # ys else y # insertBefore cmp x ys)"

definition sortPinned :: "inode list \<Rightarrow> inode list" where
  "sortPinned ns = fold (insertBefore (\<lambda>a b. if isWebhook a then - 1 else if isWebhook b then 1 else 0)) ns []"

definition isPinned :: "'i workflow \<Rightarrow> inode \<Rightarrow> bool" where
  "isPinned w n \<longleftrightarrow> (case w_pinData w of None \<Rightarrow> False | Some p \<Rightarrow> map_of p (n_name n) \<noteq> None)"

definition selectTrigger :: "'i workflow \<Rightarrow> 'i run_data \<Rightarrow> inode list \<Rightarrow> inode option" where
  "selectTrigger w runData parentTriggers =
     (case find (\<lambda>t. map_of runData (n_name t) \<noteq> None) parentTriggers of Some t \<Rightarrow> Some t
      | None \<Rightarrow>
        let pinnedTriggers = sortPinned (filter (isPinned w) parentTriggers);
            webhookTriggers = filter isWebhook parentTriggers
        in if pinnedTriggers \<noteq> [] then js_get pinnedTriggers 0
           else if webhookTriggers \<noteq> [] then js_get webhookTriggers 0
           else js_get parentTriggers 0)"

definition findTriggerForPartialExecution :: "'i workflow \<Rightarrow> string \<Rightarrow> 'i run_data \<Rightarrow> inode option result" where
  "findTriggerForPartialExecution w destinationNodeName runData =
     (case wf_getNode w destinationNodeName of None \<Rightarrow> Inr None
      | Some destinationNode \<Rightarrow>
          ebind (isTriggerNode (w_nodeTypes w (n_type destinationNode) (n_typeVersion destinationNode))) (\<lambda>b.
          if b \<and> \<not> isDisabled destinationNode then Inr (Some destinationNode)
          else ebind (findAllParentTriggers w destinationNodeName) (\<lambda>triggers.
            Inr (selectTrigger w runData (filter (\<lambda>t. \<not> isDisabled t) triggers)))))"

lemma sortPinned_set [simp]: "set (sortPinned ns) = set ns"
proof -
  have ins: "set (insertBefore cmp x ys) = insert x (set ys)" for cmp and x :: inode and ys
    by (induction ys) auto
  have "set (fold (insertBefore cmp) ns acc) = set ns \<union> set acc" for cmp and acc :: "inode list"
    by (induction ns arbitrary: acc) (auto simp: ins)
  then show ?thesis by (simp add: sortPinned_def)
qed

lemma sortPinned_Nil [simp]: "sortPinned ns = [] \<longleftrightarrow> ns = []"
  using sortPinned_set [of ns] by (metis set_empty)

definition node_of_trigger :: "'i workflow \<Rightarrow> inode \<Rightarrow> bool" where
  "node_of_trigger w n \<longleftrightarrow> isTriggerNode (w_nodeTypes w (n_type n) (n_typeVersion n)) = Inr True"

text \<open>Every node named by a connection exists and its type is known.\<close>

definition nodes_known :: "'i workflow \<Rightarrow> bool" where
  "nodes_known w \<longleftrightarrow>
     (\<forall>(nm, ty, i, c) \<in> set (flatTable (w_connectionsByDestinationNode w)). map_of (w_nodes w) (c_node c) \<noteq> None) \<and>
     (\<forall>(nm, n) \<in> set (w_nodes w). w_nodeTypes w (n_type n) (n_typeVersion n) \<noteq> None)"

lemma findAllParentTriggers_ok:
  fixes w :: "'i workflow"
  defines "R \<equiv> conn_rel (w_connectionsByDestinationNode w) (OfType Main)"
  assumes "nodes_known w"
  shows "\<exists>r. findAllParentTriggers w d = Inr r \<and>
    set r = {n. \<exists>nm. nm \<noteq> d \<and> (d, nm) \<in> R\<^sup>+ \<and> wf_getNode w nm = Some n \<and> node_of_trigger w n}"
proof -
  obtain names where names: "getParentNodes w d (OfType Main) (- 1) = Inr names" "set names = {m. m \<noteq> d \<and> (d, m) \<in> R\<^sup>+}"
    using getConnectedNodes_ok [of "w_connectionsByDestinationNode w" d "OfType Main"]
    unfolding getParentNodes_def R_def by blast
  have known: "wf_getNode w b \<noteq> None" if "(a, b) \<in> R" for a b
  proof -
    from that obtain c rc outs where "map_of (w_connectionsByDestinationNode w) a = Some rc" "map_of rc Main = Some outs"
      "c \<in> set (allConnections outs)" "b = c_node c" by (auto simp: R_def conn_rel_def)
    then have "(a, rc) \<in> set (w_connectionsByDestinationNode w)" "(Main, outs) \<in> set rc" by (auto dest: map_of_SomeD)
    moreover from \<open>c \<in> set (allConnections outs)\<close> obtain i where "c \<in> cell outs i"
      by (auto simp: allConnections_def cell_def js_get_def in_set_conv_nth split: option.splits)
        (metis nth_mem option.inject)
    ultimately have "(a, Main, i, c) \<in> set (flatTable (w_connectionsByDestinationNode w))" by (auto simp: set_flatTable)
    with assms(2) \<open>b = c_node c\<close> show ?thesis unfolding nodes_known_def wf_getNode_def by fast
  qed
  have types: "w_nodeTypes w (n_type n) (n_typeVersion n) \<noteq> None" if "wf_getNode w nm = Some n" for nm n
    using assms(2) that unfolding nodes_known_def wf_getNode_def by (fast dest: map_of_SomeD)
  let ?f = "\<lambda>nm acc. case wf_getNode w nm of None \<Rightarrow> Inl AssertionError
              | Some node \<Rightarrow> Inr (acc @ [(node, w_nodeTypes w (n_type node) (n_typeVersion node))])"
  let ?P = "\<lambda>ys acc. set acc = {(n, w_nodeTypes w (n_type n) (n_typeVersion n)) | n nm. nm \<in> set ys \<and> wf_getNode w nm = Some n}"
  have "\<exists>ps. efold ?f names [] = Inr ps \<and> ?P names ps"
  proof (rule efold_total_prefix [where P = ?P])
    fix ys x zs and u :: "(inode \<times> node_type option) list"
    assume xs: "names = ys @ x # zs" and u: "?P ys u"
    from xs names(2) have "(d, x) \<in> R\<^sup>+" by auto
    then obtain a where "(a, x) \<in> R" by (metis tranclE)
    from known [OF this] obtain n where "wf_getNode w x = Some n" by blast
    with u show "\<exists>v. ?f x u = Inr v \<and> ?P (ys @ [x]) v" by auto
  qed simp
  then obtain ps where ps: "efold ?f names [] = Inr ps" "?P names ps" by blast
  let ?g = "\<lambda>(node, t) acc. ebind (isTriggerNode t) (\<lambda>b. Inr (if b then acc @ [node] else acc))"
  let ?Q = "\<lambda>ys acc. set acc = {n. \<exists>t. (n, t) \<in> set ys \<and> isTriggerNode t = Inr True}"
  have "\<exists>r. efold ?g ps [] = Inr r \<and> ?Q ps r"
  proof (rule efold_total_prefix [where P = ?Q])
    fix ys x zs and u :: "inode list"
    assume xs: "ps = ys @ x # zs" and u: "?Q ys u"
    from xs have "x \<in> set ps" by simp
    then obtain n nm where x: "x = (n, w_nodeTypes w (n_type n) (n_typeVersion n))" "wf_getNode w nm = Some n"
      unfolding ps(2) by blast
    from types [OF x(2)] obtain t where "w_nodeTypes w (n_type n) (n_typeVersion n) = Some t" by blast
    with u show "\<exists>v. ?g x u = Inr v \<and> ?Q (ys @ [x]) v" by (auto simp: x(1) isTriggerNode_def)
  qed simp
  then obtain r where r: "efold ?g ps [] = Inr r" "?Q ps r" by blast
  have "findAllParentTriggers w d = Inr r"
    using names(1) ps(1) r(1) by (simp add: findAllParentTriggers_def)
  moreover have "set r = {n. \<exists>nm. nm \<noteq> d \<and> (d, nm) \<in> R\<^sup>+ \<and> wf_getNode w nm = Some n \<and> node_of_trigger w n}"
    unfolding r(2) ps(2) names(2) node_of_trigger_def by auto
  ultimately show ?thesis by blast
qed

definition triggers_of :: "'i workflow \<Rightarrow> string \<Rightarrow> inode set" where
  "triggers_of w d = {n. \<exists>nm. (nm = d \<or> (d, nm) \<in> (conn_rel (w_connectionsByDestinationNode w) (OfType Main))\<^sup>+) \<and>
     wf_getNode w nm = Some n \<and> node_of_trigger w n \<and> \<not> isDisabled n}"

lemma selectTrigger_ok:
  "case selectTrigger w rd ts of None \<Rightarrow> ts = []
   | Some t \<Rightarrow> t \<in> set ts \<and>
       ((\<exists>u \<in> set ts. map_of rd (n_name u) \<noteq> None) \<longrightarrow> map_of rd (n_name t) \<noteq> None) \<and>
       ((\<forall>u \<in> set ts. map_of rd (n_name u) = None) \<and> (\<exists>u \<in> set ts. isPinned w u) \<longrightarrow> isPinned w t)"
proof (cases "find (\<lambda>t. map_of rd (n_name t) \<noteq> None) ts")
  case (Some t)
  then have "t \<in> set ts" "map_of rd (n_name t) \<noteq> None" by (auto simp: find_Some_iff)
  moreover have "selectTrigger w rd ts = Some t" unfolding selectTrigger_def Some by simp
  ultimately show ?thesis by auto
next
  case None
  then have none: "\<forall>u \<in> set ts. map_of rd (n_name u) = None" by (auto simp: find_None_iff)
  let ?p = "sortPinned (filter (isPinned w) ts)" and ?h = "filter isWebhook ts"
  have hd: "js_get xs 0 = (case xs of [] \<Rightarrow> None | x # _ \<Rightarrow> Some x)" for xs :: "inode list" by (cases xs) auto
  show ?thesis
  proof (cases "?p = []")
    case False
    then obtain t p' where "?p = t # p'" by (cases ?p) auto
    moreover from this have "t \<in> set (filter (isPinned w) ts)" using sortPinned_set by (metis list.set_intros(1))
    ultimately show ?thesis using None none by (simp add: selectTrigger_def hd)
  next
    case True
    then have unpinned: "\<forall>u \<in> set ts. \<not> isPinned w u" by (auto simp: filter_empty_conv)
    show ?thesis
    proof (cases ?h)
      case Nil
      with True None none unpinned show ?thesis by (cases ts) (simp_all add: selectTrigger_def hd)
    next
      case (Cons t h')
      then have "t \<in> set ts" by (metis filter_is_subset list.set_intros(1) subsetD)
      with Cons True None none unpinned show ?thesis by (simp add: selectTrigger_def hd)
    qed
  qed
qed

lemma findTrigger_ok:
  assumes "wf_getNode w d = Some dn" "nodes_known w"
  shows "\<exists>r. findTriggerForPartialExecution w d rd = Inr r \<and>
    (case r of None \<Rightarrow> triggers_of w d = {}
     | Some t \<Rightarrow> t \<in> triggers_of w d \<and> (dn \<in> triggers_of w d \<longrightarrow> t = dn) \<and>
         (dn \<notin> triggers_of w d \<longrightarrow>
           ((\<exists>u \<in> triggers_of w d. map_of rd (n_name u) \<noteq> None) \<longrightarrow> map_of rd (n_name t) \<noteq> None) \<and>
           ((\<forall>u \<in> triggers_of w d. map_of rd (n_name u) = None) \<and> (\<exists>u \<in> triggers_of w d. isPinned w u) \<longrightarrow> isPinned w t)))"
proof -
  obtain b where b: "isTriggerNode (w_nodeTypes w (n_type dn) (n_typeVersion dn)) = Inr b"
    using assms map_of_SomeD [of "w_nodes w" d dn] unfolding nodes_known_def wf_getNode_def isTriggerNode_def
    by (cases "w_nodeTypes w (n_type dn) (n_typeVersion dn)") auto
  show ?thesis
  proof (cases "b \<and> \<not> isDisabled dn")
    case True
    with b assms(1) have "dn \<in> triggers_of w d" by (auto simp: triggers_of_def node_of_trigger_def)
    with True b assms(1) show ?thesis by (simp add: findTriggerForPartialExecution_def)
  next
    case False
    obtain ts where ts: "findAllParentTriggers w d = Inr ts" "set ts = {n. \<exists>nm. nm \<noteq> d \<and>
        (d, nm) \<in> (conn_rel (w_connectionsByDestinationNode w) (OfType Main))\<^sup>+ \<and> wf_getNode w nm = Some n \<and> node_of_trigger w n}"
      using findAllParentTriggers_ok [OF assms(2)] by blast
    let ?ts = "filter (\<lambda>t. \<not> isDisabled t) ts"
    have dn: "dn = n \<Longrightarrow> \<not> (node_of_trigger w n \<and> \<not> isDisabled n)" for n
      using False b by (auto simp: node_of_trigger_def)
    have "n \<in> set ?ts \<longleftrightarrow> n \<in> triggers_of w d" for n
    proof -
      have "nm \<noteq> d" if "wf_getNode w nm = Some n" "node_of_trigger w n" "\<not> isDisabled n" for nm
        using dn [of n] assms(1) that by auto
      then show ?thesis by (auto simp: triggers_of_def ts(2))
    qed
    then have set_ts: "triggers_of w d = set ?ts" by blast
    have "dn \<notin> triggers_of w d" using dn by (auto simp: triggers_of_def)
    moreover have "?ts = [] \<longleftrightarrow> triggers_of w d = {}" unfolding set_ts by (auto simp: filter_empty_conv)
    moreover have "findTriggerForPartialExecution w d rd = Inr (selectTrigger w rd ?ts)"
      using False b assms(1) ts(1) by (auto simp: findTriggerForPartialExecution_def)
    ultimately show ?thesis
      using selectTrigger_ok [where w = w and rd = rd and ts = ?ts] unfolding set_ts by (auto split: option.splits)
  qed
qed

section \<open>Renaming: lemmas\<close>

definition renamed :: "string \<Rightarrow> string \<Rightarrow> string \<Rightarrow> string" where
  "renamed old new x = (if x = old then new else x)"

lemma cell_map: "cell (map (map_option (map f)) outs) i = f ` cell outs i"
  by (auto simp: cell_def js_get_def split: option.splits)

lemma set_moveKey:
  assumes "distinct (map fst al)" "new \<notin> fst ` set al"
  shows "set (moveKey old new id al) = (\<lambda>(k, v). (renamed old new k, v)) ` set al"
proof (cases "map_of al old")
  case None
  then have "(\<lambda>(k, v). (renamed old new k, v)) ` set al = id ` set al"
    by (intro image_cong) (auto simp: renamed_def map_of_eq_None_iff rev_image_eqI)
  with None show ?thesis by (simp add: moveKey_def)
next
  case (Some v)
  then have old: "(old, v) \<in> set al" "\<And>v'. (old, v') \<in> set al \<Longrightarrow> v' = v" "old \<noteq> new"
    using assms by (auto dest: map_of_SomeD intro: rev_image_eqI)
  have new: "(k, v') \<in> set al \<Longrightarrow> k \<noteq> new" for k v' using assms(2) by force
  have "set (moveKey old new id al) = {(k, v') \<in> insert (new, v) {(k, v') \<in> set al. k \<noteq> new}. k \<noteq> old}"
    unfolding moveKey_def Some option.case id_apply set_AList_delete set_AList_update [OF assms(1)] ..
  also have "\<dots> = insert (new, v) {(k, v') \<in> set al. k \<noteq> old}" using new old(3) by auto
  also have "\<dots> = (\<lambda>(k, v). (renamed old new k, v)) ` set al"
  proof (intro set_eqI iffI)
    fix x assume "x \<in> insert (new, v) {(k, v') \<in> set al. k \<noteq> old}"
    then consider "x = (new, v)" | k v' where "x = (k, v')" "(k, v') \<in> set al" "k \<noteq> old" by blast
    then show "x \<in> (\<lambda>(k, v). (renamed old new k, v)) ` set al"
      by cases (use old(1) in \<open>force simp: renamed_def\<close>)+
  next
    fix x assume "x \<in> (\<lambda>(k, v). (renamed old new k, v)) ` set al"
    then obtain k v' where "(k, v') \<in> set al" "x = (renamed old new k, v')" by auto
    with old(2) show "x \<in> insert (new, v) {(k, v') \<in> set al. k \<noteq> old}" by (cases "k = old") (auto simp: renamed_def)
  qed
  finally show ?thesis .
qed

lemma renameTargets_entries:
  "set (flatTable (renameTargets old new t)) =
     (\<lambda>(a, ty, i, c). (a, ty, i, c\<lparr>c_node := renamed old new (c_node c)\<rparr>)) ` set (flatTable t)"
proof -
  have f: "(\<lambda>c. if c_node c = old then c\<lparr>c_node := new\<rparr> else c) = (\<lambda>c. c\<lparr>c_node := renamed old new (c_node c)\<rparr>)"
    by (auto simp: renamed_def)
  show ?thesis
  proof (intro set_eqI)
    fix e :: "string \<times> node_connection_type \<times> nat \<times> iconnection"
    obtain a ty i c where e: "e = (a, ty, i, c)" by (cases e)
    let ?g = "\<lambda>c. c\<lparr>c_node := renamed old new (c_node c)\<rparr>"
    have "e \<in> set (flatTable (renameTargets old new t)) \<longleftrightarrow>
        (\<exists>rc outs. (a, rc) \<in> set t \<and> (ty, outs) \<in> set rc \<and> c \<in> ?g ` cell outs i)"
    proof -
      have rows: "(a, rc) \<in> set (map (map_prod id h) t) \<longleftrightarrow> (\<exists>rc'. (a, rc') \<in> set t \<and> rc = h rc')" for rc h
        by force
      have cols: "(ty, outs) \<in> set (map (map_prod id h) rc) \<longleftrightarrow> (\<exists>outs'. (ty, outs') \<in> set rc \<and> outs = h outs')"
        for outs h and rc :: inode_connections by force
      have "(\<exists>rc outs. (\<exists>rc'. (a, rc') \<in> set t \<and> rc = map (map_prod id h) rc') \<and> (ty, outs) \<in> set rc \<and> c \<in> cell outs i) \<longleftrightarrow>
          (\<exists>rc outs. (a, rc) \<in> set t \<and> (ty, outs) \<in> set rc \<and> c \<in> cell (h outs) i)" for h
        by (metis (no_types, lifting) cols)
      then show ?thesis unfolding e set_flatTable renameTargets_def f rows cell_map [symmetric] .
    qed
    also have "\<dots> \<longleftrightarrow> (\<exists>d. (a, ty, i, d) \<in> set (flatTable t) \<and> c = ?g d)"
      unfolding set_flatTable by blast
    also have "\<dots> \<longleftrightarrow> e \<in> (\<lambda>(a, ty, i, c). (a, ty, i, ?g c)) ` set (flatTable t)"
      unfolding e by force
    finally show "e \<in> set (flatTable (renameTargets old new t)) \<longleftrightarrow>
        e \<in> (\<lambda>(a, ty, i, c). (a, ty, i, ?g c)) ` set (flatTable t)" .
  qed
qed

lemma moveKey_entries:
  assumes "distinct (map fst t)" "new \<notin> fst ` set t"
  shows "set (flatTable (moveKey old new id t)) = (\<lambda>(a, ty, i, c). (renamed old new a, ty, i, c)) ` set (flatTable t)"
  (is "_ = ?rhs")
proof (intro set_eqI)
  fix e :: "string \<times> node_connection_type \<times> nat \<times> iconnection"
  obtain a ty i c where e: "e = (a, ty, i, c)" by (cases e)
  have "e \<in> set (flatTable (moveKey old new id t)) \<longleftrightarrow>
      (\<exists>b rc outs. (b, rc) \<in> set t \<and> a = renamed old new b \<and> (ty, outs) \<in> set rc \<and> c \<in> cell outs i)"
    unfolding e set_flatTable set_moveKey [OF assms] by force
  also have "\<dots> \<longleftrightarrow> (\<exists>b. (b, ty, i, c) \<in> set (flatTable t) \<and> a = renamed old new b)"
    unfolding set_flatTable by blast
  also have "\<dots> \<longleftrightarrow> e \<in> ?rhs" unfolding e by force
  finally show "e \<in> set (flatTable (moveKey old new id t)) \<longleftrightarrow> e \<in> ?rhs" .
qed

section \<open>An example workflow\<close>

text \<open>\<open>T \<rightarrow> A \<rightarrow> B\<close>, with \<open>T\<close> a webhook trigger, and a manual trigger \<open>M\<close> on its own.\<close>

definition exMain :: "string \<Rightarrow> string \<Rightarrow> string \<times> inode_connections" where
  "exMain a b = (a, [(Main, [Some [\<lparr>c_node = b, c_type = Main, c_index = 0\<rparr>]])])"

definition exTypes :: "string \<Rightarrow> nat \<Rightarrow> node_type option" where
  "exTypes t v = Some \<lparr>nt_name = t, nt_group = (if t = ''t'' then [] else [''trigger'']), nt_trigger = False,
     nt_poll = False, nt_webhook = False, nt_execute = True, nt_inputs = 1, nt_requiredInputs = Inl None\<rparr>"

definition exFlow :: "nat workflow" where
  "exFlow = setConnections [exMain ''T'' ''A'', exMain ''A'' ''B'']
     \<lparr>w_nodes = [(''T'', (mkNode 1 ''T'')\<lparr>n_type := ''webhook''\<rparr>), (''A'', mkNode 2 ''A''), (''B'', mkNode 3 ''B''),
        (''M'', (mkNode 4 ''M'')\<lparr>n_type := ''n8n-nodes-base.manualTrigger''\<rparr>)],
      w_connectionsBySourceNode = [], w_connectionsByDestinationNode = [], w_nodeTypes = exTypes,
      w_executionOrder = Some ''v1'', w_pinData = None\<rparr>"

lemma exFlow_table:
  "w_connectionsByDestinationNode exFlow = [exMain ''A'' ''T'', exMain ''B'' ''A'']"
  "w_connectionsBySourceNode exFlow = [exMain ''T'' ''A'', exMain ''A'' ''B'']"
  by code_simp+

lemma exFlow_known: "nodes_known exFlow"
proof -
  have "flatTable (w_connectionsByDestinationNode exFlow) =
      [(''A'', Main, 0, \<lparr>c_node = ''T'', c_type = Main, c_index = 0\<rparr>), (''B'', Main, 0, \<lparr>c_node = ''A'', c_type = Main, c_index = 0\<rparr>)]"
    by code_simp
  then show ?thesis by (simp add: nodes_known_def exFlow_def setConnections_def exTypes_def)
qed

text \<open>\<open>A \<rightarrow> B\<close> and \<open>T \<rightarrow> B\<close>, no trigger among them, and the manual trigger \<open>M\<close> on its own.\<close>

definition exUnconnected :: "nat workflow" where
  "exUnconnected = setConnections [exMain ''A'' ''B'', exMain ''T'' ''B''] (exFlow\<lparr>w_nodes :=
     [(''T'', mkNode 1 ''T''), (''A'', mkNode 2 ''A''), (''B'', mkNode 3 ''B''),
      (''M'', (mkNode 4 ''M'')\<lparr>n_type := ''n8n-nodes-base.manualTrigger''\<rparr>)]\<rparr>)"

section \<open>Properties\<close>

text \<open>
  \<open>searchNodesBFS\<close> lists every node other than the source that can be reached over \<open>main\<close>
  connections within \<open>maxDepth\<close> steps (-1 for no limit), once, with the length of a shortest path
  as its depth. Without a limit its indices are those of all connections that lead to the node from
  the source or a node found.
\<close>

lemma searchNodesBFS_shortest:
  "distinct (map cn_name (searchNodesBFS conns s maxDepth)) \<and>
   (\<forall>m k. (\<exists>v \<in> set (searchNodesBFS conns s maxDepth). cn_name v = m \<and> cn_depth v = k) \<longleftrightarrow>
        m \<noteq> s \<and> dist (main_rel conns) s m k \<and> (maxDepth = - 1 \<or> int k \<le> maxDepth)) \<and>
   (maxDepth = - 1 \<longrightarrow> (\<forall>v \<in> set (searchNodesBFS conns s maxDepth). set (cn_indicies v) =
        {c_index c | a c. (s, a) \<in> (main_rel conns)\<^sup>* \<and> c \<in> set (mainConnections conns a) \<and> c_node c = cn_name v}))"
  by (rule searchNodesBFS_ok)

lemma searchNodesBFS_shortest_witness:
  "map cn_name (searchNodesBFS (w_connectionsByDestinationNode exFlow) ''B'' (- 1)) = [''A'', ''T''] \<and>
   dist (main_rel (w_connectionsByDestinationNode exFlow)) ''B'' ''T'' 2"
proof -
  let ?t = "w_connectionsByDestinationNode exFlow"
  have r: "searchNodesBFS ?t ''B'' (- 1) = [\<lparr>cn_name = ''A'', cn_indicies = [0], cn_depth = 1\<rparr>,
      \<lparr>cn_name = ''T'', cn_indicies = [0], cn_depth = 2\<rparr>]" by code_simp
  note B = searchNodesBFS_shortest [of ?t "''B''" "- 1", unfolded r, THEN conjunct2, THEN conjunct1, rule_format,
      of "''T''" 2]
  then show ?thesis by (simp add: r)
qed

text \<open>
  \<open>getHighestNode\<close> of an existing node returns enabled nodes only, each once, each the node
  itself or one of its ancestors; asked for all inputs it returns every enabled ancestor that has
  no \<open>main\<close> inputs.
\<close>

lemma getHighestNode_roots:
  assumes "wf_getNode w nm \<noteq> None"
  shows "\<exists>r. getHighestNode w nm idx = Inr r \<and> distinct r \<and>
    (\<forall>x \<in> set r. enabled_node w x \<and> (nm, x) \<in> (parent_rel w)\<^sup>*) \<and>
    (idx = None \<longrightarrow> (\<forall>x. (nm, x) \<in> (parent_rel w)\<^sup>+ \<and> main_inputs w x = None \<and> enabled_node w x \<longrightarrow> x \<in> set r))"
  using assms by (rule getHighestNode_ok)

lemma getHighestNode_roots_witness:
  "getHighestNode exFlow ''B'' None = Inr [''T''] \<and> (''B'', ''T'') \<in> (parent_rel exFlow)\<^sup>*"
proof -
  have "getHighestNode exFlow ''B'' None = Inr [''T'']" "wf_getNode exFlow ''B'' \<noteq> None" by code_simp+
  with getHighestNode_roots [of exFlow "''B''" None] show ?thesis by auto
qed

text \<open>
  \<open>getNodeConnectionIndexes\<close> finds a connection exactly when the parent exists and can be
  reached backwards from the node; what it returns is the output and the position of a connection
  from the parent to the node or to one of its ancestors.
\<close>

lemma getNodeConnectionIndexes_connects:
  "(getNodeConnectionIndexes w nm parent ty = None \<longleftrightarrow> wf_getNode w parent = None \<or>
      (nm, parent) \<notin> (conn_rel (w_connectionsByDestinationNode w) (OfType ty))\<^sup>+) \<and>
   (\<forall>ic. getNodeConnectionIndexes w nm parent ty = Some ic \<longrightarrow>
      (\<exists>n. (nm, n) \<in> (conn_rel (w_connectionsByDestinationNode w) (OfType ty))\<^sup>* \<and>
        connection_to (w_connectionsByDestinationNode w) ty n parent ic))"
  using getNodeConnectionIndexes_ok [of w nm parent ty] by blast

lemma getNodeConnectionIndexes_connects_witness:
  "getNodeConnectionIndexes exFlow ''B'' ''T'' Main = Some \<lparr>sourceIndex = 0, destinationIndex = 0\<rparr> \<and>
   (''B'', ''T'') \<in> (conn_rel (w_connectionsByDestinationNode exFlow) (OfType Main))\<^sup>+"
proof -
  have "getNodeConnectionIndexes exFlow ''B'' ''T'' Main = Some \<lparr>sourceIndex = 0, destinationIndex = 0\<rparr>" by code_simp
  with getNodeConnectionIndexes_connects [of exFlow "''B''" "''T''" Main] show ?thesis by auto
qed

text \<open>
  \<open>findTriggerForPartialExecution\<close>, for a workflow whose connections name existing nodes of
  known types: it returns no trigger exactly when neither the destination nor an ancestor is an
  enabled trigger. The destination comes first when it is one; otherwise a trigger with run data
  is preferred, then one with pinned data.
\<close>

lemma findTrigger_selects:
  assumes "wf_getNode w d = Some dn" "nodes_known w"
  shows "\<exists>r. findTriggerForPartialExecution w d rd = Inr r \<and>
    (case r of None \<Rightarrow> triggers_of w d = {}
     | Some t \<Rightarrow> t \<in> triggers_of w d \<and> (dn \<in> triggers_of w d \<longrightarrow> t = dn) \<and>
         (dn \<notin> triggers_of w d \<longrightarrow>
           ((\<exists>u \<in> triggers_of w d. map_of rd (n_name u) \<noteq> None) \<longrightarrow> map_of rd (n_name t) \<noteq> None) \<and>
           ((\<forall>u \<in> triggers_of w d. map_of rd (n_name u) = None) \<and> (\<exists>u \<in> triggers_of w d. isPinned w u) \<longrightarrow> isPinned w t)))"
  using assms by (rule findTrigger_ok)

lemma findTrigger_selects_witness:
  "\<exists>t. findTriggerForPartialExecution exFlow ''B'' [] = Inr (Some t) \<and> n_name t = ''T'' \<and> t \<in> triggers_of exFlow ''B''"
proof -
  let ?t = "(mkNode 1 ''T'')\<lparr>n_type := ''webhook''\<rparr>"
  have "findTriggerForPartialExecution exFlow ''B'' [] = Inr (Some ?t)" "wf_getNode exFlow ''B'' = Some (mkNode 3 ''B'')"
    by code_simp+
  with findTrigger_selects [of exFlow "''B''", OF _ exFlow_known, of _ "[]"] show ?thesis by (auto simp: mkNode_def)
qed

text \<open>
  \<open>renameNode\<close> to a name that is not restricted and not a key of the table renames the sources
  and the targets of exactly the connections of the old name in \<open>connectionsBySourceNode\<close>, and leaves
  \<open>connectionsByDestinationNode\<close> as it was, with the old name.
\<close>

lemma renameNode_connections:
  assumes "distinct (map fst (w_connectionsBySourceNode w))" "new \<notin> fst ` set (w_connectionsBySourceNode w)"
    and "toLowerCase new \<notin> toLowerCase ` set restrictedKeys"
  shows "\<exists>w'. renameNode rewriteParameters old new w = Inr w' \<and>
    set (flatTable (w_connectionsBySourceNode w')) =
      (\<lambda>(a, ty, i, c). (renamed old new a, ty, i, c\<lparr>c_node := renamed old new (c_node c)\<rparr>))
        ` set (flatTable (w_connectionsBySourceNode w)) \<and>
    w_connectionsByDestinationNode w' = w_connectionsByDestinationNode w"
proof -
  have "set (flatTable (renameTargets old new (moveKey old new id (w_connectionsBySourceNode w)))) =
      (\<lambda>(a, ty, i, c). (renamed old new a, ty, i, c\<lparr>c_node := renamed old new (c_node c)\<rparr>))
        ` set (flatTable (w_connectionsBySourceNode w))"
    unfolding renameTargets_entries moveKey_entries [OF assms(1,2)] image_image by (simp add: split_def)
  with assms(3) show ?thesis by (simp add: renameNode_def)
qed

lemma renameNode_connections_witness:
  "\<exists>w'. renameNode (\<lambda>_ _ n. n) ''A'' ''Z'' exFlow = Inr w' \<and>
     w_connectionsBySourceNode w' = [exMain ''T'' ''Z'', exMain ''Z'' ''B''] \<and>
     getParentNodes exFlow ''Z'' (OfType Main) (- 1) = Inr [] \<and>
     w_connectionsByDestinationNode w' = w_connectionsByDestinationNode exFlow"
proof -
  have "toLowerCase ''Z'' \<notin> toLowerCase ` set restrictedKeys" by code_simp
  then obtain w' where w': "renameNode (\<lambda>_ _ n. n) ''A'' ''Z'' exFlow = Inr w'"
    "w_connectionsByDestinationNode w' = w_connectionsByDestinationNode exFlow"
    using renameNode_connections [of exFlow "''Z''" "\<lambda>_ _ n. n" "''A''"] by (auto simp: exFlow_table exMain_def)
  have "getParentNodes exFlow ''Z'' (OfType Main) (- 1) = Inr []" by code_simp
  moreover have "map_sum id w_connectionsBySourceNode (renameNode (\<lambda>_ _ n. n) ''A'' ''Z'' exFlow) =
      Inr [exMain ''T'' ''Z'', exMain ''Z'' ''B'']" by code_simp
  ultimately show ?thesis using w' by auto
qed

text \<open>
  \<open>getStartNode\<close> of a destination can return a node that is neither the destination nor one of
  its ancestors: when none of the candidates is a trigger by its \<open>trigger\<close> or \<open>poll\<close> function, all
  nodes of the workflow are searched for the starting types.
\<close>

theorem getStartNode_unconnected:
  "\<exists>(w :: nat workflow) n. getStartNode w (Some ''B'') = Inr (Some n) \<and> (''B'', n_name n) \<notin> (parent_rel w)\<^sup>* \<and>
     getHighestNode w ''B'' None = Inr [''A'', ''T'']"
proof (intro exI conjI)
  let ?w = "exUnconnected" and ?n = "(mkNode 4 ''M'')\<lparr>n_type := ''n8n-nodes-base.manualTrigger''\<rparr>"
  show "getStartNode ?w (Some ''B'') = Inr (Some ?n)" "getHighestNode ?w ''B'' None = Inr [''A'', ''T'']"
    by code_simp+
  have "w_connectionsByDestinationNode ?w = [(''B'', [(Main, [Some [\<lparr>c_node = ''A'', c_type = Main, c_index = 0\<rparr>,
      \<lparr>c_node = ''T'', c_type = Main, c_index = 0\<rparr>]])])]" by code_simp
  then have edge: "(x, y) \<in> parent_rel ?w \<Longrightarrow> y \<in> {''A'', ''T''}" for x y
    by (auto simp: parent_rel_def conn_rel_def allConnections_def split: if_splits)
  have "y \<in> {''B'', ''A'', ''T''}" if "(''B'', y) \<in> (parent_rel ?w)\<^sup>*" for y
    using that by (cases rule: rtrancl.cases) (auto dest: edge)
  from this [of "n_name ?n"] show "(''B'', n_name ?n) \<notin> (parent_rel ?w)\<^sup>*" by (auto simp: mkNode_def)
qed

end
