(* ===== verification/EngineQueue.thy ===== *)
theory EngineQueue
  imports WorkflowGraph "HOL-Library.List_Lexorder" "HOL-Library.Char_ord"
begin

text \<open>
  The scheduling of nodes in \<open>class WorkflowExecute\<close>
  (\<open>packages/core/src/execution-engine/workflow-execute.ts\<close>): how the data a node returned is handed
  to the nodes after it (\<open>addNodeToBeExecuted\<close>), how a node with several inputs waits for them, and
  how waiting nodes are released once the stack is empty. The state is the run execution data: the
  stack, the two waiting tables and the run data. \<open>waitingExecutionSource\<close> may be absent in old
  data and is created before its first use; the model starts with the empty table.
\<close>

section \<open>State\<close>

record 'i engine = "'i execution_stack" +
  en_runData :: "'i run_data"

definition isLegacyExecutionOrder :: "'i workflow \<Rightarrow> bool" where
  "isLegacyExecutionOrder w \<longleftrightarrow> w_executionOrder w \<noteq> Some ''v1''"

text \<open>\<open>nodeExecutionStack[enqueueFn](item)\<close>: in front in the order \<open>v1\<close>, at the end otherwise.\<close>

definition enqueue :: "'i workflow \<Rightarrow> 'i execute_data \<Rightarrow> 'i engine \<Rightarrow> 'i engine" where
  "enqueue w item st =
     st\<lparr>es_stack := (if w_executionOrder w = Some ''v1'' then item # es_stack st else es_stack st @ [item])\<rparr>"

text \<open>
  One output of \<open>nodeSuccessData\<close>, \<open>None\<close> for \<open>null\<close>. The callers name an output that exists.
\<close>

definition outputOf :: "'i list option list option \<Rightarrow> nat \<Rightarrow> 'i list option" where
  "outputOf nodeSuccessData oi = (case nodeSuccessData of None \<Rightarrow> None
     | Some outs \<Rightarrow> (case js_get outs oi of Some d \<Rightarrow> d | None \<Rightarrow> None))"

definition nodeSource :: "string \<Rightarrow> nat \<Rightarrow> nat \<Rightarrow> source_data" where
  "nodeSource parent outputIndex runIndex =
     \<lparr>previousNode = parent, previousNodeOutput = Some outputIndex, previousNodeRun = Some runIndex\<rparr>"

text \<open>
  \<open>incomingConnectionIsEmpty\<close>: the length of an output that is \<open>null\<close> is a \<open>TypeError\<close>.
\<close>

definition runOutput :: "'i run_data \<Rightarrow> string \<Rightarrow> nat \<Rightarrow> nat \<Rightarrow> 'i list option option" where
  "runOutput rd nm runIndex oi =
     (case js_get (orElse (map_of rd nm) []) runIndex of None \<Rightarrow> None
      | Some t \<Rightarrow> js_get (orElse (map_of (orElse (t_data t) []) Main) []) oi)"

fun incomingConnectionIsEmpty :: "'i run_data \<Rightarrow> iconnection list \<Rightarrow> nat \<Rightarrow> bool result" where
  "incomingConnectionIsEmpty rd [] runIndex = Inr True"
| "incomingConnectionIsEmpty rd (c # cs) runIndex =
     (case runOutput rd (c_node c) runIndex (c_index c) of
        Some None \<Rightarrow> Inl TypeError
      | Some (Some (_ # _)) \<Rightarrow> Inr False
      | _ \<Rightarrow> incomingConnectionIsEmpty rd cs runIndex)"

section \<open>Waiting entries\<close>

text \<open>\<open>connectionsByDestinationNode[nm]?.main?.length ?? 0\<close>\<close>

definition numberOfInputs :: "'i workflow \<Rightarrow> string \<Rightarrow> nat" where
  "numberOfInputs w nm = (case main_inputs w nm of None \<Rightarrow> 0 | Some ins \<Rightarrow> length ins)"

definition waitingEntries :: "'i engine \<Rightarrow> string \<Rightarrow> 'i task_data_connections by_run" where
  "waitingEntries st nm = orElse (map_of (es_waiting st) nm) []"

definition waitingSources :: "'i engine \<Rightarrow> string \<Rightarrow> task_data_connections_source by_run" where
  "waitingSources st nm = orElse (map_of (es_waitingSource st) nm) []"

definition prepareWaitingToExecution :: "string \<Rightarrow> nat \<Rightarrow> nat \<Rightarrow> 'i engine \<Rightarrow> 'i engine" where
  "prepareWaitingToExecution nm numberOfConnections runIndex st =
     st\<lparr>es_waiting := AList.update nm
          (ikUpdate runIndex [(Main, replicate numberOfConnections None)] (waitingEntries st nm)) (es_waiting st),
        es_waitingSource := AList.update nm
          (ikUpdate runIndex [(Main, replicate numberOfConnections None)] (waitingSources st nm)) (es_waitingSource st)\<rparr>"

text \<open>
  The first waiting entry that has nothing yet for an input; reading \<open>main\<close> of an entry without
  it fails.
\<close>

fun findWaitingEntry :: "'i task_data_connections by_run \<Rightarrow> nat \<Rightarrow> nat option result" where
  "findWaitingEntry [] i = Inr None"
| "findWaitingEntry ((k, entry) # entries) i =
     (case map_of entry Main of None \<Rightarrow> Inl TypeError
      | Some main \<Rightarrow> if js_get main i = None \<or> js_get main i = Some None then Inr (Some k)
          else findWaitingEntry entries i)"

definition listWaitingNode :: "string \<Rightarrow> 'i engine \<Rightarrow> 'i engine" where
  "listWaitingNode nm st =
     (if map_of (es_waiting st) nm = None
      then st\<lparr>es_waiting := AList.update nm [] (es_waiting st), es_waitingSource := AList.update nm [] (es_waitingSource st)\<rparr>
      else st)"

text \<open>
  The entry the data goes to: one that misses the input, or a new one whose index is the number of
  the entries there are.
\<close>

definition openWaitingEntry :: "'i workflow \<Rightarrow> iconnection \<Rightarrow> 'i engine \<Rightarrow> ('i engine \<times> nat) result" where
  "openWaitingEntry w c st =
     (let st = listWaitingNode (c_node c) st
      in ebind (findWaitingEntry (waitingEntries st (c_node c)) (c_index c)) (\<lambda>r. case r of
           Some k \<Rightarrow> Inr (st, k)
         | None \<Rightarrow> let k = length (waitingEntries st (c_node c))
             in Inr (prepareWaitingToExecution (c_node c) (numberOfInputs w (c_node c)) k st, k)))"

definition entryMain :: "'a by_run \<Rightarrow> nat \<Rightarrow> ('a \<Rightarrow> 'b option) \<Rightarrow> 'b result" where
  "entryMain entries k main = (case map_of entries k of None \<Rightarrow> Inl TypeError
     | Some entry \<Rightarrow> (case main entry of None \<Rightarrow> Inl TypeError | Some xs \<Rightarrow> Inr xs))"

definition addWaitingData :: "iconnection \<Rightarrow> nat \<Rightarrow> 'i list option \<Rightarrow> source_data option \<Rightarrow> 'i engine \<Rightarrow> 'i engine result" where
  "addWaitingData c k data source st =
     ebind (entryMain (waitingEntries st (c_node c)) k (\<lambda>e. map_of e Main)) (\<lambda>main.
     ebind (entryMain (waitingSources st (c_node c)) k (\<lambda>e. map_of e Main)) (\<lambda>sources.
       Inr (st\<lparr>
         es_waiting := AList.update (c_node c) (ikUpdate k
           (AList.update Main (js_set None main (c_index c) data) (the (map_of (waitingEntries st (c_node c)) k)))
           (waitingEntries st (c_node c))) (es_waiting st),
         es_waitingSource := AList.update (c_node c) (ikUpdate k
           (AList.update Main (js_set None sources (c_index c) source) (the (map_of (waitingSources st (c_node c)) k)))
           (waitingSources st (c_node c))) (es_waitingSource st)\<rparr>)))"

definition allDataFound :: "'i list option list \<Rightarrow> bool" where
  "allDataFound main \<longleftrightarrow> None \<notin> set main"

text \<open>A waiting entry removed from both tables, with the node's object once it is empty.\<close>

definition removeWaitingEntry :: "string \<Rightarrow> nat \<Rightarrow> 'i engine \<Rightarrow> 'i engine" where
  "removeWaitingEntry nm k st =
     (let entries = AList.delete k (waitingEntries st nm); sources = AList.delete k (waitingSources st nm)
      in if entries = []
         then st\<lparr>es_waiting := AList.delete nm (es_waiting st), es_waitingSource := AList.delete nm (es_waitingSource st)\<rparr>
         else st\<lparr>es_waiting := AList.update nm entries (es_waiting st),
                 es_waitingSource := AList.update nm sources (es_waitingSource st)\<rparr>)"

text \<open>All data is there: the entry becomes an item of the stack. A node that does not exist fails later.\<close>

definition releaseEntry :: "'i workflow \<Rightarrow> string \<Rightarrow> nat \<Rightarrow> 'i engine \<Rightarrow> 'i engine result" where
  "releaseEntry w nm k st =
     (case wf_getNode w nm of None \<Rightarrow> Inl TypeError
      | Some node \<Rightarrow> Inr (removeWaitingEntry nm k (enqueue w
          \<lparr>e_node = node, e_data = orElse (map_of (waitingEntries st nm) k) [],
           e_source = map_of (waitingSources st nm) k, e_runIndex = None, e_metadata = None\<rparr> st)))"

section \<open>Parents that still have to run\<close>

text \<open>The nodes behind all outputs of the parent; \<open>.main\<close> of a missing object fails.\<close>

definition checkOutputNodes :: "'i workflow \<Rightarrow> string \<Rightarrow> string list result" where
  "checkOutputNodes w parent =
     (case map_of (w_connectionsBySourceNode w) parent of None \<Rightarrow> Inl TypeError
      | Some rc \<Rightarrow> Inr (map c_node (allConnections (orElse (map_of rc Main) []))))"

text \<open>\<open>connectionsByDestinationNode[nm].main[0] ?? []\<close>\<close>

definition firstInput :: "'i workflow \<Rightarrow> string \<Rightarrow> iconnection list result" where
  "firstInput w nm = (case main_inputs w nm of None \<Rightarrow> Inl TypeError
     | Some ins \<Rightarrow> Inr (case js_get ins 0 of Some (Some cs) \<Rightarrow> cs | _ \<Rightarrow> []))"

fun pickParent :: "string \<Rightarrow> string list \<Rightarrow> string list \<Rightarrow> 'i run_data \<Rightarrow> string list \<Rightarrow> string option \<Rightarrow> string option" where
  "pickParent input outputNodes stackNodes rd [] nodeToAdd = nodeToAdd"
| "pickParent input outputNodes stackNodes rd (p # ps) nodeToAdd =
     (if input \<noteq> p \<and> p \<in> set outputNodes then None
      else if p \<in> set stackNodes then None
      else if map_of rd p \<noteq> None then nodeToAdd
      else pickParent input outputNodes stackNodes rd ps (Some p))"

text \<open>One parent of a waiting node in the legacy order: it, or the parent it depends on, is enqueued.\<close>

definition addParentNode ::
  "'i \<Rightarrow> 'i workflow \<Rightarrow> nat \<Rightarrow> string \<Rightarrow> 'i list option list option \<Rightarrow> nat \<Rightarrow> string list \<Rightarrow> string list \<Rightarrow> string \<Rightarrow>
    'i engine \<Rightarrow> 'i engine result" where
  "addParentNode emptyItem w outputIndex parent nodeSuccessData runIndex outputNodes stackNodes input st =
     ebind (getParentNodes w input (OfType Main) (- 1)) (\<lambda>parents.
       let nodeToAdd = pickParent input outputNodes stackNodes (en_runData st) (rev (parents @ [input])) (Some input)
       in case nodeToAdd of None \<Rightarrow> Inr st
       | Some nm \<Rightarrow> ebind (getParentNodes w nm (OfType Main) (- 1)) (\<lambda>above.
           if parent \<in> set above \<and> outputOf nodeSuccessData outputIndex = None then Inl TypeError
           else if parent \<in> set above \<and> outputOf nodeSuccessData outputIndex = Some [] then Inr st
           else ebind (if map_of (w_connectionsByDestinationNode w) nm = None then Inr True
                       else ebind (firstInput w nm) (\<lambda>cs. incomingConnectionIsEmpty (en_runData st) cs runIndex)) (\<lambda>addEmptyItem.
             if addEmptyItem then (case wf_getNode w nm of None \<Rightarrow> Inl TypeError
               | Some node \<Rightarrow> Inr (enqueue w \<lparr>e_node = node, e_data = [(Main, [Some [emptyItem]])],
                   e_source = Some [(Main, [Some (nodeSource parent outputIndex runIndex)])],
                   e_runIndex = None, e_metadata = None\<rparr> st))
             else Inr st)))"

definition addMissingParent ::
  "'i \<Rightarrow> 'i workflow \<Rightarrow> nat \<Rightarrow> string \<Rightarrow> 'i list option list option \<Rightarrow> nat \<Rightarrow> string list \<Rightarrow> iconnection \<Rightarrow>
    'i engine \<Rightarrow> 'i engine result" where
  "addMissingParent emptyItem w outputIndex parent nodeSuccessData runIndex outputNodes inputData st =
     (if c_node inputData = parent then Inr st
      else let stackNodes = map (\<lambda>e. n_name (e_node e)) (es_stack st) in
        ebind (if c_node inputData \<in> set outputNodes
               then ebind (firstInput w (c_node inputData)) (\<lambda>cs. incomingConnectionIsEmpty (en_runData st) cs runIndex)
               else Inr True) (\<lambda>goOn.
          if \<not> goOn then Inr st
          else if c_node inputData \<in> set stackNodes then Inr st
          else if map_of (en_runData st) (c_node inputData) \<noteq> None then Inr st
          else if \<not> isLegacyExecutionOrder w then Inr st
          else addParentNode emptyItem w outputIndex parent nodeSuccessData runIndex outputNodes stackNodes
                 (c_node inputData) st))"

definition addMissingParents ::
  "'i \<Rightarrow> 'i workflow \<Rightarrow> string \<Rightarrow> nat \<Rightarrow> string \<Rightarrow> 'i list option list option \<Rightarrow> nat \<Rightarrow> 'i engine \<Rightarrow> 'i engine result" where
  "addMissingParents emptyItem w nm outputIndex parent nodeSuccessData runIndex st =
     ebind (checkOutputNodes w parent) (\<lambda>outputNodes.
       efold (addMissingParent emptyItem w outputIndex parent nodeSuccessData runIndex outputNodes)
         (allConnections (orElse (main_inputs w nm) [])) st)"

section \<open>Adding a node\<close>

text \<open>
  The end of \<open>addNodeToBeExecuted\<close>. With \<open>waiting = Some k\<close> the data still missing, the entry is
  prepared again and gets its data and its sources back; otherwise the node is enqueued, if it exists.
\<close>

definition addDirectly ::
  "'i workflow \<Rightarrow> iconnection \<Rightarrow> nat \<Rightarrow> string \<Rightarrow> 'i list option \<Rightarrow> nat \<Rightarrow> nat option \<Rightarrow> task_metadata option \<Rightarrow>
    'i engine \<Rightarrow> 'i engine" where
  "addDirectly w c outputIndex parent data runIndex newRunIndex metadata st =
     (case wf_getNode w (c_node c) of None \<Rightarrow> st
      | Some node \<Rightarrow> enqueue w
          \<lparr>e_node = node, e_data = [(Main, js_set None (replicate (Suc (c_index c)) None) (c_index c) data)],
           e_source = Some [(Main, [Some (nodeSource parent outputIndex runIndex)])],
           e_runIndex = newRunIndex, e_metadata = metadata\<rparr> st)"

definition keepWaiting :: "'i workflow \<Rightarrow> iconnection \<Rightarrow> nat \<Rightarrow> 'i list option \<Rightarrow> 'i engine \<Rightarrow> 'i engine result" where
  "keepWaiting w c k data st =
     ebind (entryMain (waitingEntries st (c_node c)) k (\<lambda>e. map_of e Main)) (\<lambda>main.
     ebind (entryMain (waitingSources st (c_node c)) k (\<lambda>e. map_of e Main)) (\<lambda>sources.
       let st' = prepareWaitingToExecution (c_node c) (numberOfInputs w (c_node c)) k st
       in Inr (st'\<lparr>
         es_waiting := AList.update (c_node c) (ikUpdate k [(Main, js_set None main (c_index c) data)]
           (waitingEntries st' (c_node c))) (es_waiting st'),
         es_waitingSource := AList.update (c_node c) (ikUpdate k [(Main, sources)]
           (waitingSources st' (c_node c))) (es_waitingSource st')\<rparr>)))"

definition addNodeToBeExecuted ::
  "'i \<Rightarrow> 'i workflow \<Rightarrow> iconnection \<Rightarrow> nat \<Rightarrow> string \<Rightarrow> 'i list option list option \<Rightarrow> nat \<Rightarrow> nat option \<Rightarrow>
    task_metadata option \<Rightarrow> 'i engine \<Rightarrow> 'i engine result" where
  "addNodeToBeExecuted emptyItem w c outputIndex parent nodeSuccessData runIndex newRunIndex metadata st =
     (let data = outputOf nodeSuccessData outputIndex;
          source = (if nodeSuccessData = None then None else Some (nodeSource parent outputIndex runIndex));
          nodeWasWaiting = (map_of (es_waiting st) (c_node c) \<noteq> None)
      in if numberOfInputs w (c_node c) \<le> 1
         then Inr (addDirectly w c outputIndex parent data runIndex newRunIndex metadata st)
         else ebind (openWaitingEntry w c st) (\<lambda>(st, k).
           ebind (addWaitingData c k data source st) (\<lambda>st.
           ebind (entryMain (waitingEntries st (c_node c)) k (\<lambda>e. map_of e Main)) (\<lambda>main.
             if allDataFound main then releaseEntry w (c_node c) k st
             else ebind (if nodeWasWaiting then Inr st
                         else addMissingParents emptyItem w (c_node c) outputIndex parent nodeSuccessData runIndex st)
                    (keepWaiting w c k data)))))"

section \<open>The nodes after a node\<close>

text \<open>
  The comparator of \<open>nodesToAdd.sort\<close>: only its negative results move an element, so a node is put
  before the first one it lies strictly below, or right of at the same height.
\<close>

definition topLeftLast :: "int \<times> int \<Rightarrow> int \<times> int \<Rightarrow> int" where
  "topLeftLast a b = (if snd a < snd b then 1 else if snd a > snd b then - 1
     else if fst a > fst b then - 1 else 0)"

definition sortNodesToAdd :: "((int \<times> int) \<times> 'c) list \<Rightarrow> ((int \<times> int) \<times> 'c) list" where
  "sortNodesToAdd xs = fold (insertBefore (\<lambda>a b. topLeftLast (fst a) (fst b))) xs []"

text \<open>The connections of all outputs, each with its output.\<close>

definition outputConnections :: "node_input_connections \<Rightarrow> (nat \<times> iconnection) list" where
  "outputConnections outs = concat (map (\<lambda>(oi, cs). map (\<lambda>c. (oi, c)) cs) (outputEntries outs))"

definition hasDataFor :: "'i workflow \<Rightarrow> 'i list option list \<Rightarrow> nat \<Rightarrow> iconnection \<Rightarrow> bool" where
  "hasDataFor w nodeSuccessData oi c \<longleftrightarrow> (case outputOf (Some nodeSuccessData) oi of None \<Rightarrow> False
     | Some items \<Rightarrow> items \<noteq> [] \<or> c_index c > 0 \<and> isLegacyExecutionOrder w)"

definition visitOutput ::
  "'i \<Rightarrow> 'i workflow \<Rightarrow> string \<Rightarrow> 'i list option list \<Rightarrow> nat \<Rightarrow> nat \<times> iconnection \<Rightarrow>
    ((int \<times> int) \<times> nat \<times> iconnection) list \<times> 'i engine \<Rightarrow> (((int \<times> int) \<times> nat \<times> iconnection) list \<times> 'i engine) result" where
  "visitOutput emptyItem w nm nodeSuccessData runIndex = (\<lambda>(oi, c) (nodesToAdd, st).
     case wf_getNode w (c_node c) of None \<Rightarrow> Inl (ApplicationError ''Destination node not found'')
     | Some node \<Rightarrow>
         if \<not> hasDataFor w nodeSuccessData oi c then Inr (nodesToAdd, st)
         else if w_executionOrder w = Some ''v1'' then Inr (nodesToAdd @ [(n_position node, oi, c)], st)
         else ebind (addNodeToBeExecuted emptyItem w c oi nm (Some nodeSuccessData) runIndex None None st)
                (\<lambda>st. Inr (nodesToAdd, st)))"

definition enqueueChildren ::
  "'i \<Rightarrow> 'i workflow \<Rightarrow> string \<Rightarrow> 'i list option list \<Rightarrow> nat \<Rightarrow> 'i engine \<Rightarrow> 'i engine result" where
  "enqueueChildren emptyItem w nm nodeSuccessData runIndex st =
     (case map_of (orElse (map_of (w_connectionsBySourceNode w) nm) []) Main of None \<Rightarrow> Inr st
      | Some outs \<Rightarrow>
          ebind (efold (visitOutput emptyItem w nm nodeSuccessData runIndex) (outputConnections outs) ([], st))
            (\<lambda>(nodesToAdd, st).
              if w_executionOrder w = Some ''v1''
              then efold (\<lambda>(_, oi, c). addNodeToBeExecuted emptyItem w c oi nm (Some nodeSuccessData) runIndex None None)
                     (sortNodesToAdd nodesToAdd) st
              else Inr st))"

section \<open>Releasing waiting nodes\<close>

datatype 'i waiting_outcome = Skip | Released "'i engine" | Dropped "'i engine"

text \<open>
  The required inputs of a node type: none named (\<open>Inl None\<close>), a list of inputs, or a number; an
  expression is taken as evaluated. \<open>nt_inputs\<close> is \<open>description.inputs.length\<close>.
\<close>

definition requiresAllInputs :: "node_type \<Rightarrow> nat list option + nat \<Rightarrow> bool" where
  "requiresAllInputs t required = (case required of
     Inl None \<Rightarrow> False | Inl (Some l) \<Rightarrow> length l = nt_inputs t | Inr n \<Rightarrow> n = nt_inputs t)"

definition inputsWithData :: "'i list option list \<Rightarrow> nat list" where
  "inputsWithData main = filter (\<lambda>i. main ! i \<noteq> None) [0..<length main]"

definition requiredInputsMissing :: "nat list option + nat \<Rightarrow> 'i list option list \<Rightarrow> bool" where
  "requiredInputsMissing required main = (case required of
     Inl None \<Rightarrow> False
   | Inl (Some l) \<Rightarrow> list_ex (\<lambda>i. i \<notin> set (inputsWithData main)) l
   | Inr n \<Rightarrow> length (inputsWithData main) < n)"

text \<open>\<open>Object.keys(\<dots>).sort()\<close> sorts the run indices as strings.\<close>

definition firstRunIndex :: "'a by_run \<Rightarrow> nat option" where
  "firstRunIndex entries = js_get (sort_key nat_string (map fst entries)) 0"

definition padInputs :: "nat \<Rightarrow> 'i list list \<Rightarrow> 'i list list" where
  "padInputs n main = main @ replicate (n - length main) []"

definition tryWaitingNode :: "'i workflow \<Rightarrow> string list \<Rightarrow> string \<Rightarrow> 'i engine \<Rightarrow> 'i waiting_outcome result" where
  "tryWaitingNode w waitingNodes nm st =
     (case wf_getNode w nm of None \<Rightarrow> Inr Skip
      | Some node \<Rightarrow> (case w_nodeTypes w (n_type node) (n_typeVersion node) of None \<Rightarrow> Inl TypeError
        | Some t \<Rightarrow>
            let required = (if w_executionOrder w = Some ''v1'' then nt_requiredInputs t else Inl None)
            in if requiresAllInputs t required then Inr Skip
               else ebind (getParentNodes w nm (OfType Main) (- 1)) (\<lambda>parents.
                 if list_ex (\<lambda>p. p \<in> set waitingNodes) parents then Inr Skip
                 else case firstRunIndex (waitingEntries st nm) of None \<Rightarrow> Inl TypeError
                 | Some k \<Rightarrow> ebind (entryMain (waitingEntries st nm) k (\<lambda>e. map_of e Main)) (\<lambda>main.
                     if requiredInputsMissing required main then Inr Skip
                     else let taskDataMain = map (\<lambda>d. orElse d []) main;
                              st' = removeWaitingEntry nm k st
                       in if list_ex (\<lambda>d. d \<noteq> []) taskDataMain
                          then Inr (Released (st'\<lparr>es_stack := es_stack st @
                            [\<lparr>e_node = node, e_data = [(Main, map Some (padInputs (nt_inputs t) taskDataMain))],
                              e_source = map_of (waitingSources st nm) k, e_runIndex = None, e_metadata = None\<rparr>]\<rparr>))
                          else Inr (Dropped st')))))"

definition waitingSize :: "'i engine \<Rightarrow> nat" where
  "waitingSize st = sum_list (map (\<lambda>(nm, entries). length entries) (es_waiting st))"

lemma AList_delete_absent: "map_of al k = None \<Longrightarrow> AList.delete k al = al"
  by (induction al) (auto split: if_splits)

lemma length_AList_delete: "map_of al k = Some v \<Longrightarrow> length (AList.delete k al) < length al"
  by (induction al) (auto split: if_splits simp: length_delete_le le_imp_less_Suc)

lemma waitingSize_removeWaitingEntry:
  assumes "map_of (waitingEntries st nm) k = Some e"
  shows "waitingSize (removeWaitingEntry nm k st) < waitingSize st"
proof -
  let ?len = "\<lambda>(nm, entries). length entries"
  from assms obtain entries where entries: "map_of (es_waiting st) nm = Some entries" "map_of entries k = Some e"
    by (cases "map_of (es_waiting st) nm") (auto simp: waitingEntries_def)
  have del: "sum_list (map ?len (AList.delete nm al)) + length v \<le> sum_list (map ?len al)"
    if "map_of al nm = Some v" for al and v :: "'a task_data_connections by_run"
    using that
  proof (induction al)
    case (Cons x al)
    have "sum_list (map ?len (AList.delete nm al)) \<le> sum_list (map ?len al)"
      by (induction al) auto
    with Cons show ?case by (cases x) (auto split: if_splits)
  qed simp
  have upd: "sum_list (map ?len (AList.update nm v' al)) + length v = sum_list (map ?len al) + length v'"
    if "map_of al nm = Some v" for al and v v' :: "'a task_data_connections by_run"
    using that by (induction al) (auto split: if_splits)
  have "length (AList.delete k entries) < length entries" by (rule length_AList_delete [OF entries(2)])
  moreover have "entries \<noteq> []" using entries(2) by auto
  ultimately show ?thesis
    using del [OF entries(1)] upd [OF entries(1), of "AList.delete k entries"] entries(1)
    by (auto simp: removeWaitingEntry_def waitingSize_def waitingEntries_def Let_def)
qed

lemma map_of_sort_mem: "firstRunIndex entries = Some k \<Longrightarrow> map_of entries k \<noteq> None"
  by (auto simp: firstRunIndex_def map_of_eq_None_iff dest!: js_get_Some_mem)

lemma waitingSize_tryWaitingNode:
  assumes "tryWaitingNode w waitingNodes nm st = Inr (Dropped st')"
  shows "waitingSize st' < waitingSize st"
proof -
  from assms obtain k e where "map_of (waitingEntries st nm) k = Some e" "st' = removeWaitingEntry nm k st"
    unfolding tryWaitingNode_def
    by (auto simp: Let_def entryMain_def split: option.splits if_splits dest!: map_of_sort_mem)
  then show ?thesis by (simp add: waitingSize_removeWaitingEntry)
qed

text \<open>
  The loop over the waiting nodes: it ends with the first node that is released, and starts again
  with the nodes still waiting when an entry without data was dropped.
\<close>

function (sequential) releaseFrom :: "'i workflow \<Rightarrow> string list \<Rightarrow> string list \<Rightarrow> 'i engine \<Rightarrow> 'i engine result" where
  "releaseFrom w waitingNodes [] st = Inr st"
| "releaseFrom w waitingNodes (nm # names) st =
     (case tryWaitingNode w waitingNodes nm st of
        Inl e \<Rightarrow> Inl e
      | Inr Skip \<Rightarrow> releaseFrom w waitingNodes names st
      | Inr (Released st') \<Rightarrow> Inr st'
      | Inr (Dropped st') \<Rightarrow> releaseFrom w (map fst (es_waiting st')) (map fst (es_waiting st')) st')"
  by pat_completeness auto

termination
  by (relation "inv_image (less_than <*lex*> less_than) (\<lambda>(w, waitingNodes, names, st). (waitingSize st, length names))")
    (auto simp: waitingSize_tryWaitingNode)

declare releaseFrom.simps [simp del]

definition releaseWaiting :: "'i workflow \<Rightarrow> 'i engine \<Rightarrow> 'i engine result" where
  "releaseWaiting w st =
     (if es_stack st \<noteq> [] then Inr st
      else releaseFrom w (map fst (es_waiting st)) (map fst (es_waiting st)) st)"

section \<open>Aligned tables\<close>

text \<open>
  Updates of two association lists whose values are related. \<open>rel_prod (=) R\<close> relates entries with
  equal keys.
\<close>

lemma list_all2_AList_update:
  "list_all2 (rel_prod (=) R) al bl \<Longrightarrow> R v v' \<Longrightarrow> list_all2 (rel_prod (=) R) (AList.update k v al) (AList.update k v' bl)"
  by (induction rule: list_all2_induct) auto

lemma list_all2_AList_delete:
  "list_all2 (rel_prod (=) R) al bl \<Longrightarrow> list_all2 (rel_prod (=) R) (AList.delete k al) (AList.delete k bl)"
  by (induction rule: list_all2_induct) auto

lemma list_all2_ikUpdate:
  "list_all2 (rel_prod (=) R) al bl \<Longrightarrow> R v v' \<Longrightarrow> list_all2 (rel_prod (=) R) (ikUpdate k v al) (ikUpdate k v' bl)"
  by (induction rule: list_all2_induct) auto

lemma list_all2_map_of:
  "list_all2 (rel_prod (=) R) al bl \<Longrightarrow> rel_option R (map_of al k) (map_of bl k)"
  by (induction rule: list_all2_induct) auto

lemma AList_update_update [simp]: "AList.update k v (AList.update k v' al) = AList.update k v al"
  by (induction al) auto

lemma AList_delete_update [simp]: "AList.delete k (AList.update k v al) = AList.delete k al"
  by (induction al) (auto simp: delete_idem)

lemma ikUpdate_ikUpdate [simp]: "ikUpdate k v (ikUpdate k v' al) = ikUpdate k v al"
  by (induction k v al rule: ikUpdate.induct) auto

lemma set_AList_update_subset: "set (AList.update k v al) \<subseteq> insert (k, v) (set al)"
  by (induction al) auto

lemma set_ikUpdate_subset: "set (ikUpdate k v al) \<subseteq> insert (k, v) (set al)"
  by (induction k v al rule: ikUpdate.induct) auto

lemma set_ikUpdate:
  "sorted_wrt (<) (map fst al) \<Longrightarrow> set (ikUpdate k v al) = insert (k, v) {(k', v') \<in> set al. k' \<noteq> k}"
proof (induction k v al rule: ikUpdate.induct)
  case (2 k v k' v' al)
  have later: "\<And>j x. (j, x) \<in> set al \<Longrightarrow> k' < j" using "2.prems" by force
  show ?case
  proof (cases "k < k'")
    case True
    with later show ?thesis by force
  next
    case False
    with later 2 show ?thesis by (cases "k = k'") force+
  qed
qed simp

lemma sorted_ikUpdate: "sorted_wrt (<) (map fst al) \<Longrightarrow> sorted_wrt (<) (map fst (ikUpdate k v al))"
  by (induction k v al rule: ikUpdate.induct) (auto simp: set_ikUpdate)

lemma sorted_AList_delete: "sorted_wrt (<) (map fst al) \<Longrightarrow> sorted_wrt (<) (map fst (AList.delete k al))"
  by (induction al) (auto simp: set_AList_delete)

lemma set_delete_ikUpdate: "set (AList.delete k (ikUpdate k v al)) \<subseteq> set al"
  using set_ikUpdate_subset [of k v al] by (auto simp: set_AList_delete)

lemma ikUpdate_not_Nil [simp]: "ikUpdate k v al \<noteq> []"
  by (induction k v al rule: ikUpdate.induct) auto

lemma js_set_js_set [simp]: "js_set d (js_set d xs i y) i x = js_set d xs i x"
  by (auto simp: js_set_def list_update_append nth_append)

lemma js_set_same: "js_get xs i = Some x \<Longrightarrow> js_set d xs i x = xs"
  by (auto simp: js_set_def js_get_def split: if_splits)

text \<open>
  An entry of \<open>waitingExecution\<close> and the one of \<open>waitingExecutionSource\<close>: as many inputs, and a
  source exactly where there is data.
\<close>

definition entry_ok :: "'i task_data_connections \<Rightarrow> task_data_connections_source \<Rightarrow> bool" where
  "entry_ok e s \<longleftrightarrow> (\<exists>xs ys. e = [(Main, xs)] \<and> s = [(Main, ys)] \<and>
     list_all2 (\<lambda>x y. x = None \<longleftrightarrow> y = None) xs ys)"

definition waiting_aligned :: "'i engine \<Rightarrow> bool" where
  "waiting_aligned st \<longleftrightarrow> distinct (map fst (es_waiting st)) \<and>
     (\<forall>row \<in> set (es_waiting st). sorted_wrt (<) (map fst (snd row))) \<and>
     list_all2 (rel_prod (=) (list_all2 (rel_prod (=) entry_ok))) (es_waiting st) (es_waitingSource st)"

text \<open>Every node in the table waits with at least one entry, and every entry misses an input.\<close>

definition still_missing :: "'i task_data_connections \<Rightarrow> bool" where
  "still_missing e \<longleftrightarrow> (\<forall>xs. map_of e Main = Some xs \<longrightarrow> None \<in> set xs)"

definition row_missing :: "string \<times> 'i task_data_connections by_run \<Rightarrow> bool" where
  "row_missing row \<longleftrightarrow> snd row \<noteq> [] \<and> (\<forall>(k, e) \<in> set (snd row). still_missing e)"

definition waiting_incomplete :: "'i engine \<Rightarrow> bool" where
  "waiting_incomplete st \<longleftrightarrow> (\<forall>row \<in> set (es_waiting st). row_missing row)"

definition waiting_inv :: "'i engine \<Rightarrow> bool" where
  "waiting_inv st \<longleftrightarrow> waiting_aligned st \<and> waiting_incomplete st"

lemma list_all2_js_set:
  assumes "list_all2 P xs ys" "P d d'" "P x y"
  shows "list_all2 P (js_set d xs i x) (js_set d' ys i y)"
proof -
  have "length xs = length ys" using assms(1) by (rule list_all2_lengthD)
  moreover have "list_all2 P (replicate n d @ [x]) (replicate n d' @ [y])" for n
    using assms(2,3) by (induction n) auto
  ultimately show ?thesis
    using assms unfolding js_set_def by (auto simp: list_all2_update_cong intro: list_all2_appendI)
qed

lemma aligned_rows:
  "waiting_aligned st \<Longrightarrow> list_all2 (rel_prod (=) entry_ok) (waitingEntries st nm) (waitingSources st nm)"
  unfolding waiting_aligned_def waitingEntries_def waitingSources_def
  using list_all2_map_of [of "list_all2 (rel_prod (=) entry_ok)" "es_waiting st" "es_waitingSource st" nm]
  by (auto simp: orElse_def split: option.splits)

lemma aligned_sorted: "waiting_aligned st \<Longrightarrow> sorted_wrt (<) (map fst (waitingEntries st nm))"
  unfolding waiting_aligned_def waitingEntries_def
  by (cases "map_of (es_waiting st) nm") (auto dest!: map_of_SomeD)

lemma aligned_entry:
  assumes "waiting_aligned st" "map_of (waitingEntries st nm) k = Some e"
  obtains xs ys where "e = [(Main, xs)]" "map_of (waitingSources st nm) k = Some [(Main, ys)]"
    "list_all2 (\<lambda>x y. x = None \<longleftrightarrow> y = None) xs ys"
  using list_all2_map_of [OF aligned_rows [OF assms(1), of nm], of k] assms(2)
  by (auto simp: option_rel_Some1 entry_ok_def)

lemma aligned_update:
  assumes "waiting_aligned st" "entry_ok e s"
  shows "waiting_aligned (st\<lparr>es_waiting := AList.update nm (ikUpdate k e (waitingEntries st nm)) (es_waiting st),
    es_waitingSource := AList.update nm (ikUpdate k s (waitingSources st nm)) (es_waitingSource st)\<rparr>)"
  using assms aligned_rows [OF assms(1), of nm] sorted_ikUpdate [OF aligned_sorted [OF assms(1), of nm], of k e]
  unfolding waiting_aligned_def
  by (auto simp: list_all2_AList_update list_all2_ikUpdate distinct_update set_AList_update)

lemma incomplete_entries:
  "waiting_incomplete st \<Longrightarrow> \<forall>(k, e) \<in> set (waitingEntries st nm). still_missing e"
proof (cases "map_of (es_waiting st) nm")
  case (Some entries)
  assume "waiting_incomplete st"
  with map_of_SomeD [OF Some] have "row_missing (nm, entries)" unfolding waiting_incomplete_def by blast
  with Some show ?thesis by (simp add: waitingEntries_def row_missing_def)
qed (simp add: waitingEntries_def)

lemma incomplete_update:
  assumes "\<forall>row \<in> set (es_waiting st). fst row \<noteq> nm \<longrightarrow> row_missing row" "distinct (map fst (es_waiting st))"
    "\<forall>(k', e') \<in> set (waitingEntries st nm). still_missing e'" "still_missing e"
  shows "waiting_incomplete (st\<lparr>es_waiting := AList.update nm (ikUpdate k e (waitingEntries st nm)) (es_waiting st),
    es_waitingSource := t\<rparr>)"
proof -
  have "\<forall>(k', e') \<in> set (ikUpdate k e (waitingEntries st nm)). still_missing e'"
    using set_ikUpdate_subset [of k e "waitingEntries st nm"] assms(3,4) by fast
  then have "row_missing (nm, ikUpdate k e (waitingEntries st nm))" by (simp add: row_missing_def)
  then show ?thesis
    using assms(1) unfolding waiting_incomplete_def by (auto simp: set_AList_update [OF assms(2)])
qed

lemma aligned_removeWaitingEntry: "waiting_aligned st \<Longrightarrow> waiting_aligned (removeWaitingEntry nm k st)"
proof -
  assume st: "waiting_aligned st"
  from aligned_rows [OF st, of nm] have
    "list_all2 (rel_prod (=) entry_ok) (AList.delete k (waitingEntries st nm)) (AList.delete k (waitingSources st nm))"
    by (rule list_all2_AList_delete)
  with st sorted_AList_delete [OF aligned_sorted [OF st, of nm], of k] show ?thesis
    unfolding waiting_aligned_def removeWaitingEntry_def
    by (auto simp: Let_def list_all2_AList_update list_all2_AList_delete distinct_update distinct_delete
      set_AList_update set_AList_delete)
qed

text \<open>Removing an entry keeps the rest incomplete, whatever the removed entry holds.\<close>

lemma incomplete_removeWaitingEntry:
  assumes "\<forall>row \<in> set (es_waiting st). fst row \<noteq> nm \<longrightarrow> row_missing row" "distinct (map fst (es_waiting st))"
    "\<forall>(k', e) \<in> set (waitingEntries st nm). k' \<noteq> k \<longrightarrow> still_missing e"
  shows "waiting_incomplete (removeWaitingEntry nm k st)"
proof -
  let ?es = "AList.delete k (waitingEntries st nm)"
  have "row_missing (nm, ?es)" if "?es \<noteq> []"
    using assms(3) that by (auto simp: row_missing_def set_AList_delete)
  then show ?thesis
    using assms(1) unfolding waiting_incomplete_def removeWaitingEntry_def
    by (auto simp: Let_def set_AList_delete set_AList_update [OF assms(2)])
qed

text \<open>
  While an entry is being filled the node may be listed without entries, or with all data: the rest
  of the tables is as it should be.
\<close>

definition waiting_open :: "string \<Rightarrow> nat option \<Rightarrow> 'i engine \<Rightarrow> bool" where
  "waiting_open nm k st \<longleftrightarrow> waiting_aligned st \<and>
     (\<forall>row \<in> set (es_waiting st). fst row \<noteq> nm \<longrightarrow> row_missing row) \<and>
     (\<forall>(k', e) \<in> set (waitingEntries st nm). Some k' \<noteq> k \<longrightarrow> still_missing e)"

lemma waiting_inv_open: "waiting_inv st \<Longrightarrow> waiting_open nm k st"
  using incomplete_entries [of st nm] unfolding waiting_inv_def waiting_open_def waiting_incomplete_def by auto

lemma waiting_open_mono: "waiting_open nm None st \<Longrightarrow> waiting_open nm k st"
  by (auto simp: waiting_open_def)

lemma waitingEntries_update [simp]:
  "waitingEntries (st\<lparr>es_waiting := AList.update nm v t, es_waitingSource := u\<rparr>) nm = v"
  "waitingSources (st\<lparr>es_waiting := t, es_waitingSource := AList.update nm v' u'\<rparr>) nm = v'"
  by (simp_all add: waitingEntries_def waitingSources_def)

lemma waiting_open_update:
  assumes "waiting_open nm (Some k) st" "entry_ok e s"
  shows "waiting_open nm (Some k) (st\<lparr>es_waiting := AList.update nm (ikUpdate k e (waitingEntries st nm)) (es_waiting st),
    es_waitingSource := AList.update nm (ikUpdate k s (waitingSources st nm)) (es_waitingSource st)\<rparr>)" (is "waiting_open _ _ ?st")
proof -
  have al: "waiting_aligned ?st" using assms by (intro aligned_update) (auto simp: waiting_open_def)
  have d: "distinct (map fst (es_waiting st))" using assms(1) by (simp add: waiting_open_def waiting_aligned_def)
  have "\<forall>(k', e') \<in> set (ikUpdate k e (waitingEntries st nm)). Some k' \<noteq> Some k \<longrightarrow> still_missing e'"
    using set_ikUpdate_subset [of k e "waitingEntries st nm"] assms(1) unfolding waiting_open_def by fast
  with al assms(1) show ?thesis
    unfolding waiting_open_def by (auto simp: set_AList_update [OF d])
qed

lemma waiting_open_close:
  assumes "waiting_open nm (Some k) st" "still_missing e" "entry_ok e s"
  shows "waiting_inv (st\<lparr>es_waiting := AList.update nm (ikUpdate k e (waitingEntries st nm)) (es_waiting st),
    es_waitingSource := AList.update nm (ikUpdate k s (waitingSources st nm)) (es_waitingSource st)\<rparr>)" (is "waiting_inv ?st")
proof -
  have al: "waiting_aligned ?st" using assms by (intro aligned_update) (auto simp: waiting_open_def)
  have d: "distinct (map fst (es_waiting st))" using assms(1) by (simp add: waiting_open_def waiting_aligned_def)
  have "\<forall>(k', e') \<in> set (ikUpdate k e (waitingEntries st nm)). still_missing e'" 
    using assms(1,2) aligned_sorted [of st nm] unfolding waiting_open_def by (auto simp: set_ikUpdate)
  then have "row_missing (nm, ikUpdate k e (waitingEntries st nm))" by (simp add: row_missing_def)
  with al assms(1) show ?thesis
    unfolding waiting_inv_def waiting_incomplete_def waiting_open_def by (auto simp: set_AList_update [OF d])
qed

lemma addWaitingData_ok:
  assumes al: "waiting_aligned st" and e: "map_of (waitingEntries st (c_node c)) k = Some [(Main, xs)]"
    "map_of (waitingSources st (c_node c)) k = Some [(Main, ys)]"
  shows "addWaitingData c k data source st = Inr (st\<lparr>
     es_waiting := AList.update (c_node c) (ikUpdate k [(Main, js_set None xs (c_index c) data)] (waitingEntries st (c_node c))) (es_waiting st),
     es_waitingSource := AList.update (c_node c) (ikUpdate k [(Main, js_set None ys (c_index c) source)] (waitingSources st (c_node c))) (es_waitingSource st)\<rparr>)"
  using e by (simp add: addWaitingData_def entryMain_def)

lemma entry_ok_replicate [simp]: "entry_ok [(Main, replicate m None)] [(Main, replicate m None)]"
  by (simp add: entry_ok_def list_all2_conv_all_nth)

lemma openWaitingEntry_ok:
  assumes "waiting_inv st" "openWaitingEntry w c st = Inr (st', k)" "1 < numberOfInputs w (c_node c)"
  shows "waiting_open (c_node c) (Some k) st' \<and> map_of (waitingEntries st' (c_node c)) k \<noteq> None"
proof -
  let ?n = "c_node c"
  let ?st = "listWaitingNode ?n st"
  have "waiting_open ?n None ?st"
  proof (cases "map_of (es_waiting st) ?n = None")
    case True
    have d: "distinct (map fst (es_waiting st))" using assms(1) by (simp add: waiting_inv_def waiting_aligned_def)
    with True assms(1) show ?thesis
      unfolding waiting_open_def waiting_inv_def waiting_aligned_def waiting_incomplete_def listWaitingNode_def
      by (auto simp: distinct_update list_all2_AList_update set_AList_update [OF d])
  next
    case False
    then obtain es where "map_of (es_waiting st) ?n = Some es" by blast
    with waiting_inv_open [OF assms(1)] show ?thesis by (simp add: listWaitingNode_def)
  qed
  then have opn: "waiting_open ?n (Some j) ?st" for j by (rule waiting_open_mono)
  show ?thesis
  proof (cases "findWaitingEntry (waitingEntries ?st ?n) (c_index c)")
    case (Inl e)
    with assms(2) show ?thesis by (simp add: openWaitingEntry_def Let_def)
  next
    case (Inr r)
    show ?thesis
    proof (cases r)
      case None
      with Inr assms(2) have "st' = prepareWaitingToExecution ?n (numberOfInputs w ?n) k ?st"
        by (auto simp: openWaitingEntry_def Let_def)
      with waiting_open_update [OF opn, of _ _ k] show ?thesis
        by (simp add: prepareWaitingToExecution_def)
    next
      case (Some j)
      have "findWaitingEntry es i = Inr (Some j) \<Longrightarrow> map_of es j \<noteq> None" for es :: "'a task_data_connections by_run" and i
        by (induction es i rule: findWaitingEntry.induct) (auto split: option.splits if_splits)
      moreover from Some Inr assms(2) have "st' = ?st" "k = j" by (simp_all add: openWaitingEntry_def Let_def)
      ultimately show ?thesis using opn Inr Some by metis
    qed
  qed
qed

definition same_tables :: "'i engine \<Rightarrow> 'i engine \<Rightarrow> bool" where
  "same_tables st st' \<longleftrightarrow> es_waiting st' = es_waiting st \<and> es_waitingSource st' = es_waitingSource st \<and>
     en_runData st' = en_runData st"

lemma same_tables_enqueue [simp]: "same_tables st (enqueue w item st)"
  by (simp add: same_tables_def enqueue_def)

lemma same_tables_refl [simp]: "same_tables st st"
  by (simp add: same_tables_def)

lemma same_tables_trans: "same_tables a b \<Longrightarrow> same_tables b c \<Longrightarrow> same_tables a c"
  by (simp add: same_tables_def)

lemma addParentNode_tables:
  "addParentNode emptyItem w oi parent nsd runIndex outs stack input st = Inr st' \<Longrightarrow> same_tables st st'"
  unfolding addParentNode_def by (auto simp: Let_def split: if_split_asm option.split_asm)

lemma addMissingParent_tables:
  assumes "addMissingParent emptyItem w oi parent nsd runIndex outs x st = Inr st'"
  shows "same_tables st st'"
proof (cases "c_node x = parent")
  case True
  with assms show ?thesis by (simp add: addMissingParent_def)
next
  case False
  let ?stack = "map (\<lambda>e. n_name (e_node e)) (es_stack st)"
  from False assms obtain goOn where "(if \<not> goOn then Inr st
      else if c_node x \<in> set ?stack then Inr st
      else if map_of (en_runData st) (c_node x) \<noteq> None then Inr st
      else if \<not> isLegacyExecutionOrder w then Inr st
      else addParentNode emptyItem w oi parent nsd runIndex outs ?stack (c_node x) st) = Inr st'"
    unfolding addMissingParent_def Let_def by auto
  then show ?thesis by (auto simp: addParentNode_tables split: if_split_asm simp del: not_None_eq)
qed

lemma addMissingParents_tables:
  assumes "addMissingParents emptyItem w nm oi parent nsd runIndex st = Inr st'"
  shows "same_tables st st'"
proof -
  from assms obtain outs where "efold (addMissingParent emptyItem w oi parent nsd runIndex outs)
      (allConnections (orElse (main_inputs w nm) [])) st = Inr st'" by (auto simp: addMissingParents_def)
  then show ?thesis
    by (rule efold_invariant [where P = "same_tables st"]) (auto intro: same_tables_trans addMissingParent_tables)
qed

lemma keepWaiting_ok:
  assumes "waiting_open (c_node c) (Some k) st"
    "map_of (waitingEntries st (c_node c)) k = Some [(Main, xs)]" "map_of (waitingSources st (c_node c)) k = Some [(Main, ys)]"
    "js_get xs (c_index c) = Some data" "None \<in> set xs" "keepWaiting w c k data st = Inr st'"
  shows "waiting_inv st'"
proof -
  let ?n = "c_node c"
  have ok: "entry_ok [(Main, xs)] [(Main, ys)]"
    using aligned_entry [OF _ assms(2)] assms(1,3) by (auto simp: waiting_open_def entry_ok_def)
  have "st' = st\<lparr>es_waiting := AList.update ?n (ikUpdate k [(Main, xs)] (waitingEntries st ?n)) (es_waiting st),
      es_waitingSource := AList.update ?n (ikUpdate k [(Main, ys)] (waitingSources st ?n)) (es_waitingSource st)\<rparr>"
    using assms(2,3,6) js_set_same [OF assms(4)]
    by (simp add: keepWaiting_def entryMain_def Let_def prepareWaitingToExecution_def)
  moreover have "still_missing [(Main, xs)]" using assms(5) by (simp add: still_missing_def)
  ultimately show ?thesis using waiting_open_close [OF assms(1) _ ok] by simp
qed

lemma waiting_inv_enqueue [simp]: "waiting_inv (enqueue w item st) = waiting_inv st"
  by (simp add: enqueue_def waiting_inv_def waiting_aligned_def waiting_incomplete_def)

lemma waiting_open_enqueue [simp]: "waiting_open nm k (enqueue w item st) = waiting_open nm k st"
  by (simp add: enqueue_def waiting_open_def waiting_aligned_def waitingEntries_def)

lemma waiting_open_remove:
  assumes "waiting_open nm (Some k) st"
  shows "waiting_inv (removeWaitingEntry nm k st)"
proof -
  have "waiting_aligned st" "distinct (map fst (es_waiting st))"
    "\<forall>row \<in> set (es_waiting st). fst row \<noteq> nm \<longrightarrow> row_missing row"
    "\<forall>(k', e) \<in> set (waitingEntries st nm). k' \<noteq> k \<longrightarrow> still_missing e"
    using assms by (auto simp: waiting_open_def waiting_aligned_def)
  then show ?thesis
    unfolding waiting_inv_def by (intro conjI aligned_removeWaitingEntry incomplete_removeWaitingEntry)
qed

lemma releaseEntry_ok:
  assumes "waiting_open nm (Some k) st" "releaseEntry w nm k st = Inr st'"
  shows "waiting_inv st'"
proof -
  from assms(2) obtain item where st': "st' = removeWaitingEntry nm k (enqueue w item st)"
    by (auto simp: releaseEntry_def split: option.splits)
  show ?thesis unfolding st' by (rule waiting_open_remove) (use assms(1) in simp)
qed

lemma waiting_inv_addNode:
  assumes "waiting_inv st" "nsd = None \<or> outputOf nsd oi \<noteq> None"
    "addNodeToBeExecuted emptyItem w c oi parent nsd runIndex newRunIndex metadata st = Inr st'"
  shows "waiting_inv st'"
proof (cases "numberOfInputs w (c_node c) \<le> 1")
  case True
  with assms(1,3) show ?thesis
    by (auto simp: addNodeToBeExecuted_def Let_def addDirectly_def split: option.splits)
next
  case False
  let ?n = "c_node c" and ?data = "outputOf nsd oi"
  let ?source = "if nsd = None then None else Some (nodeSource parent oi runIndex)"
  have match: "?data = None \<longleftrightarrow> ?source = None" using assms(2) by (auto simp: outputOf_def)
  from False assms(3) obtain st1 k st2 main where s: "openWaitingEntry w c st = Inr (st1, k)"
    "addWaitingData c k ?data ?source st1 = Inr st2" "entryMain (waitingEntries st2 ?n) k (\<lambda>e. map_of e Main) = Inr main"
    and r: "(if allDataFound main then releaseEntry w ?n k st2
       else ebind (if map_of (es_waiting st) ?n \<noteq> None then Inr st2
                   else addMissingParents emptyItem w ?n oi parent nsd runIndex st2) (keepWaiting w c k ?data)) = Inr st'"
    using that unfolding addNodeToBeExecuted_def Let_def by (auto simp del: not_None_eq)
  from openWaitingEntry_ok [OF assms(1) s(1)] False have st1: "waiting_open ?n (Some k) st1"
    "map_of (waitingEntries st1 ?n) k \<noteq> None" by auto
  then obtain e where e: "map_of (waitingEntries st1 ?n) k = Some e" by blast
  have al: "waiting_aligned st1" using st1(1) by (simp add: waiting_open_def)
  obtain xs ys where xy: "map_of (waitingEntries st1 ?n) k = Some [(Main, xs)]" "map_of (waitingSources st1 ?n) k = Some [(Main, ys)]"
    "list_all2 (\<lambda>x y. x = None \<longleftrightarrow> y = None) xs ys"
    using e by (auto elim: aligned_entry [OF al e])
  let ?xs = "js_set None xs (c_index c) ?data" and ?ys = "js_set None ys (c_index c) ?source"
  have st2: "st2 = st1\<lparr>es_waiting := AList.update ?n (ikUpdate k [(Main, ?xs)] (waitingEntries st1 ?n)) (es_waiting st1),
     es_waitingSource := AList.update ?n (ikUpdate k [(Main, ?ys)] (waitingSources st1 ?n)) (es_waitingSource st1)\<rparr>"
    using addWaitingData_ok [OF al xy(1,2), of ?data ?source] s(2) by simp
  have "entry_ok [(Main, ?xs)] [(Main, ?ys)]"
    using xy(3) match by (auto simp: entry_ok_def intro: list_all2_js_set)
  then have opn2: "waiting_open ?n (Some k) st2" unfolding st2 by (rule waiting_open_update [OF st1(1)])
  have main: "main = ?xs" using s(3) by (simp add: entryMain_def st2)
  show ?thesis
  proof (cases "allDataFound main")
    case True
    with r releaseEntry_ok [OF opn2] show ?thesis by simp
  next
    case missing: False
    from r missing obtain st3 where st3: "keepWaiting w c k ?data st3 = Inr st'"
      "es_waiting st3 = es_waiting st2" "es_waitingSource st3 = es_waitingSource st2"
      using that by (auto simp: same_tables_def split: if_split_asm dest!: addMissingParents_tables)
    have eq: "waitingEntries st3 ?n = waitingEntries st2 ?n" "waitingSources st3 ?n = waitingSources st2 ?n"
      using st3 by (simp_all add: waitingEntries_def waitingSources_def)
    show ?thesis
    proof (rule keepWaiting_ok [OF _ _ _ _ _ st3(1)])
      show "waiting_open ?n (Some k) st3"
        using opn2 st3(2,3) eq(1) by (simp add: waiting_open_def waiting_aligned_def)
      show "map_of (waitingEntries st3 ?n) k = Some [(Main, ?xs)]" "map_of (waitingSources st3 ?n) k = Some [(Main, ?ys)]"
        unfolding eq by (simp_all add: st2)
      show "js_get ?xs (c_index c) = Some ?data" by simp
      show "None \<in> set ?xs" using missing main by (simp add: allDataFound_def)
    qed
  qed
qed

lemma waiting_inv_tryWaitingNode:
  assumes "waiting_inv st" "tryWaitingNode w names nm st = Inr (Dropped st') \<or> tryWaitingNode w names nm st = Inr (Released st')"
  shows "waiting_inv st'"
proof -
  have rem: "waiting_inv (removeWaitingEntry nm k st)" for k
    by (intro waiting_open_remove waiting_inv_open assms(1))
  from assms(2) obtain k xs where "st' = removeWaitingEntry nm k st \<or> st' = (removeWaitingEntry nm k st)\<lparr>es_stack := xs\<rparr>"
    unfolding tryWaitingNode_def by (auto simp: Let_def split: option.splits if_splits)
  with rem [of k] show ?thesis
    by (auto simp: waiting_inv_def waiting_aligned_def waiting_incomplete_def)
qed

lemma waiting_inv_releaseFrom:
  "releaseFrom w waitingNodes names st = Inr st' \<Longrightarrow> waiting_inv st \<Longrightarrow> waiting_inv st'"
proof (induction w waitingNodes names st rule: releaseFrom.induct)
  case (1 w waitingNodes st)
  then show ?case by (simp add: releaseFrom.simps)
next
  case (2 w waitingNodes nm names st)
  show ?case
  proof (cases "tryWaitingNode w waitingNodes nm st")
    case (Inl e)
    with "2.prems" show ?thesis by (simp add: releaseFrom.simps)
  next
    case (Inr r)
    show ?thesis
    proof (cases r)
      case Skip
      with Inr "2.IH"(1) [OF Inr] "2.prems" show ?thesis by (simp add: releaseFrom.simps)
    next
      case (Released st1)
      with Inr "2.prems" waiting_inv_tryWaitingNode [of st w waitingNodes nm st1] show ?thesis by (simp add: releaseFrom.simps)
    next
      case (Dropped st1)
      with Inr "2.prems" waiting_inv_tryWaitingNode [of st w waitingNodes nm st1] "2.IH"(2) [OF Inr Dropped] show ?thesis
        by (simp add: releaseFrom.simps)
    qed
  qed
qed

section \<open>A node with several inputs\<close>

text \<open>What a parent hands to one input of the node.\<close>

record 'i delivery =
  dl_input :: nat
  dl_parent :: string
  dl_output :: nat
  dl_success :: "'i list option list"
  dl_run :: nat

definition deliver :: "'i \<Rightarrow> 'i workflow \<Rightarrow> string \<Rightarrow> 'i delivery \<Rightarrow> 'i engine \<Rightarrow> 'i engine result" where
  "deliver emptyItem w nm d st =
     addNodeToBeExecuted emptyItem w \<lparr>c_node = nm, c_type = Main, c_index = dl_input d\<rparr> (dl_output d) (dl_parent d)
       (Some (dl_success d)) (dl_run d) None None st"

definition no_null_outputs :: "'i run_data \<Rightarrow> bool" where
  "no_null_outputs rd \<longleftrightarrow> (\<forall>(nm, ts) \<in> set rd. \<forall>t \<in> set ts. None \<notin> set (orElse (map_of (orElse (t_data t) []) Main) []))"

definition outputs_known :: "'i workflow \<Rightarrow> string \<Rightarrow> bool" where
  "outputs_known w p \<longleftrightarrow> (\<exists>ns. checkOutputNodes w p = Inr ns \<and> (\<forall>n \<in> set ns. main_inputs w n \<noteq> None))"

lemma incomingConnectionIsEmpty_total:
  assumes "no_null_outputs rd"
  shows "\<exists>b. incomingConnectionIsEmpty rd cs runIndex = Inr b"
proof (induction cs)
  case Nil
  show ?case by (intro exI [of _ True]) simp
next
  case (Cons c cs)
  have "runOutput rd (c_node c) runIndex (c_index c) \<noteq> Some None"
  proof
    assume "runOutput rd (c_node c) runIndex (c_index c) = Some None"
    then obtain ts t where t: "map_of rd (c_node c) = Some ts" "js_get ts runIndex = Some t"
      "js_get (orElse (map_of (orElse (t_data t) []) Main) []) (c_index c) = Some None"
      by (cases "map_of rd (c_node c)") (auto simp: runOutput_def split: option.splits)
    from map_of_SomeD [OF t(1)] js_get_Some_mem [OF t(2)] js_get_Some_mem [OF t(3)] assms
    show False unfolding no_null_outputs_def by fast
  qed
  with Cons show ?case by (auto split: option.splits list.splits)
qed

lemma addMissingParents_v1:
  assumes "w_executionOrder w = Some ''v1''" "outputs_known w parent" "no_null_outputs (en_runData st)"
  shows "addMissingParents emptyItem w nm oi parent nsd runIndex st = Inr st"
proof -
  obtain ns where ns: "checkOutputNodes w parent = Inr ns" "\<forall>n \<in> set ns. main_inputs w n \<noteq> None"
    using assms(2) by (auto simp: outputs_known_def)
  have "addMissingParent emptyItem w oi parent nsd runIndex ns x st = Inr st" for x
  proof (cases "c_node x \<in> set ns")
    case True
    with ns(2) obtain cs where "firstInput w (c_node x) = Inr cs" by (auto simp: firstInput_def)
    moreover obtain b where "incomingConnectionIsEmpty (en_runData st) cs runIndex = Inr b"
      using incomingConnectionIsEmpty_total [OF assms(3)] by blast
    ultimately show ?thesis using assms(1) True by (simp add: addMissingParent_def isLegacyExecutionOrder_def Let_def)
  next
    case False
    with assms(1) show ?thesis by (simp add: addMissingParent_def isLegacyExecutionOrder_def)
  qed
  then have "efold (addMissingParent emptyItem w oi parent nsd runIndex ns) cs st = Inr st" for cs
    by (induction cs) simp_all
  with ns(1) show ?thesis by (simp add: addMissingParents_def)
qed

text \<open>The node waits with one entry, filled as \<open>xs\<close> and \<open>ys\<close> say.\<close>

definition waits :: "string \<Rightarrow> 'i list option list \<Rightarrow> source_data option list \<Rightarrow> 'i engine \<Rightarrow> 'i engine" where
  "waits nm xs ys st = st\<lparr>es_waiting := AList.update nm [(0, [(Main, xs)])] (es_waiting st),
     es_waitingSource := AList.update nm [(0, [(Main, ys)])] (es_waitingSource st)\<rparr>"

lemma waits_simps [simp]:
  "waitingEntries (waits nm xs ys st) nm = [(0, [(Main, xs)])]"
  "waitingSources (waits nm xs ys st) nm = [(0, [(Main, ys)])]"
  "map_of (es_waiting (waits nm xs ys st)) nm = Some [(0, [(Main, xs)])]"
  "en_runData (waits nm xs ys st) = en_runData st" "es_stack (waits nm xs ys st) = es_stack st"
  "waits nm xs' ys' (waits nm xs ys st) = waits nm xs' ys' st"
  by (simp_all add: waits_def waitingEntries_def waitingSources_def)

lemma addWaitingData_waits:
  "c_node c = nm \<Longrightarrow> addWaitingData c 0 data source (waits nm xs ys st) =
     Inr (waits nm (js_set None xs (c_index c) data) (js_set None ys (c_index c) source) st)"
  by (simp add: addWaitingData_def entryMain_def) (simp add: waits_def)

lemma keepWaiting_waits:
  "c_node c = nm \<Longrightarrow> js_get xs (c_index c) = Some data \<Longrightarrow> keepWaiting w c 0 data (waits nm xs ys st) = Inr (waits nm xs ys st)"
  by (simp add: keepWaiting_def entryMain_def Let_def prepareWaitingToExecution_def js_set_same)
    (simp add: waits_def waitingEntries_def waitingSources_def)

lemma releaseEntry_waits:
  assumes "wf_getNode w nm = Some node" "map_of (es_waiting st) nm = None" "map_of (es_waitingSource st) nm = None"
  shows "releaseEntry w nm 0 (waits nm xs ys st) = Inr (enqueue w
    \<lparr>e_node = node, e_data = [(Main, xs)], e_source = Some [(Main, ys)], e_runIndex = None, e_metadata = None\<rparr> st)"
  using assms AList_delete_absent [OF assms(2)] AList_delete_absent [OF assms(3)]
  by (simp add: releaseEntry_def enqueue_def removeWaitingEntry_def waits_def waitingEntries_def waitingSources_def Let_def)

lemma js_set_inside: "i < length xs \<Longrightarrow> js_set d xs i x = xs[i := x]"
  by (simp add: js_set_def)

lemma openWaitingEntry_waits:
  assumes "1 < numberOfInputs w nm" "map_of (es_waiting st) nm = None" "map_of (es_waitingSource st) nm = None"
  shows "openWaitingEntry w \<lparr>c_node = nm, c_type = Main, c_index = i\<rparr> st =
      Inr (waits nm (replicate (numberOfInputs w nm) None) (replicate (numberOfInputs w nm) None) st, 0)"
    "i < length xs \<Longrightarrow> xs ! i = None \<Longrightarrow>
     openWaitingEntry w \<lparr>c_node = nm, c_type = Main, c_index = i\<rparr> (waits nm xs ys st) = Inr (waits nm xs ys st, 0)"
  using assms
  by (simp_all add: openWaitingEntry_def listWaitingNode_def Let_def prepareWaitingToExecution_def js_get_def)
    (simp add: waits_def waitingEntries_def waitingSources_def)

lemma deliver_waits:
  assumes "w_executionOrder w = Some ''v1''" "1 < numberOfInputs w nm" "wf_getNode w nm = Some node"
    "map_of (es_waiting st) nm = None" "map_of (es_waitingSource st) nm = None"
    "outputs_known w (dl_parent d)" "no_null_outputs (en_runData st)"
    "outputOf (Some (dl_success d)) (dl_output d) = Some items" "dl_input d < numberOfInputs w nm"
    "s = st \<and> xs = replicate (numberOfInputs w nm) None \<and> ys = replicate (numberOfInputs w nm) None
     \<or> s = waits nm xs ys st \<and> xs ! dl_input d = None \<and> length xs = numberOfInputs w nm \<and> length ys = numberOfInputs w nm"
  defines "xs' \<equiv> xs[dl_input d := Some items]"
    and "ys' \<equiv> ys[dl_input d := Some (nodeSource (dl_parent d) (dl_output d) (dl_run d))]"
  shows "deliver emptyItem w nm d s = Inr (if None \<in> set xs' then waits nm xs' ys' st
     else enqueue w \<lparr>e_node = node, e_data = [(Main, xs')], e_source = Some [(Main, ys')], e_runIndex = None, e_metadata = None\<rparr> st)"
proof -
  let ?c = "\<lparr>c_node = nm, c_type = Main, c_index = dl_input d\<rparr>"
  have len: "length xs = numberOfInputs w nm" "length ys = numberOfInputs w nm" using assms(10) by auto
  have opn: "openWaitingEntry w ?c s = Inr (waits nm xs ys st, 0)"
    using assms(10) openWaitingEntry_waits [OF assms(2,4,5), of "dl_input d"] len assms(9) by auto
  have add: "addWaitingData ?c 0 (Some items) (Some (nodeSource (dl_parent d) (dl_output d) (dl_run d))) (waits nm xs ys st) =
      Inr (waits nm xs' ys' st)"
    using len assms(9) by (subst addWaitingData_waits [of ?c nm]) (simp_all add: js_set_inside xs'_def ys'_def)
  have missing: "addMissingParents emptyItem w nm (dl_output d) (dl_parent d) (Some (dl_success d)) (dl_run d) (waits nm xs' ys' st) =
      Inr (waits nm xs' ys' st)"
    using assms(1,6,7) by (intro addMissingParents_v1) simp_all
  have keep: "keepWaiting w ?c 0 (Some items) (waits nm xs' ys' st) = Inr (waits nm xs' ys' st)"
    using len assms(9) by (intro keepWaiting_waits) (simp_all add: js_get_def xs'_def)
  show ?thesis
    using assms(2,8) opn add missing keep releaseEntry_waits [OF assms(3,4,5)]
    by (simp add: deliver_def addNodeToBeExecuted_def Let_def entryMain_def allDataFound_def)
qed

lemma join_ok:
  fixes w :: "'i workflow" and items :: "nat \<Rightarrow> 'i list"
  assumes w: "w_executionOrder w = Some ''v1''" "1 < numberOfInputs w nm" "wf_getNode w nm = Some node"
    and st: "map_of (es_waiting st) nm = None" "map_of (es_waitingSource st) nm = None" "no_null_outputs (en_runData st)"
    and ds: "distinct (map dl_input ds)" "dl_input ` set ds = {0..<numberOfInputs w nm}"
    and d: "\<forall>d \<in> set ds. outputs_known w (dl_parent d) \<and>
       outputOf (Some (dl_success d)) (dl_output d) = Some (items (dl_input d)) \<and>
       nodeSource (dl_parent d) (dl_output d) (dl_run d) = sources (dl_input d)"
  shows "efold (deliver emptyItem w nm) ds st = Inr (st\<lparr>es_stack :=
     \<lparr>e_node = node, e_data = [(Main, map (\<lambda>i. Some (items i)) [0..<numberOfInputs w nm])],
      e_source = Some [(Main, map (\<lambda>i. Some (sources i)) [0..<numberOfInputs w nm])],
      e_runIndex = None, e_metadata = None\<rparr> # es_stack st\<rparr>)"
proof -
  let ?k = "numberOfInputs w nm"
  let ?cells = "\<lambda>f ys. map (\<lambda>i. if i \<in> dl_input ` set ys then Some (f i) else None) [0..<?k]"
  let ?full = "enqueue w \<lparr>e_node = node, e_data = [(Main, map (\<lambda>i. Some (items i)) [0..<?k])],
      e_source = Some [(Main, map (\<lambda>i. Some (sources i)) [0..<?k])], e_runIndex = None, e_metadata = None\<rparr> st"
  let ?state = "\<lambda>ys s. if ys = [] then s = st
     else if dl_input ` set ys = {0..<?k} then s = ?full else s = waits nm (?cells items ys) (?cells sources ys) st"
  have cells: "?cells f (ys @ [x]) = (?cells f ys)[dl_input x := Some (f (dl_input x))]" if "dl_input x < ?k" for f ys x
    using that by (intro nth_equalityI) (auto simp: nth_list_update)
  have "\<exists>s. efold (deliver emptyItem w nm) ds st = Inr s \<and> ?state ds s"
  proof (rule efold_total_prefix [where P = ?state])
    fix ys x zs and u :: "'i engine"
    assume split: "ds = ys @ x # zs" and u: "?state ys u"
    then have x: "dl_input x < ?k" "dl_input x \<notin> dl_input ` set ys" "x \<in> set ds" using ds by auto
    then have "dl_input ` set ys \<noteq> {0..<?k}" by auto
    with u have "u = st \<and> ?cells items ys = replicate ?k None \<and> ?cells sources ys = replicate ?k None
        \<or> u = waits nm (?cells items ys) (?cells sources ys) st \<and> ?cells items ys ! dl_input x = None \<and>
          length (?cells items ys) = ?k \<and> length (?cells sources ys) = ?k"
      using x by (cases "ys = []") (auto intro: nth_equalityI)
    from deliver_waits [OF w st(1,2) _ st(3) _ x(1) this, of "items (dl_input x)" emptyItem] d x(1,3)
    have del: "deliver emptyItem w nm x u = Inr (if None \<in> set (?cells items (ys @ [x]))
        then waits nm (?cells items (ys @ [x])) (?cells sources (ys @ [x])) st
        else enqueue w \<lparr>e_node = node, e_data = [(Main, ?cells items (ys @ [x]))],
          e_source = Some [(Main, ?cells sources (ys @ [x]))], e_runIndex = None, e_metadata = None\<rparr> st)"
      unfolding cells [OF x(1)] by simp
    have sub: "dl_input ` set (ys @ [x]) \<subseteq> {0..<?k}" using ds(2) split by auto
    show "\<exists>v. deliver emptyItem w nm x u = Inr v \<and> ?state (ys @ [x]) v"
    proof (cases "dl_input ` set (ys @ [x]) = {0..<?k}")
      case True
      then have full: "?cells f (ys @ [x]) = map (\<lambda>i. Some (f i)) [0..<?k]" for f by auto
      have "None \<notin> set (?cells items (ys @ [x]))" unfolding full by auto
      with del True show ?thesis unfolding full by simp
    next
      case False
      with sub have "None \<in> set (?cells items (ys @ [x]))" by auto
      with del False show ?thesis by simp
    qed
  qed simp
  moreover have "ds \<noteq> []" using ds(2) w(2) by auto
  ultimately show ?thesis using ds(2) w(1) by (simp add: enqueue_def)
qed

section \<open>The order of the nodes after a node\<close>

text \<open>Above, or at the same height and not right of.\<close>

definition notAfter :: "int \<times> int \<Rightarrow> int \<times> int \<Rightarrow> bool" where
  "notAfter p q \<longleftrightarrow> snd p < snd q \<or> snd p = snd q \<and> fst p \<le> fst q"

lemma topLeftLast_less: "topLeftLast a b < 0 \<longleftrightarrow> \<not> notAfter a b"
  by (auto simp: topLeftLast_def notAfter_def)

lemma notAfter_trans: "notAfter a b \<Longrightarrow> notAfter b c \<Longrightarrow> notAfter a c"
  by (auto simp: notAfter_def)

lemma notAfter_total: "\<not> notAfter a b \<Longrightarrow> notAfter b a"
  by (auto simp: notAfter_def)

lemma mset_insertBefore [simp]: "mset (insertBefore cmp x ys) = add_mset x (mset ys)"
  by (induction ys) auto

lemma set_insertBefore [simp]: "set (insertBefore cmp x ys) = insert x (set ys)"
  by (induction ys) auto

lemma mset_sortNodesToAdd [simp]: "mset (sortNodesToAdd (xs :: ((int \<times> int) \<times> 'c) list)) = mset xs"
proof -
  have "mset (fold (insertBefore cmp) xs acc) = mset xs + mset acc" for cmp and acc xs :: "((int \<times> int) \<times> 'c) list"
    by (induction xs arbitrary: acc) auto
  then show ?thesis by (simp add: sortNodesToAdd_def)
qed

lemma set_sortNodesToAdd [simp]: "set (sortNodesToAdd xs) = set xs"
  by (rule mset_eq_setD) simp

lemma sorted_sortNodesToAdd: "sorted_wrt (\<lambda>a b. notAfter (fst b) (fst a)) (sortNodesToAdd xs)"
proof -
  let ?P = "sorted_wrt (\<lambda>a b. notAfter (fst b) (fst a))"
  have ins: "?P ys \<Longrightarrow> ?P (insertBefore (\<lambda>a b. topLeftLast (fst a) (fst b)) x ys)" for x and ys :: "((int \<times> int) \<times> 'a) list"
    by (induction ys) (auto simp: topLeftLast_less intro: notAfter_trans notAfter_total)
  show ?thesis unfolding sortNodesToAdd_def by (rule fold_invariant_set) (simp_all add: ins)
qed

text \<open>The item of a child with at most one input.\<close>

definition childItem :: "'i workflow \<Rightarrow> string \<Rightarrow> 'i list option list \<Rightarrow> nat \<Rightarrow> nat \<times> iconnection \<Rightarrow> 'i execute_data" where
  "childItem w nm nsd runIndex = (\<lambda>(oi, c).
     \<lparr>e_node = the (wf_getNode w (c_node c)),
      e_data = [(Main, js_set None (replicate (Suc (c_index c)) None) (c_index c) (outputOf (Some nsd) oi))],
      e_source = Some [(Main, [Some (nodeSource nm oi runIndex)])], e_runIndex = None, e_metadata = None\<rparr>)"

lemma addNode_single:
  assumes "numberOfInputs w (c_node c) \<le> 1" "wf_getNode w (c_node c) \<noteq> None" "w_executionOrder w = Some ''v1''"
  shows "addNodeToBeExecuted emptyItem w c oi nm (Some nsd) runIndex None None st =
    Inr (st\<lparr>es_stack := childItem w nm nsd runIndex (oi, c) # es_stack st\<rparr>)"
  using assms by (auto simp: addNodeToBeExecuted_def Let_def addDirectly_def enqueue_def childItem_def)

lemma enqueueChildren_v1:
  fixes nsd :: "'i list option list" and w :: "'i workflow" and outs :: node_input_connections
  assumes v1: "w_executionOrder w = Some ''v1''"
    and outs: "map_of (orElse (map_of (w_connectionsBySourceNode w) nm) []) Main = Some outs"
    and single: "\<forall>(oi, c) \<in> set (outputConnections outs). numberOfInputs w (c_node c) \<le> 1 \<and> wf_getNode w (c_node c) \<noteq> None"
  defines "kids \<equiv> map (\<lambda>(oi, c). (n_position (the (wf_getNode w (c_node c))), oi, c))
      (filter (\<lambda>(oi, c). hasDataFor w nsd oi c) (outputConnections outs))"
  shows "enqueueChildren emptyItem w nm nsd runIndex st =
    Inr (st\<lparr>es_stack := rev (map (\<lambda>(_, x). childItem w nm nsd runIndex x) (sortNodesToAdd kids)) @ es_stack st\<rparr>)"
proof -
  have "efold (visitOutput emptyItem w nm nsd runIndex) xs (acc, st) = Inr (acc @ map (\<lambda>(oi, c). (n_position (the (wf_getNode w (c_node c))), oi, c))
      (filter (\<lambda>(oi, c). hasDataFor w nsd oi c) xs), st)" if "set xs \<subseteq> set (outputConnections outs)" for xs acc
    using that
  proof (induction xs arbitrary: acc)
    case (Cons x xs)
    obtain oi c where x: "x = (oi, c)" by (cases x)
    with Cons.prems single obtain node where "wf_getNode w (c_node c) = Some node" by auto
    with Cons x v1 show ?case by (simp add: visitOutput_def)
  qed simp
  from this [of "outputConnections outs" "[]"]
  have a: "efold (visitOutput emptyItem w nm nsd runIndex) (outputConnections outs) ([], st) = Inr (kids, st)"
    by (simp add: kids_def)
  have kids: "set (sortNodesToAdd kids) \<subseteq> (\<lambda>(oi, c). (n_position (the (wf_getNode w (c_node c))), oi, c)) ` set (outputConnections outs)"
    by (auto simp: kids_def)
  have "efold (\<lambda>(_, oi, c). addNodeToBeExecuted emptyItem w c oi nm (Some nsd) runIndex None None) xs st =
      Inr (st\<lparr>es_stack := rev (map (\<lambda>(_, x). childItem w nm nsd runIndex x) xs) @ es_stack st\<rparr>)"
    if "set xs \<subseteq> (\<lambda>(oi, c). (n_position (the (wf_getNode w (c_node c))), oi, c)) ` set (outputConnections outs)" for xs and st :: "'i engine"
    using that
  proof (induction xs arbitrary: st)
    case (Cons x xs)
    then obtain oi c where x: "x = (n_position (the (wf_getNode w (c_node c))), oi, c)" "(oi, c) \<in> set (outputConnections outs)" by auto
    with single have "numberOfInputs w (c_node c) \<le> 1" "wf_getNode w (c_node c) \<noteq> None" by auto
    with Cons x(1) addNode_single [OF this v1] show ?case by simp
  qed simp
  from this [OF kids] a outs v1 show ?thesis by (simp add: enqueueChildren_def)
qed

lemma enqueueChildren_order:
  assumes v1: "w_executionOrder w = Some ''v1''"
    and outs: "map_of (orElse (map_of (w_connectionsBySourceNode w) nm) []) Main = Some outs"
    and single: "\<forall>(oi, c) \<in> set (outputConnections outs). numberOfInputs w (c_node c) \<le> 1 \<and> wf_getNode w (c_node c) \<noteq> None"
  shows "\<exists>items. enqueueChildren emptyItem w nm nsd runIndex st = Inr (st\<lparr>es_stack := items @ es_stack st\<rparr>) \<and>
    sorted_wrt notAfter (map (\<lambda>e. n_position (e_node e)) items) \<and>
    mset items = mset (map (childItem w nm nsd runIndex) (filter (\<lambda>(oi, c). hasDataFor w nsd oi c) (outputConnections outs)))"
proof (intro exI conjI)
  let ?kids = "map (\<lambda>(oi, c). (n_position (the (wf_getNode w (c_node c))), oi, c))
      (filter (\<lambda>(oi, c). hasDataFor w nsd oi c) (outputConnections outs))"
  let ?items = "rev (map (\<lambda>(_, x). childItem w nm nsd runIndex x) (sortNodesToAdd ?kids))"
  show "enqueueChildren emptyItem w nm nsd runIndex st = Inr (st\<lparr>es_stack := ?items @ es_stack st\<rparr>)"
    by (rule enqueueChildren_v1 [OF assms])
  have pos: "\<forall>x \<in> set (sortNodesToAdd ?kids). n_position (e_node (childItem w nm nsd runIndex (snd x))) = fst x"
    by (auto simp: childItem_def)
  have "map (\<lambda>e. n_position (e_node e)) ?items = rev (map fst (sortNodesToAdd ?kids))"
    using pos by (simp add: rev_map split_def)
  moreover have "sorted_wrt notAfter (rev (map fst (sortNodesToAdd ?kids)))"
    using sorted_sortNodesToAdd [of ?kids] by (simp add: sorted_wrt_rev sorted_wrt_map)
  ultimately show "sorted_wrt notAfter (map (\<lambda>e. n_position (e_node e)) ?items)" by (simp del: rev_map)
  show "mset ?items = mset (map (childItem w nm nsd runIndex) (filter (\<lambda>(oi, c). hasDataFor w nsd oi c) (outputConnections outs)))"
    by (simp add: image_mset.compositionality comp_def split_def)
qed

section \<open>Releasing: lemmas\<close>

definition types_known :: "'i workflow \<Rightarrow> bool" where
  "types_known w \<longleftrightarrow> (\<forall>(nm, n) \<in> set (w_nodes w). w_nodeTypes w (n_type n) (n_typeVersion n) \<noteq> None)"

lemma tryWaitingNode_total:
  assumes "waiting_inv st" "types_known w" "nm \<in> fst ` set (es_waiting st)"
  shows "\<exists>r. tryWaitingNode w names nm st = Inr r"
proof (cases "wf_getNode w nm")
  case None
  then show ?thesis by (simp add: tryWaitingNode_def)
next
  case (Some node)
  then have "(nm, node) \<in> set (w_nodes w)" by (auto simp: wf_getNode_def dest: map_of_SomeD)
  with assms(2) obtain t where t: "w_nodeTypes w (n_type node) (n_typeVersion node) = Some t"
    unfolding types_known_def by fastforce
  obtain parents where p: "getParentNodes w nm (OfType Main) (- 1) = Inr parents"
    using getConnectedNodes_ok [of "w_connectionsByDestinationNode w" nm "OfType Main"] unfolding getParentNodes_def by blast
  have d: "distinct (map fst (es_waiting st))" using assms(1) by (simp add: waiting_inv_def waiting_aligned_def)
  from assms(3) obtain entries where e: "(nm, entries) \<in> set (es_waiting st)" by auto
  with d have w: "waitingEntries st nm = entries" by (simp add: waitingEntries_def)
  from e assms(1) have "entries \<noteq> []" unfolding waiting_inv_def waiting_incomplete_def row_missing_def by force
  then obtain k where k: "firstRunIndex entries = Some k"
    by (cases "sort_key nat_string (map fst entries)") (auto simp: firstRunIndex_def dest: arg_cong [of _ _ length])
  from map_of_sort_mem [OF k] obtain x where x: "map_of (waitingEntries st nm) k = Some x" unfolding w by blast
  have al: "waiting_aligned st" using assms(1) by (simp add: waiting_inv_def)
  obtain xs where "x = [(Main, xs)]" using aligned_entry [OF al x] by metis
  with x have m: "entryMain (waitingEntries st nm) k (\<lambda>e. map_of e Main) = Inr xs" by (simp add: entryMain_def)
  show ?thesis using Some t p k m w by (simp add: tryWaitingNode_def Let_def)
qed

text \<open>What is released: the first entry of the node, every input filled, some with data.\<close>

definition released_item :: "'i workflow \<Rightarrow> 'i execute_data \<Rightarrow> bool" where
  "released_item w item \<longleftrightarrow> (\<exists>xs t main. e_data item = [(Main, map Some xs)] \<and> (\<exists>d \<in> set xs. d \<noteq> []) \<and>
     w_nodeTypes w (n_type (e_node item)) (n_typeVersion (e_node item)) = Some t \<and>
     nt_inputs t \<le> length xs \<and> take (length main) xs = map (\<lambda>d. orElse d []) main \<and>
     (w_executionOrder w = Some ''v1'' \<longrightarrow> \<not> requiredInputsMissing (nt_requiredInputs t) main))"

lemma tryWaitingNode_released:
  assumes "tryWaitingNode w names nm st = Inr (Released st')"
  shows "\<exists>item. es_stack st' = es_stack st @ [item] \<and> released_item w item"
proof -
  from assms obtain node t required k main where
    n: "wf_getNode w nm = Some node" "w_nodeTypes w (n_type node) (n_typeVersion node) = Some t"
      "required = (if w_executionOrder w = Some ''v1'' then nt_requiredInputs t else Inl None)"
    and m: "\<not> requiredInputsMissing required main" "list_ex (\<lambda>d. d \<noteq> []) (map (\<lambda>d. orElse d []) main)"
    and st': "st' = (removeWaitingEntry nm k st)\<lparr>es_stack := es_stack st @
        [\<lparr>e_node = node, e_data = [(Main, map Some (padInputs (nt_inputs t) (map (\<lambda>d. orElse d []) main)))],
          e_source = map_of (waitingSources st nm) k, e_runIndex = None, e_metadata = None\<rparr>]\<rparr>"
    unfolding tryWaitingNode_def by (auto simp: Let_def split: option.splits if_split_asm)
  let ?xs = "padInputs (nt_inputs t) (map (\<lambda>d. orElse d []) main)"
  have "\<exists>d \<in> set ?xs. d \<noteq> []" using m(2) by (auto simp: padInputs_def list_ex_iff)
  moreover have "w_executionOrder w = Some ''v1'' \<longrightarrow> \<not> requiredInputsMissing (nt_requiredInputs t) main"
    using n(3) m(1) by auto
  moreover have "nt_inputs t \<le> length ?xs" "take (length main) ?xs = map (\<lambda>d. orElse d []) main"
    by (auto simp: padInputs_def)
  ultimately show ?thesis
    using n(2) by (intro exI [of _ "last (es_stack st')"]) (auto simp: st' released_item_def)
qed

lemma tryWaitingNode_stack:
  "tryWaitingNode w names nm st = Inr (Dropped st') \<Longrightarrow> es_stack st' = es_stack st"
  unfolding tryWaitingNode_def
  by (auto simp: Let_def removeWaitingEntry_def split: option.splits if_split_asm)

lemma releaseFrom_ok:
  assumes "waiting_inv st" "types_known w" "set names \<subseteq> fst ` set (es_waiting st)" "waitingNodes = map fst (es_waiting st)"
    "\<forall>nm \<in> fst ` set (es_waiting st) - set names. tryWaitingNode w waitingNodes nm st = Inr Skip" "es_stack st = []"
  shows "\<exists>st'. releaseFrom w waitingNodes names st = Inr st' \<and> waiting_inv st' \<and>
    (if es_stack st' = [] then \<forall>nm \<in> fst ` set (es_waiting st'). tryWaitingNode w (map fst (es_waiting st')) nm st' = Inr Skip
     else \<exists>item. es_stack st' = [item] \<and> released_item w item)"
  using assms
proof (induction w waitingNodes names st rule: releaseFrom.induct)
  case (1 w waitingNodes st)
  then show ?case by (simp add: releaseFrom.simps)
next
  case (2 w waitingNodes nm names st)
  note prems = "2.prems"
  have "nm \<in> fst ` set (es_waiting st)" using prems(3) by simp
  from tryWaitingNode_total [OF prems(1,2) this] obtain r where r: "tryWaitingNode w waitingNodes nm st = Inr r" by blast
  show ?case
  proof (cases r)
    case Skip
    have "\<exists>st'. releaseFrom w waitingNodes names st = Inr st' \<and> waiting_inv st' \<and>
      (if es_stack st' = [] then \<forall>nm \<in> fst ` set (es_waiting st'). tryWaitingNode w (map fst (es_waiting st')) nm st' = Inr Skip
       else \<exists>item. es_stack st' = [item] \<and> released_item w item)"
      using prems r Skip by (intro "2.IH"(1) [OF r Skip]) auto
    with r Skip show ?thesis by (simp add: releaseFrom.simps)
  next
    case (Released st1)
    with r have t: "tryWaitingNode w waitingNodes nm st = Inr (Released st1)" by simp
    obtain item where item: "es_stack st1 = [item]" "released_item w item"
      using tryWaitingNode_released [OF t] prems(6) by auto
    have "waiting_inv st1" by (rule waiting_inv_tryWaitingNode [OF prems(1) disjI2 [OF t]])
    moreover have "releaseFrom w waitingNodes (nm # names) st = Inr st1" using t by (simp add: releaseFrom.simps)
    ultimately show ?thesis using item by (intro exI [of _ st1]) simp
  next
    case (Dropped st1)
    with r have t: "tryWaitingNode w waitingNodes nm st = Inr (Dropped st1)" by simp
    let ?ks = "map fst (es_waiting st1)"
    have "\<exists>st'. releaseFrom w ?ks ?ks st1 = Inr st' \<and> waiting_inv st' \<and>
      (if es_stack st' = [] then \<forall>nm \<in> fst ` set (es_waiting st'). tryWaitingNode w (map fst (es_waiting st')) nm st' = Inr Skip
       else \<exists>item. es_stack st' = [item] \<and> released_item w item)"
      using prems(2,6) waiting_inv_tryWaitingNode [OF prems(1) disjI1 [OF t]] tryWaitingNode_stack [OF t]
      by (intro "2.IH"(2) [OF r Dropped]) auto
    with t show ?thesis by (simp add: releaseFrom.simps)
  qed
qed

section \<open>Examples\<close>

text \<open>\<open>A\<close> and \<open>B\<close> lead to the two inputs of \<open>J\<close>, whose type requires one of them.\<close>

definition exJoinTypes :: "string \<Rightarrow> nat \<Rightarrow> node_type option" where
  "exJoinTypes t v = Some \<lparr>nt_name = t, nt_group = [], nt_trigger = False, nt_poll = False, nt_webhook = False,
     nt_execute = True, nt_inputs = 2, nt_requiredInputs = Inr 1\<rparr>"

definition exJoinFlow :: "nat workflow" where
  "exJoinFlow = setConnections
     [exMain ''A'' ''J'', (''B'', [(Main, [Some [\<lparr>c_node = ''J'', c_type = Main, c_index = 1\<rparr>]])])]
     \<lparr>w_nodes = [(''A'', mkNode 1 ''A''), (''B'', mkNode 2 ''B''), (''J'', mkNode 3 ''J'')],
      w_connectionsBySourceNode = [], w_connectionsByDestinationNode = [], w_nodeTypes = exJoinTypes,
      w_executionOrder = Some ''v1'', w_pinData = None\<rparr>"

definition exEmpty :: "nat engine" where
  "exEmpty = \<lparr>es_stack = [], es_waiting = [], es_waitingSource = [], en_runData = []\<rparr>"

definition exDelivery :: "string \<Rightarrow> nat \<Rightarrow> nat \<Rightarrow> nat delivery" where
  "exDelivery p i x = \<lparr>dl_input = i, dl_parent = p, dl_output = 0, dl_success = [Some [x]], dl_run = 0\<rparr>"

text \<open>\<open>A\<close> has two targets, the one listed first lies below the other.\<close>

definition exOrderFlow :: "nat workflow" where
  "exOrderFlow = setConnections
     [(''A'', [(Main, [Some [\<lparr>c_node = ''B'', c_type = Main, c_index = 0\<rparr>, \<lparr>c_node = ''J'', c_type = Main, c_index = 0\<rparr>]])])]
     (exJoinFlow\<lparr>w_nodes := [(''A'', mkNode 1 ''A''), (''B'', (mkNode 2 ''B'')\<lparr>n_position := (0, 100)\<rparr>), (''J'', mkNode 3 ''J'')]\<rparr>)"

lemma waiting_inv_exEmpty [simp]: "waiting_inv exEmpty"
  by (simp add: waiting_inv_def waiting_aligned_def waiting_incomplete_def exEmpty_def)

section \<open>Properties\<close>

text \<open>
  C5: a node with several inputs runs once all have data, in any order of arrival: when it is not
  waiting yet and every input gets data once, in the order \<open>v1\<close>, from parents whose outputs lead to
  known nodes, then exactly one item is put in front of the stack, with the data and the source of
  every input at its place, and the waiting tables are as before.
\<close>

theorem join_any_order:
  fixes items :: "nat \<Rightarrow> 'i list"
  assumes "w_executionOrder w = Some ''v1''" "1 < numberOfInputs w nm" "wf_getNode w nm = Some node"
    and "map_of (es_waiting st) nm = None" "map_of (es_waitingSource st) nm = None" "no_null_outputs (en_runData st)"
    and "distinct (map dl_input ds)" "dl_input ` set ds = {0..<numberOfInputs w nm}"
    and "\<forall>d \<in> set ds. outputs_known w (dl_parent d) \<and>
       outputOf (Some (dl_success d)) (dl_output d) = Some (items (dl_input d)) \<and>
       nodeSource (dl_parent d) (dl_output d) (dl_run d) = sources (dl_input d)"
  shows "efold (deliver emptyItem w nm) ds st = Inr (st\<lparr>es_stack :=
     \<lparr>e_node = node, e_data = [(Main, map (\<lambda>i. Some (items i)) [0..<numberOfInputs w nm])],
      e_source = Some [(Main, map (\<lambda>i. Some (sources i)) [0..<numberOfInputs w nm])],
      e_runIndex = None, e_metadata = None\<rparr> # es_stack st\<rparr>)"
  using assms by (rule join_ok)

lemma join_any_order_witness:
  "efold (deliver 0 exJoinFlow ''J'') [exDelivery ''B'' 1 7, exDelivery ''A'' 0 5] exEmpty = Inr (exEmpty\<lparr>es_stack :=
     [\<lparr>e_node = mkNode 3 ''J'', e_data = [(Main, [Some [5], Some [7]])],
       e_source = Some [(Main, [Some (nodeSource ''A'' 0 0), Some (nodeSource ''B'' 0 0)])],
       e_runIndex = None, e_metadata = None\<rparr>]\<rparr>)"
proof -
  let ?ds = "[exDelivery ''B'' 1 7, exDelivery ''A'' 0 5]"
  let ?items = "\<lambda>i. if i = 0 then [5] else [7 :: nat]"
  let ?sources = "\<lambda>i. if i = 0 then nodeSource ''A'' 0 0 else nodeSource ''B'' 0 0"
  have flow: "w_executionOrder exJoinFlow = Some ''v1''" "numberOfInputs exJoinFlow ''J'' = 2"
    "wf_getNode exJoinFlow ''J'' = Some (mkNode 3 ''J'')" by code_simp+
  have "checkOutputNodes exJoinFlow ''A'' = Inr [''J'']" "checkOutputNodes exJoinFlow ''B'' = Inr [''J'']"
    "main_inputs exJoinFlow ''J'' \<noteq> None" by code_simp+
  then have known: "outputs_known exJoinFlow ''A''" "outputs_known exJoinFlow ''B''" by (auto simp: outputs_known_def)
  have "\<forall>d \<in> set ?ds. outputs_known exJoinFlow (dl_parent d) \<and>
       outputOf (Some (dl_success d)) (dl_output d) = Some (?items (dl_input d)) \<and>
       nodeSource (dl_parent d) (dl_output d) (dl_run d) = ?sources (dl_input d)"
    using known by (simp add: exDelivery_def outputOf_def)
  moreover have "dl_input ` set ?ds = {0..<numberOfInputs exJoinFlow ''J''}" "distinct (map dl_input ?ds)"
    unfolding flow(2) by (auto simp: exDelivery_def)
  ultimately show ?thesis
    using join_any_order [of exJoinFlow "''J''" "mkNode 3 ''J''" exEmpty ?ds ?items ?sources 0]
    by (simp add: flow exEmpty_def no_null_outputs_def numeral_2_eq_2)
qed

text \<open>
  C11: the waiting tables stay aligned. If every waiting entry has a source exactly where it has
  data, lacks an input, and no node is listed without entries, then the same holds after data for an
  input was added (and after waiting nodes were released).
\<close>

theorem waiting_tables_invariant:
  assumes "waiting_inv st" "nsd = None \<or> outputOf nsd oi \<noteq> None"
    "addNodeToBeExecuted emptyItem w c oi parent nsd runIndex newRunIndex metadata st = Inr st'"
  shows "waiting_inv st' \<and> (\<forall>w st''. releaseWaiting w st' = Inr st'' \<longrightarrow> waiting_inv st'')"
  using waiting_inv_addNode [OF assms] waiting_inv_releaseFrom
  by (auto simp: releaseWaiting_def split: if_split_asm)

lemma waiting_tables_invariant_witness:
  "\<exists>st'. addNodeToBeExecuted 0 exJoinFlow \<lparr>c_node = ''J'', c_type = Main, c_index = 1\<rparr> 0 ''B'' (Some [Some [7]]) 0 None None exEmpty =
     Inr st' \<and> es_waiting st' = [(''J'', [(0, [(Main, [None, Some [7]])])])] \<and> waiting_inv st'"
proof -
  let ?r = "addNodeToBeExecuted 0 exJoinFlow \<lparr>c_node = ''J'', c_type = Main, c_index = 1\<rparr> 0 ''B'' (Some [Some [7]]) 0 None None exEmpty"
  have "map_sum id es_waiting ?r = Inr [(''J'', [(0, [(Main, [None, Some [7]])])])]" by code_simp
  then obtain st' where "?r = Inr st'" "es_waiting st' = [(''J'', [(0, [(Main, [None, Some [7]])])])]"
    by (cases ?r) auto
  moreover from waiting_tables_invariant [OF waiting_inv_exEmpty _ this(1)] have "waiting_inv st'"
    by (auto simp: outputOf_def)
  ultimately show ?thesis by blast
qed



text \<open>
  In the order \<open>v1\<close> the children of a node, each with at most one input, are put on the stack so
  that the one furthest up, and of those at the same height the one furthest left, runs first; these
  are the children that get data, each once per connection.
\<close>

lemma enqueueChildren_top_left:
  assumes "w_executionOrder w = Some ''v1''"
    and "map_of (orElse (map_of (w_connectionsBySourceNode w) nm) []) Main = Some outs"
    and "\<forall>(oi, c) \<in> set (outputConnections outs). numberOfInputs w (c_node c) \<le> 1 \<and> wf_getNode w (c_node c) \<noteq> None"
  shows "\<exists>items. enqueueChildren emptyItem w nm nsd runIndex st = Inr (st\<lparr>es_stack := items @ es_stack st\<rparr>) \<and>
    sorted_wrt notAfter (map (\<lambda>e. n_position (e_node e)) items) \<and>
    mset items = mset (map (childItem w nm nsd runIndex) (filter (\<lambda>(oi, c). hasDataFor w nsd oi c) (outputConnections outs)))"
  using assms by (rule enqueueChildren_order)

lemma enqueueChildren_top_left_witness:
  "\<exists>items. enqueueChildren 0 exOrderFlow ''A'' [Some [1]] 0 exEmpty = Inr (exEmpty\<lparr>es_stack := items\<rparr>) \<and>
     map (\<lambda>e. n_name (e_node e)) items = [''J'', ''B''] \<and> sorted_wrt notAfter (map (\<lambda>e. n_position (e_node e)) items)"
proof -
  let ?r = "enqueueChildren 0 exOrderFlow ''A'' [Some [1]] 0 exEmpty"
  let ?outs = "[Some [\<lparr>c_node = ''B'', c_type = Main, c_index = 0\<rparr>, \<lparr>c_node = ''J'', c_type = Main, c_index = 0\<rparr>]]"
  have "w_executionOrder exOrderFlow = Some ''v1''"
    "map_of (orElse (map_of (w_connectionsBySourceNode exOrderFlow) ''A'') []) Main = Some ?outs" by code_simp+
  moreover have "list_all (\<lambda>(oi, c). numberOfInputs exOrderFlow (c_node c) \<le> 1 \<and> wf_getNode exOrderFlow (c_node c) \<noteq> None)
      (outputConnections ?outs)" by code_simp
  ultimately obtain items where "?r = Inr (exEmpty\<lparr>es_stack := items\<rparr>)"
    "sorted_wrt notAfter (map (\<lambda>e. n_position (e_node e)) items)"
    using enqueueChildren_top_left [of exOrderFlow "''A''" ?outs 0 "[Some [1]]" 0 exEmpty]
    by (auto simp: list_all_iff exEmpty_def)
  moreover have "map_sum id (\<lambda>st. map (\<lambda>e. n_name (e_node e)) (es_stack st)) ?r = Inr [''J'', ''B'']" by code_simp
  ultimately show ?thesis by auto
qed

text \<open>
  Waiting data can be lost. The index of a new waiting entry is the number of entries there are;
  after the entry 0 of two was completed, the next data for an input the entry 1 already has opens
  "entry 1" again and replaces it. Here \<open>A\<close> sends 1, 2 and 3 and \<open>B\<close> sends 10 and 30 to \<open>J\<close>: nothing
  waits in the end, and the data 2 was never handed on.
\<close>

lemma addNode_overwrites_waiting:
  "\<exists>st'. efold (deliver 0 exJoinFlow ''J'') [exDelivery ''A'' 0 1, exDelivery ''A'' 0 2, exDelivery ''B'' 1 10,
       exDelivery ''A'' 0 3, exDelivery ''B'' 1 30] exEmpty = Inr st' \<and> es_waiting st' = [] \<and>
     map e_data (es_stack st') = [[(Main, [Some [3], Some [30]])], [(Main, [Some [1], Some [10]])]]"
proof -
  let ?r = "efold (deliver 0 exJoinFlow ''J'') [exDelivery ''A'' 0 1, exDelivery ''A'' 0 2, exDelivery ''B'' 1 10,
       exDelivery ''A'' 0 3, exDelivery ''B'' 1 30] exEmpty"
  have "map_sum id (\<lambda>st. (es_waiting st, map e_data (es_stack st))) ?r =
      Inr ([], [[(Main, [Some [3], Some [30]])], [(Main, [Some [1], Some [10]])]])" by code_simp
  then show ?thesis by (cases ?r) auto
qed

text \<open>The run indices are compared as strings: of the entries 2 and 10 the entry 10 is released.\<close>

lemma firstRunIndex_as_string:
  "firstRunIndex [(2, [(Main, [Some [2 :: nat], None])]), (10, [(Main, [Some [10], None])])] = Some 10"
  by code_simp

end
