(* ===== verification/EngineRun.thy ===== *)
theory EngineRun
  imports EngineQueue "HOL-Library.Multiset"
begin

text \<open>
  The main loop of \<open>class WorkflowExecute\<close>
  (\<open>packages/core/src/execution-engine/workflow-execute.ts\<close>): the next item of the stack is taken,
  its node is run with retries, its output is completed, recorded and handed on, until the stack is
  empty, a node fails or the execution is put to wait. What a node does is a parameter (\<open>run_env\<close>).
  Requests of a node to the engine (tools of an agent), hooks, binary data, metadata and times
  are left out; so is the error an earlier trigger run left behind
  (\<open>rethrowLastNodeError\<close>).
\<close>

section \<open>Items\<close>

record paired_item =
  pi_item :: nat
  pi_input :: "nat option"
  pi_sourceOverwrite :: "source_data option"

datatype paired = PlainItem nat | OneItem paired_item | ManyItems "paired_item list"

record node_item =
  ni_json :: "(string \<times> json) list"
  ni_error :: "json option"
  ni_pairedItem :: "paired option"

type_synonym node_output = "node_item list option list option"

text \<open>An error that was thrown: its name and its message.\<close>

record exec_error =
  ee_name :: string
  ee_message :: string

section \<open>The input of a node\<close>

text \<open>
  Every input item is paired with its own position; the input 0 is left out. The item of a tool keeps the
  place its expressions look their items up at (\<open>resolve-source-overwrite.ts\<close>).
\<close>

definition resolveSourceOverwrite :: "node_item \<Rightarrow> node_item execute_data \<Rightarrow> source_data option" where
  "resolveSourceOverwrite item e = (case e_metadata e of None \<Rightarrow> None
     | Some m \<Rightarrow> if \<not> tm_preserveSourceOverwrite m then None
         else case tm_preservedSourceOverwrite m of Some src \<Rightarrow> Some src
           | None \<Rightarrow> (case ni_pairedItem item of Some (OneItem p) \<Rightarrow> pi_sourceOverwrite p | _ \<Rightarrow> None))"

definition pairedWith :: "node_item execute_data \<Rightarrow> nat \<Rightarrow> nat \<times> node_item \<Rightarrow> node_item" where
  "pairedWith e inputIndex = (\<lambda>(itemIndex, item). item\<lparr>ni_pairedItem :=
     Some (OneItem \<lparr>pi_item = itemIndex, pi_input = (if inputIndex = 0 then None else Some inputIndex),
       pi_sourceOverwrite = resolveSourceOverwrite item e\<rparr>)\<rparr>)"

definition pairInput :: "node_item execute_data \<Rightarrow> node_item task_data_connections" where
  "pairInput e = map (\<lambda>(ty, inputs). (ty, map (\<lambda>(inputIndex, input).
     map_option (\<lambda>items. map (pairedWith e inputIndex) (enumerate 0 items)) input) (enumerate 0 inputs))) (e_data e)"

lemma pairInput_node [simp]: "pairInput (e\<lparr>e_node := n\<rparr>) = pairInput e"
  by (simp add: pairInput_def pairedWith_def resolveSourceOverwrite_def)

definition currentRunIndex :: "'i execute_data \<Rightarrow> 'i run_data \<Rightarrow> nat" where
  "currentRunIndex e rd = (case e_runIndex e of Some r \<Rightarrow> r
     | None \<Rightarrow> (case map_of rd (n_name (e_node e)) of Some runs \<Rightarrow> length runs | None \<Rightarrow> 0))"

text \<open>
  \<open>ensureInputData\<close>, the loop over the inputs: \<open>Inr False\<close> when the item has to go back to the stack.
\<close>

fun hasInputFrom :: "'i workflow \<Rightarrow> 'j execute_data \<Rightarrow> nat list \<Rightarrow> bool result" where
  "hasInputFrom w e [] = Inr True"
| "hasInputFrom w e (i # is) =
     ebind (getHighestNode w (n_name (e_node e)) (Some i)) (\<lambda>highestNodes.
       if highestNodes = [] then Inr True
       else case map_of (e_data e) Main of None \<Rightarrow> Inr False
         | Some main \<Rightarrow>
             if isLegacyExecutionOrder w \<and> (length main < i \<or> js_get main i = Some None) then Inr False
             else hasInputFrom w e is)"

definition ensureInputData :: "'i workflow \<Rightarrow> 'j execute_data \<Rightarrow> 'j engine \<Rightarrow> (bool \<times> 'j engine) result" where
  "ensureInputData w e st =
     ebind (hasInputFrom w e [0..<numberOfInputs w (n_name (e_node e))]) (\<lambda>ok.
       Inr (ok, if ok then st else st\<lparr>es_stack := es_stack st @ [e]\<rparr>))"

section \<open>Calling a node\<close>

definition handleDisabledNode :: "'i task_data_connections \<Rightarrow> 'i list option list option" where
  "handleDisabledNode inputData = (case map_of inputData Main of
     Some (Some items # _) \<Rightarrow> Some [Some items]
   | _ \<Rightarrow> None)"

text \<open>
  The items handed to \<open>execute\<close>: \<open>None\<close> when there are none. A custom operation counts as \<open>execute\<close>.
\<close>

definition prepareConnectionInputData :: "'w workflow \<Rightarrow> node_type \<Rightarrow> 'i task_data_connections \<Rightarrow> 'i list option" where
  "prepareConnectionInputData w t inputData =
     (if nt_execute t \<or> (\<not> nt_poll t \<and> \<not> nt_trigger t \<and> \<not> nt_webhook t) then
        (case map_of inputData Main of None \<Rightarrow> None | Some [] \<Rightarrow> None
         | Some (first # rest) \<Rightarrow>
             let withData = (if isLegacyExecutionOrder w then None
                   else find (\<lambda>d. d \<noteq> None \<and> d \<noteq> Some []) (first # rest));
                 connectionInputData = orElse withData first
             in if connectionInputData = None \<or> connectionInputData = Some [] then None else connectionInputData)
      else Some [])"

definition handleExecuteOnce :: "inode \<Rightarrow> 'i task_data_connections \<Rightarrow> 'i task_data_connections" where
  "handleExecuteOnce node inputData =
     (if n_executeOnce node = Some True then map (map_prod id (map (map_option (take 1)))) inputData else inputData)"

section \<open>Retries\<close>

definition maxTriesOf :: "inode \<Rightarrow> int" where
  "maxTriesOf node =
     (if n_retryOnFail node = Some True
      then min 5 (max 2 (case n_maxTries node of None \<Rightarrow> 3 | Some m \<Rightarrow> if m = 0 then 3 else m))
      else 1)"

definition waitBetweenTriesOf :: "inode \<Rightarrow> int" where
  "waitBetweenTriesOf node =
     (if n_retryOnFail node = Some True
      then min 5000 (max 0 (case n_waitBetweenTries node of None \<Rightarrow> 1000 | Some t \<Rightarrow> if t = 0 then 1000 else t))
      else 0)"

datatype outcome = Throws exec_error | Returns node_output

text \<open>\<open>data?.[0]?.[0]?.json?.error !== undefined\<close>\<close>

definition nodeFailed :: "node_output \<Rightarrow> bool" where
  "nodeFailed d = (case d of
     Some (Some (item # _) # _) \<Rightarrow> (case map_of (ni_json item) ''error'' of None \<Rightarrow> False | Some x \<Rightarrow> x \<noteq> JUndefined)
   | _ \<Rightarrow> False)"

text \<open>
  \<open>left\<close> is \<open>maxTries - 1 - tryIndex\<close>, \<open>calls\<close> the number of calls made so far. The inner loop calls
  the node again while it returned an error; a call that throws there leaves \<open>tryIndex\<close> as it was.
\<close>

fun innerTries :: "(nat \<Rightarrow> outcome) \<Rightarrow> nat \<Rightarrow> nat \<Rightarrow> node_output \<Rightarrow> (exec_error + node_output) \<times> nat \<times> nat" where
  "innerTries attempt 0 calls d = (Inr d, 0, calls)"
| "innerTries attempt (Suc left) calls d =
     (if nodeFailed d then
        (case attempt calls of Throws e \<Rightarrow> (Inl e, Suc left, Suc calls)
         | Returns d' \<Rightarrow> innerTries attempt left (Suc calls) d')
      else (Inr d, Suc left, calls))"

text \<open>The data of one try: the pin data of the node, or what calling it gives.\<close>

definition callNode :: "node_item list option \<Rightarrow> (nat \<Rightarrow> outcome) \<Rightarrow> nat \<Rightarrow> nat \<Rightarrow> (exec_error + node_output) \<times> nat \<times> nat" where
  "callNode pinned attempt left calls = (case pinned of
     Some items \<Rightarrow> (Inr (Some [Some items]), left, calls)
   | None \<Rightarrow> (case attempt calls of Throws e \<Rightarrow> (Inl e, left, Suc calls)
       | Returns d \<Rightarrow> innerTries attempt left (Suc calls) d))"

lemma innerTries_left: "innerTries attempt left calls d = (r, left', calls') \<Longrightarrow> left' \<le> left"
  by (induction attempt left calls d rule: innerTries.induct)
    (auto split: if_splits outcome.splits intro: le_SucI)

lemma callNode_left: "callNode pinned attempt left calls = (r, left', calls') \<Longrightarrow> left' \<le> left"
  by (auto simp: callNode_def split: option.splits outcome.splits dest: innerTries_left)

text \<open>
  What the tries end with: the error of the last one, if it failed; \<open>nodeSuccessData\<close>, which keeps the
  data of an earlier try; the number of calls; whether \<open>lastNodeExecuted\<close> was set to the node. \<open>finish\<close>
  is what is done with the returned data inside the \<open>try\<close>.
\<close>

record tries =
  tr_error :: "exec_error option"
  tr_data :: node_output
  tr_calls :: nat
  tr_last :: bool

function (sequential) runTries ::
  "node_item list option \<Rightarrow> (nat \<Rightarrow> outcome) \<Rightarrow> (node_output \<Rightarrow> exec_error option \<times> node_output \<times> bool) \<Rightarrow>
    nat \<Rightarrow> nat \<Rightarrow> node_output \<Rightarrow> bool \<Rightarrow> tries" where
  "runTries pinned attempt finish left calls d executed =
     (case callNode pinned attempt left calls of (r, left', calls') \<Rightarrow>
        (case (case r of Inl e \<Rightarrow> (Some e, d, True) | Inr d' \<Rightarrow> finish d') of
           (None, d', named) \<Rightarrow> \<lparr>tr_error = None, tr_data = d', tr_calls = calls', tr_last = executed \<or> named\<rparr>
         | (Some e, d', _) \<Rightarrow>
             if left' = 0 then \<lparr>tr_error = Some e, tr_data = d', tr_calls = calls', tr_last = True\<rparr>
             else runTries pinned attempt finish (left' - 1) calls' d' True))"
  by pat_completeness auto

termination
  by (relation "measure (\<lambda>(pinned, attempt, finish, left, calls, d, executed). left)")
    (auto dest!: callNode_left [OF sym])

declare runTries.simps [simp del]

section \<open>Running one node\<close>

text \<open>
  What is not the engine: \<open>re_execute item runIndex inputs data n\<close> is the outcome of the \<open>n\<close>-th call of
  the node's own code for an item (its custom operation, its \<open>execute\<close>, a poll or trigger in manual
  mode, the routing of a declarative node), \<open>re_waits\<close> whether that code put the execution to wait,
  \<open>re_pairedJson\<close> the JSON of the item an output item came from (\<open>$getPairedItem\<close>), \<open>re_outputs\<close> the
  number of main outputs of a node, \<open>re_cancelled\<close> whether the execution was cancelled or timed out
  before the item with this number was taken.
\<close>

record run_env =
  re_pinData :: "node_item pin_data"
  re_runNodeFilter :: "string list option"
  re_destination :: "string option"
  re_manual :: bool
  re_execute :: "node_item execute_data \<Rightarrow> nat \<Rightarrow> node_item list \<Rightarrow> node_item task_data_connections \<Rightarrow> nat \<Rightarrow> outcome"
  re_waits :: "node_item execute_data \<Rightarrow> nat \<Rightarrow> bool"
  re_pairedJson :: "source_data \<Rightarrow> paired_item \<Rightarrow> (string \<times> json) list option"
  re_outputs :: "inode \<Rightarrow> nat"
  re_cancelled :: "nat \<Rightarrow> bool"

definition typeError :: exec_error where
  "typeError = \<lparr>ee_name = ''TypeError'', ee_message = []\<rparr>"

definition passThrough :: "node_type \<Rightarrow> bool \<Rightarrow> bool" where
  "passThrough t manual \<longleftrightarrow> \<not> nt_execute t \<and> (nt_poll t \<or> nt_trigger t \<or> nt_webhook t)
     \<and> \<not> (manual \<and> (nt_poll t \<or> nt_trigger t))"

definition runNode :: "run_env \<Rightarrow> 'w workflow \<Rightarrow> node_item execute_data \<Rightarrow> nat \<Rightarrow> nat \<Rightarrow> outcome" where
  "runNode env w e runIndex n =
     (let node = e_node e; inputData = e_data e
      in if isDisabled node then Returns (handleDisabledNode inputData)
         else case w_nodeTypes w (n_type node) (n_typeVersion node) of None \<Rightarrow> Throws typeError
         | Some t \<Rightarrow> (case prepareConnectionInputData w t inputData of None \<Rightarrow> Returns None
             | Some items \<Rightarrow>
                 let inputData = handleExecuteOnce node inputData
                 in if passThrough t (re_manual env) then Returns (map_of inputData Main)
                    else re_execute env e runIndex items inputData n))"

subsection \<open>The error output\<close>

definition jsonField :: "node_item \<Rightarrow> string \<Rightarrow> json" where
  "jsonField item k = orElse (map_of (ni_json item) k) JUndefined"

definition isErrorItem :: "node_item \<Rightarrow> bool" where
  "isErrorItem item \<longleftrightarrow>
     truthy (orElse (ni_error item) JUndefined)
   \<or> truthy (jsonField item ''error'') \<and> length (ni_json item) = 1
   \<or> truthy (jsonField item ''error'') \<and> truthy (jsonField item ''message'') \<and> length (ni_json item) = 2"

definition firstPaired :: "node_item \<Rightarrow> paired_item option" where
  "firstPaired item = (case ni_pairedItem item of None \<Rightarrow> None
     | Some (PlainItem _) \<Rightarrow> None | Some (OneItem p) \<Rightarrow> Some p | Some (ManyItems ps) \<Rightarrow> js_get ps 0)"

text \<open>\<open>{ ...a, ...b }\<close>\<close>

definition spread :: "('k \<times> 'v) list \<Rightarrow> ('k \<times> 'v) list \<Rightarrow> ('k \<times> 'v) list" where
  "spread a b = fold (\<lambda>(k, v). AList.update k v) b a"

definition errorItem :: "run_env \<Rightarrow> node_item execute_data \<Rightarrow> node_item \<Rightarrow> node_item result" where
  "errorItem env e item = (case (e_source e, firstPaired item) of
     (None, _) \<Rightarrow> Inr item
   | (_, None) \<Rightarrow> Inr item
   | (Some source, Some p) \<Rightarrow>
       (case map_of source Main of None \<Rightarrow> Inl TypeError
        | Some sources \<Rightarrow> (case js_get sources (orElse (pi_input p) 0) of
            Some (Some s) \<Rightarrow> (case re_pairedJson env s p of None \<Rightarrow> Inr item
              | Some j \<Rightarrow> Inr (item\<lparr>ni_json := spread j (ni_json item)\<rparr>))
          | _ \<Rightarrow> Inl TypeError)))"

text \<open>
  The items of one output: the ones that carry an error are moved to the error items. \<open>Inl rest\<close>: an
  exception, with the items not yet taken.
\<close>

fun splitItems ::
  "run_env \<Rightarrow> node_item execute_data \<Rightarrow> node_item list \<Rightarrow> node_item list \<Rightarrow> node_item list \<Rightarrow>
    node_item list + node_item list \<times> node_item list" where
  "splitItems env e [] successItems errorItems = Inr (successItems, errorItems)"
| "splitItems env e (item # items) successItems errorItems =
     (if isErrorItem item
      then (case errorItem env e item of Inl _ \<Rightarrow> Inl items
            | Inr x \<Rightarrow> splitItems env e items successItems (errorItems @ [x]))
      else splitItems env e items (successItems @ [item]) errorItems)"

fun splitOutputs ::
  "run_env \<Rightarrow> node_item execute_data \<Rightarrow> nat list \<Rightarrow> node_item list option list \<Rightarrow> node_item list \<Rightarrow>
    bool \<times> node_item list option list \<times> node_item list" where
  "splitOutputs env e [] outs errorItems = (True, outs, errorItems)"
| "splitOutputs env e (oi # ois) outs errorItems =
     (case splitItems env e (case js_get outs oi of Some (Some items) \<Rightarrow> items | _ \<Rightarrow> []) [] errorItems of
        Inl rest \<Rightarrow> (False, outs[oi := Some rest], errorItems)
      | Inr (successItems, errorItems') \<Rightarrow> splitOutputs env e ois (js_set None outs oi (Some successItems)) errorItems')"

text \<open>
  \<open>nodeSuccessData[mainOutputTypes.length - 1] = errorItems\<close>: with no main output the index is \<open>-1\<close>, a
  property that is no output.
\<close>

definition handleNodeErrorOutput :: "run_env \<Rightarrow> node_item execute_data \<Rightarrow> node_item list option list \<Rightarrow> bool \<times> node_item list option list" where
  "handleNodeErrorOutput env e outs =
     (let n = re_outputs env (e_node e)
      in case splitOutputs env e [0..<n - 1] outs [] of
           (ok, outs', errorItems) \<Rightarrow>
             (ok, if ok \<and> n > 0 then js_set None outs' (n - 1) (Some errorItems) else outs'))"

subsection \<open>Pairing the output with the input\<close>

text \<open>
  How the items of an output are paired: \<open>None\<close> when they cannot be. Reading a missing \<open>main\<close>, or the
  length of an output that is \<open>null\<close>, is a \<open>TypeError\<close>.
\<close>

definition pairMode :: "node_item list option list \<Rightarrow> node_item list option list \<Rightarrow> (nat \<Rightarrow> nat) option result" where
  "pairMode main outs =
     (let firstInput = (case main of [Some items] \<Rightarrow> Some (length items) | _ \<Rightarrow> None);
          single = (firstInput = Some 1)
      in if length outs = 1 \<and> length main = 1 \<and> hd outs = None then Inl TypeError
         else let same = (case outs of [Some items] \<Rightarrow> firstInput = Some (length items) | _ \<Rightarrow> False);
                  aggregated = (case outs of [Some [_]] \<Rightarrow> (case firstInput of Some n \<Rightarrow> n > 1 | None \<Rightarrow> False) | _ \<Rightarrow> False)
              in Inr (if single then Some (\<lambda>_. 0) else if same then Some (\<lambda>i. i)
                      else if aggregated then Some (\<lambda>_. 0) else None))"

definition pairItem :: "(nat \<Rightarrow> nat) \<Rightarrow> nat \<times> node_item \<Rightarrow> node_item" where
  "pairItem g = (\<lambda>(i, item). if ni_pairedItem item = None
     then item\<lparr>ni_pairedItem := Some (OneItem \<lparr>pi_item = g i, pi_input = None, pi_sourceOverwrite = None\<rparr>)\<rparr> else item)"

definition assignPairedItems :: "node_output \<Rightarrow> node_item execute_data \<Rightarrow> node_output result" where
  "assignPairedItems d e = (case d of None \<Rightarrow> Inr None | Some [] \<Rightarrow> Inr (Some [])
     | Some outs \<Rightarrow> (case map_of (e_data e) Main of None \<Rightarrow> Inl TypeError
         | Some main \<Rightarrow> ebind (pairMode main outs) (\<lambda>mode. Inr (case mode of
             None \<Rightarrow> Some outs
           | Some g \<Rightarrow> Some (map (map_option (\<lambda>items. map (pairItem g) (enumerate 0 items))) outs)))))"

subsection \<open>Output for a node that has none\<close>

definition firstItemMissing :: "node_output \<Rightarrow> bool" where
  "firstItemMissing d = (case d of Some (Some (_ # _) # _) \<Rightarrow> False | _ \<Rightarrow> True)"

definition allInputItems :: "node_item list option list \<Rightarrow> paired_item list" where
  "allInputItems main = concat (map (\<lambda>(inputIndex, input). case input of None \<Rightarrow> []
     | Some items \<Rightarrow> map (\<lambda>itemIndex. \<lparr>pi_item = itemIndex, pi_input = Some inputIndex, pi_sourceOverwrite = None\<rparr>) [0..<length items]) (enumerate 0 main))"

definition addAlwaysOutput :: "node_item execute_data \<Rightarrow> node_output \<Rightarrow> node_output result" where
  "addAlwaysOutput e d =
     (if firstItemMissing d \<and> n_alwaysOutputData (e_node e) = Some True
      then (case map_of (e_data e) Main of None \<Rightarrow> Inl TypeError
        | Some main \<Rightarrow> Inr (Some (js_set None (orElse d []) 0
            (Some [\<lparr>ni_json = [], ni_error = None, ni_pairedItem = Some (ManyItems (allInputItems main))\<rparr>]))))
      else Inr d)"

text \<open>
  What follows a call of the node inside the \<open>try\<close>: the error it throws, if any, the data, and whether
  the node was set as \<open>lastNodeExecuted\<close> (not for data that is \<open>null\<close> before \<open>alwaysOutputData\<close>).
\<close>

definition splitForErrors :: "run_env \<Rightarrow> node_item execute_data \<Rightarrow> bool \<Rightarrow> node_output \<Rightarrow> bool \<times> node_output" where
  "splitForErrors env e pinned d = (case d of
     Some outs \<Rightarrow> if \<not> pinned \<and> n_onError (e_node e) = Some ContinueErrorOutput
       then map_prod id Some (handleNodeErrorOutput env e outs) else (True, d)
   | None \<Rightarrow> (True, d))"

definition finishTry :: "run_env \<Rightarrow> node_item execute_data \<Rightarrow> bool \<Rightarrow> node_output \<Rightarrow> exec_error option \<times> node_output \<times> bool" where
  "finishTry env e pinned d =
     (case splitForErrors env e pinned d of (ok, d) \<Rightarrow>
        if \<not> ok then (Some typeError, d, True)
        else case assignPairedItems d e of Inl _ \<Rightarrow> (Some typeError, d, True)
          | Inr d \<Rightarrow> (case addAlwaysOutput e d of Inl _ \<Rightarrow> (Some typeError, d, True)
              | Inr d' \<Rightarrow> (None, d', d \<noteq> None)))"

section \<open>Recording a run\<close>

fun jsonMessage :: "json \<Rightarrow> json result" where
  "jsonMessage JUndefined = Inl TypeError"
| "jsonMessage JNull = Inl TypeError"
| "jsonMessage (JObj fs) = Inr (orElse (map_of fs ''message'') JUndefined)"
| "jsonMessage _ = Inr JUndefined"

text \<open>
  An item that reports an error gets its message as its data: \<open>$error\<close> beside \<open>$json\<close>, or the error
  of the item.
\<close>

definition mergeErrorItem :: "node_item \<Rightarrow> node_item result" where
  "mergeErrorItem item =
     (if jsonField item ''$error'' \<noteq> JUndefined \<and> jsonField item ''$json'' \<noteq> JUndefined
      then ebind (jsonMessage (jsonField item ''$error'')) (\<lambda>m.
        Inr (item\<lparr>ni_error := Some (jsonField item ''$error''), ni_json := [(''error'', m)]\<rparr>))
      else if orElse (ni_error item) JUndefined \<noteq> JUndefined
      then ebind (jsonMessage (orElse (ni_error item) JUndefined)) (\<lambda>m. Inr (item\<lparr>ni_json := [(''error'', m)]\<rparr>))
      else Inr item)"

definition mergeOutput :: "node_item list option \<Rightarrow> node_item list option list \<Rightarrow> node_item list option list result" where
  "mergeOutput out done = (case out of None \<Rightarrow> Inl TypeError
     | Some items \<Rightarrow> ebind (efold (\<lambda>item acc. ebind (mergeErrorItem item) (\<lambda>x. Inr (acc @ [x]))) items [])
         (\<lambda>items'. Inr (done @ [Some items'])))"

text \<open>\<open>for (const execution of nodeSuccessData!)\<close>\<close>

definition mergeErrors :: "node_output \<Rightarrow> node_item list option list result" where
  "mergeErrors d = (case d of None \<Rightarrow> Inl TypeError | Some outs \<Rightarrow> efold mergeOutput outs [])"

text \<open>\<open>Object.assign(currentTaskData, taskData)\<close>: a field \<open>taskData\<close> does not have keeps its value.\<close>

definition assignTask :: "'i task_data \<Rightarrow> 'i task_data \<Rightarrow> 'i task_data" where
  "assignTask old new =
     \<lparr>t_executionIndex = t_executionIndex new, t_source = t_source new, t_executionStatus = t_executionStatus new,
      t_data = (if t_data new = None then t_data old else t_data new),
      t_inputOverride = (if t_inputOverride new = None then t_inputOverride old else t_inputOverride new),
      t_error = (if t_error new = None then t_error old else t_error new)\<rparr>"

definition recordRun :: "string \<Rightarrow> nat \<Rightarrow> 'i task_data \<Rightarrow> 'i run_data \<Rightarrow> 'i run_data" where
  "recordRun nm runIndex task rd =
     (let runs = orElse (map_of rd nm) []
      in AList.update nm (case js_get runs runIndex of
           Some old \<Rightarrow> runs[runIndex := assignTask old task]
         | None \<Rightarrow> runs @ [task]) rd)"

text \<open>The output, logged under the connection type \<open>rewireOutputLogTo\<close> if the node names one.\<close>

definition withOutput :: "inode \<Rightarrow> nat \<Rightarrow> node_item run_data \<Rightarrow> node_item list option list \<Rightarrow> node_item task_data \<Rightarrow> node_item task_data" where
  "withOutput node runIndex rd outs task = (case n_rewireOutputLogTo node of
     None \<Rightarrow> task\<lparr>t_data := Some [(Main, outs)]\<rparr>
   | Some ct \<Rightarrow> task\<lparr>t_data := Some [(ct, outs)],
       t_inputOverride := Some (case js_get (orElse (map_of rd (n_name node)) []) runIndex of
         None \<Rightarrow> [] | Some old \<Rightarrow> orElse (t_inputOverride old) [])\<rparr>)"

definition continuesOnFail :: "inode \<Rightarrow> bool" where
  "continuesOnFail node \<longleftrightarrow> n_continueOnFail node = Some True
     \<or> n_onError node = Some ContinueRegularOutput \<or> n_onError node = Some ContinueErrorOutput"

text \<open>The first input passed through in place of the output of a node that failed.\<close>

definition passedInput :: "node_item execute_data \<Rightarrow> node_output \<Rightarrow> node_output" where
  "passedInput e d = (case map_of (e_data e) Main of
     Some (Some items # _) \<Rightarrow> Some [Some items] | _ \<Rightarrow> d)"

section \<open>The loop\<close>

record run_state =
  rs_engine :: "node_item engine"
  rs_lastTry :: "(string \<times> nat) option"
  rs_executionIndex :: nat
  rs_lastNodeExecuted :: "string option"
  rs_waitTill :: bool
  rs_error :: "exec_error option"

datatype step = Continue run_state | Break run_state

definition emptyNodeItem :: node_item where
  "emptyNodeItem = \<lparr>ni_json = [], ni_error = None, ni_pairedItem = None\<rparr>"

definition putBack :: "node_item execute_data \<Rightarrow> node_item engine \<Rightarrow> node_item engine" where
  "putBack e st = st\<lparr>es_stack := e # es_stack st\<rparr>"

definition startedTask :: "nat \<Rightarrow> node_item execute_data \<Rightarrow> bool \<Rightarrow> exec_error option \<Rightarrow> node_item task_data" where
  "startedTask index e waiting err =
     \<lparr>t_executionIndex = Some index,
      t_source = (case e_source e of None \<Rightarrow> [] | Some s \<Rightarrow> orElse (map_of s Main) []),
      t_executionStatus = Some (if err \<noteq> None then StError else if waiting then StWaiting else StSuccess),
      t_data = None, t_inputOverride = None, t_error = map_option ee_message err\<rparr>"

text \<open>A node that failed and does not let the workflow go on: the run ends, and can start again from it.\<close>

definition recordFailure :: "node_item execute_data \<Rightarrow> nat \<Rightarrow> exec_error \<Rightarrow> node_item task_data \<Rightarrow> run_state \<Rightarrow> run_state" where
  "recordFailure e runIndex err task s =
     (let node = e_node e; rd = en_runData (rs_engine s);
          task' = (if n_rewireOutputLogTo node = None then task
            else withOutput node runIndex rd [Some [emptyNodeItem\<lparr>ni_json := [(''error'', JStr (ee_message err))]\<rparr>]] task)
      in s\<lparr>rs_engine := putBack e ((rs_engine s)\<lparr>en_runData := recordRun (n_name node) runIndex task' rd\<rparr>)\<rparr>)"

definition recordSuccess :: "run_env \<Rightarrow> node_item workflow \<Rightarrow> node_item execute_data \<Rightarrow> nat \<Rightarrow> node_output \<Rightarrow> node_item task_data \<Rightarrow> run_state \<Rightarrow> step result" where
  "recordSuccess env w e runIndex d task s =
     ebind (mergeErrors d) (\<lambda>outs.
       let node = e_node e; rd = en_runData (rs_engine s);
           st = (rs_engine s)\<lparr>en_runData := recordRun (n_name node) runIndex (withOutput node runIndex rd outs task) rd\<rparr>
       in if rs_waitTill s then Inr (Break (s\<lparr>rs_engine := putBack e st\<rparr>))
          else if re_destination env = Some (n_name node) then Inr (Continue (s\<lparr>rs_engine := st\<rparr>))
          else ebind (enqueueChildren emptyNodeItem w (n_name node) outs runIndex st) (\<lambda>st.
            ebind (releaseWaiting w st) (\<lambda>st. Inr (Continue (s\<lparr>rs_engine := st\<rparr>)))))"

text \<open>The tries of a node: \<open>nodeSuccessData\<close> starts as \<open>null\<close>.\<close>

definition tryNode :: "run_env \<Rightarrow> node_item workflow \<Rightarrow> node_item execute_data \<Rightarrow> nat \<Rightarrow> tries" where
  "tryNode env w e runIndex =
     (let node = e_node e; pinned = (if isDisabled node then None else map_of (re_pinData env) (n_name node))
      in runTries pinned (runNode env w e runIndex) (finishTry env e (pinned \<noteq> None)) (nat (maxTriesOf node) - 1) 0 None False)"

text \<open>
  The end of a round for a node that was run: nothing is recorded for a node without data, unless it
  put the execution to wait.
\<close>

definition recordTries :: "run_env \<Rightarrow> node_item workflow \<Rightarrow> nat \<Rightarrow> node_item execute_data \<Rightarrow> nat \<Rightarrow> tries \<Rightarrow> run_state \<Rightarrow> step result" where
  "recordTries env w index e runIndex tr s =
     (let s = (if tr_last tr then s\<lparr>rs_lastNodeExecuted := Some (n_name (e_node e))\<rparr> else s);
          s = (if tr_calls tr > 0 \<and> \<not> isDisabled (e_node e) \<and> re_waits env e runIndex then s\<lparr>rs_waitTill := True\<rparr> else s);
          s = s\<lparr>rs_error := tr_error tr\<rparr>;
          task = startedTask index e (rs_waitTill s) (tr_error tr)
      in case tr_error tr of
           Some err \<Rightarrow>
             if continuesOnFail (e_node e) then recordSuccess env w e runIndex (passedInput e (tr_data tr)) task s
             else Inr (Break (recordFailure e runIndex err task s))
         | None \<Rightarrow>
             if tr_data tr = None \<and> \<not> rs_waitTill s then Inr (Continue s)
             else recordSuccess env w e runIndex (tr_data tr) task s)"

definition onFilter :: "run_env \<Rightarrow> string \<Rightarrow> bool" where
  "onFilter env nm = (case re_runNodeFilter env of None \<Rightarrow> True | Some names \<Rightarrow> nm \<in> set names)"

text \<open>
  One round, for the item \<open>e\<close> that was taken from the stack. An item whose node may not run yet goes
  back to the end of the stack and is remembered as the last try.
\<close>

definition runItem :: "run_env \<Rightarrow> node_item workflow \<Rightarrow> nat \<Rightarrow> node_item execute_data \<Rightarrow> run_state \<Rightarrow> step result" where
  "runItem env w index e s =
     (let e = e\<lparr>e_data := pairInput e\<rparr>; nm = n_name (e_node e);
          runIndex = currentRunIndex e (en_runData (rs_engine s))
      in if rs_lastTry s = Some (nm, runIndex)
         then Inl (ApplicationError ''Stopped execution because it seems to be in an endless loop'')
         else if \<not> onFilter env nm then Inr (Continue s)
         else ebind (ensureInputData w e (rs_engine s)) (\<lambda>(ok, st).
           if \<not> ok then Inr (Continue (s\<lparr>rs_engine := st, rs_lastTry := Some (nm, runIndex)\<rparr>))
           else recordTries env w index e runIndex (tryNode env w e runIndex) s))"

datatype run_end = Finished | Cancelled | Stopped

definition takeItem :: "run_state \<Rightarrow> run_state" where
  "takeItem s = s\<lparr>rs_engine := (rs_engine s)\<lparr>es_stack := tl (es_stack (rs_engine s))\<rparr>,
     rs_executionIndex := Suc (rs_executionIndex s), rs_error := None\<rparr>"

text \<open>A workflow can run forever, so the loop has fuel: one unit for each item that is taken.\<close>

fun runLoop :: "nat \<Rightarrow> run_env \<Rightarrow> node_item workflow \<Rightarrow> run_state \<Rightarrow> (run_end \<times> run_state) result" where
  "runLoop fuel env w s =
     (case es_stack (rs_engine s) of [] \<Rightarrow> Inr (Finished, s)
      | e # _ \<Rightarrow>
          if re_cancelled env (rs_executionIndex s) then Inr (Cancelled, s)
          else case fuel of 0 \<Rightarrow> Inl OutOfFuel
            | Suc n \<Rightarrow> (case runItem env w (rs_executionIndex s) e (takeItem s) of
                Inl err \<Rightarrow> Inl err
              | Inr (Continue s') \<Rightarrow> runLoop n env w s'
              | Inr (Break s') \<Rightarrow> Inr (Stopped, s')))"

declare runLoop.simps [simp del]

section \<open>Around the loop\<close>

fun startsWith :: "string \<Rightarrow> string \<Rightarrow> bool" where
  "startsWith [] s = True"
| "startsWith (c # cs) [] = False"
| "startsWith (c # cs) (d # ds) = (c = d \<and> startsWith cs ds)"

fun containsText :: "string \<Rightarrow> string \<Rightarrow> bool" where
  "containsText p [] = (p = [])"
| "containsText p (c # cs) = (startsWith p (c # cs) \<or> containsText p cs)"

text \<open>\<open>processSuccessExecution\<close>: the status the run ends with.\<close>

definition processSuccessExecution :: "exec_error option \<Rightarrow> bool \<Rightarrow> execution_status" where
  "processSuccessExecution err waiting = (case err of
     Some e \<Rightarrow> if containsText ''canceled'' (ee_message e) \<or> containsText ''Cancelled'' (ee_name e) then StCanceled else StError
   | None \<Rightarrow> if waiting then StWaiting else StSuccess)"

text \<open>
  The run ends with the error of the round before, if it had one; a run that was cancelled gets the
  error of its cancellation only otherwise.
\<close>

definition endStatus :: "exec_error \<Rightarrow> run_end \<times> run_state \<Rightarrow> execution_status" where
  "endStatus cancellation = (\<lambda>(r, s). processSuccessExecution
     (if r = Cancelled \<and> rs_error s = None then Some cancellation else rs_error s) (rs_waitTill s))"

definition updateTaskStatusesToCancelled :: "'i run_data \<Rightarrow> 'i run_data" where
  "updateTaskStatusesToCancelled = map (\<lambda>(nm, runs). (nm, map (\<lambda>t.
     if t_executionStatus t = Some StRunning then t\<lparr>t_executionStatus := Some StCanceled\<rparr> else t) runs))"

text \<open>
  Taking up an execution that waited: the waiting node is disabled, so that it passes its input on,
  and its last run is removed. A run data array that is missing cannot be changed.
\<close>

definition handleWaitingState :: "run_state \<Rightarrow> run_state result" where
  "handleWaitingState s =
     (if \<not> rs_waitTill s then Inr s
      else case es_stack (rs_engine s) of [] \<Rightarrow> Inl TypeError
        | e # rest \<Rightarrow>
            let e' = e\<lparr>e_node := (e_node e)\<lparr>n_disabled := Some True\<rparr>\<rparr>; rd = en_runData (rs_engine s)
            in case rs_lastNodeExecuted s of None \<Rightarrow> Inl TypeError
               | Some nm \<Rightarrow> (case map_of rd nm of None \<Rightarrow> Inl TypeError
                   | Some runs \<Rightarrow> Inr (s\<lparr>rs_waitTill := False,
                       rs_engine := (rs_engine s)\<lparr>es_stack := e' # rest, en_runData := AList.update nm (butlast runs) rd\<rparr>\<rparr>)))"

text \<open>\<open>processRunExecutionData\<close> without the checks before the run and the hooks.\<close>

definition processRunExecutionData :: "nat \<Rightarrow> run_env \<Rightarrow> node_item workflow \<Rightarrow> exec_error \<Rightarrow> run_state \<Rightarrow> (execution_status \<times> run_state) result" where
  "processRunExecutionData fuel env w cancellation s =
     ebind (handleWaitingState s) (\<lambda>s.
     ebind (runLoop fuel env w (s\<lparr>rs_lastTry := None, rs_error := None\<rparr>)) (\<lambda>r. Inr (endStatus cancellation r, snd r)))"

section \<open>The number of calls\<close>

lemma innerTries_calls:
  "innerTries attempt left calls d = (r, left', calls') \<Longrightarrow>
     calls \<le> calls' \<and> calls' + left' \<le> calls + left + (case r of Inl _ \<Rightarrow> 1 | Inr _ \<Rightarrow> 0)
   \<and> (case r of Inl _ \<Rightarrow> 0 < left' | Inr _ \<Rightarrow> True)"
proof (induction attempt left calls d rule: innerTries.induct)
  case (2 attempt left calls d)
  then show ?case by (fastforce split: if_splits outcome.splits)
qed auto

lemma callNode_calls:
  assumes "callNode pinned attempt left calls = (r, left', calls')"
  shows "calls \<le> calls' \<and> calls' + 2 * left' \<le> calls + 2 * left + 2 \<and> calls' + left' \<le> calls + left + 2
    \<and> (left' = 0 \<or> (\<exists>x. r = Inr x) \<longrightarrow> calls' \<le> calls + left + 1)"
  using assms callNode_left [OF assms]
  by (auto simp: callNode_def split: option.splits outcome.splits sum.splits dest!: innerTries_calls)

lemma runTries_calls:
  "tr_calls (runTries pinned attempt finish left calls d executed) \<le> calls + 2 * left + 1"
proof (induction pinned attempt finish left calls d executed rule: runTries.induct)
  case (1 pinned attempt finish left calls d executed)
  obtain r left' calls' where call: "callNode pinned attempt left calls = (r, left', calls')"
    by (cases "callNode pinned attempt left calls") auto
  obtain err d' b where fin: "(case r of Inl e \<Rightarrow> (Some e, d, True) | Inr d' \<Rightarrow> finish d') = (err, d', b)"
    by (cases "case r of Inl e \<Rightarrow> (Some e, d, True) | Inr d' \<Rightarrow> finish d'") auto
  have bounds: "calls' + 2 * left' \<le> calls + 2 * left + 2"
    "left' = 0 \<or> (\<exists>x. r = Inr x) \<Longrightarrow> calls' \<le> calls + left + 1"
    using callNode_calls [OF call] by auto
  show ?case
  proof (cases err)
    case None
    with fin have "\<exists>x. r = Inr x" by (cases r) auto
    with bounds None show ?thesis by (subst runTries.simps) (simp add: call fin)
  next
    case (Some e)
    show ?thesis
    proof (cases "left' = 0")
      case True
      with bounds Some show ?thesis by (subst runTries.simps) (simp add: call fin)
    next
      case False
      with 1 [OF call [symmetric] refl fin [symmetric] Some refl False] bounds(1) Some
      show ?thesis by (subst runTries.simps) (simp add: call fin)
    qed
  qed
qed
lemma runTries_success:
  assumes "\<forall>j < n. \<exists>e. attempt (calls + j) = Throws e" "attempt (calls + n) = Returns x" "\<not> nodeFailed x"
    "finish x = (None, d', named)" "n \<le> left"
  shows "runTries None attempt finish left calls d executed =
    \<lparr>tr_error = None, tr_data = d', tr_calls = Suc (calls + n), tr_last = executed \<or> 0 < n \<or> named\<rparr>"
  using assms
proof (induction n arbitrary: left calls executed)
  case 0
  have "innerTries attempt left (Suc calls) x = (Inr x, left, Suc calls)"
    using "0"(3) by (cases left) auto
  with 0 show ?case by (subst runTries.simps) (simp add: callNode_def)
next
  case (Suc n)
  from Suc.prems(1) obtain e where e: "attempt calls = Throws e" by (metis add.right_neutral zero_less_Suc)
  have later: "\<exists>e. attempt (Suc calls + j) = Throws e" if "j < n" for j
    using Suc.prems(1) [rule_format, of "Suc j"] that by simp
  from Suc.prems have "runTries None attempt finish (left - 1) (Suc calls) d True =
      \<lparr>tr_error = None, tr_data = d', tr_calls = Suc (Suc calls + n), tr_last = True \<or> 0 < n \<or> named\<rparr>"
    by (intro Suc.IH) (use later in auto)
  with Suc.prems(5) show ?case by (subst runTries.simps) (auto simp: callNode_def e)
qed

lemma runTries_failure:
  assumes "\<forall>j \<le> left. attempt (calls + j) = Throws (err (calls + j))"
  shows "runTries None attempt finish left calls d executed =
    \<lparr>tr_error = Some (err (calls + left)), tr_data = d, tr_calls = Suc (calls + left), tr_last = True\<rparr>"
  using assms
proof (induction left arbitrary: calls executed)
  case 0
  then show ?case by (subst runTries.simps) (simp add: callNode_def)
next
  case (Suc left)
  have now: "attempt calls = Throws (err calls)" using Suc.prems [rule_format, of 0] by simp
  have "\<forall>j \<le> left. attempt (Suc calls + j) = Throws (err (Suc calls + j))"
    using Suc.prems by (metis Suc_le_mono add_Suc_shift)
  from Suc.IH [OF this, of True] now show ?case by (subst runTries.simps) (simp add: callNode_def)
qed

lemma maxTriesOf_bounds: "1 \<le> maxTriesOf node" "maxTriesOf node \<le> 5"
  by (auto simp: maxTriesOf_def)

section \<open>What a round keeps\<close>

lemma runData_openWaitingEntry: "openWaitingEntry w c st = Inr (st', k) \<Longrightarrow> en_runData st' = en_runData st"
  by (auto simp: openWaitingEntry_def listWaitingNode_def Let_def prepareWaitingToExecution_def split: if_splits option.splits)

lemma runData_addWaitingData: "addWaitingData c k d s st = Inr st' \<Longrightarrow> en_runData st' = en_runData st"
  by (auto simp: addWaitingData_def)

lemma runData_keepWaiting: "keepWaiting w c k d st = Inr st' \<Longrightarrow> en_runData st' = en_runData st"
  by (auto simp: keepWaiting_def Let_def prepareWaitingToExecution_def)

lemma runData_releaseEntry: "releaseEntry w nm k st = Inr st' \<Longrightarrow> en_runData st' = en_runData st"
  by (auto simp: releaseEntry_def removeWaitingEntry_def Let_def enqueue_def split: option.splits)

lemmas runData_steps = runData_openWaitingEntry runData_addWaitingData runData_keepWaiting runData_releaseEntry

lemma runData_addNode:
  assumes "addNodeToBeExecuted emptyItem w c oi parent nsd runIndex newRunIndex metadata st = Inr st'"
  shows "en_runData st' = en_runData st"
  using assms unfolding addNodeToBeExecuted_def Let_def
  by (auto simp: addDirectly_def enqueue_def same_tables_def split: if_split_asm option.splits
    dest!: addMissingParents_tables runData_steps)

lemma runData_enqueueChildren:
  assumes "enqueueChildren emptyItem w nm nsd runIndex st = Inr st'"
  shows "en_runData st' = en_runData st"
proof (cases "map_of (orElse (map_of (w_connectionsBySourceNode w) nm) []) Main")
  case None
  with assms show ?thesis by (simp add: enqueueChildren_def)
next
  case (Some outs)
  let ?same = "\<lambda>st'. en_runData st' = en_runData st"
  have visit: "?same (snd r)" if "visitOutput emptyItem w nm nsd runIndex x p = Inr r" "?same (snd p)" for x p r
    using that by (auto simp: visitOutput_def runData_addNode split: prod.splits option.splits if_split_asm)
  from assms Some obtain toAdd st1 where
    1: "efold (visitOutput emptyItem w nm nsd runIndex) (outputConnections outs) ([], st) = Inr (toAdd, st1)" and
    2: "(if w_executionOrder w = Some ''v1''
         then efold (\<lambda>(_, oi, c). addNodeToBeExecuted emptyItem w c oi nm (Some nsd) runIndex None None) (sortNodesToAdd toAdd) st1
         else Inr st1) = Inr st'"
    by (auto simp: enqueueChildren_def)
  have "?same (snd (toAdd, st1))" by (rule efold_invariant [OF 1]) (auto intro: visit)
  moreover have "?same st'" if "efold (\<lambda>(_, oi, c). addNodeToBeExecuted emptyItem w c oi nm (Some nsd) runIndex None None)
      (sortNodesToAdd toAdd) st1 = Inr st'" "?same st1"
    by (rule efold_invariant [OF that(1)]) (use that(2) in \<open>auto simp: runData_addNode\<close>)
  ultimately show ?thesis using 2 by (auto split: if_split_asm)
qed

lemma runData_releaseFrom: "releaseFrom w waitingNodes names st = Inr st' \<Longrightarrow> en_runData st' = en_runData st"
proof (induction w waitingNodes names st rule: releaseFrom.induct)
  case (1 w waitingNodes st)
  then show ?case by (simp add: releaseFrom.simps)
next
  case (2 w waitingNodes nm names st)
  have "en_runData st1 = en_runData st" if "tryWaitingNode w waitingNodes nm st = Inr (Released st1)
      \<or> tryWaitingNode w waitingNodes nm st = Inr (Dropped st1)" for st1
    using that unfolding tryWaitingNode_def
    by (auto simp: Let_def removeWaitingEntry_def split: option.splits if_splits)
  with 2 show ?case by (auto simp: releaseFrom.simps split: sum.splits waiting_outcome.splits)
qed

lemma runData_releaseWaiting: "releaseWaiting w st = Inr st' \<Longrightarrow> en_runData st' = en_runData st"
  by (auto simp: releaseWaiting_def runData_releaseFrom split: if_split_asm)

section \<open>Execution indices\<close>

definition executionIndices :: "'i run_data \<Rightarrow> nat list" where
  "executionIndices rd = concat (map (\<lambda>(nm, runs). List.map_filter t_executionIndex runs) rd)"

definition indices_inv :: "nat \<Rightarrow> 'i run_data \<Rightarrow> bool" where
  "indices_inv n rd \<longleftrightarrow> distinct (executionIndices rd) \<and> (\<forall>i \<in> set (executionIndices rd). i < n)"

lemma indices_inv_mset:
  "indices_inv n rd \<longleftrightarrow> (\<forall>i. count (mset (executionIndices rd)) i \<le> (if i < n then 1 else 0))"
proof -
  have "distinct xs \<and> (\<forall>i \<in> set xs. i < n) \<longleftrightarrow> (\<forall>i. count (mset xs) i \<le> (if i < n then 1 else 0))" for xs
  proof
    assume "distinct xs \<and> (\<forall>i \<in> set xs. i < n)"
    then show "\<forall>i. count (mset xs) i \<le> (if i < n then 1 else 0)" by (auto simp: distinct_count_atmost_1)
  next
    assume *: "\<forall>i. count (mset xs) i \<le> (if i < n then 1 else 0)"
    have "i < n" if "i \<in> set xs" for i
      using that *[rule_format, of i] by (auto split: if_splits simp: count_eq_zero_iff)
    moreover have "count (mset xs) i = (if i \<in> set xs then 1 else 0)" for i
      using *[rule_format, of i] by (cases "i \<in> set xs") (auto split: if_splits simp: le_Suc_eq count_eq_zero_iff)
    ultimately show "distinct xs \<and> (\<forall>i \<in> set xs. i < n)" by (auto simp: distinct_count_atmost_1)
  qed
  then show ?thesis by (simp add: indices_inv_def)
qed

lemma executionIndices_update:
  "mset (executionIndices (AList.update nm runs' rd)) + mset (List.map_filter t_executionIndex (orElse (map_of rd nm) [])) =
     mset (executionIndices rd) + mset (List.map_filter t_executionIndex runs')"
  by (induction rd) (auto simp: executionIndices_def List.map_filter_def ac_simps)

lemma map_filter_append [simp]: "List.map_filter f (xs @ ys) = List.map_filter f xs @ List.map_filter f ys"
  by (simp add: List.map_filter_def)

lemma indices_inv_mono:
  assumes "indices_inv n rd" "mset (executionIndices rd') \<subseteq># mset (executionIndices rd)"
  shows "indices_inv n rd'"
  using assms unfolding indices_inv_mset by (meson le_trans mset_subset_eq_count)

lemma indices_inv_Suc:
  assumes "indices_inv n rd" "mset (executionIndices rd') \<subseteq># add_mset n (mset (executionIndices rd))"
  shows "indices_inv (Suc n) rd'"
  unfolding indices_inv_mset
proof
  fix i
  define a b where "a = count (mset (executionIndices rd')) i" and "b = count (mset (executionIndices rd)) i"
  have "a \<le> count (add_mset n (mset (executionIndices rd))) i"
    unfolding a_def using assms(2) by (rule mset_subset_eq_count)
  then have "a \<le> b + (if i = n then 1 else 0)" by (auto simp: b_def)
  moreover have "b \<le> (if i < n then 1 else 0)"
    using assms(1) unfolding b_def indices_inv_mset by blast
  ultimately have "a \<le> (if i < Suc n then 1 else 0)" by (auto split: if_splits)
  then show "count (mset (executionIndices rd')) i \<le> (if i < Suc n then 1 else 0)" by (simp only: a_def)
qed

lemma indices_inv_less: "indices_inv n rd \<Longrightarrow> indices_inv (Suc n) rd"
  by (auto simp: indices_inv_def)

lemma map_filter_update:
  assumes "i < length runs" "t_executionIndex t = Some n"
  shows "mset (List.map_filter t_executionIndex (runs[i := t])) \<subseteq># add_mset n (mset (List.map_filter t_executionIndex runs))"
proof -
  have split: "runs = take i runs @ runs ! i # drop (Suc i) runs" using assms(1) by (rule id_take_nth_drop)
  have "List.map_filter t_executionIndex (runs[i := t]) =
      List.map_filter t_executionIndex (take i runs) @ n # List.map_filter t_executionIndex (drop (Suc i) runs)"
    using assms by (simp add: upd_conv_take_nth_drop List.map_filter_def)
  moreover have "mset (List.map_filter t_executionIndex (take i runs)) + mset (List.map_filter t_executionIndex (drop (Suc i) runs))
      \<subseteq># mset (List.map_filter t_executionIndex runs)"
    by (subst (3) split) (simp add: List.map_filter_def)
  ultimately show ?thesis by simp
qed

lemma executionIndices_recordRun:
  assumes "t_executionIndex t = Some n"
  shows "mset (executionIndices (recordRun nm r t rd)) \<subseteq># add_mset n (mset (executionIndices rd))"
proof -
  let ?runs = "orElse (map_of rd nm) []" and ?ix = "\<lambda>runs. mset (List.map_filter t_executionIndex runs)"
  obtain runs' where runs': "recordRun nm r t rd = AList.update nm runs' rd" "?ix runs' \<subseteq># add_mset n (?ix ?runs)"
  proof (cases "js_get ?runs r")
    case None
    show ?thesis
      by (rule that [of "?runs @ [t]"]) (use None assms in \<open>simp_all add: recordRun_def List.map_filter_def\<close>)
  next
    case (Some old)
    then have "r < length ?runs" by (simp add: js_get_def split: if_splits)
    then show ?thesis
      by (intro that [of "?runs[r := assignTask old t]"] map_filter_update)
        (use Some assms in \<open>simp_all add: recordRun_def assignTask_def\<close>)
  qed
  have "mset (executionIndices (AList.update nm runs' rd)) + ?ix ?runs \<subseteq># mset (executionIndices rd) + add_mset n (?ix ?runs)"
    using runs'(2) by (simp add: executionIndices_update [of nm runs' rd])
  then show ?thesis unfolding runs'(1) by simp
qed

text \<open>What one round does to the run data: nothing, or one run recorded under its own index.\<close>

definition records :: "nat \<Rightarrow> 'i run_data \<Rightarrow> 'i run_data \<Rightarrow> bool" where
  "records index rd rd' \<longleftrightarrow> rd' = rd \<or> (\<exists>nm r t. t_executionIndex t = Some index \<and> rd' = recordRun nm r t rd)"

fun stepState :: "step \<Rightarrow> run_state" where
  "stepState (Continue s) = s" | "stepState (Break s) = s"

lemma withOutput_index [simp]: "t_executionIndex (withOutput node r rd outs t) = t_executionIndex t"
  by (auto simp: withOutput_def split: option.splits)

lemma records_recordRun [simp]: "t_executionIndex t = Some index \<Longrightarrow> records index rd (recordRun nm r t rd)"
  by (auto simp: records_def)

lemma records_refl [simp]: "records index rd rd"
  by (simp add: records_def)

lemma recordSuccess_records:
  assumes "recordSuccess env w e r d t s = Inr st" "t_executionIndex t = Some index"
  shows "records index (en_runData (rs_engine s)) (en_runData (rs_engine (stepState st)))
    \<and> rs_executionIndex (stepState st) = rs_executionIndex s"
  using assms unfolding recordSuccess_def
  by (auto simp: Let_def putBack_def split: if_split_asm dest!: runData_enqueueChildren runData_releaseWaiting)

lemma recordTries_records:
  assumes "recordTries env w index e r tr s = Inr st"
  shows "records index (en_runData (rs_engine s)) (en_runData (rs_engine (stepState st)))
    \<and> rs_executionIndex (stepState st) = rs_executionIndex s"
proof -
  define s1 where "s1 = (let s = (if tr_last tr then s\<lparr>rs_lastNodeExecuted := Some (n_name (e_node e))\<rparr> else s);
      s = (if tr_calls tr > 0 \<and> \<not> isDisabled (e_node e) \<and> re_waits env e r then s\<lparr>rs_waitTill := True\<rparr> else s)
      in s\<lparr>rs_error := tr_error tr\<rparr>)"
  have s1: "rs_engine s1 = rs_engine s" "rs_executionIndex s1 = rs_executionIndex s" by (simp_all add: s1_def)
  define t where "t = startedTask index e (rs_waitTill s1) (tr_error tr)"
  have t: "t_executionIndex t = Some index" by (simp add: t_def startedTask_def)
  have fail: "records index (en_runData (rs_engine s1)) (en_runData (rs_engine (recordFailure e r err t s1)))
    \<and> rs_executionIndex (recordFailure e r err t s1) = rs_executionIndex s1" for err
    using t by (auto simp: recordFailure_def putBack_def Let_def)
  from assms have "(case tr_error tr of
           Some err \<Rightarrow>
             if continuesOnFail (e_node e) then recordSuccess env w e r (passedInput e (tr_data tr)) t s1
             else Inr (Break (recordFailure e r err t s1))
         | None \<Rightarrow>
             if tr_data tr = None \<and> \<not> rs_waitTill s1 then Inr (Continue s1)
             else recordSuccess env w e r (tr_data tr) t s1) = Inr st"
    unfolding recordTries_def s1_def t_def Let_def by simp
  then have "records index (en_runData (rs_engine s1)) (en_runData (rs_engine (stepState st)))
    \<and> rs_executionIndex (stepState st) = rs_executionIndex s1"
    using recordSuccess_records [OF _ t, of env w e r _ s1 st] fail
    by (auto split: option.splits if_split_asm)
  then show ?thesis by (simp add: s1)
qed

lemma runItem_records:
  assumes "runItem env w index e s = Inr st"
  shows "records index (en_runData (rs_engine s)) (en_runData (rs_engine (stepState st)))
    \<and> rs_executionIndex (stepState st) = rs_executionIndex s"
  using assms unfolding runItem_def
  by (auto simp: Let_def ensureInputData_def split: if_split_asm dest: recordTries_records)

section \<open>The invariant of a run\<close>

lemma waiting_inv_stack [simp]:
  "waiting_inv (st\<lparr>es_stack := xs\<rparr>) = waiting_inv st" "waiting_inv (st\<lparr>en_runData := rd\<rparr>) = waiting_inv st"
  by (simp_all add: waiting_inv_def waiting_aligned_def waiting_incomplete_def)

lemma hasDataFor_output: "hasDataFor w nsd oi c \<Longrightarrow> outputOf (Some nsd) oi \<noteq> None"
  by (auto simp: hasDataFor_def split: option.splits)

lemma waiting_inv_enqueueChildren:
  assumes "enqueueChildren emptyItem w nm nsd runIndex st = Inr st'" "waiting_inv st"
  shows "waiting_inv st'"
proof (cases "map_of (orElse (map_of (w_connectionsBySourceNode w) nm) []) Main")
  case None
  with assms show ?thesis by (simp add: enqueueChildren_def)
next
  case (Some outs)
  let ?P = "\<lambda>(toAdd, st). waiting_inv st \<and> (\<forall>(p, oi, c) \<in> set toAdd. outputOf (Some nsd) oi \<noteq> None)"
  have visit: "?P r" if run: "visitOutput emptyItem w nm nsd runIndex x p = Inr r" and P: "?P p" for x p r
  proof -
    obtain oi c toAdd st0 where xp: "x = (oi, c)" "p = (toAdd, st0)" by (metis surj_pair)
    show ?thesis
    proof (cases "hasDataFor w nsd oi c")
      case False
      with run P show ?thesis by (auto simp: visitOutput_def xp split: option.splits)
    next
      case True
      note out = hasDataFor_output [OF True]
      from run True P out show ?thesis
        by (auto simp: visitOutput_def xp split: option.splits if_split_asm simp del: not_None_eq
            intro: waiting_inv_addNode [OF _ disjI2 [OF out]])
    qed
  qed
  from assms(1) Some obtain toAdd st1 where
    1: "efold (visitOutput emptyItem w nm nsd runIndex) (outputConnections outs) ([], st) = Inr (toAdd, st1)" and
    2: "(if w_executionOrder w = Some ''v1''
         then efold (\<lambda>(_, oi, c). addNodeToBeExecuted emptyItem w c oi nm (Some nsd) runIndex None None) (sortNodesToAdd toAdd) st1
         else Inr st1) = Inr st'"
    by (auto simp: enqueueChildren_def)
  have *: "?P (toAdd, st1)"
  proof (rule efold_invariant [OF 1, of ?P])
    show "?P ([], st)" using assms(2) by simp
  qed (rule visit)
  have add: "waiting_inv v" if "x \<in> set toAdd" "waiting_inv u"
      "(case x of (_, oi, c) \<Rightarrow> addNodeToBeExecuted emptyItem w c oi nm (Some nsd) runIndex None None) u = Inr v" for x u v
  proof -
    obtain p oi c where x: "x = (p, oi, c)" by (metis surj_pair)
    with * that(1) have "outputOf (Some nsd) oi \<noteq> None" by auto
    with waiting_inv_addNode [OF that(2) disjI2] that(3) show ?thesis by (simp add: x)
  qed
  have "waiting_inv st'" if run: "efold (\<lambda>(_, oi, c). addNodeToBeExecuted emptyItem w c oi nm (Some nsd) runIndex None None)
      (sortNodesToAdd toAdd) st1 = Inr st'"
  proof (rule efold_invariant [OF run, of waiting_inv])
    show "waiting_inv st1" using * by simp
  qed (rule add, simp_all)
  with 2 * show ?thesis by (auto split: if_split_asm)
qed

lemma waiting_inv_releaseWaiting: "releaseWaiting w st = Inr st' \<Longrightarrow> waiting_inv st \<Longrightarrow> waiting_inv st'"
  by (auto simp: releaseWaiting_def split: if_split_asm intro: waiting_inv_releaseFrom)

lemma recordSuccess_waiting:
  assumes "recordSuccess env w e r d t s = Inr st" "waiting_inv (rs_engine s)"
  shows "waiting_inv (rs_engine (stepState st))"
proof -
  let ?node = "e_node e" and ?rd = "en_runData (rs_engine s)"
  from assms(1) obtain outs where outs: "mergeErrors d = Inr outs" by (auto simp: recordSuccess_def)
  define st0 where "st0 = (rs_engine s)\<lparr>en_runData := recordRun (n_name ?node) r (withOutput ?node r ?rd outs t) ?rd\<rparr>"
  have st0: "waiting_inv st0" using assms(2) by (simp add: st0_def)
  from assms(1) have "(if rs_waitTill s then Inr (Break (s\<lparr>rs_engine := putBack e st0\<rparr>))
      else if re_destination env = Some (n_name ?node) then Inr (Continue (s\<lparr>rs_engine := st0\<rparr>))
      else ebind (enqueueChildren emptyNodeItem w (n_name ?node) outs r st0) (\<lambda>st.
        ebind (releaseWaiting w st) (\<lambda>st. Inr (Continue (s\<lparr>rs_engine := st\<rparr>))))) = Inr st"
    unfolding recordSuccess_def outs ebind.simps Let_def st0_def .
  then show ?thesis
    using st0 waiting_inv_enqueueChildren waiting_inv_releaseWaiting by (fastforce simp: putBack_def split: if_split_asm)
qed

lemma runItem_waiting:
  assumes "runItem env w index e s = Inr st" "waiting_inv (rs_engine s)"
  shows "waiting_inv (rs_engine (stepState st))"
  using assms unfolding runItem_def
  by (auto simp: Let_def ensureInputData_def recordTries_def recordFailure_def putBack_def
      split: if_split_asm option.splits intro: recordSuccess_waiting)

definition numberOfRuns :: "'i run_data \<Rightarrow> string \<Rightarrow> nat" where
  "numberOfRuns rd nm = length (orElse (map_of rd nm) [])"

lemma numberOfRuns_records: "records index rd rd' \<Longrightarrow> numberOfRuns rd nm \<le> numberOfRuns rd' nm"
  by (auto simp: records_def numberOfRuns_def recordRun_def Let_def split: option.splits)

definition run_inv :: "run_state \<Rightarrow> bool" where
  "run_inv s \<longleftrightarrow> indices_inv (rs_executionIndex s) (en_runData (rs_engine s)) \<and> waiting_inv (rs_engine s)"

lemma run_inv_runItem:
  assumes "runItem env w (rs_executionIndex s) e (takeItem s) = Inr st" "run_inv s"
  shows "run_inv (stepState st) \<and> numberOfRuns (en_runData (rs_engine s)) nm \<le> numberOfRuns (en_runData (rs_engine (stepState st))) nm"
proof -
  from runItem_records [OF assms(1)] have rec:
    "records (rs_executionIndex s) (en_runData (rs_engine s)) (en_runData (rs_engine (stepState st)))"
    "rs_executionIndex (stepState st) = Suc (rs_executionIndex s)"
    by (simp_all add: takeItem_def)
  from rec(1) have "mset (executionIndices (en_runData (rs_engine (stepState st))))
      \<subseteq># add_mset (rs_executionIndex s) (mset (executionIndices (en_runData (rs_engine s))))"
    by (auto simp: records_def intro: executionIndices_recordRun)
  with assms(2) have "indices_inv (rs_executionIndex (stepState st)) (en_runData (rs_engine (stepState st)))"
    unfolding rec(2) by (auto simp: run_inv_def intro: indices_inv_Suc)
  moreover have "waiting_inv (rs_engine (stepState st))"
    using runItem_waiting [OF assms(1)] assms(2) by (simp add: run_inv_def takeItem_def)
  ultimately show ?thesis using numberOfRuns_records [OF rec(1)] by (simp add: run_inv_def)
qed

lemma runLoop_inv:
  "runLoop fuel env w s = Inr (r, s') \<Longrightarrow> run_inv s \<Longrightarrow>
     run_inv s' \<and> numberOfRuns (en_runData (rs_engine s)) nm \<le> numberOfRuns (en_runData (rs_engine s')) nm"
proof (induction fuel arbitrary: s)
  case 0
  then show ?case by (subst (asm) runLoop.simps) (auto split: list.splits if_split_asm)
next
  case (Suc n)
  from Suc.prems(1) consider (ends) "s' = s" | (step) e st where
      "runItem env w (rs_executionIndex s) e (takeItem s) = Inr st"
      "st = Break s' \<or> (\<exists>s1. st = Continue s1 \<and> runLoop n env w s1 = Inr (r, s'))"
    by (subst (asm) runLoop.simps) (auto split: list.splits if_split_asm sum.splits step.splits)
  then show ?case
  proof cases
    case ends
    with Suc.prems(2) show ?thesis by simp
  next
    case step
    from step(2) show ?thesis
    proof
      assume "st = Break s'"
      then show ?thesis using run_inv_runItem [OF step(1) Suc.prems(2), of nm] by simp
    next
      assume "\<exists>s1. st = Continue s1 \<and> runLoop n env w s1 = Inr (r, s')"
      then obtain s1 where "st = Continue s1" "runLoop n env w s1 = Inr (r, s')" by blast
      then show ?thesis using run_inv_runItem [OF step(1) Suc.prems(2), of nm] Suc.IH [of s1] by auto
    qed
  qed
qed

section \<open>The error output\<close>

definition itemsOf :: "node_item list option list \<Rightarrow> nat \<Rightarrow> node_item list" where
  "itemsOf outs i = (case js_get outs i of Some (Some items) \<Rightarrow> items | _ \<Rightarrow> [])"

lemma itemsOf_js_set [simp]: "j \<noteq> i \<Longrightarrow> itemsOf (js_set None outs i x) j = itemsOf outs j"
  by (auto simp: itemsOf_def js_get_js_set_other) (auto simp: js_get_def)

lemma splitItems_ok:
  "splitItems env e items ss es = Inr (ss', es') \<Longrightarrow> ss' = ss @ filter (\<lambda>x. \<not> isErrorItem x) items \<and>
     (\<exists>xs. es' = es @ xs \<and> list_all2 (\<lambda>x y. errorItem env e x = Inr y) (filter isErrorItem items) xs)"
proof (induction env e items ss es rule: splitItems.induct)
  case (2 env e item items ss es)
  then show ?case by (fastforce split: if_split_asm sum.splits)
qed auto

lemma splitOutputs_ok:
  assumes "splitOutputs env e is outs es = (True, outs', es')" "distinct is"
  shows "(\<forall>i \<in> set is. js_get outs' i = Some (Some (filter (\<lambda>x. \<not> isErrorItem x) (itemsOf outs i)))) \<and>
    (\<forall>i y. i \<notin> set is \<longrightarrow> js_get outs i = Some y \<longrightarrow> js_get outs' i = Some y) \<and>
    (\<exists>xs. es' = es @ xs \<and> list_all2 (\<lambda>x y. errorItem env e x = Inr y) (concat (map (\<lambda>i. filter isErrorItem (itemsOf outs i)) is)) xs)"
  using assms
proof (induction "is" arbitrary: outs es)
  case Nil
  then show ?case by simp
next
  case (Cons oi ois)
  from Cons.prems(1) obtain ss es1 where
    items: "splitItems env e (itemsOf outs oi) [] es = Inr (ss, es1)" and
    rest: "splitOutputs env e ois (js_set None outs oi (Some ss)) es1 = (True, outs', es')"
    by (auto simp: itemsOf_def split: sum.splits)
  from splitItems_ok [OF items] obtain xs where ss: "ss = filter (\<lambda>x. \<not> isErrorItem x) (itemsOf outs oi)"
    "es1 = es @ xs" "list_all2 (\<lambda>x y. errorItem env e x = Inr y) (filter isErrorItem (itemsOf outs oi)) xs" by auto
  let ?outs = "js_set None outs oi (Some ss)"
  from Cons.IH [OF rest] Cons.prems(2) obtain ys where IH:
    "\<forall>i \<in> set ois. js_get outs' i = Some (Some (filter (\<lambda>x. \<not> isErrorItem x) (itemsOf ?outs i)))"
    "\<forall>i y. i \<notin> set ois \<longrightarrow> js_get ?outs i = Some y \<longrightarrow> js_get outs' i = Some y"
    "es' = es1 @ ys" "list_all2 (\<lambda>x y. errorItem env e x = Inr y) (concat (map (\<lambda>i. filter isErrorItem (itemsOf ?outs i)) ois)) ys"
    by auto
  have same: "itemsOf ?outs i = itemsOf outs i" if "i \<in> set ois" for i
    using that Cons.prems(2) by (intro itemsOf_js_set) auto
  have "js_get outs' oi = Some (Some ss)" using IH(2) Cons.prems(2) by auto
  then have 1: "\<forall>i \<in> set (oi # ois). js_get outs' i = Some (Some (filter (\<lambda>x. \<not> isErrorItem x) (itemsOf outs i)))"
    using IH(1) same ss(1) by auto
  have 2: "js_get outs' i = Some y" if "i \<notin> set (oi # ois)" "js_get outs i = Some y" for i y
    using IH(2) [rule_format, of i y] that by (auto simp: js_get_js_set_other) (auto simp: js_get_def split: if_splits)
  have eq: "map (\<lambda>i. filter isErrorItem (itemsOf ?outs i)) ois = map (\<lambda>i. filter isErrorItem (itemsOf outs i)) ois"
    by (intro map_cong) (simp_all only: same)
  have 3: "es' = es @ (xs @ ys)"
    "list_all2 (\<lambda>x y. errorItem env e x = Inr y) (concat (map (\<lambda>i. filter isErrorItem (itemsOf outs i)) (oi # ois))) (xs @ ys)"
    using IH(3) IH(4) [unfolded eq] ss(2,3) by (simp_all add: list_all2_appendI)
  show ?case using 1 2 3 by blast
qed

lemma handleNodeErrorOutput_ok:
  assumes "handleNodeErrorOutput env e outs = (True, outs')" "re_outputs env (e_node e) = Suc n"
  shows "map (js_get outs') [0..<n] = map (\<lambda>i. Some (Some (filter (\<lambda>x. \<not> isErrorItem x) (itemsOf outs i)))) [0..<n] \<and>
    (\<exists>es. js_get outs' n = Some (Some es) \<and>
      list_all2 (\<lambda>x y. errorItem env e x = Inr y) (concat (map (\<lambda>i. filter isErrorItem (itemsOf outs i)) [0..<n])) es)"
proof -
  obtain outs1 es where split: "splitOutputs env e [0..<n] outs [] = (True, outs1, es)"
    and outs': "outs' = js_set None outs1 n (Some es)"
    using assms by (auto simp: handleNodeErrorOutput_def Let_def split: prod.splits)
  from splitOutputs_ok [OF split] outs' show ?thesis
    by (auto simp: js_get_js_set_other) (auto simp: js_get_def split: if_splits)
qed

section \<open>Taking up a waiting node\<close>

lemma innerTries_const: "\<exists>l c. innerTries (\<lambda>_. Returns d) left calls d = (Inr d, l, c)"
  by (induction "(\<lambda>_ :: nat. Returns d)" left calls d rule: innerTries.induct) auto

lemma runTries_const:
  assumes "finish d = (None, d', named)"
  shows "tr_error (runTries None (\<lambda>_. Returns d) finish left calls d0 executed) = None
    \<and> tr_data (runTries None (\<lambda>_. Returns d) finish left calls d0 executed) = d'"
proof -
  obtain l c where "innerTries (\<lambda>_. Returns d) left (Suc calls) d = (Inr d, l, c)"
    using innerTries_const by blast
  with assms show ?thesis by (subst (1 2) runTries.simps) (simp add: callNode_def)
qed

text \<open>A disabled node passes its first input on.\<close>

lemma map_pairItem: "\<forall>x \<in> set xs. ni_pairedItem x \<noteq> None \<Longrightarrow> map (pairItem g) (enumerate k xs) = xs"
  by (induction xs arbitrary: k) (auto simp: pairItem_def)

lemma tryNode_disabled:
  assumes "isDisabled (e_node e)" "n_onError (e_node e) \<noteq> Some ContinueErrorOutput"
    "map_of (e_data e) Main = Some (Some items # inputs)" "items \<noteq> []" "\<forall>x \<in> set items. ni_pairedItem x \<noteq> None"
  shows "tr_error (tryNode env w e r) = None \<and> tr_data (tryNode env w e r) = Some [Some items]"
proof -
  have run: "runNode env w e r = (\<lambda>_. Returns (Some [Some items]))"
    using assms(1,3) by (intro ext) (simp add: runNode_def handleDisabledNode_def)
  have "assignPairedItems (Some [Some items]) e = Inr (Some [Some items])"
    using assms(3,5) by (simp add: assignPairedItems_def pairMode_def Let_def map_pairItem split: option.splits)
  then have "finishTry env e False (Some [Some items]) = (None, Some [Some items], True)"
    using assms(2,4) by (cases items) (auto simp: finishTry_def splitForErrors_def addAlwaysOutput_def firstItemMissing_def)
  from runTries_const [of "finishTry env e False", OF this] assms(1) show ?thesis
    unfolding tryNode_def Let_def run by simp
qed

lemma map_of_pairInput:
  "map_of (e_data e) ct = Some inputs \<Longrightarrow> map_of (pairInput e) ct = Some (map (\<lambda>(inputIndex, input).
     map_option (\<lambda>items. map (pairedWith e inputIndex) (enumerate 0 items)) input) (enumerate 0 inputs))"
  unfolding pairInput_def by (subst map_of_map) simp

definition pairedFirst :: "node_item execute_data \<Rightarrow> node_item list \<Rightarrow> node_item list" where
  "pairedFirst e items = map (pairedWith e 0) (enumerate 0 items)"

lemma pairedFirst_paired: "\<forall>x \<in> set (pairedFirst e items). ni_pairedItem x \<noteq> None" "pairedFirst e items = [] \<longleftrightarrow> items = []"
  by (auto simp: pairedFirst_def pairedWith_def enumerate_eq_zip zip_eq_Nil_iff)

lemma recordTries_passed:
  assumes "tr_error tr = None" "tr_data tr = Some d" "isDisabled (e_node e)" "\<not> rs_waitTill s"
    "recordTries env w index e r tr s = Inr st"
  obtains s2 where "rs_engine s2 = rs_engine s" "rs_waitTill s2 = False"
    "recordSuccess env w e r (Some d) (startedTask index e False None) s2 = Inr st"
  using assms that [of "(if tr_last tr then s\<lparr>rs_lastNodeExecuted := Some (n_name (e_node e))\<rparr> else s)\<lparr>rs_error := None\<rparr>"]
  by (auto simp: recordTries_def Let_def split: if_split_asm)

end
