(* ===== verification/EngineRun_Properties.thy ===== *)
theory EngineRun_Properties
  imports EngineRun
begin

text \<open>
  What a run of a workflow guarantees: the bounds and the result of the retries, the error output, the
  invariant of the run data and the waiting tables, and the way an execution that waited is taken up.
\<close>

section \<open>Examples\<close>

text \<open>\<open>A\<close> leads to \<open>B\<close>; what the nodes do is given by the outcome of the \<open>n\<close>-th call.\<close>

definition exPlainType :: "string \<Rightarrow> nat \<Rightarrow> node_type option" where
  "exPlainType t v = Some \<lparr>nt_name = t, nt_group = [], nt_trigger = False, nt_poll = False, nt_webhook = False,
     nt_execute = True, nt_inputs = 1, nt_requiredInputs = Inl None\<rparr>"

definition exNodeB :: inode where
  "exNodeB = (mkNode 2 ''B'')\<lparr>n_retryOnFail := Some True, n_onError := Some ContinueRegularOutput\<rparr>"

definition exLine :: "node_item workflow" where
  "exLine = setConnections [exMain ''A'' ''B'']
     \<lparr>w_nodes = [(''A'', mkNode 1 ''A''), (''B'', exNodeB)],
      w_connectionsBySourceNode = [], w_connectionsByDestinationNode = [], w_nodeTypes = exPlainType,
      w_executionOrder = Some ''v1'', w_pinData = None\<rparr>"

definition exFault :: exec_error where
  "exFault = \<lparr>ee_name = ''NodeApiError'', ee_message = ''down''\<rparr>"

definition exItem :: node_item where
  "exItem = emptyNodeItem\<lparr>ni_json := [(''id'', JNum 7)]\<rparr>"

definition exErrorItem :: node_item where
  "exErrorItem = emptyNodeItem\<lparr>ni_json := [(''error'', JStr ''bad'')]\<rparr>"

definition exEnv :: "(nat \<Rightarrow> outcome) \<Rightarrow> run_env" where
  "exEnv f = \<lparr>re_pinData = [], re_runNodeFilter = None, re_destination = None, re_manual = False,
     re_execute = (\<lambda>e r items data n. if n_name (e_node e) = ''B'' then f n else Returns (Some [Some items])),
     re_waits = (\<lambda>e r. False), re_pairedJson = (\<lambda>s p. None), re_outputs = (\<lambda>_. 2), re_cancelled = (\<lambda>_. False)\<rparr>"

definition exStackItem :: "inode \<Rightarrow> node_item list \<Rightarrow> node_item execute_data" where
  "exStackItem node items = \<lparr>e_node = node, e_data = [(Main, [Some items])], e_source = None, e_runIndex = None, e_metadata = None\<rparr>"

definition exStart :: "node_item execute_data \<Rightarrow> node_item run_data \<Rightarrow> run_state" where
  "exStart e rd = \<lparr>rs_engine = \<lparr>es_stack = [e], es_waiting = [], es_waitingSource = [], en_runData = rd\<rparr>, rs_lastTry = None,
     rs_executionIndex = 0, rs_lastNodeExecuted = None, rs_waitTill = False, rs_error = None\<rparr>"

text \<open>A node that in turn returns an error and throws is called five times with three tries.\<close>

lemma retry_exceeds_maxTries:
  "maxTriesOf exNodeB = 3 \<and> tr_calls (tryNode (exEnv (\<lambda>n. if even n then Returns (Some [Some [exErrorItem]]) else Throws exFault))
     exLine (exStackItem exNodeB [exItem]) 0) = 5"
  by code_simp

text \<open>
  A node that fails and lets the workflow go on: its input is its output and the run goes to its end,
  but since it was the last one, its error is still the error of the run.
\<close>

lemma continued_failure_ends_in_error:
  "map_sum id (\<lambda>(status, s). (status, map (\<lambda>(nm, runs). (nm, map t_executionStatus runs)) (en_runData (rs_engine s))))
     (processRunExecutionData 5 (exEnv (\<lambda>n. Throws exFault)) exLine exFault (exStart (exStackItem (mkNode 1 ''A'') [exItem]) [])) =
   Inr (StError, [(''A'', [Some StSuccess]), (''B'', [Some StError])])"
  by code_simp

text \<open>An output that is \<open>null\<close>: pairing its items skips it, merging the errors fails on it.\<close>

lemma null_output_fails:
  "mergeErrors (Some [None, Some [exItem]]) = Inl TypeError \<and>
     assignPairedItems (Some [None, Some [exItem]]) (exStackItem exNodeB [exItem]) \<noteq> Inl TypeError"
  by code_simp

definition exWaiting :: run_state where
  "exWaiting = (exStart (exStackItem exNodeB [exItem]) [(''B'', [startedTask 3 (exStackItem exNodeB [exItem]) True None])])
     \<lparr>rs_lastNodeExecuted := Some ''B'', rs_waitTill := True\<rparr>"

section \<open>Properties\<close>

text \<open>
  Retries are bounded: a node has between one and five tries, waits at most five seconds between
  two of them, and is called at most \<open>2 * maxTries - 1\<close> times (a call that throws after one that
  returned an error does not count as a try), so nine times at most.
\<close>

lemma retry_bounds:
  "maxTriesOf (e_node e) \<in> {1..5} \<and> waitBetweenTriesOf (e_node e) \<in> {0..5000} \<and>
     int (tr_calls (tryNode env w e runIndex)) \<le> 2 * maxTriesOf (e_node e) - 1"
proof -
  have "0 + 2 * (nat (maxTriesOf (e_node e)) - 1) + 1 = nat (2 * maxTriesOf (e_node e) - 1)"
    using maxTriesOf_bounds(1) [of "e_node e"] by simp
  then have "tr_calls (tryNode env w e runIndex) \<le> nat (2 * maxTriesOf (e_node e) - 1)"
    unfolding tryNode_def Let_def using runTries_calls by metis
  then show ?thesis using maxTriesOf_bounds [of "e_node e"] by (auto simp: waitBetweenTriesOf_def)
qed



text \<open>
  The error output takes exactly the items that carry an error: when the split of a node's output
  does not throw, every other main output keeps its items without an error, in their order, and the last
  one holds the others, in the order of the outputs, each with the data of the item it came from.
\<close>

lemma error_output_partition:
  assumes "handleNodeErrorOutput env e outs = (True, outs')" "re_outputs env (e_node e) = Suc n"
  shows "map (js_get outs') [0..<n] = map (\<lambda>i. Some (Some (filter (\<lambda>x. \<not> isErrorItem x) (itemsOf outs i)))) [0..<n] \<and>
    (\<exists>es. js_get outs' n = Some (Some es) \<and>
      list_all2 (\<lambda>x y. errorItem env e x = Inr y) (concat (map (\<lambda>i. filter isErrorItem (itemsOf outs i)) [0..<n])) es)"
  using assms by (rule handleNodeErrorOutput_ok)

lemma error_output_partition_witness:
  "\<exists>outs'. handleNodeErrorOutput (exEnv (\<lambda>_. Returns None)) (exStackItem exNodeB [exItem]) [Some [exErrorItem, exItem]] = (True, outs') \<and>
     js_get outs' 0 = Some (Some [exItem]) \<and> js_get outs' 1 = Some (Some [exErrorItem])"
proof -
  let ?env = "exEnv (\<lambda>_. Returns None)" and ?e = "exStackItem exNodeB [exItem]" and ?outs = "[Some [exErrorItem, exItem]]"
  have run: "handleNodeErrorOutput ?env ?e ?outs = (True, [Some [exItem], Some [exErrorItem]])" "re_outputs ?env (e_node ?e) = Suc 1"
    by code_simp+
  moreover have "isErrorItem exErrorItem" "\<not> isErrorItem exItem" by code_simp+
  ultimately show ?thesis using error_output_partition [OF run] by (simp add: itemsOf_def)
qed



text \<open>
  C33: an execution that waited goes on without running its node twice: the state is reset, the node is
  disabled, and the next round hands its first input on as its output. The run that was recorded when
  the execution was put to wait is replaced by one that succeeded, at the same run index.
\<close>

theorem wait_resume:
  assumes waits: "rs_waitTill s" "rs_lastNodeExecuted s = Some (n_name (e_node e))" "es_stack (rs_engine s) = e # rest"
    and runs: "map_of (en_runData (rs_engine s)) (n_name (e_node e)) = Some runs" "runs \<noteq> []" "e_runIndex e = None"
    and input: "map_of (e_data e) Main = Some (Some items # inputs)" "items \<noteq> []"
    and plain: "n_onError (e_node e) \<noteq> Some ContinueErrorOutput" "n_rewireOutputLogTo (e_node e) = None"
    and resumed: "handleWaitingState s = Inr s1" "es_stack (rs_engine s1) = e1 # rest"
    and round: "runItem env w index e1 (takeItem s1) = Inr st" "rs_lastTry s1 = None" "onFilter env (n_name (e_node e))"
      "ensureInputData w (e1\<lparr>e_data := pairInput e1\<rparr>) (rs_engine (takeItem s1)) = Inr (True, rs_engine (takeItem s1))"
  shows "\<exists>outs t. mergeErrors (Some [Some (pairedFirst e items)]) = Inr outs \<and> t_data t = Some [(Main, outs)] \<and>
    t_executionStatus t = Some StSuccess \<and> t_executionIndex t = Some index \<and>
    map_of (en_runData (rs_engine (stepState st))) (n_name (e_node e)) = Some (butlast runs @ [t])"
proof -
  let ?nm = "n_name (e_node e)" and ?rd = "en_runData (rs_engine s)"
  define e2 where "e2 = e\<lparr>e_node := (e_node e)\<lparr>n_disabled := Some True\<rparr>, e_data := pairInput e\<rparr>"
  from resumed waits runs have s1: "s1 = s\<lparr>rs_waitTill := False,
      rs_engine := (rs_engine s)\<lparr>es_stack := e1 # rest, en_runData := AList.update ?nm (butlast runs) ?rd\<rparr>\<rparr>"
    and e1: "e1 = e\<lparr>e_node := (e_node e)\<lparr>n_disabled := Some True\<rparr>\<rparr>"
    by (auto simp: handleWaitingState_def Let_def)
  have e2': "e1\<lparr>e_data := pairInput e1\<rparr> = e2" by (simp add: e1 e2_def)
  have idx: "currentRunIndex e2 (en_runData (rs_engine (takeItem s1))) = length (butlast runs)"
    using runs(3) by (simp add: currentRunIndex_def e2_def s1 takeItem_def)
  obtain inputs' where main: "map_of (e_data e2) Main = Some (Some (pairedFirst e items) # inputs')"
    using map_of_pairInput [OF input(1)] by (auto simp: e2_def pairedFirst_def)
  note passes = tryNode_disabled [of e2, OF _ _ main, of env w "length (butlast runs)"]
  have tr: "tr_error (tryNode env w e2 (length (butlast runs))) = None"
    "tr_data (tryNode env w e2 (length (butlast runs))) = Some [Some (pairedFirst e items)]"
    using passes plain(1) input(2) pairedFirst_paired [of _ items] by (auto simp: e2_def isDisabled_def)
  have round': "recordTries env w index e2 (length (butlast runs)) (tryNode env w e2 (length (butlast runs))) (takeItem s1) = Inr st"
  proof -
    have "n_name (e_node e2) = ?nm" "rs_lastTry (takeItem s1) = None" using round(2) by (simp_all add: e2_def takeItem_def)
    then show ?thesis using round(1,3,4) unfolding runItem_def Let_def e2' idx by simp
  qed
  obtain s2 where s2: "rs_engine s2 = rs_engine (takeItem s1)" "rs_waitTill s2 = False"
    "recordSuccess env w e2 (length (butlast runs)) (Some [Some (pairedFirst e items)]) (startedTask index e2 False None) s2 = Inr st"
    by (rule recordTries_passed [OF tr _ _ round']) (simp_all add: e2_def isDisabled_def s1 takeItem_def)
  from s2(3) obtain outs where outs: "mergeErrors (Some [Some (pairedFirst e items)]) = Inr outs"
    by (auto simp: recordSuccess_def)
  let ?t = "(startedTask index e2 False None)\<lparr>t_data := Some [(Main, outs)]\<rparr>"
  have "en_runData (rs_engine (stepState st)) =
      recordRun ?nm (length (butlast runs)) ?t (en_runData (rs_engine (takeItem s1)))"
    using s2 plain(2) unfolding recordSuccess_def outs
    by (auto simp: Let_def withOutput_def e2_def split: if_split_asm dest!: runData_enqueueChildren runData_releaseWaiting)
  then have "map_of (en_runData (rs_engine (stepState st))) ?nm = Some (butlast runs @ [?t])"
    by (simp add: recordRun_def s1 takeItem_def js_get_def Let_def)
  with outs show ?thesis by (intro exI [of _ outs] exI [of _ ?t]) (simp add: startedTask_def)
qed

lemma ensureInputData_True:
  "map_sum id fst (ensureInputData w e st) = Inr True \<Longrightarrow> ensureInputData w e st = Inr (True, st)"
  by (cases "hasInputFrom w e [0..<numberOfInputs w (n_name (e_node e))]") (auto simp: ensureInputData_def)

lemma wait_resume_witness:
  "\<exists>s1 st t. handleWaitingState exWaiting = Inr s1 \<and>
     runItem (exEnv (\<lambda>n. Throws exFault)) exLine 4 (hd (es_stack (rs_engine s1))) (takeItem s1) = Inr st \<and>
     map_of (en_runData (rs_engine (stepState st))) ''B'' = Some [t] \<and> t_executionStatus t = Some StSuccess"
proof -
  let ?e = "exStackItem exNodeB [exItem]" and ?env = "exEnv (\<lambda>n. Throws exFault)"
  let ?e1 = "?e\<lparr>e_node := exNodeB\<lparr>n_disabled := Some True\<rparr>\<rparr>"
  let ?s1 = "exWaiting\<lparr>rs_waitTill := False, rs_engine := (rs_engine exWaiting)\<lparr>es_stack := [?e1], en_runData := [(''B'', [])]\<rparr>\<rparr>"
  let ?run = "startedTask 3 ?e True None"
  have waits: "rs_waitTill exWaiting" "rs_lastNodeExecuted exWaiting = Some (n_name (e_node ?e))" "es_stack (rs_engine exWaiting) = ?e # []"
    "map_of (en_runData (rs_engine exWaiting)) (n_name (e_node ?e)) = Some [?run]" "[?run] \<noteq> []" "e_runIndex ?e = None"
    "map_of (e_data ?e) Main = Some (Some [exItem] # [])" "[exItem] \<noteq> []"
    "n_onError (e_node ?e) \<noteq> Some ContinueErrorOutput" "n_rewireOutputLogTo (e_node ?e) = None"
    by (simp_all add: exWaiting_def exStart_def exStackItem_def exNodeB_def mkNode_def)
  have s1: "handleWaitingState exWaiting = Inr ?s1" "es_stack (rs_engine ?s1) = ?e1 # []" "rs_lastTry ?s1 = None"
    by (simp_all add: handleWaitingState_def exWaiting_def exStart_def exStackItem_def exNodeB_def mkNode_def)
  have "map_sum id (\<lambda>_. ()) (runItem ?env exLine 4 ?e1 (takeItem ?s1)) = Inr ()" by code_simp
  then obtain st where st: "runItem ?env exLine 4 ?e1 (takeItem ?s1) = Inr st"
    by (cases "runItem ?env exLine 4 ?e1 (takeItem ?s1)") auto
  have filter: "onFilter ?env (n_name (e_node ?e))" by (simp add: onFilter_def exEnv_def)
  have "map_sum id fst (ensureInputData exLine (?e1\<lparr>e_data := pairInput ?e1\<rparr>) (rs_engine (takeItem ?s1))) = Inr True"
    by code_simp
  then have input: "ensureInputData exLine (?e1\<lparr>e_data := pairInput ?e1\<rparr>) (rs_engine (takeItem ?s1)) = Inr (True, rs_engine (takeItem ?s1))"
    by (rule ensureInputData_True)
  from wait_resume [OF waits s1(1,2) st s1(3) filter input] obtain t where
    "map_of (en_runData (rs_engine (stepState st))) (n_name (e_node ?e)) = Some (butlast [?run] @ [t])" "t_executionStatus t = Some StSuccess"
    by blast
  with s1(1,2) st show ?thesis by (intro exI [of _ ?s1] exI [of _ st] exI [of _ t]) (simp add: exStackItem_def exNodeB_def mkNode_def)
qed

end
