(* ===== verification/EngineTermination.thy ===== *)
theory EngineTermination
  imports EngineRun_Properties
begin

text \<open>
  When the main loop of \<open>class WorkflowExecute\<close> comes to its end. The work that is left is the multiset of
  the names on the stack and in the waiting table. In the order \<open>v1\<close> a round takes one name out of it and
  adds names of children only, so on a workflow whose main connections have no cycle the work
  decreases in the multiset order, whatever the nodes do.
\<close>

section \<open>What a run still has to do\<close>

text \<open>The nodes of the items on the stack and of the entries that wait.\<close>

definition waitingTokens :: "'i waiting_execution \<Rightarrow> string multiset" where
  "waitingTokens al = mset (concat (map (\<lambda>(nm, entries). replicate (length entries) nm) al))"

definition tokens :: "'i engine \<Rightarrow> string multiset" where
  "tokens st = mset (map (\<lambda>e. n_name (e_node e)) (es_stack st)) + waitingTokens (es_waiting st)"

definition has_main :: "'i engine \<Rightarrow> bool" where
  "has_main st \<longleftrightarrow> (\<forall>e \<in> set (es_stack st). map_of (e_data e) Main \<noteq> None)"

text \<open>Only work for nodes of \<open>S\<close> is added, and every item of the stack still has data on \<open>main\<close>.\<close>

definition adds :: "string set \<Rightarrow> 'i engine \<Rightarrow> 'i engine \<Rightarrow> bool" where
  "adds S st st' \<longleftrightarrow> (\<exists>X. set_mset X \<subseteq> S \<and> tokens st' \<subseteq># tokens st + X) \<and> (has_main st \<longrightarrow> has_main st')"

lemma adds_refl [simp]: "adds S st st"
  unfolding adds_def by (auto intro: exI [of _ "{#}"])

lemma adds_trans: "adds S a b \<Longrightarrow> adds S b c \<Longrightarrow> adds S a c"
proof -
  assume "adds S a b" "adds S b c"
  then obtain X Y where X: "set_mset X \<subseteq> S" "tokens b \<subseteq># tokens a + X" and Y: "set_mset Y \<subseteq> S" "tokens c \<subseteq># tokens b + Y"
    and m: "has_main a \<longrightarrow> has_main b" "has_main b \<longrightarrow> has_main c" by (auto simp: adds_def)
  have "tokens b + Y \<subseteq># tokens a + X + Y" using X(2) by (rule mset_subset_eq_mono_add) simp
  with Y(2) have "tokens c \<subseteq># tokens a + (X + Y)" by (metis subset_mset.order_trans union_assoc)
  moreover have "set_mset (X + Y) \<subseteq> S" using X(1) Y(1) by simp
  ultimately show "adds S a c" using m unfolding adds_def by blast
qed

lemma adds_mono: "adds S a b \<Longrightarrow> S \<subseteq> T \<Longrightarrow> adds T a b"
  unfolding adds_def by blast

lemma waitingTokens_simps [simp]:
  "waitingTokens [] = {#}" "waitingTokens ((nm, entries) # al) = replicate_mset (length entries) nm + waitingTokens al"
  by (simp_all add: waitingTokens_def)

lemma waitingTokens_update: "waitingTokens (AList.update nm entries al) \<subseteq># waitingTokens al + replicate_mset (length entries) nm"
proof (induction al)
  case (Cons x al)
  then show ?case by (cases x) (auto simp: ac_simps intro: subset_mset.order_trans)
qed simp

lemma waitingTokens_delete: "waitingTokens (AList.delete nm al) \<subseteq># waitingTokens al"
  by (induction al) (auto intro: subset_mset.order_trans)

lemma waitingTokens_delete_some:
  "map_of al nm = Some entries \<Longrightarrow> waitingTokens (AList.delete nm al) + replicate_mset (length entries) nm \<subseteq># waitingTokens al"
proof (induction al)
  case (Cons x al)
  then show ?case
    using waitingTokens_delete [of nm al] by (cases x) (auto simp: ac_simps)
qed simp

lemma replicate_mset_add: "replicate_mset (m + n) x = replicate_mset m x + replicate_mset n x"
  by (induction m) auto

lemma waitingTokens_update_some:
  "map_of al nm = Some entries \<Longrightarrow> length entries' < length entries \<Longrightarrow>
     waitingTokens (AList.update nm entries' al) + {#nm#} \<subseteq># waitingTokens al"
proof (induction al)
  case (Cons x al)
  show ?case
  proof (cases "fst x = nm")
    case True
    with Cons.prems obtain d where "length entries = Suc (length entries' + d)" "x = (nm, entries)"
      by (cases x) (auto dest: less_imp_Suc_add)
    then show ?thesis by (simp add: replicate_mset_add)
  next
    case False
    with Cons show ?thesis by (cases x) (auto simp: ac_simps)
  qed
qed simp

lemma adds_enqueue: "map_of (e_data e) Main \<noteq> None \<Longrightarrow> adds {n_name (e_node e)} st (enqueue w e st)"
  unfolding adds_def
  by (auto simp: enqueue_def tokens_def has_main_def intro!: exI [of _ "{#n_name (e_node e)#}"])

lemma adds_waiting:
  assumes "es_stack st' = es_stack st" "es_waiting st' = AList.update nm entries (es_waiting st)"
  shows "adds {nm} st st'"
proof -
  have "tokens st' \<subseteq># tokens st + replicate_mset (length entries) nm"
    using waitingTokens_update [of nm entries "es_waiting st"] assms by (simp add: tokens_def subset_mset.add_left_mono union_assoc)
  then show ?thesis using assms(1) by (auto simp: adds_def has_main_def set_mset_replicate_mset_subset split: if_splits intro!: exI [of _ "replicate_mset (length entries) nm"])
qed

lemma adds_remove: "adds {} st (removeWaitingEntry nm k st)"
proof (cases "map_of (es_waiting st) nm")
  case None
  then have "es_waiting (removeWaitingEntry nm k st) = es_waiting st" "es_stack (removeWaitingEntry nm k st) = es_stack st"
    by (auto simp: removeWaitingEntry_def waitingEntries_def Let_def AList_delete_absent)
  then show ?thesis by (auto simp: adds_def tokens_def has_main_def intro: exI [of _ "{#}"])
next
  case (Some entries)
  have "waitingTokens (AList.update nm (AList.delete k entries) (es_waiting st)) \<subseteq># waitingTokens (es_waiting st)"
  proof (cases "length (AList.delete k entries) < length entries")
    case True
    from waitingTokens_update_some [OF Some True] show ?thesis
      by (meson mset_subset_eq_add_left subset_mset.order_trans)
  next
    case False
    then have "AList.delete k entries = entries" by (metis AList_delete_absent length_AList_delete not_Some_eq)
    with Some show ?thesis by (simp add: AList_update_same)
  qed
  then show ?thesis
    using waitingTokens_delete [of nm "es_waiting st"]
    by (auto simp: adds_def tokens_def has_main_def removeWaitingEntry_def waitingEntries_def Some Let_def intro: exI [of _ "{#}"])
qed

lemma tokens_remove:
  assumes "map_of (waitingEntries st nm) k = Some entry"
  shows "tokens (removeWaitingEntry nm k st) + {#nm#} \<subseteq># tokens st"
proof -
  from assms obtain entries where e: "map_of (es_waiting st) nm = Some entries" "map_of entries k = Some entry"
    by (cases "map_of (es_waiting st) nm") (auto simp: waitingEntries_def)
  then have len: "length (AList.delete k entries) < length entries" by (simp add: length_AList_delete)
  then obtain d where d: "length entries = Suc d" by (cases entries) auto
  have "waitingTokens (AList.delete nm (es_waiting st)) + {#nm#} \<subseteq># waitingTokens (es_waiting st)"
  proof -
    have "waitingTokens (AList.delete nm (es_waiting st)) + {#nm#}
        \<subseteq># waitingTokens (AList.delete nm (es_waiting st)) + replicate_mset (length entries) nm"
      by (rule subset_mset.add_left_mono) (simp add: d)
    then show ?thesis using waitingTokens_delete_some [OF e(1)] by (rule subset_mset.order_trans)
  qed
  with waitingTokens_update_some [OF e(1) len] show ?thesis
    by (auto simp: removeWaitingEntry_def waitingEntries_def e(1) Let_def tokens_def ac_simps)
qed
section \<open>What an operation adds\<close>

definition named_nodes :: "'i workflow \<Rightarrow> bool" where
  "named_nodes w \<longleftrightarrow> (\<forall>(nm, node) \<in> set (w_nodes w). n_name node = nm)"

lemma named_getNode: "named_nodes w \<Longrightarrow> wf_getNode w nm = Some node \<Longrightarrow> n_name node = nm"
  by (auto simp: named_nodes_def wf_getNode_def dest!: map_of_SomeD)

lemma adds_listWaitingNode: "adds {nm} st (listWaitingNode nm st)"
  by (cases "map_of (es_waiting st) nm = None") (auto simp: listWaitingNode_def intro: adds_waiting)

lemma adds_prepare: "adds {nm} st (prepareWaitingToExecution nm m k st)"
  by (rule adds_waiting) (simp_all add: prepareWaitingToExecution_def)

lemma adds_openWaitingEntry: "openWaitingEntry w c st = Inr (st', k) \<Longrightarrow> adds {c_node c} st st'"
  by (auto simp: openWaitingEntry_def Let_def split: option.splits
      intro: adds_listWaitingNode adds_trans [OF adds_listWaitingNode adds_prepare])

lemma adds_addWaitingData: "addWaitingData c k d src st = Inr st' \<Longrightarrow> adds {c_node c} st st'"
  by (auto simp: addWaitingData_def intro!: adds_waiting)

lemma adds_keepWaiting: "keepWaiting w c k d st = Inr st' \<Longrightarrow> adds {c_node c} st st'"
  by (auto simp: keepWaiting_def Let_def prepareWaitingToExecution_def intro!: adds_waiting)

lemma tokens_enqueue: "tokens (enqueue w e st) = add_mset (n_name (e_node e)) (tokens st)"
  by (auto simp: enqueue_def tokens_def)

lemma es_waiting_enqueue [simp]: "waitingEntries (enqueue w e st) nm = waitingEntries st nm"
  by (simp add: enqueue_def waitingEntries_def)

lemma has_main_remove [simp]: "has_main (removeWaitingEntry nm k st) = has_main st"
  by (simp add: has_main_def removeWaitingEntry_def Let_def)

lemma has_main_enqueue: "has_main (enqueue w e st) \<longleftrightarrow> has_main st \<and> map_of (e_data e) Main \<noteq> None"
  by (auto simp: has_main_def enqueue_def)

lemma adds_releaseEntry:
  assumes "releaseEntry w nm k st = Inr st'" "named_nodes w" "entryMain (waitingEntries st nm) k (\<lambda>e. map_of e Main) = Inr main"
  shows "adds {} st st'"
proof -
  from assms(3) obtain entry where entry: "map_of (waitingEntries st nm) k = Some entry" "map_of entry Main \<noteq> None"
    by (auto simp: entryMain_def split: option.splits)
  define item where "item node = \<lparr>e_node = node, e_data = entry, e_source = map_of (waitingSources st nm) k,
    e_runIndex = None, e_metadata = None\<rparr>" for node
  from assms(1) entry(1) obtain node where getNode: "wf_getNode w nm = Some node"
    and st': "st' = removeWaitingEntry nm k (enqueue w (item node) st)"
    by (auto simp: releaseEntry_def item_def split: option.splits)
  define e where "e = item node"
  note st' = st' [folded e_def]
  have node: "wf_getNode w nm = Some node" "e_node e = node" "e_data e = entry"
    using getNode by (simp_all add: e_def item_def)
  have "n_name (e_node e) = nm" using named_getNode [OF assms(2) node(1)] node(2) by simp
  moreover have "tokens st' + {#nm#} \<subseteq># tokens (enqueue w e st)"
    unfolding st' by (rule tokens_remove) (simp add: entry(1))
  ultimately have "tokens st' \<subseteq># tokens st" by (simp add: tokens_enqueue)
  moreover have "has_main st \<longrightarrow> has_main st'"
    using entry(2) node(3) by (simp add: st' has_main_enqueue)
  ultimately show ?thesis by (auto simp: adds_def intro: exI [of _ "{#}"])
qed

lemma addMissingParents_v1_same:
  assumes "w_executionOrder w = Some ''v1''" "addMissingParents emptyItem w nm oi parent nsd runIndex st = Inr st'"
  shows "st' = st"
proof -
  have "addMissingParent emptyItem w oi parent nsd runIndex ns x u = Inr v \<Longrightarrow> v = u" for ns x u v
    using assms(1) by (auto simp: addMissingParent_def isLegacyExecutionOrder_def Let_def split: if_splits)
  then have "efold (addMissingParent emptyItem w oi parent nsd runIndex ns) cs u = Inr v \<Longrightarrow> v = u" for ns cs u v
    by (induction cs arbitrary: u) (auto, metis)
  with assms(2) show ?thesis by (auto simp: addMissingParents_def)
qed

lemma adds_addNode:
  assumes "addNodeToBeExecuted emptyItem w c oi parent nsd runIndex newRunIndex metadata st = Inr st'"
    and "w_executionOrder w = Some ''v1''" "named_nodes w"
  shows "adds {c_node c} st st'"
proof (cases "numberOfInputs w (c_node c) \<le> 1")
  case True
  with assms(1) have "st' = addDirectly w c oi parent (outputOf nsd oi) runIndex newRunIndex metadata st"
    by (simp add: addNodeToBeExecuted_def Let_def)
  then show ?thesis
    using named_getNode [OF assms(3), of "c_node c"]
    by (cases "wf_getNode w (c_node c)") (auto simp: addDirectly_def intro!: adds_enqueue [THEN adds_mono])
next
  case False
  define data where "data = outputOf nsd oi"
  define source where "source = (if nsd = None then None else Some (nodeSource parent oi runIndex))"
  from assms(1) False obtain st1 k st2 main where
    1: "openWaitingEntry w c st = Inr (st1, k)" and
    2: "addWaitingData c k data source st1 = Inr st2" and
    3: "entryMain (waitingEntries st2 (c_node c)) k (\<lambda>e. map_of e Main) = Inr main" and
    4: "allDataFound main \<and> releaseEntry w (c_node c) k st2 = Inr st'
      \<or> (\<exists>st3. (st3 = st2 \<or> addMissingParents emptyItem w (c_node c) oi parent nsd runIndex st2 = Inr st3)
           \<and> keepWaiting w c k data st3 = Inr st')"
    unfolding addNodeToBeExecuted_def Let_def data_def [symmetric] source_def [symmetric]
    by (fastforce split: if_split_asm)
  have "adds {c_node c} st2 st'"
    using 4 adds_releaseEntry [OF _ assms(3) 3, THEN adds_mono] addMissingParents_v1_same [OF assms(2)] adds_keepWaiting
    by blast
  then show ?thesis by (meson adds_trans adds_openWaitingEntry [OF 1] adds_addWaitingData [OF 2])
qed

lemma outputConnections_main:
  assumes "map_of (orElse (map_of (w_connectionsBySourceNode w) nm) []) Main = Some outs" "(oi, c) \<in> set (outputConnections outs)"
  shows "(nm, c_node c) \<in> main_rel (w_connectionsBySourceNode w)"
proof -
  from assms(2) have "c \<in> set (allConnections outs)"
    by (fastforce simp: outputConnections_def outputEntries_def allConnections_def dest: set_zip_rightD split: option.splits)
  with assms(1) show ?thesis
    by (cases "map_of (w_connectionsBySourceNode w) nm") (auto simp: main_rel_def mainConnections_def)
qed

abbreviation childrenOf :: "'i workflow \<Rightarrow> string \<Rightarrow> string set" where
  "childrenOf w nm \<equiv> main_rel (w_connectionsBySourceNode w) `` {nm}"

lemma visitOutput_v1:
  assumes "visitOutput emptyItem w nm nsd runIndex (oi, c) (toAdd, st) = Inr r" "w_executionOrder w = Some ''v1''"
  shows "snd r = st \<and> set (fst r) \<subseteq> set toAdd \<union> {(p, oi, c) |p. True}"
  using assms by (auto simp: visitOutput_def split: option.splits if_split_asm)

lemma adds_enqueueChildren:
  assumes "enqueueChildren emptyItem w nm nsd runIndex st = Inr st'" "w_executionOrder w = Some ''v1''" "named_nodes w"
  shows "adds (childrenOf w nm) st st'"
proof (cases "map_of (orElse (map_of (w_connectionsBySourceNode w) nm) []) Main")
  case None
  with assms show ?thesis by (simp add: enqueueChildren_def)
next
  case (Some outs)
  let ?ok = "\<lambda>r. snd r = st \<and> (\<forall>(p, oi, c) \<in> set (fst r). c_node c \<in> childrenOf w nm)"
  from assms(1,2) Some obtain toAdd st1 where
    1: "efold (visitOutput emptyItem w nm nsd runIndex) (outputConnections outs) ([], st) = Inr (toAdd, st1)" and
    2: "efold (\<lambda>(_, oi, c). addNodeToBeExecuted emptyItem w c oi nm (Some nsd) runIndex None None) (sortNodesToAdd toAdd) st1 = Inr st'"
    by (auto simp: enqueueChildren_def)
  have ok: "?ok (toAdd, st1)"
  proof (rule efold_invariant [OF 1, of ?ok])
    fix x u v
    assume x: "x \<in> set (outputConnections outs)" and u: "?ok u" and v: "visitOutput emptyItem w nm nsd runIndex x u = Inr v"
    obtain oi c where xs: "x = (oi, c)" by fastforce
    from outputConnections_main [OF Some x [unfolded xs]] have "c_node c \<in> childrenOf w nm" by simp
    with visitOutput_v1 [of emptyItem w nm nsd runIndex oi c "fst u" "snd u" v] u v assms(2)
    show "?ok v" by (fastforce simp: xs)
  qed simp
  have "adds (childrenOf w nm) st st'"
  proof (rule efold_invariant [OF 2, of "adds (childrenOf w nm) st"])
    show "adds (childrenOf w nm) st st1" using ok by simp
  next
    fix x u v
    assume x: "x \<in> set (sortNodesToAdd toAdd)" and u: "adds (childrenOf w nm) st u"
      and v: "(case x of (_, oi, c) \<Rightarrow> addNodeToBeExecuted emptyItem w c oi nm (Some nsd) runIndex None None) u = Inr v"
    obtain p oi c where xs: "x = (p, oi, c)" by (metis surj_pair)
    from x ok have "c_node c \<in> childrenOf w nm" by (auto simp: xs)
    then have "adds (childrenOf w nm) u v"
      using adds_addNode [OF v [unfolded xs prod.case] assms(2,3)] by (auto intro: adds_mono)
    with u show "adds (childrenOf w nm) st v" by (rule adds_trans)
  qed
  then show ?thesis .
qed

lemma adds_tryWaitingNode:
  assumes "tryWaitingNode w waitingNodes nm st = Inr r" "named_nodes w"
  shows "case r of Skip \<Rightarrow> True | Released st' \<Rightarrow> adds {} st st' | Dropped st' \<Rightarrow> adds {} st st'"
proof (cases r)
  case (Dropped st')
  with assms(1) obtain k where "st' = removeWaitingEntry nm k st"
    unfolding tryWaitingNode_def by (auto simp: Let_def split: option.splits if_split_asm)
  with Dropped show ?thesis by (simp add: adds_remove)
next
  case (Released st')
  with assms(1) obtain k main node item where r: "wf_getNode w nm = Some node"
    "entryMain (waitingEntries st nm) k (\<lambda>e. map_of e Main) = Inr main"
    "st' = (removeWaitingEntry nm k st)\<lparr>es_stack := es_stack st @ [item]\<rparr>" "e_node item = node" "map_of (e_data item) Main \<noteq> None"
    unfolding tryWaitingNode_def by (fastforce simp: Let_def split: option.splits if_split_asm)
  from r(2) obtain entry where "map_of (waitingEntries st nm) k = Some entry" by (auto simp: entryMain_def split: option.splits)
  from tokens_remove [OF this] have "tokens (removeWaitingEntry nm k st) + {#nm#} \<subseteq># tokens st" .
  moreover have "es_stack (removeWaitingEntry nm k st) = es_stack st" by (simp add: removeWaitingEntry_def Let_def)
  ultimately have "tokens st' \<subseteq># tokens st"
    using named_getNode [OF assms(2) r(1)] r(4) by (simp add: r(3) tokens_def)
  moreover have "has_main st \<longrightarrow> has_main st'" using r(5) by (auto simp: r(3) has_main_def)
  ultimately show ?thesis using Released by (auto simp: adds_def intro: exI [of _ "{#}"])
qed simp

lemma adds_releaseFrom: "releaseFrom w waitingNodes names st = Inr st' \<Longrightarrow> named_nodes w \<Longrightarrow> adds {} st st'"
proof (induction w waitingNodes names st rule: releaseFrom.induct)
  case (1 w waitingNodes st)
  then show ?case by (simp add: releaseFrom.simps)
next
  case (2 w waitingNodes nm names st)
  note run = "2.prems"(1) [unfolded releaseFrom.simps]
  show ?case
  proof (cases "tryWaitingNode w waitingNodes nm st")
    case (Inl e)
    with run show ?thesis by simp
  next
    case (Inr r)
    note a = adds_tryWaitingNode [OF Inr "2.prems"(2)]
    show ?thesis
    proof (cases r)
      case Skip
      with Inr run "2.IH"(1) "2.prems"(2) show ?thesis by simp
    next
      case (Released st1)
      with Inr run a show ?thesis by simp
    next
      case (Dropped st1)
      with Inr run "2.IH"(2) "2.prems"(2) have "adds {} st1 st'" by simp
      moreover have "adds {} st st1" using a Dropped by simp
      ultimately show ?thesis by (rule adds_trans [rotated])
    qed
  qed
qed

lemma adds_releaseWaiting: "releaseWaiting w st = Inr st' \<Longrightarrow> named_nodes w \<Longrightarrow> adds {} st st'"
  by (auto simp: releaseWaiting_def adds_releaseFrom split: if_split_asm)

section \<open>A round makes the work smaller\<close>

lemma tokens_runData [simp]: "tokens (st\<lparr>en_runData := rd\<rparr>) = tokens st" "has_main (st\<lparr>en_runData := rd\<rparr>) = has_main st"
  by (simp_all add: tokens_def has_main_def)

lemma adds_runData: "adds S st (st\<lparr>en_runData := rd\<rparr>)"
  by (auto simp: adds_def intro: exI [of _ "{#}"])

lemma releaseStep:
  assumes "(if halts then Inr (Break s1) else if dest then Inr (Continue (s\<lparr>rs_engine := st0\<rparr>))
      else ebind x (\<lambda>st. ebind (releaseWaiting w st) (\<lambda>st. Inr (Continue (s\<lparr>rs_engine := st\<rparr>))))) = Inr (Continue s')"
  obtains "rs_engine s' = st0" | st1 where "x = Inr st1" "releaseWaiting w st1 = Inr (rs_engine s')"
proof (cases "\<not> halts \<and> dest")
  case True
  with assms have "s' = s\<lparr>rs_engine := st0\<rparr>" by simp
  with that(1) show ?thesis by simp
next
  case False
  with assms obtain st1 st2 where "x = Inr st1" "releaseWaiting w st1 = Inr st2" "s' = s\<lparr>rs_engine := st2\<rparr>"
    by (cases halts) auto
  with that(2) show ?thesis by simp
qed

lemma adds_recordSuccess:
  assumes "recordSuccess env w e r d t s = Inr (Continue s')" "w_executionOrder w = Some ''v1''" "named_nodes w"
  shows "adds (childrenOf w (n_name (e_node e))) (rs_engine s) (rs_engine s')"
proof -
  let ?node = "e_node e" and ?rd = "en_runData (rs_engine s)"
  from assms(1) obtain outs where outs: "mergeErrors d = Inr outs" by (auto simp: recordSuccess_def)
  define st0 where "st0 = (rs_engine s)\<lparr>en_runData := recordRun (n_name ?node) r (withOutput ?node r ?rd outs t) ?rd\<rparr>"
  have 0: "adds (childrenOf w (n_name ?node)) (rs_engine s) st0" by (simp add: st0_def adds_runData)
  from assms(1) have "(if rs_waitTill s then Inr (Break (s\<lparr>rs_engine := putBack e st0\<rparr>))
      else if re_destination env = Some (n_name ?node) then Inr (Continue (s\<lparr>rs_engine := st0\<rparr>))
      else ebind (enqueueChildren emptyNodeItem w (n_name ?node) outs r st0) (\<lambda>st.
        ebind (releaseWaiting w st) (\<lambda>st. Inr (Continue (s\<lparr>rs_engine := st\<rparr>))))) = Inr (Continue s')"
    unfolding recordSuccess_def outs ebind.simps Let_def st0_def .
  then consider "rs_engine s' = st0" | st1 where
      "enqueueChildren emptyNodeItem w (n_name ?node) outs r st0 = Inr st1" "releaseWaiting w st1 = Inr (rs_engine s')"
    by (rule releaseStep)
  then show ?thesis
  proof cases
    case 2
    have "adds (childrenOf w (n_name ?node)) st1 (rs_engine s')"
      by (rule adds_mono [OF adds_releaseWaiting [OF 2(2) assms(3)]]) simp
    with adds_enqueueChildren [OF 2(1) assms(2,3)] 0 show ?thesis by (meson adds_trans)
  qed (simp add: 0)
qed

lemma adds_recordTries:
  assumes "recordTries env w index e r tr s = Inr (Continue s')" "w_executionOrder w = Some ''v1''" "named_nodes w"
  shows "adds (childrenOf w (n_name (e_node e))) (rs_engine s) (rs_engine s')"
proof -
  define s1 where "s1 = (let s = (if tr_last tr then s\<lparr>rs_lastNodeExecuted := Some (n_name (e_node e))\<rparr> else s);
      s = (if tr_calls tr > 0 \<and> \<not> isDisabled (e_node e) \<and> re_waits env e r then s\<lparr>rs_waitTill := True\<rparr> else s)
      in s\<lparr>rs_error := tr_error tr\<rparr>)"
  have s1: "rs_engine s1 = rs_engine s" by (simp add: s1_def)
  define t where "t = startedTask index e (rs_waitTill s1) (tr_error tr)"
  from assms(1) have "(case tr_error tr of
           Some err \<Rightarrow>
             if continuesOnFail (e_node e) then recordSuccess env w e r (passedInput e (tr_data tr)) t s1
             else Inr (Break (recordFailure e r err t s1))
         | None \<Rightarrow>
             if tr_data tr = None \<and> \<not> rs_waitTill s1 then Inr (Continue s1)
             else recordSuccess env w e r (tr_data tr) t s1) = Inr (Continue s')"
    unfolding recordTries_def s1_def t_def Let_def by simp
  then have "s' = s1 \<or> (\<exists>d. recordSuccess env w e r d t s1 = Inr (Continue s'))"
    by (cases "tr_error tr"; cases "continuesOnFail (e_node e)"; cases "tr_data tr = None \<and> \<not> rs_waitTill s1")
      (simp_all only: option.case if_True if_False simp_thms sum.inject step.inject step.distinct, blast+)
  then consider "s' = s1" | d where "recordSuccess env w e r d t s1 = Inr (Continue s')" by blast
  then show ?thesis
  proof cases
    case 2
    from adds_recordSuccess [OF this assms(2,3)] show ?thesis by (simp add: s1)
  qed (simp add: s1)
qed

lemma hasInputFrom_v1:
  "hasInputFrom w e is = Inr b \<Longrightarrow> w_executionOrder w = Some ''v1'' \<Longrightarrow> map_of (e_data e) Main \<noteq> None \<Longrightarrow> b"
  by (induction w e "is" rule: hasInputFrom.induct) (auto simp: isLegacyExecutionOrder_def split: if_split_asm)

lemma map_of_pairInput_Main: "map_of (pairInput e) ct = None \<longleftrightarrow> map_of (e_data e) ct = None"
  by (simp add: pairInput_def map_of_eq_None_iff image_image split_def)

lemma adds_runItem:
  assumes "runItem env w index e s = Inr (Continue s')" "w_executionOrder w = Some ''v1''" "named_nodes w"
    and "map_of (e_data e) Main \<noteq> None"
  shows "adds (childrenOf w (n_name (e_node e))) (rs_engine s) (rs_engine s')"
proof -
  define e' where "e' = e\<lparr>e_data := pairInput e\<rparr>"
  have node: "e_node e' = e_node e" and main: "map_of (e_data e') Main \<noteq> None"
    using assms(4) by (simp_all add: e'_def map_of_pairInput_Main)
  define r where "r = currentRunIndex e' (en_runData (rs_engine s))"
  have run: "(if rs_lastTry s = Some (n_name (e_node e'), r)
         then Inl (ApplicationError ''Stopped execution because it seems to be in an endless loop'')
         else if \<not> onFilter env (n_name (e_node e')) then Inr (Continue s)
         else ebind (ensureInputData w e' (rs_engine s)) (\<lambda>(ok, st).
           if \<not> ok then Inr (Continue (s\<lparr>rs_engine := st, rs_lastTry := Some (n_name (e_node e'), r)\<rparr>))
           else recordTries env w index e' r (tryNode env w e' r) s)) = Inr (Continue s')"
    using assms(1) unfolding runItem_def Let_def e'_def r_def .
  have ok: "ok" if "ensureInputData w e' (rs_engine s) = Inr (ok, st)" for ok st
    using that hasInputFrom_v1 [OF _ assms(2) main] by (auto simp: ensureInputData_def)
  from run consider "s' = s" | "recordTries env w index e' r (tryNode env w e' r) s = Inr (Continue s')"
    using ok by (fastforce split: if_split_asm)
  then show ?thesis
    using adds_recordTries [of env w index e' r "tryNode env w e' r" s s', OF _ assms(2,3)] by cases (simp_all add: node)
qed

section \<open>Only the loop of the rounds runs out of fuel\<close>

lemma ebind_eq_Inl: "ebind x f = Inl err \<longleftrightarrow> x = Inl err \<or> (\<exists>z. x = Inr z \<and> f z = Inl err)"
  by (cases x) auto

lemma efold_no_fuel:
  assumes "\<And>x s. f x s \<noteq> Inl OutOfFuel"
  shows "efold f xs s \<noteq> Inl OutOfFuel"
proof (induction xs arbitrary: s)
  case (Cons x xs)
  show ?case
  proof (cases "f x s")
    case (Inl err)
    with assms [of x s] show ?thesis by simp
  next
    case (Inr t)
    with Cons [of t] show ?thesis by simp
  qed
qed simp

lemma getParentNodes_no_fuel [simp]: "getParentNodes w nm flt (- 1) \<noteq> Inl OutOfFuel"
proof -
  obtain r where "getConnectedNodes (w_connectionsByDestinationNode w) nm flt (- 1) = Inr r"
    using getConnectedNodes_ok by blast
  then show ?thesis by (simp add: getParentNodes_def)
qed

lemma getHighestNode_no_fuel [simp]: "getHighestNode w nm idx \<noteq> Inl OutOfFuel"
proof (cases "wf_getNode w nm")
  case None
  then show ?thesis by (simp add: getHighestNode_def)
next
  case (Some n)
  then show ?thesis using getHighestNode_ok [of w nm idx] by auto
qed

lemma entryMain_no_fuel [simp]: "entryMain es k f \<noteq> Inl OutOfFuel"
  by (auto simp: entryMain_def split: option.splits)

lemma findWaitingEntry_no_fuel [simp]: "findWaitingEntry es i \<noteq> Inl OutOfFuel"
  by (induction es i rule: findWaitingEntry.induct) (auto split: option.splits)

lemma incomingConnectionIsEmpty_no_fuel [simp]: "incomingConnectionIsEmpty rd cs r \<noteq> Inl OutOfFuel"
  by (induction rd cs r rule: incomingConnectionIsEmpty.induct) (auto split: option.splits list.splits)

lemma openWaitingEntry_no_fuel [simp]: "openWaitingEntry w c st \<noteq> Inl OutOfFuel"
  by (auto simp: openWaitingEntry_def Let_def ebind_eq_Inl split: option.splits)

lemma addWaitingData_no_fuel [simp]: "addWaitingData c k d src st \<noteq> Inl OutOfFuel"
  by (auto simp: addWaitingData_def ebind_eq_Inl)

lemma keepWaiting_no_fuel [simp]: "keepWaiting w c k d st \<noteq> Inl OutOfFuel"
  by (auto simp: keepWaiting_def Let_def ebind_eq_Inl)

lemma releaseEntry_no_fuel [simp]: "releaseEntry w nm k st \<noteq> Inl OutOfFuel"
  by (auto simp: releaseEntry_def split: option.splits)

lemma firstInput_no_fuel [simp]: "firstInput w nm \<noteq> Inl OutOfFuel"
  by (auto simp: firstInput_def split: option.splits)

lemma addParentNode_no_fuel [simp]: "addParentNode emptyItem w oi parent nsd r ns sn input st \<noteq> Inl OutOfFuel"
  by (auto simp: addParentNode_def Let_def ebind_eq_Inl split: option.splits if_split_asm)

lemma addMissingParents_no_fuel [simp]: "addMissingParents emptyItem w nm oi parent nsd r st \<noteq> Inl OutOfFuel"
proof -
  have "addMissingParent emptyItem w oi parent nsd r ns x u \<noteq> Inl OutOfFuel" for ns x u
    by (auto simp: addMissingParent_def Let_def ebind_eq_Inl split: if_split_asm)
  then show ?thesis
    by (auto simp: addMissingParents_def checkOutputNodes_def ebind_eq_Inl efold_no_fuel split: option.splits)
qed

lemma addNode_no_fuel [simp]:
  "addNodeToBeExecuted emptyItem w c oi parent nsd r nr metadata st \<noteq> Inl OutOfFuel"
  by (auto simp: addNodeToBeExecuted_def Let_def ebind_eq_Inl split: if_split_asm prod.splits)

lemma enqueueChildren_no_fuel [simp]: "enqueueChildren emptyItem w nm nsd r st \<noteq> Inl OutOfFuel"
proof -
  have visit: "visitOutput emptyItem w nm nsd r x p \<noteq> Inl OutOfFuel" for x p
    by (auto simp: visitOutput_def ebind_eq_Inl split: option.splits prod.splits if_split_asm)
  show ?thesis
    by (auto simp: enqueueChildren_def ebind_eq_Inl efold_no_fuel [OF visit] efold_no_fuel split: option.splits if_split_asm prod.splits)
qed

lemma tryWaitingNode_no_fuel [simp]: "tryWaitingNode w ns nm st \<noteq> Inl OutOfFuel"
  by (auto simp: tryWaitingNode_def Let_def ebind_eq_Inl split: option.splits if_split_asm)

lemma releaseFrom_no_fuel [simp]: "releaseFrom w ns names st \<noteq> Inl OutOfFuel"
proof (induction w ns names st rule: releaseFrom.induct)
  case (1 w ns st)
  show ?case by (simp add: releaseFrom.simps)
next
  case (2 w ns nm names st)
  then show ?case
    using tryWaitingNode_no_fuel [of w ns nm st]
    by (subst releaseFrom.simps) (auto split: sum.splits waiting_outcome.splits)
qed

lemma releaseWaiting_no_fuel [simp]: "releaseWaiting w st \<noteq> Inl OutOfFuel"
  by (simp add: releaseWaiting_def)

lemma hasInputFrom_no_fuel [simp]: "hasInputFrom w e is \<noteq> Inl OutOfFuel"
  by (induction w e "is" rule: hasInputFrom.induct) (auto simp: ebind_eq_Inl split: if_split_asm option.splits)

lemma ensureInputData_no_fuel [simp]: "ensureInputData w e st \<noteq> Inl OutOfFuel"
  by (simp add: ensureInputData_def ebind_eq_Inl)

lemma mergeErrors_no_fuel [simp]: "mergeErrors d \<noteq> Inl OutOfFuel"
proof -
  have message: "jsonMessage j \<noteq> Inl OutOfFuel" for j by (cases j) auto
  have item: "mergeErrorItem item \<noteq> Inl OutOfFuel" for item
    by (auto simp: mergeErrorItem_def ebind_eq_Inl message)
  have items: "efold (\<lambda>item acc. ebind (mergeErrorItem item) (\<lambda>x. Inr (acc @ [x]))) xs acc \<noteq> Inl OutOfFuel" for xs acc
    by (rule efold_no_fuel) (auto simp: ebind_eq_Inl item)
  have "mergeOutput out acc \<noteq> Inl OutOfFuel" for out acc
    using items by (auto simp: mergeOutput_def ebind_eq_Inl split: option.splits)
  then show ?thesis by (auto simp: mergeErrors_def efold_no_fuel split: option.splits)
qed

lemma recordSuccess_no_fuel [simp]: "recordSuccess env w e r d t s \<noteq> Inl OutOfFuel"
  by (auto simp: recordSuccess_def Let_def ebind_eq_Inl split: if_split_asm)

lemma recordTries_no_fuel [simp]: "recordTries env w index e r tr s \<noteq> Inl OutOfFuel"
  unfolding recordTries_def Let_def by (simp split: option.splits)

lemma runItem_no_fuel: "runItem env w index e s \<noteq> Inl OutOfFuel"
  by (auto simp: runItem_def Let_def ebind_eq_Inl split: if_split_asm)

section \<open>The loop ends\<close>

lemma mult_tokens:
  assumes "A \<subseteq># B + X" "\<forall>x \<in> set_mset X. (x, nm) \<in> r" "trans r"
  shows "(A, B + {#nm#}) \<in> mult r"
proof -
  have le: "A \<subseteq># C \<Longrightarrow> (C, D) \<in> mult r \<Longrightarrow> (A, D) \<in> mult r" for C D :: "'a multiset"
    by (metis assms(3) subset_implies_mult subset_mset.le_imp_less_or_eq trans_def trans_mult)
  have "(B + X, B + {#nm#}) \<in> mult r"
    by (rule one_step_implies_mult) (use assms(2) in auto)
  with assms(1) show ?thesis by (rule le)
qed

lemma wf_children:
  assumes "acyclic (main_rel conns)"
  shows "wf (((main_rel conns)\<inverse>)\<^sup>+)"
proof -
  let ?all = "\<Union>a \<in> fst ` set conns. (\<lambda>c. (a, c_node c)) ` set (mainConnections conns a)"
  have "main_rel conns \<subseteq> ?all"
  proof
    fix x
    assume x: "x \<in> main_rel conns"
    obtain a b where ab: "x = (a, b)" by fastforce
    from x obtain c where c: "c \<in> set (mainConnections conns a)" "c_node c = b" by (auto simp: main_rel_def ab)
    then have "map_of conns a \<noteq> None" by (cases "map_of conns a") (simp_all add: mainConnections_def)
    then have "a \<in> fst ` set conns" by (simp add: map_of_eq_None_iff)
    with c show "x \<in> ?all" by (auto simp: ab)
  qed
  then have "finite (main_rel conns)" by (rule finite_subset) simp
  with assms show ?thesis by (simp add: wf_trancl finite_acyclic_wf_converse)
qed

lemma runLoop_ends:
  assumes "w_executionOrder w = Some ''v1''" "acyclic (main_rel (w_connectionsBySourceNode w))" "named_nodes w"
  shows "has_main (rs_engine s) \<Longrightarrow> \<exists>fuel. runLoop fuel env w s \<noteq> Inl OutOfFuel"
proof (induction s rule: wf_induct [OF wf_inv_image [OF wf_mult [OF wf_children [OF assms(2)]], of "\<lambda>s. tokens (rs_engine s)"]])
  case (1 s)
  note IH = 1(1) and main = 1(2)
  let ?r = "((main_rel (w_connectionsBySourceNode w))\<inverse>)\<^sup>+"
  show ?case
  proof (cases "es_stack (rs_engine s)")
    case Nil
    then have "runLoop 0 env w s \<noteq> Inl OutOfFuel" by (subst runLoop.simps) simp
    then show ?thesis by blast
  next
    case (Cons e rest)
    show ?thesis
    proof (cases "\<not> re_cancelled env (rs_executionIndex s) \<and> (\<exists>s'. runItem env w (rs_executionIndex s) e (takeItem s) = Inr (Continue s'))")
      case False
      then have "runLoop (Suc 0) env w s \<noteq> Inl OutOfFuel"
        using runItem_no_fuel [of env w "rs_executionIndex s" e "takeItem s"]
        by (subst runLoop.simps) (auto simp: Cons split: sum.splits step.splits)
      then show ?thesis by blast
    next
      case True
      then obtain s' where s': "\<not> re_cancelled env (rs_executionIndex s)"
        "runItem env w (rs_executionIndex s) e (takeItem s) = Inr (Continue s')" by blast
      let ?nm = "n_name (e_node e)" and ?t = "rs_engine (takeItem s)"
      have t: "tokens (rs_engine s) = tokens ?t + {#?nm#}" "has_main ?t" "map_of (e_data e) Main \<noteq> None"
        using main by (auto simp: takeItem_def tokens_def has_main_def Cons)
      from adds_runItem [OF s'(2) assms(1,3) t(3)] obtain X where
        X: "set_mset X \<subseteq> childrenOf w ?nm" "tokens (rs_engine s') \<subseteq># tokens ?t + X" and m: "has_main (rs_engine s')"
        using t(2) unfolding adds_def by blast
      have "(tokens (rs_engine s'), tokens ?t + {#?nm#}) \<in> mult ?r"
        by (rule mult_tokens [OF X(2)]) (use X(1) in auto)
      with IH m obtain fuel where "runLoop fuel env w s' \<noteq> Inl OutOfFuel"
        unfolding t(1) [symmetric] in_inv_image by blast
      then have "runLoop (Suc fuel) env w s \<noteq> Inl OutOfFuel"
        using s' by (subst runLoop.simps) (simp add: Cons)
      then show ?thesis by blast
    qed
  qed
qed

lemma runLoop_more:
  "runLoop fuel env w s \<noteq> Inl OutOfFuel \<Longrightarrow> fuel \<le> fuel' \<Longrightarrow> runLoop fuel' env w s = runLoop fuel env w s"
proof (induction fuel arbitrary: fuel' s)
  case 0
  then show ?case
    by (subst (asm) runLoop.simps, subst (1 2) runLoop.simps) (auto split: list.splits if_split_asm)
next
  case (Suc n)
  from Suc.prems(2) obtain m where m: "fuel' = Suc m" "n \<le> m" by (cases fuel') auto
  have "runLoop m env w s' = runLoop n env w s'"
    if "es_stack (rs_engine s) = e # rest" "\<not> re_cancelled env (rs_executionIndex s)"
      "runItem env w (rs_executionIndex s) e (takeItem s) = Inr (Continue s')" for e rest s'
  proof (rule Suc.IH [OF _ m(2)])
    show "runLoop n env w s' \<noteq> Inl OutOfFuel"
      using Suc.prems(1) that by (subst (asm) runLoop.simps) simp
  qed
  then show ?case
    unfolding m(1) by (subst (1 2) runLoop.simps) (auto split: list.splits sum.splits step.splits)
qed

section \<open>Properties\<close>



end
