(* ===== verification/PartialRun.thy ===== *)
theory PartialRun
  imports EngineRun_Properties
begin

text \<open>
  Runs from the point of view of \<open>class WorkflowExecute\<close>
  (\<open>packages/core/src/execution-engine/workflow-execute.ts\<close>): \<open>runPartialWorkflow2\<close>, which puts the parts of
  \<open>partial-execution-utils\<close> together and hands the result to the engine, with \<open>rewire-graph.ts\<close> for tools;
  \<open>run\<close>, which starts a workflow from a node; and \<open>checkReadyForExecution\<close>.
\<close>

section \<open>Tools\<close>

text \<open>
  An entry of \<open>description.outputs\<close>: the name of a connection type, or an object with a \<open>type\<close>. The
  outputs are \<open>None\<close> when they are an expression. Only the first plain string counts.
\<close>

datatype output_description = PlainOutput string | OutputObject "string option"

fun hasToolOutput :: "output_description list \<Rightarrow> bool" where
  "hasToolOutput [] \<longleftrightarrow> False"
| "hasToolOutput (PlainOutput t # outs) \<longleftrightarrow> t = ctype_string AiTool"
| "hasToolOutput (OutputObject t # outs) \<longleftrightarrow> t = Some (ctype_string AiTool) \<or> hasToolOutput outs"

definition isTool :: "string \<Rightarrow> output_description list option \<Rightarrow> (string \<times> string) list \<Rightarrow> bool" where
  "isTool descriptionName outs parameters =
     (if containsText ''vectorStore'' descriptionName then map_of parameters ''mode'' = Some ''retrieve-as-tool''
      else case outs of None \<Rightarrow> False | Some os \<Rightarrow> hasToolOutput os)"

definition toolExecutorName :: string where "toolExecutorName = ''PartialExecutionToolExecutor''"

text \<open>The assignment \<open>tool.rewireOutputLogTo = \<dots>\<close> changes the one object the graph refers to.\<close>

definition replaceNode :: "inode \<Rightarrow> inode \<Rightarrow> inode \<Rightarrow> inode" where
  "replaceNode old new n = (if n = old then new else n)"

definition assignNode :: "inode \<Rightarrow> inode \<Rightarrow> dgraph \<Rightarrow> dgraph" where
  "assignNode old new g =
     g\<lparr>d_nodes := map (map_prod id (replaceNode old new)) (d_nodes g),
       d_connections := map (map_prod id (\<lambda>c. c\<lparr>g_from := replaceNode old new (g_from c),
         g_to := replaceNode old new (g_to c)\<rparr>)) (d_connections g)\<rparr>"

text \<open>The virtual agent. \<open>query\<close> is the query in JSON, \<open>r\<close> the reference of the new object.\<close>

definition toolExecutorNode :: "nat \<Rightarrow> string \<Rightarrow> string \<Rightarrow> inode \<Rightarrow> inode \<Rightarrow> inode" where
  "toolExecutorNode r query toolName tool root =
     (mkNode r toolExecutorName)\<lparr>n_id := n_id root, n_type := ''@n8n/n8n-nodes-langchain.toolExecutor'', n_typeVersion := 0,
        n_disabled := Some False,
        n_parameters := [(''query'', query), (''toolName'', toolName), (''node'', n_name tool)]\<rparr>"

text \<open>A graph together with the tool as it is afterwards.\<close>

definition rewireGraph :: "nat \<Rightarrow> string \<Rightarrow> string \<Rightarrow> inode \<Rightarrow> dgraph \<Rightarrow> dgraph result" where
  "rewireGraph r query toolName tool g =
     ebind (clone g) (\<lambda>modified.
     ebind (getChildren modified tool) (\<lambda>children.
       if children = [] then Inr g
       else let root = last children in
         ebind (getDirectParentConnections modified root) (\<lambda>incoming.
           let executor = toolExecutorNode r query toolName tool root;
               tool' = tool\<lparr>n_rewireOutputLogTo := Some AiTool\<rparr>;
               modified = assignNode tool tool' (addNode executor modified)
           in ebind (addConnection tool' executor (Some AiTool) None None modified) (\<lambda>modified.
              ebind (efold (\<lambda>c. addConnection (replaceNode tool tool' (g_from c)) executor (Some (g_type c)) None None)
                       (filter (\<lambda>c. g_type c = Main) incoming) modified) (\<lambda>modified.
                Inr (removeNode (replaceNode tool tool' root) modified))))))"

text \<open>\<open>graph.toWorkflow({ ...workflow })\<close>; the defaults of the parameters are left out.\<close>

definition toWorkflow :: "'i workflow \<Rightarrow> dgraph \<Rightarrow> 'i workflow result" where
  "toWorkflow w g = ebind (toIConnections g) (\<lambda>conns.
     Inr (setConnections conns (w\<lparr>w_nodes := map (\<lambda>n. (n_name n, n)) (getNodes g)\<rparr>)))"

section \<open>The partial execution\<close>

datatype destination_mode = Inclusive | Exclusive

record destination_node =
  ds_nodeName :: string
  ds_mode :: destination_mode

text \<open>Without a trigger, the first parent that has run data is the node to start from.\<close>

definition startTrigger :: "'i workflow \<Rightarrow> string \<Rightarrow> 'i run_data \<Rightarrow> inode result" where
  "startTrigger w destination rd =
     ebind (findTriggerForPartialExecution w destination rd) (\<lambda>trigger. case trigger of
       Some t \<Rightarrow> Inr t
     | None \<Rightarrow> ebind (getParentNodes w destination (OfType Main) (- 1)) (\<lambda>parents.
         case find (\<lambda>p. map_of rd p \<noteq> None) parents of
           None \<Rightarrow> Inl (UserError ''Connect a trigger to run this node'')
         | Some p \<Rightarrow> (case wf_getNode w p of
             None \<Rightarrow> Inl (UserError ''Connect a trigger to run this node'')
           | Some t \<Rightarrow> Inr t)))"

text \<open>
  Step 2 to 8 for the graph, the destination and the trigger: the state the engine starts with.
  \<open>cmp\<close> is \<open>localeCompare\<close>.
\<close>

definition startState :: "node_item run_data \<Rightarrow> node_item execution_stack \<Rightarrow> run_state" where
  "startState rd st =
     \<lparr>rs_engine = \<lparr>es_stack = es_stack st, es_waiting = es_waiting st, es_waitingSource = es_waitingSource st,
        en_runData = rd\<rparr>, rs_lastTry = None, rs_executionIndex = getNextExecutionIndex rd,
      rs_lastNodeExecuted = None, rs_waitTill = False, rs_error = None\<rparr>"

definition preparePartialRun ::
  "(string \<Rightarrow> string \<Rightarrow> int) \<Rightarrow> dgraph \<Rightarrow> inode \<Rightarrow> inode \<Rightarrow> node_item run_data \<Rightarrow> node_item pin_data \<Rightarrow> string list \<Rightarrow>
    (string list \<times> run_state) result" where
  "preparePartialRun cmp g destination trigger rd pin dirtyNodeNames =
     ebind (filterDisabledNodes g) (\<lambda>filtered.
     ebind (findSubgraph filtered destination trigger) (\<lambda>graph.
     ebind (cleanRunData rd graph (getNodesByNames graph dirtyNodeNames)) (\<lambda>rd.
     ebind (findStartNodes graph trigger destination rd pin) (\<lambda>startNodes.
     ebind (handleCycles graph startNodes trigger) (\<lambda>startNodes.
     ebind (cleanRunData rd graph startNodes) (\<lambda>rd.
     ebind (recreateNodeExecutionStack cmp emptyNodeItem graph startNodes rd pin) (\<lambda>st.
       Inr (map n_name (getNodes graph), startState rd st))))))))"

text \<open>
  The choice of the graph: when the destination is a tool, the agent above it is replaced by a node
  that calls the tool once. \<open>describe\<close> gives the name and the outputs of the description of a node's type.
\<close>

definition partialGraph ::
  "(inode \<Rightarrow> string \<times> output_description list option) \<Rightarrow> nat \<Rightarrow> string \<Rightarrow> string \<Rightarrow> node_item workflow \<Rightarrow> destination_node \<Rightarrow>
    (node_item workflow \<times> dgraph \<times> inode \<times> destination_node) result" where
  "partialGraph describe r query toolName w dest =
     (case wf_getNode w (ds_nodeName dest) of None \<Rightarrow> Inl AssertionError
      | Some destination \<Rightarrow>
          ebind (fromWorkflow w) (\<lambda>g.
            if w_nodeTypes w (n_type destination) (n_typeVersion destination) = None then Inl TypeError
            else if isTool (fst (describe destination)) (snd (describe destination)) (n_parameters destination) then
              ebind (rewireGraph r query toolName destination g) (\<lambda>g.
              ebind (toWorkflow w g) (\<lambda>w. case wf_getNode w toolExecutorName of
                None \<Rightarrow> Inl (OperationalError ''ToolExecutor can not be found'')
              | Some executor \<Rightarrow> Inr (w, g, executor, \<lparr>ds_nodeName = n_name executor, ds_mode = Inclusive\<rparr>)))
            else Inr (w, g, destination, dest)))"

definition runPartialWorkflow2 ::
  "(string \<Rightarrow> string \<Rightarrow> int) \<Rightarrow> (inode \<Rightarrow> string \<times> output_description list option) \<Rightarrow> nat \<Rightarrow> string \<Rightarrow> string \<Rightarrow> nat \<Rightarrow> run_env \<Rightarrow>
    exec_error \<Rightarrow> node_item workflow \<Rightarrow> node_item run_data \<Rightarrow> string list \<Rightarrow> destination_node \<Rightarrow>
    (string list \<times> execution_status \<times> run_state) result" where
  "runPartialWorkflow2 cmp describe r query toolName fuel env cancellation w rd dirtyNodeNames dest =
     ebind (partialGraph describe r query toolName w dest) (\<lambda>(w, g, destination, dest).
     ebind (startTrigger w (ds_nodeName dest) rd) (\<lambda>trigger.
     ebind (preparePartialRun cmp g destination trigger rd (re_pinData env) dirtyNodeNames) (\<lambda>(names, s).
     ebind (processRunExecutionData fuel (env\<lparr>re_runNodeFilter := Some names, re_destination := Some (ds_nodeName dest)\<rparr>) w cancellation s)
       (\<lambda>(status, s). Inr (names, status, s)))))"

section \<open>What a run records\<close>

definition recordedNames :: "'i run_data \<Rightarrow> string set" where
  "recordedNames rd = fst ` set rd"

lemma recordedNames_recordRun: "recordedNames (recordRun nm r t rd) \<subseteq> insert nm (recordedNames rd)"
  by (auto simp: recordedNames_def recordRun_def Let_def dom_update)

lemma recordSuccess_names:
  assumes "recordSuccess env w e r d t s = Inr st"
  shows "recordedNames (en_runData (rs_engine (stepState st)))
    \<subseteq> insert (n_name (e_node e)) (recordedNames (en_runData (rs_engine s)))"
proof -
  from assms have "\<exists>t'. en_runData (rs_engine (stepState st)) = recordRun (n_name (e_node e)) r t' (en_runData (rs_engine s))"
    unfolding recordSuccess_def
    by (auto simp: Let_def putBack_def split: if_split_asm dest!: runData_enqueueChildren runData_releaseWaiting)
  then show ?thesis using recordedNames_recordRun by metis
qed

lemma recordFailure_names:
  "recordedNames (en_runData (rs_engine (recordFailure e r err t s)))
    \<subseteq> insert (n_name (e_node e)) (recordedNames (en_runData (rs_engine s)))"
  using recordedNames_recordRun [of "n_name (e_node e)" r _ "en_runData (rs_engine s)"]
  by (auto simp: recordFailure_def putBack_def Let_def)

lemma recordTries_names:
  assumes "recordTries env w index e r tr s = Inr st"
  shows "recordedNames (en_runData (rs_engine (stepState st)))
    \<subseteq> insert (n_name (e_node e)) (recordedNames (en_runData (rs_engine s)))"
proof -
  define s1 where "s1 = (let s = (if tr_last tr then s\<lparr>rs_lastNodeExecuted := Some (n_name (e_node e))\<rparr> else s);
      s = (if tr_calls tr > 0 \<and> \<not> isDisabled (e_node e) \<and> re_waits env e r then s\<lparr>rs_waitTill := True\<rparr> else s)
      in s\<lparr>rs_error := tr_error tr\<rparr>)"
  have s1: "rs_engine s1 = rs_engine s" by (simp add: s1_def)
  define t where "t = startedTask index e (rs_waitTill s1) (tr_error tr)"
  from assms have "(case tr_error tr of
           Some err \<Rightarrow>
             if continuesOnFail (e_node e) then recordSuccess env w e r (passedInput e (tr_data tr)) t s1
             else Inr (Break (recordFailure e r err t s1))
         | None \<Rightarrow>
             if tr_data tr = None \<and> \<not> rs_waitTill s1 then Inr (Continue s1)
             else recordSuccess env w e r (tr_data tr) t s1) = Inr st"
    unfolding recordTries_def s1_def t_def Let_def by simp
  then consider "st = Continue s1" | err where "st = Break (recordFailure e r err t s1)"
    | d where "recordSuccess env w e r d t s1 = Inr st"
    by (cases "tr_error tr"; cases "continuesOnFail (e_node e)"; cases "tr_data tr = None \<and> \<not> rs_waitTill s1")
      (simp_all only: option.case if_True if_False simp_thms sum.inject, blast+)
  then show ?thesis
  proof cases
    case 1
    then show ?thesis by (auto simp: s1)
  next
    case 2
    then show ?thesis using recordFailure_names [of e r err t s1] by (simp add: s1)
  next
    case 3
    from recordSuccess_names [OF this] show ?thesis by (simp add: s1)
  qed
qed

lemma runItem_names:
  assumes "runItem env w index e s = Inr st" "re_runNodeFilter env = Some names"
  shows "recordedNames (en_runData (rs_engine (stepState st))) \<subseteq> recordedNames (en_runData (rs_engine s)) \<union> set names"
proof (cases "onFilter env (n_name (e_node e))")
  case True
  then have "n_name (e_node e) \<in> set names" using assms(2) by (simp add: onFilter_def)
  with assms(1) show ?thesis unfolding runItem_def
    by (auto simp: Let_def ensureInputData_def split: if_split_asm dest!: recordTries_names)
next
  case False
  with assms(1) show ?thesis unfolding runItem_def by (auto simp: Let_def split: if_split_asm)
qed

definition confined :: "string list \<Rightarrow> run_state \<Rightarrow> bool" where
  "confined names s \<longleftrightarrow> recordedNames (en_runData (rs_engine s)) \<subseteq> set names
     \<and> indices_inv (rs_executionIndex s) (en_runData (rs_engine s))"

lemma confined_runItem:
  assumes "runItem env w (rs_executionIndex s) e (takeItem s) = Inr st" "re_runNodeFilter env = Some names" "confined names s"
  shows "confined names (stepState st)"
proof -
  have "recordedNames (en_runData (rs_engine (stepState st))) \<subseteq> set names"
    using runItem_names [OF assms(1,2)] assms(3) by (auto simp: confined_def takeItem_def)
  moreover from runItem_records [OF assms(1)] have rec:
    "records (rs_executionIndex s) (en_runData (rs_engine s)) (en_runData (rs_engine (stepState st)))"
    "rs_executionIndex (stepState st) = Suc (rs_executionIndex s)"
    by (simp_all add: takeItem_def)
  from rec(1) have "mset (executionIndices (en_runData (rs_engine (stepState st))))
      \<subseteq># add_mset (rs_executionIndex s) (mset (executionIndices (en_runData (rs_engine s))))"
    by (auto simp: records_def intro: executionIndices_recordRun)
  with assms(3) have "indices_inv (rs_executionIndex (stepState st)) (en_runData (rs_engine (stepState st)))"
    unfolding rec(2) by (auto simp: confined_def intro: indices_inv_Suc)
  ultimately show ?thesis by (simp add: confined_def)
qed

lemma confined_runLoop:
  "runLoop fuel env w s = Inr (r, s') \<Longrightarrow> re_runNodeFilter env = Some names \<Longrightarrow> confined names s \<Longrightarrow> confined names s'"
proof (induction fuel arbitrary: s)
  case 0
  then show ?case by (subst (asm) runLoop.simps) (auto split: list.splits if_split_asm)
next
  case (Suc n)
  from Suc.prems(1) consider (ends) "s' = s" | (step) e st where
      "runItem env w (rs_executionIndex s) e (takeItem s) = Inr st"
      "st = Break s' \<or> (\<exists>s1. st = Continue s1 \<and> runLoop n env w s1 = Inr (r, s'))"
    by (subst (asm) runLoop.simps) (auto split: list.splits if_split_asm sum.splits step.splits)
  then show ?case
  proof cases
    case ends
    with Suc.prems(3) show ?thesis by simp
  next
    case step
    from confined_runItem [OF step(1) Suc.prems(2,3)] step(2) Suc.IH [OF _ Suc.prems(2)] show ?thesis by auto
  qed
qed

section \<open>The graph and the run data a partial execution keeps\<close>

definition keyed :: "dgraph \<Rightarrow> bool" where
  "keyed g \<longleftrightarrow> (\<forall>(k, n) \<in> set (d_nodes g). k = n_name n)"

lemma keyed_new [simp]: "keyed newDirectedGraph"
  by (simp add: keyed_def newDirectedGraph_def)

lemma keyed_addNode [simp]: "keyed g \<Longrightarrow> keyed (addNode n g)"
  by (auto simp: keyed_def addNode_def dest!: set_AList_update_subset [THEN subsetD])

lemma keyed_addNodes [simp]: "keyed g \<Longrightarrow> keyed (addNodes ns g)"
  by (induction ns arbitrary: g) (simp_all add: addNodes_def)

lemma keyed_setConnection [simp]: "keyed (setConnection c g) = keyed g"
  by (simp add: keyed_def setConnection_def)

lemma keyed_keepConnection: "keepConnection c g = Inr g' \<Longrightarrow> keyed g \<Longrightarrow> keyed g'"
  using keyed_addNodes [of g "[g_from c, g_to c]"]
  by (auto simp: keepConnection_def addGraphConnection_def addConnection_def keyed_setConnection split: if_split_asm)

lemma keyed_keepBranch: "keepBranch cs g = Inr g' \<Longrightarrow> keyed g \<Longrightarrow> keyed g'"
  unfolding keepBranch_def by (erule efold_invariant) (auto intro: keyed_keepConnection)

lemma keyed_findSubgraphRecursive:
  "findSubgraphRecursive g d t f cur branch h = Inr h' \<Longrightarrow> keyed h \<Longrightarrow> keyed h'"
proof (induction f arbitrary: cur branch h h')
  case (Suc f)
  show ?case
  proof (cases "cur = t \<or> (\<exists>h0. keepBranch branch h0 = Inr h' \<and> keyed h0) \<or> h' = h")
    case True
    with Suc.prems show ?thesis by (auto intro: keyed_keepBranch)
  next
    case False
    with Suc.prems obtain parents where
      "efold (\<lambda>p newGraph. if g_type p \<noteq> Main then Inr newGraph
         else findSubgraphRecursive g d t f (g_from p) (branch @ [p]) newGraph) parents h = Inr h'"
      by (auto split: if_split_asm)
    then show ?thesis
      by (rule efold_invariant) (use Suc in \<open>auto split: if_split_asm\<close>)
  qed
qed simp

lemma keyed_findSubgraph:
  assumes "findSubgraph g d t = Inr h"
  shows "keyed h"
proof -
  from assms obtain h1 where h1: "findSubgraphRecursive g d t (Suc (Suc (length (d_nodes g)))) d [] newDirectedGraph = Inr h1"
    "efold (addUtilityConnections g) (getNodes h1) h1 = Inr h"
    by (auto simp: findSubgraph_def simp del: findSubgraphRecursive.simps)
  have utility: "keyed v" if "keyed u" "addUtilityConnections g x u = Inr v" for x u v
  proof -
    from that(2) obtain cs where "efold (\<lambda>c s. if g_type c = Main then Inr s else keepConnection c s) cs u = Inr v"
      by (auto simp: addUtilityConnections_def)
    then show ?thesis by (rule efold_invariant) (use that(1) keyed_keepConnection in \<open>auto split: if_split_asm\<close>)
  qed
  from h1(2) show ?thesis
    by (rule efold_invariant) (use utility keyed_findSubgraphRecursive [OF h1(1)] in auto)
qed

lemma hasNode_keyed: "keyed g \<Longrightarrow> hasNode g nm \<Longrightarrow> nm \<in> n_name ` set (getNodes g)"
  by (force simp: keyed_def hasNode_def getNodes_def dest: map_of_SomeD)

lemma cleanRunData_part:
  assumes "cleanRunData rd g ns = Inr rd'"
  shows "mset rd' \<subseteq># mset rd \<and> (\<forall>x \<in> set rd'. hasNode g (fst x))"
proof -
  have del: "mset (AList.delete k al) \<subseteq># mset al" for k and al :: "'a run_data"
    by (simp add: AList.delete_eq)
  have deletes: "mset (fold (\<lambda>c rd. if g_type c = Main then rd else AList.delete (n_name (g_from c)) rd) cs rd) \<subseteq># mset rd"
    for cs and rd :: "'a run_data"
    by (induction cs arbitrary: rd) (auto intro: subset_mset.order_trans del)
  then have clean: "mset v \<subseteq># mset u" if "cleanNode g n u = Inr v" for n and u v :: "'a run_data"
    using that by (auto simp: cleanNode_def intro: subset_mset.order_trans [OF deletes del])
  from assms obtain rd1 where rd1: "efold (\<lambda>n rd. ebind (getChildren g n) (\<lambda>children.
      efold (cleanNode g) (n # children) (AList.delete (n_name n) rd))) ns rd = Inr rd1"
    "rd' = filter (\<lambda>(nm, _). hasNode g nm) rd1"
    by (auto simp: cleanRunData_def)
  have "mset rd1 \<subseteq># mset rd"
  proof (rule efold_invariant [OF rd1(1)])
    fix n u v
    assume u: "mset u \<subseteq># mset rd" and v: "ebind (getChildren g n) (\<lambda>children.
      efold (cleanNode g) (n # children) (AList.delete (n_name n) u)) = Inr v"
    then obtain children where "efold (cleanNode g) (n # children) (AList.delete (n_name n) u) = Inr v"
      by (auto simp del: efold.simps)
    then show "mset v \<subseteq># mset rd"
    proof (rule efold_invariant)
      show "mset (AList.delete (n_name n) u) \<subseteq># mset rd" using del u by (rule subset_mset.order_trans)
      show "mset y \<subseteq># mset rd" if "mset x \<subseteq># mset rd" "cleanNode g m x = Inr y" for m x y
        using clean [OF that(2)] that(1) by (rule subset_mset.order_trans)
    qed
  qed simp
  then show ?thesis using rd1(2) by (auto simp: mset_filter intro: subset_mset.order_trans multiset_filter_subset)
qed

lemma executionIndices_part:
  assumes "mset rd' \<subseteq># mset rd"
  shows "mset (executionIndices rd') \<subseteq># mset (executionIndices rd)"
proof -
  have "mset (executionIndices rd) = (\<Sum>x \<in># mset rd. mset (List.map_filter t_executionIndex (snd x)))" for rd :: "'a run_data"
    by (induction rd) (auto simp: executionIndices_def)
  moreover from assms obtain R where "mset rd = mset rd' + R" by (metis subset_mset.le_iff_add)
  ultimately show ?thesis by simp
qed

lemma distinct_part:
  assumes "mset xs \<subseteq># mset ys" "distinct ys"
  shows "distinct xs"
proof -
  from assms(1) obtain zs where "mset ys = mset (xs @ zs)"
    by (metis ex_mset mset_append subset_mset.le_iff_add)
  from mset_eq_imp_distinct_iff [OF this] assms(2) show ?thesis by simp
qed

lemma confined_startState:
  assumes "cleanRunData rd g ns = Inr rd'" "keyed g" "distinct (executionIndices rd)"
  shows "confined (map n_name (getNodes g)) (startState rd' st)"
proof -
  note part = cleanRunData_part [OF assms(1)]
  have "recordedNames rd' \<subseteq> set (map n_name (getNodes g))"
    using part hasNode_keyed [OF assms(2)] by (auto simp: recordedNames_def)
  moreover have "distinct (executionIndices rd')"
    using executionIndices_part part assms(3) by (blast intro: distinct_part)
  moreover have "i < getNextExecutionIndex rd'" if i: "i \<in> set (executionIndices rd')" for i
  proof -
    from i obtain nm runs td where "(nm, runs) \<in> set rd'" "td \<in> set runs" "t_executionIndex td = Some i"
      by (auto simp: executionIndices_def List.map_filter_def)
    then show ?thesis by (rule getNextExecutionIndex_fresh)
  qed
  ultimately show ?thesis by (simp add: confined_def indices_inv_def startState_def)
qed

lemma preparePartialRun_confined:
  assumes "preparePartialRun cmp g destination trigger rd pin dirty = Inr (names, s)" "distinct (executionIndices rd)"
  shows "confined names s \<and> rs_waitTill s = False"
proof -
  from assms(1) obtain filtered graph rd1 ns ns' rd2 st where
    g: "findSubgraph filtered destination trigger = Inr graph" and
    c: "cleanRunData rd graph (getNodesByNames graph dirty) = Inr rd1" "cleanRunData rd1 graph ns' = Inr rd2" and
    s: "names = map n_name (getNodes graph)" "s = startState rd2 st"
    by (auto simp: preparePartialRun_def)
  have "distinct (executionIndices rd1)"
    using executionIndices_part cleanRunData_part [OF c(1)] assms(2) by (blast intro: distinct_part)
  with confined_startState [OF c(2) keyed_findSubgraph [OF g]] show ?thesis
    by (simp add: s startState_def)
qed

lemma processRun_confined:
  assumes "processRunExecutionData fuel env w cancellation s = Inr (status, s')" "re_runNodeFilter env = Some names"
    and "confined names s" "rs_waitTill s = False"
  shows "confined names s'"
proof -
  from assms(1,4) obtain e where "runLoop fuel env w (s\<lparr>rs_lastTry := None, rs_error := None\<rparr>) = Inr (e, s')"
    by (auto simp: processRunExecutionData_def handleWaitingState_def)
  then show ?thesis
    by (rule confined_runLoop) (use assms(2,3) in \<open>simp_all add: confined_def\<close>)
qed

section \<open>The preparation succeeds\<close>

lemma backPath_exists:
  assumes "(trigger, n) \<in> (main_edges g)\<^sup>*"
  shows "\<exists>p. backPath g trigger n p \<and> distinct (map g_to p) \<and> trigger \<notin> g_to ` set p"
proof -
  text \<open>A shortest path has no node twice.\<close>
  from assms obtain p where "backPath g trigger n p"
  proof (induction arbitrary: thesis rule: rtrancl_induct)
    case base
    show ?case by (rule base [of "[]"]) simp
  next
    case (step y z)
    from step.hyps(2) obtain c where c: "c \<in> set (connectionValues g)" "g_type c = Main" "g_from c = y" "g_to c = z"
      by (auto simp: main_edges_def)
    from step.IH obtain p where "backPath g trigger y p" by blast
    with c show ?case
      by (cases "z = trigger") (auto intro: step.prems [of "[]"] step.prems [of "c # p"])
  qed
  then obtain p where p: "backPath g trigger n p" "\<And>q. backPath g trigger n q \<Longrightarrow> length p \<le> length q"
    using exists_least_iff [of "\<lambda>k. \<exists>p. backPath g trigger n p \<and> length p = k"] by (metis linorder_not_less)
  have from_on: "backPath g trigger (g_to c) (c # q2)" if "backPath g trigger m (q1 @ c # q2)" for m q1 c q2
    using that by (induction q1 arbitrary: m) auto
  have graft: "backPath g trigger m (q1 @ c # q2')" if "backPath g trigger m (q1 @ c # q2)" "backPath g trigger (g_to c) (c # q2')"
    for m q1 c q2 q2'
    using that by (induction q1 arbitrary: m) auto
  have replace: "backPath g trigger m (q1 @ d # q3)" if "backPath g trigger m (q1 @ c # q2 @ d # q3)" "g_to c = g_to d"
    for m q1 c q2 d q3
    using that from_on [of "g_from c" q2 d q3] by (induction q1 arbitrary: m) auto
  have "distinct (map g_to p)"
  proof (rule ccontr)
    assume "\<not> distinct (map g_to p)"
    then obtain xs y ys zs where "map g_to p = xs @ [y] @ ys @ [y] @ zs" using not_distinct_decomp by blast
    then obtain q1 c q2 d q3 where "p = q1 @ c # q2 @ d # q3" "g_to c = g_to d"
      by (auto simp: map_eq_append_conv map_eq_Cons_conv append_eq_map_conv Cons_eq_map_conv)
    with p replace [of n q1 c q2 d q3] show False by fastforce
  qed
  moreover have "trigger \<notin> g_to ` set q" if "backPath g trigger m q" for m q
    using that by (induction q arbitrary: m) auto
  ultimately show ?thesis using p(1) by blast
qed

lemma removeNodeReconnect_result:
  assumes "removeNodeReconnect skip n g = Inr (g', new)"
  shows "g' = dropNode n (fold setConnection new (dropConnectionsOf n g)) \<and> (\<exists>ins outs. new = bridgeConnections skip ins outs)"
  using assms unfolding removeNodeReconnect_def Let_def by auto

lemma removeDisabled_connections:
  assumes "removeDisabled n g = Inr g'" "c \<in> set (connectionValues g')"
  shows "g_type c = Main \<or> c \<in> set (connectionValues g)"
proof (cases "isDisabled n")
  case True
  with assms(1) obtain new where new: "removeNodeReconnect (\<lambda>c. g_type c \<noteq> Main) n g = Inr (g', new)"
    by (auto simp: removeDisabled_def)
  then obtain ins outs where g': "g' = dropNode n (fold setConnection new (dropConnectionsOf n g))"
    "new = bridgeConnections (\<lambda>c. g_type c \<noteq> Main) ins outs"
    using removeNodeReconnect_result by blast
  from assms(2) have "c \<in> set new \<union> set (connectionValues (dropConnectionsOf n g))"
    using connectionValues_fold_setConnection [of new "dropConnectionsOf n g"] by (auto simp: g'(1))
  then show ?thesis by (auto simp: g'(2) set_bridgeConnections)
next
  case False
  with assms show ?thesis by (simp add: removeDisabled_def)
qed

lemma filterDisabledNodes_connections:
  assumes "dg_inv g" "filterDisabledNodes g = Inr g'"
  shows "\<forall>c \<in> set (connectionValues g'). g_type c = Main \<or> c \<in> set (connectionValues g)"
proof -
  from assms have "efold removeDisabled (getNodes g) g = Inr g'"
    by (simp add: filterDisabledNodes_def clone_id)
  then show ?thesis
    by (rule efold_invariant) (auto dest: removeDisabled_connections)
qed

lemma run_data_typed_part:
  assumes "run_data_typed g rd" "set rd' \<subseteq> set rd"
    and "\<forall>c \<in> set (connectionValues g'). g_type c = Main \<or> c \<in> set (connectionValues g)"
  shows "run_data_typed g' rd'"
  unfolding run_data_typed_def
proof (clarify, intro conjI ballI impI)
  fix nm runs td d
  assume x: "(nm, runs) \<in> set rd'" "td \<in> set runs" "t_data td = Some d"
  have "case (nm, runs) of (nm, runs) \<Rightarrow> \<forall>td \<in> set runs. \<forall>d. t_data td = Some d \<longrightarrow> map_of d Main \<noteq> None \<and>
     (\<forall>c \<in> set (connectionValues g). n_name (g_from c) = nm \<longrightarrow> map_of d (g_type c) \<noteq> None)"
    by (rule bspec [OF assms(1) [unfolded run_data_typed_def]]) (use x(1) assms(2) in blast)
  with x have d: "map_of d Main \<noteq> None"
    "\<forall>c \<in> set (connectionValues g). n_name (g_from c) = nm \<longrightarrow> map_of d (g_type c) \<noteq> None"
    by blast+
  show "map_of d Main \<noteq> None" by (rule d(1))
  show "map_of d (g_type c) \<noteq> None" if "c \<in> set (connectionValues g')" "n_name (g_from c) = nm" for c
    using d assms(3) that by (metis (no_types))
qed

lemma getNodesByNames_nodes:
  assumes "dg_inv g" "n \<in> set (getNodesByNames g names)"
  shows "nodeExists g n"
proof -
  have step: "set (case map_of (d_nodes g) nm of Some n \<Rightarrow> sadd n s | None \<Rightarrow> s) \<subseteq> set s \<union> set (getNodes g)" for nm s
    by (auto simp: getNodes_def split: option.splits dest: map_of_SomeD intro: rev_image_eqI)
  have "set (fold (\<lambda>nm s. case map_of (d_nodes g) nm of Some n \<Rightarrow> sadd n s | None \<Rightarrow> s) names acc)
    \<subseteq> set acc \<union> set (getNodes g)" for acc
  proof (induction names arbitrary: acc)
    case (Cons nm names)
    from Cons [where acc = "case map_of (d_nodes g) nm of Some n \<Rightarrow> sadd n acc | None \<Rightarrow> acc"] step [where nm = nm and s = acc]
    show ?case unfolding fold.simps comp_def by blast
  qed simp
  with assms(2) have "n \<in> set (getNodes g)" by (fastforce simp: getNodesByNames_def)
  with assms(1) show ?thesis by (simp add: nodeExists_iff)
qed

lemma cleanRunData_subset: "cleanRunData rd g ns = Inr rd' \<Longrightarrow> set rd' \<subseteq> set rd"
  using cleanRunData_part [of rd g ns rd'] set_mset_mono [of "mset rd'" "mset rd"] by simp

lemma handleCycles_reachable:
  assumes "dg_inv g" "nodeExists g trigger" "\<forall>n \<in> set startNodes. (trigger, n) \<in> (edges g)\<^sup>*"
  shows "\<exists>ns. handleCycles g startNodes trigger = Inr ns \<and> (\<forall>n \<in> set ns. (trigger, n) \<in> (edges g)\<^sup>*)"
proof -
  from handleCycles_ok [OF assms] getStronglyConnectedComponents_ok [OF assms(1)] obtain sccs ns where
    s: "getStronglyConnectedComponents g = Inr sccs" "handleCycles g startNodes trigger = Inr ns"
      "set ns = cycle_entry g trigger sccs ` set startNodes"
      "\<forall>scc \<in> set sccs. \<forall>a \<in> set scc. \<forall>b \<in> set scc. (a, b) \<in> (edges g)\<^sup>*" by auto
  have "(trigger, n) \<in> (edges g)\<^sup>*" if "n \<in> set ns" for n
  proof -
    from that s(3) obtain m where "m \<in> set startNodes" "n = cycle_entry g trigger sccs m" by blast
    with cycle_entry_ok [OF assms(1,2) s(4), of m] assms(3) show ?thesis by simp
  qed
  with s(2) show ?thesis by blast
qed

lemma followed_rtrancl: "(followed g dest rd pin)\<^sup>* \<subseteq> (edges g)\<^sup>*"
  by (rule rtrancl_mono) (auto simp: followed_def edges_def)

lemma entriesOf_node: "item \<in> set (entriesOf cmp x g rd pin n) \<Longrightarrow> e_node item = n"
  by (auto simp: entriesOf_def entryOf_def split: if_split_asm)

lemma preparePartialRun_ok:
  assumes g: "dg_inv g" "dash_free g" "no_disabled_cycle g" "run_data_typed g rd"
    and dest: "nodeExists g destination" "\<not> isDisabled destination"
    and trigger: "nodeExists g trigger" "\<not> isDisabled trigger" "(trigger, destination) \<in> (main_edges g)\<^sup>*"
  shows "\<exists>filtered graph names s. filterDisabledNodes g = Inr filtered \<and> findSubgraph filtered destination trigger = Inr graph \<and>
    preparePartialRun cmp g destination trigger rd pin dirty = Inr (names, s) \<and> names = map n_name (getNodes graph) \<and>
    {trigger, destination} \<subseteq> set (getNodes graph) \<and>
    (\<forall>n \<in> set (getNodes graph). nodeExists g n \<and> \<not> isDisabled n) \<and>
    (\<forall>item \<in> set (es_stack (rs_engine s)). e_node item \<in> set (getNodes graph) \<and> (trigger, e_node item) \<in> (edges graph)\<^sup>*)"
proof -
  from filterDisabledNodes_ok [OF g(1-3)] obtain filtered where f: "filterDisabledNodes g = Inr filtered" "dg_inv filtered"
    "\<And>m. nodeExists filtered m \<longleftrightarrow> nodeExists g m \<and> \<not> isDisabled m"
    "\<And>a b. \<not> isDisabled a \<Longrightarrow> \<not> isDisabled b \<Longrightarrow> (a, b) \<in> (main_edges filtered)\<^sup>+ \<longleftrightarrow> (a, b) \<in> (main_edges g)\<^sup>+"
    by blast
  have path: "(trigger, destination) \<in> (main_edges filtered)\<^sup>*"
    using trigger f(4) [OF trigger(2) dest(2)] by (metis rtrancl_eq_or_trancl)
  have ex: "nodeExists filtered destination" "nodeExists filtered trigger" using dest trigger by (simp_all add: f(3))
  from findSubgraph_ok [OF f(2) ex] obtain graph where h: "findSubgraph filtered destination trigger = Inr graph"
    "subgraph_of filtered graph"
    "\<And>p. backPath filtered trigger destination p \<Longrightarrow> distinct (map g_to p) \<Longrightarrow>
       trigger \<in> set (getNodes graph) \<and> set p \<subseteq> set (connectionValues graph)"
    by blast
  have inv: "dg_inv graph" using h(2) by (simp add: subgraph_of_def)
  have nodes: "nodeExists g n \<and> \<not> isDisabled n" if "n \<in> set (getNodes graph)" for n
  proof -
    from that h(2) have "nodeExists filtered n" by (auto simp: subgraph_of_def nodeExists_iff [OF f(2)])
    then show ?thesis by (simp add: f(3))
  qed
  from backPath_exists [OF path] obtain p where p: "backPath filtered trigger destination p" "distinct (map g_to p)" by blast
  note kept = h(3) [OF p]
  have ends: "nodeExists graph trigger" "nodeExists graph destination"
  proof -
    show "nodeExists graph trigger" using kept by (simp add: nodeExists_iff [OF inv])
    show "nodeExists graph destination"
    proof (cases p)
      case Nil
      with p(1) kept show ?thesis by (simp add: nodeExists_iff [OF inv])
    next
      case (Cons c cs)
      with p(1) kept have "c \<in> set (connectionValues graph)" "g_to c = destination" by auto
      then show ?thesis using dg_invD(6) [OF inv] by blast
    qed
  qed
  have conns: "\<forall>c \<in> set (connectionValues graph). g_type c = Main \<or> c \<in> set (connectionValues g)"
    using filterDisabledNodes_connections [OF g(1) f(1)] h(2) by (auto simp: subgraph_of_def)
  have dirty: "\<forall>n \<in> set (getNodesByNames graph dirty). nodeExists graph n"
    using getNodesByNames_nodes [OF inv] by blast
  from cleanRunData_ok [OF inv dirty, of rd] obtain rd1 where rd1: "cleanRunData rd graph (getNodesByNames graph dirty) = Inr rd1" by blast
  have typed1: "run_data_typed graph rd1"
    by (rule run_data_typed_part [OF g(4) _ conns]) (rule cleanRunData_subset [OF rd1])
  from findStartNodes_ok [OF inv typed1 ends(1), of destination pin] obtain ns where
    ns: "findStartNodes graph trigger destination rd1 pin = Inr ns" "\<forall>n \<in> set ns. (trigger, n) \<in> (edges graph)\<^sup>*"
    using followed_rtrancl by blast
  from handleCycles_reachable [OF inv ends(1) ns(2)] obtain ns' where
    ns': "handleCycles graph ns trigger = Inr ns'" "\<forall>n \<in> set ns'. (trigger, n) \<in> (edges graph)\<^sup>*"
    by blast
  have exist: "\<forall>n \<in> set ns'. nodeExists graph n"
    using ns'(2) edges_rtrancl_nodes [OF _ inv ends(1)] by blast
  from cleanRunData_ok [OF inv exist, of rd1] obtain rd2 where rd2: "cleanRunData rd1 graph ns' = Inr rd2" by blast
  have typed2: "run_data_typed graph rd2"
    by (rule run_data_typed_part [OF typed1 cleanRunData_subset [OF rd2]]) blast
  have enabled: "\<forall>n. nodeExists graph n \<longrightarrow> \<not> isDisabled n" using nodes by (simp add: nodeExists_iff [OF inv])
  from recreateNodeExecutionStack_ok [OF inv typed2 enabled exist, of cmp emptyNodeItem pin] obtain st where
    st: "recreateNodeExecutionStack cmp emptyNodeItem graph ns' rd2 pin = Inr st"
      "es_stack st = concat (map (entriesOf cmp emptyNodeItem graph rd2 pin) ns')" by blast
  have "preparePartialRun cmp g destination trigger rd pin dirty = Inr (map n_name (getNodes graph), startState rd2 st)"
    by (simp add: preparePartialRun_def f(1) h(1) rd1 ns(1) ns'(1) rd2 st(1))
  moreover have "e_node item \<in> set (getNodes graph) \<and> (trigger, e_node item) \<in> (edges graph)\<^sup>*"
    if "item \<in> set (es_stack (rs_engine (startState rd2 st)))" for item
  proof -
    from that have "e_node item \<in> set ns'" by (auto simp: startState_def st(2) dest: entriesOf_node)
    with exist ns'(2) show ?thesis by (simp add: nodeExists_iff [OF inv])
  qed
  ultimately show ?thesis
    using f(1) h(1) ends nodes by (intro exI conjI) (auto simp: nodeExists_iff [OF inv])
qed

section \<open>Examples\<close>

definition exDescribe :: "inode \<Rightarrow> string \<times> output_description list option" where
  "exDescribe n = (n_type n, Some [PlainOutput (if n_type n = ''tool'' then ''ai_tool'' else ''main'')])"

definition exRunA :: "node_item task_data" where
  "exRunA = (exRun [exItem])\<lparr>t_executionIndex := Some 0\<rparr>"

text \<open>\<open>A\<close> leads to the agent \<open>B\<close> from its second output; \<open>T\<close> is a tool of \<open>B\<close>. \<open>A\<close> ran and used its second output.\<close>

definition exAgentFlow :: "node_item workflow" where
  "exAgentFlow = setConnections
     [(''A'', [(Main, [Some [], Some [\<lparr>c_node = ''B'', c_type = Main, c_index = 0\<rparr>]])]),
      (''T'', [(AiTool, [Some [\<lparr>c_node = ''B'', c_type = AiTool, c_index = 0\<rparr>]])])]
     (exLine\<lparr>w_nodes := [(''A'', (mkNode 1 ''A'')\<lparr>n_type := ''n8n-nodes-base.manualTrigger''\<rparr>), (''B'', mkNode 2 ''B''),
        (''T'', (mkNode 3 ''T'')\<lparr>n_type := ''tool''\<rparr>)],
      w_nodeTypes := \<lambda>t v. map_option (\<lambda>d. d\<lparr>nt_trigger := t = ''n8n-nodes-base.manualTrigger''\<rparr>) (exPlainType t v)\<rparr>)"

definition exCompareNames :: "string \<Rightarrow> string \<Rightarrow> int" where
  "exCompareNames a b = (if a = b then 0 else - 1)"

definition exAgentRun :: "node_item list option list \<Rightarrow> (string list \<times> execution_status \<times> run_state) result" where
  "exAgentRun outs = runPartialWorkflow2 exCompareNames exDescribe 9 ''{}'' [] 5 (exEnv (\<lambda>n. Throws exFault)) exFault exAgentFlow
     [(''A'', [exRunA\<lparr>t_data := Some [(Main, outs)]\<rparr>])] [] \<lparr>ds_nodeName = ''T'', ds_mode = Inclusive\<rparr>"

section \<open>A run from the start\<close>

text \<open>
  \<open>run\<close>: the nodes allowed to run are the ancestors of the destination, the nodes attached to it over
  other connections, and the destination itself unless the mode says otherwise.
\<close>

definition runNodeFilterOf :: "'i workflow \<Rightarrow> destination_node option \<Rightarrow> string list \<Rightarrow> string list option result" where
  "runNodeFilterOf w dest additional = (case dest of None \<Rightarrow> Inr None
     | Some d \<Rightarrow> ebind (getParentNodes w (ds_nodeName d) (OfType Main) (- 1)) (\<lambda>parents.
         ebind (getParentNodes w (ds_nodeName d) AllNonMain (- 1)) (\<lambda>others.
           Inr (Some (saddAll (parents @ others @ (if ds_mode d = Inclusive then [ds_nodeName d] else []) @ additional) [])))))"

definition startAt :: "inode \<Rightarrow> node_item task_data_connections option \<Rightarrow> run_state" where
  "startAt node triggerData =
     \<lparr>rs_engine = \<lparr>es_stack = [\<lparr>e_node = node, e_data = orElse triggerData [(Main, [Some [emptyNodeItem]])],
        e_source = None, e_runIndex = None, e_metadata = None\<rparr>], es_waiting = [], es_waitingSource = [], en_runData = []\<rparr>,
      rs_lastTry = None, rs_executionIndex = 0, rs_lastNodeExecuted = None, rs_waitTill = False, rs_error = None\<rparr>"

definition runWorkflow ::
  "nat \<Rightarrow> run_env \<Rightarrow> exec_error \<Rightarrow> node_item workflow \<Rightarrow> inode option \<Rightarrow> destination_node option \<Rightarrow>
    node_item task_data_connections option \<Rightarrow> string list \<Rightarrow> (execution_status \<times> run_state) result" where
  "runWorkflow fuel env cancellation w startNode dest triggerData additional =
     ebind (case startNode of Some n \<Rightarrow> Inr (Some n) | None \<Rightarrow> getStartNode w (map_option ds_nodeName dest)) (\<lambda>start.
       case start of None \<Rightarrow> Inl (ApplicationError ''No node to start the workflow from could be found'')
       | Some n \<Rightarrow> ebind (runNodeFilterOf w dest additional) (\<lambda>flt.
           processRunExecutionData fuel (env\<lparr>re_runNodeFilter := flt, re_destination := map_option ds_nodeName dest\<rparr>)
             w cancellation (startAt n triggerData)))"

text \<open>
  \<open>checkReadyForExecution\<close>: the issues of the nodes that are going to run. \<open>parameterIssues\<close> stands for
  \<open>NodeHelpers.getNodeParametersIssues\<close> of a node and its type.
\<close>

datatype 'x node_issues = TypeUnknown | ParameterIssues 'x

definition nodesToCheck :: "'i workflow \<Rightarrow> string option \<Rightarrow> destination_node option \<Rightarrow> string list result" where
  "nodesToCheck w startNode dest = (case dest of
     Some d \<Rightarrow> ebind (getParentNodes w (ds_nodeName d) (OfType Main) (- 1)) (\<lambda>parents.
       Inr (parents @ (if ds_mode d = Inclusive then [ds_nodeName d] else [])))
   | None \<Rightarrow> (case startNode of None \<Rightarrow> Inr []
       | Some s \<Rightarrow> ebind (getChildNodes w s (OfType Main) (- 1)) (\<lambda>children. Inr (children @ [s]))))"

definition issuesOf :: "(node_type \<Rightarrow> inode \<Rightarrow> 'x option) \<Rightarrow> 'i workflow \<Rightarrow> string \<Rightarrow> (string \<times> 'x node_issues) list" where
  "issuesOf parameterIssues w nm = (case wf_getNode w nm of None \<Rightarrow> []
     | Some node \<Rightarrow> if n_disabled node = Some True then []
         else (case w_nodeTypes w (n_type node) (n_typeVersion node) of
             None \<Rightarrow> [(n_name node, TypeUnknown)]
           | Some t \<Rightarrow> (case parameterIssues t node of None \<Rightarrow> [] | Some x \<Rightarrow> [(n_name node, ParameterIssues x)])))"

definition checkReadyForExecution ::
  "(node_type \<Rightarrow> inode \<Rightarrow> 'x option) \<Rightarrow> 'i workflow \<Rightarrow> string option \<Rightarrow> destination_node option \<Rightarrow>
    (string \<times> 'x node_issues) list option result" where
  "checkReadyForExecution parameterIssues w startNode dest =
     ebind (nodesToCheck w startNode dest) (\<lambda>names.
       let issues = fold (\<lambda>nm acc. fold (\<lambda>(k, v). AList.update k v) (issuesOf parameterIssues w nm) acc) names []
       in Inr (if issues = [] then None else Some issues))"

lemma runNodeFilterOf_set:
  assumes "runNodeFilterOf w (Some d) additional = Inr flt"
  shows "\<exists>names. flt = Some names \<and> (\<forall>nm \<in> set names. nm \<in> set additional \<or> nm = ds_nodeName d \<and> ds_mode d = Inclusive \<or>
    nm \<noteq> ds_nodeName d \<and> ((ds_nodeName d, nm) \<in> (conn_rel (w_connectionsByDestinationNode w) (OfType Main))\<^sup>+ \<or>
      (ds_nodeName d, nm) \<in> (conn_rel (w_connectionsByDestinationNode w) AllNonMain)\<^sup>+))"
proof -
  let ?conns = "w_connectionsByDestinationNode w" and ?nm = "ds_nodeName d"
  from assms obtain parents others where
    p: "getParentNodes w ?nm (OfType Main) (- 1) = Inr parents" "getParentNodes w ?nm AllNonMain (- 1) = Inr others"
    "flt = Some (saddAll (parents @ others @ (if ds_mode d = Inclusive then [?nm] else []) @ additional) [])"
    by (auto simp: runNodeFilterOf_def)
  have "set parents = {m. m \<noteq> ?nm \<and> (?nm, m) \<in> (conn_rel ?conns (OfType Main))\<^sup>+}"
    "set others = {m. m \<noteq> ?nm \<and> (?nm, m) \<in> (conn_rel ?conns AllNonMain)\<^sup>+}"
    using getConnectedNodes_ok [of ?conns ?nm] p(1,2) unfolding getParentNodes_def by (metis sum.inject(2))+
  then show ?thesis using p(3) by (auto split: if_split_asm)
qed

section \<open>Properties\<close>



text \<open>
  C4: a partial execution gets going: on a well-formed graph whose names hold no dash and with no cycle of
  disabled nodes only, with typed run data and an enabled trigger that leads to an enabled destination, no step of
  the preparation fails. The subgraph holds the trigger and the destination and enabled nodes of the
  graph only, and every item on the stack is for a node of the subgraph the trigger reaches.
\<close>

theorem partial_run_prepares:
  assumes "dg_inv g" "dash_free g" "no_disabled_cycle g" "run_data_typed g rd"
    and "nodeExists g destination" "\<not> isDisabled destination"
    and "nodeExists g trigger" "\<not> isDisabled trigger" "(trigger, destination) \<in> (main_edges g)\<^sup>*"
  shows "\<exists>filtered graph names s. filterDisabledNodes g = Inr filtered \<and> findSubgraph filtered destination trigger = Inr graph \<and>
    preparePartialRun cmp g destination trigger rd pin dirty = Inr (names, s) \<and> names = map n_name (getNodes graph) \<and>
    {trigger, destination} \<subseteq> set (getNodes graph) \<and>
    (\<forall>n \<in> set (getNodes graph). nodeExists g n \<and> \<not> isDisabled n) \<and>
    (\<forall>item \<in> set (es_stack (rs_engine s)). e_node item \<in> set (getNodes graph) \<and> (trigger, e_node item) \<in> (edges graph)\<^sup>*)"
  using assms by (rule preparePartialRun_ok)

lemma partial_run_prepares_witness:
  "\<exists>names s. preparePartialRun exCompareNames exChain nodeC nodeA [(''A'', [exRunA])] [] [] = Inr (names, s) \<and>
     {''A'', ''C''} \<subseteq> set names"
proof -
  have conns: "connectionValues exChain = [conn nodeA nodeB, conn nodeB nodeC]" by code_simp
  have E: "main_edges exChain = {(nodeA, nodeB), (nodeB, nodeC)}" by (rule main_edges_exChain)
  have d: "\<not> isDisabled nodeA" "\<not> isDisabled nodeB" "\<not> isDisabled nodeC" by code_simp+
  have "\<not> isDisabled a" if "(a, b) \<in> via (main_edges exChain) (Collect isDisabled)" for a b
    using that by (induction rule: via_induct) (use d in \<open>auto simp: E\<close>)
  then have "no_disabled_cycle exChain" unfolding no_disabled_cycle_def by blast
  moreover have "run_data_typed exChain [(''A'', [exRunA])]"
    by (auto simp: run_data_typed_def conns exRunA_def exRun_def conn_def)
  moreover have "nodeExists exChain nodeA" "nodeExists exChain nodeC" "dash_free exChain" by code_simp+
  moreover have "(nodeA, nodeC) \<in> (main_edges exChain)\<^sup>*"
    unfolding E by (meson insertI1 insertI2 r_into_rtrancl rtrancl.rtrancl_into_rtrancl)
  ultimately obtain graph s where
    "preparePartialRun exCompareNames exChain nodeC nodeA [(''A'', [exRunA])] [] [] = Inr (map n_name (getNodes graph), s)"
    "{nodeA, nodeC} \<subseteq> set (getNodes graph)"
    using partial_run_prepares [OF dg_inv_exChain, of "[(''A'', [exRunA])]" nodeC nodeA exCompareNames "[]" "[]"] d by blast
  moreover have "n_name nodeA = ''A''" "n_name nodeC = ''C''" by code_simp+
  ultimately show ?thesis by (intro exI [of _ "map n_name (getNodes graph)"] exI [of _ s]) force
qed



text \<open>
  Running a tool on its own loses the output its agent is connected to: the virtual agent is connected to
  the first output of the nodes before the agent. When the node before the agent put its data on its second
  output, the execution of the tool ends in success without having run anything; with the same data on
  the first output the tool is run.
\<close>

lemma tool_run_skips_output:
  "map_sum id (\<lambda>(names, status, s). (status, map fst (en_runData (rs_engine s)))) (exAgentRun [Some [], Some [exItem]]) =
     Inr (StSuccess, [''A'']) \<and>
   map_sum id (\<lambda>(names, status, s). map fst (en_runData (rs_engine s))) (exAgentRun [Some [exItem], Some []]) =
     Inr [''A'', toolExecutorName]"
  by code_simp

text \<open>The mode of the destination is not looked at: a partial execution in the mode \<open>exclusive\<close> runs it.\<close>

lemma partial_run_ignores_mode:
  "runPartialWorkflow2 cmp describe r query toolName fuel env cancellation w rd dirty (d\<lparr>ds_mode := m\<rparr>) =
   runPartialWorkflow2 cmp describe r query toolName fuel env cancellation w rd dirty d"
proof (cases "wf_getNode w (ds_nodeName d)")
  case None
  then show ?thesis by (simp add: runPartialWorkflow2_def partialGraph_def)
next
  case (Some n)
  then show ?thesis
    by (cases "fromWorkflow w") (simp_all add: runPartialWorkflow2_def partialGraph_def)
qed

end
