(* ===== verification/EngineRequests.thy ===== *)
theory EngineRequests imports PartialRun EngineTermination
begin

text \<open>
  The requests a node makes to the engine (\<open>core/src/execution-engine/requests-response.ts\<close> and
  \<open>handleEngineRequest\<close> of \<open>workflow-execute.ts\<close>). An agent node may return, instead of output data, a list of
  actions: nodes to be executed with given input. The engine reserves a run for each of them, puts them on the stack
  above the requesting node, and gives the requesting node the list of the runs whose data are the responses.
  The lemmas show the order in which the nodes will run, that the reserved runs are new and no recorded run is
  touched, and what becomes of a request that cannot be carried out.
\<close>

section \<open>The requested nodes\<close>

record engine_request =
  eq_actions :: "engine_action list"
  eq_metadata :: json

record to_be_executed =
  tb_connection :: iconnection
  tb_parentOutputIndex :: nat
  tb_parentNode :: string
  tb_parentOutputData :: "node_item list option list"
  tb_runIndex :: nat
  tb_nodeRunIndex :: nat
  tb_metadata :: task_metadata

definition buildParentOutputData :: "(string \<times> json) list \<Rightarrow> nat \<Rightarrow> nat \<Rightarrow> string \<Rightarrow> node_item list option list" where
  "buildParentOutputData j parentRunIndex parentOutputIndex parentSourceNode =
     [Some [\<lparr>ni_json = j, ni_error = None, ni_pairedItem = Some (OneItem
       \<lparr>pi_item = parentRunIndex, pi_input = Some parentOutputIndex, pi_sourceOverwrite = Some
          \<lparr>previousNode = parentSourceNode, previousNodeOutput = Some parentOutputIndex,
           previousNodeRun = Some parentRunIndex\<rparr>\<rparr>)\<rparr>]]"

text \<open>A run is reserved for the node: an entry of the run data that has no output yet. It has the execution index 0.\<close>

definition reservedTask :: "string \<Rightarrow> nat \<Rightarrow> nat \<Rightarrow> node_item list option list \<Rightarrow> node_item task_data" where
  "reservedTask parentNode parentOutputIndex previousRun displayOutputData =
     \<lparr>t_executionIndex = Some 0,
      t_source = [Some \<lparr>previousNode = parentNode, previousNodeOutput = Some parentOutputIndex,
        previousNodeRun = Some previousRun\<rparr>],
      t_executionStatus = None, t_data = None, t_inputOverride = Some [(AiTool, displayOutputData)], t_error = None\<rparr>"

definition initializeNodeRunData :: "string \<Rightarrow> node_item task_data \<Rightarrow> node_item run_data \<Rightarrow> nat \<times> node_item run_data" where
  "initializeNodeRunData nm task rd =
     (let runs = orElse (map_of rd nm) [] in (length runs, AList.update nm (runs @ [task]) rd))"

text \<open>\<open>source.main[i]\<close> of a stack item, if it is there.\<close>

definition sourceAt :: "node_item execute_data \<Rightarrow> nat \<Rightarrow> source_data option" where
  "sourceAt e i = (case e_source e of None \<Rightarrow> None
     | Some s \<Rightarrow> (case js_get (orElse (map_of s Main) []) i of Some (Some x) \<Rightarrow> Some x | _ \<Rightarrow> None))"

definition customParent :: "engine_action \<Rightarrow> bool" where
  "customParent a \<longleftrightarrow> ea_parentNodeName a \<noteq> None \<and> ea_parentNodeName a \<noteq> Some []"

definition parentOf :: "inode \<Rightarrow> engine_action \<Rightarrow> string" where
  "parentOf currentNode a = orElse (ea_parentNodeName a) (n_name currentNode)"

text \<open>The number of the last run of the parent; an array of runs has at least one element.\<close>

definition parentRunIndexOf :: "inode \<Rightarrow> node_item run_data \<Rightarrow> source_data option \<Rightarrow> engine_action \<Rightarrow> nat" where
  "parentRunIndexOf currentNode rd parentSource a =
     (if customParent a
      then (case map_of rd (parentOf currentNode a) of None \<Rightarrow> 0 | Some runs \<Rightarrow> length runs - 1)
      else case parentSource of None \<Rightarrow> 0 | Some s \<Rightarrow> orElse (previousNodeRun s) 0)"

definition agentInputJson :: "node_item execute_data \<Rightarrow> nat \<Rightarrow> (string \<times> json) list" where
  "agentInputJson e itemIndex = (case map_of (e_data e) Main of
     Some (Some items # _) \<Rightarrow> (case js_get items itemIndex of Some item \<Rightarrow> ni_json item | None \<Rightarrow> [])
   | _ \<Rightarrow> [])"

text \<open>
  One action: the node to be executed with its data, the run reserved for it and the entry for the metadata of the
  requesting node. The source is looked up at the position \<open>runIndex\<close> of the list of sources.
\<close>

definition prepareAction ::
  "inode \<Rightarrow> nat \<Rightarrow> node_item execute_data \<Rightarrow> engine_action \<Rightarrow> node_item run_data \<Rightarrow>
    to_be_executed \<times> sub_node_action \<times> node_item run_data" where
  "prepareAction currentNode runIndex e a rd =
     (let parentSource = sourceAt e runIndex;
          outputIndex = (case parentSource of None \<Rightarrow> 0 | Some s \<Rightarrow> orElse (previousNodeOutput s) 0);
          sourceNode = (case parentSource of None \<Rightarrow> n_name currentNode | Some s \<Rightarrow> previousNode s);
          parentNode = parentOf currentNode a;
          parentRunIndex = parentRunIndexOf currentNode rd parentSource a;
          mergedJson = spread (spread (agentInputJson e (orElse (ea_itemIndex a) 0)) (ea_input a)) [(''toolCallId'', JStr (ea_id a))];
          previousRun = (if customParent a then parentRunIndex else runIndex);
          task = reservedTask parentNode outputIndex previousRun
            (buildParentOutputData (ea_input a) parentRunIndex outputIndex sourceNode);
          (nodeRunIndex, rd) = initializeNodeRunData (ea_nodeName a) task rd;
          preserved = (case e_metadata e of Some m \<Rightarrow> tm_preservedSourceOverwrite m | None \<Rightarrow> None)
      in (\<lparr>tb_connection = \<lparr>c_node = ea_nodeName a, c_type = ea_type a, c_index = 0\<rparr>, tb_parentOutputIndex = 0,
           tb_parentNode = parentNode,
           tb_parentOutputData = buildParentOutputData mergedJson parentRunIndex outputIndex sourceNode,
           tb_runIndex = previousRun, tb_nodeRunIndex = nodeRunIndex,
           tb_metadata = \<lparr>tm_preserveSourceOverwrite = True,
             tm_preservedSourceOverwrite = Some (case preserved of Some s \<Rightarrow> s
               | None \<Rightarrow> \<lparr>previousNode = sourceNode, previousNodeOutput = Some outputIndex, previousNodeRun = Some parentRunIndex\<rparr>),
             tm_nodeWasResumed = False, tm_subNodeExecutionData = None\<rparr>\<rparr>,
          \<lparr>sn_action = a, sn_nodeName = ea_nodeName a, sn_runIndex = nodeRunIndex\<rparr>, rd))"

text \<open>
  The assignment \<open>node.rewireOutputLogTo = action.type\<close> changes the node object of the workflow, which the items
  of the stack share.
\<close>

definition logTo :: "string \<Rightarrow> node_connection_type \<Rightarrow> inode \<Rightarrow> inode" where
  "logTo nm ty n = (if n_name n = nm then n\<lparr>n_rewireOutputLogTo := Some ty\<rparr> else n)"

definition rewireNode :: "string \<Rightarrow> node_connection_type \<Rightarrow> 'i workflow \<Rightarrow> 'i workflow" where
  "rewireNode nm ty w = w\<lparr>w_nodes := map (map_prod id (logTo nm ty)) (w_nodes w)\<rparr>"

definition rewireStack :: "string \<Rightarrow> node_connection_type \<Rightarrow> 'i engine \<Rightarrow> 'i engine" where
  "rewireStack nm ty st = st\<lparr>es_stack := map (\<lambda>e. e\<lparr>e_node := logTo nm ty (e_node e)\<rparr>) (es_stack st)\<rparr>"

record request_state =
  rq_workflow :: "node_item workflow"
  rq_engine :: "node_item engine"
  rq_nodes :: "to_be_executed list"
  rq_subNodes :: "sub_node_action list"

definition requestAction ::
  "inode \<Rightarrow> nat \<Rightarrow> node_item execute_data \<Rightarrow> engine_action \<Rightarrow> request_state \<Rightarrow> request_state result" where
  "requestAction currentNode runIndex e a s =
     (case wf_getNode (rq_workflow s) (ea_nodeName a) of
        None \<Rightarrow> Inl (UnexpectedError ''Workflow does not contain a node with the name'')
      | Some node \<Rightarrow>
          let (tbe, sub, rd) = prepareAction currentNode runIndex e a (en_runData (rq_engine s))
          in Inr \<lparr>rq_workflow = rewireNode (ea_nodeName a) (ea_type a) (rq_workflow s),
               rq_engine = (rewireStack (ea_nodeName a) (ea_type a) (rq_engine s))\<lparr>en_runData := rd\<rparr>,
               rq_nodes = rq_nodes s @ [tbe], rq_subNodes = rq_subNodes s @ [sub]\<rparr>)"

section \<open>The requesting node\<close>

text \<open>
  The requesting node is going to run again after the nodes it asked for. Without a node before it the
  request is ignored, but the runs are reserved already.
\<close>

definition prepareRequestingNodeForResuming ::
  "node_item execute_data \<Rightarrow> (iconnection \<times> string \<times> bool \<times> source_data option) option" where
  "prepareRequestingNodeForResuming e = (case sourceAt e 0 of None \<Rightarrow> None
     | Some s \<Rightarrow> if previousNode s = [] then None
         else let c = \<lparr>c_node = n_name (e_node e), c_type = AiTool, c_index = 0\<rparr> in
           (case e_metadata e of
              Some m \<Rightarrow> if tm_preservedSourceOverwrite m \<noteq> None \<and> tm_preserveSourceOverwrite m
                then Some (c, previousNode s, True, tm_preservedSourceOverwrite m) else Some (c, previousNode s, False, None)
            | None \<Rightarrow> Some (c, previousNode s, False, None)))"

text \<open>The data of the requesting node is handed back to it; without data on \<open>main\<close> adding it fails.\<close>

definition handleRequest ::
  "inode \<Rightarrow> engine_request \<Rightarrow> nat \<Rightarrow> node_item execute_data \<Rightarrow> node_item workflow \<Rightarrow> node_item engine \<Rightarrow>
    (to_be_executed list \<times> node_item workflow \<times> node_item engine) result" where
  "handleRequest currentNode request runIndex e w st =
     ebind (efold (requestAction currentNode runIndex e) (eq_actions request)
       \<lparr>rq_workflow = w, rq_engine = st, rq_nodes = [], rq_subNodes = []\<rparr>) (\<lambda>s.
     case prepareRequestingNodeForResuming e of
       None \<Rightarrow> Inr ([], rq_workflow s, rq_engine s)
     | Some (c, parentNode, preserve, preserved) \<Rightarrow> (case map_of (e_data e) Main of
         None \<Rightarrow> Inl TypeError
       | Some main \<Rightarrow>
           let resume = \<lparr>tb_connection = c, tb_parentOutputIndex = 0, tb_parentNode = parentNode,
             tb_parentOutputData = main, tb_runIndex = runIndex, tb_nodeRunIndex = runIndex,
             tb_metadata = \<lparr>tm_preserveSourceOverwrite = preserve, tm_preservedSourceOverwrite = preserved,
               tm_nodeWasResumed = True, tm_subNodeExecutionData = Some (rq_subNodes s, eq_metadata request)\<rparr>\<rparr>
           in Inr (resume # rq_nodes s, rq_workflow s, rq_engine s)))"

definition executeRequested :: "node_item workflow \<Rightarrow> to_be_executed \<Rightarrow> node_item engine \<Rightarrow> node_item engine result" where
  "executeRequested w t = addNodeToBeExecuted emptyNodeItem w (tb_connection t) (tb_parentOutputIndex t) (tb_parentNode t)
     (Some (tb_parentOutputData t)) (tb_runIndex t) (Some (tb_nodeRunIndex t)) (Some (tb_metadata t))"

definition handleEngineRequest ::
  "inode \<Rightarrow> engine_request \<Rightarrow> nat \<Rightarrow> node_item execute_data \<Rightarrow> node_item workflow \<Rightarrow> node_item engine \<Rightarrow>
    (node_item workflow \<times> node_item engine) result" where
  "handleEngineRequest currentNode request runIndex e w st =
     ebind (handleRequest currentNode request runIndex e w st) (\<lambda>(nodes, w, st).
     ebind (efold (executeRequested w) nodes st) (\<lambda>st. Inr (w, st)))"

section \<open>The responses\<close>

text \<open>
  Before the requesting node is called again, the runs of its actions are added to the responses. The
  responses are emptied once for an item of the stack, not before each try.
\<close>

record action_response =
  ar_action :: engine_action
  ar_data :: "node_item task_data"

definition collectResponses :: "sub_node_action list \<Rightarrow> node_item run_data \<Rightarrow> action_response list \<Rightarrow> action_response list" where
  "collectResponses subNodes rd responses =
     responses @ List.map_filter (\<lambda>s. map_option (\<lambda>t. \<lparr>ar_action = sn_action s, ar_data = t\<rparr>)
       (js_get (orElse (map_of rd (sn_nodeName s)) []) (sn_runIndex s))) subNodes"

fun responsesAtTry :: "nat \<Rightarrow> sub_node_action list \<Rightarrow> node_item run_data \<Rightarrow> action_response list" where
  "responsesAtTry 0 subNodes rd = collectResponses subNodes rd []"
| "responsesAtTry (Suc n) subNodes rd = collectResponses subNodes rd (responsesAtTry n subNodes rd)"

section \<open>What a request does to the stack and the run data\<close>

definition runsOf :: "'i run_data \<Rightarrow> string \<Rightarrow> 'i task_data list" where
  "runsOf rd nm = orElse (map_of rd nm) []"

text \<open>What a stack item is to run: the name of its node and the number of the run.\<close>

definition item_key :: "'i execute_data \<Rightarrow> string \<times> nat option" where
  "item_key e = (n_name (e_node e), e_runIndex e)"

definition sub_key :: "sub_node_action \<Rightarrow> string \<times> nat" where
  "sub_key s = (sn_nodeName s, sn_runIndex s)"

lemma runsOf_update: "runsOf (AList.update nm runs rd) x = (if x = nm then runs else runsOf rd x)"
  by (simp add: runsOf_def map_of_AList_update)

lemma logTo_name [simp]: "n_name (logTo nm ty n) = n_name n"
  by (simp add: logTo_def)

lemma item_key_rewireStack [simp]: "map item_key (es_stack (rewireStack nm ty st)) = map item_key (es_stack st)"
  by (simp add: rewireStack_def item_key_def comp_def)

lemma reservedTask_fields [simp]:
  "t_data (reservedTask p k r d) = None" "t_executionIndex (reservedTask p k r d) = Some 0"
  by (simp_all add: reservedTask_def)

lemma prepareAction_fields:
  assumes "prepareAction cur r e a rd = (tbe, sub, rd')"
  shows "tb_connection tbe = \<lparr>c_node = ea_nodeName a, c_type = ea_type a, c_index = 0\<rparr>" "tb_parentOutputIndex tbe = 0"
    "tb_nodeRunIndex tbe = length (runsOf rd (ea_nodeName a))"
    "sn_action sub = a" "sub_key sub = (ea_nodeName a, length (runsOf rd (ea_nodeName a)))"
  using assms
  by (auto simp: prepareAction_def initializeNodeRunData_def Let_def sub_key_def runsOf_def)

lemma prepareAction_runs:
  assumes "prepareAction cur r e a rd = (tbe, sub, rd')"
  shows "\<exists>t. rd' = AList.update (ea_nodeName a) (runsOf rd (ea_nodeName a) @ [t]) rd \<and>
    t_data t = None \<and> t_executionIndex t = Some 0"
proof -
  from assms have "rd' = snd (snd (prepareAction cur r e a rd))" by simp
  then show ?thesis
    unfolding prepareAction_def initializeNodeRunData_def Let_def prod.case snd_conv runsOf_def
    by (intro exI conjI) (assumption, simp_all)
qed

text \<open>The workflow as the requested nodes see it: the same connections, the same names.\<close>

definition same_shape :: "'i workflow \<Rightarrow> 'i workflow \<Rightarrow> bool" where
  "same_shape w w' \<longleftrightarrow> w_executionOrder w' = w_executionOrder w \<and>
     w_connectionsByDestinationNode w' = w_connectionsByDestinationNode w \<and>
     (\<forall>nm. map_option n_name (wf_getNode w' nm) = map_option n_name (wf_getNode w nm))"

lemma same_shape_refl [simp]: "same_shape w w"
  by (simp add: same_shape_def)

lemma same_shape_rewireNode: "same_shape w w' \<Longrightarrow> same_shape w (rewireNode nm ty w')"
proof -
  have "map_of (map (map_prod id f) al) k = map_option f (map_of al k)" for f :: "inode \<Rightarrow> inode" and al :: "(string \<times> inode) list" and k
    by (induction al) auto
  then show "same_shape w w' \<Longrightarrow> same_shape w (rewireNode nm ty w')"
    by (simp add: same_shape_def rewireNode_def wf_getNode_def option.map_comp comp_def)
qed

text \<open>The runs the actions \<open>subs\<close> have reserved: new ones, each for one action, without output so far.\<close>

definition reserved :: "'i run_data \<Rightarrow> 'i run_data \<Rightarrow> sub_node_action list \<Rightarrow> bool" where
  "reserved rd rd' subs \<longleftrightarrow> distinct (map sub_key subs) \<and>
     (\<forall>nm. \<exists>new. runsOf rd' nm = runsOf rd nm @ new \<and> (\<forall>t \<in> set new. t_data t = None \<and> t_executionIndex t = Some 0) \<and>
       {i. (nm, i) \<in> sub_key ` set subs} = {length (runsOf rd nm)..<length (runsOf rd' nm)})"

lemma reserved_Nil [simp]: "reserved rd rd []"
  by (simp add: reserved_def)

lemma reserved_snoc:
  assumes "reserved rd rd1 subs" "t_data t = None" "t_executionIndex t = Some 0"
    and "rd2 = AList.update nm (runsOf rd1 nm @ [t]) rd1" "sub_key sub = (nm, length (runsOf rd1 nm))"
  shows "reserved rd rd2 (subs @ [sub])"
proof -
  have used: "sub_key sub \<notin> sub_key ` set subs"
  proof
    assume "sub_key sub \<in> sub_key ` set subs"
    then have "length (runsOf rd1 nm) \<in> {i. (nm, i) \<in> sub_key ` set subs}" by (simp add: assms(5))
    with assms(1) show False unfolding reserved_def by (metis atLeastLessThan_iff less_irrefl)
  qed
  have "\<exists>new. runsOf rd2 x = runsOf rd x @ new \<and> (\<forall>t \<in> set new. t_data t = None \<and> t_executionIndex t = Some 0) \<and>
       {i. (x, i) \<in> sub_key ` set (subs @ [sub])} = {length (runsOf rd x)..<length (runsOf rd2 x)}" for x
  proof -
    from assms(1) obtain new where new: "runsOf rd1 x = runsOf rd x @ new"
      "\<forall>t \<in> set new. t_data t = None \<and> t_executionIndex t = Some 0"
      "{i. (x, i) \<in> sub_key ` set subs} = {length (runsOf rd x)..<length (runsOf rd1 x)}" unfolding reserved_def by blast
    show ?thesis
    proof (cases "x = nm")
      case True
      have "{i. (x, i) \<in> sub_key ` set (subs @ [sub])} = insert (length (runsOf rd1 x)) {i. (x, i) \<in> sub_key ` set subs}"
        using assms(5) True by auto
      also have "\<dots> = {length (runsOf rd x)..<length (runsOf rd2 x)}"
        using new(1) unfolding new(3) assms(4) runsOf_update by (auto simp: True)
      finally show ?thesis
        using new(1,2) assms(2,3) by (intro exI [of _ "new @ [t]"]) (simp add: assms(4) runsOf_update True)
    next
      case False
      have "{i. (x, i) \<in> sub_key ` set (subs @ [sub])} = {i. (x, i) \<in> sub_key ` set subs}"
        using assms(5) False by auto
      with new False show ?thesis by (simp add: assms(4) runsOf_update)
    qed
  qed
  with assms(1) used show ?thesis by (simp add: reserved_def)
qed

text \<open>What the loop over the actions keeps, for the actions done so far.\<close>

definition requested :: "'w workflow \<Rightarrow> node_item engine \<Rightarrow> engine_action list \<Rightarrow> request_state \<Rightarrow> bool" where
  "requested w st acts s \<longleftrightarrow> map sn_action (rq_subNodes s) = acts \<and>
     map sn_nodeName (rq_subNodes s) = map ea_nodeName acts \<and>
     map (\<lambda>t. (c_node (tb_connection t), tb_nodeRunIndex t)) (rq_nodes s) = map sub_key (rq_subNodes s) \<and>
     map item_key (es_stack (rq_engine s)) = map item_key (es_stack st) \<and>
     reserved (en_runData st) (en_runData (rq_engine s)) (rq_subNodes s)"

lemma requestAction_ok:
  assumes "requested w st acts s" "same_shape w (rq_workflow s)" "wf_getNode w (ea_nodeName a) \<noteq> None"
  shows "\<exists>s'. requestAction cur r e a s = Inr s' \<and> requested w st (acts @ [a]) s' \<and> same_shape w (rq_workflow s')"
proof -
  from assms(2,3) obtain node where node: "wf_getNode (rq_workflow s) (ea_nodeName a) = Some node"
    unfolding same_shape_def by (metis map_option_is_None not_None_eq)
  obtain tbe sub rd where p: "prepareAction cur r e a (en_runData (rq_engine s)) = (tbe, sub, rd)" by (metis surj_pair)
  note f = prepareAction_fields [OF p]
  define s' where "s' = \<lparr>rq_workflow = rewireNode (ea_nodeName a) (ea_type a) (rq_workflow s),
     rq_engine = (rewireStack (ea_nodeName a) (ea_type a) (rq_engine s))\<lparr>en_runData := rd\<rparr>,
     rq_nodes = rq_nodes s @ [tbe], rq_subNodes = rq_subNodes s @ [sub]\<rparr>"
  have run: "requestAction cur r e a s = Inr s'" by (simp add: requestAction_def node p s'_def)
  from prepareAction_runs [OF p] obtain t where t: "t_data t = None" "t_executionIndex t = Some 0"
    "rd = AList.update (ea_nodeName a) (runsOf (en_runData (rq_engine s)) (ea_nodeName a) @ [t]) (en_runData (rq_engine s))" by blast
  have "reserved (en_runData st) rd (rq_subNodes s @ [sub])"
    using assms(1) by (intro reserved_snoc [OF _ t f(5)]) (simp add: requested_def)
  moreover have "map item_key (es_stack (rq_engine s')) = map item_key (es_stack st)"
    using assms(1) item_key_rewireStack [of "ea_nodeName a" "ea_type a" "rq_engine s"] by (simp add: s'_def requested_def)
  moreover have "sn_nodeName sub = ea_nodeName a" using f(5) by (simp add: sub_key_def)
  ultimately have "requested w st (acts @ [a]) s'"
    using assms(1) f(1,3,4,5) by (simp add: requested_def s'_def)
  moreover have "same_shape w (rq_workflow s')" using assms(2) by (simp add: s'_def same_shape_rewireNode)
  ultimately show ?thesis using run by blast
qed

lemma requestActions_ok:
  assumes "\<forall>a \<in> set acts. wf_getNode w (ea_nodeName a) \<noteq> None" "requested w st done_acts s" "same_shape w (rq_workflow s)"
  shows "\<exists>s'. efold (requestAction cur r e) acts s = Inr s' \<and> requested w st (done_acts @ acts) s' \<and> same_shape w (rq_workflow s')"
  using assms
proof (induction acts arbitrary: done_acts s)
  case (Cons a acts)
  from Cons.prems(1) have "wf_getNode w (ea_nodeName a) \<noteq> None" by simp
  from requestAction_ok [OF Cons.prems(2,3) this] obtain s1 where
    s1: "requestAction cur r e a s = Inr s1" "requested w st (done_acts @ [a]) s1" "same_shape w (rq_workflow s1)" by blast
  with Cons.IH [OF _ s1(2,3)] Cons.prems(1) show ?case by auto
qed auto

lemma executeRequested_direct:
  assumes "w_executionOrder w = Some ''v1''" "wf_getNode w (c_node (tb_connection t)) = Some node"
    "numberOfInputs w (c_node (tb_connection t)) \<le> 1"
  shows "\<exists>item. executeRequested w t st = Inr (st\<lparr>es_stack := item # es_stack st\<rparr>) \<and> e_node item = node \<and>
    e_runIndex item = Some (tb_nodeRunIndex t) \<and> e_metadata item = Some (tb_metadata t)"
  using assms by (simp add: executeRequested_def addNodeToBeExecuted_def addDirectly_def enqueue_def) (intro exI conjI, rule refl, simp_all)

lemma executeRequested_all:
  assumes "w_executionOrder w = Some ''v1''"
    and "\<forall>t \<in> set ts. (\<exists>node. wf_getNode w (c_node (tb_connection t)) = Some node \<and> n_name node = c_node (tb_connection t)) \<and>
      numberOfInputs w (c_node (tb_connection t)) \<le> 1"
  shows "\<exists>items. efold (executeRequested w) ts st = Inr (st\<lparr>es_stack := rev items @ es_stack st\<rparr>) \<and>
    map item_key items = map (\<lambda>t. (c_node (tb_connection t), Some (tb_nodeRunIndex t))) ts \<and>
    map e_metadata items = map (\<lambda>t. Some (tb_metadata t)) ts"
  using assms(2)
proof (induction ts arbitrary: st)
  case Nil
  show ?case by (intro exI [of _ "[]"]) simp
next
  case (Cons t ts)
  from Cons.prems obtain node where node: "wf_getNode w (c_node (tb_connection t)) = Some node"
    "n_name node = c_node (tb_connection t)" "numberOfInputs w (c_node (tb_connection t)) \<le> 1" by auto
  from executeRequested_direct [OF assms(1) node(1,3), of st] obtain item where
    i: "executeRequested w t st = Inr (st\<lparr>es_stack := item # es_stack st\<rparr>)" "e_node item = node"
      "e_runIndex item = Some (tb_nodeRunIndex t)" "e_metadata item = Some (tb_metadata t)" by blast
  from Cons.IH [of "st\<lparr>es_stack := item # es_stack st\<rparr>"] Cons.prems obtain items where
    "efold (executeRequested w) ts (st\<lparr>es_stack := item # es_stack st\<rparr>) = Inr (st\<lparr>es_stack := rev items @ item # es_stack st\<rparr>)"
    "map item_key items = map (\<lambda>t. (c_node (tb_connection t), Some (tb_nodeRunIndex t))) ts"
    "map e_metadata items = map (\<lambda>t. Some (tb_metadata t)) ts" by auto
  then show ?case using i node(2) by (intro exI [of _ "item # items"]) (simp add: item_key_def [abs_def])
qed

lemma executeRequested_data:
  assumes "executeRequested w t st = Inr (st\<lparr>es_stack := item # es_stack st\<rparr>)"
    and "numberOfInputs w (c_node (tb_connection t)) \<le> 1" "w_executionOrder w = Some ''v1''" "c_index (tb_connection t) = 0"
    and "wf_getNode w (c_node (tb_connection t)) = Some node"
  shows "e_data item = [(Main, [outputOf (Some (tb_parentOutputData t)) (tb_parentOutputIndex t)])]"
proof -
  have "es_stack (case executeRequested w t st of Inr x \<Rightarrow> x) = item # es_stack st" using assms(1) by simp
  then show ?thesis using assms(2-)
    by (auto simp: executeRequested_def addNodeToBeExecuted_def addDirectly_def enqueue_def js_set_def)
qed

lemma handleRequest_ok:
  assumes "\<forall>a \<in> set (eq_actions q). wf_getNode w (ea_nodeName a) \<noteq> None"
    and "sourceAt e 0 = Some src" "previousNode src \<noteq> []" "map_of (e_data e) Main = Some inputs"
  shows "\<exists>s resume. handleRequest cur q r e w st = Inr (resume # rq_nodes s, rq_workflow s, rq_engine s) \<and>
    requested w st (eq_actions q) s \<and> same_shape w (rq_workflow s) \<and>
    c_node (tb_connection resume) = n_name (e_node e) \<and> c_index (tb_connection resume) = 0 \<and>
    tb_nodeRunIndex resume = r \<and> tb_parentOutputData resume = inputs \<and> tb_parentOutputIndex resume = 0 \<and>
    tm_subNodeExecutionData (tb_metadata resume) = Some (rq_subNodes s, eq_metadata q)"
proof -
  let ?s0 = "\<lparr>rq_workflow = w, rq_engine = st, rq_nodes = [], rq_subNodes = []\<rparr>"
  have "requested w st [] ?s0" by (simp add: requested_def)
  from requestActions_ok [OF assms(1) this, of cur r e] obtain s where
    s: "efold (requestAction cur r e) (eq_actions q) ?s0 = Inr s" "requested w st (eq_actions q) s" "same_shape w (rq_workflow s)" by auto
  obtain c p preserve preserved where "prepareRequestingNodeForResuming e = Some (c, p, preserve, preserved)"
    "c_node c = n_name (e_node e)" "c_index c = 0"
  proof -
    have "\<exists>c p preserve preserved. prepareRequestingNodeForResuming e = Some (c, p, preserve, preserved) \<and>
        c_node c = n_name (e_node e) \<and> c_index c = 0"
      using assms(2,3) by (cases "e_metadata e") (auto simp: prepareRequestingNodeForResuming_def Let_def ex_bool_eq)
    then show thesis using that by blast
  qed
  then show ?thesis using s assms(4) by (auto simp: handleRequest_def)
qed

lemma same_shape_named:
  assumes "same_shape w w'" "named_nodes w" "wf_getNode w nm \<noteq> None"
  shows "\<exists>node. wf_getNode w' nm = Some node \<and> n_name node = nm"
proof -
  from assms(3) obtain node where node: "wf_getNode w nm = Some node" by blast
  have "map_option n_name (wf_getNode w' nm) = map_option n_name (wf_getNode w nm)"
    using assms(1) by (simp add: same_shape_def)
  with node named_getNode [OF assms(2) node] show ?thesis by auto
qed

lemma same_shape_inputs: "same_shape w w' \<Longrightarrow> numberOfInputs w' nm = numberOfInputs w nm"
  by (simp add: same_shape_def numberOfInputs_def main_inputs_def)


lemma requestActions_unknown:
  assumes "\<exists>a \<in> set acts. wf_getNode w (ea_nodeName a) = None" "requested w st before s" "same_shape w (rq_workflow s)"
  shows "efold (requestAction cur r e) acts s = Inl (UnexpectedError ''Workflow does not contain a node with the name'')"
  using assms
proof (induction acts arbitrary: before s)
  case (Cons a acts)
  show ?case
  proof (cases "wf_getNode w (ea_nodeName a)")
    case None
    then have "wf_getNode (rq_workflow s) (ea_nodeName a) = None"
      using Cons.prems(3) unfolding same_shape_def by (metis map_option_is_None)
    then show ?thesis by (simp add: requestAction_def)
  next
    case (Some node)
    then have "wf_getNode w (ea_nodeName a) \<noteq> None" by simp
    from requestAction_ok [OF Cons.prems(2,3) this] obtain s1 where
      "requestAction cur r e a s = Inr s1" "requested w st (before @ [a]) s1" "same_shape w (rq_workflow s1)" by blast
    with Cons.IH [of "before @ [a]" s1] Cons.prems(1) Some show ?thesis by auto
  qed
qed simp


section \<open>What the code does besides\<close>

text \<open>At each further try the responses of the earlier tries are handed over once more.\<close>

lemma responses_repeat:
  "responsesAtTry n subNodes rd = concat (replicate (Suc n) (collectResponses subNodes rd []))"
proof (induction n)
  case (Suc n)
  have more_copies: "concat (replicate n ys) @ ys = ys @ concat (replicate n ys)" for ys :: "action_response list"
    by (induction n) simp_all
  have "responsesAtTry (Suc n) subNodes rd = responsesAtTry n subNodes rd @ collectResponses subNodes rd []"
    by (simp add: collectResponses_def)
  also have "\<dots> = concat (replicate (Suc (Suc n)) (collectResponses subNodes rd []))"
    unfolding Suc.IH by (simp add: more_copies)
  finally show ?case .
qed simp

text \<open>
  The source of the requested node is looked up under the number of the run. A node with one input has one
  source, so from its second run on the requested node is told that its data comes from the requesting
  node and its output 0, whatever the source is.
\<close>

lemma later_run_loses_source:
  assumes "e_source e = Some [(Main, [Some src])]" "r > 0" "\<not> customParent a" "e_metadata e = None"
    and "prepareAction cur r e a rd = (tbe, sub, rd')"
  shows "tm_preservedSourceOverwrite (tb_metadata tbe) =
    Some \<lparr>previousNode = n_name cur, previousNodeOutput = Some 0, previousNodeRun = Some 0\<rparr>"
proof -
  have "sourceAt e r = None" using assms(1,2) by (simp add: sourceAt_def js_get_def)
  with assms(3-) show ?thesis by (auto simp: prepareAction_def initializeNodeRunData_def Let_def parentRunIndexOf_def)
qed

section \<open>Witnesses\<close>

definition exAction :: "string \<Rightarrow> string \<Rightarrow> engine_action" where
  "exAction nm ident = \<lparr>ea_nodeName = nm, ea_input = [(''query'', JStr ''x'')], ea_type = AiTool, ea_id = ident,
     ea_parentNodeName = None, ea_itemIndex = None\<rparr>"

definition exRequest :: engine_request where
  "exRequest = \<lparr>eq_actions = [exAction ''B'' ''call1'', exAction ''B'' ''call2''], eq_metadata = JNull\<rparr>"

definition exAgent :: "node_item execute_data" where
  "exAgent = (exStackItem (mkNode 1 ''A'') [exItem])
     \<lparr>e_source := Some [(Main, [Some \<lparr>previousNode = ''T'', previousNodeOutput = Some 0, previousNodeRun = Some 0\<rparr>])]\<rparr>"

definition exEngine :: "node_item engine" where
  "exEngine = rs_engine (exStart exAgent [])"

lemma exLine_nodes:
  "wf_getNode exLine ''A'' = Some (mkNode 1 ''A'')" "wf_getNode exLine ''B'' = Some exNodeB" "named_nodes exLine"
  "numberOfInputs exLine ''A'' = 0" "numberOfInputs exLine ''B'' = 1"
proof -
  show "wf_getNode exLine ''A'' = Some (mkNode 1 ''A'')" "wf_getNode exLine ''B'' = Some exNodeB"
    by (simp_all add: exLine_def setConnections_def wf_getNode_def)
  show "named_nodes exLine" by (simp add: exLine_def setConnections_def named_nodes_def exNodeB_def mkNode_def)
  show "numberOfInputs exLine ''A'' = 0" "numberOfInputs exLine ''B'' = 1" by code_simp+
qed



end
