(* ===== verification/GraphUtils.thy ===== *)
theory GraphUtils imports Workflow_Types
begin

text \<open>
  The selection of nodes that can be extracted into a workflow of their own
  (\<open>workflow/src/graph/graph-utils.ts\<close>): the edges into and out of a selection, its roots and leaves, the search for
  a path, and the check \<open>parseExtractableSubgraphSelection\<close>. Sets of names are distinct lists in insertion
  order; a set of connections holds objects, which are all different, so it is a list. The lemmas show that the search
  decides reachability, that the check decides the condition its comment states, and that an accepted
  selection can be replaced by one node without a change to what the other nodes reach.
\<close>

section \<open>Sets and edges\<close>

type_synonym adjacency_list = "(string \<times> iconnection list) list"

datatype extraction_error =
    MultipleInputNodes "string list"
  | MultipleOutputNodes "string list"
  | InputEdgeToNonRootNode string
  | OutputEdgeFromNonLeafNode string
  | NoContinuousPathFromRootToLeaf string string

definition adjacent :: "adjacency_list \<Rightarrow> string \<Rightarrow> iconnection list" where
  "adjacent adj x = orElse (map_of adj x) []"

definition getInputEdges :: "string list \<Rightarrow> adjacency_list \<Rightarrow> (string \<times> iconnection) list" where
  "getInputEdges graphIds adj = concat (map (\<lambda>(x, tos). if x \<in> set graphIds then []
     else map (Pair x) (filter (\<lambda>c. c_node c \<in> set graphIds) tos)) adj)"

definition getOutputEdges :: "string list \<Rightarrow> adjacency_list \<Rightarrow> (string \<times> iconnection) list" where
  "getOutputEdges graphIds adj = concat (map (\<lambda>(x, tos). if x \<notin> set graphIds then []
     else map (Pair x) (filter (\<lambda>c. c_node c \<notin> set graphIds) tos)) adj)"

definition newSet :: "'a list \<Rightarrow> 'a list" where
  "newSet xs = saddAll xs []"

definition intersection :: "'a list \<Rightarrow> 'a list \<Rightarrow> 'a list" where
  "intersection a b = fold (\<lambda>x r. if x \<in> set b then sadd x r else r) a []"

definition union_sets :: "'a list \<Rightarrow> 'a list \<Rightarrow> 'a list" where
  "union_sets a b = saddAll b (saddAll a [])"

definition difference :: "'a list \<Rightarrow> 'a list \<Rightarrow> 'a list" where
  "difference minuend subtrahend = fold sdel subtrahend minuend"

text \<open>The nodes a node leads to over \<open>main\<close>, with and without itself.\<close>

definition mainTargets :: "adjacency_list \<Rightarrow> string \<Rightarrow> string list" where
  "mainTargets adj x = map c_node (filter (\<lambda>c. c_type c = Main) (adjacent adj x))"

definition otherTargets :: "adjacency_list \<Rightarrow> string \<Rightarrow> string list" where
  "otherTargets adj x = map c_node (filter (\<lambda>c. c_type c = Main \<and> c_node c \<noteq> x) (adjacent adj x))"

definition getRootNodes :: "string list \<Rightarrow> adjacency_list \<Rightarrow> string list" where
  "getRootNodes graphIds adj =
     difference graphIds (fold (\<lambda>x inner. union_sets inner (newSet (otherTargets adj x))) graphIds [])"

definition getLeafNodes :: "string list \<Rightarrow> adjacency_list \<Rightarrow> string list" where
  "getLeafNodes graphIds adj =
     fold (\<lambda>x r. if intersection (newSet (otherTargets adj x)) graphIds = [] then sadd x r else r) graphIds []"

lemma set_newSet [simp]: "set (newSet xs) = set xs"
  by (simp add: newSet_def)

lemma distinct_newSet [simp]: "distinct (newSet xs)"
  by (simp add: newSet_def)

lemma set_intersection [simp]: "set (intersection a b) = set a \<inter> set b"
proof -
  have "set (fold (\<lambda>x r. if x \<in> set b then sadd x r else r) a r) = set r \<union> set a \<inter> set b" for r
    by (induction a arbitrary: r) auto
  then show ?thesis by (simp add: intersection_def)
qed

lemma distinct_intersection [simp]: "distinct (intersection a b)"
proof -
  have "distinct (fold (\<lambda>x r. if x \<in> set b then sadd x r else r) a r)" if "distinct r" for r
    using that by (induction a arbitrary: r) auto
  then show ?thesis by (simp add: intersection_def)
qed

lemma set_union_sets [simp]: "set (union_sets a b) = set a \<union> set b"
  by (auto simp: union_sets_def)

lemma set_difference [simp]: "set (difference a b) = set a - set b"
proof -
  have "set (fold sdel b a) = set a - set b" by (induction b arbitrary: a) auto
  then show ?thesis by (simp add: difference_def)
qed

section \<open>The search for a path\<close>

text \<open>All names the search for a path can meet.\<close>

definition path_universe :: "adjacency_list \<Rightarrow> string list \<Rightarrow> string set" where
  "path_universe adj paths = set paths \<union> (\<Union>(x, tos) \<in> set adj. c_node ` set tos)"

lemma mainTargets_universe: "set (mainTargets adj x) \<subseteq> path_universe adj paths"
proof -
  have "set (adjacent adj x) \<subseteq> (\<Union>(x, tos) \<in> set adj. set tos)"
    by (cases "map_of adj x") (auto simp: adjacent_def dest!: map_of_SomeD)
  then show ?thesis by (auto simp: mainTargets_def path_universe_def)
qed

lemma path_universe_step:
  "path_universe adj (rev (difference (newSet (mainTargets adj x)) seen) @ paths) \<subseteq> path_universe adj (x # paths)"
  using mainTargets_universe [of adj x "x # paths"] by (auto simp: path_universe_def)

lemma finite_path_universe [simp]: "finite (path_universe adj paths)"
  by (auto simp: path_universe_def)

text \<open>
  The loop of \<open>hasPath\<close>: \<open>paths\<close> is the stack, its top first. A node can be on the stack more than once; a
  node taken a second time puts only nodes on the stack that were not taken before.
\<close>

function hasPathFrom :: "string \<Rightarrow> adjacency_list \<Rightarrow> string list \<Rightarrow> string list \<Rightarrow> bool" where
  "hasPathFrom target adj seen [] = False"
| "hasPathFrom target adj seen (x # paths) = (x = target \<or>
     hasPathFrom target adj (sadd x seen) (rev (difference (newSet (mainTargets adj x)) (sadd x seen)) @ paths))"
  by pat_completeness auto

termination
proof (relation "measures [\<lambda>(target, adj, seen, paths). card (path_universe adj paths - set seen),
    \<lambda>(target, adj, seen, paths). length (filter (\<lambda>x. x \<in> set seen) paths)]")
  fix target :: string and adj seen x and paths :: "string list"
  let ?new = "rev (difference (newSet (mainTargets adj x)) (sadd x seen)) @ paths"
  have less: "path_universe adj ?new \<subseteq> path_universe adj (x # paths)" by (rule path_universe_step)
  show "((target, adj, sadd x seen, ?new), target, adj, seen, x # paths)
    \<in> measures [\<lambda>(target, adj, seen, paths). card (path_universe adj paths - set seen),
        \<lambda>(target, adj, seen, paths). length (filter (\<lambda>x. x \<in> set seen) paths)]"
  proof (cases "x \<in> set seen")
    case True
    then have same: "set (sadd x seen) = set seen" by auto
    have "card (path_universe adj ?new - set seen) \<le> card (path_universe adj (x # paths) - set seen)"
      using less by (intro card_mono) auto
    moreover have "filter (\<lambda>y. y \<in> set seen) (rev (difference (newSet (mainTargets adj x)) (sadd x seen))) = []"
      unfolding filter_empty_conv using same by auto
    then have "length (filter (\<lambda>y. y \<in> set (sadd x seen)) ?new) < length (filter (\<lambda>y. y \<in> set seen) (x # paths))"
      using True unfolding same filter_append by simp
    ultimately show ?thesis unfolding in_measures prod.case same by linarith
  next
    case False
    have "path_universe adj ?new - set (sadd x seen) \<subset> path_universe adj (x # paths) - set seen"
      using less False by (auto simp: path_universe_def)
    then have "card (path_universe adj ?new - set (sadd x seen)) < card (path_universe adj (x # paths) - set seen)"
      by (intro psubset_card_mono) auto
    then show ?thesis unfolding in_measures prod.case by (rule disjI1)
  qed
qed simp

definition hasPath :: "string \<Rightarrow> string \<Rightarrow> adjacency_list \<Rightarrow> bool" where
  "hasPath start target adj = hasPathFrom target adj [] [start]"

section \<open>The table of connections as an adjacency list\<close>

definition addOrCreate :: "string \<Rightarrow> iconnection \<Rightarrow> adjacency_list \<Rightarrow> adjacency_list" where
  "addOrCreate k v adj = AList.update k (orElse (map_of adj k) [] @ [v]) adj"

definition addOutputs :: "string \<Rightarrow> node_input_connections \<Rightarrow> adjacency_list \<Rightarrow> adjacency_list" where
  "addOutputs x outs = fold (\<lambda>cs. fold (addOrCreate x) (orElse cs [])) outs"

definition buildAdjacencyList :: "iconnections \<Rightarrow> adjacency_list" where
  "buildAdjacencyList conns = fold (\<lambda>(x, byType). fold (\<lambda>(ty, outs). addOutputs x outs) byType) conns []"

section \<open>The check of a selection\<close>

definition falsy_name :: "string option \<Rightarrow> bool" where
  "falsy_name x \<longleftrightarrow> x = None \<or> x = Some []"

definition parseExtractableSubgraphSelection ::
  "string list \<Rightarrow> adjacency_list \<Rightarrow> extraction_error list + string option \<times> string option" where
  "parseExtractableSubgraphSelection graphIds adj =
     (let inputEdges = getInputEdges graphIds adj;
          inputNodes = newSet (map (\<lambda>x. c_node (snd x)) (filter (\<lambda>x. c_type (snd x) = Main) inputEdges));
          rootNodes = getRootNodes graphIds adj;
          rootNodes = (if rootNodes = [] \<and> length inputNodes = 1 then inputNodes else rootNodes);
          errors = map InputEdgeToNonRootNode (difference inputNodes rootNodes);
          rootInputNodes = intersection rootNodes inputNodes;
          errors = errors @ (if length rootInputNodes > 1 then [MultipleInputNodes rootInputNodes] else []);
          outputEdges = getOutputEdges graphIds adj;
          outputNodes = newSet (map fst (filter (\<lambda>x. c_type (snd x) = Main) outputEdges));
          leafNodes = getLeafNodes graphIds adj;
          leafNodes = (if leafNodes = [] \<and> length outputNodes = 1 then outputNodes else leafNodes);
          errors = errors @ map OutputEdgeFromNonLeafNode (difference outputNodes leafNodes);
          leafOutputNodes = intersection leafNodes outputNodes;
          errors = errors @ (if length leafOutputNodes > 1 then [MultipleOutputNodes leafOutputNodes] else []);
          start = js_get rootInputNodes 0;
          end_node = js_get leafOutputNodes 0;
          errors = errors @ (if \<not> falsy_name start \<and> \<not> falsy_name end_node \<and> \<not> hasPath (the start) (the end_node) adj
            then [NoContinuousPathFromRootToLeaf (the start) (the end_node)] else [])
      in if errors \<noteq> [] then Inl errors else Inr (start, end_node))"

section \<open>The search decides reachability\<close>

definition edges_of :: "adjacency_list \<Rightarrow> (string \<times> string) set" where
  "edges_of adj = {(u, v). v \<in> set (mainTargets adj u)}"

lemma hasPathFrom_sound: "hasPathFrom target adj seen paths \<Longrightarrow> \<exists>x \<in> set paths. (x, target) \<in> (edges_of adj)\<^sup>*"
proof (induction target adj seen paths rule: hasPathFrom.induct)
  case (2 target adj seen x paths)
  show ?case
  proof (cases "x = target")
    case False
    with 2 obtain y where y: "y \<in> set (difference (newSet (mainTargets adj x)) (sadd x seen)) \<union> set paths"
      "(y, target) \<in> (edges_of adj)\<^sup>*" by auto
    from y(1) have "(x, y) \<in> edges_of adj \<or> y \<in> set paths" by (auto simp: edges_of_def)
    with y(2) show ?thesis by (auto intro: converse_rtrancl_into_rtrancl)
  qed auto
qed simp

text \<open>When the search fails, what was seen is closed under the edges.\<close>

lemma hasPathFrom_complete:
  assumes "\<not> hasPathFrom target adj seen paths" "target \<notin> set seen"
    and "\<And>u v. u \<in> set seen \<Longrightarrow> (u, v) \<in> edges_of adj \<Longrightarrow> v \<in> set seen \<union> set paths"
  shows "\<exists>closed. set seen \<union> set paths \<subseteq> closed \<and> target \<notin> closed \<and> (\<forall>u \<in> closed. \<forall>v. (u, v) \<in> edges_of adj \<longrightarrow> v \<in> closed)"
  using assms
proof (induction target adj seen paths rule: hasPathFrom.induct)
  case (1 target adj seen)
  then show ?case by (intro exI [of _ "set seen"]) auto
next
  case (2 target adj seen x paths)
  let ?new = "rev (difference (newSet (mainTargets adj x)) (sadd x seen)) @ paths"
  from "2.prems"(1) have next_step: "x \<noteq> target" "\<not> hasPathFrom target adj (sadd x seen) ?new" by auto
  have "\<exists>closed. set (sadd x seen) \<union> set ?new \<subseteq> closed \<and> target \<notin> closed \<and>
      (\<forall>u \<in> closed. \<forall>v. (u, v) \<in> edges_of adj \<longrightarrow> v \<in> closed)"
  proof (rule "2.IH")
    show "\<not> hasPathFrom target adj (sadd x seen) ?new" by (rule next_step(2))
    show "target \<notin> set (sadd x seen)" using next_step(1) "2.prems"(2) by auto
    show "v \<in> set (sadd x seen) \<union> set ?new" if "u \<in> set (sadd x seen)" "(u, v) \<in> edges_of adj" for u v
    proof (cases "u = x")
      case True
      with that(2) show ?thesis by (auto simp: edges_of_def)
    next
      case False
      with that "2.prems"(3) [of u v] show ?thesis by auto
    qed
  qed
  then show ?case by auto
qed

lemma hasPath_edges: "hasPath start target adj \<longleftrightarrow> (start, target) \<in> (edges_of adj)\<^sup>*"
proof
  assume "hasPath start target adj"
  from hasPathFrom_sound [OF this [unfolded hasPath_def]] show "(start, target) \<in> (edges_of adj)\<^sup>*" by simp
next
  assume path: "(start, target) \<in> (edges_of adj)\<^sup>*"
  show "hasPath start target adj"
  proof (rule ccontr)
    assume "\<not> hasPath start target adj"
    then have "\<not> hasPathFrom target adj [] [start]" by (simp add: hasPath_def)
    from hasPathFrom_complete [OF this] obtain closed where
      c: "start \<in> closed" "target \<notin> closed" "\<forall>u \<in> closed. \<forall>v. (u, v) \<in> edges_of adj \<longrightarrow> v \<in> closed" by auto
    from path have "target \<in> closed" using c(1,3) by (induction rule: rtrancl_induct) auto
    with c(2) show False ..
  qed
qed

section \<open>The edges of the table of connections\<close>

text \<open>The edges of a table of connections, read off its entries. The kind of an edge is the one its target has.\<close>

definition main_edges :: "iconnections \<Rightarrow> (string \<times> string) set" where
  "main_edges conns = {(u, v). \<exists>byType ty outs cs c. (u, byType) \<in> set conns \<and> (ty, outs) \<in> set byType \<and>
     Some cs \<in> set outs \<and> c \<in> set cs \<and> c_type c = Main \<and> c_node c = v}"

lemma adjacent_addOrCreate: "set (adjacent (addOrCreate k v adj) x) = (if x = k then {v} else {}) \<union> set (adjacent adj x)"
  by (auto simp: adjacent_def addOrCreate_def)

lemma adjacent_addAll: "set (adjacent (fold (addOrCreate k) cs adj) x) = (if x = k then set cs else {}) \<union> set (adjacent adj x)"
  by (induction cs arbitrary: adj) (auto simp: adjacent_addOrCreate)

lemma adjacent_addOutputs:
  "set (adjacent (addOutputs k outs adj) x) = (if x = k then \<Union>cs \<in> set outs. set (orElse cs []) else {}) \<union> set (adjacent adj x)"
  by (induction outs arbitrary: adj) (auto simp: addOutputs_def adjacent_addAll)

lemma adjacent_addTypes: "set (adjacent (fold (\<lambda>(ty, outs). addOutputs k outs) byType adj) x) =
   (if x = k then \<Union>(ty, outs) \<in> set byType. \<Union>cs \<in> set outs. set (orElse cs []) else {}) \<union> set (adjacent adj x)"
  by (induction byType arbitrary: adj) (auto simp: adjacent_addOutputs split: prod.splits)

lemma adjacent_build: "set (adjacent (buildAdjacencyList conns) x) =
   (\<Union>(y, byType) \<in> set conns. if x = y then \<Union>(ty, outs) \<in> set byType. \<Union>cs \<in> set outs. set (orElse cs []) else {})"
proof -
  have "set (adjacent (fold (\<lambda>(k, byType). fold (\<lambda>(ty, outs). addOutputs k outs) byType) conns adj) x) =
     (\<Union>(y, byType) \<in> set conns. if x = y then \<Union>(ty, outs) \<in> set byType. \<Union>cs \<in> set outs. set (orElse cs []) else {}) \<union>
     set (adjacent adj x)" for adj
    by (induction conns arbitrary: adj) (auto simp: adjacent_addTypes split: prod.splits)
  then show ?thesis by (simp add: buildAdjacencyList_def adjacent_def)
qed

lemma adjacent_build_iff: "c \<in> set (adjacent (buildAdjacencyList conns) u) \<longleftrightarrow>
   (\<exists>byType ty outs cs. (u, byType) \<in> set conns \<and> (ty, outs) \<in> set byType \<and> Some cs \<in> set outs \<and> c \<in> set cs)"
proof -
  have mem: "c \<in> set (orElse cs []) \<longleftrightarrow> (\<exists>xs. cs = Some xs \<and> c \<in> set xs)" for cs
    by (cases cs) auto
  have outs: "c \<in> (\<Union>cs \<in> set outs. set (orElse cs [])) \<longleftrightarrow> (\<exists>xs. Some xs \<in> set outs \<and> c \<in> set xs)" for outs
    by (simp add: mem) blast
  have pick: "c \<in> (\<Union>(y, b) \<in> S. if u = y then A b else {}) \<longleftrightarrow> (\<exists>b. (u, b) \<in> S \<and> c \<in> A b)"
    for S :: "(string \<times> inode_connections) set" and A
    by (simp add: Bex_def split_paired_Ex if_distrib [of "\<lambda>X. c \<in> X"] cong: if_cong)
  have types: "c \<in> (\<Union>(ty, outs) \<in> T. B outs) \<longleftrightarrow> (\<exists>ty outs. (ty, outs) \<in> T \<and> c \<in> B outs)"
    for T :: "(node_connection_type \<times> node_input_connections) set" and B by auto
  show ?thesis unfolding adjacent_build pick types outs by blast
qed

lemma edges_of_build: "edges_of (buildAdjacencyList conns) = main_edges conns"
proof -
  have "(u, v) \<in> edges_of (buildAdjacencyList conns) \<longleftrightarrow>
      (\<exists>c \<in> set (adjacent (buildAdjacencyList conns) u). c_type c = Main \<and> c_node c = v)" for u v
    by (auto simp: edges_of_def mainTargets_def)
  then have "(u, v) \<in> edges_of (buildAdjacencyList conns) \<longleftrightarrow> (u, v) \<in> main_edges conns" for u v
    unfolding main_edges_def mem_Collect_eq prod.case Bex_def adjacent_build_iff by blast
  then show ?thesis by auto
qed

lemma keys_build: "distinct (map fst (buildAdjacencyList conns))"
proof -
  have one: "distinct (map fst adj) \<Longrightarrow> distinct (map fst (fold (addOrCreate k) cs adj))" for k cs adj
    by (induction cs arbitrary: adj) (auto simp: addOrCreate_def distinct_update)
  have outs: "distinct (map fst adj) \<Longrightarrow> distinct (map fst (addOutputs k outs adj))" for k outs adj
    by (induction outs arbitrary: adj) (auto simp: addOutputs_def one)
  have types: "distinct (map fst adj) \<Longrightarrow> distinct (map fst (fold (\<lambda>(ty, outs). addOutputs k outs) byType adj))" for k byType adj
    by (induction byType arbitrary: adj) (auto simp: outs split: prod.splits)
  have "distinct (map fst adj) \<Longrightarrow> distinct (map fst (fold (\<lambda>(x, byType). fold (\<lambda>(ty, outs). addOutputs x outs) byType) conns adj))" for adj
    by (induction conns arbitrary: adj) (auto simp: types split: prod.splits)
  then show ?thesis by (simp add: buildAdjacencyList_def)
qed

text \<open>
  The search of \<open>hasPath\<close> ends on every table of connections, loops included, and finds a path exactly
  where there is one over connections of kind \<open>main\<close>.
\<close>

lemma hasPath_reachable:
  "hasPath start target (buildAdjacencyList conns) \<longleftrightarrow> (start, target) \<in> (main_edges conns)\<^sup>*"
  by (simp add: hasPath_edges edges_of_build)

section \<open>The check decides its condition\<close>

text \<open>The sets the check computes, over the edges.\<close>

definition entries :: "string set \<Rightarrow> (string \<times> string) set \<Rightarrow> string set" where
  "entries G E = {v \<in> G. \<exists>u. u \<notin> G \<and> (u, v) \<in> E}"

definition exits :: "string set \<Rightarrow> (string \<times> string) set \<Rightarrow> string set" where
  "exits G E = {u \<in> G. \<exists>v. v \<notin> G \<and> (u, v) \<in> E}"

definition roots :: "string set \<Rightarrow> (string \<times> string) set \<Rightarrow> string set" where
  "roots G E = {v \<in> G. \<nexists>u. u \<in> G \<and> u \<noteq> v \<and> (u, v) \<in> E}"

definition leaves :: "string set \<Rightarrow> (string \<times> string) set \<Rightarrow> string set" where
  "leaves G E = {u \<in> G. \<nexists>v. v \<in> G \<and> v \<noteq> u \<and> (u, v) \<in> E}"

text \<open>
  The condition in the comment of the check: at most one node with input from outside, a root; at most one with
  output to the outside, a leaf; and a path between them if both exist. A selection that is one loop
  has no root and no leaf, and its only entry, its only exit, counts as such.
\<close>

definition extractable :: "string set \<Rightarrow> (string \<times> string) set \<Rightarrow> bool" where
  "extractable G E \<longleftrightarrow> card (entries G E) \<le> 1 \<and> (roots G E = {} \<or> entries G E \<subseteq> roots G E) \<and>
     card (exits G E) \<le> 1 \<and> (leaves G E = {} \<or> exits G E \<subseteq> leaves G E) \<and>
     (\<forall>s \<in> entries G E. \<forall>t \<in> exits G E. s \<noteq> [] \<and> t \<noteq> [] \<longrightarrow> (s, t) \<in> E\<^sup>*)"

lemma edge_adjacent:
  assumes "distinct (map fst adj)"
  shows "(u, v) \<in> edges_of adj \<longleftrightarrow> (\<exists>tos c. (u, tos) \<in> set adj \<and> c \<in> set tos \<and> c_type c = Main \<and> c_node c = v)"
proof (cases "map_of adj u")
  case None
  then have "u \<notin> fst ` set adj" by (simp add: map_of_eq_None_iff)
  then show ?thesis using None by (force simp: edges_of_def mainTargets_def adjacent_def)
next
  case (Some tos)
  then have "(u, tos') \<in> set adj \<longleftrightarrow> tos' = tos" for tos'
    using assms by (metis map_of_is_SomeI map_of_SomeD option.inject)
  with Some show ?thesis by (auto simp: edges_of_def mainTargets_def adjacent_def)
qed

lemma getInputEdges_iff: "(u, c) \<in> set (getInputEdges G adj) \<longleftrightarrow>
   (\<exists>tos. (u, tos) \<in> set adj \<and> u \<notin> set G \<and> c \<in> set tos \<and> c_node c \<in> set G)"
  by (auto simp: getInputEdges_def split: if_splits)

lemma getOutputEdges_iff: "(u, c) \<in> set (getOutputEdges G adj) \<longleftrightarrow>
   (\<exists>tos. (u, tos) \<in> set adj \<and> u \<in> set G \<and> c \<in> set tos \<and> c_node c \<notin> set G)"
  by (auto simp: getOutputEdges_def split: if_splits)

lemma set_inputNodes:
  assumes "distinct (map fst adj)"
  shows "set (newSet (map (\<lambda>x. c_node (snd x)) (filter (\<lambda>x. c_type (snd x) = Main) (getInputEdges G adj)))) =
    entries (set G) (edges_of adj)" (is "set ?l = _")
proof -
  have "v \<in> set ?l \<longleftrightarrow> (\<exists>u c. (u, c) \<in> set (getInputEdges G adj) \<and> c_type c = Main \<and> c_node c = v)" for v
    by force
  then have "v \<in> set ?l \<longleftrightarrow> v \<in> entries (set G) (edges_of adj)" for v
    unfolding getInputEdges_iff entries_def mem_Collect_eq edge_adjacent [OF assms] by (simp only:) metis
  then show ?thesis by blast
qed

lemma set_outputNodes:
  assumes "distinct (map fst adj)"
  shows "set (newSet (map fst (filter (\<lambda>x. c_type (snd x) = Main) (getOutputEdges G adj)))) =
    exits (set G) (edges_of adj)" (is "set ?l = _")
proof -
  have "u \<in> set ?l \<longleftrightarrow> (\<exists>c. (u, c) \<in> set (getOutputEdges G adj) \<and> c_type c = Main)" for u
    by force
  then have "u \<in> set ?l \<longleftrightarrow> u \<in> exits (set G) (edges_of adj)" for u
    unfolding getOutputEdges_iff exits_def mem_Collect_eq edge_adjacent [OF assms] by blast
  then show ?thesis by blast
qed

lemma otherTargets_edges: "set (otherTargets adj x) = {y. (x, y) \<in> edges_of adj \<and> y \<noteq> x}"
  by (auto simp: otherTargets_def edges_of_def mainTargets_def)

lemma set_getRootNodes: "set (getRootNodes G adj) = roots (set G) (edges_of adj)"
proof -
  have "set (fold (\<lambda>x inner. union_sets inner (newSet (otherTargets adj x))) xs r) =
      set r \<union> (\<Union>x \<in> set xs. set (otherTargets adj x))" for xs r
    by (induction xs arbitrary: r) auto
  then show ?thesis by (auto simp: getRootNodes_def roots_def otherTargets_edges)
qed

lemma set_getLeafNodes: "set (getLeafNodes G adj) = leaves (set G) (edges_of adj)"
proof -
  have none: "intersection (newSet (otherTargets adj x)) G = [] \<longleftrightarrow> \<not> (\<exists>y. y \<in> set G \<and> y \<noteq> x \<and> (x, y) \<in> edges_of adj)" for x
    unfolding set_empty [symmetric] set_intersection set_newSet otherTargets_edges by blast
  have "set (fold (\<lambda>x r. if intersection (newSet (otherTargets adj x)) G = [] then sadd x r else r) xs r) =
      set r \<union> {x \<in> set xs. intersection (newSet (otherTargets adj x)) G = []}" for xs r
    by (induction xs arbitrary: r) auto
  then show ?thesis by (auto simp: getLeafNodes_def leaves_def none)
qed


text \<open>The choice of the roots and leaves that are allowed, and what is left when no error is found.\<close>

lemma length_distinct_card: "distinct xs \<Longrightarrow> length xs = card (set xs)"
  by (simp add: distinct_card)

lemma allowed_nodes:
  assumes "set xs = In" "set rs = R" "In \<subseteq> G" "R \<subseteq> G" "distinct xs"
    and "ys = (if rs = [] \<and> length xs = 1 then xs else rs)"
  shows "difference xs ys = [] \<and> length (intersection ys xs) \<le> 1 \<longleftrightarrow> card In \<le> 1 \<and> (R = {} \<or> In \<subseteq> R)"
    and "difference xs ys = [] \<Longrightarrow> set (intersection ys xs) = In"
proof -
  have len: "length xs = card In" "length (intersection ys xs) = card (set ys \<inter> In)"
    using assms(1,5) distinct_card [of xs] distinct_card [of "intersection ys xs"] by simp_all
  have nil: "difference xs ys = [] \<longleftrightarrow> In \<subseteq> set ys"
    unfolding set_empty [symmetric] set_difference assms(1) by blast
  have fin: "finite In" using assms(1) by auto
  have emp: "rs = [] \<longleftrightarrow> R = {}" using assms(2) by auto
  show "difference xs ys = [] \<and> length (intersection ys xs) \<le> 1 \<longleftrightarrow> card In \<le> 1 \<and> (R = {} \<or> In \<subseteq> R)"
  proof (cases "R = {} \<and> card In = 1")
    case True
    then have "ys = xs" using assms(6) emp len(1) by simp
    with True assms(1) nil len show ?thesis by simp
  next
    case False
    then have ys: "set ys = R" using assms(2,6) emp len(1) by (auto split: if_splits)
    show ?thesis
    proof (cases "In \<subseteq> R")
      case True
      then have "R \<inter> In = In" by blast
      with True show ?thesis unfolding nil len ys by simp
    next
      case nsub: False
      have "\<not> (card In \<le> 1 \<and> R = {})"
      proof
        assume a: "card In \<le> 1 \<and> R = {}"
        with False have "card In = 0" by linarith
        with fin nsub show False by auto
      qed
      with nsub show ?thesis unfolding nil len ys by blast
    qed
  qed
  show "difference xs ys = [] \<Longrightarrow> set (intersection ys xs) = In"
    using nil assms(1) by auto
qed

lemma js_get_0_set: "length xs \<le> 1 \<Longrightarrow> set_option (js_get xs 0) = set xs"
  by (cases xs) auto

lemma extraction_decided:
  assumes "distinct (map fst adj)"
  shows "case parseExtractableSubgraphSelection G adj of
      Inl errors \<Rightarrow> errors \<noteq> [] \<and> \<not> extractable (set G) (edges_of adj)
    | Inr (s, t) \<Rightarrow> extractable (set G) (edges_of adj) \<and> set_option s = entries (set G) (edges_of adj) \<and>
        set_option t = exits (set G) (edges_of adj)"
proof -
  let ?G = "set G" and ?E = "edges_of adj"
  define ins where "ins = newSet (map (\<lambda>x. c_node (snd x)) (filter (\<lambda>x. c_type (snd x) = Main) (getInputEdges G adj)))"
  define outs where "outs = newSet (map fst (filter (\<lambda>x. c_type (snd x) = Main) (getOutputEdges G adj)))"
  define rts where "rts = (if getRootNodes G adj = [] \<and> length ins = 1 then ins else getRootNodes G adj)"
  define lvs where "lvs = (if getLeafNodes G adj = [] \<and> length outs = 1 then outs else getLeafNodes G adj)"
  let ?ri = "intersection rts ins" and ?lo = "intersection lvs outs"
  let ?s = "js_get ?ri 0" and ?t = "js_get ?lo 0"
  let ?e1 = "map InputEdgeToNonRootNode (difference ins rts)" and ?e2 = "if length ?ri > 1 then [MultipleInputNodes ?ri] else []"
  let ?e3 = "map OutputEdgeFromNonLeafNode (difference outs lvs)" and ?e4 = "if length ?lo > 1 then [MultipleOutputNodes ?lo] else []"
  let ?e5 = "if \<not> falsy_name ?s \<and> \<not> falsy_name ?t \<and> \<not> hasPath (the ?s) (the ?t) adj
    then [NoContinuousPathFromRootToLeaf (the ?s) (the ?t)] else []"
  let ?errors = "(((?e1 @ ?e2) @ ?e3) @ ?e4) @ ?e5"
  have parse: "parseExtractableSubgraphSelection G adj = (if ?errors \<noteq> [] then Inl ?errors else Inr (?s, ?t))"
    unfolding parseExtractableSubgraphSelection_def Let_def ins_def outs_def rts_def lvs_def by (rule refl)
  have i: "set ins = entries ?G ?E" "distinct ins" unfolding ins_def by (rule set_inputNodes [OF assms], rule distinct_newSet)
  have o': "set outs = exits ?G ?E" "distinct outs" unfolding outs_def by (rule set_outputNodes [OF assms], rule distinct_newSet)
  note ri = allowed_nodes [OF i(1) set_getRootNodes _ _ i(2) rts_def]
  note lo = allowed_nodes [OF o'(1) set_getLeafNodes _ _ o'(2) lvs_def]
  have sub: "entries ?G ?E \<subseteq> ?G" "roots ?G ?E \<subseteq> ?G" "exits ?G ?E \<subseteq> ?G" "leaves ?G ?E \<subseteq> ?G"
    by (auto simp: entries_def roots_def exits_def leaves_def)
  have in_ok: "?e1 = [] \<and> ?e2 = [] \<longleftrightarrow> card (entries ?G ?E) \<le> 1 \<and> (roots ?G ?E = {} \<or> entries ?G ?E \<subseteq> roots ?G ?E)"
    using ri(1) [OF sub(1,2)] by auto
  have out_ok: "?e3 = [] \<and> ?e4 = [] \<longleftrightarrow> card (exits ?G ?E) \<le> 1 \<and> (leaves ?G ?E = {} \<or> exits ?G ?E \<subseteq> leaves ?G ?E)"
    using lo(1) [OF sub(3,4)] by auto
  show ?thesis
  proof (cases "(?e1 = [] \<and> ?e2 = []) \<and> (?e3 = [] \<and> ?e4 = [])")
    case False
    then have "\<not> extractable ?G ?E" unfolding in_ok out_ok extractable_def by blast
    moreover from False have "?errors \<noteq> []" by blast
    ultimately show ?thesis unfolding parse by (simp only: if_True sum.case simp_thms)
  next
    case True
    then have "length ?ri \<le> 1" "length ?lo \<le> 1" "difference ins rts = []" "difference outs lvs = []" by (auto split: if_splits)
    then have st: "set_option ?s = entries ?G ?E" "set_option ?t = exits ?G ?E"
      using ri(2) [OF sub(1,2)] lo(2) [OF sub(3,4)] js_get_0_set by metis+
    have "?e5 = [] \<longleftrightarrow> (\<forall>s \<in> set_option ?s. \<forall>t \<in> set_option ?t. s \<noteq> [] \<and> t \<noteq> [] \<longrightarrow> (s, t) \<in> ?E\<^sup>*)"
      by (cases ?s; cases ?t) (auto simp: falsy_name_def hasPath_edges)
    then have "?e5 = [] \<longleftrightarrow> extractable ?G ?E" using True in_ok out_ok unfolding st extractable_def by blast
    moreover have "?errors = [] \<longleftrightarrow> ?e5 = []" using True by simp
    ultimately show ?thesis unfolding parse using st by simp
  qed
qed

text \<open>
  C40: the check accepts a selection exactly when the condition of its comment holds, whatever the selection
  and the table are; an accepted selection comes with its entry and its exit, a rejected one with at
  least one error.
\<close>

theorem extraction_check_exact:
  "case parseExtractableSubgraphSelection G (buildAdjacencyList conns) of
      Inl errors \<Rightarrow> errors \<noteq> [] \<and> \<not> extractable (set G) (main_edges conns)
    | Inr (s, t) \<Rightarrow> extractable (set G) (main_edges conns) \<and> set_option s = entries (set G) (main_edges conns) \<and>
        set_option t = exits (set G) (main_edges conns)"
  using extraction_decided [OF keys_build, of G conns] unfolding edges_of_build .

section \<open>An accepted selection can be replaced by one node\<close>

text \<open>The edges when the nodes \<open>G\<close> are replaced by the one node \<open>n\<close>.\<close>

definition contract :: "string set \<Rightarrow> string \<Rightarrow> (string \<times> string) set \<Rightarrow> (string \<times> string) set" where
  "contract G n E = {(u, v) \<in> E. u \<notin> G \<and> v \<notin> G} \<union> {(u, n) | u. u \<notin> G \<and> (\<exists>v \<in> G. (u, v) \<in> E)} \<union>
     {(n, v) | v. v \<notin> G \<and> (\<exists>u \<in> G. (u, v) \<in> E)}"

text \<open>A path out of the selection leaves it over an exit.\<close>

lemma path_to_exit:
  assumes "(u, v) \<in> E\<^sup>*" "u \<in> G" "v \<notin> G"
  shows "\<exists>t w. t \<in> exits G E \<and> (t, w) \<in> E \<and> w \<notin> G \<and> (w, v) \<in> E\<^sup>*"
  using assms
proof (induction rule: converse_rtrancl_induct)
  case (step u x)
  then show ?case
  proof (cases "x \<in> G")
    case False
    with step have "u \<in> exits G E" by (auto simp: exits_def)
    with step False show ?thesis by blast
  qed blast
qed simp

lemma contract_path:
  assumes path: "(u, v) \<in> E\<^sup>*" and "v \<notin> G" "n \<notin> Field E \<union> G"
  shows "(if u \<in> G then n else u, v) \<in> (contract G n E)\<^sup>*"
  using path
proof (induction rule: converse_rtrancl_induct)
  case base
  with \<open>v \<notin> G\<close> show ?case by simp
next
  case (step u x)
  let ?c = "\<lambda>y. if y \<in> G then n else y"
  have "(?c u, ?c x) \<in> (contract G n E)\<^sup>="
    using step.hyps(1) by (auto simp: contract_def)
  with step.IH show ?case by (metis reflcl_set_eq rtrancl_reflcl r_into_rtrancl rtrancl_trans)
qed

lemma uncontract_path:
  assumes "(u, v) \<in> (contract G n E)\<^sup>*" "u \<notin> G" "v \<notin> G" "n \<notin> Field E \<union> G" "v \<noteq> n"
    and within: "\<And>s t. s \<in> entries G E \<Longrightarrow> t \<in> exits G E \<Longrightarrow> (s, t) \<in> E\<^sup>*"
  shows "if u = n then \<exists>t w. t \<in> exits G E \<and> (t, w) \<in> E \<and> (w, v) \<in> E\<^sup>* else (u, v) \<in> E\<^sup>*"
  using assms(1,2)
proof (induction rule: converse_rtrancl_induct)
  case base
  with \<open>v \<noteq> n\<close> show ?case by simp
next
  case (step u x)
  from step.hyps(1) consider
      (outside) "(u, x) \<in> E" "u \<notin> G" "x \<notin> G"
    | (enter) y where "x = n" "u \<notin> G" "y \<in> G" "(u, y) \<in> E"
    | (leave) y where "u = n" "x \<notin> G" "y \<in> G" "(y, x) \<in> E"
    unfolding contract_def by blast
  then show ?case
  proof cases
    case outside
    then have "u \<noteq> n" "x \<noteq> n" using assms(4) by (auto simp: Field_def)
    with step.IH outside show ?thesis by (auto intro: converse_rtrancl_into_rtrancl)
  next
    case enter
    then have "u \<noteq> n" "y \<in> entries G E" using assms(4) by (auto simp: Field_def entries_def)
    moreover have "\<exists>t w. t \<in> exits G E \<and> (t, w) \<in> E \<and> (w, v) \<in> E\<^sup>*" using step.IH enter(1) assms(4) by simp
    ultimately show ?thesis
      using within enter(4) by (metis converse_rtrancl_into_rtrancl rtrancl_trans)
  next
    case leave
    then have "y \<in> exits G E" "x \<noteq> n" using assms(4) by (auto simp: exits_def Field_def)
    with step.IH leave show ?thesis by auto
  qed
qed

text \<open>
  C37: an accepted selection can be replaced by a single node: of the nodes outside of it, the same ones
  reach each other over \<open>main\<close> connections as before.
\<close>

theorem extraction_keeps_reachability:
  assumes "parseExtractableSubgraphSelection G (buildAdjacencyList conns) = Inr (start, end_node)"
    and "[] \<notin> set G" "n \<notin> Field (main_edges conns) \<union> set G" "u \<notin> set G \<union> {n}" "v \<notin> set G \<union> {n}"
  shows "(u, v) \<in> (contract (set G) n (main_edges conns))\<^sup>* \<longleftrightarrow> (u, v) \<in> (main_edges conns)\<^sup>*"
proof -
  let ?E = "main_edges conns"
  have "extractable (set G) ?E"
    using extraction_decided [OF keys_build, of G conns] assms(1) unfolding edges_of_build by simp
  moreover have "entries (set G) ?E \<subseteq> set G" "exits (set G) ?E \<subseteq> set G" by (auto simp: entries_def exits_def)
  ultimately have within: "(s, t) \<in> ?E\<^sup>*" if "s \<in> entries (set G) ?E" "t \<in> exits (set G) ?E" for s t
    using assms(2) that unfolding extractable_def by (metis in_mono)
  show ?thesis
  proof
    assume "(u, v) \<in> (contract (set G) n ?E)\<^sup>*"
    from uncontract_path [OF this _ _ assms(3) _ within] assms(4,5) show "(u, v) \<in> ?E\<^sup>*" by auto
  next
    assume "(u, v) \<in> ?E\<^sup>*"
    from contract_path [OF this _ assms(3)] assms(4,5) show "(u, v) \<in> (contract (set G) n ?E)\<^sup>*" by auto
  qed
qed

text \<open>
  From its entry to its exit an accepted selection is connected by itself: the search runs over the whole
  workflow, but the path it stands for stays within the selection.
\<close>

lemma extraction_path_inside:
  assumes "parseExtractableSubgraphSelection G (buildAdjacencyList conns) = Inr (Some s, Some t)" "s \<noteq> []" "t \<noteq> []"
  shows "(s, t) \<in> {(u, v) \<in> main_edges conns. u \<in> set G \<and> v \<in> set G}\<^sup>*"
proof -
  let ?E = "main_edges conns" and ?In = "{(u, v) \<in> main_edges conns. u \<in> set G \<and> v \<in> set G}"
  have ex: "extractable (set G) ?E" "{s} = entries (set G) ?E" "{t} = exits (set G) ?E"
    using extraction_decided [OF keys_build, of G conns] assms(1) unfolding edges_of_build by simp_all
  then have "s \<in> entries (set G) ?E" "t \<in> exits (set G) ?E" by blast+
  with ex(1) assms(2,3) have path: "(s, t) \<in> ?E\<^sup>*" and "s \<in> set G" and inside: "t \<in> set G"
    unfolding extractable_def by (auto simp: entries_def exits_def)
  from path \<open>s \<in> set G\<close> show ?thesis
  proof (induction rule: converse_rtrancl_induct)
    case (step x y)
    show ?case
    proof (cases "y \<in> set G")
      case True
      with step show ?thesis by (auto intro: converse_rtrancl_into_rtrancl)
    next
      case False
      with step have "x \<in> exits (set G) ?E" by (auto simp: exits_def)
      with ex(3) have "x = t" by blast
      then show ?thesis by simp
    qed
  qed simp
qed

section \<open>Witnesses\<close>

text \<open>\<open>A\<close> leads to \<open>B\<close>, \<open>B\<close> to \<open>C\<close>, \<open>C\<close> to itself and to \<open>D\<close>; \<open>B\<close> and \<open>C\<close> are selected.\<close>

definition exTable :: iconnections where
  "exTable = [(''A'', [(Main, [Some [\<lparr>c_node = ''B'', c_type = Main, c_index = 0\<rparr>]])]),
     (''B'', [(Main, [Some [\<lparr>c_node = ''C'', c_type = Main, c_index = 0\<rparr>]])]),
     (''C'', [(Main, [Some [\<lparr>c_node = ''D'', c_type = Main, c_index = 0\<rparr>], Some [\<lparr>c_node = ''C'', c_type = Main, c_index = 0\<rparr>]])])]"

lemma exTable_edges: "main_edges exTable = {(''A'', ''B''), (''B'', ''C''), (''C'', ''D''), (''C'', ''C'')}"
  by (auto simp: main_edges_def exTable_def conj_disj_distribR ex_disj_distrib)

lemma exTable_accepted:
  "parseExtractableSubgraphSelection [''B'', ''C''] (buildAdjacencyList exTable) = Inr (Some ''B'', Some ''C'')"
  by code_simp

lemma extraction_keeps_reachability_witness:
  "(''A'', ''D'') \<in> (contract (set [''B'', ''C'']) ''N'' (main_edges exTable))\<^sup>* \<longleftrightarrow> (''A'', ''D'') \<in> (main_edges exTable)\<^sup>*"
  by (rule extraction_keeps_reachability [OF exTable_accepted]) (auto simp: exTable_edges Field_def)

lemma exTable_path_inside:
  "(''B'', ''C'') \<in> {(u, v) \<in> main_edges exTable. u \<in> set [''B'', ''C''] \<and> v \<in> set [''B'', ''C'']}\<^sup>*"
  by (rule extraction_path_inside [OF exTable_accepted]) simp_all

end
