(* ===== verification/WorkflowDiff.thy ===== *)
theory WorkflowDiff imports Workflow_Types "HOL-Library.Sublist" "HOL-Library.Multiset"
begin

text \<open>
  The comparison of two versions of a workflow (\<open>workflow/src/workflow-diff.ts\<close>,
  \<open>workflow/src/connections-diff.ts\<close>) and the choice of the versions of a history that can be dropped
  because a later one contains them (\<open>groupWorkflows\<close>). A node is its identifier and its other
  properties in order; lodash's \<open>isEqual\<close> and \<open>pick\<close> are parameters. The lemmas show what the diff of nodes and
  the diff of connections contain, that a merge loses nothing, and which versions the grouping drops.
\<close>

section \<open>Parameters that contain others\<close>

text \<open>The loop over the longer string; \<open>marker\<close> counts the characters that were found.\<close>

fun containsLoop :: "nat \<Rightarrow> string \<Rightarrow> nat \<Rightarrow> nat \<Rightarrow> string \<Rightarrow> bool" where
  "containsLoop diffSize substr marker i [] = (marker \<ge> length substr)"
| "containsLoop diffSize substr marker i (c # s) =
     (let marker = (if js_get substr marker = Some c then Suc marker else marker)
      in if int i - int marker > int diffSize then False else containsLoop diffSize substr marker (Suc i) s)"

definition stringContainsParts :: "string \<Rightarrow> string \<Rightarrow> bool" where
  "stringContainsParts s substr =
     (if length substr > length s then False else containsLoop (length s - length substr) substr 0 0 s)"

fun typeof :: "json \<Rightarrow> string" where
  "typeof JUndefined = ''undefined''"
| "typeof (JBool b) = ''boolean''"
| "typeof (JNum n) = ''number''"
| "typeof (JStr s) = ''string''"
| "typeof _ = ''object''"

text \<open>The properties of an object; those of an array are its indices.\<close>

fun propsOf :: "json \<Rightarrow> (string \<times> json) list" where
  "propsOf (JObj fs) = fs"
| "propsOf (JArr xs) = zip (map nat_string [0..<length xs]) xs"
| "propsOf _ = []"

definition propOf :: "json \<Rightarrow> string \<Rightarrow> json" where
  "propOf x k = orElse (map_of (propsOf x) k) JUndefined"

text \<open>\<open>Object.keys\<close>; a value that is not an object or \<open>null\<close> does not get there.\<close>

function (sequential) parametersAreSuperset :: "json \<Rightarrow> json \<Rightarrow> bool"
  and supersetItems :: "json list \<Rightarrow> json list \<Rightarrow> bool"
  and supersetProps :: "(string \<times> json) list \<Rightarrow> json \<Rightarrow> bool" where
  "parametersAreSuperset prev next =
     (if typeof prev \<noteq> typeof next then False
      else if typeof prev \<noteq> ''object'' \<or> prev = JNull \<or> next = JNull
      then (case prev of JStr p \<Rightarrow> (case next of JStr n \<Rightarrow> stringContainsParts n p | _ \<Rightarrow> False) | _ \<Rightarrow> prev = next)
      else (case prev of
          JArr ps \<Rightarrow> (case next of JArr ns \<Rightarrow> length ps = length ns \<and> supersetItems ps ns | _ \<Rightarrow> False)
        | JObj fs \<Rightarrow> length fs = length (propsOf next) \<and> fst ` set fs \<subseteq> fst ` set (propsOf next) \<and> supersetProps fs next
        | _ \<Rightarrow> False))"
| "supersetItems (v # ps) (n # ns) = (parametersAreSuperset v n \<and> supersetItems ps ns)"
| "supersetItems _ _ = True"
| "supersetProps [] next = True"
| "supersetProps ((k, v) # fs) next = (parametersAreSuperset v (propOf next k) \<and> supersetProps fs next)"
  by pat_completeness auto

termination
  by (relation "measure (\<lambda>x. case x of Inl (p, n) \<Rightarrow> 2 * size p | Inr (Inl (ps, ns)) \<Rightarrow> 2 * size_list size ps + 1
      | Inr (Inr (fs, n)) \<Rightarrow> 2 * size_list (size_prod (\<lambda>_. 0) size) fs + 1)") auto

declare parametersAreSuperset.simps [simp del]

section \<open>The nodes\<close>

record lodash =
  lo_pick :: "(string \<times> json) list \<Rightarrow> string list \<Rightarrow> (string \<times> json) list"
  lo_isEqual :: "json \<Rightarrow> json \<Rightarrow> bool"

record diffable_node =
  dn_id :: string
  dn_props :: "(string \<times> json) list"

datatype node_diff_status = DiffEq | DiffModified | DiffAdded | DiffDeleted

type_synonym 'n workflow_diff = "(string \<times> (node_diff_status \<times> 'n)) list"

definition propsToCompare :: "string list" where
  "propsToCompare = [''name'', ''type'', ''typeVersion'', ''webhookId'', ''credentials'', ''parameters'']"

definition compareProps :: "lodash \<Rightarrow> (string \<times> json) list \<Rightarrow> (string \<times> json) list \<Rightarrow> bool" where
  "compareProps lo base target =
     lo_isEqual lo (JObj (lo_pick lo base propsToCompare)) (JObj (lo_pick lo target propsToCompare))"

definition nodeProps :: "diffable_node option \<Rightarrow> (string \<times> json) list" where
  "nodeProps n = (case n of None \<Rightarrow> [] | Some n \<Rightarrow> (''id'', JStr (dn_id n)) # dn_props n)"

definition compareNodes :: "lodash \<Rightarrow> diffable_node option \<Rightarrow> diffable_node option \<Rightarrow> bool" where
  "compareNodes lo base target = compareProps lo (nodeProps base) (nodeProps target)"

definition nodesById :: "diffable_node list \<Rightarrow> (string \<times> diffable_node) list" where
  "nodesById ns = fold (\<lambda>n. AList.update (dn_id n) n) ns []"

definition compareWorkflowsNodes ::
  "(diffable_node option \<Rightarrow> diffable_node option \<Rightarrow> bool) \<Rightarrow> diffable_node list \<Rightarrow> diffable_node list \<Rightarrow>
    diffable_node workflow_diff" where
  "compareWorkflowsNodes nodesEqual base target =
     (let baseNodes = nodesById base; targetNodes = nodesById target;
          diff = fold (\<lambda>(i, node). AList.update i
            (if map_of targetNodes i = None then DiffDeleted
             else if \<not> nodesEqual (map_of baseNodes i) (map_of targetNodes i) then DiffModified
             else DiffEq, node)) baseNodes []
      in fold (\<lambda>(i, node) diff. if map_of baseNodes i = None then AList.update i (DiffAdded, node) diff else diff)
           targetNodes diff)"

text \<open>\<open>const { parameters, ...rest } = node\<close>\<close>

definition withoutParameters :: "diffable_node \<Rightarrow> (string \<times> json) list" where
  "withoutParameters n = AList.delete ''parameters'' (nodeProps (Some n))"

definition nodeIsSuperset :: "lodash \<Rightarrow> diffable_node \<Rightarrow> diffable_node \<Rightarrow> bool" where
  "nodeIsSuperset lo prevNode nextNode \<longleftrightarrow>
     compareProps lo (withoutParameters prevNode @ [(''parameters'', JObj [])])
       (withoutParameters nextNode @ [(''parameters'', JObj [])]) \<and>
     parametersAreSuperset (orElse (map_of (dn_props prevNode) ''parameters'') JUndefined)
       (orElse (map_of (dn_props nextNode) ''parameters'') JUndefined)"

section \<open>The connections\<close>

type_synonym connection_entry = "nat \<times> nat \<times> iconnection"
type_synonym connection_entries = "(string \<times> (node_connection_type \<times> connection_entry list) list) list"

record connections_diff =
  cd_added :: connection_entries
  cd_removed :: connection_entries

definition pushEntry ::
  "string \<Rightarrow> node_connection_type \<Rightarrow> connection_entry \<Rightarrow> connection_entries \<Rightarrow> connection_entries" where
  "pushEntry nodeName inputName entry acc =
     (let m = orElse (map_of acc nodeName) []
      in AList.update nodeName (AList.update inputName (orElse (map_of m inputName) [] @ [entry]) m) acc)"

text \<open>
  The map from \<open>JSON.stringify(conn)\<close> to the connection and its position. A connection is a record with its
  fields in one order, so it stands for its own string. Of two equal connections the later position counts.
\<close>

definition connectionMap :: "iconnection list \<Rightarrow> (iconnection \<times> nat \<times> iconnection) list" where
  "connectionMap conns = fold (\<lambda>(i, c). AList.update c (i, c)) (enumerate 0 conns) []"

definition connectionsAt :: "iconnections \<Rightarrow> string \<Rightarrow> node_connection_type \<Rightarrow> nat \<Rightarrow> iconnection list" where
  "connectionsAt conns nm ty i =
     (case js_get (orElse (map_of (orElse (map_of conns nm) []) ty) []) i of Some (Some cs) \<Rightarrow> cs | _ \<Rightarrow> [])"

definition compareAt ::
  "iconnections \<Rightarrow> iconnections \<Rightarrow> string \<Rightarrow> node_connection_type \<Rightarrow> nat \<Rightarrow> connections_diff \<Rightarrow> connections_diff" where
  "compareAt prev next nm ty sourceIndex d =
     (let prevMap = connectionMap (connectionsAt prev nm ty sourceIndex);
          nextMap = connectionMap (connectionsAt next nm ty sourceIndex);
          d = d\<lparr>cd_added := fold (\<lambda>(key, value) acc. if map_of prevMap key = None
            then pushEntry nm ty (sourceIndex, value) acc else acc) nextMap (cd_added d)\<rparr>
      in d\<lparr>cd_removed := fold (\<lambda>(key, value) acc. if map_of nextMap key = None
            then pushEntry nm ty (sourceIndex, value) acc else acc) prevMap (cd_removed d)\<rparr>)"

definition inputLength :: "iconnections \<Rightarrow> string \<Rightarrow> node_connection_type \<Rightarrow> nat" where
  "inputLength conns nm ty = length (orElse (map_of (orElse (map_of conns nm) []) ty) [])"

definition allKeys :: "('k \<times> 'a) list \<Rightarrow> ('k \<times> 'b) list \<Rightarrow> 'k list" where
  "allKeys xs ys = saddAll (map fst ys) (saddAll (map fst xs) [])"

definition compareConnections :: "iconnections \<Rightarrow> iconnections \<Rightarrow> connections_diff" where
  "compareConnections prev next =
     fold (\<lambda>nm. fold (\<lambda>ty. fold (compareAt prev next nm ty)
         [0..<max (inputLength prev nm ty) (inputLength next nm ty)])
       (allKeys (orElse (map_of prev nm) []) (orElse (map_of next nm) [])))
     (allKeys prev next) \<lparr>cd_added = [], cd_removed = []\<rparr>"

section \<open>Versions that can be merged\<close>

record diffable_workflow =
  dw_nodes :: "diffable_node list"
  dw_connections :: iconnections
  dw_createdAt :: int
  dw_authors :: "string option"

record workflow_change_set =
  wcs_nodes :: "diffable_node workflow_diff"
  wcs_connections :: connections_diff

text \<open>\<open>same\<close>: both versions are one and the same object, so nothing is compared.\<close>

definition newWorkflowChangeSet :: "lodash \<Rightarrow> bool \<Rightarrow> diffable_workflow \<Rightarrow> diffable_workflow \<Rightarrow> workflow_change_set" where
  "newWorkflowChangeSet lo same w1 w2 =
     (if same then \<lparr>wcs_nodes = fold (\<lambda>n. AList.update (dn_id n) (DiffEq, n)) (dw_nodes w1) [],
        wcs_connections = \<lparr>cd_added = [], cd_removed = []\<rparr>\<rparr>
      else \<lparr>wcs_nodes = compareWorkflowsNodes (compareNodes lo) (dw_nodes w1) (dw_nodes w2),
        wcs_connections = compareConnections (dw_connections w1) (dw_connections w2)\<rparr>)"

fun mergeNodes :: "lodash \<Rightarrow> diffable_node list \<Rightarrow> (node_diff_status \<times> diffable_node) list \<Rightarrow> bool result" where
  "mergeNodes lo nextNodes [] = Inr True"
| "mergeNodes lo nextNodes ((status, n) # ds) =
     (if status = DiffDeleted then Inr False
      else if status = DiffAdded then mergeNodes lo nextNodes ds
      else case find (\<lambda>x. dn_id x = dn_id n) nextNodes of
          None \<Rightarrow> Inl (PlainError ''invariant broken - no next node'')
        | Some nextNode \<Rightarrow>
            if status = DiffModified \<and> \<not> nodeIsSuperset lo n nextNode then Inr False else mergeNodes lo nextNodes ds)"

type_synonym diff_rule = "diffable_workflow \<Rightarrow> diffable_workflow \<Rightarrow> workflow_change_set \<Rightarrow> nat option \<Rightarrow> bool result"

definition mergeAdditiveChanges :: "lodash \<Rightarrow> diff_rule" where
  "mergeAdditiveChanges lo prev next diff size_score =
     ebind (mergeNodes lo (dw_nodes next) (map snd (wcs_nodes diff))) (\<lambda>ok.
       Inr (ok \<and> cd_removed (wcs_connections diff) = []))"

definition makeSkipTimeDifference :: "int \<Rightarrow> diff_rule" where
  "makeSkipTimeDifference timeDiffMs prev next diff size_score =
     Inr (\<bar>dw_createdAt next - dw_createdAt prev\<bar> > timeDiffMs)"

definition makeMergeShortTimeSpan :: "int \<Rightarrow> diffable_workflow \<Rightarrow> diffable_workflow \<Rightarrow> bool" where
  "makeMergeShortTimeSpan timeDiffMs prev next \<longleftrightarrow> \<bar>dw_createdAt next - dw_createdAt prev\<bar> < timeDiffMs"

fun firstApplicable :: "(int \<times> int) list \<Rightarrow> nat \<Rightarrow> diffable_workflow \<Rightarrow> diffable_workflow \<Rightarrow> bool" where
  "firstApplicable [] score prev next = False"
| "firstApplicable ((minimumSize, time) # pairs) score prev next =
     (if int score > minimumSize then makeMergeShortTimeSpan time prev next else firstApplicable pairs score prev next)"

definition makeMergeDependingOnSizeRule :: "(int \<times> int) list \<Rightarrow> diff_rule" where
  "makeMergeDependingOnSizeRule mapping prev next diff size_score =
     (case size_score of None \<Rightarrow> Inr False
      | Some score \<Rightarrow> Inr (firstApplicable (sort_key (\<lambda>p. - fst p) mapping) score prev next))"

definition skipDifferentUsers :: diff_rule where
  "skipDifferentUsers prev next diff size_score = Inr (dw_authors next \<noteq> dw_authors prev)"

fun determineNodeSize :: "json \<Rightarrow> nat" where
  "determineNodeSize (JStr s) = (if s = [] then 1 else length s)"
| "determineNodeSize (JArr xs) = 1 + sum_list (map determineNodeSize xs)"
| "determineNodeSize (JObj fs) = 1 + sum_list (map (\<lambda>(k, v). determineNodeSize v) fs)"
| "determineNodeSize _ = 1"

definition determineNodeParametersSize :: "diffable_workflow \<Rightarrow> nat" where
  "determineNodeParametersSize w =
     sum_list (map (\<lambda>n. determineNodeSize (orElse (map_of (dn_props n) ''parameters'') JUndefined)) (dw_nodes w))"

fun anyRule :: "diff_rule list \<Rightarrow> diff_rule" where
  "anyRule [] prev next diff size_score = Inr False"
| "anyRule (rule # rules) prev next diff size_score =
     ebind (rule prev next diff size_score) (\<lambda>b. if b then Inr True else anyRule rules prev next diff size_score)"

definition versionStep ::
  "lodash \<Rightarrow> diff_rule list \<Rightarrow> diff_rule list \<Rightarrow> nat option \<Rightarrow> nat \<Rightarrow> diffable_workflow list \<times> diffable_workflow list \<Rightarrow>
    (diffable_workflow list \<times> diffable_workflow list) result" where
  "versionStep lo rules skipRules size_score i = (\<lambda>(remaining, removed).
     (case (js_get remaining (i - 1), js_get remaining i) of
        (Some prev, Some next) \<Rightarrow>
          (let wcs = newWorkflowChangeSet lo False prev next
           in ebind (anyRule skipRules prev next wcs size_score) (\<lambda>skip.
              if skip then Inr (remaining, removed)
              else ebind (anyRule rules prev next wcs size_score) (\<lambda>shouldMerge.
                if shouldMerge then Inr (splice1 (i - 1) remaining, removed @ [prev]) else Inr (remaining, removed))))
      | _ \<Rightarrow> Inl TypeError))"

fun versionLoop ::
  "lodash \<Rightarrow> diff_rule list \<Rightarrow> diff_rule list \<Rightarrow> nat option \<Rightarrow> nat \<Rightarrow> diffable_workflow list \<times> diffable_workflow list \<Rightarrow>
    (diffable_workflow list \<times> diffable_workflow list) result" where
  "versionLoop lo rules skipRules size_score 0 st = Inr st"
| "versionLoop lo rules skipRules size_score (Suc i) st =
     ebind (versionStep lo rules skipRules size_score (Suc i) st) (versionLoop lo rules skipRules size_score i)"

text \<open>The result: the versions that remain, and the ones that were removed, the latest first.\<close>

definition groupWorkflows ::
  "lodash \<Rightarrow> diffable_workflow list \<Rightarrow> diff_rule list \<Rightarrow> diff_rule list \<Rightarrow> bool \<Rightarrow>
    (diffable_workflow list \<times> diffable_workflow list) result" where
  "groupWorkflows lo workflows rules skipRules wantsSize =
     (if workflows = [] then Inr ([], [])
      else if length workflows = 1 then Inr (workflows, [])
      else versionLoop lo rules skipRules
        (if wantsSize then Some (max (determineNodeParametersSize (workflows ! (length workflows div 2)))
           (determineNodeParametersSize (last workflows))) else None)
        (length workflows - 1) (workflows, []))"

section \<open>Changes that matter\<close>

definition connectionsJson :: "iconnections \<Rightarrow> json" where
  "connectionsJson conns = JObj (map (\<lambda>(nm, byType). (nm, JObj (map (\<lambda>(ty, outs). (ctype_string ty, JArr (map (\<lambda>cs.
     case cs of None \<Rightarrow> JNull | Some cs \<Rightarrow> JArr (map (\<lambda>c. JObj [(''node'', JStr (c_node c)),
       (''type'', JStr (ctype_string (c_type c))), (''index'', JNum (int (c_index c)))]) cs)) outs))) byType))) conns)"

definition hasNonPositionalChanges ::
  "lodash \<Rightarrow> diffable_node list \<Rightarrow> diffable_node list \<Rightarrow> iconnections \<Rightarrow> iconnections \<Rightarrow> bool" where
  "hasNonPositionalChanges lo oldNodes newNodes oldConnections newConnections =
     (if \<exists>d \<in> set (compareWorkflowsNodes (compareNodes lo) oldNodes newNodes). fst (snd d) \<noteq> DiffEq then True
      else \<not> lo_isEqual lo (connectionsJson oldConnections) (connectionsJson newConnections))"

text \<open>The credentials of a node by their type, and the identifier of one of them.\<close>

definition credentialsOf :: "diffable_node \<Rightarrow> (string \<times> json) list" where
  "credentialsOf n = (case map_of (dn_props n) ''credentials'' of Some (JObj cs) \<Rightarrow> cs | _ \<Rightarrow> [])"

definition credentialChanged :: "(string \<times> json) list \<Rightarrow> (string \<times> json) list \<Rightarrow> bool" where
  "credentialChanged oldCreds newCreds \<longleftrightarrow>
     (\<exists>ty \<in> fst ` set oldCreds. ty \<notin> fst ` set newCreds \<or>
        propOf (orElse (map_of oldCreds ty) JUndefined) ''id'' \<noteq> propOf (orElse (map_of newCreds ty) JUndefined) ''id'') \<or>
     (\<exists>ty \<in> fst ` set newCreds. ty \<notin> fst ` set oldCreds)"

fun hasCredentialChanges :: "diffable_node list \<Rightarrow> diffable_node list \<Rightarrow> bool" where
  "hasCredentialChanges [] newNodes = False"
| "hasCredentialChanges (oldNode # oldNodes) newNodes =
     (case map_of (nodesById newNodes) (dn_id oldNode) of
        None \<Rightarrow> hasCredentialChanges oldNodes newNodes
      | Some newNode \<Rightarrow> credentialChanged (credentialsOf oldNode) (credentialsOf newNode) \<or>
          hasCredentialChanges oldNodes newNodes)"

section \<open>Strings and parameters\<close>

lemma containsLoop_subseq:
  assumes "marker \<le> length substr" "length substr + diffSize = i + length s"
  shows "containsLoop diffSize substr marker i s \<longleftrightarrow> subseq (drop marker substr) s"
  using assms
proof (induction s arbitrary: marker i)
  case Nil
  then show ?case by (cases "marker = length substr") auto
next
  case (Cons c s)
  define m where "m = (if js_get substr marker = Some c then Suc marker else marker)"
  have m_le: "m \<le> length substr" using Cons.prems(1) by (auto simp: m_def js_get_def split: if_splits)
  have greedy: "subseq (drop marker substr) (c # s) \<longleftrightarrow> subseq (drop m substr) s"
  proof (cases "marker < length substr")
    case True
    then have "drop marker substr = substr ! marker # drop (Suc marker) substr" by (simp add: Cons_nth_drop_Suc)
    with True show ?thesis by (auto simp: m_def js_get_def)
  qed (simp add: m_def js_get_def)
  show ?case
  proof (cases "int i - int m > int diffSize")
    case True
    then have "length (drop m substr) > length s" using Cons.prems(2) m_le by simp
    then have "\<not> subseq (drop m substr) s" using list_emb_length by fastforce
    with True greedy show ?thesis by (simp add: Let_def m_def [symmetric])
  next
    case False
    with Cons.IH [OF m_le, of "Suc i"] Cons.prems(2) greedy show ?thesis by (simp add: Let_def m_def [symmetric])
  qed
qed

lemma contains_subseq: "stringContainsParts s substr \<longleftrightarrow> subseq substr s"
proof (cases "length substr > length s")
  case True
  then have "\<not> subseq substr s" using list_emb_length by fastforce
  with True show ?thesis by (simp add: stringContainsParts_def)
qed (simp add: stringContainsParts_def containsLoop_subseq)

text \<open>
  The test whether one string contains the characters of another in their order, with one pass and an early end,
  is the test for a subsequence.
\<close>

lemma stringContainsParts_subseq: "stringContainsParts s substr \<longleftrightarrow> subseq substr s"
  by (rule contains_subseq)

text \<open>The comment of the function gives \<open>abcd\<close> as an example of what \<open>abcde\<close> does not contain.\<close>

lemma comment_example: "stringContainsParts ''abcde'' ''abcd''"
  by code_simp

text \<open>An empty object counts as contained in an empty array.\<close>

lemma object_in_array: "parametersAreSuperset (JObj []) (JArr [])"
  by code_simp

lemma supersetItems_iff: "length ps = length ns \<Longrightarrow> supersetItems ps ns \<longleftrightarrow> list_all2 parametersAreSuperset ps ns"
  by (induction ps ns rule: list_induct2) auto

lemma supersetProps_iff: "supersetProps fs n \<longleftrightarrow> (\<forall>(k, v) \<in> set fs. parametersAreSuperset v (propOf n k))"
  by (induction fs) auto

fun objectLike :: "json \<Rightarrow> bool" where
  "objectLike (JObj fs) = True"
| "objectLike (JArr xs) = True"
| "objectLike _ = False"

lemma superset_simps [simp]:
  "parametersAreSuperset JUndefined n \<longleftrightarrow> n = JUndefined"
  "parametersAreSuperset JNull n \<longleftrightarrow> n = JNull"
  "parametersAreSuperset (JBool b) n \<longleftrightarrow> n = JBool b"
  "parametersAreSuperset (JNum i) n \<longleftrightarrow> n = JNum i"
  "parametersAreSuperset (JStr p) n \<longleftrightarrow> (\<exists>s. n = JStr s \<and> subseq p s)"
  "parametersAreSuperset (JArr ps) n \<longleftrightarrow> (\<exists>ns. n = JArr ns \<and> list_all2 parametersAreSuperset ps ns)"
  "parametersAreSuperset (JObj fs) n \<longleftrightarrow> objectLike n \<and> length fs = length (propsOf n) \<and>
     fst ` set fs \<subseteq> fst ` set (propsOf n) \<and> (\<forall>(k, v) \<in> set fs. parametersAreSuperset v (propOf n k))"
proof -
  show "parametersAreSuperset (JArr ps) n \<longleftrightarrow> (\<exists>ns. n = JArr ns \<and> list_all2 parametersAreSuperset ps ns)"
    by (cases n) (auto simp: parametersAreSuperset.simps supersetItems_iff list_all2_lengthD)
  show "parametersAreSuperset (JObj fs) n \<longleftrightarrow> objectLike n \<and> length fs = length (propsOf n) \<and>
      fst ` set fs \<subseteq> fst ` set (propsOf n) \<and> (\<forall>(k, v) \<in> set fs. parametersAreSuperset v (propOf n k))"
    by (cases n) (auto simp: parametersAreSuperset.simps supersetProps_iff)
qed (cases n; auto simp: parametersAreSuperset.simps contains_subseq)+

text \<open>The value at a path of keys and indices.\<close>

fun valueAt :: "string list \<Rightarrow> json \<Rightarrow> json option" where
  "valueAt [] x = Some x"
| "valueAt (k # path) x = (case map_of (propsOf x) k of None \<Rightarrow> None | Some y \<Rightarrow> valueAt path y)"

lemma list_all2_lookup:
  assumes "list_all2 P xs ys" "map_of (zip ks xs) k = Some x"
  shows "\<exists>y. map_of (zip ks ys) k = Some y \<and> P x y"
  using assms
proof (induction xs ys arbitrary: ks rule: list_all2_induct)
  case (Cons x xs y ys)
  then show ?case by (cases ks) (auto split: if_splits)
qed simp

lemma superset_lookup:
  assumes "parametersAreSuperset prev next" "map_of (propsOf prev) k = Some x"
  shows "\<exists>y. map_of (propsOf next) k = Some y \<and> parametersAreSuperset x y"
proof (cases prev)
  case (JArr ps)
  with assms(1) obtain ns where ns: "next = JArr ns" "list_all2 parametersAreSuperset ps ns" by auto
  with assms(2) JArr list_all2_lookup [OF ns(2)] show ?thesis by (simp add: list_all2_lengthD)
next
  case (JObj fs)
  with assms(2) have "(k, x) \<in> set fs" by (simp add: map_of_SomeD)
  with assms(1) JObj have sup: "parametersAreSuperset x (propOf next k)" "k \<in> fst ` set (propsOf next)" by force+
  then obtain y where "map_of (propsOf next) k = Some y" by (metis map_of_eq_None_iff not_None_eq)
  with sup(1) show ?thesis by (auto simp: propOf_def)
qed (use assms in simp_all)

text \<open>
  Nothing is lost in parameters that contain others: every value at every path is found at the same path, a
  string as part of a string, any other plain value unchanged.
\<close>

definition containsValue :: "json \<Rightarrow> json \<Rightarrow> bool" where
  "containsValue x y \<longleftrightarrow> (case x of JStr s \<Rightarrow> (\<exists>t. y = JStr t \<and> subseq s t) | JArr xs \<Rightarrow> objectLike y | JObj fs \<Rightarrow> objectLike y
     | _ \<Rightarrow> y = x)"

lemma superset_keeps_values:
  assumes "parametersAreSuperset prev next" "valueAt path prev = Some x"
  shows "\<exists>y. valueAt path next = Some y \<and> containsValue x y"
  using assms
proof (induction path arbitrary: prev "next")
  case Nil
  then show ?case by (cases prev) (auto simp: containsValue_def)
next
  case (Cons k path)
  from Cons.prems(2) obtain z where z: "map_of (propsOf prev) k = Some z" "valueAt path z = Some x"
    by (auto split: option.splits)
  from superset_lookup [OF Cons.prems(1) z(1)] obtain y where
    y: "map_of (propsOf next) k = Some y" "parametersAreSuperset z y" by blast
  from Cons.IH [OF y(2) z(2)] y(1) show ?case by simp
qed

lemma superset_shape:
  assumes "parametersAreSuperset b c" "objectLike b"
  shows "objectLike c" "length (propsOf b) = length (propsOf c)" "fst ` set (propsOf b) \<subseteq> fst ` set (propsOf c)"
proof -
  show "objectLike c" using assms by (cases b) auto
  show "length (propsOf b) = length (propsOf c)"
  proof (cases b)
    case (JArr xs)
    with assms(1) obtain cs where "c = JArr cs" "list_all2 parametersAreSuperset xs cs" by auto
    with JArr list_all2_lengthD show ?thesis by fastforce
  qed (use assms in auto)
  show "fst ` set (propsOf b) \<subseteq> fst ` set (propsOf c)"
  proof
    fix k
    assume "k \<in> fst ` set (propsOf b)"
    then obtain x where "map_of (propsOf b) k = Some x" by (metis map_of_eq_None_iff not_None_eq)
    from superset_lookup [OF assms(1) this] show "k \<in> fst ` set (propsOf c)" by (metis map_of_eq_None_iff option.distinct(1))
  qed
qed

lemma superset_trans:
  "parametersAreSuperset a b \<Longrightarrow> parametersAreSuperset b c \<Longrightarrow> parametersAreSuperset a c"
proof (induction a arbitrary: b c)
  case (JStr p)
  then show ?case by (auto intro: subseq_order.trans)
next
  case (JArr ps)
  then obtain bs cs where l: "b = JArr bs" "c = JArr cs" "list_all2 parametersAreSuperset ps bs" "list_all2 parametersAreSuperset bs cs"
    by auto
  have "list_all2 parametersAreSuperset ps cs"
    using l(3,4) JArr.IH by (auto simp: list_all2_conv_all_nth)
  with l(2) show ?case by simp
next
  case (JObj fs)
  have ab: "objectLike b" "length fs = length (propsOf b)" "fst ` set fs \<subseteq> fst ` set (propsOf b)"
    "\<forall>(k, v) \<in> set fs. parametersAreSuperset v (propOf b k)" using JObj.prems(1) by simp_all
  note bc = superset_shape [OF JObj.prems(2) ab(1)]
  have "parametersAreSuperset v (propOf c k)" if "(k, v) \<in> set fs" for k v
  proof -
    from that ab(3) obtain w where w: "map_of (propsOf b) k = Some w"
      by (metis fst_conv image_eqI map_of_eq_None_iff not_None_eq subsetD)
    from superset_lookup [OF JObj.prems(2) w] obtain y where "map_of (propsOf c) k = Some y" "parametersAreSuperset w y" by blast
    moreover have "parametersAreSuperset v w" using ab(4) that w by (auto simp: propOf_def)
    ultimately show ?thesis using JObj.IH [OF that, of v w y] by (simp add: propOf_def)
  qed
  then have "\<forall>(k, v) \<in> set fs. parametersAreSuperset v (propOf c k)" by blast
  moreover have "fst ` set fs \<subseteq> fst ` set (propsOf c)" using ab(3) bc(3) by (rule subset_trans)
  ultimately show ?case using ab(2) bc(1,2) unfolding superset_simps by (intro conjI) simp_all
qed simp_all

section \<open>The diff of the nodes\<close>

lemma nodesById_distinct: "distinct (map fst (nodesById ns))"
proof -
  have "distinct (map fst al) \<Longrightarrow> distinct (map fst (fold (\<lambda>n. AList.update (dn_id n) n) ns al))" for al
    by (induction ns arbitrary: al) (simp_all add: distinct_update)
  then show ?thesis by (simp add: nodesById_def)
qed

lemma map_of_nodesById: "map_of (nodesById ns) i = find (\<lambda>n. dn_id n = i) (rev ns)"
proof -
  have find_append: "find P (xs @ ys) = (case find P xs of None \<Rightarrow> find P ys | Some x \<Rightarrow> Some x)" for P and xs ys :: "diffable_node list"
    by (induction xs) auto
  have "map_of (fold (\<lambda>n. AList.update (dn_id n) n) ns al) i =
      (case find (\<lambda>n. dn_id n = i) (rev ns) of None \<Rightarrow> map_of al i | Some n \<Rightarrow> Some n)" for al
    by (induction ns arbitrary: al) (auto simp: find_append split: option.splits)
  then show ?thesis by (simp add: nodesById_def split: option.splits)
qed

lemma nodesById_id: "map_of (nodesById ns) i = Some n \<Longrightarrow> dn_id n = i \<and> n \<in> set ns"
  unfolding map_of_nodesById find_Some_iff by (metis in_set_conv_nth set_rev)

lemma nodesById_present: "n \<in> set ns \<Longrightarrow> \<exists>n'. map_of (nodesById ns) (dn_id n) = Some n'"
proof (rule ccontr)
  assume "n \<in> set ns" "\<nexists>n'. map_of (nodesById ns) (dn_id n) = Some n'"
  then have "find (\<lambda>m. dn_id m = dn_id n) (rev ns) = None" by (simp add: map_of_nodesById)
  with \<open>n \<in> set ns\<close> show False by (auto simp: find_None_iff)
qed

lemma nodesById_unique:
  assumes "distinct (map dn_id ns)" "n \<in> set ns"
  shows "map_of (nodesById ns) (dn_id n) = Some n"
proof -
  from nodesById_present [OF assms(2)] obtain n' where n': "map_of (nodesById ns) (dn_id n) = Some n'" by blast
  with nodesById_id [OF n'] assms show ?thesis by (metis (no_types, lifting) distinct_map inj_onD)
qed

lemma map_of_fold_update:
  assumes "distinct (map fst xs)"
  shows "map_of (fold (\<lambda>(i, x). AList.update i (f i x)) xs al) k =
    (case map_of xs k of None \<Rightarrow> map_of al k | Some x \<Rightarrow> Some (f k x))"
  using assms
proof (induction xs arbitrary: al)
  case (Cons p xs)
  obtain i x where p: "p = (i, x)" by force
  with Cons.prems have "map_of xs i = None" by (simp add: map_of_eq_None_iff)
  with Cons p show ?case by (auto split: option.splits)
qed simp

lemma map_of_fold_update_if:
  assumes "distinct (map fst xs)"
  shows "map_of (fold (\<lambda>(i, x) al. if P i then AList.update i (f i x) al else al) xs al) k =
    (case map_of xs k of Some x \<Rightarrow> if P k then Some (f k x) else map_of al k | None \<Rightarrow> map_of al k)"
  using assms
proof (induction xs arbitrary: al)
  case (Cons p xs)
  obtain i x where p: "p = (i, x)" by force
  with Cons.prems have "map_of xs i = None" by (simp add: map_of_eq_None_iff)
  with Cons p show ?case by (auto split: option.splits)
qed simp

lemma node_diff_lookup:
  "map_of (compareWorkflowsNodes nodesEqual base target) i =
    (case map_of (nodesById base) i of
       Some b \<Rightarrow> Some (if map_of (nodesById target) i = None then DiffDeleted
         else if nodesEqual (Some b) (map_of (nodesById target) i) then DiffEq else DiffModified, b)
     | None \<Rightarrow> map_option (Pair DiffAdded) (map_of (nodesById target) i))"
  unfolding compareWorkflowsNodes_def Let_def map_of_fold_update_if [OF nodesById_distinct]
    map_of_fold_update [OF nodesById_distinct, where f = "\<lambda>i node. (S i, node)" for S]
  by (simp split: option.split)

lemma distinct_node_diff: "distinct (map fst (compareWorkflowsNodes nodesEqual base target))"
proof -
  have one: "distinct (map fst al) \<Longrightarrow> distinct (map fst (fold (\<lambda>(i, x). AList.update i (f i x)) xs al))" for f xs al
    by (induction xs arbitrary: al) (auto simp: distinct_update split: prod.splits)
  have two: "distinct (map fst al) \<Longrightarrow>
      distinct (map fst (fold (\<lambda>(i, x) al. if P i then AList.update i (f i x) al else al) xs al))" for P f xs al
    by (induction xs arbitrary: al) (auto simp: distinct_update split: prod.splits)
  show ?thesis unfolding compareWorkflowsNodes_def Let_def by (intro two one) simp
qed

text \<open>
  The diff of the nodes has one entry for each identifier that occurs, and its status says what became of
  the node: deleted, added, equal or modified; with the old version of the node, if there is one. Of several
  nodes with one identifier the last counts.
\<close>

lemma compareWorkflowsNodes_exact:
  "distinct (map fst (compareWorkflowsNodes nodesEqual base target)) \<and>
   map_of (compareWorkflowsNodes nodesEqual base target) i =
    (case (find (\<lambda>n. dn_id n = i) (rev base), find (\<lambda>n. dn_id n = i) (rev target)) of
       (None, None) \<Rightarrow> None
     | (None, Some t) \<Rightarrow> Some (DiffAdded, t)
     | (Some b, None) \<Rightarrow> Some (DiffDeleted, b)
     | (Some b, Some t) \<Rightarrow> Some (if nodesEqual (Some b) (Some t) then DiffEq else DiffModified, b))"
  using distinct_node_diff node_diff_lookup [of nodesEqual base target i]
  by (simp add: map_of_nodesById split: option.splits)

section \<open>The diff of the connections\<close>

definition entriesAt :: "connection_entries \<Rightarrow> string \<Rightarrow> node_connection_type \<Rightarrow> connection_entry list" where
  "entriesAt d nm ty = orElse (map_of (orElse (map_of d nm) []) ty) []"

lemma entriesAt_pushEntry:
  "entriesAt (pushEntry nm ty e d) nm' ty' = entriesAt d nm' ty' @ (if nm' = nm \<and> ty' = ty then [e] else [])"
  by (simp add: entriesAt_def pushEntry_def Let_def)

text \<open>What is pushed for one output: the connections that one version has and the other lacks.\<close>

definition missingEntries :: "iconnection list \<Rightarrow> iconnection list \<Rightarrow> nat \<Rightarrow> connection_entry list" where
  "missingEntries a b sourceIndex =
     map (\<lambda>(key, value). (sourceIndex, value)) (filter (\<lambda>(key, value). map_of (connectionMap b) key = None) (connectionMap a))"

definition outputDiff :: "iconnections \<Rightarrow> iconnections \<Rightarrow> string \<Rightarrow> node_connection_type \<Rightarrow> nat \<Rightarrow> connection_entry list" where
  "outputDiff x y nm ty i = missingEntries (connectionsAt x nm ty i) (connectionsAt y nm ty i) i"

definition pushAll :: "string \<Rightarrow> node_connection_type \<Rightarrow> connection_entry list \<Rightarrow> connection_entries \<Rightarrow> connection_entries" where
  "pushAll nm ty es = fold (pushEntry nm ty) es"

lemma push_missing:
  "fold (\<lambda>(key, value) acc. if map_of bm key = None then pushEntry nm ty (i, value) acc else acc) am acc =
   pushAll nm ty (map (\<lambda>(key, value). (i, value)) (filter (\<lambda>(key, value). map_of bm key = None) am)) acc"
  by (induction am arbitrary: acc) (auto simp: pushAll_def)

lemma compareAt_pushes:
  "compareAt prev next nm ty i d = d\<lparr>cd_added := pushAll nm ty (outputDiff next prev nm ty i) (cd_added d),
     cd_removed := pushAll nm ty (outputDiff prev next nm ty i) (cd_removed d)\<rparr>"
  by (simp add: compareAt_def Let_def push_missing outputDiff_def missingEntries_def)

text \<open>The places the comparison visits.\<close>

definition places :: "iconnections \<Rightarrow> iconnections \<Rightarrow> (string \<times> node_connection_type \<times> nat) list" where
  "places prev next = concat (map (\<lambda>nm. concat (map (\<lambda>ty. map (\<lambda>i. (nm, ty, i))
     [0..<max (inputLength prev nm ty) (inputLength next nm ty)])
     (allKeys (orElse (map_of prev nm) []) (orElse (map_of next nm) [])))) (allKeys prev next))"

lemma fold_concat_map: "fold f (concat (map g xs)) s = fold (\<lambda>x. fold f (g x)) xs s"
  by (induction xs arbitrary: s) simp_all

lemma compareConnections_places:
  "compareConnections prev next =
    fold (\<lambda>(nm, ty, i). compareAt prev next nm ty i) (places prev next) \<lparr>cd_added = [], cd_removed = []\<rparr>"
  unfolding compareConnections_def places_def fold_concat_map by (simp add: fold_map comp_def)

definition pushPlaces ::
  "iconnections \<Rightarrow> iconnections \<Rightarrow> (string \<times> node_connection_type \<times> nat) list \<Rightarrow> connection_entries \<Rightarrow> connection_entries" where
  "pushPlaces x y = fold (\<lambda>(nm, ty, i). pushAll nm ty (outputDiff x y nm ty i))"

lemma compareConnections_eq:
  "compareConnections prev next =
    \<lparr>cd_added = pushPlaces next prev (places prev next) [], cd_removed = pushPlaces prev next (places prev next) []\<rparr>"
proof -
  have "fold (\<lambda>(nm, ty, i). compareAt prev next nm ty i) ps d =
      d\<lparr>cd_added := pushPlaces next prev ps (cd_added d), cd_removed := pushPlaces prev next ps (cd_removed d)\<rparr>" for ps d
    by (induction ps arbitrary: d) (auto simp: compareAt_pushes pushPlaces_def)
  then show ?thesis by (simp add: compareConnections_places)
qed

text \<open>The last position of a connection in a list.\<close>

definition last_position :: "'a list \<Rightarrow> nat \<Rightarrow> 'a \<Rightarrow> bool" where
  "last_position xs k x \<longleftrightarrow> k < length xs \<and> xs ! k = x \<and> (\<forall>l. k < l \<and> l < length xs \<longrightarrow> xs ! l \<noteq> x)"

lemma connectionMap_Nil: "connectionMap [] = []"
  by (simp add: connectionMap_def)

lemma connectionMap_snoc: "connectionMap (cs @ [c]) = AList.update c (length cs, c) (connectionMap cs)"
  by (simp add: connectionMap_def enumerate_append_eq)

lemma last_position_snoc:
  "last_position (xs @ [y]) k x \<longleftrightarrow> (if x = y then k = length xs else last_position xs k x)"
proof (cases "x = y")
  case True
  have "k = length xs" if a: "last_position (xs @ [y]) k y"
  proof (rule ccontr)
    assume "k \<noteq> length xs"
    with a have "k < length xs" by (simp add: last_position_def)
    with a have "(xs @ [y]) ! length xs \<noteq> y" unfolding last_position_def by (metis length_append_singleton lessI)
    then show False by simp
  qed
  moreover have "last_position (xs @ [y]) (length xs) y" by (auto simp: last_position_def less_Suc_eq)
  ultimately show ?thesis using True by auto
next
  case False
  have "last_position (xs @ [y]) k x \<longleftrightarrow> k < length xs \<and> xs ! k = x \<and> (\<forall>l. k < l \<and> l < length xs \<longrightarrow> xs ! l \<noteq> x)"
    unfolding last_position_def length_append_singleton less_Suc_eq
    using False by (metis nth_append nth_append_length)
  with False show ?thesis by (simp add: last_position_def)
qed

lemma connectionMap_lookup: "map_of (connectionMap cs) c = Some (k, c') \<longleftrightarrow> c' = c \<and> last_position cs k c"
proof (induction cs rule: rev_induct)
  case (snoc x xs)
  then show ?case by (cases "c = x") (auto simp: connectionMap_snoc last_position_snoc)
qed (simp add: connectionMap_Nil last_position_def)

lemma connectionMap_None: "map_of (connectionMap cs) c = None \<longleftrightarrow> c \<notin> set cs"
  by (induction cs rule: rev_induct) (auto simp: connectionMap_snoc connectionMap_Nil)

lemma connectionMap_distinct: "distinct (map fst (connectionMap cs))"
  by (induction cs rule: rev_induct) (simp_all add: connectionMap_snoc distinct_update connectionMap_Nil)

lemma missingEntries_iff:
  "(i, k, c) \<in> set (missingEntries a b j) \<longleftrightarrow> i = j \<and> last_position a k c \<and> c \<notin> set b"
proof -
  have "(key, k, c) \<in> set (connectionMap a) \<longleftrightarrow> key = c \<and> last_position a k c" for key
    using connectionMap_lookup [of a key k c] connectionMap_distinct [of a] by (metis map_of_is_SomeI map_of_SomeD)
  then show ?thesis by (fastforce simp: missingEntries_def connectionMap_None)
qed

lemma missingEntries_Nil: "missingEntries a b j = [] \<longleftrightarrow> set a \<subseteq> set b"
proof -
  have "missingEntries a b j = [] \<longleftrightarrow> (\<forall>key \<in> fst ` set (connectionMap a). key \<in> set b)"
    by (auto simp: missingEntries_def filter_empty_conv connectionMap_None)
  moreover have "fst ` set (connectionMap a) = set a"
    using connectionMap_None [of a] by (auto simp: map_of_eq_None_iff)
  ultimately show ?thesis by auto
qed

lemma entriesAt_pushAll:
  "entriesAt (pushAll nm ty es d) nm' ty' = entriesAt d nm' ty' @ (if nm' = nm \<and> ty' = ty then es else [])"
  by (induction es arbitrary: d) (simp_all add: pushAll_def entriesAt_pushEntry)

lemma pushAll_Nil: "pushAll nm ty es d = [] \<longleftrightarrow> d = [] \<and> es = []"
proof -
  have "pushEntry nm ty e d \<noteq> []" for e d by (cases d) (auto simp: pushEntry_def Let_def)
  then have "d \<noteq> [] \<Longrightarrow> pushAll nm ty es d \<noteq> []" "es \<noteq> [] \<Longrightarrow> pushAll nm ty es d \<noteq> []" for es d
    by (induction es arbitrary: d rule: rev_induct) (auto simp: pushAll_def)
  then show ?thesis by (auto simp: pushAll_def)
qed

lemma entriesAt_pushPlaces:
  "set (entriesAt (pushPlaces x y ps d) nm ty) =
    set (entriesAt d nm ty) \<union> (\<Union>i \<in> {i. (nm, ty, i) \<in> set ps}. set (outputDiff x y nm ty i))"
  by (induction ps arbitrary: d) (auto simp: pushPlaces_def entriesAt_pushAll split: if_splits)

lemma pushPlaces_Nil: "pushPlaces x y ps d = [] \<longleftrightarrow> d = [] \<and> (\<forall>(nm, ty, i) \<in> set ps. outputDiff x y nm ty i = [])"
  by (induction ps arbitrary: d) (auto simp: pushPlaces_def pushAll_Nil)

lemma connectionsAt_places:
  assumes "connectionsAt prev nm ty i \<noteq> [] \<or> connectionsAt next nm ty i \<noteq> []"
  shows "(nm, ty, i) \<in> set (places prev next)"
proof -
  have one: "connectionsAt w nm ty i \<noteq> [] \<Longrightarrow>
      nm \<in> fst ` set w \<and> ty \<in> fst ` set (orElse (map_of w nm) []) \<and> i < inputLength w nm ty" for w
  proof -
    assume a: "connectionsAt w nm ty i \<noteq> []"
    then have i: "i < inputLength w nm ty"
      by (auto simp: connectionsAt_def inputLength_def js_get_def split: if_splits)
    then have ty: "map_of (orElse (map_of w nm) []) ty \<noteq> None"
      by (cases "map_of (orElse (map_of w nm) []) ty") (simp_all add: inputLength_def)
    then have "map_of w nm \<noteq> None" by (cases "map_of w nm") simp_all
    with i ty show ?thesis by (simp add: map_of_eq_None_iff)
  qed
  have "nm \<in> set (allKeys prev next) \<and> ty \<in> set (allKeys (orElse (map_of prev nm) []) (orElse (map_of next nm) [])) \<and>
      i < max (inputLength prev nm ty) (inputLength next nm ty)"
    using assms one [of prev] one [of "next"] by (auto simp: allKeys_def)
  then show ?thesis unfolding places_def by force
qed

lemma pushPlaces_exact:
  assumes "\<And>nm ty i. connectionsAt x nm ty i \<noteq> [] \<Longrightarrow> (nm, ty, i) \<in> set ps"
  shows "(i, k, c) \<in> set (entriesAt (pushPlaces x y ps []) nm ty) \<longleftrightarrow>
      last_position (connectionsAt x nm ty i) k c \<and> c \<notin> set (connectionsAt y nm ty i)"
    and "pushPlaces x y ps [] = [] \<longleftrightarrow> (\<forall>nm ty i. set (connectionsAt x nm ty i) \<subseteq> set (connectionsAt y nm ty i))"
proof -
  have visited: "(nm, ty, i) \<in> set ps" if "last_position (connectionsAt x nm ty i) k c"
  proof (rule assms)
    show "connectionsAt x nm ty i \<noteq> []" using that by (auto simp: last_position_def)
  qed
  have "entriesAt [] nm ty = []" by (simp add: entriesAt_def)
  then show "(i, k, c) \<in> set (entriesAt (pushPlaces x y ps []) nm ty) \<longleftrightarrow>
      last_position (connectionsAt x nm ty i) k c \<and> c \<notin> set (connectionsAt y nm ty i)"
    using visited by (auto simp: entriesAt_pushPlaces outputDiff_def missingEntries_iff)
  have "(\<forall>(nm, ty, i) \<in> set ps. outputDiff x y nm ty i = []) \<longleftrightarrow>
      (\<forall>nm ty i. set (connectionsAt x nm ty i) \<subseteq> set (connectionsAt y nm ty i))"
    unfolding outputDiff_def missingEntries_Nil
  proof safe
    fix nm ty i c
    assume kept: "\<forall>(nm, ty, i) \<in> set ps. set (connectionsAt x nm ty i) \<subseteq> set (connectionsAt y nm ty i)"
      and c: "c \<in> set (connectionsAt x nm ty i)"
    then have "(nm, ty, i) \<in> set ps" by (intro assms) auto
    with kept c show "c \<in> set (connectionsAt y nm ty i)" by blast
  qed blast
  then show "pushPlaces x y ps [] = [] \<longleftrightarrow> (\<forall>nm ty i. set (connectionsAt x nm ty i) \<subseteq> set (connectionsAt y nm ty i))"
    by (simp add: pushPlaces_Nil)
qed

lemma removed_exact:
  "(i, k, c) \<in> set (entriesAt (cd_removed (compareConnections prev w)) nm ty) \<longleftrightarrow>
     last_position (connectionsAt prev nm ty i) k c \<and> c \<notin> set (connectionsAt w nm ty i)"
  "cd_removed (compareConnections prev w) = [] \<longleftrightarrow>
     (\<forall>nm ty i. set (connectionsAt prev nm ty i) \<subseteq> set (connectionsAt w nm ty i))"
  unfolding compareConnections_eq connections_diff.simps
  by (rule pushPlaces_exact, simp add: connectionsAt_places)+

lemma added_exact:
  "(i, k, c) \<in> set (entriesAt (cd_added (compareConnections prev w)) nm ty) \<longleftrightarrow>
     last_position (connectionsAt w nm ty i) k c \<and> c \<notin> set (connectionsAt prev nm ty i)"
  "cd_added (compareConnections prev w) = [] \<longleftrightarrow>
     (\<forall>nm ty i. set (connectionsAt w nm ty i) \<subseteq> set (connectionsAt prev nm ty i))"
  unfolding compareConnections_eq connections_diff.simps
  by (rule pushPlaces_exact, simp add: connectionsAt_places)+

text \<open>
  The diff of the connections lists as removed exactly the connections that the first version has at
  an output and the second has not at the same output, each with its (last) position, as added the ones it is
  the other way round for; and a list is empty only if there are none.
\<close>

lemma compareConnections_exact:
  "((i, k, c) \<in> set (entriesAt (cd_removed (compareConnections prev w)) nm ty) \<longleftrightarrow>
      last_position (connectionsAt prev nm ty i) k c \<and> c \<notin> set (connectionsAt w nm ty i)) \<and>
    ((i, k, c) \<in> set (entriesAt (cd_added (compareConnections prev w)) nm ty) \<longleftrightarrow>
      last_position (connectionsAt w nm ty i) k c \<and> c \<notin> set (connectionsAt prev nm ty i)) \<and>
    (cd_removed (compareConnections prev w) = [] \<longleftrightarrow>
      (\<forall>nm ty i. set (connectionsAt prev nm ty i) \<subseteq> set (connectionsAt w nm ty i))) \<and>
    (cd_added (compareConnections prev w) = [] \<longleftrightarrow>
      (\<forall>nm ty i. set (connectionsAt w nm ty i) \<subseteq> set (connectionsAt prev nm ty i)))"
  by (intro conjI removed_exact added_exact)

section \<open>A merge loses nothing\<close>

lemma mergeNodes_total:
  assumes "\<forall>(st, n) \<in> set ds. st = DiffDeleted \<or> st = DiffAdded \<or> (\<exists>x \<in> set nextNodes. dn_id x = dn_id n)"
  shows "\<exists>b. mergeNodes lo nextNodes ds = Inr b"
  using assms
proof (induction ds)
  case (Cons d ds)
  obtain st n where d: "d = (st, n)" by force
  show ?case
  proof (cases "find (\<lambda>x. dn_id x = dn_id n) nextNodes")
    case None
    then have "st = DiffDeleted \<or> st = DiffAdded" using Cons.prems d by (auto simp: find_None_iff)
    with d Cons show ?thesis by auto
  next
    case (Some x)
    with d Cons show ?thesis by auto
  qed
qed auto

lemma mergeNodes_True:
  "mergeNodes lo nextNodes ds = Inr True \<Longrightarrow> (st, n) \<in> set ds \<Longrightarrow>
    st = DiffAdded \<or> (\<exists>x. find (\<lambda>x. dn_id x = dn_id n) nextNodes = Some x \<and> st \<noteq> DiffDeleted \<and>
      (st = DiffModified \<longrightarrow> nodeIsSuperset lo n x))"
  by (induction lo nextNodes ds rule: mergeNodes.induct) (auto split: if_splits option.splits)

lemma diff_entry:
  assumes "(i, st, n) \<in> set (compareWorkflowsNodes nodesEqual base target)"
  shows "dn_id n = i \<and> (st = DiffDeleted \<or> st = DiffAdded \<or> (\<exists>x \<in> set target. dn_id x = dn_id n))"
proof -
  have look: "map_of (compareWorkflowsNodes nodesEqual base target) i = Some (st, n)"
    using assms distinct_node_diff by simp
  show ?thesis
  proof (cases "map_of (nodesById base) i")
    case None
    with look show ?thesis by (auto simp: node_diff_lookup dest: nodesById_id)
  next
    case (Some b)
    with look have n: "n = b" "dn_id n = i" by (auto simp: node_diff_lookup dest: nodesById_id)
    with Some look show ?thesis
      by (cases "map_of (nodesById target) i") (auto simp: node_diff_lookup dest: nodesById_id)
  qed
qed

text \<open>
  The assertion of the merge rule never fails: on the change set of the two versions themselves the rule always
  comes to a decision.
\<close>

lemma merge_never_throws:
  "mergeAdditiveChanges lo prev w (newWorkflowChangeSet lo False prev w) score \<noteq> Inl err"
proof -
  let ?d = "compareWorkflowsNodes (compareNodes lo) (dw_nodes prev) (dw_nodes w)"
  have "\<forall>(st, n) \<in> set (map snd ?d). st = DiffDeleted \<or> st = DiffAdded \<or> (\<exists>x \<in> set (dw_nodes w). dn_id x = dn_id n)"
    using diff_entry by fastforce
  from mergeNodes_total [OF this, of lo] show ?thesis
    by (auto simp: mergeAdditiveChanges_def newWorkflowChangeSet_def)
qed

text \<open>What one node keeps of another: equal properties, or the same ones beside parameters that contain the old ones.\<close>

definition keepsNode :: "lodash \<Rightarrow> diffable_node \<Rightarrow> diffable_node \<Rightarrow> bool" where
  "keepsNode lo n n' \<longleftrightarrow> compareNodes lo (Some n) (Some n') \<or>
     compareProps lo (withoutParameters n @ [(''parameters'', JObj [])]) (withoutParameters n' @ [(''parameters'', JObj [])]) \<and>
     (\<forall>path x. valueAt path (orElse (map_of (dn_props n) ''parameters'') JUndefined) = Some x \<longrightarrow>
       (\<exists>y. valueAt path (orElse (map_of (dn_props n') ''parameters'') JUndefined) = Some y \<and> containsValue x y))"


section \<open>The versions that remain\<close>

text \<open>Whether a version is dropped in favour of the next one that remains.\<close>

definition superseded ::
  "lodash \<Rightarrow> diff_rule list \<Rightarrow> diff_rule list \<Rightarrow> nat option \<Rightarrow> diffable_workflow \<Rightarrow> diffable_workflow \<Rightarrow> bool result" where
  "superseded lo rules skipRules score prev w =
     (let wcs = newWorkflowChangeSet lo False prev w
      in ebind (anyRule skipRules prev w wcs score) (\<lambda>skip. if skip then Inr False else anyRule rules prev w wcs score))"

text \<open>The reference: from the last version back, each one is compared with the latest that was kept.\<close>

fun keepFrom :: "('w \<Rightarrow> 'w \<Rightarrow> bool result) \<Rightarrow> 'w list \<Rightarrow> 'w list \<times> 'w list \<Rightarrow> ('w list \<times> 'w list) result" where
  "keepFrom m [] st = Inr st"
| "keepFrom m (v # vs) (kept, removed) =
     ebind (m v (hd kept)) (\<lambda>b. keepFrom m vs (if b then (kept, removed @ [v]) else (v # kept, removed)))"

lemma versionLoop_keepFrom:
  "kept \<noteq> [] \<Longrightarrow> versionLoop lo rules skipRules score (length vs) (rev vs @ kept, removed) =
     keepFrom (superseded lo rules skipRules score) vs (kept, removed)"
proof (induction vs arbitrary: kept removed)
  case (Cons v vs)
  obtain k ks where kept: "kept = k # ks" using Cons.prems by (cases kept) auto
  have get: "js_get (rev (v # vs) @ kept) (length vs) = Some v" "js_get (rev (v # vs) @ kept) (Suc (length vs)) = Some k"
    by (simp_all add: js_get_def nth_append kept)
  have drop_v: "splice1 (length vs) (rev (v # vs) @ kept) = rev vs @ kept" by simp
  have "versionStep lo rules skipRules score (Suc (length vs)) (rev (v # vs) @ kept, removed) =
      ebind (superseded lo rules skipRules score v k) (\<lambda>b. Inr (if b then (rev vs @ kept, removed @ [v])
        else (rev vs @ v # kept, removed)))"
    using get drop_v
    by (cases "anyRule skipRules v k (newWorkflowChangeSet lo False v k) score")
      (auto simp: versionStep_def superseded_def Let_def intro!: ebind_cong)
  then show ?case using Cons.IH [of kept] Cons.IH [of "v # kept"] Cons.prems
    by (cases "superseded lo rules skipRules score v k") (simp_all add: kept)
qed simp

lemma keepFrom_result:
  assumes "keepFrom m vs (kept, removed) = Inr (K, R)" "kept \<noteq> []"
  shows "\<exists>ks rs. K = ks @ kept \<and> R = removed @ rs \<and> mset ks + mset rs = mset vs \<and> subseq ks (rev vs) \<and>
    successively (\<lambda>a b. m a b = Inr False) (ks @ [hd kept]) \<and>
    (\<forall>v \<in> set rs. \<exists>w \<in> set K. m v w = Inr True \<and> subseq [v, w] (rev vs @ kept))"
  using assms
proof (induction vs arbitrary: kept removed)
  case Nil
  then show ?case by (intro exI [of _ "[]"]) auto
next
  case (Cons v vs)
  from Cons.prems obtain b where b: "m v (hd kept) = Inr b"
    "keepFrom m vs (if b then (kept, removed @ [v]) else (v # kept, removed)) = Inr (K, R)" by auto
  have longer: "subseq [x, w] (rev vs @ kept) \<Longrightarrow> subseq [x, w] (rev (v # vs) @ kept)" for x w
    by (rule subseq_order.trans) (auto intro: list_emb_append_mono)
  show ?case
  proof (cases b)
    case True
    with Cons.IH [of kept "removed @ [v]"] b(2) Cons.prems(2) obtain ks rs where
      IH: "K = ks @ kept" "R = (removed @ [v]) @ rs" "mset ks + mset rs = mset vs" "subseq ks (rev vs)"
        "successively (\<lambda>a b. m a b = Inr False) (ks @ [hd kept])"
        "\<forall>v \<in> set rs. \<exists>w \<in> set K. m v w = Inr True \<and> subseq [v, w] (rev vs @ kept)" by auto
    have "subseq [v, hd kept] (rev (v # vs) @ kept)"
      using Cons.prems(2) by (cases kept) (auto intro: list_emb_append2)
    moreover have "hd kept \<in> set K" using IH(1) Cons.prems(2) by (cases kept) auto
    ultimately have "\<forall>x \<in> set (v # rs). \<exists>w \<in> set K. m x w = Inr True \<and> subseq [x, w] (rev (v # vs) @ kept)"
      using b(1) True IH(6) longer by fastforce
    moreover have "subseq ks (rev (v # vs))" using IH(4) by (auto intro: list_emb_append2 subseq_order.trans)
    ultimately show ?thesis using IH(1-3,5) by (intro exI [of _ ks] exI [of _ "v # rs"]) auto
  next
    case False
    with Cons.IH [of "v # kept" removed] b(2) obtain ks rs where
      IH: "K = ks @ v # kept" "R = removed @ rs" "mset ks + mset rs = mset vs" "subseq ks (rev vs)"
        "successively (\<lambda>a b. m a b = Inr False) (ks @ [v])"
        "\<forall>x \<in> set rs. \<exists>w \<in> set K. m x w = Inr True \<and> subseq [x, w] (rev vs @ v # kept)" by auto
    have "successively (\<lambda>a b. m a b = Inr False) ((ks @ [v]) @ [hd kept])"
      using IH(5) b(1) False by (simp add: successively_append_iff)
    moreover have "subseq (ks @ [v]) (rev (v # vs))" using IH(4) by (auto intro: list_emb_append_mono)
    ultimately show ?thesis using IH(1-3,6) by (intro exI [of _ "ks @ [v]"] exI [of _ rs]) auto
  qed
qed

definition sizeScore :: "diffable_workflow list \<Rightarrow> bool \<Rightarrow> nat option" where
  "sizeScore ws wantsSize = (if wantsSize then Some (max (determineNodeParametersSize (ws ! (length ws div 2)))
     (determineNodeParametersSize (last ws))) else None)"

lemma groupWorkflows_keepFrom:
  assumes "ws \<noteq> []"
  shows "groupWorkflows lo ws rules skipRules wantsSize =
    keepFrom (superseded lo rules skipRules (sizeScore ws wantsSize)) (rev (butlast ws)) ([last ws], [])"
proof (cases "length ws = 1")
  case True
  then obtain x where "ws = [x]" by (auto simp: length_Suc_conv)
  then show ?thesis by (simp add: groupWorkflows_def)
next
  case False
  have "groupWorkflows lo ws rules skipRules wantsSize =
      versionLoop lo rules skipRules (sizeScore ws wantsSize) (length (rev (butlast ws))) (rev (rev (butlast ws)) @ [last ws], [])"
    using False assms by (simp add: groupWorkflows_def sizeScore_def)
  then show ?thesis unfolding versionLoop_keepFrom [OF not_Cons_self2] .
qed

text \<open>
  Grouping the versions of a history splits them into the ones that remain, in their order and with the
  last one among them, and the ones that are removed; every removed version is superseded, by the rules, by a later
  version that remains, and of two neighbours that remain the earlier is not superseded by the later.
\<close>

lemma groupWorkflows_split:
  assumes "groupWorkflows lo ws rules skipRules wantsSize = Inr (remaining, removed)" "ws \<noteq> []"
  shows "mset remaining + mset removed = mset ws \<and> subseq remaining ws \<and> remaining \<noteq> [] \<and> last remaining = last ws \<and>
    (\<forall>v \<in> set removed. \<exists>w \<in> set remaining. subseq [v, w] ws \<and>
      superseded lo rules skipRules (sizeScore ws wantsSize) v w = Inr True) \<and>
    successively (\<lambda>v w. superseded lo rules skipRules (sizeScore ws wantsSize) v w = Inr False) remaining"
proof -
  have ws: "rev (rev (butlast ws)) @ [last ws] = ws" using assms(2) by simp
  from assms(1) have "keepFrom (superseded lo rules skipRules (sizeScore ws wantsSize)) (rev (butlast ws)) ([last ws], []) =
      Inr (remaining, removed)" unfolding groupWorkflows_keepFrom [OF assms(2)] .
  from keepFrom_result [OF this not_Cons_self2, unfolded ws] obtain ks rs where
    k: "remaining = ks @ [last ws]" "removed = [] @ rs" "mset ks + mset rs = mset (rev (butlast ws))" "subseq ks (rev (rev (butlast ws)))"
      "successively (\<lambda>a b. superseded lo rules skipRules (sizeScore ws wantsSize) a b = Inr False) (ks @ [hd [last ws]])"
      "\<forall>v \<in> set rs. \<exists>w \<in> set remaining. superseded lo rules skipRules (sizeScore ws wantsSize) v w = Inr True \<and> subseq [v, w] ws"
    by blast
  have "mset ws = mset (butlast ws) + {#last ws#}" using arg_cong [OF ws, of mset] by simp
  then have "mset remaining + mset removed = mset ws" using k(1-3) by simp
  moreover have "subseq (ks @ [last ws]) (butlast ws @ [last ws])" using k(4) by (intro list_emb_append_mono) simp_all
  then have "subseq remaining ws" using k(1) assms(2) by simp
  ultimately show ?thesis using k by auto
qed

text \<open>A rule that depends on the size applies the largest minimum the size exceeds.\<close>

lemma size_rule_largest:
  assumes "distinct (map fst mapping)" "(c, t) \<in> set mapping" "c < int score" "\<forall>(c', t') \<in> set mapping. c' < int score \<longrightarrow> c' \<le> c"
  shows "makeMergeDependingOnSizeRule mapping prev w d (Some score) = Inr (\<bar>dw_createdAt w - dw_createdAt prev\<bar> < t)"
proof -
  have "firstApplicable ps score prev w = makeMergeShortTimeSpan t prev w"
    if "sorted (map (\<lambda>p. - fst p) ps)" "distinct (map fst ps)" "(c, t) \<in> set ps" "\<forall>(c', t') \<in> set ps. c' < int score \<longrightarrow> c' \<le> c" for ps
    using that
  proof (induction ps)
    case (Cons p ps)
    obtain c' t' where p: "p = (c', t')" by force
    show ?case
    proof (cases "c' = c")
      case True
      with Cons.prems p have "t' = t" by (metis eq_key_imp_eq_value list.set_intros(1))
      with True p assms(3) show ?thesis by simp
    next
      case False
      with Cons.prems p have "(c, t) \<in> set ps" by auto
      then have "- c' \<le> - c" using Cons.prems(1) p by auto
      with False have "c < c'" by simp
      with Cons.prems(4) p have "\<not> c' < int score" by auto
      with Cons.IH Cons.prems \<open>(c, t) \<in> set ps\<close> p show ?thesis by simp
    qed
  qed simp
  moreover have "distinct (map fst (sort_key (\<lambda>p. - fst p) mapping))"
    using assms(1) by (metis distinct_map distinct_sort set_sort)
  ultimately show ?thesis
    using assms by (simp add: makeMergeDependingOnSizeRule_def makeMergeShortTimeSpan_def)
qed

text \<open>Without a change that matters both versions have the same nodes, apart from what is not compared.\<close>

lemma only_positions_changed:
  assumes "\<not> hasNonPositionalChanges lo oldNodes newNodes c c'"
  shows "map_of (nodesById oldNodes) i = None \<longleftrightarrow> map_of (nodesById newNodes) i = None"
    and "map_of (nodesById oldNodes) i = Some n \<Longrightarrow> map_of (nodesById newNodes) i = Some n' \<Longrightarrow> compareNodes lo (Some n) (Some n')"
proof -
  have eq: "st = DiffEq" if "map_of (compareWorkflowsNodes (compareNodes lo) oldNodes newNodes) i = Some (st, n)" for st n
    using assms map_of_SomeD [OF that] by (fastforce simp: hasNonPositionalChanges_def split: if_splits)
  show "map_of (nodesById oldNodes) i = None \<longleftrightarrow> map_of (nodesById newNodes) i = None"
  proof (cases "map_of (nodesById oldNodes) i"; cases "map_of (nodesById newNodes) i")
    fix x assume "map_of (nodesById oldNodes) i = None" "map_of (nodesById newNodes) i = Some x"
    then show ?thesis using eq [of DiffAdded x] by (simp add: node_diff_lookup)
  next
    fix x assume "map_of (nodesById oldNodes) i = Some x" "map_of (nodesById newNodes) i = None"
    then show ?thesis using eq [of DiffDeleted x] by (simp add: node_diff_lookup)
  qed simp_all
  show "map_of (nodesById oldNodes) i = Some n \<Longrightarrow> map_of (nodesById newNodes) i = Some n' \<Longrightarrow> compareNodes lo (Some n) (Some n')"
    using eq [of DiffModified n] by (cases "compareNodes lo (Some n) (Some n')") (auto simp: node_diff_lookup)
qed

section \<open>Witnesses\<close>

definition exLodash :: lodash where
  "exLodash = \<lparr>lo_pick = (\<lambda>fs ks. filter (\<lambda>(k, v). k \<in> set ks) fs), lo_isEqual = (=)\<rparr>"

definition exVersion :: "string \<Rightarrow> string \<Rightarrow> int \<Rightarrow> diffable_workflow" where
  "exVersion nm code t = \<lparr>dw_nodes = [\<lparr>dn_id = ''1'', dn_props = [(''name'', JStr nm), (''parameters'', JObj [(''code'', JStr code)])]\<rparr>],
     dw_connections = [(nm, [(Main, [Some [\<lparr>c_node = nm, c_type = Main, c_index = 0\<rparr>]])])], dw_createdAt = t, dw_authors = None\<rparr>"

definition exOld :: diffable_workflow where
  "exOld = exVersion ''A'' ''x=1'' 0"

definition exNew :: diffable_workflow where
  "exNew = exVersion ''A'' ''x=12;'' 5"


text \<open>Of three versions the first is contained in the second; the third is not an extension of the second.\<close>

definition exHistory :: "diffable_workflow list" where
  "exHistory = [exVersion ''A'' ''x=1'' 0, exVersion ''A'' ''x=12;'' 5, exVersion ''A'' ''y'' 9]"

lemma groupWorkflows_split_witness:
  "\<exists>remaining removed. groupWorkflows exLodash exHistory [mergeAdditiveChanges exLodash] [skipDifferentUsers] False = Inr (remaining, removed) \<and>
    map dw_createdAt remaining = [5, 9] \<and> map dw_createdAt removed = [0] \<and> subseq remaining exHistory \<and>
    (\<exists>w \<in> set remaining. subseq [hd removed, w] exHistory)"
proof -
  let ?r = "groupWorkflows exLodash exHistory [mergeAdditiveChanges exLodash] [skipDifferentUsers] False"
  have times: "map_sum id (map_prod (map dw_createdAt) (map dw_createdAt)) ?r = Inr ([5, 9], [0])"
    by code_simp
  then obtain remaining removed where r: "?r = Inr (remaining, removed)" by (cases ?r) auto
  have "exHistory \<noteq> []" by (simp add: exHistory_def)
  from groupWorkflows_split [OF r this] have split: "subseq remaining exHistory"
    "\<forall>v \<in> set removed. \<exists>w \<in> set remaining. subseq [v, w] exHistory" by blast+
  from r times have t: "map dw_createdAt remaining = [5, 9]" "map dw_createdAt removed = [0]" by simp_all
  then have "hd removed \<in> set removed" by (cases removed) auto
  with split(2) have later: "\<exists>w \<in> set remaining. subseq [hd removed, w] exHistory" by blast
  show ?thesis by (intro exI conjI) (rule r t split(1) later)+
qed

end
