(* ===== verification/Concurrency.thy ===== *)
theory Concurrency
  imports Workflow_Types "HOL-Library.Multiset"
begin

text \<open>
  How many executions run at the same time: the queue that holds executions back
  (\<open>packages/cli/src/concurrency/concurrency-queue.ts\<close>), the service that owns one queue for each kind of
  execution (\<open>concurrency-control.service.ts\<close>), the reservation of capacity
  (\<open>concurrency-capacity-reservation.ts\<close>) and the executions that hold one
  (\<open>packages/cli/src/active-executions.ts\<close>). A call that waits for a promise is an entry of the state;
  the events emitted, logging and telemetry are left out.
\<close>

section \<open>The queue\<close>

text \<open>The \<open>resolve\<close> function of an entry stands for the call of \<open>enqueue\<close> with its execution id.\<close>

record concurrency_queue =
  cq_capacity :: int
  cq_queue :: "string list"

text \<open>\<open>enqueue\<close>: with \<open>True\<close> the call returns, with \<open>False\<close> it waits.\<close>

definition enqueueExecution :: "string \<Rightarrow> concurrency_queue \<Rightarrow> concurrency_queue \<times> bool" where
  "enqueueExecution i q =
     (let q = q\<lparr>cq_capacity := cq_capacity q - 1\<rparr>
      in if cq_capacity q < 0 then (q\<lparr>cq_queue := cq_queue q @ [i]\<rparr>, False) else (q, True))"

text \<open>\<open>resolveNext\<close>, with the execution whose call goes on.\<close>

definition resolveNext :: "concurrency_queue \<Rightarrow> concurrency_queue \<times> string option" where
  "resolveNext q = (case cq_queue q of [] \<Rightarrow> (q, None) | i # is \<Rightarrow> (q\<lparr>cq_queue := is\<rparr>, Some i))"

definition dequeue :: "concurrency_queue \<Rightarrow> concurrency_queue \<times> string option" where
  "dequeue q = resolveNext (q\<lparr>cq_capacity := cq_capacity q + 1\<rparr>)"

definition removeExecution :: "string \<Rightarrow> concurrency_queue \<Rightarrow> concurrency_queue \<times> string option" where
  "removeExecution i q = (case findIndex (\<lambda>j. j = i) (cq_queue q) of
     None \<Rightarrow> (q, None)
   | Some k \<Rightarrow> resolveNext (q\<lparr>cq_queue := splice1 k (cq_queue q), cq_capacity := cq_capacity q + 1\<rparr>))"

definition getAll :: "concurrency_queue \<Rightarrow> string list" where
  "getAll q = saddAll (cq_queue q) []"

definition hasExecution :: "string \<Rightarrow> concurrency_queue \<Rightarrow> bool" where
  "hasExecution i q \<longleftrightarrow> list_ex (\<lambda>j. j = i) (cq_queue q)"

section \<open>The service\<close>

datatype execute_mode =
    MCli | MError | MIntegrated | MInternal | MManual | MRetry | MTrigger | MWebhook | MEvaluation | MChat

datatype queue_type = Production | Evaluation

record control_service =
  cs_isEnabled :: bool
  cs_queues :: "(queue_type \<times> concurrency_queue) list"

text \<open>The constructor: the limits are checked one by one, \<open>-1\<close> means unlimited.\<close>

definition checkLimit :: "int \<Rightarrow> int result" where
  "checkLimit l = (if l = 0 then Inl (UserError ''Concurrency limit set to invalid value'')
     else Inr (if l < - 1 then - 1 else l))"

definition newService :: "int \<Rightarrow> int \<Rightarrow> bool \<Rightarrow> control_service result" where
  "newService productionLimit evaluationLimit queueMode =
     ebind (checkLimit productionLimit) (\<lambda>p. ebind (checkLimit evaluationLimit) (\<lambda>e.
       if p = - 1 \<and> e = - 1 \<or> queueMode then Inr \<lparr>cs_isEnabled = False, cs_queues = []\<rparr>
       else Inr \<lparr>cs_isEnabled = True,
         cs_queues = map (\<lambda>(t, l). (t, \<lparr>cq_capacity = l, cq_queue = []\<rparr>))
           (filter (\<lambda>(t, l). l > 0) [(Production, p), (Evaluation, e)])\<rparr>))"

fun queueOf :: "execute_mode \<Rightarrow> queue_type option" where
  "queueOf MWebhook = Some Production"
| "queueOf MTrigger = Some Production"
| "queueOf MChat = Some Production"
| "queueOf MEvaluation = Some Evaluation"
| "queueOf _ = None"

text \<open>\<open>getQueue\<close>: the queue, with its type, for executions that are limited.\<close>

definition getQueue :: "control_service \<Rightarrow> execute_mode \<Rightarrow> (queue_type \<times> concurrency_queue) option" where
  "getQueue s mode = (case queueOf mode of None \<Rightarrow> None
     | Some t \<Rightarrow> map_option (Pair t) (map_of (cs_queues s) t))"

definition hasEnqueued :: "control_service \<Rightarrow> string \<Rightarrow> bool" where
  "hasEnqueued s i \<longleftrightarrow> cs_isEnabled s \<and> list_ex (\<lambda>(t, q). hasExecution i q) (cs_queues s)"

text \<open>
  \<open>onQueue\<close>: \<open>throttle\<close>, \<open>release\<close> and \<open>remove\<close> do nothing for a disabled service and for a mode without
  limit, and otherwise call one operation of the queue.
\<close>

definition onQueue :: "(concurrency_queue \<Rightarrow> concurrency_queue \<times> 'r) \<Rightarrow> 'r \<Rightarrow> execute_mode \<Rightarrow> control_service \<Rightarrow> control_service \<times> 'r" where
  "onQueue f none mode s =
     (if \<not> cs_isEnabled s then (s, none)
      else case getQueue s mode of None \<Rightarrow> (s, none)
        | Some (t, q) \<Rightarrow> (let (q', r) = f q in (s\<lparr>cs_queues := AList.update t q' (cs_queues s)\<rparr>, r)))"

definition throttle :: "execute_mode \<Rightarrow> string \<Rightarrow> control_service \<Rightarrow> control_service \<times> bool" where
  "throttle mode i = onQueue (enqueueExecution i) True mode"

definition release :: "execute_mode \<Rightarrow> control_service \<Rightarrow> control_service \<times> string option" where
  "release = onQueue dequeue None"

definition removeEnqueued :: "execute_mode \<Rightarrow> string \<Rightarrow> control_service \<Rightarrow> control_service \<times> string option" where
  "removeEnqueued mode i = onQueue (removeExecution i) None mode"

text \<open>\<open>removeAll\<close>, with the executions whose calls go on and the ones cancelled in the database.\<close>

definition emptyQueue :: "concurrency_queue \<Rightarrow> concurrency_queue \<times> string list" where
  "emptyQueue q = fold (\<lambda>i (q, released). case removeExecution i q of
     (q', None) \<Rightarrow> (q', released) | (q', Some j) \<Rightarrow> (q', released @ [j])) (getAll q) (q, [])"

definition removeAllEnqueued :: "string list \<Rightarrow> control_service \<Rightarrow> control_service \<times> string list \<times> string list" where
  "removeAllEnqueued executionIdsToCancel s =
     (if \<not> cs_isEnabled s then (s, [], [])
      else (s\<lparr>cs_queues := map (\<lambda>(t, q). (t, fst (emptyQueue q))) (cs_queues s)\<rparr>,
            concat (map (\<lambda>(t, q). snd (emptyQueue q)) (cs_queues s)), executionIdsToCancel))"

definition disable :: "control_service \<Rightarrow> control_service" where
  "disable s = s\<lparr>cs_isEnabled := False\<rparr>"

text \<open>\<open>shouldReport\<close>: the capacities at which a cloud deployment reports.\<close>

definition limitsToReport :: "int list" where
  "limitsToReport = map (\<lambda>t. 999 - t) [5, 10, 20, 50, 100, 200]"

definition shouldReport :: "bool \<Rightarrow> int \<Rightarrow> bool" where
  "shouldReport cloud capacity \<longleftrightarrow> cloud \<and> capacity \<in> set limitsToReport"

section \<open>Reservations\<close>

type_synonym reservation = "execute_mode option"

text \<open>\<open>reserve\<close> after its \<open>throttle\<close> has returned, and \<open>release\<close>, which gives the capacity back once.\<close>

definition reserve :: "execute_mode \<Rightarrow> reservation \<Rightarrow> reservation result" where
  "reserve mode r = (if r \<noteq> None then Inl AssertionError else Inr (Some mode))"

definition releaseReservation :: "reservation \<Rightarrow> control_service \<Rightarrow> reservation \<times> control_service \<times> string option" where
  "releaseReservation r s = (case r of None \<Rightarrow> (None, s, None)
     | Some mode \<Rightarrow> (case release mode s of (s', i) \<Rightarrow> (None, s', i)))"

section \<open>What a queue promises\<close>

text \<open>
  A schedule: requests (\<open>Some i\<close>) and places given back (\<open>None\<close>). The result names the clients that
  passed, in this order.
\<close>

fun schedule :: "('i \<Rightarrow> 'q \<Rightarrow> 'q \<times> bool) \<Rightarrow> ('q \<Rightarrow> 'q \<times> 'i option) \<Rightarrow> 'i option list \<Rightarrow> 'q \<Rightarrow> 'i list \<Rightarrow> 'q \<times> 'i list" where
  "schedule request free [] q passed = (q, passed)"
| "schedule request free (Some i # es) q passed =
     (case request i q of (q', b) \<Rightarrow> schedule request free es q' (if b then passed @ [i] else passed))"
| "schedule request free (None # es) q passed =
     (case free q of (q', r) \<Rightarrow> schedule request free es q' (case r of None \<Rightarrow> passed | Some i \<Rightarrow> passed @ [i]))"

text \<open>
  The contract of a gate that lets a limited number of clients pass: \<open>spare\<close> is how many more could,
  \<open>waiting\<close> who is held back. A client that is refused is queued, a place given back goes to the one
  that waits longest. \<open>gate_ok\<close> is what the operations keep: nobody waits while there is a place.
\<close>

locale gate =
  fixes request :: "'i \<Rightarrow> 'q \<Rightarrow> 'q \<times> bool" and free :: "'q \<Rightarrow> 'q \<times> 'i option"
    and waiting :: "'q \<Rightarrow> 'i list" and spare :: "'q \<Rightarrow> int"
  assumes request_passed: "request i q = (q', True) \<Longrightarrow> waiting q' = waiting q \<and> spare q' = spare q - 1 \<and> spare q > int (length (waiting q))"
    and request_refused: "request i q = (q', False) \<Longrightarrow> waiting q' = waiting q @ [i] \<and> spare q' = spare q \<and> spare q \<le> int (length (waiting q))"
    and free_next: "free q = (q', Some i) \<Longrightarrow> waiting q = i # waiting q' \<and> spare q' = spare q"
    and free_none: "free q = (q', None) \<Longrightarrow> waiting q = [] \<and> waiting q' = [] \<and> spare q' = spare q + 1"
begin

definition gate_ok :: "'q \<Rightarrow> bool" where
  "gate_ok q \<longleftrightarrow> waiting q \<noteq> [] \<longrightarrow> spare q \<le> 0"

lemma request_ok: "request i q = (q', r) \<Longrightarrow> gate_ok q \<Longrightarrow> gate_ok q'"
  by (cases r) (auto simp: gate_ok_def dest!: request_passed request_refused)

lemma free_ok: "free q = (q', r) \<Longrightarrow> gate_ok q \<Longrightarrow> gate_ok q'"
  by (cases r) (auto simp: gate_ok_def dest!: free_next free_none)

lemma schedule_fifo:
  assumes "gate_ok q" "schedule request free es q passed = (q', passed')"
  shows "gate_ok q' \<and> passed' @ waiting q' = passed @ waiting q @ List.map_filter id es \<and>
    spare q' + int (length passed') = spare q + int (length passed) + int (length (filter (\<lambda>e. e = None) es))"
  using assms
proof (induction es arbitrary: q passed)
  case Nil
  then show ?case by (simp add: List.map_filter_def)
next
  case (Cons e es)
  show ?case
  proof (cases e)
    case None
    obtain q1 r where r: "free q = (q1, r)" by fastforce
    show ?thesis
      using Cons.prems Cons.IH [of q1 passed] Cons.IH [of q1 "passed @ [the r]"] None r free_ok [OF r] free_none free_next
      by (cases r) (auto simp: List.map_filter_def)
  next
    case (Some i)
    obtain q1 b where r: "request i q = (q1, b)" by fastforce
    show ?thesis
    proof (cases b)
      case True
      with r request_passed have p: "waiting q1 = waiting q" "spare q1 = spare q - 1" "spare q > int (length (waiting q))" by auto
      then have "waiting q = []" using Cons.prems(1) by (auto simp: gate_ok_def)
      with Cons.prems Cons.IH [of q1 "passed @ [i]"] Some r True p request_ok [OF r] show ?thesis
        by (auto simp: List.map_filter_def)
    next
      case False
      with Cons.prems Cons.IH [of q1 passed] Some r request_ok [OF r] request_refused show ?thesis
        by (auto simp: List.map_filter_def)
    qed
  qed
qed

end

interpretation cq: gate enqueueExecution dequeue cq_queue "\<lambda>q. cq_capacity q + int (length (cq_queue q))"
  by unfold_locales
    (auto simp: enqueueExecution_def dequeue_def resolveNext_def Let_def split: if_splits list.splits)

end
