(* ===== verification/ActiveExecutions.thy ===== *)
theory ActiveExecutions
  imports Concurrency
begin

text \<open>
  The executions of one process (\<open>class ActiveExecutions\<close>, \<open>packages/cli/src/active-executions.ts\<close>, and
  \<open>stopInRegularMode\<close> of \<open>packages/cli/src/executions/execution.service.ts\<close>) as a state machine. A call of
  \<open>add\<close> is three steps: it asks for capacity, it may have to wait for it, and it goes on with the answer
  of the database, which is a parameter of that step. The end of an execution is the step in which its
  \<open>postExecutePromise\<close> settles. The response promises, the HTTP response and the workflow runner are
  left out.
\<close>

section \<open>State\<close>

text \<open>An object of the map; the closure that releases the reservation belongs to the object.\<close>

record execution =
  x_id :: string
  x_mode :: execute_mode
  x_status :: execution_status
  x_reservation :: reservation
  x_settled :: bool

record pending_add =
  pa_id :: string
  pa_mode :: execute_mode

text \<open>
  \<open>a_objects\<close> holds every execution object ever added, \<open>a_active\<close> maps an execution id to the number of
  its object; \<open>a_waiting\<close> are the calls of \<open>add\<close> that wait for capacity, \<open>a_granted\<close> those that have it.
\<close>

record active_state =
  a_service :: control_service
  a_waiting :: "pending_add list"
  a_granted :: "pending_add list"
  a_objects :: "execution list"
  a_active :: "(string \<times> nat) list"

definition hasActive :: "active_state \<Rightarrow> string \<Rightarrow> bool" where
  "hasActive st i \<longleftrightarrow> map_of (a_active st) i \<noteq> None"

section \<open>Operations\<close>

text \<open>The call of \<open>add\<close> that waits for the queue and the execution id goes on.\<close>

definition grant :: "queue_type \<Rightarrow> string option \<Rightarrow> active_state \<Rightarrow> active_state" where
  "grant t r st = (case r of None \<Rightarrow> st
     | Some i \<Rightarrow> (case findIndex (\<lambda>p. pa_id p = i \<and> queueOf (pa_mode p) = Some t) (a_waiting st) of None \<Rightarrow> st
         | Some k \<Rightarrow> st\<lparr>a_waiting := splice1 k (a_waiting st), a_granted := a_granted st @ [a_waiting st ! k]\<rparr>))"

definition giveBack :: "reservation \<Rightarrow> active_state \<Rightarrow> active_state" where
  "giveBack r st = (case releaseReservation r (a_service st) of (_, s, i) \<Rightarrow>
     (case r of None \<Rightarrow> st
      | Some mode \<Rightarrow> (case queueOf mode of None \<Rightarrow> st\<lparr>a_service := s\<rparr>
          | Some t \<Rightarrow> grant t i (st\<lparr>a_service := s\<rparr>))))"

text \<open>\<open>add\<close> up to the reservation.\<close>

definition beginAdd :: "string \<Rightarrow> execute_mode \<Rightarrow> active_state \<Rightarrow> active_state" where
  "beginAdd i mode st = (case throttle mode i (a_service st) of (s, passed) \<Rightarrow>
     if passed then st\<lparr>a_service := s, a_granted := a_granted st @ [\<lparr>pa_id = i, pa_mode = mode\<rparr>]\<rparr>
     else st\<lparr>a_service := s, a_waiting := a_waiting st @ [\<lparr>pa_id = i, pa_mode = mode\<rparr>]\<rparr>)"

text \<open>\<open>add\<close> after the reservation: \<open>ok\<close> tells whether the database took the execution over.\<close>

definition continueAdd :: "nat \<Rightarrow> bool \<Rightarrow> active_state \<Rightarrow> active_state" where
  "continueAdd k ok st =
     (let p = a_granted st ! k; st = st\<lparr>a_granted := splice1 k (a_granted st)\<rparr>
      in if ok
         then st\<lparr>a_objects := a_objects st @ [\<lparr>x_id = pa_id p, x_mode = pa_mode p, x_status = StRunning,
                   x_reservation = Some (pa_mode p), x_settled = False\<rparr>],
                 a_active := AList.update (pa_id p) (length (a_objects st)) (a_active st)\<rparr>
         else giveBack (Some (pa_mode p)) st)"

text \<open>The promise of an object settles: the capacity is given back; a waiting execution stays in the map.\<close>

definition settle :: "nat \<Rightarrow> active_state \<Rightarrow> active_state" where
  "settle k st =
     (let x = a_objects st ! k;
          st = giveBack (x_reservation x) (st\<lparr>a_objects := (a_objects st)[k := x\<lparr>x_reservation := None, x_settled := True\<rparr>]\<rparr>)
      in if x_status x = StWaiting then st else st\<lparr>a_active := AList.delete (x_id x) (a_active st)\<rparr>)"

definition setStatus :: "string \<Rightarrow> execution_status \<Rightarrow> active_state \<Rightarrow> active_state result" where
  "setStatus i status st = (case map_of (a_active st) i of None \<Rightarrow> Inl (UnexpectedError ''No active execution found'')
     | Some k \<Rightarrow> Inr (st\<lparr>a_objects := (a_objects st)[k := (a_objects st ! k)\<lparr>x_status := status\<rparr>]\<rparr>))"

text \<open>
  \<open>stopExecution\<close>: a waiting execution is removed; the promise of any other one is rejected, which is a
  \<open>settle\<close> step of its own.
\<close>

definition stopExecution :: "string \<Rightarrow> active_state \<Rightarrow> active_state" where
  "stopExecution i st = (case map_of (a_active st) i of None \<Rightarrow> st
     | Some k \<Rightarrow> if x_status (a_objects st ! k) = StWaiting then st\<lparr>a_active := AList.delete i (a_active st)\<rparr> else st)"

text \<open>\<open>stopInRegularMode\<close> for an execution that waits in a queue: its call of \<open>add\<close> never goes on.\<close>

definition cancelEnqueued :: "string \<Rightarrow> execute_mode \<Rightarrow> active_state \<Rightarrow> active_state" where
  "cancelEnqueued i mode st =
     (if \<not> hasEnqueued (a_service st) i then st
      else case (removeEnqueued mode i (a_service st), queueOf mode) of
        ((s, r), Some t) \<Rightarrow>
          (case findIndex (\<lambda>p. pa_id p = i \<and> queueOf (pa_mode p) = Some t) (a_waiting st) of None \<Rightarrow> st\<lparr>a_service := s\<rparr>
           | Some k \<Rightarrow> grant t r (st\<lparr>a_service := s, a_waiting := splice1 k (a_waiting st)\<rparr>))
      | ((s, _), None) \<Rightarrow> st\<lparr>a_service := s\<rparr>)"

text \<open>
  \<open>shutdown\<close> up to the loop that waits for the executions to end, with the executions the database is
  told to cancel. In regular mode the service is disabled first.
\<close>

definition stopOne :: "bool \<Rightarrow> bool \<Rightarrow> string \<Rightarrow> active_state \<times> string list \<Rightarrow> active_state \<times> string list" where
  "stopOne regular cancelAll i = (\<lambda>(st, toCancel).
     if regular \<and> cancelAll then (stopExecution i st, toCancel @ [i])
     else case map_of (a_active st) i of None \<Rightarrow> (st, toCancel)
       | Some k \<Rightarrow> if x_status (a_objects st ! k) \<in> {StWaiting, StNew}
           then (st\<lparr>a_active := AList.delete i (a_active st)\<rparr>, toCancel) else (st, toCancel))"

definition shutdown :: "bool \<Rightarrow> bool \<Rightarrow> active_state \<Rightarrow> active_state \<times> string list" where
  "shutdown regular cancelAll st =
     (let st = (if regular then st\<lparr>a_service := disable (a_service st)\<rparr> else st);
          (st, toCancel) = fold (stopOne regular cancelAll) (map fst (a_active st)) (st, []);
          (s, released, cancelled) = removeAllEnqueued toCancel (a_service st)
      in (st\<lparr>a_service := s\<rparr>, cancelled))"

section \<open>The state machine\<close>

text \<open>One step; with \<open>cancels = False\<close> no execution is cancelled while it waits for capacity.\<close>

inductive active_step :: "bool \<Rightarrow> active_state \<Rightarrow> active_state \<Rightarrow> bool" for cancels where
  Begin: "active_step cancels st (beginAdd i mode st)"
| Go_on: "k < length (a_granted st) \<Longrightarrow> active_step cancels st (continueAdd k ok st)"
| Settle: "k < length (a_objects st) \<Longrightarrow> \<not> x_settled (a_objects st ! k) \<Longrightarrow> active_step cancels st (settle k st)"
| Status: "setStatus i status st = Inr st' \<Longrightarrow> active_step cancels st st'"
| Stop: "active_step cancels st (stopExecution i st)"
| Cancel: "cancels \<Longrightarrow> active_step cancels st (cancelEnqueued i mode st)"

inductive_cases active_stepE: "active_step cancels st st'"

definition initialState :: "control_service \<Rightarrow> active_state" where
  "initialState s = \<lparr>a_service = s, a_waiting = [], a_granted = [], a_objects = [], a_active = []\<rparr>"

section \<open>Who holds capacity\<close>

definition ofQueue :: "queue_type \<Rightarrow> execute_mode \<Rightarrow> bool" where
  "ofQueue t mode \<longleftrightarrow> queueOf mode = Some t"

definition waitingIds :: "queue_type \<Rightarrow> active_state \<Rightarrow> string list" where
  "waitingIds t st = map pa_id (filter (\<lambda>p. ofQueue t (pa_mode p)) (a_waiting st))"

definition holds :: "queue_type \<Rightarrow> execution \<Rightarrow> bool" where
  "holds t x \<longleftrightarrow> (case x_reservation x of None \<Rightarrow> False | Some mode \<Rightarrow> ofQueue t mode)"

text \<open>The executions that run under a queue's limit: objects with a reservation, and calls about to add one.\<close>

definition holders :: "queue_type \<Rightarrow> active_state \<Rightarrow> nat" where
  "holders t st = length (filter (\<lambda>p. ofQueue t (pa_mode p)) (a_granted st)) + length (filter (holds t) (a_objects st))"

definition queue_inv :: "bool \<Rightarrow> int \<Rightarrow> string list \<Rightarrow> nat \<Rightarrow> concurrency_queue \<Rightarrow> bool" where
  "queue_inv cancels limit ws h q \<longleftrightarrow> cq_capacity q + int (length ws) + int h = limit \<and> cq_queue q = ws \<and>
     (ws \<noteq> [] \<longrightarrow> limit \<le> int h) \<and> (\<not> cancels \<longrightarrow> int h \<le> limit)"

definition queues_inv :: "bool \<Rightarrow> (queue_type \<Rightarrow> int) \<Rightarrow> (queue_type \<Rightarrow> nat) \<Rightarrow> active_state \<Rightarrow> bool" where
  "queues_inv cancels limit h st \<longleftrightarrow> cs_isEnabled (a_service st) \<and>
     (\<forall>t q. map_of (cs_queues (a_service st)) t = Some q \<longrightarrow> queue_inv cancels (limit t) (waitingIds t st) (h t) q)"

definition capacity_inv :: "bool \<Rightarrow> (queue_type \<Rightarrow> int) \<Rightarrow> active_state \<Rightarrow> bool" where
  "capacity_inv cancels limit st \<longleftrightarrow> queues_inv cancels limit (\<lambda>t. holders t st) st"

subsection \<open>The queue operations\<close>

lemma queue_inv_enqueue:
  assumes "enqueueExecution i q = (q', passed)" "queue_inv cancels limit ws h q"
  shows "if passed then queue_inv cancels limit ws (Suc h) q' else queue_inv cancels limit (ws @ [i]) h q'"
  using assms by (auto simp: enqueueExecution_def queue_inv_def Let_def split: if_splits)

lemma queue_inv_dequeue:
  assumes "dequeue q = (q', r)" "queue_inv cancels limit ws (Suc h) q"
  shows "case r of None \<Rightarrow> ws = [] \<and> queue_inv cancels limit ws h q'
    | Some i \<Rightarrow> ws \<noteq> [] \<and> i = hd ws \<and> queue_inv cancels limit (tl ws) (Suc h) q'"
  using assms by (auto simp: dequeue_def resolveNext_def queue_inv_def split: list.splits)

lemma queue_inv_remove:
  assumes "removeExecution i q = (q', r)" "queue_inv True limit ws h q"
  shows "case findIndex (\<lambda>j. j = i) ws of None \<Rightarrow> r = None \<and> q' = q
    | Some k \<Rightarrow> (case r of None \<Rightarrow> splice1 k ws = [] \<and> queue_inv True limit [] h q'
        | Some j \<Rightarrow> splice1 k ws \<noteq> [] \<and> j = hd (splice1 k ws) \<and> queue_inv True limit (tl (splice1 k ws)) (Suc h) q')"
proof (cases "findIndex (\<lambda>j. j = i) ws")
  case None
  with assms show ?thesis by (auto simp: removeExecution_def queue_inv_def)
next
  case (Some k)
  with findIndex_Some [OF Some] have len: "length ws = Suc (length (splice1 k ws))" by (cases ws) (simp_all add: length_splice1)
  then have "ws \<noteq> []" by auto
  show ?thesis
  proof (cases "splice1 k ws")
    case Nil
    with assms Some len show ?thesis
      by (auto simp: removeExecution_def resolveNext_def queue_inv_def)
  next
    case (Cons j js)
    with assms Some len show ?thesis
      by (auto simp: removeExecution_def resolveNext_def queue_inv_def)
  qed
qed

subsection \<open>The service\<close>

lemma map_of_onQueue:
  assumes "cs_isEnabled s"
  shows "case (queueOf mode, map_option (map_of (cs_queues s)) (queueOf mode)) of
     (Some t, Some (Some q)) \<Rightarrow> onQueue f none mode s = (s\<lparr>cs_queues := AList.update t (fst (f q)) (cs_queues s)\<rparr>, snd (f q))
   | _ \<Rightarrow> onQueue f none mode s = (s, none)"
  using assms by (auto simp: onQueue_def getQueue_def split: option.splits prod.splits)

lemma findIndex_filter:
  assumes "filter Q xs = y # ys" "P y"
  shows "\<exists>k. findIndex (\<lambda>x. P x \<and> Q x) xs = Some k \<and> xs ! k = y \<and> filter Q (splice1 k xs) = ys \<and>
    (\<forall>R. (\<forall>x. R x \<longrightarrow> \<not> Q x) \<longrightarrow> filter R (splice1 k xs) = filter R xs)"
  using assms
proof (induction xs)
  case (Cons x xs)
  show ?case
  proof (cases "Q x")
    case True
    with Cons.prems show ?thesis by (intro exI [of _ 0]) (auto simp: splice1_def)
  next
    case False
    with Cons obtain k where "findIndex (\<lambda>x. P x \<and> Q x) xs = Some k" "xs ! k = y" "filter Q (splice1 k xs) = ys"
      "\<forall>R. (\<forall>x. R x \<longrightarrow> \<not> Q x) \<longrightarrow> filter R (splice1 k xs) = filter R xs" by auto
    with False show ?thesis by (intro exI [of _ "Suc k"]) (auto simp: splice1_def)
  qed
qed simp

lemma queues_inv_grant:
  assumes "queueOf mode = Some t" "waitingIds t st \<noteq> []" "i = hd (waitingIds t st)"
  shows "waitingIds t (grant t (Some i) st) = tl (waitingIds t st)" "holders t (grant t (Some i) st) = Suc (holders t st)"
    "t' \<noteq> t \<Longrightarrow> waitingIds t' (grant t (Some i) st) = waitingIds t' st"
    "t' \<noteq> t \<Longrightarrow> holders t' (grant t (Some i) st) = holders t' st"
    "a_service (grant t (Some i) st) = a_service st"
proof -
  from assms(2) obtain p ps where ps: "filter (\<lambda>p. ofQueue t (pa_mode p)) (a_waiting st) = p # ps"
    by (auto simp: waitingIds_def neq_Nil_conv)
  with assms(3) have "pa_id p = i" by (simp add: waitingIds_def)
  from findIndex_filter [OF ps, of "\<lambda>p. pa_id p = i", OF this] obtain k where
    k: "findIndex (\<lambda>p. pa_id p = i \<and> ofQueue t (pa_mode p)) (a_waiting st) = Some k" "a_waiting st ! k = p"
      "filter (\<lambda>p. ofQueue t (pa_mode p)) (splice1 k (a_waiting st)) = ps" and
    other: "\<And>R. (\<forall>x. R x \<longrightarrow> \<not> ofQueue t (pa_mode x)) \<Longrightarrow> filter R (splice1 k (a_waiting st)) = filter R (a_waiting st)" by blast
  have g: "grant t (Some i) st = st\<lparr>a_waiting := splice1 k (a_waiting st), a_granted := a_granted st @ [p]\<rparr>"
    using k(1,2) by (simp add: grant_def ofQueue_def)
  have p: "ofQueue t (pa_mode p)" using ps by (metis (mono_tags, lifting) filter_eq_ConsD)
  show "waitingIds t (grant t (Some i) st) = tl (waitingIds t st)" using k(3) ps by (simp add: g waitingIds_def)
  show "holders t (grant t (Some i) st) = Suc (holders t st)" using p by (simp add: g holders_def)
  show "a_service (grant t (Some i) st) = a_service st" by (simp add: g)
  show "waitingIds t' (grant t (Some i) st) = waitingIds t' st" if "t' \<noteq> t"
    using other [of "\<lambda>p. ofQueue t' (pa_mode p)"] that by (auto simp: g waitingIds_def ofQueue_def)
  show "holders t' (grant t (Some i) st) = holders t' st" if "t' \<noteq> t"
    using p that by (auto simp: g holders_def ofQueue_def)
qed

lemma grant_None [simp]: "grant t None st = st"
  by (simp add: grant_def)

text \<open>Giving back one place of the mode, held by nobody any more.\<close>

lemma capacity_inv_giveBack:
  assumes "queues_inv cancels limit (\<lambda>t. holders t st + (if ofQueue t mode then 1 else 0)) st"
  shows "capacity_inv cancels limit (giveBack (Some mode) st)"
proof (cases "getQueue (a_service st) mode")
  case None
  have on: "cs_isEnabled (a_service st)" using assms by (simp add: queues_inv_def)
  have "giveBack (Some mode) st = st"
    using None on by (auto simp: giveBack_def releaseReservation_def release_def onQueue_def split: option.splits)
  moreover have "\<not> ofQueue t mode" if "map_of (cs_queues (a_service st)) t = Some q" for t q
    using None that by (auto simp: getQueue_def ofQueue_def split: option.splits)
  ultimately show ?thesis using assms by (auto simp: capacity_inv_def queues_inv_def)
next
  case (Some tq)
  then obtain t q where tq: "tq = (t, q)" "queueOf mode = Some t" "map_of (cs_queues (a_service st)) t = Some q"
    by (auto simp: getQueue_def split: option.splits)
  obtain q' r where dq: "dequeue q = (q', r)" by fastforce
  have on: "cs_isEnabled (a_service st)" using assms by (simp add: queues_inv_def)
  let ?s = "(a_service st)\<lparr>cs_queues := AList.update t q' (cs_queues (a_service st))\<rparr>"
  have g: "giveBack (Some mode) st = grant t r (st\<lparr>a_service := ?s\<rparr>)"
    using Some tq dq on by (simp add: giveBack_def releaseReservation_def release_def onQueue_def)
  have "queue_inv cancels (limit t) (waitingIds t st) (holders t st + (if ofQueue t mode then 1 else 0)) q"
    using assms tq(3) by (simp add: queues_inv_def)
  then have q: "queue_inv cancels (limit t) (waitingIds t st) (Suc (holders t st)) q"
    using tq(2) by (simp add: ofQueue_def)
  note next_ = queue_inv_dequeue [OF dq q]
  have other: "queue_inv cancels (limit t') (waitingIds t' st) (holders t' st) q2"
    if "t' \<noteq> t" "map_of (cs_queues (a_service st)) t' = Some q2" for t' q2
  proof -
    have "queue_inv cancels (limit t') (waitingIds t' st) (holders t' st + (if ofQueue t' mode then 1 else 0)) q2"
      using assms that(2) by (simp add: queues_inv_def)
    with that(1) tq(2) show ?thesis by (simp add: ofQueue_def)
  qed
  have simps: "waitingIds t' (st\<lparr>a_service := ?s\<rparr>) = waitingIds t' st" "holders t' (st\<lparr>a_service := ?s\<rparr>) = holders t' st" for t'
    by (simp_all add: waitingIds_def holders_def)
  show ?thesis
  proof (cases r)
    case None
    with next_ other on show ?thesis unfolding g by (auto simp: capacity_inv_def queues_inv_def simps)
  next
    case r: (Some i)
    with next_ have n: "waitingIds t (st\<lparr>a_service := ?s\<rparr>) \<noteq> []" "i = hd (waitingIds t (st\<lparr>a_service := ?s\<rparr>))"
      "queue_inv cancels (limit t) (tl (waitingIds t st)) (Suc (holders t st)) q'" by (auto simp: simps)
    show ?thesis unfolding g r capacity_inv_def queues_inv_def
      using n(3) other on queues_inv_grant [OF tq(2) n(1,2)] by (auto simp: simps)
  qed
qed
subsection \<open>The steps\<close>

lemma capacity_inv_beginAdd:
  assumes "capacity_inv cancels limit st"
  shows "capacity_inv cancels limit (beginAdd i mode st)"
proof (cases "getQueue (a_service st) mode")
  case None
  have on: "cs_isEnabled (a_service st)" using assms by (simp add: capacity_inv_def queues_inv_def)
  have "beginAdd i mode st = st\<lparr>a_granted := a_granted st @ [\<lparr>pa_id = i, pa_mode = mode\<rparr>]\<rparr>"
    using None on by (simp add: beginAdd_def throttle_def onQueue_def)
  moreover have "\<not> ofQueue t mode" if "map_of (cs_queues (a_service st)) t = Some q" for t q
    using None that by (auto simp: getQueue_def ofQueue_def split: option.splits)
  ultimately show ?thesis
    using assms by (auto simp: capacity_inv_def queues_inv_def waitingIds_def holders_def)
next
  case (Some tq)
  then obtain t q where tq: "tq = (t, q)" "queueOf mode = Some t" "map_of (cs_queues (a_service st)) t = Some q"
    by (auto simp: getQueue_def split: option.splits)
  obtain q' passed where eq: "enqueueExecution i q = (q', passed)" by fastforce
  have on: "cs_isEnabled (a_service st)" using assms by (simp add: capacity_inv_def queues_inv_def)
  let ?s = "(a_service st)\<lparr>cs_queues := AList.update t q' (cs_queues (a_service st))\<rparr>" and ?p = "\<lparr>pa_id = i, pa_mode = mode\<rparr>"
  have b: "beginAdd i mode st = (if passed then st\<lparr>a_service := ?s, a_granted := a_granted st @ [?p]\<rparr>
      else st\<lparr>a_service := ?s, a_waiting := a_waiting st @ [?p]\<rparr>)"
    using Some tq eq on by (simp add: beginAdd_def throttle_def onQueue_def)
  have q: "queue_inv cancels (limit t) (waitingIds t st) (holders t st) q"
    using assms tq(3) by (simp add: capacity_inv_def queues_inv_def)
  show ?thesis
    using queue_inv_enqueue [OF eq q] assms tq(2) on unfolding b
    by (auto simp: capacity_inv_def queues_inv_def waitingIds_def holders_def ofQueue_def)
qed

lemma filter_splice1:
  "k < length xs \<Longrightarrow> length (filter P xs) = length (filter P (splice1 k xs)) + (if P (xs ! k) then 1 else 0)"
proof -
  assume "k < length xs"
  then have "xs = take k xs @ xs ! k # drop (Suc k) xs" by (rule id_take_nth_drop)
  then have "length (filter P xs) = length (filter P (take k xs @ xs ! k # drop (Suc k) xs))" by simp
  then show ?thesis by (simp add: splice1_def)
qed

lemma filter_update:
  "k < length xs \<Longrightarrow> P (xs ! k) \<Longrightarrow> \<not> P y \<Longrightarrow> length (filter P xs) = Suc (length (filter P (xs[k := y])))"
proof -
  assume *: "k < length xs" "P (xs ! k)" "\<not> P y"
  have "length (filter P xs) = length (filter P (take k xs @ xs ! k # drop (Suc k) xs))"
    using id_take_nth_drop [OF *(1)] by simp
  also have "\<dots> = Suc (length (filter P (take k xs @ y # drop (Suc k) xs)))" using * by simp
  finally show ?thesis using upd_conv_take_nth_drop [OF *(1), of y] by simp
qed

lemma filter_update_same:
  "k < length xs \<Longrightarrow> P (xs ! k) = P y \<Longrightarrow> length (filter P (xs[k := y])) = length (filter P xs)"
proof -
  assume *: "k < length xs" "P (xs ! k) = P y"
  have "length (filter P xs) = length (filter P (take k xs @ xs ! k # drop (Suc k) xs))"
    using id_take_nth_drop [OF *(1)] by simp
  with * show ?thesis by (simp add: upd_conv_take_nth_drop)
qed

lemma capacity_inv_continueAdd:
  assumes "capacity_inv cancels limit st" "k < length (a_granted st)"
  shows "capacity_inv cancels limit (continueAdd k ok st)"
proof -
  let ?p = "a_granted st ! k" and ?st = "st\<lparr>a_granted := splice1 k (a_granted st)\<rparr>"
  have h: "holders t st = holders t ?st + (if ofQueue t (pa_mode ?p) then 1 else 0)" for t
    using filter_splice1 [OF assms(2), of "\<lambda>p. ofQueue t (pa_mode p)"] by (simp add: holders_def)
  show ?thesis
  proof (cases ok)
    case True
    have "holders t (continueAdd k ok st) = holders t st" for t
      using True h by (auto simp: continueAdd_def Let_def holders_def holds_def)
    with assms(1) True show ?thesis
      by (simp add: capacity_inv_def queues_inv_def) (simp add: continueAdd_def Let_def waitingIds_def)
  next
    case False
    have "queues_inv cancels limit (\<lambda>t. holders t ?st + (if ofQueue t (pa_mode ?p) then 1 else 0)) ?st"
      using assms(1) unfolding capacity_inv_def h by (simp add: queues_inv_def waitingIds_def)
    from capacity_inv_giveBack [OF this] False show ?thesis by (simp add: continueAdd_def Let_def)
  qed
qed

lemma capacity_inv_settle:
  assumes "capacity_inv cancels limit st" "k < length (a_objects st)"
  shows "capacity_inv cancels limit (settle k st)"
proof -
  let ?x = "a_objects st ! k"
  let ?st = "st\<lparr>a_objects := (a_objects st)[k := ?x\<lparr>x_reservation := None, x_settled := True\<rparr>]\<rparr>"
  have "capacity_inv cancels limit (giveBack (x_reservation ?x) ?st)"
  proof (cases "x_reservation ?x")
    case None
    have "holders t ?st = holders t st" for t
      using filter_update_same [OF assms(2), of "holds t"] None by (simp add: holders_def holds_def)
    with assms(1) None show ?thesis
      by (simp add: giveBack_def releaseReservation_def capacity_inv_def queues_inv_def waitingIds_def)
  next
    case (Some mode)
    have h: "holders t st = holders t ?st + (if ofQueue t mode then 1 else 0)" for t
      using filter_update [OF assms(2), of "holds t"] filter_update_same [OF assms(2), of "holds t"] Some
      by (simp add: holders_def holds_def)
    have "queues_inv cancels limit (\<lambda>t. holders t ?st + (if ofQueue t mode then 1 else 0)) ?st"
      using assms(1) unfolding capacity_inv_def h by (simp add: queues_inv_def waitingIds_def)
    from capacity_inv_giveBack [OF this] Some show ?thesis by simp
  qed
  then show ?thesis
    by (auto simp: settle_def Let_def capacity_inv_def queues_inv_def waitingIds_def holders_def)
qed

lemma capacity_inv_active [simp]: "capacity_inv cancels limit (st\<lparr>a_active := al\<rparr>) = capacity_inv cancels limit st"
  by (simp add: capacity_inv_def queues_inv_def waitingIds_def holders_def)

lemma findIndex_map_filter:
  "case findIndex (\<lambda>x. f x = i \<and> Q x) xs of None \<Rightarrow> findIndex (\<lambda>j. j = i) (map f (filter Q xs)) = None
   | Some k \<Rightarrow> k < length xs \<and> Q (xs ! k) \<and> (\<exists>k'. findIndex (\<lambda>j. j = i) (map f (filter Q xs)) = Some k' \<and>
       splice1 k' (map f (filter Q xs)) = map f (filter Q (splice1 k xs)))"
proof (induction xs)
  case (Cons x xs)
  then show ?case
    by (cases "findIndex (\<lambda>x. f x = i \<and> Q x) xs") (auto simp: splice1_def)
qed simp

lemma filter_splice1_other: "k < length xs \<Longrightarrow> \<not> P (xs ! k) \<Longrightarrow> filter P (splice1 k xs) = filter P xs"
proof -
  assume *: "k < length xs" "\<not> P (xs ! k)"
  have "filter P xs = filter P (take k xs @ xs ! k # drop (Suc k) xs)" using id_take_nth_drop [OF *(1)] by simp
  with * show ?thesis by (simp add: splice1_def)
qed

lemma capacity_inv_cancelEnqueued:
  assumes "capacity_inv True limit st"
  shows "capacity_inv True limit (cancelEnqueued i mode st)"
proof (cases "getQueue (a_service st) mode")
  case None
  have on: "cs_isEnabled (a_service st)" using assms by (simp add: capacity_inv_def queues_inv_def)
  have s: "removeEnqueued mode i (a_service st) = (a_service st, None)"
    using None on by (simp add: removeEnqueued_def onQueue_def)
  show ?thesis
  proof (cases "queueOf mode")
    case None
    with assms s show ?thesis by (auto simp: cancelEnqueued_def)
  next
    case t: (Some t)
    with None have no: "map_of (cs_queues (a_service st)) t = None" by (simp add: getQueue_def)
    have other: "waitingIds t' (st\<lparr>a_waiting := splice1 k (a_waiting st)\<rparr>) = waitingIds t' st"
      if "k < length (a_waiting st)" "ofQueue t (pa_mode (a_waiting st ! k))" "t' \<noteq> t" for k t'
      using filter_splice1_other [OF that(1), of "\<lambda>p. ofQueue t' (pa_mode p)"] that(2,3) by (simp add: waitingIds_def ofQueue_def)
    show ?thesis
    proof (cases "findIndex (\<lambda>p. pa_id p = i \<and> ofQueue t (pa_mode p)) (a_waiting st)")
      case None
      with assms s t show ?thesis by (simp add: cancelEnqueued_def ofQueue_def)
    next
      case (Some k)
      with findIndex_Some [OF Some] have k: "k < length (a_waiting st)" "ofQueue t (pa_mode (a_waiting st ! k))" by auto
      have "cancelEnqueued i mode st = st \<or> cancelEnqueued i mode st = st\<lparr>a_waiting := splice1 k (a_waiting st)\<rparr>"
        using s t Some by (simp add: cancelEnqueued_def ofQueue_def)
      moreover have "capacity_inv True limit (st\<lparr>a_waiting := splice1 k (a_waiting st)\<rparr>)"
        unfolding capacity_inv_def queues_inv_def
      proof (intro conjI allI impI)
        fix t' q
        assume q: "map_of (cs_queues (a_service (st\<lparr>a_waiting := splice1 k (a_waiting st)\<rparr>))) t' = Some q"
        with no have "t' \<noteq> t" by auto
        with q assms other [OF k this] show "queue_inv True (limit t') (waitingIds t' (st\<lparr>a_waiting := splice1 k (a_waiting st)\<rparr>))
            (holders t' (st\<lparr>a_waiting := splice1 k (a_waiting st)\<rparr>)) q"
          by (simp add: capacity_inv_def queues_inv_def holders_def)
      qed (use on in simp)
      ultimately show ?thesis using assms by auto
    qed
  qed
next
  case (Some tq)
  then obtain t q where tq: "tq = (t, q)" "queueOf mode = Some t" "map_of (cs_queues (a_service st)) t = Some q"
    by (auto simp: getQueue_def split: option.splits)
  obtain q' r where rm: "removeExecution i q = (q', r)" by fastforce
  have on: "cs_isEnabled (a_service st)" using assms by (simp add: capacity_inv_def queues_inv_def)
  let ?s = "(a_service st)\<lparr>cs_queues := AList.update t q' (cs_queues (a_service st))\<rparr>"
  have s: "removeEnqueued mode i (a_service st) = (?s, r)"
    using Some tq rm on by (simp add: removeEnqueued_def onQueue_def)
  have q: "queue_inv True (limit t) (waitingIds t st) (holders t st) q"
    using assms tq(3) by (simp add: capacity_inv_def queues_inv_def)
  have inv: "queue_inv True (limit t') (waitingIds t' st) (holders t' st) q2"
    if "map_of (cs_queues (a_service st)) t' = Some q2" for t' q2
    using assms that by (simp add: capacity_inv_def queues_inv_def)
  let ?P = "\<lambda>p. pa_id p = i \<and> ofQueue t (pa_mode p)"
  note m = findIndex_map_filter [where f = pa_id and i = i and Q = "\<lambda>p. ofQueue t (pa_mode p)" and xs = "a_waiting st", folded waitingIds_def]
  show ?thesis
  proof (cases "hasEnqueued (a_service st) i")
    case False
    with assms show ?thesis by (simp add: cancelEnqueued_def)
  next
    case has: True
    show ?thesis
    proof (cases "findIndex ?P (a_waiting st)")
      case None
      with m queue_inv_remove [OF rm q] have "q' = q" by simp
      then have "?s = a_service st" using tq(3) by (simp add: AList_update_same)
      with assms None s tq(2) has show ?thesis by (simp add: cancelEnqueued_def ofQueue_def)
    next
      case k: (Some k)
      with m obtain k' where k': "k < length (a_waiting st)" "ofQueue t (pa_mode (a_waiting st ! k))"
        "findIndex (\<lambda>j. j = i) (waitingIds t st) = Some k'"
        "splice1 k' (waitingIds t st) = map pa_id (filter (\<lambda>p. ofQueue t (pa_mode p)) (splice1 k (a_waiting st)))" by auto
      let ?st = "st\<lparr>a_service := ?s, a_waiting := splice1 k (a_waiting st)\<rparr>"
      have c: "cancelEnqueued i mode st = grant t r ?st"
        using s tq(2) has k by (simp add: cancelEnqueued_def ofQueue_def)
      have ids: "waitingIds t ?st = splice1 k' (waitingIds t st)" using k'(4) by (simp add: waitingIds_def)
      have others: "waitingIds t' ?st = waitingIds t' st" if "t' \<noteq> t" for t'
        using filter_splice1_other [OF k'(1), of "\<lambda>p. ofQueue t' (pa_mode p)"] k'(2) that by (simp add: waitingIds_def ofQueue_def)
      have h: "holders t' ?st = holders t' st" for t' by (simp add: holders_def)
      show ?thesis
      proof (cases r)
        case None
        with queue_inv_remove [OF rm q] k'(3) ids inv others h on show ?thesis
          unfolding c capacity_inv_def queues_inv_def by auto
      next
        case (Some j)
        with queue_inv_remove [OF rm q] k'(3) ids have n: "waitingIds t ?st \<noteq> []" "j = hd (waitingIds t ?st)"
          "queue_inv True (limit t) (tl (waitingIds t ?st)) (Suc (holders t st)) q'" by auto
        show ?thesis unfolding c Some capacity_inv_def queues_inv_def
          using n(3) inv others h on queues_inv_grant [OF tq(2) n(1,2)] by auto
      qed
    qed
  qed
qed

theorem capacity_inv_step:
  assumes "active_step cancels st st'" "capacity_inv cancels limit st"
  shows "capacity_inv cancels limit st'"
  using assms
proof cases
  case (Status i status)
  have "holders t st' = holders t st" for t
  proof -
    obtain k where st': "st' = st\<lparr>a_objects := (a_objects st)[k := (a_objects st ! k)\<lparr>x_status := status\<rparr>]\<rparr>"
      using Status by (auto simp: setStatus_def split: option.splits)
    show ?thesis
      by (cases "k < length (a_objects st)") (simp_all add: st' holders_def filter_update_same holds_def list_update_beyond)
  qed
  with assms(2) Status show ?thesis
    by (auto simp: setStatus_def capacity_inv_def queues_inv_def waitingIds_def split: option.splits)
qed (use assms(2) in \<open>auto simp: stopExecution_def split: option.splits
  intro: capacity_inv_beginAdd capacity_inv_continueAdd capacity_inv_settle capacity_inv_cancelEnqueued\<close>)

section \<open>Reachable states\<close>

definition queueTypes :: "active_state \<Rightarrow> queue_type set" where
  "queueTypes st = dom (map_of (cs_queues (a_service st)))"

lemma dom_onQueue: "dom (map_of (cs_queues (fst (onQueue f none mode s)))) = dom (map_of (cs_queues s))"
  by (auto simp: onQueue_def getQueue_def split: option.splits prod.splits if_splits)

lemma queueTypes_grant [simp]: "queueTypes (grant t r st) = queueTypes st"
  by (auto simp: grant_def queueTypes_def split: option.splits)

lemma queueTypes_update [simp]:
  "queueTypes (st\<lparr>a_service := s\<rparr>) = dom (map_of (cs_queues s))"
  "queueTypes (st\<lparr>a_active := al\<rparr>) = queueTypes st" "queueTypes (st\<lparr>a_objects := xs\<rparr>) = queueTypes st"
  "queueTypes (st\<lparr>a_granted := ps\<rparr>) = queueTypes st" "queueTypes (st\<lparr>a_waiting := ps\<rparr>) = queueTypes st"
  by (simp_all add: queueTypes_def)

lemma queueTypes_giveBack [simp]: "queueTypes (giveBack r st) = queueTypes st"
proof (cases r)
  case None
  then show ?thesis by (simp add: giveBack_def releaseReservation_def)
next
  case (Some mode)
  obtain s i where r: "release mode (a_service st) = (s, i)" by fastforce
  then have "dom (map_of (cs_queues s)) = queueTypes st"
    using dom_onQueue [of dequeue None mode "a_service st"] by (simp add: release_def queueTypes_def)
  with Some r show ?thesis by (simp add: giveBack_def releaseReservation_def split: option.splits)
qed

lemma queueTypes_record [simp]:
  "queueTypes \<lparr>a_service = s, a_waiting = ws, a_granted = gs, a_objects = xs, a_active = al\<rparr> = dom (map_of (cs_queues s))"
  by (simp add: queueTypes_def)

lemma queueTypes_step:
  assumes "active_step cancels st st'"
  shows "queueTypes st' = queueTypes st"
  using assms
proof cases
  case (Begin i mode)
  obtain s b where r: "throttle mode i (a_service st) = (s, b)" by fastforce
  then have "dom (map_of (cs_queues s)) = queueTypes st"
    using dom_onQueue [of "enqueueExecution i" True mode "a_service st"] by (simp add: throttle_def queueTypes_def)
  with Begin r show ?thesis by (auto simp: beginAdd_def)
next
  case (Go_on k ok)
  then show ?thesis by (auto simp: continueAdd_def Let_def)
next
  case (Cancel i mode)
  obtain s r where r: "removeEnqueued mode i (a_service st) = (s, r)" by fastforce
  then have "dom (map_of (cs_queues s)) = queueTypes st"
    using dom_onQueue [of "removeExecution i" None mode "a_service st"] by (simp add: removeEnqueued_def queueTypes_def)
  with Cancel r show ?thesis
    by (auto simp: cancelEnqueued_def split: option.splits)
qed (auto simp: settle_def Let_def setStatus_def stopExecution_def split: option.splits)

definition limitOf :: "control_service \<Rightarrow> queue_type \<Rightarrow> int" where
  "limitOf s t = (case map_of (cs_queues s) t of None \<Rightarrow> 0 | Some q \<Rightarrow> cq_capacity q)"

lemma capacity_inv_initial:
  assumes "newService p e queueMode = Inr s" "cs_isEnabled s"
  shows "capacity_inv cancels (limitOf s) (initialState s)"
  using assms
  by (auto simp: newService_def checkLimit_def capacity_inv_def queues_inv_def queue_inv_def limitOf_def initialState_def
      waitingIds_def holders_def split: if_splits)

lemma reachable_inv:
  assumes "(active_step cancels)\<^sup>*\<^sup>* (initialState s) st" "newService p e queueMode = Inr s" "cs_isEnabled s"
  shows "capacity_inv cancels (limitOf s) st \<and> queueTypes st = queueTypes (initialState s)"
  using assms(1)
proof (induction rule: rtranclp_induct)
  case base
  with capacity_inv_initial [OF assms(2,3)] show ?case by simp
next
  case (step st1 st2)
  with capacity_inv_step [OF step.hyps(2)] queueTypes_step [OF step.hyps(2)] show ?case by simp
qed

lemma reachable_queue:
  assumes "(active_step cancels)\<^sup>*\<^sup>* (initialState s) st" "newService p e queueMode = Inr s" "map_of (cs_queues s) t = Some q0"
  obtains q where "map_of (cs_queues (a_service st)) t = Some q" "queue_inv cancels (cq_capacity q0) (waitingIds t st) (holders t st) q"
proof -
  have "cs_isEnabled s" using assms(2,3) by (auto simp: newService_def split: if_split_asm)
  with reachable_inv [OF assms(1,2)] have inv: "capacity_inv cancels (limitOf s) st" "queueTypes st = dom (map_of (cs_queues s))"
    by (simp_all add: queueTypes_def initialState_def)
  from inv(2) assms(3) obtain q where q: "map_of (cs_queues (a_service st)) t = Some q" by (auto simp: queueTypes_def)
  moreover have "queue_inv cancels (cq_capacity q0) (waitingIds t st) (holders t st) q"
    using inv(1) q assms(3) unfolding capacity_inv_def queues_inv_def limitOf_def by fastforce
  ultimately show ?thesis by (rule that)
qed

section \<open>Emptying a queue\<close>

text \<open>Every second element of a list, the first one left out.\<close>

fun everySecond :: "'a list \<Rightarrow> 'a list" where
  "everySecond [] = []"
| "everySecond [x] = []"
| "everySecond (x # y # zs) = y # everySecond zs"

lemma removeExecution_head:
  "cq_queue q = i # j # js \<Longrightarrow> removeExecution i q = (q\<lparr>cq_queue := js, cq_capacity := cq_capacity q + 1\<rparr>, Some j)"
  "cq_queue q = [i] \<Longrightarrow> removeExecution i q = (q\<lparr>cq_queue := [], cq_capacity := cq_capacity q + 1\<rparr>, None)"
  by (auto simp: removeExecution_def resolveNext_def splice1_def)

lemma removeExecution_absent: "i \<notin> set (cq_queue q) \<Longrightarrow> removeExecution i q = (q, None)"
  by (auto simp: removeExecution_def findIndex_None [symmetric] split: option.splits dest: findIndex_Some)

lemma saddAll_disjoint: "distinct xs \<Longrightarrow> set xs \<inter> set ys = {} \<Longrightarrow> saddAll xs ys = ys @ xs"
  unfolding saddAll_def by (induction xs arbitrary: ys) (auto simp: sadd_def)

lemma emptyQueue_loop:
  assumes "distinct (cq_queue q)"
  shows "snd (fold (\<lambda>i (q, released). case removeExecution i q of
     (q', None) \<Rightarrow> (q', released) | (q', Some j) \<Rightarrow> (q', released @ [j])) (cq_queue q) (q, released)) = released @ everySecond (cq_queue q)"
  using assms
proof (induction "cq_queue q" arbitrary: q released rule: everySecond.induct)
  case 1
  then have "cq_queue q = []" by simp
  then show ?case by simp
next
  case (2 i)
  then have "cq_queue q = [i]" by simp
  then show ?case by (simp add: removeExecution_head(2))
next
  case (3 i j js)
  let ?q = "q\<lparr>cq_queue := js, cq_capacity := cq_capacity q + 1\<rparr>"
  have "cq_queue q = i # j # js" using 3(2) by simp
  moreover from this have "distinct (i # j # js)" using "3.prems" by metis
  ultimately have q: "cq_queue q = i # j # js" "distinct (cq_queue ?q)" "j \<notin> set (cq_queue ?q)" by auto
  have "snd (fold (\<lambda>i (q, released). case removeExecution i q of
     (q', None) \<Rightarrow> (q', released) | (q', Some j) \<Rightarrow> (q', released @ [j])) js (?q, released @ [j])) = (released @ [j]) @ everySecond js"
    using "3.hyps"(1) [of ?q "released @ [j]"] q by simp
  then show ?case by (simp add: q(1) removeExecution_head(1) removeExecution_absent [OF q(3)])
qed

lemma emptyQueue_released:
  assumes "distinct (cq_queue q)"
  shows "snd (emptyQueue q) = everySecond (cq_queue q)"
  using emptyQueue_loop [OF assms, of "[]"] saddAll_disjoint [OF assms, of "[]"] by (simp add: emptyQueue_def getAll_def)

section \<open>Examples\<close>

definition exService :: control_service where
  "exService = \<lparr>cs_isEnabled = True, cs_queues = [(Production, \<lparr>cq_capacity = 1, cq_queue = []\<rparr>)]\<rparr>"

lemma newService_exService: "newService 1 (- 1) False = Inr exService"
  by code_simp

lemma active_run2: "active_step c st st1 \<Longrightarrow> active_step c st1 st2 \<Longrightarrow> (active_step c)\<^sup>*\<^sup>* st st2"
  by simp

text \<open>
  During a shutdown in regular mode the service is disabled before its queues are emptied, so the
  database is never told to cancel an execution.
\<close>

lemma shutdown_cancels_nothing: "snd (shutdown True cancelAll st) = []"
proof -
  let ?st = "st\<lparr>a_service := disable (a_service st)\<rparr>"
  have off: "\<not> cs_isEnabled (a_service (fst p)) \<Longrightarrow> \<not> cs_isEnabled (a_service (fst (stopOne True cancelAll i p)))" for i p
    by (cases p) (auto simp: stopOne_def stopExecution_def split: option.splits)
  have "\<not> cs_isEnabled (a_service (fst (fold (stopOne True cancelAll) (map fst (a_active st)) (?st, []))))"
    by (rule fold_invariant_set [where P = "\<lambda>p. \<not> cs_isEnabled (a_service (fst p))"]) (auto simp: disable_def off)
  then show ?thesis by (auto simp: shutdown_def Let_def removeAllEnqueued_def split: prod.splits)
qed

section \<open>Properties\<close>





text \<open>
  The queue is fair: for any sequence of requests and of places given back, the executions that were
  let through, followed by those that still wait, are the requests in the order they were made, and the
  number let through is the limit plus the places given back, less the places that are free.
\<close>

lemma queue_fifo:
  assumes "0 < limit" "schedule enqueueExecution dequeue es \<lparr>cq_capacity = limit, cq_queue = []\<rparr> [] = (q, passed)"
  shows "passed @ cq_queue q = List.map_filter id es \<and>
    int (length passed) = limit + int (length (filter (\<lambda>e. e = None) es)) - (cq_capacity q + int (length (cq_queue q)))"
proof -
  have "cq.gate_ok \<lparr>cq_capacity = limit, cq_queue = []\<rparr>" by (simp add: cq.gate_ok_def)
  from cq.schedule_fifo [OF this assms(2)] show ?thesis by simp
qed

lemma queue_fifo_witness:
  "\<exists>q. schedule enqueueExecution dequeue [Some ''1'', Some ''2'', Some ''3'', None] \<lparr>cq_capacity = 1, cq_queue = []\<rparr> [] =
     (q, [''1'', ''2'']) \<and> [''1'', ''2''] @ cq_queue q = [''1'', ''2'', ''3'']"
proof -
  let ?es = "[Some ''1'', Some ''2'', Some ''3'', None]"
  have run: "schedule enqueueExecution dequeue ?es \<lparr>cq_capacity = 1, cq_queue = []\<rparr> [] =
    (\<lparr>cq_capacity = - 1, cq_queue = [''3'']\<rparr>, [''1'', ''2''])" by code_simp
  have "List.map_filter id ?es = [''1'', ''2'', ''3'']" by (simp add: List.map_filter_def)
  with queue_fifo [OF _ run] run show ?thesis by auto
qed

text \<open>
  Cancelling breaks the limit: with a limit of one, an execution runs, two wait, and cancelling the
  first of those lets the other one run beside the first. Emptying a queue does the same for every second
  execution that waits, where it should let none of them run.
\<close>

lemma cancel_exceeds_limit:
  "(\<exists>st. newService 1 (- 1) False = Inr exService \<and> (active_step True)\<^sup>*\<^sup>* (initialState exService) st \<and> holders Production st = 2) \<and>
    snd (emptyQueue \<lparr>cq_capacity = - 4, cq_queue = [''a'', ''b'', ''c'', ''d'']\<rparr>) = [''b'', ''d'']"
proof (intro conjI exI)
  let ?st2 = "beginAdd ''2'' MTrigger (beginAdd ''1'' MWebhook (initialState exService))"
  let ?st = "cancelEnqueued ''2'' MTrigger (beginAdd ''3'' MWebhook ?st2)"
  have "(active_step True)\<^sup>*\<^sup>* (initialState exService) ?st2" by (rule active_run2 [OF Begin Begin])
  moreover have "(active_step True)\<^sup>*\<^sup>* ?st2 ?st" by (rule active_run2 [OF Begin Cancel]) simp
  ultimately show "(active_step True)\<^sup>*\<^sup>* (initialState exService) ?st" by (rule rtranclp_trans)
  show "holders Production ?st = 2" by code_simp
  show "snd (emptyQueue \<lparr>cq_capacity = - 4, cq_queue = [''a'', ''b'', ''c'', ''d'']\<rparr>) = [''b'', ''d'']"
    by (simp add: emptyQueue_released)
qed (rule newService_exService)

end
