(* ===== verification/TaskBroker.thy ===== *)
theory TaskBroker
  imports Workflow_Types "HOL-Library.Multiset"
begin

text \<open>
  The broker between the task runners, which offer to run code, and the requesters, which ask for it
  (\<open>packages/cli/src/task-runners/task-broker/task-broker.service.ts\<close>). An operation returns the new state
  and the messages it sends. A call of \<open>acceptOffer\<close> that waits is an entry of the state: in
  \<open>tb_accepting\<close> while it waits for the runner, in \<open>tb_ready\<close> while it waits for the requester. A message is
  sent at once, and the timers, which the code clears, may here fire at any time: they do nothing when what they
  are about is gone. \<open>nanoid n\<close>, the id of the \<open>n\<close>-th task, and \<open>now\<close>, the
  clock, are parameters. The data of settings, results and calls is left out.
\<close>

section \<open>State\<close>

record task =
  tk_id :: string
  tk_runnerId :: string
  tk_requesterId :: string
  tk_taskType :: string

record task_offer =
  of_offerId :: string
  of_runnerId :: string
  of_taskType :: string
  of_validFor :: int
  of_validUntil :: int

record task_request =
  rq_requestId :: string
  rq_requesterId :: string
  rq_taskType :: string
  rq_acceptInProgress :: bool

record accept_call =
  ac_taskId :: string
  ac_offer :: task_offer
  ac_request :: nat

text \<open>
  A request is an object that is referred to from several places: \<open>tb_requests\<close> holds the objects, a
  reference is an index. The accept and reject functions are keys of the two tables only.
\<close>

record broker =
  tb_knownRunners :: "string list"
  tb_requesters :: "string list"
  tb_tasks :: "(string \<times> task) list"
  tb_isDraining :: bool
  tb_runnerAcceptRejects :: "string list"
  tb_requesterAcceptRejects :: "string list"
  tb_pendingTaskOffers :: "task_offer list"
  tb_pendingTaskRequests :: "nat list"
  tb_requests :: "task_request list"
  tb_accepting :: "accept_call list"
  tb_ready :: "string list"
  tb_issued :: nat

datatype to_runner =
    RunnerRegistered | TaskOfferAccept string string | TaskCancel string string | TaskSettings string
  | TaskDataResponse string string | NodeTypes string string | RunnerRpcResponse string string

datatype to_requester =
    RequestExpired string string | TaskReady string string | TaskDone string | TaskError string
  | Rpc string string | TaskDataRequest string string | NodeTypesRequest string string

datatype sent = ToRunner string to_runner | ToRequester string to_requester

type_synonym handler = "broker \<Rightarrow> broker \<times> sent list"

definition messageRunner :: "string \<Rightarrow> to_runner \<Rightarrow> broker \<Rightarrow> sent list" where
  "messageRunner r m b = (if r \<in> set (tb_knownRunners b) then [ToRunner r m] else [])"

definition messageRequester :: "string \<Rightarrow> to_requester \<Rightarrow> broker \<Rightarrow> sent list" where
  "messageRequester r m b = (if r \<in> set (tb_requesters b) then [ToRequester r m] else [])"

text \<open>One operation after the other, with the messages of both.\<close>

definition andThen :: "handler \<Rightarrow> handler \<Rightarrow> handler" where
  "andThen f g b = (case f b of (b, out) \<Rightarrow> (case g b of (b, out') \<Rightarrow> (b, out @ out')))"

definition setRequest :: "nat \<Rightarrow> bool \<Rightarrow> broker \<Rightarrow> broker" where
  "setRequest k inProgress b =
     b\<lparr>tb_requests := (tb_requests b)[k := (tb_requests b ! k)\<lparr>rq_acceptInProgress := inProgress\<rparr>]\<rparr>"

definition requestWithId :: "string \<Rightarrow> broker \<Rightarrow> nat option" where
  "requestWithId i b = findIndex (\<lambda>k. rq_requestId (tb_requests b ! k) = i) (tb_pendingTaskRequests b)"

section \<open>Timeouts of requests and offers\<close>

definition handleRequestTimeout :: "string \<Rightarrow> handler" where
  "handleRequestTimeout i b = (case requestWithId i b of None \<Rightarrow> (b, [])
     | Some j \<Rightarrow> (b\<lparr>tb_pendingTaskRequests := splice1 j (tb_pendingTaskRequests b)\<rparr>,
         messageRequester (rq_requesterId (tb_requests b ! (tb_pendingTaskRequests b ! j))) (RequestExpired i ''timeout'') b))"

definition expireTasks :: "int \<Rightarrow> broker \<Rightarrow> broker" where
  "expireTasks now b = b\<lparr>tb_pendingTaskOffers :=
     filter (\<lambda>x. of_validFor x = - 1 \<or> \<not> of_validUntil x < now) (tb_pendingTaskOffers b)\<rparr>"

section \<open>Matching offers and requests\<close>

text \<open>\<open>acceptOffer\<close> up to the first \<open>await\<close> that is not answered at once.\<close>

definition acceptOffer :: "(nat \<Rightarrow> string) \<Rightarrow> task_offer \<Rightarrow> nat \<Rightarrow> handler" where
  "acceptOffer nanoid offer k b =
     (let taskId = nanoid (tb_issued b)
      in (b\<lparr>tb_issued := Suc (tb_issued b), tb_runnerAcceptRejects := sadd taskId (tb_runnerAcceptRejects b),
            tb_accepting := tb_accepting b @ [\<lparr>ac_taskId = taskId, ac_offer = offer, ac_request = k\<rparr>]\<rparr>,
          messageRunner (of_runnerId offer) (TaskOfferAccept (of_offerId offer) taskId) b))"

definition settleRequest :: "(nat \<Rightarrow> string) \<Rightarrow> nat \<Rightarrow> handler" where
  "settleRequest nanoid k b =
     (if rq_acceptInProgress (tb_requests b ! k) then (b, [])
      else case findIndex (\<lambda>x. of_taskType x = rq_taskType (tb_requests b ! k)) (tb_pendingTaskOffers b) of
        None \<Rightarrow> (b, [])
      | Some j \<Rightarrow> acceptOffer nanoid (tb_pendingTaskOffers b ! j) k
          (setRequest k True (b\<lparr>tb_pendingTaskOffers := splice1 j (tb_pendingTaskOffers b)\<rparr>)))"

definition settleTasks :: "(nat \<Rightarrow> string) \<Rightarrow> int \<Rightarrow> handler" where
  "settleTasks nanoid now b =
     (let b = expireTasks now b
      in fold (\<lambda>k (b, out). case settleRequest nanoid k b of (b, out') \<Rightarrow> (b, out @ out'))
           (tb_pendingTaskRequests b) (b, []))"

text \<open>\<open>taskRequested\<close>: the request is a new object.\<close>

definition taskRequested :: "(nat \<Rightarrow> string) \<Rightarrow> int \<Rightarrow> task_request \<Rightarrow> handler" where
  "taskRequested nanoid now r b =
     (if tb_isDraining b then (b, messageRequester (rq_requesterId r) (RequestExpired (rq_requestId r) ''draining'') b)
      else settleTasks nanoid now (b\<lparr>tb_requests := tb_requests b @ [r],
             tb_pendingTaskRequests := tb_pendingTaskRequests b @ [length (tb_requests b)]\<rparr>))"

definition taskOffered :: "(nat \<Rightarrow> string) \<Rightarrow> int \<Rightarrow> task_offer \<Rightarrow> handler" where
  "taskOffered nanoid now x b =
     settleTasks nanoid now (b\<lparr>tb_pendingTaskOffers := tb_pendingTaskOffers b @ [x]\<rparr>)"

section \<open>Tasks\<close>

definition dropTask :: "string \<Rightarrow> broker \<Rightarrow> broker" where
  "dropTask i b = b\<lparr>tb_tasks := AList.delete i (tb_tasks b)\<rparr>"

definition cancelTask :: "string \<Rightarrow> string \<Rightarrow> handler" where
  "cancelTask i reason b = (case map_of (tb_tasks b) i of None \<Rightarrow> (b, [])
     | Some t \<Rightarrow> (dropTask i b, messageRunner (tk_runnerId t) (TaskCancel i reason) b))"

definition failTask :: "string \<Rightarrow> handler" where
  "failTask i b = (case map_of (tb_tasks b) i of None \<Rightarrow> (b, [])
     | Some t \<Rightarrow> (dropTask i b, messageRequester (tk_requesterId t) (TaskError i) b))"

definition taskDoneHandler :: "string \<Rightarrow> handler" where
  "taskDoneHandler i b = (case map_of (tb_tasks b) i of None \<Rightarrow> (b, [])
     | Some t \<Rightarrow> (dropTask i b, messageRequester (tk_requesterId t) (TaskDone i) b))"

definition taskErrorHandler :: "string \<Rightarrow> handler" where
  "taskErrorHandler i b = (case map_of (tb_tasks b) i of None \<Rightarrow> (b, [])
     | Some t \<Rightarrow> (dropTask i b, messageRequester (tk_requesterId t) (TaskError i) b))"

text \<open>
  \<open>getRunnerOrFailTask\<close> for a task that exists, followed by a message to its runner. A runner that is
  gone fails the task; the exception ends the caller.
\<close>

definition tellRunner :: "string \<Rightarrow> to_runner \<Rightarrow> handler" where
  "tellRunner i m b = (case map_of (tb_tasks b) i of None \<Rightarrow> (b, [])
     | Some t \<Rightarrow> if tk_runnerId t \<in> set (tb_knownRunners b) then (b, [ToRunner (tk_runnerId t) m]) else failTask i b)"

definition sendTaskSettings :: "string \<Rightarrow> handler" where
  "sendTaskSettings i = tellRunner i (TaskSettings i)"

text \<open>The timer of a task: an external runner is told to cancel it.\<close>

definition handleTaskTimeout :: "bool \<Rightarrow> string \<Rightarrow> handler" where
  "handleTaskTimeout external i b = (case map_of (tb_tasks b) i of None \<Rightarrow> (b, [])
     | Some t \<Rightarrow> andThen
         (\<lambda>b. (b, if external then messageRunner (tk_runnerId t) (TaskCancel i ''Task execution timed out'') b else []))
         (taskErrorHandler i) b)"

section \<open>Answers of the runner\<close>

definition acceptCall :: "string \<Rightarrow> broker \<Rightarrow> accept_call option" where
  "acceptCall i b = find (\<lambda>a. ac_taskId a = i) (tb_accepting b)"

definition endAccepting :: "string \<Rightarrow> broker \<Rightarrow> broker" where
  "endAccepting i b = b\<lparr>tb_accepting := filter (\<lambda>a. ac_taskId a \<noteq> i) (tb_accepting b)\<rparr>"

text \<open>
  \<open>acceptOffer\<close> after the runner accepted: the task is entered, and the requester asked for its
  settings, unless the request is no longer pending.
\<close>

definition runnerAccepted :: "accept_call \<Rightarrow> handler" where
  "runnerAccepted a b =
     (let r = tb_requests b ! ac_request a; i = ac_taskId a;
          b = (endAccepting i b)\<lparr>tb_tasks := AList.update i \<lparr>tk_id = i, tk_runnerId = of_runnerId (ac_offer a),
                 tk_requesterId = rq_requesterId r, tk_taskType = of_taskType (ac_offer a)\<rparr> (tb_tasks b)\<rparr>
      in case requestWithId (rq_requestId r) b of None \<Rightarrow> (b, [])
         | Some j \<Rightarrow> (b\<lparr>tb_pendingTaskRequests := splice1 j (tb_pendingTaskRequests b),
               tb_requesterAcceptRejects := sadd i (tb_requesterAcceptRejects b), tb_ready := tb_ready b @ [i]\<rparr>,
             messageRequester (rq_requesterId r) (TaskReady (rq_requestId r) i) b))"

text \<open>The three answers and the timer of two seconds, which leaves the entry of the table behind.\<close>

definition forgetRunner :: "string \<Rightarrow> broker \<Rightarrow> broker" where
  "forgetRunner i b = b\<lparr>tb_runnerAcceptRejects := sdel i (tb_runnerAcceptRejects b)\<rparr>"

definition handleRunnerAccept :: "string \<Rightarrow> handler" where
  "handleRunnerAccept i b =
     (if i \<notin> set (tb_runnerAcceptRejects b) then (b, [])
      else case acceptCall i b of None \<Rightarrow> (forgetRunner i b, []) | Some a \<Rightarrow> runnerAccepted a (forgetRunner i b))"

definition acceptFailed :: "accept_call \<Rightarrow> broker \<Rightarrow> broker" where
  "acceptFailed a b = setRequest (ac_request a) False (endAccepting (ac_taskId a) b)"

definition handleRunnerReject :: "string \<Rightarrow> handler" where
  "handleRunnerReject i b =
     (if i \<notin> set (tb_runnerAcceptRejects b) then (b, [])
      else case acceptCall i b of None \<Rightarrow> (forgetRunner i b, []) | Some a \<Rightarrow> (acceptFailed a (forgetRunner i b), []))"

definition handleRunnerDeferred :: "string \<Rightarrow> handler" where
  "handleRunnerDeferred i b =
     (if i \<notin> set (tb_runnerAcceptRejects b) then (b, [])
      else case acceptCall i b of None \<Rightarrow> (forgetRunner i b, [])
        | Some a \<Rightarrow> (let b = acceptFailed a (forgetRunner i b)
            in (b\<lparr>tb_pendingTaskRequests := tb_pendingTaskRequests b @ [ac_request a]\<rparr>, [])))"

definition runnerAcceptTimeout :: "string \<Rightarrow> handler" where
  "runnerAcceptTimeout i b = (case acceptCall i b of None \<Rightarrow> (b, []) | Some a \<Rightarrow> (acceptFailed a b, []))"

section \<open>Answers of the requester\<close>

definition endReady :: "string \<Rightarrow> broker \<Rightarrow> broker" where
  "endReady i b = b\<lparr>tb_ready := filter (\<lambda>j. j \<noteq> i) (tb_ready b)\<rparr>"

text \<open>A failure to send the settings cancels the task, which is then gone already.\<close>

definition handleRequesterAccept :: "string \<Rightarrow> handler" where
  "handleRequesterAccept i b =
     (if i \<notin> set (tb_requesterAcceptRejects b) then (b, [])
      else let b' = b\<lparr>tb_requesterAcceptRejects := sdel i (tb_requesterAcceptRejects b)\<rparr>
        in if i \<in> set (tb_ready b) then sendTaskSettings i (endReady i b') else (b', []))"

definition handleRequesterReject :: "string \<Rightarrow> string \<Rightarrow> handler" where
  "handleRequesterReject i reason b =
     (if i \<notin> set (tb_requesterAcceptRejects b) then (b, [])
      else let b' = b\<lparr>tb_requesterAcceptRejects := sdel i (tb_requesterAcceptRejects b)\<rparr>
        in if i \<in> set (tb_ready b) then cancelTask i reason (endReady i b') else (b', []))"

definition requesterAcceptTimeout :: "string \<Rightarrow> handler" where
  "requesterAcceptTimeout i b =
     (if i \<in> set (tb_ready b) then cancelTask i ''Unknown reason'' (endReady i b) else (b, []))"

section \<open>Messages that are passed on\<close>

definition askRequester :: "string \<Rightarrow> to_requester \<Rightarrow> handler" where
  "askRequester i m b = (case map_of (tb_tasks b) i of None \<Rightarrow> (b, []) | Some t \<Rightarrow> (b, messageRequester (tk_requesterId t) m b))"

definition handleResponse :: "string \<Rightarrow> string \<Rightarrow> handler" where
  "handleResponse i q b = (case map_of (tb_tasks b) i of None \<Rightarrow> (b, [])
     | Some t \<Rightarrow> (b, messageRunner (tk_requesterId t) (TaskDataResponse i q) b))"

datatype from_runner =
    TaskAccepted string | TaskRejected string | TaskDeferred string | Offer string string int
  | Done string | Failed string | DataRequest string string | TypesRequest string string | RpcCall string string

fun onRunnerMessage :: "(nat \<Rightarrow> string) \<Rightarrow> int \<Rightarrow> string \<Rightarrow> from_runner \<Rightarrow> handler" where
  "onRunnerMessage nanoid now r m b =
     (if r \<notin> set (tb_knownRunners b) then (b, [])
      else case m of
        TaskAccepted i \<Rightarrow> handleRunnerAccept i b
      | TaskRejected i \<Rightarrow> handleRunnerReject i b
      | TaskDeferred i \<Rightarrow> handleRunnerDeferred i b
      | Offer offerId ty validFor \<Rightarrow> taskOffered nanoid now \<lparr>of_offerId = offerId, of_runnerId = r, of_taskType = ty,
          of_validFor = validFor, of_validUntil = (if validFor = - 1 then 0 else now + validFor * 1000000)\<rparr> b
      | Done i \<Rightarrow> taskDoneHandler i b
      | Failed i \<Rightarrow> taskErrorHandler i b
      | DataRequest i q \<Rightarrow> askRequester i (TaskDataRequest i q) b
      | TypesRequest i q \<Rightarrow> askRequester i (NodeTypesRequest i q) b
      | RpcCall i q \<Rightarrow> askRequester i (Rpc i q) b)"

datatype from_requester =
    Settings string | Cancel string string | Request string string | DataAnswer string string
  | TypesAnswer string string | RpcAnswer string string

fun onRequesterMessage :: "(nat \<Rightarrow> string) \<Rightarrow> int \<Rightarrow> string \<Rightarrow> from_requester \<Rightarrow> handler" where
  "onRequesterMessage nanoid now r (Settings i) b = handleRequesterAccept i b"
| "onRequesterMessage nanoid now r (Cancel i reason) b = cancelTask i reason b"
| "onRequesterMessage nanoid now r (Request q ty) b =
     taskRequested nanoid now \<lparr>rq_requestId = q, rq_requesterId = r, rq_taskType = ty, rq_acceptInProgress = False\<rparr> b"
| "onRequesterMessage nanoid now r (DataAnswer i q) b = tellRunner i (TaskDataResponse i q) b"
| "onRequesterMessage nanoid now r (TypesAnswer i q) b = tellRunner i (NodeTypes i q) b"
| "onRequesterMessage nanoid now r (RpcAnswer i q) b = tellRunner i (RunnerRpcResponse i q) b"

section \<open>Runners and requesters come and go\<close>

definition registerRunner :: "string \<Rightarrow> handler" where
  "registerRunner r b = (b\<lparr>tb_knownRunners := sadd r (tb_knownRunners b)\<rparr>, [ToRunner r RunnerRegistered])"

definition failRunnerTask :: "string \<times> task \<Rightarrow> handler" where
  "failRunnerTask = (\<lambda>(_, t). andThen (failTask (tk_id t)) (handleRunnerReject (tk_id t)))"

definition deregisterRunner :: "string \<Rightarrow> handler" where
  "deregisterRunner r b =
     (let b = b\<lparr>tb_knownRunners := sdel r (tb_knownRunners b),
                tb_pendingTaskOffers := filter (\<lambda>x. of_runnerId x \<noteq> r) (tb_pendingTaskOffers b)\<rparr>
      in fold (\<lambda>t (b, out). case failRunnerTask t b of (b, out') \<Rightarrow> (b, out @ out'))
           (filter (\<lambda>(_, t). tk_runnerId t = r) (tb_tasks b)) (b, []))"

definition registerRequester :: "string \<Rightarrow> broker \<Rightarrow> broker" where
  "registerRequester r b = b\<lparr>tb_requesters := sadd r (tb_requesters b)\<rparr>"

definition deregisterRequester :: "string \<Rightarrow> broker \<Rightarrow> broker" where
  "deregisterRequester r b = b\<lparr>tb_requesters := sdel r (tb_requesters b)\<rparr>"

definition startDraining :: "broker \<Rightarrow> broker" where
  "startDraining b = b\<lparr>tb_isDraining := True\<rparr>"

definition hasActiveTasks :: "broker \<Rightarrow> bool" where
  "hasActiveTasks b \<longleftrightarrow> length (tb_tasks b) > 0"

definition newBroker :: "int \<Rightarrow> broker result" where
  "newBroker taskTimeout = (if taskTimeout \<le> 0 then Inl (UserError ''Task timeout must be greater than 0'')
     else Inr \<lparr>tb_knownRunners = [], tb_requesters = [], tb_tasks = [], tb_isDraining = False, tb_runnerAcceptRejects = [],
       tb_requesterAcceptRejects = [], tb_pendingTaskOffers = [], tb_pendingTaskRequests = [], tb_requests = [],
       tb_accepting = [], tb_ready = [], tb_issued = 0\<rparr>)"

section \<open>The state machine\<close>

inductive broker_step :: "(nat \<Rightarrow> string) \<Rightarrow> broker \<Rightarrow> sent list \<Rightarrow> broker \<Rightarrow> bool" for nanoid where
  From_runner: "onRunnerMessage nanoid now r m b = (b', out) \<Longrightarrow> broker_step nanoid b out b'"
| From_requester: "onRequesterMessage nanoid now r m' b = (b', out) \<Longrightarrow> broker_step nanoid b out b'"
| Request_timer: "handleRequestTimeout i b = (b', out) \<Longrightarrow> broker_step nanoid b out b'"
| Runner_timer: "runnerAcceptTimeout i b = (b', out) \<Longrightarrow> broker_step nanoid b out b'"
| Requester_timer: "requesterAcceptTimeout i b = (b', out) \<Longrightarrow> broker_step nanoid b out b'"
| Task_timer: "handleTaskTimeout external i b = (b', out) \<Longrightarrow> broker_step nanoid b out b'"
| Runner_comes: "registerRunner r b = (b', out) \<Longrightarrow> broker_step nanoid b out b'"
| Runner_goes: "deregisterRunner r b = (b', out) \<Longrightarrow> broker_step nanoid b out b'"
| Requester_comes: "broker_step nanoid b [] (registerRequester r b)"
| Requester_goes: "broker_step nanoid b [] (deregisterRequester r b)"
| Draining: "broker_step nanoid b [] (startDraining b)"

section \<open>Matching\<close>

definition idle :: "broker \<Rightarrow> nat \<Rightarrow> bool" where
  "idle b k \<longleftrightarrow> \<not> rq_acceptInProgress (tb_requests b ! k)"

definition matches :: "broker \<Rightarrow> nat \<Rightarrow> task_offer \<Rightarrow> bool" where
  "matches b k x \<longleftrightarrow> of_taskType x = rq_taskType (tb_requests b ! k)"

text \<open>No offer could serve the request now.\<close>

definition served :: "broker \<Rightarrow> nat \<Rightarrow> bool" where
  "served b k \<longleftrightarrow> idle b k \<longrightarrow> (\<forall>x \<in> set (tb_pendingTaskOffers b). \<not> matches b k x)"

definition calledFor :: "broker \<Rightarrow> nat \<Rightarrow> string \<Rightarrow> task_offer \<Rightarrow> broker" where
  "calledFor b k i x = (setRequest k True b)\<lparr>tb_issued := Suc (tb_issued b), tb_runnerAcceptRejects := sadd i (tb_runnerAcceptRejects b),
     tb_accepting := tb_accepting b @ [\<lparr>ac_taskId = i, ac_offer = x, ac_request = k\<rparr>]\<rparr>"

lemma settleRequest_cases:
  assumes "settleRequest nanoid k b = (b', out)"
  obtains (kept) "b' = b" "out = []" "served b k"
  | (called) ys x zs where "tb_pendingTaskOffers b = ys @ x # zs" "\<forall>y \<in> set ys. \<not> matches b k y" "matches b k x" "idle b k"
      "b' = calledFor (b\<lparr>tb_pendingTaskOffers := ys @ zs\<rparr>) k (nanoid (tb_issued b)) x"
      "out = messageRunner (of_runnerId x) (TaskOfferAccept (of_offerId x) (nanoid (tb_issued b))) b"
proof (cases "rq_acceptInProgress (tb_requests b ! k)")
  case True
  with assms kept show ?thesis by (simp add: settleRequest_def served_def idle_def)
next
  case False
  show ?thesis
  proof (cases "findIndex (\<lambda>x. of_taskType x = rq_taskType (tb_requests b ! k)) (tb_pendingTaskOffers b)")
    case None
    with False assms kept show ?thesis by (simp add: settleRequest_def served_def findIndex_None matches_def)
  next
    case (Some j)
    from findIndex_split [OF Some] obtain ys x zs where s: "tb_pendingTaskOffers b = ys @ x # zs" "length ys = j"
      "matches b k x" "\<forall>y \<in> set ys. \<not> matches b k y" by (auto simp: matches_def)
    with False Some assms called [OF s(1,4,3)] show ?thesis
      by (auto simp: settleRequest_def acceptOffer_def Let_def calledFor_def setRequest_def idle_def messageRunner_def nth_append)
  qed
qed

text \<open>What a matching round keeps, and what it does with the requests looked at so far.\<close>

definition settling_ok :: "(nat \<Rightarrow> string) \<Rightarrow> broker \<Rightarrow> nat list \<Rightarrow> broker \<Rightarrow> bool" where
  "settling_ok nanoid b0 ks b \<longleftrightarrow> (\<exists>new. tb_accepting b = tb_accepting b0 @ new \<and>
     map ac_taskId new = map nanoid [tb_issued b0..<tb_issued b0 + length new] \<and> tb_issued b = tb_issued b0 + length new \<and>
     mset (tb_pendingTaskOffers b0) = mset (map ac_offer new) + mset (tb_pendingTaskOffers b) \<and>
     distinct (map ac_request new) \<and>
     (\<forall>a \<in> set new. ac_request a \<in> set ks \<and> idle b0 (ac_request a) \<and> \<not> idle b (ac_request a) \<and> matches b0 (ac_request a) (ac_offer a)) \<and>
     (\<forall>k. k \<notin> ac_request ` set new \<longrightarrow> idle b k = idle b0 k)) \<and>
     length (tb_requests b) = length (tb_requests b0) \<and>
     (\<forall>k. rq_taskType (tb_requests b ! k) = rq_taskType (tb_requests b0 ! k) \<and> rq_requestId (tb_requests b ! k) = rq_requestId (tb_requests b0 ! k)) \<and>
     tb_pendingTaskRequests b = tb_pendingTaskRequests b0 \<and> tb_tasks b = tb_tasks b0 \<and> tb_ready b = tb_ready b0 \<and>
     (\<forall>k \<in> set ks. served b k)"

lemma idle_calledFor: "k < length (tb_requests b) \<Longrightarrow> idle (calledFor b k i x) j = (idle b j \<and> j \<noteq> k)"
  by (auto simp: idle_def calledFor_def setRequest_def nth_list_update)

lemma calledFor_simps [simp]:
  "tb_accepting (calledFor b k i x) = tb_accepting b @ [\<lparr>ac_taskId = i, ac_offer = x, ac_request = k\<rparr>]"
  "tb_issued (calledFor b k i x) = Suc (tb_issued b)" "tb_pendingTaskOffers (calledFor b k i x) = tb_pendingTaskOffers b"
  "tb_pendingTaskRequests (calledFor b k i x) = tb_pendingTaskRequests b" "tb_tasks (calledFor b k i x) = tb_tasks b"
  "tb_ready (calledFor b k i x) = tb_ready b" "length (tb_requests (calledFor b k i x)) = length (tb_requests b)"
  by (simp_all add: calledFor_def setRequest_def)

lemma nth_setRequest:
  "tb_requests (setRequest k p b) ! j =
     (if j = k \<and> k < length (tb_requests b) then (tb_requests b ! k)\<lparr>rq_acceptInProgress := p\<rparr> else tb_requests b ! j)"
  by (auto simp: setRequest_def list_update_beyond)

lemma requests_setRequest [simp]:
  "rq_taskType (tb_requests (setRequest k p b) ! j) = rq_taskType (tb_requests b ! j)"
  "rq_requestId (tb_requests (setRequest k p b) ! j) = rq_requestId (tb_requests b ! j)"
  "rq_requesterId (tb_requests (setRequest k p b) ! j) = rq_requesterId (tb_requests b ! j)"
  "length (tb_requests (setRequest k p b)) = length (tb_requests b)"
  by (simp_all add: nth_setRequest) (simp add: setRequest_def)

lemma requests_calledFor [simp]:
  "rq_taskType (tb_requests (calledFor b k i x) ! j) = rq_taskType (tb_requests b ! j)"
  "rq_requestId (tb_requests (calledFor b k i x) ! j) = rq_requestId (tb_requests b ! j)"
  "rq_requesterId (tb_requests (calledFor b k i x) ! j) = rq_requesterId (tb_requests b ! j)"
  by (simp_all add: calledFor_def)

lemma offers_update [simp]:
  "idle (b\<lparr>tb_pendingTaskOffers := xs\<rparr>) k = idle b k" "matches (b\<lparr>tb_pendingTaskOffers := xs\<rparr>) k x = matches b k x"
  by (simp_all add: idle_def matches_def)

lemma settling_step:
  assumes "settling_ok nanoid b0 ks b" "k < length (tb_requests b0)" "settleRequest nanoid k b = (b', out)"
  shows "settling_ok nanoid b0 (ks @ [k]) b'"
proof -
  from assms(1) obtain new where new: "tb_accepting b = tb_accepting b0 @ new"
      "map ac_taskId new = map nanoid [tb_issued b0..<tb_issued b0 + length new]" "tb_issued b = tb_issued b0 + length new"
      "mset (tb_pendingTaskOffers b0) = mset (map ac_offer new) + mset (tb_pendingTaskOffers b)" "distinct (map ac_request new)"
      "\<And>a. a \<in> set new \<Longrightarrow> ac_request a \<in> set ks \<and> idle b0 (ac_request a) \<and> \<not> idle b (ac_request a) \<and> matches b0 (ac_request a) (ac_offer a)"
      "\<And>j. j \<notin> ac_request ` set new \<Longrightarrow> idle b j = idle b0 j"
    and rest: "length (tb_requests b) = length (tb_requests b0)"
      "\<forall>k. rq_taskType (tb_requests b ! k) = rq_taskType (tb_requests b0 ! k) \<and> rq_requestId (tb_requests b ! k) = rq_requestId (tb_requests b0 ! k)"
      "tb_pendingTaskRequests b = tb_pendingTaskRequests b0 \<and> tb_tasks b = tb_tasks b0 \<and> tb_ready b = tb_ready b0"
      "\<And>j. j \<in> set ks \<Longrightarrow> served b j"
    unfolding settling_ok_def by blast
  from assms(3) show ?thesis
  proof (cases rule: settleRequest_cases)
    case kept
    with new rest show ?thesis unfolding settling_ok_def by auto
  next
    case (called ys x zs)
    let ?b = "b\<lparr>tb_pendingTaskOffers := ys @ zs\<rparr>" and ?i = "nanoid (tb_issued b)"
    have b': "b' = calledFor ?b k ?i x" by (rule called(5))
    have k: "k < length (tb_requests ?b)" using assms(2) rest(1) by simp
    have idle': "idle b' j = (idle b j \<and> j \<noteq> k)" for j by (simp add: b' idle_calledFor [OF k])
    have fresh: "k \<notin> ac_request ` set new" using new(6) called(4) by auto
    have m: "matches b' j = matches b j" "matches b0 j = matches b j" for j
      using rest(2) by (auto simp: b' matches_def fun_eq_iff)
    let ?new = "new @ [\<lparr>ac_taskId = ?i, ac_offer = x, ac_request = k\<rparr>]"
    have 1: "tb_accepting b' = tb_accepting b0 @ ?new" "tb_issued b' = tb_issued b0 + length ?new"
      "map ac_taskId ?new = map nanoid [tb_issued b0..<tb_issued b0 + length ?new]" "distinct (map ac_request ?new)"
      "mset (tb_pendingTaskOffers b0) = mset (map ac_offer ?new) + mset (tb_pendingTaskOffers b')"
      using new(1-5) fresh called(1) by (simp_all add: b')
    have 2: "ac_request a \<in> set (ks @ [k]) \<and> idle b0 (ac_request a) \<and> \<not> idle b' (ac_request a) \<and> matches b0 (ac_request a) (ac_offer a)"
      if "a \<in> set ?new" for a
      using that new(6) [of a] new(7) [OF fresh] called(3,4) by (auto simp: idle' m)
    have 3: "idle b' j = idle b0 j" if "j \<notin> ac_request ` set ?new" for j
      using that new(7) [of j] by (simp add: idle')
    have 4: "served b' j" if "j \<in> set (ks @ [k])" for j
      using that rest(4) [of j] called(1) unfolding served_def idle' m by (auto simp: b')
    have 5: "length (tb_requests b') = length (tb_requests b0)"
      "\<forall>k. rq_taskType (tb_requests b' ! k) = rq_taskType (tb_requests b0 ! k) \<and> rq_requestId (tb_requests b' ! k) = rq_requestId (tb_requests b0 ! k)"
      "tb_pendingTaskRequests b' = tb_pendingTaskRequests b0 \<and> tb_tasks b' = tb_tasks b0 \<and> tb_ready b' = tb_ready b0"
      using rest(1-3) by (simp_all add: b')
    show ?thesis unfolding settling_ok_def
      using 1 2 3 4 5 by blast
  qed
qed

lemma settling_start: "settling_ok nanoid b [] b"
  by (simp add: settling_ok_def)

lemma settleTasks_ok:
  assumes "settleTasks nanoid now b = (b', out)" "\<forall>k \<in> set (tb_pendingTaskRequests b). k < length (tb_requests b)"
  shows "settling_ok nanoid (expireTasks now b) (tb_pendingTaskRequests b) b'"
proof -
  let ?b = "expireTasks now b" and ?f = "\<lambda>k (b, out). case settleRequest nanoid k b of (b, out') \<Rightarrow> (b, out @ out')"
  have *: "settling_ok nanoid ?b (dn @ ks) (fst (fold ?f ks (b1, out1)))"
    if "settling_ok nanoid ?b dn b1" "\<forall>k \<in> set ks. k < length (tb_requests ?b)" for ks dn b1 out1
    using that
  proof (induction ks arbitrary: dn b1 out1)
    case (Cons k ks)
    obtain b2 out2 where r: "settleRequest nanoid k b1 = (b2, out2)" by fastforce
    from settling_step [OF Cons.prems(1) _ r] Cons.prems(2) Cons.IH [of "dn @ [k]" b2 "out1 @ out2"] r show ?case by simp
  qed simp
  have "b' = fst (fold ?f (tb_pendingTaskRequests ?b) (?b, []))"
    using assms(1) by (simp add: settleTasks_def Let_def)
  moreover have "tb_pendingTaskRequests ?b = tb_pendingTaskRequests b" "tb_requests ?b = tb_requests b"
    by (simp_all add: expireTasks_def)
  ultimately show ?thesis using * [OF settling_start, of "tb_pendingTaskRequests b" "[]"] assms(2) by simp
qed

section \<open>The invariant\<close>

definition issuedId :: "(nat \<Rightarrow> string) \<Rightarrow> broker \<Rightarrow> string \<Rightarrow> bool" where
  "issuedId nanoid b i \<longleftrightarrow> i \<in> nanoid ` {..<tb_issued b} \<and> i \<notin> ac_taskId ` set (tb_accepting b)"

definition broker_inv :: "(nat \<Rightarrow> string) \<Rightarrow> broker \<Rightarrow> bool" where
  "broker_inv nanoid b \<longleftrightarrow>
     (\<forall>k \<in> set (tb_pendingTaskRequests b). k < length (tb_requests b)) \<and>
     distinct (map ac_taskId (tb_accepting b)) \<and> ac_taskId ` set (tb_accepting b) \<subseteq> nanoid ` {..<tb_issued b} \<and>
     distinct (map ac_request (tb_accepting b)) \<and>
     (\<forall>a \<in> set (tb_accepting b). ac_request a < length (tb_requests b) \<and> \<not> idle b (ac_request a) \<and> matches b (ac_request a) (ac_offer a)) \<and>
     distinct (map fst (tb_tasks b)) \<and> (\<forall>(i, t) \<in> set (tb_tasks b). tk_id t = i \<and> issuedId nanoid b i) \<and>
     (\<forall>i \<in> set (tb_ready b). issuedId nanoid b i)"

text \<open>Steps that leave the matching alone and at most drop tasks and waiting calls.\<close>

definition shrinks :: "broker \<Rightarrow> broker \<Rightarrow> bool" where
  "shrinks b b' \<longleftrightarrow> tb_accepting b' = tb_accepting b \<and> tb_issued b' = tb_issued b \<and> tb_requests b' = tb_requests b \<and>
     set (tb_pendingTaskRequests b') \<subseteq> set (tb_pendingTaskRequests b) \<and> set (tb_ready b') \<subseteq> set (tb_ready b) \<and>
     set (tb_tasks b') \<subseteq> set (tb_tasks b) \<and> (distinct (map fst (tb_tasks b)) \<longrightarrow> distinct (map fst (tb_tasks b')))"

lemma shrinks_inv: "shrinks b b' \<Longrightarrow> broker_inv nanoid b \<Longrightarrow> broker_inv nanoid b'"
proof -
  assume s: "shrinks b b'" and inv: "broker_inv nanoid b"
  from s have eqs: "tb_accepting b' = tb_accepting b" "tb_issued b' = tb_issued b" "tb_requests b' = tb_requests b"
    "set (tb_pendingTaskRequests b') \<subseteq> set (tb_pendingTaskRequests b)" "set (tb_ready b') \<subseteq> set (tb_ready b)"
    "set (tb_tasks b') \<subseteq> set (tb_tasks b)" "distinct (map fst (tb_tasks b)) \<longrightarrow> distinct (map fst (tb_tasks b'))"
    by (simp_all add: shrinks_def)
  have preds: "idle b' = idle b" "matches b' = matches b" "issuedId nanoid b' = issuedId nanoid b"
    by (simp_all add: fun_eq_iff idle_def matches_def issuedId_def eqs(1-3))
  show ?thesis using inv eqs(4-7) unfolding broker_inv_def preds eqs(1-3) by blast
qed

lemma shrinks_refl [simp]: "shrinks b b"
  by (simp add: shrinks_def)

lemma shrinks_trans: "shrinks a b \<Longrightarrow> shrinks b c \<Longrightarrow> shrinks a c"
  by (auto simp: shrinks_def)

lemma shrinks_dropTask [simp]: "shrinks b (dropTask i b)"
  by (auto simp: shrinks_def dropTask_def set_AList_delete distinct_delete)

lemma shrinks_updates [simp]:
  "shrinks b (b\<lparr>tb_requesterAcceptRejects := xs\<rparr>)" "shrinks b (b\<lparr>tb_runnerAcceptRejects := xs\<rparr>)"
  "shrinks b (b\<lparr>tb_knownRunners := xs\<rparr>)" "shrinks b (b\<lparr>tb_requesters := xs\<rparr>)" "shrinks b (b\<lparr>tb_isDraining := d\<rparr>)"
  "shrinks b (b\<lparr>tb_pendingTaskOffers := os\<rparr>)" "shrinks b (endReady i b)" "shrinks b (forgetRunner i b)"
  by (auto simp: shrinks_def endReady_def forgetRunner_def)

lemma shrinks_tasks:
  "cancelTask i reason b = (b', out) \<Longrightarrow> shrinks b b'" "failTask i b = (b', out) \<Longrightarrow> shrinks b b'"
  "taskDoneHandler i b = (b', out) \<Longrightarrow> shrinks b b'" "taskErrorHandler i b = (b', out) \<Longrightarrow> shrinks b b'"
  by (auto simp: cancelTask_def failTask_def taskDoneHandler_def taskErrorHandler_def split: option.splits)

lemma shrinks_tellRunner: "tellRunner i m b = (b', out) \<Longrightarrow> shrinks b b'"
  by (auto simp: tellRunner_def split: option.splits if_splits dest: shrinks_tasks)

lemma shrinks_askRequester: "askRequester i m b = (b', out) \<Longrightarrow> shrinks b b'"
  by (auto simp: askRequester_def split: option.splits)

lemma shrinks_timeout: "handleTaskTimeout external i b = (b', out) \<Longrightarrow> shrinks b b'"
  by (auto simp: handleTaskTimeout_def andThen_def split: option.splits prod.splits dest: shrinks_tasks)

lemma shrinks_requesterAccept: "handleRequesterAccept i b = (b', out) \<Longrightarrow> shrinks b b'"
  unfolding handleRequesterAccept_def sendTaskSettings_def Let_def
  by (auto split: if_splits dest!: shrinks_tellRunner elim!: shrinks_trans [rotated] intro: shrinks_trans [OF shrinks_updates(1) shrinks_updates(7)])

lemma shrinks_requesterTimeout: "requesterAcceptTimeout i b = (b', out) \<Longrightarrow> shrinks b b'"
  unfolding requesterAcceptTimeout_def
  by (auto split: if_splits dest!: shrinks_tasks(1) intro: shrinks_trans [OF shrinks_updates(7)])

lemma shrinks_requestTimeout: "handleRequestTimeout i b = (b', out) \<Longrightarrow> shrinks b b'"
  using set_splice1_subset by (fastforce simp: handleRequestTimeout_def shrinks_def split: option.splits)

subsection \<open>The steps of \<open>acceptOffer\<close>\<close>

lemma acceptCall_mem: "acceptCall i b = Some a \<Longrightarrow> a \<in> set (tb_accepting b) \<and> ac_taskId a = i"
  by (auto simp: acceptCall_def find_Some_iff)

lemma inv_acceptFailed:
  assumes "broker_inv nanoid b" "a \<in> set (tb_accepting b)"
  shows "broker_inv nanoid (acceptFailed a b)" "ac_request a < length (tb_requests (acceptFailed a b))"
proof -
  let ?rest = "filter (\<lambda>x. ac_taskId x \<noteq> ac_taskId a) (tb_accepting b)"
  have other: "ac_request x \<noteq> ac_request a" if "x \<in> set ?rest" for x
  proof
    assume "ac_request x = ac_request a"
    moreover have "inj_on ac_request (set (tb_accepting b))" using assms(1) by (simp add: broker_inv_def distinct_map)
    ultimately have "x = a" using assms(2) that by (auto dest: inj_onD)
    with that show False by simp
  qed
  have idle: "idle (acceptFailed a b) k = idle b k" if "k \<noteq> ac_request a" for k
    using that by (simp add: idle_def acceptFailed_def endAccepting_def nth_setRequest)
  have s: "tb_accepting (acceptFailed a b) = ?rest" "tb_issued (acceptFailed a b) = tb_issued b"
    "length (tb_requests (acceptFailed a b)) = length (tb_requests b)"
    "tb_pendingTaskRequests (acceptFailed a b) = tb_pendingTaskRequests b" "tb_tasks (acceptFailed a b) = tb_tasks b"
    "tb_ready (acceptFailed a b) = tb_ready b"
    by (simp_all add: acceptFailed_def endAccepting_def setRequest_def)
  have m: "matches (acceptFailed a b) = matches b"
    by (simp add: fun_eq_iff matches_def acceptFailed_def endAccepting_def)
  show "ac_request a < length (tb_requests (acceptFailed a b))" using assms by (auto simp: s(3) broker_inv_def)
  have d: "distinct (map ac_taskId ?rest)" "distinct (map ac_request ?rest)"
    using assms(1) unfolding broker_inv_def by (simp_all add: distinct_map_filter)
  have sub: "ac_taskId ` set ?rest \<subseteq> ac_taskId ` set (tb_accepting b)" by auto
  have iss: "issuedId nanoid b i \<Longrightarrow> issuedId nanoid (acceptFailed a b) i" for i
    using sub by (auto simp: issuedId_def s)
  have "\<forall>x \<in> set ?rest. ac_request x < length (tb_requests b) \<and> \<not> idle (acceptFailed a b) (ac_request x) \<and> matches b (ac_request x) (ac_offer x)"
    using assms(1) other idle by (simp add: broker_inv_def)
  moreover have "ac_taskId ` set ?rest \<subseteq> nanoid ` {..<tb_issued b}"
    using assms(1) sub unfolding broker_inv_def by (meson subset_trans)
  ultimately show "broker_inv nanoid (acceptFailed a b)"
    using assms(1) d iss unfolding broker_inv_def s m by fast
qed

lemma inv_runnerAccepted:
  assumes "broker_inv nanoid b" "a \<in> set (tb_accepting b)" "runnerAccepted a b = (b', out)"
  shows "broker_inv nanoid b'"
proof -
  let ?i = "ac_taskId a" and ?rest = "filter (\<lambda>x. ac_taskId x \<noteq> ac_taskId a) (tb_accepting b)"
  let ?t = "\<lparr>tk_id = ?i, tk_runnerId = of_runnerId (ac_offer a), tk_requesterId = rq_requesterId (tb_requests b ! ac_request a),
      tk_taskType = of_taskType (ac_offer a)\<rparr>"
  let ?b = "(endAccepting ?i b)\<lparr>tb_tasks := AList.update ?i ?t (tb_tasks b)\<rparr>"
  have iss: "issuedId nanoid b j \<Longrightarrow> issuedId nanoid ?b j" for j by (auto simp: issuedId_def endAccepting_def)
  have new: "issuedId nanoid ?b ?i"
    using assms(1,2) by (auto simp: issuedId_def endAccepting_def broker_inv_def)
  have b: "broker_inv nanoid ?b"
  proof -
    have "distinct (map ac_taskId ?rest)" "distinct (map ac_request ?rest)" "ac_taskId ` set ?rest \<subseteq> nanoid ` {..<tb_issued b}"
      using assms(1) unfolding broker_inv_def by (auto simp: distinct_map_filter)
    moreover have "\<forall>x \<in> set ?rest. ac_request x < length (tb_requests ?b) \<and> \<not> idle ?b (ac_request x) \<and> matches ?b (ac_request x) (ac_offer x)"
      using assms(1) by (simp add: broker_inv_def idle_def matches_def endAccepting_def)
    moreover have "distinct (map fst (tb_tasks ?b))" using assms(1) by (simp add: broker_inv_def distinct_update)
    moreover have "\<forall>(j, t) \<in> set (tb_tasks ?b). tk_id t = j \<and> issuedId nanoid ?b j"
      using assms(1) iss new by (auto simp: broker_inv_def set_AList_update)
    moreover have "\<forall>j \<in> set (tb_ready ?b). issuedId nanoid ?b j"
      using assms(1) iss by (auto simp: broker_inv_def endAccepting_def)
    moreover have "\<forall>k \<in> set (tb_pendingTaskRequests ?b). k < length (tb_requests ?b)"
      using assms(1) by (simp add: broker_inv_def endAccepting_def)
    ultimately show ?thesis unfolding broker_inv_def by (simp add: endAccepting_def)
  qed
  show ?thesis
  proof (cases "requestWithId (rq_requestId (tb_requests b ! ac_request a)) ?b")
    case None
    with b assms(3) show ?thesis by (simp add: runnerAccepted_def Let_def)
  next
    case (Some j)
    let ?b' = "?b\<lparr>tb_pendingTaskRequests := splice1 j (tb_pendingTaskRequests ?b),
        tb_requesterAcceptRejects := sadd ?i (tb_requesterAcceptRejects ?b), tb_ready := tb_ready ?b @ [?i]\<rparr>"
    have "b' = ?b'" using Some assms(3) by (simp add: runnerAccepted_def Let_def)
    moreover have "issuedId nanoid ?b' = issuedId nanoid ?b" "idle ?b' = idle ?b" "matches ?b' = matches ?b"
      by (simp_all add: fun_eq_iff issuedId_def idle_def matches_def)
    moreover have "set (splice1 j (tb_pendingTaskRequests ?b)) \<subseteq> set (tb_pendingTaskRequests ?b)" by (rule set_splice1_subset)
    ultimately show ?thesis using b new unfolding broker_inv_def by auto
  qed
qed

lemma forgetRunner_simps [simp]:
  "tb_accepting (forgetRunner i b) = tb_accepting b" "acceptCall i (forgetRunner j b) = acceptCall i b"
  by (simp_all add: forgetRunner_def acceptCall_def)

lemma inv_forgetRunner [simp]: "broker_inv nanoid b \<Longrightarrow> broker_inv nanoid (forgetRunner i b)"
  by (rule shrinks_inv [OF shrinks_updates(8)])

lemma inv_handleRunnerAccept:
  "handleRunnerAccept i b = (b', out) \<Longrightarrow> broker_inv nanoid b \<Longrightarrow> broker_inv nanoid b'"
  by (auto simp: handleRunnerAccept_def split: if_splits option.splits dest!: acceptCall_mem intro: inv_runnerAccepted [rotated 2])

lemma inv_handleRunnerReject:
  "handleRunnerReject i b = (b', out) \<Longrightarrow> broker_inv nanoid b \<Longrightarrow> broker_inv nanoid b'"
  by (auto simp: handleRunnerReject_def split: if_splits option.splits dest!: acceptCall_mem intro: inv_acceptFailed)

lemma inv_runnerAcceptTimeout:
  "runnerAcceptTimeout i b = (b', out) \<Longrightarrow> broker_inv nanoid b \<Longrightarrow> broker_inv nanoid b'"
  by (auto simp: runnerAcceptTimeout_def split: if_splits option.splits dest!: acceptCall_mem intro: inv_acceptFailed)

lemma inv_pending:
  assumes "broker_inv nanoid b" "set ks \<subseteq> {..<length (tb_requests b)}"
  shows "broker_inv nanoid (b\<lparr>tb_pendingTaskRequests := ks\<rparr>)"
proof -
  have "idle (b\<lparr>tb_pendingTaskRequests := ks\<rparr>) = idle b" "matches (b\<lparr>tb_pendingTaskRequests := ks\<rparr>) = matches b"
    "issuedId nanoid (b\<lparr>tb_pendingTaskRequests := ks\<rparr>) = issuedId nanoid b"
    by (simp_all add: fun_eq_iff issuedId_def idle_def matches_def)
  with assms show ?thesis unfolding broker_inv_def by auto
qed

lemma inv_handleRunnerDeferred:
  assumes "handleRunnerDeferred i b = (b', out)" "broker_inv nanoid b"
  shows "broker_inv nanoid b'"
proof (cases "i \<in> set (tb_runnerAcceptRejects b) \<and> acceptCall i b \<noteq> None")
  case True
  then obtain a where a: "acceptCall i b = Some a" "a \<in> set (tb_accepting (forgetRunner i b))" using acceptCall_mem by auto
  let ?b = "acceptFailed a (forgetRunner i b)"
  have inv: "broker_inv nanoid ?b" "ac_request a < length (tb_requests ?b)"
    using inv_acceptFailed [OF inv_forgetRunner [OF assms(2)] a(2)] by auto
  have "b' = ?b\<lparr>tb_pendingTaskRequests := tb_pendingTaskRequests ?b @ [ac_request a]\<rparr>"
    using True a assms(1) by (simp add: handleRunnerDeferred_def Let_def)
  moreover have "set (tb_pendingTaskRequests ?b) \<subseteq> {..<length (tb_requests ?b)}" using inv(1) by (auto simp: broker_inv_def)
  ultimately show ?thesis using inv_pending [OF inv(1)] inv(2) by simp
next
  case False
  with assms show ?thesis by (auto simp: handleRunnerDeferred_def split: if_splits)
qed

subsection \<open>Matching keeps the invariant\<close>

lemma inv_settling:
  assumes "inj nanoid" "broker_inv nanoid b0" "settling_ok nanoid b0 (tb_pendingTaskRequests b0) b"
  shows "broker_inv nanoid b"
proof -
  from assms(3) obtain new where new: "tb_accepting b = tb_accepting b0 @ new"
      "map ac_taskId new = map nanoid [tb_issued b0..<tb_issued b0 + length new]" "tb_issued b = tb_issued b0 + length new"
      "distinct (map ac_request new)"
      "\<And>a. a \<in> set new \<Longrightarrow> ac_request a \<in> set (tb_pendingTaskRequests b0) \<and> idle b0 (ac_request a) \<and> \<not> idle b (ac_request a) \<and> matches b0 (ac_request a) (ac_offer a)"
      "\<And>j. j \<notin> ac_request ` set new \<Longrightarrow> idle b j = idle b0 j"
    and rest: "length (tb_requests b) = length (tb_requests b0)"
      "\<forall>k. rq_taskType (tb_requests b ! k) = rq_taskType (tb_requests b0 ! k) \<and> rq_requestId (tb_requests b ! k) = rq_requestId (tb_requests b0 ! k)"
      "tb_pendingTaskRequests b = tb_pendingTaskRequests b0" "tb_tasks b = tb_tasks b0" "tb_ready b = tb_ready b0"
    unfolding settling_ok_def by blast
  have m: "matches b = matches b0" using rest(2) by (simp add: fun_eq_iff matches_def)
  have ids: "ac_taskId ` set new = nanoid ` {tb_issued b0..<tb_issued b0 + length new}"
    using arg_cong [OF new(2), of set] by simp
  then have disj: "ac_taskId ` set new \<inter> nanoid ` {..<tb_issued b0} = {}"
    using assms(1) by (auto dest: injD)
  have iss: "issuedId nanoid b0 i \<Longrightarrow> issuedId nanoid b i" for i
    using disj by (auto simp: issuedId_def new(1,3))
  have old: "ac_taskId ` set (tb_accepting b0) \<subseteq> nanoid ` {..<tb_issued b0}" using assms(2) by (simp add: broker_inv_def)
  have 1: "distinct (map ac_taskId (tb_accepting b))"
  proof -
    have "distinct (map ac_taskId new)" unfolding new(2) using assms(1) by (simp add: distinct_map inj_on_subset [OF assms(1)])
    moreover have "ac_taskId ` set (tb_accepting b0) \<inter> ac_taskId ` set new = {}" using disj old by blast
    ultimately show ?thesis using assms(2) by (simp add: new(1) broker_inv_def)
  qed
  have 2: "ac_taskId ` set (tb_accepting b) \<subseteq> nanoid ` {..<tb_issued b}"
  proof -
    have "nanoid ` {tb_issued b0..<tb_issued b0 + length new} \<subseteq> nanoid ` {..<tb_issued b}"
      "nanoid ` {..<tb_issued b0} \<subseteq> nanoid ` {..<tb_issued b}" by (auto simp: new(3))
    with old ids show ?thesis by (simp add: new(1) image_Un)
  qed
  have 3: "distinct (map ac_request (tb_accepting b))"
    using assms(2) new(4,5) by (auto simp: new(1) broker_inv_def)
  have idle: "\<not> idle b0 k \<Longrightarrow> \<not> idle b k" for k using new(5,6) by (cases "k \<in> ac_request ` set new") auto
  have 4: "ac_request a < length (tb_requests b) \<and> \<not> idle b (ac_request a) \<and> matches b (ac_request a) (ac_offer a)"
    if "a \<in> set (tb_accepting b)" for a
  proof (cases "a \<in> set new")
    case True
    with new(5) [OF True] assms(2) show ?thesis by (simp add: rest(1) m broker_inv_def)
  next
    case False
    with that have "a \<in> set (tb_accepting b0)" by (simp add: new(1))
    with assms(2) idle show ?thesis by (simp add: rest(1) m broker_inv_def)
  qed
  show ?thesis using assms(2) 1 2 3 4 iss unfolding broker_inv_def rest by fast
qed

lemma inv_settleTasks:
  assumes "inj nanoid" "broker_inv nanoid b" "settleTasks nanoid now b = (b', out)"
  shows "broker_inv nanoid b'"
proof -
  have "broker_inv nanoid (expireTasks now b)"
    using assms(2) by (rule shrinks_inv [rotated]) (simp add: expireTasks_def)
  moreover have "settling_ok nanoid (expireTasks now b) (tb_pendingTaskRequests (expireTasks now b)) b'"
    using settleTasks_ok [OF assms(3)] assms(2) by (simp add: broker_inv_def expireTasks_def)
  ultimately show ?thesis by (rule inv_settling [OF assms(1)])
qed

lemma inv_newRequest:
  assumes "broker_inv nanoid b"
  shows "broker_inv nanoid (b\<lparr>tb_requests := tb_requests b @ [r], tb_pendingTaskRequests := tb_pendingTaskRequests b @ [length (tb_requests b)]\<rparr>)"
    (is "broker_inv nanoid ?b")
proof -
  have "issuedId nanoid ?b = issuedId nanoid b" by (simp add: fun_eq_iff issuedId_def)
  moreover have "idle ?b k = idle b k" "matches ?b k x = matches b k x" if "k < length (tb_requests b)" for k x
    using that by (simp_all add: idle_def matches_def nth_append)
  ultimately show ?thesis using assms unfolding broker_inv_def by auto
qed

lemma inv_taskRequested:
  assumes "inj nanoid" "broker_inv nanoid b" "taskRequested nanoid now r b = (b', out)"
  shows "broker_inv nanoid b'"
  using assms inv_settleTasks [OF assms(1) inv_newRequest [OF assms(2)]]
  by (auto simp: taskRequested_def split: if_splits)

lemma inv_taskOffered:
  assumes "inj nanoid" "broker_inv nanoid b" "taskOffered nanoid now x b = (b', out)"
  shows "broker_inv nanoid b'"
  using assms(3) shrinks_inv [OF shrinks_updates(6) assms(2)] unfolding taskOffered_def by (metis inv_settleTasks [OF assms(1)])

lemma inv_failRunnerTask:
  "failRunnerTask x b = (b', out) \<Longrightarrow> broker_inv nanoid b \<Longrightarrow> broker_inv nanoid b'"
  by (auto simp: failRunnerTask_def andThen_def split: prod.splits
      intro: inv_handleRunnerReject shrinks_inv shrinks_tasks(2))

lemma inv_deregisterRunner:
  assumes "broker_inv nanoid b" "deregisterRunner r b = (b', out)"
  shows "broker_inv nanoid b'"
proof -
  let ?f = "\<lambda>t (b, out). case failRunnerTask t b of (b, out') \<Rightarrow> (b, out @ out')"
  let ?b = "b\<lparr>tb_knownRunners := sdel r (tb_knownRunners b), tb_pendingTaskOffers := filter (\<lambda>x. of_runnerId x \<noteq> r) (tb_pendingTaskOffers b)\<rparr>"
  have "shrinks b ?b" by (simp add: shrinks_def)
  then have "broker_inv nanoid (fst (?b, []))" using assms(1) shrinks_inv by simp
  then have "broker_inv nanoid (fst (fold ?f (filter (\<lambda>(_, t). tk_runnerId t = r) (tb_tasks ?b)) (?b, [])))"
    by (rule fold_invariant_set [where P = "\<lambda>s. broker_inv nanoid (fst s)"])
      (auto split: prod.splits intro: inv_failRunnerTask)
  moreover have "b' = fst (fold ?f (filter (\<lambda>(_, t). tk_runnerId t = r) (tb_tasks ?b)) (?b, []))"
    using assms(2) by (simp add: deregisterRunner_def Let_def)
  ultimately show ?thesis by simp
qed

lemma inv_onRunnerMessage:
  assumes "inj nanoid" "broker_inv nanoid b" "onRunnerMessage nanoid now r m b = (b', out)"
  shows "broker_inv nanoid b'"
  using assms
  by (cases m) (auto split: if_splits intro: inv_handleRunnerAccept inv_handleRunnerReject inv_handleRunnerDeferred
    inv_taskOffered shrinks_inv shrinks_tasks shrinks_askRequester)

lemma inv_onRequesterMessage:
  assumes "inj nanoid" "broker_inv nanoid b" "onRequesterMessage nanoid now r m b = (b', out)"
  shows "broker_inv nanoid b'"
  using assms
  by (cases m) (auto intro: inv_taskRequested shrinks_inv shrinks_tasks shrinks_tellRunner shrinks_requesterAccept)

theorem broker_inv_step:
  assumes "broker_step nanoid b out b'" "inj nanoid" "broker_inv nanoid b"
  shows "broker_inv nanoid b'"
  using assms(1)
proof cases
  case (From_runner now r m)
  show ?thesis by (rule inv_onRunnerMessage [OF assms(2,3) From_runner])
next
  case (From_requester now r m)
  show ?thesis by (rule inv_onRequesterMessage [OF assms(2,3) From_requester])
next
  case (Request_timer i)
  show ?thesis by (rule shrinks_inv [OF shrinks_requestTimeout [OF Request_timer] assms(3)])
next
  case (Runner_timer i)
  show ?thesis by (rule inv_runnerAcceptTimeout [OF Runner_timer assms(3)])
next
  case (Requester_timer i)
  show ?thesis by (rule shrinks_inv [OF shrinks_requesterTimeout [OF Requester_timer] assms(3)])
next
  case (Task_timer external i)
  show ?thesis by (rule shrinks_inv [OF shrinks_timeout [OF Task_timer] assms(3)])
next
  case (Runner_comes r)
  then show ?thesis using shrinks_inv [OF shrinks_updates(3) assms(3)] by (auto simp: registerRunner_def)
next
  case (Runner_goes r)
  show ?thesis by (rule inv_deregisterRunner [OF assms(3) Runner_goes])
next
  case (Requester_comes r)
  then show ?thesis using shrinks_inv [OF shrinks_updates(4) assms(3)] by (simp add: registerRequester_def)
next
  case (Requester_goes r)
  then show ?thesis using shrinks_inv [OF shrinks_updates(4) assms(3)] by (simp add: deregisterRequester_def)
next
  case Draining
  then show ?thesis using shrinks_inv [OF shrinks_updates(5) assms(3)] by (simp add: startDraining_def)
qed

section \<open>Reachable states\<close>

definition reaches :: "(nat \<Rightarrow> string) \<Rightarrow> broker \<Rightarrow> broker \<Rightarrow> bool" where
  "reaches nanoid = (\<lambda>b b'. \<exists>out. broker_step nanoid b out b')\<^sup>*\<^sup>*"

lemma reaches_trans: "reaches nanoid a b \<Longrightarrow> reaches nanoid b c \<Longrightarrow> reaches nanoid a c"
  unfolding reaches_def by (rule rtranclp_trans)

lemma reaches_step: "broker_step nanoid b out b' \<Longrightarrow> reaches nanoid b b'"
  unfolding reaches_def by (rule r_into_rtranclp) blast

lemma reaches_steps:
  "reaches nanoid b (fst (registerRunner r b))" "reaches nanoid b (fst (onRequesterMessage nanoid now r m' b))"
  "reaches nanoid b (fst (onRunnerMessage nanoid now r m b))"
  by (rule reaches_step, rule Runner_comes, rule prod.collapse [symmetric])
    (rule reaches_step, rule From_requester, rule prod.collapse [symmetric],
     rule reaches_step, rule From_runner, rule prod.collapse [symmetric])

lemma inv_newBroker: "newBroker taskTimeout = Inr b \<Longrightarrow> broker_inv nanoid b"
  by (auto simp: newBroker_def broker_inv_def split: if_splits)

lemma inv_reaches:
  assumes "reaches nanoid b b'" "inj nanoid" "broker_inv nanoid b"
  shows "broker_inv nanoid b'"
  using assms(1) unfolding reaches_def
  by (induction rule: rtranclp_induct) (use assms(2,3) broker_inv_step in blast)+

subsection \<open>A runner that goes\<close>

lemma map_of_dropTask [simp]: "map_of (tb_tasks (dropTask i b)) j = (if j = i then None else map_of (tb_tasks b) j)"
  by (simp add: dropTask_def)

lemma handleRunnerReject_keeps:
  "handleRunnerReject i b = (b', out) \<Longrightarrow> tb_tasks b' = tb_tasks b \<and> tb_requesters b' = tb_requesters b \<and>
     tb_pendingTaskOffers b' = tb_pendingTaskOffers b \<and> tb_knownRunners b' = tb_knownRunners b \<and> out = []"
  by (auto simp: handleRunnerReject_def acceptFailed_def setRequest_def endAccepting_def forgetRunner_def
      split: if_splits option.splits)

lemma failRunnerTask_effect:
  assumes "failRunnerTask (i, t) b = (b', out)" "map_of (tb_tasks b) (tk_id t) = Some t"
  shows "tb_tasks b' = AList.delete (tk_id t) (tb_tasks b) \<and> tb_requesters b' = tb_requesters b \<and>
    tb_pendingTaskOffers b' = tb_pendingTaskOffers b \<and> tb_knownRunners b' = tb_knownRunners b \<and>
    out = messageRequester (tk_requesterId t) (TaskError (tk_id t)) b"
  using assms
  by (auto simp: failRunnerTask_def andThen_def failTask_def split: prod.splits dest!: handleRunnerReject_keeps)
    (auto simp: dropTask_def)

lemma deregister_loop:
  assumes "distinct (map fst ts)" "\<forall>(i, t) \<in> set ts. map_of (tb_tasks b) i = Some t \<and> tk_id t = i" 
    "fold (\<lambda>t (b, out). case failRunnerTask t b of (b, out') \<Rightarrow> (b, out @ out')) ts (b, out) = (b', out')"
  shows "tb_tasks b' = filter (\<lambda>(i, t). i \<notin> fst ` set ts) (tb_tasks b) \<and> tb_pendingTaskOffers b' = tb_pendingTaskOffers b \<and>
    tb_knownRunners b' = tb_knownRunners b \<and>
    out' = out @ concat (map (\<lambda>(i, t). messageRequester (tk_requesterId t) (TaskError i) b) ts)"
  using assms
proof (induction ts arbitrary: b out)
  case Nil
  then show ?case by simp
next
  case (Cons x ts)
  obtain i t where x: "x = (i, t)" by fastforce
  obtain b1 out1 where r: "failRunnerTask (i, t) b = (b1, out1)" by fastforce
  from Cons.prems(2) have t: "map_of (tb_tasks b) (tk_id t) = Some t" "tk_id t = i" by (auto simp: x)
  from failRunnerTask_effect [OF r t(1)] t(2) have e: "tb_tasks b1 = AList.delete i (tb_tasks b)" "tb_requesters b1 = tb_requesters b"
    "tb_pendingTaskOffers b1 = tb_pendingTaskOffers b" "tb_knownRunners b1 = tb_knownRunners b"
    "out1 = messageRequester (tk_requesterId t) (TaskError i) b" by auto
  have "\<forall>(j, u) \<in> set ts. map_of (tb_tasks b1) j = Some u \<and> tk_id u = j"
    using Cons.prems(1,2) by (force simp: e(1) x)
  from Cons.IH [OF _ this, of "out @ out1"] Cons.prems(1,3) r
  have "tb_tasks b' = filter (\<lambda>(i, t). i \<notin> fst ` set ts) (tb_tasks b1) \<and> tb_pendingTaskOffers b' = tb_pendingTaskOffers b1 \<and>
    tb_knownRunners b' = tb_knownRunners b1 \<and>
    out' = (out @ out1) @ concat (map (\<lambda>(i, t). messageRequester (tk_requesterId t) (TaskError i) b1) ts)" by (simp add: x)
  moreover have "messageRequester r m b1 = messageRequester r m b" for r m by (simp add: messageRequester_def e(2))
  moreover have "filter (\<lambda>(j, t). j \<notin> fst ` set ts) (AList.delete i al) = filter (\<lambda>(j, t). j \<notin> fst ` set ((i, t) # ts)) al" for al :: "(string \<times> task) list"
    by (induction al) auto
  ultimately show ?case by (simp add: e x)
qed

lemma deregisterRunner_ok:
  assumes "broker_inv nanoid b" "deregisterRunner r b = (b', out)"
  shows "tb_tasks b' = filter (\<lambda>(i, t). tk_runnerId t \<noteq> r) (tb_tasks b) \<and>
    tb_pendingTaskOffers b' = filter (\<lambda>x. of_runnerId x \<noteq> r) (tb_pendingTaskOffers b) \<and> r \<notin> set (tb_knownRunners b') \<and>
    out = concat (map (\<lambda>(i, t). messageRequester (tk_requesterId t) (TaskError i) b) (filter (\<lambda>(i, t). tk_runnerId t = r) (tb_tasks b)))"
proof -
  let ?b = "b\<lparr>tb_knownRunners := sdel r (tb_knownRunners b), tb_pendingTaskOffers := filter (\<lambda>x. of_runnerId x \<noteq> r) (tb_pendingTaskOffers b)\<rparr>"
  let ?ts = "filter (\<lambda>(i, t). tk_runnerId t = r) (tb_tasks b)"
  have inv: "distinct (map fst (tb_tasks b))" "\<forall>(i, t) \<in> set (tb_tasks b). tk_id t = i" using assms(1) by (auto simp: broker_inv_def)
  have "distinct (map fst ?ts)" using inv(1) by (rule distinct_map_filter)
  moreover have "\<forall>(i, t) \<in> set ?ts. map_of (tb_tasks ?b) i = Some t \<and> tk_id t = i" using inv by auto
  moreover have "fold (\<lambda>t (b, out). case failRunnerTask t b of (b, out') \<Rightarrow> (b, out @ out')) ?ts (?b, []) = (b', out)"
    using assms(2) by (simp add: deregisterRunner_def Let_def)
  ultimately have "tb_tasks b' = filter (\<lambda>(i, t). i \<notin> fst ` set ?ts) (tb_tasks b) \<and> tb_pendingTaskOffers b' = tb_pendingTaskOffers ?b \<and>
    tb_knownRunners b' = tb_knownRunners ?b \<and>
    out = concat (map (\<lambda>(i, t). messageRequester (tk_requesterId t) (TaskError i) ?b) ?ts)"
    using deregister_loop [of ?ts ?b "[]" b' out] by simp
  moreover have "filter (\<lambda>(i, t). i \<notin> fst ` set ?ts) (tb_tasks b) = filter (\<lambda>(i, t). tk_runnerId t \<noteq> r) (tb_tasks b)"
  proof (intro filter_cong refl)
    fix x
    assume x: "x \<in> set (tb_tasks b)"
    obtain i t where xt: "x = (i, t)" by fastforce
    have "i \<in> fst ` set ?ts \<longleftrightarrow> tk_runnerId t = r"
      using inv(1) x by (auto simp: xt dest: eq_key_imp_eq_value intro: rev_image_eqI)
    then show "(case x of (i, t) \<Rightarrow> i \<notin> fst ` set ?ts) = (case x of (i, t) \<Rightarrow> tk_runnerId t \<noteq> r)" by (simp add: xt)
  qed
  ultimately show ?thesis by (simp add: messageRequester_def)
qed

section \<open>Examples\<close>

definition exId :: "nat \<Rightarrow> string" where
  "exId n = replicate n (CHR ''i'')"

definition exBroker :: broker where
  "exBroker = \<lparr>tb_knownRunners = [''r''], tb_requesters = [''q''], tb_tasks = [], tb_isDraining = False, tb_runnerAcceptRejects = [],
     tb_requesterAcceptRejects = [], tb_pendingTaskOffers = [], tb_pendingTaskRequests = [], tb_requests = [],
     tb_accepting = [], tb_ready = [], tb_issued = 0\<rparr>"

definition exStart :: broker where
  "exStart = exBroker\<lparr>tb_knownRunners := [], tb_requesters := []\<rparr>"

lemma inj_exId: "inj exId"
  by (rule injI) (metis exId_def length_replicate)

lemma inv_exBroker: "broker_inv exId exBroker"
  by (simp add: broker_inv_def exBroker_def)

text \<open>The steps of an example, one after the other, with all messages.\<close>

definition runSteps :: "handler list \<Rightarrow> handler" where
  "runSteps fs b = fold (\<lambda>f (b, out). case f b of (b, out') \<Rightarrow> (b, out @ out')) fs (b, [])"

text \<open>
  A request that was deferred and then expired is still pending: a later offer is accepted for it, and
  the requester, which was told that the request expired, is told that a task is ready.
\<close>

lemma deferred_request_outlives_timeout:
  "snd (runSteps
    [onRequesterMessage exId 0 ''q'' (Request ''x'' ''js''), onRunnerMessage exId 0 ''r'' (Offer ''o1'' ''js'' 1000),
     onRunnerMessage exId 0 ''r'' (TaskDeferred (exId 0)), handleRequestTimeout ''x'',
     onRunnerMessage exId 0 ''r'' (Offer ''o2'' ''js'' 1000), onRunnerMessage exId 0 ''r'' (TaskAccepted (exId 1))] exBroker) =
   [ToRunner ''r'' (TaskOfferAccept ''o1'' (exId 0)), ToRequester ''q'' (RequestExpired ''x'' ''timeout''),
    ToRunner ''r'' (TaskOfferAccept ''o2'' (exId 1)), ToRequester ''q'' (TaskReady ''x'' (exId 1))]"
  by code_simp

text \<open>
  A task that was entered for a request that expired meanwhile stays: nobody is told, and the broker has
  an active task for good.
\<close>

lemma expired_request_leaves_task:
  "map_prod (map fst \<circ> tb_tasks) id (runSteps
    [onRequesterMessage exId 0 ''q'' (Request ''x'' ''js''), onRunnerMessage exId 0 ''r'' (Offer ''o1'' ''js'' 1000),
     handleRequestTimeout ''x'', onRunnerMessage exId 0 ''r'' (TaskAccepted (exId 0))] exBroker) =
   ([exId 0], [ToRunner ''r'' (TaskOfferAccept ''o1'' (exId 0)), ToRequester ''q'' (RequestExpired ''x'' ''timeout'')])"
  by code_simp

text \<open>A request that a runner rejected is not offered to another one until something else happens.\<close>

lemma rejected_request_waits:
  "(\<lambda>b. (tb_pendingTaskRequests b, map rq_acceptInProgress (tb_requests b), map of_offerId (tb_pendingTaskOffers b)))
     (fst (runSteps [onRequesterMessage exId 0 ''q'' (Request ''x'' ''js''), onRunnerMessage exId 0 ''r'' (Offer ''o1'' ''js'' 1000),
       onRunnerMessage exId 0 ''r'' (Offer ''o2'' ''js'' 1000), onRunnerMessage exId 0 ''r'' (TaskRejected (exId 0))] exBroker)) =
   ([0], [False], [''o2''])"
  by code_simp

section \<open>Properties\<close>

text \<open>
  C13: one runner for a request: in every reachable state no request is being accepted by two runners at
  once, each runner that is asked offered the type of the request it is asked for, no two open tasks have
  one id, and a task is either being accepted or entered, not both.
\<close>

theorem one_runner_per_request:
  assumes "inj nanoid" "newBroker taskTimeout = Inr b0" "reaches nanoid b0 b"
  shows "distinct (map ac_request (tb_accepting b)) \<and>
    (\<forall>a \<in> set (tb_accepting b). of_taskType (ac_offer a) = rq_taskType (tb_requests b ! ac_request a)) \<and>
    distinct (map ac_taskId (tb_accepting b) @ map fst (tb_tasks b))"
proof -
  have inv: "broker_inv nanoid b" by (rule inv_reaches [OF assms(3,1) inv_newBroker [OF assms(2)]])
  then have "\<forall>(i, t) \<in> set (tb_tasks b). i \<notin> ac_taskId ` set (tb_accepting b)"
    unfolding broker_inv_def issuedId_def by blast
  then have "ac_taskId ` set (tb_accepting b) \<inter> fst ` set (tb_tasks b) = {}" by (force simp: image_iff)
  with inv show ?thesis by (simp add: broker_inv_def matches_def)
qed

lemma one_runner_per_request_witness:
  "\<exists>b. reaches exId exStart b \<and> map ac_request (tb_accepting b) = [0] \<and>
     distinct (map ac_taskId (tb_accepting b) @ map fst (tb_tasks b))"
proof -
  let ?b1 = "fst (registerRunner ''r'' exStart)"
  let ?b2 = "fst (onRequesterMessage exId 0 ''q'' (Request ''x'' ''js'') ?b1)"
  let ?b3 = "fst (onRunnerMessage exId 0 ''r'' (Offer ''o1'' ''js'' 1000) ?b2)"
  have r: "reaches exId exStart ?b3" by (intro reaches_trans [OF reaches_steps(1) reaches_trans [OF reaches_steps(2) reaches_steps(3)]])
  have "newBroker 60 = Inr exStart" by (simp add: newBroker_def exStart_def exBroker_def)
  from one_runner_per_request [OF inj_exId this r] have "distinct (map ac_taskId (tb_accepting ?b3) @ map fst (tb_tasks ?b3))" by blast
  moreover have "map ac_request (tb_accepting ?b3) = [0]" by code_simp
  ultimately show ?thesis using r by (intro exI [of _ ?b3] conjI)
qed

text \<open>
  C31: a matching round is complete, fair and wastes nothing: every offer that has not expired is kept or
  used for exactly one request of its type that was pending and idle, no request is used twice, and
  afterwards no pending request that is idle could be served by an offer that is left.
\<close>

theorem settleTasks_matches:
  assumes "broker_inv nanoid b" "settleTasks nanoid now b = (b', out)"
  shows "\<exists>new. tb_accepting b' = tb_accepting b @ new \<and>
    mset (tb_pendingTaskOffers (expireTasks now b)) = mset (map ac_offer new) + mset (tb_pendingTaskOffers b') \<and>
    distinct (map ac_request new) \<and>
    (\<forall>a \<in> set new. ac_request a \<in> set (tb_pendingTaskRequests b) \<and> idle b (ac_request a) \<and> matches b (ac_request a) (ac_offer a)) \<and>
    (\<forall>k \<in> set (tb_pendingTaskRequests b'). idle b' k \<longrightarrow> (\<forall>x \<in> set (tb_pendingTaskOffers b'). \<not> matches b' k x))"
proof -
  have "settling_ok nanoid (expireTasks now b) (tb_pendingTaskRequests b) b'"
    using settleTasks_ok [OF assms(2)] assms(1) by (simp add: broker_inv_def)
  moreover have "tb_accepting (expireTasks now b) = tb_accepting b" "idle (expireTasks now b) = idle b"
    "matches (expireTasks now b) = matches b" "tb_pendingTaskRequests (expireTasks now b) = tb_pendingTaskRequests b"
    by (simp_all add: expireTasks_def fun_eq_iff idle_def matches_def)
  ultimately show ?thesis unfolding settling_ok_def served_def by metis
qed

definition exPending :: broker where
  "exPending = exBroker\<lparr>tb_requests := [\<lparr>rq_requestId = ''x'', rq_requesterId = ''q'', rq_taskType = ''js'', rq_acceptInProgress = False\<rparr>],
     tb_pendingTaskRequests := [0], tb_pendingTaskOffers :=
       [\<lparr>of_offerId = ''o1'', of_runnerId = ''r'', of_taskType = ''py'', of_validFor = - 1, of_validUntil = 0\<rparr>,
        \<lparr>of_offerId = ''o2'', of_runnerId = ''r'', of_taskType = ''js'', of_validFor = 1000, of_validUntil = 5\<rparr>]\<rparr>"

lemma settleTasks_matches_witness:
  "\<exists>b' out new. settleTasks exId 3 exPending = (b', out) \<and> tb_accepting b' = tb_accepting exPending @ new \<and>
     map of_offerId (tb_pendingTaskOffers b') = [''o1''] \<and> distinct (map ac_request new)"
proof -
  have inv: "broker_inv exId exPending" by (simp add: broker_inv_def exPending_def exBroker_def)
  obtain b' out where r: "settleTasks exId 3 exPending = (b', out)" by fastforce
  have "map of_offerId (tb_pendingTaskOffers (fst (settleTasks exId 3 exPending))) = [''o1'']" by code_simp
  with settleTasks_matches [OF inv r] r show ?thesis by auto
qed

text \<open>
  When a runner disconnects, it has no offers and no tasks left, the tasks and offers of the others
  are untouched, and exactly the requesters of its tasks are told, each once for a task, that it failed.
\<close>

lemma deregisterRunner_cleans_up:
  assumes "broker_inv nanoid b" "deregisterRunner r b = (b', out)"
  shows "tb_tasks b' = filter (\<lambda>(i, t). tk_runnerId t \<noteq> r) (tb_tasks b) \<and>
    tb_pendingTaskOffers b' = filter (\<lambda>x. of_runnerId x \<noteq> r) (tb_pendingTaskOffers b) \<and> r \<notin> set (tb_knownRunners b') \<and>
    out = concat (map (\<lambda>(i, t). messageRequester (tk_requesterId t) (TaskError i) b) (filter (\<lambda>(i, t). tk_runnerId t = r) (tb_tasks b)))"
  using assms by (rule deregisterRunner_ok)

definition exWorking :: broker where
  "exWorking = exBroker\<lparr>tb_issued := 1, tb_tasks := [(exId 0, \<lparr>tk_id = exId 0, tk_runnerId = ''r'', tk_requesterId = ''q'', tk_taskType = ''js''\<rparr>)]\<rparr>"

lemma deregisterRunner_cleans_up_witness:
  "\<exists>b'. deregisterRunner ''r'' exWorking = (b', [ToRequester ''q'' (TaskError (exId 0))]) \<and> tb_tasks b' = []"
proof -
  have inv: "broker_inv exId exWorking" by (simp add: broker_inv_def exWorking_def exBroker_def issuedId_def)
  obtain b' out where r: "deregisterRunner ''r'' exWorking = (b', out)" by fastforce
  from deregisterRunner_cleans_up [OF inv r] have "tb_tasks b' = []" "out = [ToRequester ''q'' (TaskError (exId 0))]"
    by (simp_all add: exWorking_def exBroker_def messageRequester_def)
  with r show ?thesis by blast
qed

end
