(* ===== verification/TaskRunner.thy ===== *)
theory TaskRunner imports Workflow_Types
begin

text \<open>
  The runner's side of the task protocol (\<open>@n8n/task-runner/src/task-runner.ts\<close>, \<open>task-state.ts\<close>): the offers a
  runner makes, the tasks it accepts and their states, the requests running tasks make, time-outs, cancellation and
  the answers to the broker. A task state is an object that the map of the running tasks, its timer and the execution of
  the task share, so the objects are a list and the others hold positions in it. What a task computes and when
  it ends is not part of the model; the handlers are functions on the runner's state, and a run is a sequence of events.
  An assertion that fails inside an asynchronous handler is the last component of the handler's result.
\<close>

section \<open>State\<close>

datatype task_status = WaitingForSettings | Running | AbortingCancelled | AbortingTimeout

record task_state =
  ts_taskId :: string
  ts_status :: task_status
  ts_abortReason :: "string option"
  ts_timer :: bool

datatype settlement = Unsettled | ResolvedWith json | RejectedWith string

record waiting_request =
  wr_taskId :: string
  wr_promise :: settlement

record runner =
  rn_taskType :: string
  rn_name :: string
  rn_maxConcurrency :: int
  rn_idleTimeout :: nat
  rn_canSendOffers :: bool
  rn_offerInterval :: bool
  rn_openOffers :: "(string \<times> int) list"
  rn_objects :: "task_state list"
  rn_runningTasks :: "(string \<times> nat) list"
  rn_executing :: "nat list"
  rn_dataRequests :: "(string \<times> waiting_request) list"
  rn_nodeTypesRequests :: "(string \<times> waiting_request) list"
  rn_rpcCalls :: "(string \<times> settlement) list"
  rn_isShuttingDown :: bool
  rn_idleTimer :: bool

text \<open>What the runner sends to the broker, and the events it emits to its process.\<close>

datatype runner_output =
    RunnerInfo string "string list"
  | TaskOfferMessage string string int
  | TaskRejectedMessage string string
  | TaskAcceptedMessage string
  | TaskErrorMessage string string
  | TaskDoneMessage string json
  | DataRequestMessage string string
  | NodeTypesRequestMessage string string
  | RpcMessage string string
  | ReachedIdleTimeout
  | ProcessExit

type_synonym runner_handler = "runner \<Rightarrow> runner \<times> runner_output list \<times> bool"

text \<open>
  The clock in nanoseconds and the identifiers and random milliseconds of the offers to be made, which every handler
  that can send offers reads.
\<close>

record call_env =
  ce_now :: int
  ce_offers :: "nat \<Rightarrow> string \<times> nat"

definition newRunner :: "string \<Rightarrow> string option \<Rightarrow> int \<Rightarrow> nat \<Rightarrow> runner" where
  "newRunner taskType nm maxConcurrency idleTimeout =
     \<lparr>rn_taskType = taskType, rn_name = orElse nm ''Node.js Task Runner SDK'', rn_maxConcurrency = maxConcurrency,
      rn_idleTimeout = idleTimeout, rn_canSendOffers = False, rn_offerInterval = False, rn_openOffers = [],
      rn_objects = [], rn_runningTasks = [], rn_executing = [], rn_dataRequests = [], rn_nodeTypesRequests = [],
      rn_rpcCalls = [], rn_isShuttingDown = False, rn_idleTimer = (idleTimeout \<noteq> 0)\<rparr>"

section \<open>Offers\<close>

definition msToNs :: "int \<Rightarrow> int" where
  "msToNs ms = ms * 1000000"

definition clearIdleTimer :: "runner \<Rightarrow> runner" where
  "clearIdleTimer r = r\<lparr>rn_idleTimer := False\<rparr>"

definition resetIdleTimer :: "runner \<Rightarrow> runner" where
  "resetIdleTimer r = (if rn_idleTimeout r = 0 then r else (clearIdleTimer r)\<lparr>rn_idleTimer := True\<rparr>)"

definition stopTaskOffers :: "runner \<Rightarrow> runner" where
  "stopTaskOffers r = r\<lparr>rn_canSendOffers := False, rn_offerInterval := False\<rparr>"

definition startTaskOffers :: "runner \<Rightarrow> runner" where
  "startTaskOffers r = r\<lparr>rn_canSendOffers := True, rn_offerInterval := True\<rparr>"

definition deleteStaleOffers :: "call_env \<Rightarrow> runner \<Rightarrow> runner" where
  "deleteStaleOffers env r = r\<lparr>rn_openOffers := filter (\<lambda>(i, validUntil). \<not> validUntil < ce_now env) (rn_openOffers r)\<rparr>"

definition offersToSend :: "runner \<Rightarrow> int" where
  "offersToSend r = rn_maxConcurrency r - (int (length (rn_openOffers r)) + int (length (rn_runningTasks r)))"

definition sendOffer :: "call_env \<Rightarrow> nat \<Rightarrow> runner \<times> runner_output list \<Rightarrow> runner \<times> runner_output list" where
  "sendOffer env i = (\<lambda>(r, outs).
     (let (offerId, random) = ce_offers env i;
          validForInMs = 5000 + int random;
          validUntil = ce_now env + msToNs (validForInMs + 100)
      in (r\<lparr>rn_openOffers := AList.update offerId validUntil (rn_openOffers r)\<rparr>,
          outs @ [TaskOfferMessage (rn_taskType r) offerId validForInMs])))"

definition sendOffers :: "call_env \<Rightarrow> runner \<Rightarrow> runner \<times> runner_output list" where
  "sendOffers env r =
     (let r = deleteStaleOffers env r
      in if \<not> rn_canSendOffers r then (r, []) else fold (sendOffer env) [0..<nat (offersToSend r)] (r, []))"

section \<open>Tasks\<close>

definition setTask :: "nat \<Rightarrow> task_state \<Rightarrow> runner \<Rightarrow> runner" where
  "setTask k t r = r\<lparr>rn_objects := (rn_objects r)[k := t]\<rparr>"

definition hasOpenTaskSlots :: "runner \<Rightarrow> bool" where
  "hasOpenTaskSlots r \<longleftrightarrow> int (length (rn_runningTasks r)) < rn_maxConcurrency r"

definition offerAccepted :: "string \<Rightarrow> string \<Rightarrow> runner_handler" where
  "offerAccepted offerId taskId r =
     (if \<not> hasOpenTaskSlots r
      then (r\<lparr>rn_openOffers := AList.delete offerId (rn_openOffers r)\<rparr>,
        [TaskRejectedMessage taskId ''No open task slots - runner already at capacity''], False)
      else case map_of (rn_openOffers r) offerId of
          None \<Rightarrow> (r, [TaskRejectedMessage taskId ''Offer expired - not accepted within validity window''], False)
        | Some offer \<Rightarrow>
            let r = resetIdleTimer (r\<lparr>rn_openOffers := AList.delete offerId (rn_openOffers r)\<rparr>);
                t = \<lparr>ts_taskId = taskId, ts_status = WaitingForSettings, ts_abortReason = None, ts_timer = True\<rparr>
            in (r\<lparr>rn_objects := rn_objects r @ [t],
                  rn_runningTasks := AList.update taskId (length (rn_objects r)) (rn_runningTasks r)\<rparr>,
                [TaskAcceptedMessage taskId], False))"

definition finishTask :: "call_env \<Rightarrow> nat \<Rightarrow> runner \<Rightarrow> runner \<times> runner_output list" where
  "finishTask env k r =
     (let t = rn_objects r ! k;
          r = setTask k (t\<lparr>ts_timer := False\<rparr>) r;
          r = r\<lparr>rn_runningTasks := AList.delete (ts_taskId t) (rn_runningTasks r)\<rparr>;
          (r, outs) = sendOffers env r
      in (resetIdleTimer r, outs))"

text \<open>The requests of a task are rejected and forgotten; a call of a procedure is not.\<close>

definition cancelTaskRequests :: "string \<Rightarrow> runner \<Rightarrow> runner" where
  "cancelTaskRequests taskId r =
     r\<lparr>rn_dataRequests := filter (\<lambda>(i, q). wr_taskId q \<noteq> taskId) (rn_dataRequests r),
       rn_nodeTypesRequests := filter (\<lambda>(i, q). wr_taskId q \<noteq> taskId) (rn_nodeTypesRequests r)\<rparr>"

definition abortTask :: "nat \<Rightarrow> task_status \<Rightarrow> string \<Rightarrow> string \<Rightarrow> runner \<Rightarrow> runner" where
  "abortTask k status abortReason reason r =
     (let t = rn_objects r ! k
      in cancelTaskRequests (ts_taskId t)
        (setTask k (t\<lparr>ts_status := status, ts_abortReason := Some (orElse (ts_abortReason t) abortReason)\<rparr>) r))"

definition finished :: "runner \<times> runner_output list \<Rightarrow> runner \<times> runner_output list \<times> bool" where
  "finished = (\<lambda>(r, outs). (r, outs, False))"

definition taskCancelled :: "call_env \<Rightarrow> string \<Rightarrow> string \<Rightarrow> runner_handler" where
  "taskCancelled env taskId reason r =
     (case map_of (rn_runningTasks r) taskId of
        None \<Rightarrow> (r, [], False)
      | Some k \<Rightarrow> (case ts_status (rn_objects r ! k) of
            WaitingForSettings \<Rightarrow> finished (finishTask env k r)
          | AbortingTimeout \<Rightarrow> (r, [], False)
          | AbortingCancelled \<Rightarrow> (r, [], False)
          | Running \<Rightarrow> (abortTask k AbortingCancelled ''cancelled'' reason r, [], False)))"

text \<open>\<open>finally\<close>: the messages of the body, then those of finishing; the failure of the body is kept.\<close>

definition finallyFinish :: "call_env \<Rightarrow> nat \<Rightarrow> runner_output list \<Rightarrow> bool \<Rightarrow> runner_handler" where
  "finallyFinish env k outs failed r = (let (r, more_outs) = finishTask env k r in (r, outs @ more_outs, failed))"

definition taskTimedOut :: "call_env \<Rightarrow> string \<Rightarrow> runner_handler" where
  "taskTimedOut env taskId r =
     (case map_of (rn_runningTasks r) taskId of
        None \<Rightarrow> (r, [], False)
      | Some k \<Rightarrow> (case ts_status (rn_objects r ! k) of
            WaitingForSettings \<Rightarrow> finallyFinish env k [TaskErrorMessage taskId ''TimeoutError''] False r
          | AbortingTimeout \<Rightarrow> (r, [], True)
          | Running \<Rightarrow> (abortTask k AbortingTimeout ''timeout'' ''timeout'' r, [], False)
          | AbortingCancelled \<Rightarrow> (r, [], False)))"

definition receivedSettings :: "string \<Rightarrow> runner_handler" where
  "receivedSettings taskId r =
     (case map_of (rn_runningTasks r) taskId of
        None \<Rightarrow> (r, [], False)
      | Some k \<Rightarrow> (case ts_status (rn_objects r ! k) of
            WaitingForSettings \<Rightarrow>
              ((setTask k ((rn_objects r ! k)\<lparr>ts_status := Running\<rparr>) r)\<lparr>rn_executing := rn_executing r @ [k]\<rparr>, [], False)
          | _ \<Rightarrow> (r, [], True)))"

definition taskExecutionFailed :: "call_env \<Rightarrow> nat \<Rightarrow> string \<Rightarrow> runner_handler" where
  "taskExecutionFailed env k error r =
     (let t = rn_objects r ! k in (case ts_status t of
        WaitingForSettings \<Rightarrow> finallyFinish env k [] True r
      | AbortingCancelled \<Rightarrow> finallyFinish env k [] False r
      | AbortingTimeout \<Rightarrow> finallyFinish env k [TaskErrorMessage (ts_taskId t) error] False r
      | Running \<Rightarrow> finallyFinish env k [TaskErrorMessage (ts_taskId t) error] False r))"

definition taskExecutionSucceeded :: "call_env \<Rightarrow> nat \<Rightarrow> json \<Rightarrow> runner_handler" where
  "taskExecutionSucceeded env k data r =
     (let t = rn_objects r ! k in (case ts_status t of
        WaitingForSettings \<Rightarrow> finallyFinish env k [] True r
      | AbortingCancelled \<Rightarrow> finallyFinish env k [] False r
      | AbortingTimeout \<Rightarrow> finallyFinish env k [TaskDoneMessage (ts_taskId t) data] False r
      | Running \<Rightarrow> finallyFinish env k [TaskDoneMessage (ts_taskId t) data] False r))"

text \<open>
  The end of an execution: \<open>.then(succeeded).catch(failed)\<close>, so a failure inside the first handler is
  handed to the second.
\<close>

definition executionEnded :: "call_env \<Rightarrow> nat \<Rightarrow> string + json \<Rightarrow> runner_handler" where
  "executionEnded env k outcome r =
     (let r = r\<lparr>rn_executing := removeAll k (rn_executing r)\<rparr> in
      case outcome of
        Inl error \<Rightarrow> taskExecutionFailed env k error r
      | Inr data \<Rightarrow> (let (r', outs, failed) = taskExecutionSucceeded env k data r in
          if failed then (let (r'', outs', failed') = taskExecutionFailed env k ''AssertionError'' r' in (r'', outs @ outs', failed'))
          else (r', outs, False)))"

text \<open>The timer of a task: when it fires it is spent.\<close>

definition timerFired :: "call_env \<Rightarrow> nat \<Rightarrow> runner_handler" where
  "timerFired env k r =
     (let t = rn_objects r ! k in taskTimedOut env (ts_taskId t) (setTask k (t\<lparr>ts_timer := False\<rparr>) r))"

section \<open>Requests of tasks\<close>

definition settlePromise :: "settlement \<Rightarrow> settlement \<Rightarrow> settlement" where
  "settlePromise result p = (if p = Unsettled then result else p)"

definition settleIn :: "string \<Rightarrow> settlement \<Rightarrow> (string \<times> waiting_request) list \<Rightarrow> (string \<times> waiting_request) list" where
  "settleIn requestId result qs = (case map_of qs requestId of None \<Rightarrow> qs
     | Some q \<Rightarrow> AList.update requestId (q\<lparr>wr_promise := settlePromise result (wr_promise q)\<rparr>) qs)"

definition processDataResponse :: "string \<Rightarrow> json \<Rightarrow> runner \<Rightarrow> runner" where
  "processDataResponse requestId data r = r\<lparr>rn_dataRequests := settleIn requestId (ResolvedWith data) (rn_dataRequests r)\<rparr>"

definition processNodeTypesResponse :: "string \<Rightarrow> json \<Rightarrow> runner \<Rightarrow> runner" where
  "processNodeTypesResponse requestId data r =
     r\<lparr>rn_nodeTypesRequests := settleIn requestId (ResolvedWith data) (rn_nodeTypesRequests r)\<rparr>"

definition handleRpcResponse :: "string \<Rightarrow> bool \<Rightarrow> json \<Rightarrow> runner \<Rightarrow> runner" where
  "handleRpcResponse callId success data r =
     (case map_of (rn_rpcCalls r) callId of None \<Rightarrow> r
      | Some p \<Rightarrow> r\<lparr>rn_rpcCalls := AList.update callId
          (settlePromise (if success then ResolvedWith data else RejectedWith (case data of JStr s \<Rightarrow> s | _ \<Rightarrow> [])) p) (rn_rpcCalls r)\<rparr>)"

definition requestData :: "string \<Rightarrow> string \<Rightarrow> runner_handler" where
  "requestData taskId requestId r =
     (r\<lparr>rn_dataRequests := AList.update requestId \<lparr>wr_taskId = taskId, wr_promise = Unsettled\<rparr> (rn_dataRequests r)\<rparr>,
      [DataRequestMessage taskId requestId], False)"

definition requestNodeTypes :: "string \<Rightarrow> string \<Rightarrow> runner_handler" where
  "requestNodeTypes taskId requestId r =
     (r\<lparr>rn_nodeTypesRequests := AList.update requestId \<lparr>wr_taskId = taskId, wr_promise = Unsettled\<rparr> (rn_nodeTypesRequests r)\<rparr>,
      [NodeTypesRequestMessage taskId requestId], False)"

definition makeRpcCall :: "string \<Rightarrow> string \<Rightarrow> runner_handler" where
  "makeRpcCall taskId callId r =
     (r\<lparr>rn_rpcCalls := AList.update callId Unsettled (rn_rpcCalls r)\<rparr>, [RpcMessage taskId callId], False)"

text \<open>The \<open>finally\<close> of a request, once its promise is settled: it is forgotten.\<close>

definition dataRequestEnded :: "string \<Rightarrow> runner \<Rightarrow> runner" where
  "dataRequestEnded requestId r = r\<lparr>rn_dataRequests := AList.delete requestId (rn_dataRequests r)\<rparr>"

definition nodeTypesRequestEnded :: "string \<Rightarrow> runner \<Rightarrow> runner" where
  "nodeTypesRequestEnded requestId r = r\<lparr>rn_nodeTypesRequests := AList.delete requestId (rn_nodeTypesRequests r)\<rparr>"

definition rpcCallEnded :: "string \<Rightarrow> runner \<Rightarrow> runner" where
  "rpcCallEnded callId r = r\<lparr>rn_rpcCalls := AList.delete callId (rn_rpcCalls r)\<rparr>"

section \<open>Messages and events\<close>

datatype broker_message =
    InfoRequest
  | RunnerRegistered
  | TaskOfferAccept string string
  | TaskCancel string string
  | TaskSettings string json
  | RpcResponse string bool json
  | TaskDataResponse string json
  | NodeTypesResponse string json
  | Drain

fun onMessage :: "call_env \<Rightarrow> broker_message \<Rightarrow> runner_handler" where
  "onMessage env InfoRequest r = (r, [RunnerInfo (rn_name r) [rn_taskType r]], False)"
| "onMessage env RunnerRegistered r = (startTaskOffers r, [], False)"
| "onMessage env (TaskOfferAccept offerId taskId) r = offerAccepted offerId taskId r"
| "onMessage env (TaskCancel taskId reason) r = taskCancelled env taskId reason r"
| "onMessage env (TaskSettings taskId settings) r = receivedSettings taskId r"
| "onMessage env (TaskDataResponse requestId data) r = (processDataResponse requestId data r, [], False)"
| "onMessage env (RpcResponse callId success data) r = (handleRpcResponse callId success data r, [], False)"
| "onMessage env (NodeTypesResponse requestId data) r = (processNodeTypesResponse requestId data r, [], False)"
| "onMessage env Drain r = (stopTaskOffers r, [], False)"

definition idleTimerFired :: runner_handler where
  "idleTimerFired r = (r\<lparr>rn_idleTimer := False\<rparr>, if rn_runningTasks r = [] then [ReachedIdleTimeout] else [], False)"

text \<open>\<open>stop\<close>, up to where it waits for the tasks.\<close>

definition stopRunner :: "runner \<Rightarrow> runner" where
  "stopRunner r = stopTaskOffers (clearIdleTimer (r\<lparr>rn_isShuttingDown := True\<rparr>))"

definition onConnectionClose :: runner_handler where
  "onConnectionClose r = (stopTaskOffers r, if rn_isShuttingDown r then [] else [ProcessExit], False)"

datatype runner_event =
    Received broker_message
  | OfferTick
  | TimerFired nat
  | ExecutionEnded nat "string + json"
  | DataRequested string string
  | NodeTypesRequested string string
  | RpcCalled string string
  | DataRequestEnded string
  | NodeTypesRequestEnded string
  | RpcCallEnded string
  | IdleTimerFired
  | StopCalled
  | ConnectionClosed

fun onEvent :: "call_env \<Rightarrow> runner_event \<Rightarrow> runner_handler" where
  "onEvent env (Received m) r = onMessage env m r"
| "onEvent env OfferTick r = finished (sendOffers env r)"
| "onEvent env (TimerFired k) r = timerFired env k r"
| "onEvent env (ExecutionEnded k outcome) r = executionEnded env k outcome r"
| "onEvent env (DataRequested taskId i) r = requestData taskId i r"
| "onEvent env (NodeTypesRequested taskId i) r = requestNodeTypes taskId i r"
| "onEvent env (RpcCalled taskId i) r = makeRpcCall taskId i r"
| "onEvent env (DataRequestEnded i) r = (dataRequestEnded i r, [], False)"
| "onEvent env (NodeTypesRequestEnded i) r = (nodeTypesRequestEnded i r, [], False)"
| "onEvent env (RpcCallEnded i) r = (rpcCallEnded i r, [], False)"
| "onEvent env IdleTimerFired r = idleTimerFired r"
| "onEvent env StopCalled r = (stopRunner r, [], False)"
| "onEvent env ConnectionClosed r = onConnectionClose r"

text \<open>
  When an event can come: a timer that is set, the end of an execution that is under way, a request of a task
  that is being executed, the end of a request whose promise is settled or that was forgotten. Messages can come at any time.
\<close>

fun possible :: "runner_event \<Rightarrow> runner \<Rightarrow> bool" where
  "possible OfferTick r = rn_offerInterval r"
| "possible (TimerFired k) r = (k < length (rn_objects r) \<and> ts_timer (rn_objects r ! k))"
| "possible (ExecutionEnded k outcome) r = (k \<in> set (rn_executing r))"
| "possible (DataRequested taskId i) r = (\<exists>k \<in> set (rn_executing r). ts_taskId (rn_objects r ! k) = taskId)"
| "possible (NodeTypesRequested taskId i) r = (\<exists>k \<in> set (rn_executing r). ts_taskId (rn_objects r ! k) = taskId)"
| "possible (RpcCalled taskId i) r = (\<exists>k \<in> set (rn_executing r). ts_taskId (rn_objects r ! k) = taskId)"
| "possible (DataRequestEnded i) r = (map_option wr_promise (map_of (rn_dataRequests r) i) \<noteq> Some Unsettled)"
| "possible (NodeTypesRequestEnded i) r = (map_option wr_promise (map_of (rn_nodeTypesRequests r) i) \<noteq> Some Unsettled)"
| "possible (RpcCallEnded i) r = (map_of (rn_rpcCalls r) i \<noteq> Some Unsettled)"
| "possible IdleTimerFired r = rn_idleTimer r"
| "possible _ r = True"

text \<open>The runs of a runner, with the events and what the runner answered to each.\<close>

type_synonym trace = "(runner_event \<times> runner_output list \<times> bool) list"

inductive runs :: "runner \<Rightarrow> trace \<Rightarrow> runner \<Rightarrow> bool" for start where
  Start: "runs start [] start"
| Event: "runs start tr r \<Longrightarrow> possible ev r \<Longrightarrow> onEvent env ev r = (r', outs, failed) \<Longrightarrow>
    runs start (tr @ [(ev, outs, failed)]) r'"

section \<open>Capacity\<close>

definition fits :: "int \<Rightarrow> runner \<Rightarrow> bool" where
  "fits m r \<longleftrightarrow> rn_maxConcurrency r = m \<and> int (length (rn_openOffers r)) + int (length (rn_runningTasks r)) \<le> max 0 m"

text \<open>\<open>smaller r r'\<close>: the second state has no more open offers, running tasks and places than the first.\<close>

definition smaller :: "runner \<Rightarrow> runner \<Rightarrow> bool" where
  "smaller r r' \<longleftrightarrow> length (rn_openOffers r') \<le> length (rn_openOffers r) \<and>
     length (rn_runningTasks r') \<le> length (rn_runningTasks r) \<and> rn_maxConcurrency r' = rn_maxConcurrency r"

lemma fits_smaller: "fits m r \<Longrightarrow> smaller r r' \<Longrightarrow> fits m r'"
  by (simp add: fits_def smaller_def)

lemma length_AList_delete_le: "length (AList.delete k al) \<le> length al"
  by (simp add: AList.delete_eq)

lemma length_AList_delete_less: "map_of al k = Some v \<Longrightarrow> length (AList.delete k al) < length al"
proof (induction al)
  case (Cons p al)
  then show ?case using length_AList_delete_le [of k al] by (cases p) (auto split: if_splits)
qed simp

lemma length_AList_update_le: "length (AList.update k v al) \<le> Suc (length al)"
  by (induction al) auto

lemma smaller_refl [simp]: "smaller r r"
  by (simp add: smaller_def)

lemma smaller_trans: "smaller r r' \<Longrightarrow> smaller r' r'' \<Longrightarrow> smaller r r''"
  by (simp add: smaller_def)

lemma smaller_simps [simp]:
  "smaller r (clearIdleTimer r)" "smaller r (resetIdleTimer r)" "smaller r (stopTaskOffers r)" "smaller r (startTaskOffers r)"
  "smaller r (setTask k t r)" "smaller r (cancelTaskRequests i r)" "smaller r (processDataResponse i d r)"
  "smaller r (processNodeTypesResponse i d r)" "smaller r (dataRequestEnded i r)" "smaller r (nodeTypesRequestEnded i r)"
  "smaller r (rpcCallEnded i r)" "smaller r (stopRunner r)" "smaller r (deleteStaleOffers env r)"
  by (simp_all add: smaller_def clearIdleTimer_def resetIdleTimer_def stopTaskOffers_def startTaskOffers_def setTask_def
      cancelTaskRequests_def processDataResponse_def processNodeTypesResponse_def dataRequestEnded_def nodeTypesRequestEnded_def
      rpcCallEnded_def stopRunner_def deleteStaleOffers_def)

lemma smaller_handleRpcResponse [simp]: "smaller r (handleRpcResponse i ok d r)"
  by (simp add: handleRpcResponse_def smaller_def split: option.split)

lemma smaller_abortTask [simp]: "smaller r (abortTask k st a b r)"
  by (simp add: abortTask_def Let_def smaller_def setTask_def cancelTaskRequests_def)

text \<open>What making offers changes: only the open offers; it sends nothing but offers.\<close>

definition madeOffers :: "call_env \<Rightarrow> nat list \<Rightarrow> (string \<times> int) list \<Rightarrow> (string \<times> int) list" where
  "madeOffers env = fold (\<lambda>i. AList.update (fst (ce_offers env i)) (ce_now env + msToNs (5100 + int (snd (ce_offers env i)))))"

definition offerMessage :: "call_env \<Rightarrow> string \<Rightarrow> nat \<Rightarrow> runner_output" where
  "offerMessage env ty i = TaskOfferMessage ty (fst (ce_offers env i)) (5000 + int (snd (ce_offers env i)))"

lemma sendOffer_fold: "fold (sendOffer env) js (r, outs) =
   (r\<lparr>rn_openOffers := madeOffers env js (rn_openOffers r)\<rparr>, outs @ map (offerMessage env (rn_taskType r)) js)"
  by (induction js arbitrary: r outs)
    (simp_all add: madeOffers_def sendOffer_def offerMessage_def Let_def case_prod_beta algebra_simps)

definition offersAfter :: "call_env \<Rightarrow> runner \<Rightarrow> (string \<times> int) list" where
  "offersAfter env r = (let open_offers = rn_openOffers (deleteStaleOffers env r)
     in if rn_canSendOffers r then madeOffers env [0..<nat (offersToSend (deleteStaleOffers env r))] open_offers else open_offers)"

definition offersSent :: "call_env \<Rightarrow> runner \<Rightarrow> runner_output list" where
  "offersSent env r = (if rn_canSendOffers r
     then map (offerMessage env (rn_taskType r)) [0..<nat (offersToSend (deleteStaleOffers env r))] else [])"

lemma sendOffers_eq: "sendOffers env r = (r\<lparr>rn_openOffers := offersAfter env r\<rparr>, offersSent env r)"
  by (simp add: sendOffers_def Let_def sendOffer_fold offersAfter_def offersSent_def deleteStaleOffers_def)

lemma length_madeOffers: "length (madeOffers env js os) \<le> length os + length js"
proof (induction js arbitrary: os)
  case (Cons j js)
  have "madeOffers env (j # js) os = madeOffers env js
      (AList.update (fst (ce_offers env j)) (ce_now env + msToNs (5100 + int (snd (ce_offers env j)))) os)"
    by (simp add: madeOffers_def)
  moreover have "length (AList.update (fst (ce_offers env j)) (ce_now env + msToNs (5100 + int (snd (ce_offers env j)))) os) \<le> Suc (length os)"
    by (rule length_AList_update_le)
  ultimately show ?case using Cons.IH [of "AList.update (fst (ce_offers env j)) (ce_now env + msToNs (5100 + int (snd (ce_offers env j)))) os"]
    by simp
qed (simp add: madeOffers_def)

lemma fits_sendOffers:
  assumes "fits m r"
  shows "fits m (fst (sendOffers env r))"
proof -
  let ?d = "deleteStaleOffers env r"
  have d: "fits m ?d" using assms by (rule fits_smaller) simp
  have "length (offersAfter env r) \<le> length (rn_openOffers ?d) + (if rn_canSendOffers r then nat (offersToSend ?d) else 0)"
    using length_madeOffers [of env "[0..<nat (offersToSend ?d)]" "rn_openOffers ?d"] by (simp add: offersAfter_def Let_def)
  moreover have "rn_runningTasks ?d = rn_runningTasks r" "rn_maxConcurrency ?d = rn_maxConcurrency r"
    by (simp_all add: deleteStaleOffers_def)
  ultimately show ?thesis using d by (auto simp: sendOffers_eq fits_def offersToSend_def split: if_splits)
qed

lemma fits_finishTask: "fits m r \<Longrightarrow> fits m (fst (finishTask env k r))"
proof -
  assume "fits m r"
  let ?r = "(setTask k ((rn_objects r ! k)\<lparr>ts_timer := False\<rparr>) r)
    \<lparr>rn_runningTasks := AList.delete (ts_taskId (rn_objects r ! k)) (rn_runningTasks r)\<rparr>"
  have "smaller r ?r" using length_AList_delete_le by (simp add: smaller_def setTask_def)
  with \<open>fits m r\<close> have "fits m (fst (sendOffers env ?r))" by (intro fits_sendOffers) (rule fits_smaller)
  moreover have "fst (finishTask env k r) = resetIdleTimer (fst (sendOffers env ?r))"
    by (simp add: finishTask_def Let_def case_prod_beta setTask_def)
  ultimately show ?thesis by (simp add: fits_smaller)
qed

lemma resetIdleTimer_simps [simp]:
  "rn_openOffers (resetIdleTimer r) = rn_openOffers r" "rn_objects (resetIdleTimer r) = rn_objects r"
  "rn_runningTasks (resetIdleTimer r) = rn_runningTasks r" "rn_executing (resetIdleTimer r) = rn_executing r"
  "rn_maxConcurrency (resetIdleTimer r) = rn_maxConcurrency r" "rn_dataRequests (resetIdleTimer r) = rn_dataRequests r"
  "rn_nodeTypesRequests (resetIdleTimer r) = rn_nodeTypesRequests r"
  by (simp_all add: resetIdleTimer_def clearIdleTimer_def)

lemma fits_offerAccepted: "fits m r \<Longrightarrow> fits m (fst (offerAccepted offerId taskId r))"
proof -
  assume f: "fits m r"
  show ?thesis
  proof (cases "hasOpenTaskSlots r")
    case False
    with f show ?thesis using length_AList_delete_le [of offerId "rn_openOffers r"] by (auto simp: offerAccepted_def fits_def)
  next
    case True
    show ?thesis
    proof (cases "map_of (rn_openOffers r) offerId")
      case (Some offer)
      then have "length (AList.delete offerId (rn_openOffers r)) < length (rn_openOffers r)" by (rule length_AList_delete_less)
      moreover have "length (AList.update taskId (length (rn_objects r)) (rn_runningTasks r)) \<le> Suc (length (rn_runningTasks r))"
        by (rule length_AList_update_le)
      ultimately have le: "length (AList.delete offerId (rn_openOffers r)) + length (AList.update taskId (length (rn_objects r)) (rn_runningTasks r))
          \<le> length (rn_openOffers r) + length (rn_runningTasks r)" by linarith
      have fields: "rn_openOffers (fst (offerAccepted offerId taskId r)) = AList.delete offerId (rn_openOffers r)"
        "rn_runningTasks (fst (offerAccepted offerId taskId r)) = AList.update taskId (length (rn_objects r)) (rn_runningTasks r)"
        "rn_maxConcurrency (fst (offerAccepted offerId taskId r)) = rn_maxConcurrency r"
        using True Some by (simp_all add: offerAccepted_def Let_def)
      show ?thesis using f of_nat_mono [OF le, where 'a = int] unfolding fits_def fields of_nat_add by linarith
    qed (use True f in \<open>simp add: offerAccepted_def\<close>)
  qed
qed

lemma fits_finallyFinish: "fits m r \<Longrightarrow> fits m (fst (finallyFinish env k outs failed r))"
  using fits_finishTask by (simp add: finallyFinish_def case_prod_beta)

lemmas fits_changes = smaller_simps [THEN fits_smaller [rotated]] smaller_handleRpcResponse [THEN fits_smaller [rotated]]
  smaller_abortTask [THEN fits_smaller [rotated]]

lemma fits_fields [simp]:
  "fits m (r\<lparr>rn_executing := x\<rparr>) = fits m r" "fits m (r\<lparr>rn_dataRequests := q\<rparr>) = fits m r"
  "fits m (r\<lparr>rn_nodeTypesRequests := q\<rparr>) = fits m r" "fits m (r\<lparr>rn_rpcCalls := c\<rparr>) = fits m r"
  "fits m (r\<lparr>rn_idleTimer := b\<rparr>) = fits m r"
  by (simp_all add: fits_def)

lemma fits_onMessage: "fits m r \<Longrightarrow> fits m (fst (onMessage env msg r))"
  by (cases msg) (auto simp: taskCancelled_def receivedSettings_def finished_def case_prod_beta
      split: option.splits task_status.splits intro: fits_changes fits_offerAccepted fits_finishTask)

lemma fits_taskTimedOut: "fits m r \<Longrightarrow> fits m (fst (taskTimedOut env taskId r))"
  by (auto simp: taskTimedOut_def split: option.splits task_status.splits intro: fits_changes fits_finallyFinish)

lemma fits_executionEnded:
  assumes "fits m r"
  shows "fits m (fst (executionEnded env k outcome r))"
proof -
  have f: "fits m (r\<lparr>rn_executing := removeAll k (rn_executing r)\<rparr>)" using assms by simp
  have failed: "fits m r' \<Longrightarrow> fits m (fst (taskExecutionFailed env k e r'))" for r' e
    using fits_finallyFinish by (simp add: taskExecutionFailed_def Let_def split: task_status.splits)
  have succeeded: "fits m r' \<Longrightarrow> fits m (fst (taskExecutionSucceeded env k d r'))" for r' d
    using fits_finallyFinish by (simp add: taskExecutionSucceeded_def Let_def split: task_status.splits)
  show ?thesis
  proof (cases outcome)
    case (Inl e)
    with failed [OF f] show ?thesis by (simp add: executionEnded_def)
  next
    case (Inr d)
    with succeeded [OF f, of d] failed show ?thesis
      by (simp add: executionEnded_def Let_def case_prod_beta)
  qed
qed

lemma fits_onEvent: "fits m r \<Longrightarrow> fits m (fst (onEvent env ev r))"
  by (cases ev) (auto simp: finished_def case_prod_beta requestData_def requestNodeTypes_def makeRpcCall_def idleTimerFired_def
      onConnectionClose_def timerFired_def Let_def
      intro: fits_changes fits_onMessage fits_sendOffers fits_executionEnded fits_taskTimedOut)

text \<open>
  C14: a runner never promises more than it can do: at any time the open offers and the running tasks together are
  at most its concurrency.
\<close>

theorem runner_capacity:
  assumes "runs (newRunner taskType nm maxConcurrency idleTimeout) tr r"
  shows "int (length (rn_openOffers r)) + int (length (rn_runningTasks r)) \<le> max 0 maxConcurrency"
proof -
  from assms have "fits maxConcurrency r"
  proof (induction rule: runs.induct)
    case Start
    show ?case by (simp add: fits_def newRunner_def)
  next
    case (Event tr r ev env r' outs failed)
    then show ?case using fits_onEvent [of maxConcurrency r env ev] by simp
  qed
  then show ?thesis by (simp add: fits_def)
qed

section \<open>The life cycle of a task\<close>

text \<open>
  The diagram in \<open>task-state.ts\<close>, as a relation between the objects, the running tasks and the executions
  before and after, with the identifiers of the tasks whose result is sent.
\<close>

type_synonym tasks = "task_state list \<times> (string \<times> nat) list \<times> nat list"

definition tasksOf :: "runner \<Rightarrow> tasks" where
  "tasksOf r = (rn_objects r, rn_runningTasks r, rn_executing r)"

fun resultOf :: "runner_output \<Rightarrow> string option" where
  "resultOf (TaskErrorMessage taskId e) = Some taskId"
| "resultOf (TaskDoneMessage taskId d) = Some taskId"
| "resultOf _ = None"

definition results :: "runner_output list \<Rightarrow> string list" where
  "results outs = List.map_filter resultOf outs"

definition newTask :: "string \<Rightarrow> task_state" where
  "newTask taskId = \<lparr>ts_taskId = taskId, ts_status = WaitingForSettings, ts_abortReason = None, ts_timer = True\<rparr>"

datatype task_event = Offered string | Configured string | Other

fun eventOf :: "runner_event \<Rightarrow> task_event" where
  "eventOf (Received (TaskOfferAccept offerId taskId)) = Offered taskId"
| "eventOf (Received (TaskSettings taskId settings)) = Configured taskId"
| "eventOf _ = Other"

inductive life_cycle :: "tasks \<Rightarrow> task_event \<Rightarrow> string list \<Rightarrow> tasks \<Rightarrow> bool" where
  Same: "life_cycle t ev [] t"
| Accept: "life_cycle (objs, run, exe) (Offered i) [] (objs @ [newTask i], AList.update i (length objs) run, exe)"
| Disarm: "k < length objs \<Longrightarrow> life_cycle (objs, run, exe) Other [] (objs[k := (objs ! k)\<lparr>ts_timer := False\<rparr>], run, exe)"
| Configure: "map_of run i = Some k \<Longrightarrow> ts_status (objs ! k) = WaitingForSettings \<Longrightarrow>
    life_cycle (objs, run, exe) (Configured i) [] (objs[k := (objs ! k)\<lparr>ts_status := Running\<rparr>], run, exe @ [k])"
| Cancel: "map_of run i = Some k \<Longrightarrow> ts_status (objs ! k) = Running \<Longrightarrow>
    life_cycle (objs, run, exe) Other [] (objs[k := (objs ! k)\<lparr>ts_status := AbortingCancelled, ts_abortReason := a\<rparr>], run, exe)"
| Timeout: "map_of run i = Some k \<Longrightarrow> ts_status (objs ! k) = Running \<Longrightarrow>
    life_cycle (objs, run, exe) Other []
      (objs[k := (objs ! k)\<lparr>ts_timer := False, ts_status := AbortingTimeout, ts_abortReason := a\<rparr>], run, exe)"
| Drop: "map_of run i = Some k \<Longrightarrow> ts_status (objs ! k) = WaitingForSettings \<Longrightarrow> rs = [] \<or> rs = [i] \<Longrightarrow>
    life_cycle (objs, run, exe) Other rs (objs[k := (objs ! k)\<lparr>ts_timer := False\<rparr>], AList.delete i run, exe)"
| Finish: "map_of run i = Some k \<Longrightarrow> k \<in> set exe \<Longrightarrow> ts_status (objs ! k) \<noteq> WaitingForSettings \<Longrightarrow>
    rs = (if ts_status (objs ! k) = AbortingCancelled then [] else [i]) \<Longrightarrow>
    life_cycle (objs, run, exe) Other rs (objs[k := (objs ! k)\<lparr>ts_timer := False\<rparr>], AList.delete i run, removeAll k exe)"

text \<open>
  What holds between the tables: a running task is an object of its name; a task is executed exactly while it is
  running and past waiting; a timer is set only for a running task that it has not aborted.
\<close>

definition task_ok :: "tasks \<Rightarrow> bool" where
  "task_ok = (\<lambda>(objs, run, exe). distinct (map ts_taskId objs) \<and> distinct (map fst run) \<and> distinct exe \<and>
     (\<forall>i k. map_of run i = Some k \<longrightarrow> k < length objs \<and> ts_taskId (objs ! k) = i) \<and>
     (\<forall>k. k \<in> set exe \<longleftrightarrow> k < length objs \<and> map_of run (ts_taskId (objs ! k)) = Some k \<and> ts_status (objs ! k) \<noteq> WaitingForSettings) \<and>
     (\<forall>k < length objs. ts_timer (objs ! k) \<longrightarrow>
        map_of run (ts_taskId (objs ! k)) = Some k \<and> ts_status (objs ! k) \<noteq> AbortingTimeout))"

lemma results_append [simp]: "results (xs @ ys) = results xs @ results ys"
  by (simp add: results_def List.map_filter_def)

lemma results_simps [simp]:
  "results [] = []" "results (TaskErrorMessage i e # outs) = i # results outs" "results (TaskDoneMessage i d # outs) = i # results outs"
  "results (TaskAcceptedMessage i # outs) = results outs" "results (TaskRejectedMessage i x # outs) = results outs"
  "results (RunnerInfo a ts # outs) = results outs" "results (DataRequestMessage a b # outs) = results outs"
  "results (NodeTypesRequestMessage a b # outs) = results outs" "results (RpcMessage a b # outs) = results outs"
  "results (ReachedIdleTimeout # outs) = results outs" "results (ProcessExit # outs) = results outs"
  by (simp_all add: results_def List.map_filter_def)

lemma results_offers [simp]: "results (offersSent env r) = []"
  by (simp add: offersSent_def results_def List.map_filter_def offerMessage_def comp_def)

lemma tasksOf_sendOffers: "tasksOf (fst (sendOffers env r)) = tasksOf r" "results (snd (sendOffers env r)) = []"
  by (simp_all add: sendOffers_eq tasksOf_def)

lemma finishTask_tasks:
  assumes "finishTask env k r = (r', outs)"
  shows "tasksOf r' = ((rn_objects r)[k := (rn_objects r ! k)\<lparr>ts_timer := False\<rparr>],
      AList.delete (ts_taskId (rn_objects r ! k)) (rn_runningTasks r), rn_executing r)" "results outs = []"
  using assms by (auto simp: finishTask_def Let_def sendOffers_eq tasksOf_def setTask_def)

lemma finallyFinish_tasks:
  assumes "finallyFinish env k msgs b r = (r', outs, failed)"
  shows "tasksOf r' = ((rn_objects r)[k := (rn_objects r ! k)\<lparr>ts_timer := False\<rparr>],
      AList.delete (ts_taskId (rn_objects r ! k)) (rn_runningTasks r), rn_executing r)" "results outs = results msgs" "failed = b"
  using assms finishTask_tasks [of env k r] by (auto simp: finallyFinish_def split: prod.splits)

text \<open>A step of the runner: no assertion fails, unless settings come for a task that has them already.\<close>

definition lawful :: "task_event \<Rightarrow> runner \<Rightarrow> runner_output list \<Rightarrow> runner \<Rightarrow> bool" where
  "lawful ev r outs r' \<longleftrightarrow> life_cycle (tasksOf r) ev (results outs) (tasksOf r')"

lemma lawful_same: "tasksOf r' = tasksOf r \<Longrightarrow> results outs = [] \<Longrightarrow> lawful ev r outs r'"
  by (simp add: lawful_def life_cycle.Same)

lemma task_okD:
  assumes "task_ok (tasksOf r)"
  shows "map_of (rn_runningTasks r) i = Some k \<Longrightarrow> k < length (rn_objects r) \<and> ts_taskId (rn_objects r ! k) = i"
    and "k \<in> set (rn_executing r) \<longleftrightarrow> k < length (rn_objects r) \<and>
      map_of (rn_runningTasks r) (ts_taskId (rn_objects r ! k)) = Some k \<and> ts_status (rn_objects r ! k) \<noteq> WaitingForSettings"
    and "k < length (rn_objects r) \<Longrightarrow> ts_timer (rn_objects r ! k) \<Longrightarrow>
      map_of (rn_runningTasks r) (ts_taskId (rn_objects r ! k)) = Some k \<and> ts_status (rn_objects r ! k) \<noteq> AbortingTimeout"
  using assms by (auto simp: task_ok_def tasksOf_def)

lemma offerAccepted_lawful:
  assumes "offerAccepted offerId taskId r = (r', outs, failed)"
  shows "lawful (Offered taskId) r outs r' \<and> \<not> failed"
proof (cases "hasOpenTaskSlots r \<and> map_of (rn_openOffers r) offerId \<noteq> None")
  case True
  then obtain v where "map_of (rn_openOffers r) offerId = Some v" by blast
  with True assms have "tasksOf r' = (rn_objects r @ [newTask taskId],
      AList.update taskId (length (rn_objects r)) (rn_runningTasks r), rn_executing r)" "results outs = []" "\<not> failed"
    by (auto simp: offerAccepted_def Let_def tasksOf_def newTask_def)
  then show ?thesis by (simp add: lawful_def tasksOf_def [of r] life_cycle.Accept)
next
  case False
  with assms show ?thesis
    by (auto simp: offerAccepted_def tasksOf_def split: if_splits option.splits intro!: lawful_same)
qed

lemma taskCancelled_lawful:
  assumes "taskCancelled env taskId reason r = (r', outs, failed)" "task_ok (tasksOf r)"
  shows "lawful Other r outs r' \<and> \<not> failed"
proof (cases "map_of (rn_runningTasks r) taskId")
  case None
  with assms(1) show ?thesis by (auto simp: taskCancelled_def intro: lawful_same)
next
  case (Some k)
  note k = task_okD(1) [OF assms(2) Some]
  show ?thesis
  proof (cases "ts_status (rn_objects r ! k)")
    case WaitingForSettings
    with assms(1) Some have f: "finishTask env k r = (r', outs)" "\<not> failed"
      by (auto simp: taskCancelled_def finished_def split: prod.splits)
    from life_cycle.Drop [OF Some WaitingForSettings, of "[]" "rn_executing r"] f(2) show ?thesis
      unfolding lawful_def finishTask_tasks [OF f(1)] by (simp add: tasksOf_def k)
  next
    case Running
    with assms(1) Some have "r' = abortTask k AbortingCancelled ''cancelled'' reason r" "outs = []" "\<not> failed"
      by (auto simp: taskCancelled_def)
    then show ?thesis using life_cycle.Cancel [OF Some Running]
      by (simp add: lawful_def tasksOf_def abortTask_def Let_def cancelTaskRequests_def setTask_def)
  qed (use assms(1) Some in \<open>auto simp: taskCancelled_def intro: lawful_same\<close>)
qed

lemma receivedSettings_lawful:
  assumes "receivedSettings taskId r = (r', outs, failed)"
  shows "lawful (Configured taskId) r outs r' \<and> (failed \<longrightarrow> (\<exists>k. map_of (rn_runningTasks r) taskId = Some k \<and> ts_status (rn_objects r ! k) \<noteq> WaitingForSettings))"
proof (cases "map_of (rn_runningTasks r) taskId")
  case None
  with assms show ?thesis by (auto simp: receivedSettings_def intro: lawful_same)
next
  case (Some k)
  show ?thesis
  proof (cases "ts_status (rn_objects r ! k)")
    case WaitingForSettings
    with assms Some have "tasksOf r' = ((rn_objects r)[k := (rn_objects r ! k)\<lparr>ts_status := Running\<rparr>], rn_runningTasks r, rn_executing r @ [k])"
      "outs = []" "\<not> failed" by (auto simp: receivedSettings_def tasksOf_def setTask_def)
    then show ?thesis using life_cycle.Configure [OF Some WaitingForSettings] by (simp add: lawful_def tasksOf_def)
  qed (use assms Some in \<open>auto simp: receivedSettings_def intro: lawful_same\<close>)
qed

lemma timerFired_lawful:
  assumes "timerFired env k r = (r', outs, failed)" "task_ok (tasksOf r)" "k < length (rn_objects r)" "ts_timer (rn_objects r ! k)"
  shows "lawful Other r outs r' \<and> \<not> failed"
proof -
  let ?t = "rn_objects r ! k"
  let ?r = "setTask k (?t\<lparr>ts_timer := False\<rparr>) r"
  from task_okD(3) [OF assms(2-4)] have run: "map_of (rn_runningTasks r) (ts_taskId ?t) = Some k"
    and st: "ts_status ?t \<noteq> AbortingTimeout" by simp_all
  have obj: "rn_objects ?r ! k = ?t\<lparr>ts_timer := False\<rparr>" "map_of (rn_runningTasks ?r) (ts_taskId ?t) = Some k"
    "rn_runningTasks ?r = rn_runningTasks r" "rn_executing ?r = rn_executing r"
    "rn_objects ?r = (rn_objects r)[k := ?t\<lparr>ts_timer := False\<rparr>]"
    using assms(3) run by (simp_all add: setTask_def)
  from assms(1) have tt: "taskTimedOut env (ts_taskId ?t) ?r = (r', outs, failed)" by (simp add: timerFired_def Let_def)
  show ?thesis
  proof (cases "ts_status ?t")
    case WaitingForSettings
    with tt obj(1,2) have f: "finallyFinish env k [TaskErrorMessage (ts_taskId ?t) ''TimeoutError''] False ?r = (r', outs, failed)"
      by (simp add: taskTimedOut_def)
    show ?thesis using life_cycle.Drop [OF run WaitingForSettings, of "[ts_taskId ?t]" "rn_executing r"] finallyFinish_tasks [OF f]
      by (simp add: lawful_def obj assms(3)) (simp add: tasksOf_def)
  next
    case Running
    with tt obj(1,2) have "r' = abortTask k AbortingTimeout ''timeout'' ''timeout'' ?r" "outs = []" "\<not> failed"
      by (auto simp: taskTimedOut_def)
    then show ?thesis using life_cycle.Timeout [OF run Running, of "rn_executing r"] assms(3)
      by (simp add: lawful_def tasksOf_def abortTask_def Let_def cancelTaskRequests_def setTask_def)
  next
    case AbortingCancelled
    with tt obj(1,2) have "r' = ?r" "outs = []" "\<not> failed" by (auto simp: taskTimedOut_def)
    then show ?thesis using life_cycle.Disarm [OF assms(3)] by (simp add: lawful_def tasksOf_def setTask_def)
  qed (use st in simp)
qed

lemma executionEnded_lawful:
  assumes "executionEnded env k outcome r = (r', outs, failed)" "task_ok (tasksOf r)" "k \<in> set (rn_executing r)"
  shows "lawful Other r outs r' \<and> \<not> failed"
proof -
  let ?t = "rn_objects r ! k"
  let ?r = "r\<lparr>rn_executing := removeAll k (rn_executing r)\<rparr>"
  from assms(3) task_okD(2) [OF assms(2)] have k: "k < length (rn_objects r)" "map_of (rn_runningTasks r) (ts_taskId ?t) = Some k"
    "ts_status ?t \<noteq> WaitingForSettings" by blast+
  have "\<exists>msgs. finallyFinish env k msgs False ?r = (r', outs, failed) \<and>
      results msgs = (if ts_status ?t = AbortingCancelled then [] else [ts_taskId ?t])"
  proof (cases outcome)
    case (Inl e)
    with assms(1) k(3) show ?thesis
      by (cases "ts_status ?t") (force simp: executionEnded_def taskExecutionFailed_def Let_def)+
  next
    case (Inr d)
    have "\<exists>msgs. taskExecutionSucceeded env k d ?r = finallyFinish env k msgs False ?r \<and>
        results msgs = (if ts_status ?t = AbortingCancelled then [] else [ts_taskId ?t])"
      using k(3) by (cases "ts_status ?t") (force simp: taskExecutionSucceeded_def Let_def)+
    then obtain msgs where m: "taskExecutionSucceeded env k d ?r = finallyFinish env k msgs False ?r"
      "results msgs = (if ts_status ?t = AbortingCancelled then [] else [ts_taskId ?t])" by blast
    then have "executionEnded env k outcome r = finallyFinish env k msgs False ?r"
      using Inr by (simp add: executionEnded_def finallyFinish_def Let_def split: prod.splits)
    with assms(1) m(2) show ?thesis by auto
  qed
  then obtain msgs where m: "finallyFinish env k msgs False ?r = (r', outs, failed)"
    "results msgs = (if ts_status ?t = AbortingCancelled then [] else [ts_taskId ?t])" by blast
  show ?thesis using life_cycle.Finish [OF k(2) assms(3) k(3) refl] finallyFinish_tasks [OF m(1)] m(2)
    by (simp add: lawful_def tasksOf_def [of r])
qed

lemma onEvent_lawful:
  assumes "onEvent env ev r = (r', outs, failed)" "task_ok (tasksOf r)" "possible ev r"
  shows "lawful (eventOf ev) r outs r' \<and> (failed \<longrightarrow> (\<exists>taskId settings k. ev = Received (TaskSettings taskId settings) \<and>
    map_of (rn_runningTasks r) taskId = Some k \<and> ts_status (rn_objects r ! k) \<noteq> WaitingForSettings))"
proof (cases ev)
  case (Received msg)
  show ?thesis
  proof (cases msg)
    case (TaskOfferAccept offerId taskId)
    with assms(1) Received offerAccepted_lawful [of offerId taskId r r' outs failed] show ?thesis by simp
  next
    case (TaskCancel taskId reason)
    with assms Received taskCancelled_lawful [of env taskId reason r r' outs failed] show ?thesis by simp
  next
    case (TaskSettings taskId settings)
    with assms(1) Received receivedSettings_lawful [of taskId r] show ?thesis by fastforce
  qed (use assms(1) Received in \<open>auto intro!: lawful_same simp: tasksOf_def startTaskOffers_def stopTaskOffers_def
      processDataResponse_def processNodeTypesResponse_def handleRpcResponse_def split: option.splits\<close>)
next
  case (TimerFired k)
  with assms timerFired_lawful [of env k r r' outs failed] show ?thesis by simp
next
  case (ExecutionEnded k outcome)
  with assms executionEnded_lawful [of env k outcome r r' outs failed] show ?thesis by simp
qed (use assms(1) in \<open>auto intro!: lawful_same simp: tasksOf_def finished_def sendOffers_eq requestData_def requestNodeTypes_def
    makeRpcCall_def idleTimerFired_def onConnectionClose_def dataRequestEnded_def nodeTypesRequestEnded_def rpcCallEnded_def
    stopRunner_def stopTaskOffers_def clearIdleTimer_def\<close>)

lemma map_of_delete_eq: "map_of (AList.delete i run) j = (if j = i then None else map_of run j)"
  by simp

text \<open>Updates that keep the names of the objects.\<close>

lemma ids_update: "ts_taskId t = ts_taskId (objs ! k) \<Longrightarrow> map ts_taskId (objs[k := t]) = map ts_taskId objs"
  by (metis list_update_id map_update)

text \<open>The end of a task: its object is not a running one any more.\<close>

lemma task_ok_end:
  assumes ok: "task_ok (objs, run, exe)" and i: "map_of run i = Some k"
    and exe': "set exe' = set exe - {k}" "distinct exe'"
  shows "task_ok (objs[k := (objs ! k)\<lparr>ts_timer := False\<rparr>], AList.delete i run, exe')"
proof -
  let ?objs = "objs[k := (objs ! k)\<lparr>ts_timer := False\<rparr>]"
  from ok i have k: "k < length objs" "ts_taskId (objs ! k) = i" by (auto simp: task_ok_def)
  have dist: "distinct (map ts_taskId objs)" using ok by (simp add: task_ok_def)
  have uniq: "j = k" if "j < length objs" "ts_taskId (objs ! j) = i" for j
    using dist that k by (metis distinct_conv_nth length_map nth_map)
  have ids: "ts_taskId (?objs ! j) = ts_taskId (objs ! j)" "ts_status (?objs ! j) = ts_status (objs ! j)" for j
    using k(1) by (simp_all add: nth_list_update)
  have run: "map_of (AList.delete i run) (ts_taskId (objs ! j)) = Some j \<longleftrightarrow> j \<noteq> k \<and> map_of run (ts_taskId (objs ! j)) = Some j"
    if "j < length objs" for j
    using uniq [OF that] k by auto
  have exec: "j \<in> set exe \<longleftrightarrow> j < length objs \<and> map_of run (ts_taskId (objs ! j)) = Some j \<and> ts_status (objs ! j) \<noteq> WaitingForSettings"
    and timer: "j < length objs \<Longrightarrow> ts_timer (objs ! j) \<Longrightarrow> map_of run (ts_taskId (objs ! j)) = Some j \<and> ts_status (objs ! j) \<noteq> AbortingTimeout"
    and names: "map_of run x = Some j \<Longrightarrow> j < length objs \<and> ts_taskId (objs ! j) = x" for j x
    using ok by (simp_all add: task_ok_def)
  have 1: "distinct (map ts_taskId ?objs)" "distinct (map fst (AList.delete i run))"
    using dist ok by (simp_all add: ids_update task_ok_def distinct_delete)
  have 2: "l < length ?objs \<and> ts_taskId (?objs ! l) = x" if "map_of (AList.delete i run) x = Some l" for x l
    using names [of x l] that unfolding ids by (simp split: if_splits)
  have 3: "j \<in> set exe' \<longleftrightarrow> j < length ?objs \<and> map_of (AList.delete i run) (ts_taskId (?objs ! j)) = Some j \<and>
      ts_status (?objs ! j) \<noteq> WaitingForSettings" for j
    unfolding ids exe'(1) length_list_update using exec [of j] run [of j] by blast
  have 4: "map_of (AList.delete i run) (ts_taskId (?objs ! j)) = Some j \<and> ts_status (?objs ! j) \<noteq> AbortingTimeout"
    if "j < length ?objs" "ts_timer (?objs ! j)" for j
  proof (cases "j = k")
    case True
    with that k(1) show ?thesis by simp
  next
    case False
    with that timer [of j] run [of j] show ?thesis unfolding ids by simp
  qed
  show ?thesis unfolding task_ok_def prod.case using 1 2 3 4 exe'(2) by blast
qed

text \<open>A new task waits, with its timer set.\<close>

lemma task_ok_new:
  assumes ok: "task_ok (objs, run, exe)" and new: "i \<notin> set (map ts_taskId objs)"
  shows "task_ok (objs @ [newTask i], AList.update i (length objs) run, exe)"
proof -
  let ?objs = "objs @ [newTask i]" and ?run = "AList.update i (length objs) run"
  have old: "?objs ! j = objs ! j" "ts_taskId (objs ! j) \<noteq> i" "map_of ?run (ts_taskId (objs ! j)) = map_of run (ts_taskId (objs ! j))"
    if "j < length objs" for j
    using that new by (auto simp: nth_append)
  have last: "?objs ! length objs = newTask i" "ts_taskId (newTask i) = i" "ts_status (newTask i) = WaitingForSettings"
    by (simp_all add: newTask_def)
  have dist: "distinct (map ts_taskId ?objs)" "distinct (map fst ?run)" "distinct exe"
    using ok new by (simp_all add: task_ok_def distinct_update newTask_def)
  have names: "l < length ?objs \<and> ts_taskId (?objs ! l) = j" if "map_of ?run j = Some l" for j l
  proof (cases "j = i")
    case True
    with that last show ?thesis by simp
  next
    case False
    with that have "map_of run j = Some l" by simp
    with ok have "l < length objs \<and> ts_taskId (objs ! l) = j" by (auto simp: task_ok_def)
    with old show ?thesis by simp
  qed
  have executed: "j \<in> set exe \<longleftrightarrow> j < length ?objs \<and> map_of ?run (ts_taskId (?objs ! j)) = Some j \<and> ts_status (?objs ! j) \<noteq> WaitingForSettings" for j
  proof (cases "j < length objs")
    case True
    with ok old [OF True] show ?thesis by (simp add: task_ok_def)
  next
    case False
    with ok have "j \<notin> set exe" by (auto simp: task_ok_def)
    with False last show ?thesis by (auto simp: less_Suc_eq)
  qed
  have timers: "map_of ?run (ts_taskId (?objs ! j)) = Some j \<and> ts_status (?objs ! j) \<noteq> AbortingTimeout"
    if "j < length ?objs" "ts_timer (?objs ! j)" for j
  proof (cases "j < length objs")
    case True
    with ok old [OF True] that show ?thesis by (simp add: task_ok_def)
  next
    case False
    with that(1) have "j = length objs" by simp
    with last show ?thesis by simp
  qed
  show ?thesis unfolding task_ok_def prod.case using dist names executed timers by blast
qed

lemma life_cycle_ok:
  assumes "life_cycle t ev rs t'" "task_ok t" "distinct (map ts_taskId (fst t'))"
  shows "task_ok t'"
  using assms
proof (induction rule: life_cycle.induct)
  case (Accept objs run exe i)
  then have "i \<notin> set (map ts_taskId objs)" by (simp add: newTask_def)
  with Accept.prems(1) show ?case by (rule task_ok_new)
next
  case (Disarm k objs run exe)
  then show ?case by (auto simp: task_ok_def ids_update nth_list_update)
next
  case (Configure run i k objs exe)
  then have k: "k < length objs" "ts_taskId (objs ! k) = i" "k \<notin> set exe" by (auto simp: task_ok_def)
  with Configure show ?case by (auto simp: task_ok_def ids_update nth_list_update)
next
  case (Cancel run i k objs exe a)
  then have k: "k < length objs" "ts_taskId (objs ! k) = i" by (auto simp: task_ok_def)
  with Cancel show ?case by (auto simp: task_ok_def ids_update nth_list_update)
next
  case (Timeout run i k objs exe a)
  then have k: "k < length objs" "ts_taskId (objs ! k) = i" by (auto simp: task_ok_def)
  with Timeout show ?case by (auto simp: task_ok_def ids_update nth_list_update)
next
  case (Drop run i k objs rs exe)
  then have "k \<notin> set exe" by (auto simp: task_ok_def)
  moreover have "distinct exe" using Drop.prems(1) by (simp add: task_ok_def)
  ultimately show ?case using task_ok_end [OF Drop.prems(1) Drop.hyps(1), of exe] by simp
next
  case (Finish run i k exe objs rs)
  then have "distinct exe" by (simp add: task_ok_def)
  then show ?case using task_ok_end [OF Finish.prems(1) Finish.hyps(1), of "removeAll k exe"] by (simp add: distinct_removeAll)
qed simp

section \<open>What a run of the runner guarantees\<close>

text \<open>
  The broker's part of the protocol: it offers no two tasks under one identifier, and sends the settings of a task once.
\<close>

definition offeredTasks :: "trace \<Rightarrow> string list" where
  "offeredTasks tr = List.map_filter (\<lambda>(ev, outs, failed). case eventOf ev of Offered i \<Rightarrow> Some i | _ \<Rightarrow> None) tr"

definition configuredTasks :: "trace \<Rightarrow> string list" where
  "configuredTasks tr = List.map_filter (\<lambda>(ev, outs, failed). case eventOf ev of Configured i \<Rightarrow> Some i | _ \<Rightarrow> None) tr"

definition protocol :: "trace \<Rightarrow> bool" where
  "protocol tr \<longleftrightarrow> distinct (offeredTasks tr) \<and> distinct (configuredTasks tr)"

text \<open>The tasks whose result was sent, in order; and whether no assertion has failed.\<close>

definition answers :: "trace \<Rightarrow> string list" where
  "answers tr = concat (map (\<lambda>(ev, outs, failed). results outs) tr)"

definition assertions_hold :: "trace \<Rightarrow> bool" where
  "assertions_hold tr = list_all (\<lambda>(ev, outs, failed). \<not> failed) tr"

lemma trace_snoc:
  "offeredTasks (tr @ [(ev, outs, failed)]) = offeredTasks tr @ (case eventOf ev of Offered i \<Rightarrow> [i] | _ \<Rightarrow> [])"
  "configuredTasks (tr @ [(ev, outs, failed)]) = configuredTasks tr @ (case eventOf ev of Configured i \<Rightarrow> [i] | _ \<Rightarrow> [])"
  "answers (tr @ [(ev, outs, failed)]) = answers tr @ results outs"
  "assertions_hold (tr @ [(ev, outs, failed)]) \<longleftrightarrow> assertions_hold tr \<and> \<not> failed"
  by (simp_all add: offeredTasks_def configuredTasks_def answers_def assertions_hold_def List.map_filter_def split: task_event.split)

text \<open>The tables and the trace so far.\<close>

definition agrees :: "trace \<Rightarrow> tasks \<Rightarrow> bool" where
  "agrees tr = (\<lambda>(objs, run, exe). (\<forall>i. i \<in> ts_taskId ` set objs \<longrightarrow> i \<in> set (offeredTasks tr)) \<and>
     (\<forall>k < length objs. ts_status (objs ! k) \<noteq> WaitingForSettings \<longrightarrow> ts_taskId (objs ! k) \<in> set (configuredTasks tr)) \<and>
     distinct (answers tr) \<and> (\<forall>i \<in> set (answers tr). i \<in> ts_taskId ` set objs \<and> map_of run i = None))"

lemma ids_set: "ts_taskId t = ts_taskId (objs ! k) \<Longrightarrow> ts_taskId ` set (objs[k := t]) = ts_taskId ` set objs"
  using ids_update by (metis list.set_map)

lemma life_cycle_agrees:
  assumes "life_cycle t (eventOf ev) (results outs) t'" "task_ok t" "agrees tr t" "protocol (tr @ [(ev, outs, failed)])"
  shows "agrees (tr @ [(ev, outs, failed)]) t' \<and> distinct (map ts_taskId (fst t'))"
proof -
  have new: "i \<notin> set (offeredTasks tr)" if "eventOf ev = Offered i" for i
    using assms(4) that by (auto simp: protocol_def trace_snoc)
  show ?thesis
    using assms(1-3) new
  proof (cases rule: life_cycle.cases)
    case Same
    with assms(2,3) show ?thesis
      by (auto simp: agrees_def trace_snoc task_ok_def split: prod.splits)
  next
    case (Accept objs run exe i)
    with assms(2,3) new [of i] have "i \<notin> set (map ts_taskId objs)" by (auto simp: agrees_def)
    with Accept assms(2,3) show ?thesis
      by (auto simp: agrees_def trace_snoc task_ok_def newTask_def nth_append less_Suc_eq)
  next
    case (Disarm k objs run exe)
    with assms(2,3) show ?thesis by (auto simp: agrees_def trace_snoc task_ok_def ids_update ids_set nth_list_update)
  next
    case (Configure run i k objs exe)
    then have "k < length objs" "ts_taskId (objs ! k) = i" using assms(2) by (auto simp: task_ok_def)
    with Configure assms(2,3) show ?thesis by (auto simp: agrees_def trace_snoc task_ok_def ids_update ids_set nth_list_update)
  next
    case (Cancel run i k objs exe a)
    then have k: "k < length objs" "ts_taskId (objs ! k) = i" using assms(2) by (auto simp: task_ok_def)
    have "ts_status (objs ! k) \<noteq> WaitingForSettings" using Cancel by simp
    with k assms(3) Cancel(1) have "i \<in> set (configuredTasks tr)" by (auto simp: agrees_def)
    with k Cancel assms(2,3) show ?thesis by (auto simp: agrees_def trace_snoc task_ok_def ids_update ids_set nth_list_update)
  next
    case (Timeout run i k objs exe a)
    then have k: "k < length objs" "ts_taskId (objs ! k) = i" using assms(2) by (auto simp: task_ok_def)
    have "ts_status (objs ! k) \<noteq> WaitingForSettings" using Timeout by simp
    with k assms(3) Timeout(1) have "i \<in> set (configuredTasks tr)" by (auto simp: agrees_def)
    with k Timeout assms(2,3) show ?thesis by (auto simp: agrees_def trace_snoc task_ok_def ids_update ids_set nth_list_update)
  next
    case (Drop run i k objs exe)
    then have k: "k < length objs" "ts_taskId (objs ! k) = i" using assms(2) by (auto simp: task_ok_def)
    then have "i \<in> ts_taskId ` set objs" by (metis image_eqI nth_mem)
    with k Drop assms(2,3) show ?thesis by (auto simp: agrees_def trace_snoc task_ok_def ids_update ids_set nth_list_update)
  next
    case (Finish run i k exe objs)
    then have k: "k < length objs" "ts_taskId (objs ! k) = i" using assms(2) by (auto simp: task_ok_def)
    then have "i \<in> ts_taskId ` set objs" by (metis image_eqI nth_mem)
    with k Finish assms(2,3) show ?thesis by (auto simp: agrees_def trace_snoc task_ok_def ids_update ids_set nth_list_update split: if_splits)
  qed
qed

lemma protocol_prefix: "protocol (tr @ [e]) \<Longrightarrow> protocol tr"
  by (cases e) (auto simp: protocol_def trace_snoc)

lemma runs_agree:
  assumes "runs (newRunner taskType nm maxConcurrency idleTimeout) tr r" "protocol tr"
  shows "task_ok (tasksOf r) \<and> agrees tr (tasksOf r) \<and> assertions_hold tr"
  using assms
proof (induction rule: runs.induct)
  case Start
  show ?case by (simp add: newRunner_def tasksOf_def task_ok_def agrees_def answers_def assertions_hold_def)
next
  case (Event tr r ev env r' outs failed)
  from Event.IH [OF protocol_prefix [OF Event.prems]] have IH: "task_ok (tasksOf r)" "agrees tr (tasksOf r)" "assertions_hold tr" by simp_all
  note law = onEvent_lawful [OF Event.hyps(3) IH(1) Event.hyps(2)]
  then have cycle: "life_cycle (tasksOf r) (eventOf ev) (results outs) (tasksOf r')" by (simp add: lawful_def)
  note next_ok = life_cycle_agrees [OF cycle IH(1,2) Event.prems]
  have "\<not> failed"
  proof
    assume failed
    with law obtain taskId settings k where bad: "ev = Received (TaskSettings taskId settings)"
      "map_of (rn_runningTasks r) taskId = Some k" "ts_status (rn_objects r ! k) \<noteq> WaitingForSettings" by blast
    with task_okD(1) [OF IH(1) bad(2)] IH(2) have "taskId \<in> set (configuredTasks tr)"
      by (auto simp: agrees_def tasksOf_def)
    with Event.prems bad(1) show False by (simp add: protocol_def trace_snoc)
  qed
  with IH(3) next_ok life_cycle_ok [OF cycle IH(1)] show ?case by (simp add: trace_snoc)
qed

text \<open>
  C16: every event of a run moves the tasks along the diagram of \<open>task-state.ts\<close>: a task waits for its settings, is
  executed, may be aborted once, by a cancellation or by its timer, and ends; nothing else happens to it.
\<close>

theorem runner_follows_life_cycle:
  assumes "runs (newRunner taskType nm maxConcurrency idleTimeout) tr r" "protocol tr" "possible ev r"
    and "onEvent env ev r = (r', outs, failed)"
  shows "life_cycle (tasksOf r) (eventOf ev) (results outs) (tasksOf r')"
  using onEvent_lawful [OF assms(4) _ assms(3)] runs_agree [OF assms(1,2)] by (simp add: lawful_def)

text \<open>
  C15: with a broker that keeps to the protocol no assertion of the runner fails (a timer never fires for a task that was
  timed out, settings never come for a task that runs), and for every task at most one result is sent,
  after which the task is not a running one.
\<close>

theorem one_result_per_task:
  assumes "runs (newRunner taskType nm maxConcurrency idleTimeout) tr r" "protocol tr"
  shows "assertions_hold tr \<and> distinct (answers tr) \<and> set (answers tr) \<inter> fst ` set (rn_runningTasks r) = {}"
  using runs_agree [OF assms] by (auto simp: agrees_def tasksOf_def map_of_eq_None_iff)

text \<open>
  A task that is aborted gets its abort signal, and every request for data or node types it has open is taken from the table
  (and rejected); the requests of the other tasks stay. Its calls of procedures stay as well.
\<close>

lemma abort_clears_requests:
  assumes "map_of (rn_runningTasks r) taskId = Some k" "ts_taskId (rn_objects r ! k) = taskId" "k < length (rn_objects r)"
    and "ts_status (rn_objects r ! k) = Running"
    and "taskCancelled env taskId reason r = (r', outs, failed)"
  shows "ts_status (rn_objects r' ! k) = AbortingCancelled" "ts_abortReason (rn_objects r' ! k) \<noteq> None" "outs = []"
    "(i, q) \<in> set (rn_dataRequests r') \<longleftrightarrow> (i, q) \<in> set (rn_dataRequests r) \<and> wr_taskId q \<noteq> taskId"
    "(i, q) \<in> set (rn_nodeTypesRequests r') \<longleftrightarrow> (i, q) \<in> set (rn_nodeTypesRequests r) \<and> wr_taskId q \<noteq> taskId"
    "rn_rpcCalls r' = rn_rpcCalls r"
  using assms by (auto simp: taskCancelled_def abortTask_def cancelTaskRequests_def setTask_def Let_def)

text \<open>Every acceptance of an offer is answered, once, and the offer is closed.\<close>

lemma offer_answered:
  assumes "offerAccepted offerId taskId r = (r', outs, failed)"
  shows "(outs = [TaskAcceptedMessage taskId] \<longleftrightarrow> hasOpenTaskSlots r \<and> map_of (rn_openOffers r) offerId \<noteq> None) \<and>
    (outs = [TaskAcceptedMessage taskId] \<or> (\<exists>reason. outs = [TaskRejectedMessage taskId reason])) \<and>
    map_of (rn_openOffers r') offerId = None"
  using assms by (auto simp: offerAccepted_def Let_def split: if_splits option.splits)

section \<open>Witnesses\<close>

fun runEvents :: "(call_env \<times> runner_event) list \<Rightarrow> trace \<times> runner \<Rightarrow> (trace \<times> runner) option" where
  "runEvents [] st = Some st"
| "runEvents ((env, ev) # evs) st = (case st of (tr, r) \<Rightarrow> if possible ev r
     then (case onEvent env ev r of (r, outs, failed) \<Rightarrow> runEvents evs (tr @ [(ev, outs, failed)], r)) else None)"

lemma runEvents_runs: "runs start tr r \<Longrightarrow> runEvents evs (tr, r) = Some (tr', r') \<Longrightarrow> runs start tr' r'"
proof (induction evs arbitrary: tr r)
  case (Cons e evs)
  obtain env ev where e: "e = (env, ev)" by force
  obtain r1 outs failed where one: "onEvent env ev r = (r1, outs, failed)" by (metis surj_pair)
  with Cons.prems(2) e have "possible ev r" "runEvents evs (tr @ [(ev, outs, failed)], r1) = Some (tr', r')"
    by (auto split: if_splits)
  with Cons.IH [OF runs.Event [OF Cons.prems(1) _ one]] show ?case by simp
qed simp

definition exCall :: call_env where
  "exCall = \<lparr>ce_now = 0, ce_offers = (\<lambda>i. (''offer'' @ nat_string i, i))\<rparr>"

text \<open>A runner for two tasks makes its offers, accepts two, completes the first; the second is cancelled and times out.\<close>

definition exEvents :: "(call_env \<times> runner_event) list" where
  "exEvents = map (Pair exCall) [Received RunnerRegistered, OfferTick, Received (TaskOfferAccept ''offer0'' ''t1''),
     Received (TaskOfferAccept ''offer1'' ''t2''), Received (TaskSettings ''t1'' JNull), Received (TaskSettings ''t2'' JNull),
     DataRequested ''t2'' ''q1'', ExecutionEnded 0 (Inr JNull), Received (TaskCancel ''t2'' ''stop'')]"

lemma exEvents_run:
  "\<exists>tr r. runs (newRunner ''javascript'' None 2 0) tr r \<and> answers tr = [''t1''] \<and> offeredTasks tr = [''t1'', ''t2''] \<and>
    configuredTasks tr = [''t1'', ''t2''] \<and> rn_runningTasks r = [(''t2'', 1)] \<and> length (rn_openOffers r) = 1 \<and>
    rn_dataRequests r = [] \<and> possible (TimerFired 1) r"
proof -
  have "map_option (\<lambda>(tr, r). (answers tr, offeredTasks tr, configuredTasks tr, rn_runningTasks r, length (rn_openOffers r),
      rn_dataRequests r, possible (TimerFired 1) r)) (runEvents exEvents ([], newRunner ''javascript'' None 2 0)) =
    Some ([''t1''], [''t1'', ''t2''], [''t1'', ''t2''], [(''t2'', 1)], 1, [], True)" by code_simp
  then obtain tr r where run: "runEvents exEvents ([], newRunner ''javascript'' None 2 0) = Some (tr, r)"
    and "answers tr = [''t1'']" "offeredTasks tr = [''t1'', ''t2'']" "configuredTasks tr = [''t1'', ''t2'']"
      "rn_runningTasks r = [(''t2'', 1)]" "length (rn_openOffers r) = 1" "rn_dataRequests r = []" "possible (TimerFired 1) r"
    by (auto simp del: possible.simps)
  with runEvents_runs [OF runs.Start run] show ?thesis by blast
qed

lemma exEvents_protocol: "offeredTasks tr = [''t1'', ''t2''] \<Longrightarrow> configuredTasks tr = [''t1'', ''t2''] \<Longrightarrow> protocol tr"
  by (simp add: protocol_def)

lemma runner_capacity_witness:
  "\<exists>tr r. runs (newRunner ''javascript'' None 2 0) tr r \<and> rn_runningTasks r = [(''t2'', 1)] \<and> length (rn_openOffers r) = 1 \<and>
    int (length (rn_openOffers r)) + int (length (rn_runningTasks r)) \<le> max 0 2"
  using exEvents_run runner_capacity by blast

lemma one_result_per_task_witness:
  "\<exists>tr r. runs (newRunner ''javascript'' None 2 0) tr r \<and> answers tr = [''t1''] \<and> assertions_hold tr \<and>
    distinct (answers tr) \<and> set (answers tr) \<inter> fst ` set (rn_runningTasks r) = {}"
  using exEvents_run exEvents_protocol one_result_per_task by blast

lemma runner_follows_life_cycle_witness:
  "\<exists>tr r r' outs failed. runs (newRunner ''javascript'' None 2 0) tr r \<and> onEvent exCall (TimerFired 1) r = (r', outs, failed) \<and>
    life_cycle (tasksOf r) (eventOf (TimerFired 1)) (results outs) (tasksOf r')"
proof -
  from exEvents_run obtain tr r where r: "runs (newRunner ''javascript'' None 2 0) tr r" "possible (TimerFired 1) r" "protocol tr"
    using exEvents_protocol by blast
  obtain r' outs failed where "onEvent exCall (TimerFired 1) r = (r', outs, failed)" by (metis surj_pair)
  with runner_follows_life_cycle [OF r(1,3,2) this] r(1) show ?thesis by blast
qed

end
