(* ===== verification/WaitTracker.thy ===== *)
theory WaitTracker imports Workflow_Types
begin

text \<open>
  The tracker of the executions that wait for a point in time (\<open>cli/src/wait-tracker.ts\<close>). Its handlers run one after
  the other on the event loop, so the state holds, beside the fields of the class, what the event loop holds for it: the clock,
  the timers that are set, and the calls that have reached an \<open>await\<close>: polls of the database, resumptions, and
  the continuations on the ends of child executions. An asynchronous method is cut at its \<open>await\<close> into the function that
  starts it and the one that continues it. The database, the database's clock and the workflow runner are the
  arguments of the continuations.
\<close>

section \<open>State\<close>

datatype timer_job = PollDatabase | ResumeExecution string

record pending_timer =
  pt_due :: int
  pt_job :: timer_job
  pt_every :: "nat option"

record tracker =
  wt_now :: int
  wt_timers :: "(nat \<times> pending_timer) list"
  wt_fresh :: nat
  wt_waitingExecutions :: "(string \<times> nat) list"
  wt_mainTimer :: "nat option"
  wt_isPolling :: bool
  wt_polls :: nat
  wt_resuming :: "string list"
  wt_children :: "(string \<times> string) list"
  wt_reported :: "string list"

definition newTracker :: "int \<Rightarrow> tracker" where
  "newTracker now = \<lparr>wt_now = now, wt_timers = [], wt_fresh = 0, wt_waitingExecutions = [], wt_mainTimer = None,
     wt_isPolling = False, wt_polls = 0, wt_resuming = [], wt_children = [], wt_reported = []\<rparr>"

section \<open>Timers\<close>

text \<open>\<open>setTimeout\<close> and \<open>setInterval\<close> give the handle of a new timer, which \<open>clearTimeout\<close> removes.\<close>

definition setTimer :: "timer_job \<Rightarrow> nat option \<Rightarrow> int \<Rightarrow> tracker \<Rightarrow> nat \<times> tracker" where
  "setTimer job every ms w = (wt_fresh w,
     w\<lparr>wt_fresh := Suc (wt_fresh w),
       wt_timers := (wt_fresh w, \<lparr>pt_due = wt_now w + ms, pt_job = job, pt_every = every\<rparr>) # wt_timers w\<rparr>)"

definition clearTimer :: "nat \<Rightarrow> tracker \<Rightarrow> tracker" where
  "clearTimer i w = w\<lparr>wt_timers := AList.delete i (wt_timers w)\<rparr>"

section \<open>The methods\<close>

definition isTracked :: "string \<Rightarrow> tracker \<Rightarrow> bool" where
  "isTracked executionId w \<longleftrightarrow> map_of (wt_waitingExecutions w) executionId \<noteq> None"

definition pollStarts :: "tracker \<Rightarrow> tracker" where
  "pollStarts w = (if wt_isPolling w then w else w\<lparr>wt_isPolling := True, wt_polls := Suc (wt_polls w)\<rparr>)"

definition startTracking :: "tracker \<Rightarrow> tracker" where
  "startTracking w = (let (i, w1) = setTimer PollDatabase (Some 5000) 5000 w in pollStarts (w1\<lparr>wt_mainTimer := Some i\<rparr>))"

definition init_tracker :: "bool \<Rightarrow> tracker \<Rightarrow> tracker" where
  "init_tracker isLeader w = (if isLeader then startTracking w else w)"

text \<open>A row of the answer: the id of an execution and its \<open>waitTill\<close>, on the clock of the database.\<close>

type_synonym waiting_row = "string \<times> int option"

fun scheduleRow :: "int \<Rightarrow> waiting_row \<Rightarrow> tracker \<Rightarrow> tracker" where
  "scheduleRow dbTime (executionId, None) w = w\<lparr>wt_reported := wt_reported w @ [executionId]\<rparr>"
| "scheduleRow dbTime (executionId, Some waitTill) w =
     (let (i, w1) = setTimer (ResumeExecution executionId) None (max (waitTill - dbTime) 0) w
      in w1\<lparr>wt_waitingExecutions := AList.update executionId i (wt_waitingExecutions w1)\<rparr>)"

definition newExecutions :: "waiting_row list \<Rightarrow> tracker \<Rightarrow> waiting_row list" where
  "newExecutions rows w = filter (\<lambda>row. \<not> isTracked (fst row) w) rows"

definition pollEnds :: "tracker \<Rightarrow> tracker" where
  "pollEnds w = w\<lparr>wt_isPolling := False, wt_polls := wt_polls w - 1\<rparr>"

definition pollAnswered :: "waiting_row list \<Rightarrow> int \<Rightarrow> tracker \<Rightarrow> tracker" where
  "pollAnswered rows dbTime w = pollEnds (if rows = [] then w else fold (scheduleRow dbTime) (newExecutions rows w) w)"

definition stopExecution_tracker :: "string \<Rightarrow> tracker \<Rightarrow> tracker" where
  "stopExecution_tracker executionId w = (case map_of (wt_waitingExecutions w) executionId of None \<Rightarrow> w
     | Some i \<Rightarrow> (clearTimer i w)\<lparr>wt_waitingExecutions := AList.delete executionId (wt_waitingExecutions w)\<rparr>)"

definition startExecution :: "string \<Rightarrow> tracker \<Rightarrow> tracker" where
  "startExecution executionId w = w\<lparr>wt_resuming := executionId # wt_resuming w\<rparr>"

text \<open>
  What a resumption finds in the database, and how the workflow runner ends it. \<open>shouldResume\<close> is the flag of the
  parent execution, absent on executions that are older than it.
\<close>

record related_execution =
  re_executionId :: string
  re_shouldResume :: "bool option"

record full_execution =
  fe_finished :: bool
  fe_workflowId :: "string option"
  fe_parentExecution :: "related_execution option"

datatype runner_outcome = Resumed | AlreadyResuming | RunnerFailed js_error

definition shouldRestartParentExecution :: "related_execution option \<Rightarrow> bool" where
  "shouldRestartParentExecution parentExecution = (case parentExecution of None \<Rightarrow> False
     | Some p \<Rightarrow> (case re_shouldResume p of None \<Rightarrow> True | Some b \<Rightarrow> b))"

text \<open>The body of \<open>startExecution\<close> after its queries: an error, or the parent that is to follow the execution's end.\<close>

definition resumeOutcome :: "full_execution option result \<Rightarrow> runner_outcome \<Rightarrow> string option result" where
  "resumeOutcome query outcome = ebind query (\<lambda>found. case found of
       None \<Rightarrow> Inl (UnexpectedError ''Execution does not exist.'')
     | Some fe \<Rightarrow>
         if fe_finished fe then Inl (UnexpectedError ''The execution did succeed and can so not be started again.'')
         else if orElse (fe_workflowId fe) [] = [] then Inl (UnexpectedError ''Only saved workflows can be resumed.'')
         else (case outcome of
             RunnerFailed e \<Rightarrow> Inl e
           | AlreadyResuming \<Rightarrow> Inr None
           | Resumed \<Rightarrow> Inr (if shouldRestartParentExecution (fe_parentExecution fe)
                            then map_option re_executionId (fe_parentExecution fe) else None)))"

definition resumeEnds :: "string \<Rightarrow> string option result \<Rightarrow> tracker \<Rightarrow> tracker" where
  "resumeEnds executionId res w =
     w\<lparr>wt_resuming := remove1 executionId (wt_resuming w),
       wt_children := (case res of Inr (Some parent) \<Rightarrow> (executionId, parent) # wt_children w | _ \<Rightarrow> wt_children w),
       wt_waitingExecutions := AList.delete executionId (wt_waitingExecutions w)\<rparr>"

text \<open>
  The end of a child: \<open>results\<close> is the status of its run, if there is one. The parent is started unless the
  child has only gone to wait, or the update of the parent failed.
\<close>

definition childEnds :: "string \<Rightarrow> string \<Rightarrow> string option \<Rightarrow> bool \<Rightarrow> tracker \<Rightarrow> tracker" where
  "childEnds child parent results updated w =
     (let w1 = w\<lparr>wt_children := remove1 (child, parent) (wt_children w)\<rparr>
      in if results = None \<or> results = Some ''waiting'' \<or> \<not> updated then w1 else startExecution parent w1)"

definition stopTracking :: "tracker \<Rightarrow> tracker" where
  "stopTracking w = (case wt_mainTimer w of None \<Rightarrow> w
     | Some i \<Rightarrow> fold (\<lambda>(executionId, k). clearTimer k) (wt_waitingExecutions w) (clearTimer i w))"

text \<open>The event loop: a timer that is due fires; an interval is set again, a timeout is gone before its handler runs.\<close>

definition timerFires :: "nat \<Rightarrow> tracker \<Rightarrow> tracker" where
  "timerFires i w = (case map_of (wt_timers w) i of None \<Rightarrow> w
     | Some t \<Rightarrow>
        let w1 = (case pt_every t of None \<Rightarrow> clearTimer i w
                  | Some ms \<Rightarrow> w\<lparr>wt_timers := AList.update i (t\<lparr>pt_due := wt_now w + int ms\<rparr>) (wt_timers w)\<rparr>)
        in (case pt_job t of PollDatabase \<Rightarrow> pollStarts w1 | ResumeExecution e \<Rightarrow> startExecution e w1))"

section \<open>Events\<close>

datatype wait_event =
    InitCalled bool
  | LeaderTakeover
  | LeaderStepdown
  | TimerDue nat
  | DatabaseAnswers "waiting_row list" int
  | DatabaseFails
  | StopRequested string
  | ResumeEnds string "full_execution option result" runner_outcome
  | ChildEnds string string "string option" bool
  | TimePasses nat

fun onWaitEvent :: "wait_event \<Rightarrow> tracker \<Rightarrow> tracker" where
  "onWaitEvent (InitCalled isLeader) w = init_tracker isLeader w"
| "onWaitEvent LeaderTakeover w = startTracking w"
| "onWaitEvent LeaderStepdown w = stopTracking w"
| "onWaitEvent (TimerDue i) w = timerFires i w"
| "onWaitEvent (DatabaseAnswers rows dbTime) w = pollAnswered rows dbTime w"
| "onWaitEvent DatabaseFails w = pollEnds w"
| "onWaitEvent (StopRequested e) w = stopExecution_tracker e w"
| "onWaitEvent (ResumeEnds e found outcome) w = resumeEnds e (resumeOutcome found outcome) w"
| "onWaitEvent (ChildEnds c p results updated) w = childEnds c p results updated w"
| "onWaitEvent (TimePasses ms) w = w\<lparr>wt_now := wt_now w + int ms\<rparr>"

text \<open>When an event can come. An execution is in the answer of a query once: the id is the table's primary key.\<close>

fun canHappen :: "wait_event \<Rightarrow> tracker \<Rightarrow> bool" where
  "canHappen (TimerDue i) w = (case map_of (wt_timers w) i of None \<Rightarrow> False | Some t \<Rightarrow> pt_due t \<le> wt_now w)"
| "canHappen (DatabaseAnswers rows dbTime) w = (0 < wt_polls w \<and> distinct (map fst rows))"
| "canHappen DatabaseFails w = (0 < wt_polls w)"
| "canHappen (ResumeEnds e found outcome) w = (e \<in> set (wt_resuming w))"
| "canHappen (ChildEnds c p results updated) w = ((c, p) \<in> set (wt_children w))"
| "canHappen _ w = True"

text \<open>A run of the tracker, with each event and the time at which it came.\<close>

type_synonym wait_trace = "(int \<times> wait_event) list"

inductive tracked :: "(wait_event \<Rightarrow> tracker \<Rightarrow> bool) \<Rightarrow> tracker \<Rightarrow> wait_trace \<Rightarrow> tracker \<Rightarrow> bool" for allowed start where
  Begin: "tracked allowed start [] start"
| Happens: "tracked allowed start tr w \<Longrightarrow> canHappen ev w \<Longrightarrow> allowed ev w \<Longrightarrow>
    tracked allowed start (tr @ [(wt_now w, ev)]) (onWaitEvent ev w)"

text \<open>The run that a list of events makes, if each of them can happen and is allowed.\<close>

fun waitRun :: "(wait_event \<Rightarrow> tracker \<Rightarrow> bool) \<Rightarrow> wait_event list \<Rightarrow> wait_trace \<Rightarrow> tracker \<Rightarrow> (wait_trace \<times> tracker) option" where
  "waitRun allowed [] tr w = Some (tr, w)"
| "waitRun allowed (ev # evs) tr w = (if canHappen ev w \<and> allowed ev w
     then waitRun allowed evs (tr @ [(wt_now w, ev)]) (onWaitEvent ev w) else None)"

lemma waitRun_tracked: "waitRun allowed evs tr w = Some (tr', w') \<Longrightarrow> tracked allowed start tr w \<Longrightarrow> tracked allowed start tr' w'"
  by (induction evs arbitrary: tr w) (auto split: if_splits intro: tracked.Happens)

section \<open>The database is asked by one poll at a time\<close>

definition poll_inv :: "tracker \<Rightarrow> bool" where
  "poll_inv w \<longleftrightarrow> wt_polls w = (if wt_isPolling w then 1 else 0)"

lemma poll_inv_setTimer: "setTimer job every ms w = (i, w1) \<Longrightarrow>
    wt_polls w1 = wt_polls w \<and> wt_isPolling w1 = wt_isPolling w \<and> wt_mainTimer w1 = wt_mainTimer w \<and> wt_resuming w1 = wt_resuming w \<and>
    wt_children w1 = wt_children w \<and> wt_waitingExecutions w1 = wt_waitingExecutions w \<and> wt_now w1 = wt_now w \<and> i = wt_fresh w \<and>
    wt_fresh w1 = Suc (wt_fresh w) \<and> wt_timers w1 = (i, \<lparr>pt_due = wt_now w + ms, pt_job = job, pt_every = every\<rparr>) # wt_timers w"
  by (auto simp: setTimer_def)

lemma scheduleRow_keeps [simp]:
  "wt_polls (scheduleRow dbTime row w) = wt_polls w" "wt_isPolling (scheduleRow dbTime row w) = wt_isPolling w"
  "wt_now (scheduleRow dbTime row w) = wt_now w" "wt_resuming (scheduleRow dbTime row w) = wt_resuming w"
  "wt_children (scheduleRow dbTime row w) = wt_children w" "wt_mainTimer (scheduleRow dbTime row w) = wt_mainTimer w"
  by (cases "(dbTime, row, w)" rule: scheduleRow.cases; simp add: setTimer_def)+

lemma scheduleRows_keep [simp]:
  "wt_polls (fold (scheduleRow dbTime) rows w) = wt_polls w" "wt_isPolling (fold (scheduleRow dbTime) rows w) = wt_isPolling w"
  "wt_now (fold (scheduleRow dbTime) rows w) = wt_now w" "wt_resuming (fold (scheduleRow dbTime) rows w) = wt_resuming w"
  "wt_children (fold (scheduleRow dbTime) rows w) = wt_children w" "wt_mainTimer (fold (scheduleRow dbTime) rows w) = wt_mainTimer w"
  by (induction rows arbitrary: w) simp_all

lemma clearTimers_keep [simp]:
  "wt_polls (fold (\<lambda>(e, k). clearTimer k) al w) = wt_polls w" "wt_isPolling (fold (\<lambda>(e, k). clearTimer k) al w) = wt_isPolling w"
  "wt_now (fold (\<lambda>(e, k). clearTimer k) al w) = wt_now w" "wt_resuming (fold (\<lambda>(e, k). clearTimer k) al w) = wt_resuming w"
  "wt_children (fold (\<lambda>(e, k). clearTimer k) al w) = wt_children w" "wt_fresh (fold (\<lambda>(e, k). clearTimer k) al w) = wt_fresh w"
  "wt_waitingExecutions (fold (\<lambda>(e, k). clearTimer k) al w) = wt_waitingExecutions w"
  by (induction al arbitrary: w) (auto simp: clearTimer_def)

lemma stopTracking_keeps [simp]:
  "wt_polls (stopTracking w) = wt_polls w" "wt_isPolling (stopTracking w) = wt_isPolling w"
  "wt_now (stopTracking w) = wt_now w" "wt_resuming (stopTracking w) = wt_resuming w" "wt_fresh (stopTracking w) = wt_fresh w"
  "wt_children (stopTracking w) = wt_children w" "wt_waitingExecutions (stopTracking w) = wt_waitingExecutions w"
  by (simp_all add: stopTracking_def clearTimer_def split: option.split)

lemma clearTimers_timers: "wt_timers (fold (\<lambda>(e, k). clearTimer k) al w) = filter (\<lambda>p. fst p \<notin> snd ` set al) (wt_timers w)"
proof (induction al arbitrary: w)
  case (Cons p al)
  then show ?case
    by (cases p) (auto simp: clearTimer_def AList.delete_eq filter_filter intro!: filter_cong)
qed simp

lemma pollStarts_keeps [simp]:
  "wt_now (pollStarts w) = wt_now w" "wt_resuming (pollStarts w) = wt_resuming w" "wt_fresh (pollStarts w) = wt_fresh w"
  "wt_children (pollStarts w) = wt_children w" "wt_waitingExecutions (pollStarts w) = wt_waitingExecutions w"
  "wt_timers (pollStarts w) = wt_timers w" "wt_mainTimer (pollStarts w) = wt_mainTimer w"
  by (simp_all add: pollStarts_def)

lemma poll_inv_pollStarts [simp]: "poll_inv w \<Longrightarrow> poll_inv (pollStarts w)"
  by (simp add: poll_inv_def pollStarts_def)

lemma poll_inv_pollEnds: "poll_inv w \<Longrightarrow> poll_inv (pollEnds w)"
  by (simp add: poll_inv_def pollEnds_def)

lemma poll_inv_event:
  assumes "poll_inv w" shows "poll_inv (onWaitEvent ev w)"
proof (cases ev)
  case (InitCalled b)
  then show ?thesis using assms by (simp add: init_tracker_def startTracking_def setTimer_def poll_inv_def pollStarts_def)
next
  case LeaderTakeover
  then show ?thesis using assms by (simp add: startTracking_def setTimer_def poll_inv_def pollStarts_def)
next
  case LeaderStepdown
  then show ?thesis using assms by (simp add: poll_inv_def)
next
  case (TimerDue i)
  then show ?thesis using assms
    by (simp add: timerFires_def Let_def poll_inv_def pollStarts_def startExecution_def clearTimer_def split: option.split timer_job.split)
next
  case (DatabaseAnswers rows dbTime)
  then show ?thesis using assms by (simp add: pollAnswered_def poll_inv_def pollEnds_def)
next
  case DatabaseFails
  then show ?thesis using assms by (simp add: poll_inv_pollEnds)
qed (use assms in \<open>simp_all add: poll_inv_def stopExecution_tracker_def clearTimer_def resumeEnds_def childEnds_def
       startExecution_def Let_def split: option.split\<close>)

lemma tracked_poll_inv: "tracked allowed (newTracker now) tr w \<Longrightarrow> poll_inv w"
  by (induction rule: tracked.induct) (simp_all add: poll_inv_event, simp add: poll_inv_def newTracker_def)

section \<open>Every tracked execution has one timer or one resumption\<close>

text \<open>
  The events that leave the pairing of entries and timers alone: no stepdown, no request to stop an execution that
  is being resumed, and no parent that is started on the end of its child.
\<close>

fun undisturbed :: "wait_event \<Rightarrow> tracker \<Rightarrow> bool" where
  "undisturbed LeaderStepdown w = False"
| "undisturbed (StopRequested e) w = (e \<notin> set (wt_resuming w))"
| "undisturbed (ChildEnds c p results updated) w = (results = None \<or> results = Some ''waiting'' \<or> \<not> updated)"
| "undisturbed _ w = True"

definition timer_ids :: "tracker \<Rightarrow> bool" where
  "timer_ids w \<longleftrightarrow> distinct (map fst (wt_timers w)) \<and> (\<forall>i. map_of (wt_timers w) i \<noteq> None \<longrightarrow> i < wt_fresh w)"

definition timer_entries :: "tracker \<Rightarrow> bool" where
  "timer_entries w \<longleftrightarrow> (\<forall>i t e. map_of (wt_timers w) i = Some t \<longrightarrow> pt_job t = ResumeExecution e \<longrightarrow>
     map_of (wt_waitingExecutions w) e = Some i \<and> e \<notin> set (wt_resuming w) \<and> pt_every t = None)"

definition resuming_entries :: "tracker \<Rightarrow> bool" where
  "resuming_entries w \<longleftrightarrow> distinct (wt_resuming w) \<and> (\<forall>e. e \<in> set (wt_resuming w) \<longrightarrow> isTracked e w)"

definition entry_timers :: "tracker \<Rightarrow> bool" where
  "entry_timers w \<longleftrightarrow> (\<forall>e i. map_of (wt_waitingExecutions w) e = Some i \<longrightarrow> e \<notin> set (wt_resuming w) \<longrightarrow>
     map_option pt_job (map_of (wt_timers w) i) = Some (ResumeExecution e))"

definition sched_inv :: "tracker \<Rightarrow> bool" where
  "sched_inv w \<longleftrightarrow> timer_ids w \<and> timer_entries w \<and> resuming_entries w \<and> entry_timers w"

lemmas sched_defs = timer_ids_def timer_entries_def resuming_entries_def entry_timers_def isTracked_def

lemma sched_inv_cong:
  assumes "wt_timers v = wt_timers w" "wt_fresh v = wt_fresh w" "wt_waitingExecutions v = wt_waitingExecutions w"
    "wt_resuming v = wt_resuming w"
  shows "sched_inv v = sched_inv w"
  unfolding sched_inv_def sched_defs assms ..

lemma sched_inv_pollStarts [simp]: "sched_inv (pollStarts w) = sched_inv w"
  by (rule sched_inv_cong) simp_all

lemma sched_inv_pollEnds [simp]: "sched_inv (pollEnds w) = sched_inv w"
  by (rule sched_inv_cong) (simp_all add: pollEnds_def)

lemma map_of_fresh: "timer_ids w \<Longrightarrow> map_of (wt_timers w) (wt_fresh w) = None"
  unfolding timer_ids_def by blast

lemma timer_ids_new:
  assumes "timer_ids w" "wt_timers v = (wt_fresh w, t) # wt_timers w" "wt_fresh v = Suc (wt_fresh w)"
  shows "timer_ids v"
proof -
  have "wt_fresh w \<notin> fst ` set (wt_timers w)" using map_of_fresh [OF assms(1)] by (simp add: map_of_eq_None_iff)
  moreover have "\<forall>i. map_of (wt_timers v) i \<noteq> None \<longrightarrow> i < wt_fresh v"
    using assms(1) unfolding assms(2,3) timer_ids_def by (auto simp: less_Suc_eq)
  ultimately show ?thesis using assms(1) unfolding timer_ids_def assms(2) by simp
qed

lemma sched_inv_startTracking:
  assumes "sched_inv w" shows "sched_inv (startTracking w)"
proof -
  define v where "v = snd (setTimer PollDatabase (Some 5000) 5000 w)\<lparr>wt_mainTimer := Some (wt_fresh w)\<rparr>"
  have v: "wt_timers v = (wt_fresh w, \<lparr>pt_due = wt_now w + 5000, pt_job = PollDatabase, pt_every = Some 5000\<rparr>) # wt_timers w"
      "wt_fresh v = Suc (wt_fresh w)" "wt_waitingExecutions v = wt_waitingExecutions w" "wt_resuming v = wt_resuming w"
    by (simp_all add: v_def setTimer_def)
  have te: "timer_entries w" and re: "resuming_entries w" and et: "entry_timers w" and ti: "timer_ids w"
    using assms by (simp_all add: sched_inv_def)
  have "timer_ids v" by (rule timer_ids_new [OF ti v(1,2)])
  moreover have "timer_entries v" using te unfolding timer_entries_def v by auto
  moreover have "resuming_entries v" using re unfolding resuming_entries_def isTracked_def v by auto
  moreover have "entry_timers v" using et map_of_fresh [OF ti] unfolding entry_timers_def v by fastforce
  ultimately have "sched_inv v" by (simp add: sched_inv_def)
  moreover have "startTracking w = pollStarts v" by (simp add: startTracking_def setTimer_def v_def)
  ultimately show ?thesis by simp
qed

lemma sched_inv_scheduleRow:
  assumes "sched_inv w" "\<not> isTracked (fst row) w" shows "sched_inv (scheduleRow dbTime row w)"
proof (cases "snd row")
  case None
  then have "row = (fst row, None)" by (cases row) simp
  then obtain e where "row = (e, None)" by blast
  then have "sched_inv (scheduleRow dbTime row w) = sched_inv w" by (intro sched_inv_cong) simp_all
  with assms(1) show ?thesis by simp
next
  case (Some wt)
  then obtain e where row: "row = (e, Some wt)" by (cases row) simp
  let ?t = "\<lparr>pt_due = wt_now w + max (wt - dbTime) 0, pt_job = ResumeExecution e, pt_every = None\<rparr>"
  define v where "v = scheduleRow dbTime row w"
  have v: "wt_timers v = (wt_fresh w, ?t) # wt_timers w" "wt_fresh v = Suc (wt_fresh w)"
      "wt_waitingExecutions v = AList.update e (wt_fresh w) (wt_waitingExecutions w)" "wt_resuming v = wt_resuming w"
    by (simp_all add: v_def row setTimer_def)
  have f: "map_of (wt_timers w) (wt_fresh w) = None" using assms map_of_fresh by (simp add: sched_inv_def)
  have un: "map_of (wt_waitingExecutions w) e = None" using assms(2) by (simp add: row isTracked_def)
  then have er: "e \<notin> set (wt_resuming w)" using assms(1) by (auto simp: sched_inv_def resuming_entries_def isTracked_def)
  have te: "timer_entries w" and re: "resuming_entries w" and et: "entry_timers w" and ti: "timer_ids w"
    using assms(1) by (simp_all add: sched_inv_def)
  have "timer_ids v" by (rule timer_ids_new [OF ti v(1,2)])
  moreover have "timer_entries v" using te un er unfolding timer_entries_def v by auto
  moreover have "resuming_entries v" using re unfolding resuming_entries_def isTracked_def v by auto
  moreover have "entry_timers v" unfolding entry_timers_def
  proof (intro allI impI)
    fix g k assume k: "map_of (wt_waitingExecutions v) g = Some k" "g \<notin> set (wt_resuming v)"
    show "map_option pt_job (map_of (wt_timers v) k) = Some (ResumeExecution g)"
    proof (cases "g = e")
      case True
      with k show ?thesis by (simp add: v)
    next
      case False
      with k have j: "map_option pt_job (map_of (wt_timers w) k) = Some (ResumeExecution g)"
        using et unfolding entry_timers_def v by simp
      then have "k \<noteq> wt_fresh w" using f by auto
      with j show ?thesis by (simp add: v)
    qed
  qed
  ultimately show ?thesis by (simp add: sched_inv_def v_def)
qed

lemma isTracked_scheduleRow: "isTracked e (scheduleRow dbTime row w) \<Longrightarrow> isTracked e w \<or> e = fst row"
  by (cases "(dbTime, row, w)" rule: scheduleRow.cases) (auto simp: isTracked_def setTimer_def split: if_splits)

lemma sched_inv_scheduleRows:
  assumes "sched_inv w" "distinct (map fst rows)" "\<forall>row \<in> set rows. \<not> isTracked (fst row) w"
  shows "sched_inv (fold (scheduleRow dbTime) rows w)"
  using assms
proof (induction rows arbitrary: w)
  case (Cons row rows)
  have "sched_inv (scheduleRow dbTime row w)" using Cons.prems by (intro sched_inv_scheduleRow) auto
  moreover have "\<forall>r \<in> set rows. \<not> isTracked (fst r) (scheduleRow dbTime row w)"
  proof
    fix r assume r: "r \<in> set rows"
    have "fst row \<notin> fst ` set rows" using Cons.prems(2) by simp
    with r have "fst r \<noteq> fst row" by (metis image_eqI)
    then show "\<not> isTracked (fst r) (scheduleRow dbTime row w)" using isTracked_scheduleRow [of "fst r" dbTime row w] Cons.prems(3) r by auto
  qed
  ultimately show ?case using Cons.IH Cons.prems(2) by simp
qed simp

lemma newExecutions_ok:
  "distinct (map fst rows) \<Longrightarrow> distinct (map fst (newExecutions rows w))"
  "\<forall>row \<in> set (newExecutions rows w). \<not> isTracked (fst row) w"
  by (simp_all add: newExecutions_def distinct_map_filter)

lemma sched_inv_pollAnswered:
  assumes "sched_inv w" "distinct (map fst rows)" shows "sched_inv (pollAnswered rows dbTime w)"
  using assms(1) sched_inv_scheduleRows [OF assms(1) newExecutions_ok(1) [OF assms(2)] newExecutions_ok(2)]
  by (simp add: pollAnswered_def)

lemma timer_ids_delete:
  "timer_ids w \<Longrightarrow> wt_timers v = AList.delete i (wt_timers w) \<Longrightarrow> wt_fresh v = wt_fresh w \<Longrightarrow> timer_ids v"
  by (simp add: timer_ids_def distinct_delete)

lemma sched_inv_stopExecution:
  assumes "sched_inv w" "e \<notin> set (wt_resuming w)" shows "sched_inv (stopExecution_tracker e w)"
proof (cases "map_of (wt_waitingExecutions w) e")
  case None
  with assms show ?thesis by (simp add: stopExecution_tracker_def)
next
  case (Some i)
  define v where "v = stopExecution_tracker e w"
  have v: "wt_timers v = AList.delete i (wt_timers w)" "wt_fresh v = wt_fresh w" "wt_resuming v = wt_resuming w"
      "wt_waitingExecutions v = AList.delete e (wt_waitingExecutions w)"
    using Some by (simp_all add: v_def stopExecution_tracker_def clearTimer_def)
  have te: "timer_entries w" and re: "resuming_entries w" and et: "entry_timers w" and ti: "timer_ids w"
    using assms by (simp_all add: sched_inv_def)
  have job: "map_option pt_job (map_of (wt_timers w) i) = Some (ResumeExecution e)"
    using et Some assms(2) unfolding entry_timers_def by blast
  have "timer_ids v" by (rule timer_ids_delete [OF ti v(1,2)])
  moreover have "timer_entries v" unfolding timer_entries_def
  proof (intro allI impI)
    fix k t f assume k: "map_of (wt_timers v) k = Some t" "pt_job t = ResumeExecution f"
    then have k': "map_of (wt_timers w) k = Some t" "k \<noteq> i" by (auto simp: v split: if_splits)
    with te k(2) have "map_of (wt_waitingExecutions w) f = Some k \<and> f \<notin> set (wt_resuming w) \<and> pt_every t = None"
      unfolding timer_entries_def by blast
    moreover have "f \<noteq> e" using calculation Some k'(2) by auto
    ultimately show "map_of (wt_waitingExecutions v) f = Some k \<and> f \<notin> set (wt_resuming v) \<and> pt_every t = None" by (simp add: v)
  qed
  moreover have "resuming_entries v" using re assms(2) unfolding resuming_entries_def isTracked_def v by auto
  moreover have "entry_timers v" unfolding entry_timers_def
  proof (intro allI impI)
    fix f k assume k: "map_of (wt_waitingExecutions v) f = Some k" "f \<notin> set (wt_resuming v)"
    then have j: "map_option pt_job (map_of (wt_timers w) k) = Some (ResumeExecution f)" "f \<noteq> e"
      using et unfolding entry_timers_def v by (auto split: if_splits)
    then have "k \<noteq> i" using job by auto
    with j show "map_option pt_job (map_of (wt_timers v) k) = Some (ResumeExecution f)" by (simp add: v)
  qed
  ultimately show ?thesis by (simp add: sched_inv_def v_def)
qed

lemma sched_inv_timerFires:
  assumes "sched_inv w" shows "sched_inv (timerFires i w)"
proof (cases "map_of (wt_timers w) i")
  case None
  with assms show ?thesis by (simp add: timerFires_def)
next
  case (Some t)
  have te: "timer_entries w" and re: "resuming_entries w" and et: "entry_timers w" and ti: "timer_ids w"
    using assms by (simp_all add: sched_inv_def)
  show ?thesis
  proof (cases "pt_job t")
    case PollDatabase
    define v where "v = (case pt_every t of None \<Rightarrow> clearTimer i w
      | Some ms \<Rightarrow> w\<lparr>wt_timers := AList.update i (t\<lparr>pt_due := wt_now w + int ms\<rparr>) (wt_timers w)\<rparr>)"
    have v: "wt_fresh v = wt_fresh w" "wt_resuming v = wt_resuming w" "wt_waitingExecutions v = wt_waitingExecutions w"
      by (simp_all add: v_def clearTimer_def split: option.split)
    have jobs: "map_option pt_job (map_of (wt_timers v) k) = map_option pt_job (map_of (wt_timers w) k)
        \<or> map_of (wt_timers v) k = None \<and> k = i" for k
      by (simp add: v_def clearTimer_def Some split: option.split)
    have same: "map_of (wt_timers v) k = map_of (wt_timers w) k" if "k \<noteq> i" for k
      using that by (simp add: v_def clearTimer_def split: option.split)
    have "timer_ids v"
    proof (cases "pt_every t")
      case None
      then show ?thesis by (intro timer_ids_delete [OF ti]) (simp_all add: v_def clearTimer_def)
    next
      case (Some ms)
      have "distinct (map fst (wt_timers v))" using ti by (simp add: v_def Some distinct_update timer_ids_def)
      moreover have "map_of (wt_timers w) k \<noteq> None" if "map_of (wt_timers v) k \<noteq> None" for k
        using jobs [of k] that by (metis map_option_is_None)
      ultimately show ?thesis using ti unfolding timer_ids_def v(1) by blast
    qed
    moreover have "timer_entries v" unfolding timer_entries_def
    proof (intro allI impI)
      fix k s f assume k: "map_of (wt_timers v) k = Some s" "pt_job s = ResumeExecution f"
      have "k \<noteq> i" using jobs [of k] k Some PollDatabase by auto
      with same k te show "map_of (wt_waitingExecutions v) f = Some k \<and> f \<notin> set (wt_resuming v) \<and> pt_every s = None"
        unfolding timer_entries_def v by metis
    qed
    moreover have "resuming_entries v" using re unfolding resuming_entries_def isTracked_def v .
    moreover have "entry_timers v" unfolding entry_timers_def
    proof (intro allI impI)
      fix f k assume k: "map_of (wt_waitingExecutions v) f = Some k" "f \<notin> set (wt_resuming v)"
      then have "map_option pt_job (map_of (wt_timers w) k) = Some (ResumeExecution f)" using et unfolding entry_timers_def v by blast
      moreover have "k \<noteq> i" using calculation Some PollDatabase by auto
      ultimately show "map_option pt_job (map_of (wt_timers v) k) = Some (ResumeExecution f)" using same by simp
    qed
    ultimately have "sched_inv v" by (simp add: sched_inv_def)
    moreover have "timerFires i w = pollStarts v" using Some PollDatabase by (simp add: timerFires_def v_def)
    ultimately show ?thesis by simp
  next
    case (ResumeExecution e)
    define v where "v = startExecution e (clearTimer i w)"
    have e: "map_of (wt_waitingExecutions w) e = Some i" "e \<notin> set (wt_resuming w)" "pt_every t = None"
      using te Some ResumeExecution unfolding timer_entries_def by blast+
    have v: "wt_timers v = AList.delete i (wt_timers w)" "wt_fresh v = wt_fresh w" "wt_resuming v = e # wt_resuming w"
        "wt_waitingExecutions v = wt_waitingExecutions w"
      by (simp_all add: v_def startExecution_def clearTimer_def)
    have "timer_ids v" by (rule timer_ids_delete [OF ti v(1,2)])
    moreover have "timer_entries v" unfolding timer_entries_def
    proof (intro allI impI)
      fix k s f assume k: "map_of (wt_timers v) k = Some s" "pt_job s = ResumeExecution f"
      then have k': "map_of (wt_timers w) k = Some s" "k \<noteq> i" by (auto simp: v split: if_splits)
      with te k(2) have "map_of (wt_waitingExecutions w) f = Some k \<and> f \<notin> set (wt_resuming w) \<and> pt_every s = None"
        unfolding timer_entries_def by blast
      moreover have "f \<noteq> e" using calculation e(1) k'(2) by auto
      ultimately show "map_of (wt_waitingExecutions v) f = Some k \<and> f \<notin> set (wt_resuming v) \<and> pt_every s = None" by (simp add: v)
    qed
    moreover have "resuming_entries v" using re e unfolding resuming_entries_def isTracked_def v by auto
    moreover have "entry_timers v" unfolding entry_timers_def
    proof (intro allI impI)
      fix f k assume k: "map_of (wt_waitingExecutions v) f = Some k" "f \<notin> set (wt_resuming v)"
      then have "map_option pt_job (map_of (wt_timers w) k) = Some (ResumeExecution f)" "f \<noteq> e"
        using et unfolding entry_timers_def v by auto
      moreover have "k \<noteq> i" using calculation Some ResumeExecution by auto
      ultimately show "map_option pt_job (map_of (wt_timers v) k) = Some (ResumeExecution f)" by (simp add: v)
    qed
    ultimately have "sched_inv v" by (simp add: sched_inv_def)
    moreover have "timerFires i w = v" using Some ResumeExecution e(3) by (simp add: timerFires_def v_def)
    ultimately show ?thesis by simp
  qed
qed

lemma sched_inv_resumeEnds:
  assumes "sched_inv w" "e \<in> set (wt_resuming w)" shows "sched_inv (resumeEnds e res w)"
proof -
  define v where "v = resumeEnds e res w"
  have te: "timer_entries w" and re: "resuming_entries w" and et: "entry_timers w" and ti: "timer_ids w"
    using assms by (simp_all add: sched_inv_def)
  have v: "wt_timers v = wt_timers w" "wt_fresh v = wt_fresh w" "wt_resuming v = remove1 e (wt_resuming w)"
      "wt_waitingExecutions v = AList.delete e (wt_waitingExecutions w)"
    by (simp_all add: v_def resumeEnds_def)
  have d: "distinct (wt_resuming w)" using re by (simp add: resuming_entries_def)
  have "timer_ids v" using ti by (simp add: timer_ids_def v)
  moreover have "timer_entries v" unfolding timer_entries_def
  proof (intro allI impI)
    fix k s f assume "map_of (wt_timers v) k = Some s" "pt_job s = ResumeExecution f"
    then have "map_of (wt_waitingExecutions w) f = Some k \<and> f \<notin> set (wt_resuming w) \<and> pt_every s = None"
      using te unfolding timer_entries_def v by blast
    moreover have "f \<noteq> e" using calculation assms(2) by blast
    ultimately show "map_of (wt_waitingExecutions v) f = Some k \<and> f \<notin> set (wt_resuming v) \<and> pt_every s = None"
      using notin_set_remove1 [of f "wt_resuming w" e] by (simp add: v)
  qed
  moreover have "resuming_entries v" using re d unfolding resuming_entries_def isTracked_def v by (simp add: distinct_remove1)
  moreover have "entry_timers v" unfolding entry_timers_def
  proof (intro allI impI)
    fix f k assume k: "map_of (wt_waitingExecutions v) f = Some k" "f \<notin> set (wt_resuming v)"
    then have "map_of (wt_waitingExecutions w) f = Some k" "f \<noteq> e" by (auto simp: v split: if_splits)
    moreover have "f \<notin> set (wt_resuming w)" using k(2) \<open>f \<noteq> e\<close> by (simp add: v d)
    ultimately show "map_option pt_job (map_of (wt_timers v) k) = Some (ResumeExecution f)" using et unfolding entry_timers_def v by blast
  qed
  ultimately show ?thesis by (simp add: sched_inv_def v_def)
qed

lemma sched_inv_event:
  assumes "sched_inv w" "canHappen ev w" "undisturbed ev w" shows "sched_inv (onWaitEvent ev w)"
proof (cases ev)
  case (InitCalled b)
  then show ?thesis using assms(1) by (simp add: init_tracker_def sched_inv_startTracking)
next
  case (ChildEnds c p results updated)
  have "sched_inv (childEnds c p results updated w) = sched_inv w"
    using assms(3) unfolding ChildEnds by (intro sched_inv_cong) (simp_all add: childEnds_def)
  with assms(1) show ?thesis by (simp add: ChildEnds)
next
  case (TimePasses ms)
  have "sched_inv (onWaitEvent ev w) = sched_inv w" by (rule sched_inv_cong) (simp_all add: TimePasses)
  with assms(1) show ?thesis by simp
qed (use assms in \<open>simp_all add: sched_inv_startTracking sched_inv_timerFires sched_inv_pollAnswered sched_inv_stopExecution
       sched_inv_resumeEnds\<close>)

lemma tracked_sched_inv: "tracked undisturbed (newTracker now) tr w \<Longrightarrow> sched_inv w"
proof (induction rule: tracked.induct)
  case Begin
  show ?case by (simp add: sched_inv_def sched_defs newTracker_def)
qed (rule sched_inv_event)

definition resumptions :: "string \<Rightarrow> tracker \<Rightarrow> nat" where
  "resumptions e w = length (filter (\<lambda>p. pt_job (snd p) = ResumeExecution e) (wt_timers w)) + length (filter (\<lambda>f. f = e) (wt_resuming w))"

lemma filter_one_key:
  assumes "distinct (map fst al)" "\<And>k v. map_of al k = Some v \<Longrightarrow> P v \<Longrightarrow> k = i"
  shows "length (filter (\<lambda>p. P (snd p)) al) = (if \<exists>v. map_of al i = Some v \<and> P v then 1 else 0)"
  using assms
proof (induction al)
  case (Cons p al)
  obtain k v where p: "p = (k, v)" by (cases p)
  have k: "k \<notin> fst ` set al" using Cons.prems(1) by (simp add: p)
  have IH: "length (filter (\<lambda>p. P (snd p)) al) = (if \<exists>v. map_of al i = Some v \<and> P v then 1 else 0)"
  proof (rule Cons.IH)
    show "distinct (map fst al)" using Cons.prems(1) by simp
    fix j u assume j: "map_of al j = Some u" "P u"
    then have "j \<noteq> k" using k by (metis domI dom_map_of_conv_image_fst)
    with j show "j = i" using Cons.prems(2) [of j u] by (simp add: p)
  qed
  show ?case
  proof (cases "P v")
    case True
    then have "k = i" using Cons.prems(2) [of k v] by (simp add: p)
    moreover have "map_of al i = None" using k calculation by (simp add: map_of_eq_None_iff)
    ultimately show ?thesis using IH True by (simp add: p)
  next
    case False
    then show ?thesis using IH k by (auto simp: p dest: map_of_SomeD intro: rev_image_eqI)
  qed
qed simp

lemma filter_eq_distinct: "distinct xs \<Longrightarrow> length (filter (\<lambda>f. f = e) xs) = (if e \<in> set xs then 1 else 0)"
  by (induction xs) auto

lemma resumptions_exact:
  assumes "sched_inv w" shows "resumptions e w = (if isTracked e w then 1 else 0)"
proof -
  have te: "timer_entries w" and re: "resuming_entries w" and et: "entry_timers w" and ti: "timer_ids w"
    using assms by (simp_all add: sched_inv_def)
  have r: "length (filter (\<lambda>f. f = e) (wt_resuming w)) = (if e \<in> set (wt_resuming w) then 1 else 0)"
    using re by (simp add: filter_eq_distinct resuming_entries_def)
  show ?thesis
  proof (cases "map_of (wt_waitingExecutions w) e")
    case None
    have "\<forall>p \<in> set (wt_timers w). pt_job (snd p) \<noteq> ResumeExecution e"
    proof
      fix p assume "p \<in> set (wt_timers w)"
      then have "map_of (wt_timers w) (fst p) = Some (snd p)" using ti by (simp add: timer_ids_def)
      then show "pt_job (snd p) \<noteq> ResumeExecution e" using te None unfolding timer_entries_def by fastforce
    qed
    moreover have "e \<notin> set (wt_resuming w)" using re None by (auto simp: resuming_entries_def isTracked_def)
    ultimately show ?thesis using r None by (simp add: resumptions_def isTracked_def filter_empty_conv)
  next
    case (Some i)
    have one: "length (filter (\<lambda>p. pt_job (snd p) = ResumeExecution e) (wt_timers w)) =
        (if \<exists>t. map_of (wt_timers w) i = Some t \<and> pt_job t = ResumeExecution e then 1 else 0)"
    proof (rule filter_one_key)
      show "distinct (map fst (wt_timers w))" using ti by (simp add: timer_ids_def)
      fix k v assume "map_of (wt_timers w) k = Some v" "pt_job v = ResumeExecution e"
      then show "k = i" using te Some unfolding timer_entries_def by fastforce
    qed
    have "(\<exists>t. map_of (wt_timers w) i = Some t \<and> pt_job t = ResumeExecution e) \<longleftrightarrow> e \<notin> set (wt_resuming w)"
      using te et Some unfolding timer_entries_def entry_timers_def by fastforce
    with one r Some show ?thesis by (simp add: resumptions_def isTracked_def)
  qed
qed

text \<open>C17: As long as the instance does not lose the lead, no execution is stopped while it is being resumed and no parent is
  started by the end of its child, each execution the tracker has an entry for has exactly one timer or one resumption under
  way, an execution without an entry has none, and at most one query asks the database which executions wait.\<close>
theorem one_resumption:
  assumes "tracked undisturbed (newTracker now) tr w"
  shows "resumptions e w = (if isTracked e w then 1 else 0) \<and> wt_polls w = (if wt_isPolling w then 1 else 0)"
  using resumptions_exact [OF tracked_sched_inv [OF assms]] tracked_poll_inv [OF assms] by (simp add: poll_inv_def)

definition exTracking :: "wait_event list" where
  "exTracking = [LeaderTakeover, DatabaseAnswers [(''7'', Some 1030)] 1000, TimePasses 12]"

lemma one_resumption_witness:
  "\<exists>tr w. waitRun undisturbed exTracking [] (newTracker 500) = Some (tr, w) \<and> resumptions ''7'' w = 1 \<and> wt_polls w = 0"
proof -
  have "waitRun undisturbed exTracking [] (newTracker 500) \<noteq> None" by code_simp
  then obtain tr w where r: "waitRun undisturbed exTracking [] (newTracker 500) = Some (tr, w)" by auto
  have "map_option (\<lambda>p. (isTracked ''7'' (snd p), wt_isPolling (snd p))) (waitRun undisturbed exTracking [] (newTracker 500)) = Some (True, False)"
    by code_simp
  then have "isTracked ''7'' w" "\<not> wt_isPolling w" using r by simp_all
  with one_resumption [OF waitRun_tracked [OF r tracked.Begin], of "''7''"] r show ?thesis by simp
qed

section \<open>No execution is resumed before its time\<close>

definition origin :: "wait_trace \<Rightarrow> pending_timer \<Rightarrow> string \<Rightarrow> bool" where
  "origin tr t e \<longleftrightarrow> pt_every t = None \<and> (\<exists>t0 rows dbTime waitTill. (t0, DatabaseAnswers rows dbTime) \<in> set tr \<and>
     (e, Some waitTill) \<in> set rows \<and> pt_due t = t0 + max (waitTill - dbTime) 0)"

definition all_origins :: "wait_trace \<Rightarrow> tracker \<Rightarrow> bool" where
  "all_origins tr w \<longleftrightarrow> (\<forall>i t e. (i, t) \<in> set (wt_timers w) \<longrightarrow> pt_job t = ResumeExecution e \<longrightarrow> origin tr t e)"

lemma origin_append: "origin tr t e \<Longrightarrow> origin (tr @ tr') t e"
  unfolding origin_def by fastforce

lemma all_origins_step:
  assumes "all_origins tr w"
    and "\<And>i t e. (i, t) \<in> set (wt_timers v) \<Longrightarrow> pt_job t = ResumeExecution e \<Longrightarrow> (i, t) \<in> set (wt_timers w) \<or> origin (tr @ [x]) t e"
  shows "all_origins (tr @ [x]) v"
  using assms origin_append unfolding all_origins_def by blast

lemma scheduleRow_timers:
  "set (wt_timers (scheduleRow dbTime row w)) \<subseteq> set (wt_timers w) \<union>
     {(i, t) | i t waitTill. snd row = Some waitTill \<and> t = \<lparr>pt_due = wt_now w + max (waitTill - dbTime) 0, pt_job = ResumeExecution (fst row), pt_every = None\<rparr>}"
  by (cases "(dbTime, row, w)" rule: scheduleRow.cases) (auto simp: setTimer_def)

lemma scheduleRows_timers:
  "(i, t) \<in> set (wt_timers (fold (scheduleRow dbTime) rows w)) \<Longrightarrow> (i, t) \<in> set (wt_timers w) \<or>
     (\<exists>e waitTill. (e, Some waitTill) \<in> set rows \<and> t = \<lparr>pt_due = wt_now w + max (waitTill - dbTime) 0, pt_job = ResumeExecution e, pt_every = None\<rparr>)"
proof (induction rows arbitrary: w)
  case (Cons row rows)
  from Cons.IH [of "scheduleRow dbTime row w"] Cons.prems
  consider "(i, t) \<in> set (wt_timers (scheduleRow dbTime row w))"
    | e waitTill where "(e, Some waitTill) \<in> set rows"
        "t = \<lparr>pt_due = wt_now w + max (waitTill - dbTime) 0, pt_job = ResumeExecution e, pt_every = None\<rparr>"
    by auto
  then show ?case
  proof cases
    case 1
    then consider "(i, t) \<in> set (wt_timers w)" | waitTill where "snd row = Some waitTill"
        "t = \<lparr>pt_due = wt_now w + max (waitTill - dbTime) 0, pt_job = ResumeExecution (fst row), pt_every = None\<rparr>"
      using scheduleRow_timers [of dbTime row w] by blast
    then show ?thesis
    proof cases
      case 2
      have "(fst row, Some waitTill) \<in> set (row # rows)" using 2(1) by (cases row) simp
      with 2(2) show ?thesis by blast
    qed simp
  next
    case 2
    then show ?thesis by auto
  qed
qed simp

lemma timerFires_timers:
  assumes "all_origins tr w" "(i, t) \<in> set (wt_timers (timerFires k w))" "pt_job t = ResumeExecution e"
  shows "(i, t) \<in> set (wt_timers w)"
proof (cases "map_of (wt_timers w) k")
  case None
  with assms show ?thesis by (simp add: timerFires_def)
next
  case (Some s)
  show ?thesis
  proof (cases "pt_every s")
    case None
    with Some assms(2) show ?thesis
      by (auto simp: timerFires_def Let_def startExecution_def clearTimer_def AList.delete_eq split: timer_job.splits)
  next
    case (Some ms)
    have "pt_job s \<noteq> ResumeExecution e" 
      using assms(1) map_of_SomeD [OF \<open>map_of (wt_timers w) k = Some s\<close>] Some unfolding all_origins_def origin_def by fastforce
    moreover have "wt_timers (timerFires k w) = AList.update k (s\<lparr>pt_due := wt_now w + int ms\<rparr>) (wt_timers w)"
      using \<open>map_of (wt_timers w) k = Some s\<close> Some by (simp add: timerFires_def Let_def startExecution_def split: timer_job.split)
    moreover have "set (AList.update k x al) \<subseteq> insert (k, x) (set al)" for x and al :: "(nat \<times> pending_timer) list"
      by (induction al) auto
    ultimately show ?thesis using assms(2,3) by fastforce
  qed
qed

lemma tracked_origins: "tracked allowed (newTracker now) tr w \<Longrightarrow> all_origins tr w"
proof (induction rule: tracked.induct)
  case Begin
  show ?case by (simp add: all_origins_def newTracker_def)
next
  case (Happens tr w ev)
  show ?case
  proof (rule all_origins_step [OF Happens.IH])
    fix i t e assume t: "(i, t) \<in> set (wt_timers (onWaitEvent ev w))" "pt_job t = ResumeExecution e"
    show "(i, t) \<in> set (wt_timers w) \<or> origin (tr @ [(wt_now w, ev)]) t e"
    proof (cases ev)
      case (TimerDue k)
      with t timerFires_timers [OF Happens.IH] show ?thesis by simp
    next
      case (DatabaseAnswers rows dbTime)
      consider "(i, t) \<in> set (wt_timers w)" | f waitTill where "(f, Some waitTill) \<in> set (newExecutions rows w)"
          "t = \<lparr>pt_due = wt_now w + max (waitTill - dbTime) 0, pt_job = ResumeExecution f, pt_every = None\<rparr>"
        using t(1) scheduleRows_timers [of i t dbTime "newExecutions rows w" w]
        by (auto simp: DatabaseAnswers pollAnswered_def pollEnds_def split: if_splits)
      then show ?thesis
      proof cases
        case 2
        moreover have "(f, Some waitTill) \<in> set rows" using 2(1) by (simp add: newExecutions_def)
        ultimately show ?thesis using t(2) DatabaseAnswers unfolding origin_def by auto
      qed simp
    next
      case LeaderStepdown
      with t show ?thesis by (auto simp: stopTracking_def clearTimers_timers clearTimer_def AList.delete_eq split: option.splits)
    next
      case (StopRequested f)
      with t show ?thesis by (auto simp: stopExecution_tracker_def clearTimer_def AList.delete_eq split: option.splits)
    qed (use t in \<open>auto simp: init_tracker_def startTracking_def setTimer_def pollEnds_def resumeEnds_def childEnds_def
           startExecution_def Let_def split: if_splits\<close>)
  qed
qed

text \<open>C18: A timer resumes an execution only when a poll has read its waiting time, and no earlier than that time: between the
  poll and the timer at least as much time has passed as there was left, on the clock of the database, until the
  execution's \<open>waitTill\<close>. This holds for every order of events, changes of the leader included.\<close>
theorem never_early:
  assumes "tracked allowed (newTracker now) tr w" and "canHappen (TimerDue i) w"
    and "map_of (wt_timers w) i = Some t" and "pt_job t = ResumeExecution e"
  shows "\<exists>t0 rows dbTime waitTill. (t0, DatabaseAnswers rows dbTime) \<in> set tr \<and> (e, Some waitTill) \<in> set rows \<and>
     waitTill - dbTime \<le> wt_now w - t0"
proof -
  have "origin tr t e" using tracked_origins [OF assms(1)] map_of_SomeD [OF assms(3)] assms(4) unfolding all_origins_def by blast
  moreover have "pt_due t \<le> wt_now w" using assms(2,3) by simp
  ultimately show ?thesis unfolding origin_def by fastforce
qed

definition exDue :: "wait_event list" where
  "exDue = exTracking @ [TimePasses 18]"

lemma never_early_witness:
  "\<exists>tr w t t0 rows dbTime waitTill. waitRun (\<lambda>_ _. True) exDue [] (newTracker 500) = Some (tr, w) \<and>
     map_of (wt_timers w) 1 = Some t \<and> (t0, DatabaseAnswers rows dbTime) \<in> set tr \<and> (''7'', Some waitTill) \<in> set rows \<and>
     waitTill - dbTime \<le> wt_now w - t0"
proof -
  have "waitRun (\<lambda>_ _. True) exDue [] (newTracker 500) \<noteq> None" by code_simp
  then obtain tr w where r: "waitRun (\<lambda>_ _. True) exDue [] (newTracker 500) = Some (tr, w)" by auto
  have "map_option (\<lambda>p. (canHappen (TimerDue 1) (snd p), map_option pt_job (map_of (wt_timers (snd p)) 1)))
      (waitRun (\<lambda>_ _. True) exDue [] (newTracker 500)) = Some (True, Some (ResumeExecution ''7''))"
    by code_simp
  then have h: "canHappen (TimerDue 1) w" "map_option pt_job (map_of (wt_timers w) 1) = Some (ResumeExecution ''7'')"
    unfolding r by (simp_all only: option.map option.inject snd_conv prod.inject simp_thms)
  then obtain t where t: "map_of (wt_timers w) 1 = Some t" "pt_job t = ResumeExecution ''7''" by auto
  from never_early [OF waitRun_tracked [OF r tracked.Begin] h(1) t] r t(1) show ?thesis by blast
qed

section \<open>What a poll schedules\<close>

lemma scheduleRows_exact:
  fixes dbTime :: int
  assumes "timer_ids w" "distinct (map fst rows)"
  defines "v \<equiv> fold (scheduleRow dbTime) rows w"
  shows "timer_ids v \<and> (\<forall>i t. map_of (wt_timers w) i = Some t \<longrightarrow> map_of (wt_timers v) i = Some t) \<and>
    (\<forall>e. (\<forall>d. (e, Some d) \<notin> set rows) \<longrightarrow> map_of (wt_waitingExecutions v) e = map_of (wt_waitingExecutions w) e) \<and>
    (\<forall>e d. (e, Some d) \<in> set rows \<longrightarrow> (\<exists>i. map_of (wt_waitingExecutions v) e = Some i \<and> map_of (wt_timers w) i = None \<and>
           map_of (wt_timers v) i = Some \<lparr>pt_due = wt_now w + max (d - dbTime) 0, pt_job = ResumeExecution e, pt_every = None\<rparr>))"
  using assms(1,2) unfolding v_def
proof (induction rows arbitrary: w)
  case (Cons row rows)
  define u where "u = scheduleRow dbTime row w"
  have d: "distinct (map fst rows)" "fst row \<notin> fst ` set rows" using Cons.prems(2) by simp_all
  have f: "map_of (wt_timers w) (wt_fresh w) = None" by (rule map_of_fresh [OF Cons.prems(1)])
  show ?case
  proof (cases "snd row")
    case None
    obtain e where row: "row = (e, None)" using None by (cases row) simp
    have u: "wt_timers u = wt_timers w" "wt_fresh u = wt_fresh w" "wt_waitingExecutions u = wt_waitingExecutions w" "wt_now u = wt_now w"
      by (simp_all add: u_def row)
    have ti: "timer_ids u" using Cons.prems(1) by (simp add: timer_ids_def u)
    have f: "fold (scheduleRow dbTime) (row # rows) w = fold (scheduleRow dbTime) rows u" by (simp add: u_def)
    have r: "(g, Some x) \<in> set (row # rows) \<longleftrightarrow> (g, Some x) \<in> set rows" for g x by (simp add: row)
    show ?thesis using Cons.IH [OF ti d(1)] unfolding f r u .
  next
    case (Some d0)
    obtain e where row: "row = (e, Some d0)" using Some by (cases row) simp
    let ?t = "\<lparr>pt_due = wt_now w + max (d0 - dbTime) 0, pt_job = ResumeExecution e, pt_every = None\<rparr>"
    have u: "wt_timers u = (wt_fresh w, ?t) # wt_timers w" "wt_fresh u = Suc (wt_fresh w)"
        "wt_waitingExecutions u = AList.update e (wt_fresh w) (wt_waitingExecutions w)" "wt_now u = wt_now w"
      by (simp_all add: u_def row setTimer_def)
    have ti: "timer_ids u" by (rule timer_ids_new [OF Cons.prems(1) u(1,2)])
    have e: "e \<notin> fst ` set rows" using d(2) by (simp add: row)
    note IH = Cons.IH [OF ti d(1)]
    have IH4: "\<forall>g x. (g, Some x) \<in> set rows \<longrightarrow> (\<exists>i. map_of (wt_waitingExecutions (fold (scheduleRow dbTime) rows u)) g = Some i \<and>
        map_of (wt_timers u) i = None \<and> map_of (wt_timers (fold (scheduleRow dbTime) rows u)) i =
          Some \<lparr>pt_due = wt_now w + max (x - dbTime) 0, pt_job = ResumeExecution g, pt_every = None\<rparr>)"
      using IH unfolding u(4) by blast
    have IH2: "\<forall>i t. map_of (wt_timers u) i = Some t \<longrightarrow> map_of (wt_timers (fold (scheduleRow dbTime) rows u)) i = Some t"
      and IH3: "\<forall>g. (\<forall>x. (g, Some x) \<notin> set rows) \<longrightarrow>
        map_of (wt_waitingExecutions (fold (scheduleRow dbTime) rows u)) g = map_of (wt_waitingExecutions u) g"
      and IH1: "timer_ids (fold (scheduleRow dbTime) rows u)"
      using IH by blast+
    have old: "map_of (wt_timers u) i = Some t" if "map_of (wt_timers w) i = Some t" for i t using that f by (auto simp: u)
    have g3: "map_of (wt_waitingExecutions (fold (scheduleRow dbTime) rows u)) g = map_of (wt_waitingExecutions w) g"
      if "\<forall>x. (g, Some x) \<notin> set (row # rows)" for g
    proof -
      from that have "g \<noteq> e" "\<forall>x. (g, Some x) \<notin> set rows" by (auto simp: row)
      with IH3 show ?thesis by (simp add: u)
    qed
    have g4: "\<exists>i. map_of (wt_waitingExecutions (fold (scheduleRow dbTime) rows u)) g = Some i \<and> map_of (wt_timers w) i = None \<and>
         map_of (wt_timers (fold (scheduleRow dbTime) rows u)) i =
           Some \<lparr>pt_due = wt_now w + max (x - dbTime) 0, pt_job = ResumeExecution g, pt_every = None\<rparr>"
      if g: "(g, Some x) \<in> set (row # rows)" for g x
    proof (cases "g = e")
      case True
      have no: "(e, y) \<notin> set rows" for y using e by (metis fst_conv image_eqI)
      then have "x = d0" using g True by (simp add: row)
      moreover have "map_of (wt_waitingExecutions (fold (scheduleRow dbTime) rows u)) e = Some (wt_fresh w)"
        using IH3 no by (simp add: u)
      moreover have "map_of (wt_timers (fold (scheduleRow dbTime) rows u)) (wt_fresh w) = Some ?t"
        using IH2 by (simp add: u)
      ultimately show ?thesis using f True by simp
    next
      case False
      with g have "(g, Some x) \<in> set rows" by (simp add: row)
      with IH4 obtain i where "map_of (wt_waitingExecutions (fold (scheduleRow dbTime) rows u)) g = Some i"
          "map_of (wt_timers u) i = None"
          "map_of (wt_timers (fold (scheduleRow dbTime) rows u)) i =
             Some \<lparr>pt_due = wt_now w + max (x - dbTime) 0, pt_job = ResumeExecution g, pt_every = None\<rparr>"
        by blast
      moreover have "map_of (wt_timers w) i = None" using calculation(2) by (simp add: u split: if_splits)
      ultimately show ?thesis by blast
    qed
    have f: "fold (scheduleRow dbTime) (row # rows) w = fold (scheduleRow dbTime) rows u" by (simp add: u_def)
    have g2: "map_of (wt_timers (fold (scheduleRow dbTime) rows u)) i = Some t" if "map_of (wt_timers w) i = Some t" for i t
      using IH2 old [OF that] by blast
    show ?thesis unfolding f using IH1 g2 g3 g4 by blast
  qed
qed simp

lemma timer_ids_cong: "wt_timers v = wt_timers w \<Longrightarrow> wt_fresh v = wt_fresh w \<Longrightarrow> timer_ids v = timer_ids w"
  by (simp add: timer_ids_def)

lemma timer_ids_startTracking: "timer_ids w \<Longrightarrow> timer_ids (startTracking w)"
  by (rule timer_ids_new [of w]) (simp_all add: startTracking_def setTimer_def)

lemma timer_ids_update:
  assumes "timer_ids w" "map_of (wt_timers w) i = Some s" shows "timer_ids (w\<lparr>wt_timers := AList.update i t (wt_timers w)\<rparr>)"
  using assms by (simp add: timer_ids_def distinct_update)

lemma timer_ids_filter:
  assumes "timer_ids w" "wt_timers v = filter P (wt_timers w)" "wt_fresh v = wt_fresh w" shows "timer_ids v"
proof -
  have "map_of (wt_timers w) i \<noteq> None" if "map_of (filter P (wt_timers w)) i \<noteq> None" for i
    using that by (auto simp: map_of_eq_None_iff simp del: not_None_eq)
  then show ?thesis using assms(1) unfolding timer_ids_def assms(2,3) by (simp add: distinct_map_filter)
qed

lemma timer_ids_timerFires:
  assumes "timer_ids w" shows "timer_ids (timerFires i w)"
proof (cases "map_of (wt_timers w) i")
  case None
  with assms show ?thesis by (simp add: timerFires_def)
next
  case (Some s)
  let ?v = "case pt_every s of None \<Rightarrow> clearTimer i w | Some ms \<Rightarrow> w\<lparr>wt_timers := AList.update i (s\<lparr>pt_due := wt_now w + int ms\<rparr>) (wt_timers w)\<rparr>"
  have v: "timer_ids ?v"
  proof (cases "pt_every s")
    case None
    have "timer_ids (clearTimer i w)" by (rule timer_ids_delete [OF assms]) (simp_all add: clearTimer_def)
    then show ?thesis by (simp add: None)
  next
    case (Some ms)
    with timer_ids_update [OF assms \<open>map_of (wt_timers w) i = Some s\<close>] show ?thesis by simp
  qed
  show ?thesis
  proof (cases "pt_job s")
    case PollDatabase
    have "timer_ids (timerFires i w) = timer_ids ?v"
      by (rule timer_ids_cong) (simp_all add: timerFires_def Some PollDatabase)
    with v show ?thesis by simp
  next
    case (ResumeExecution e)
    have "timer_ids (timerFires i w) = timer_ids ?v"
      by (rule timer_ids_cong) (simp_all add: timerFires_def Let_def Some ResumeExecution startExecution_def)
    with v show ?thesis by simp
  qed
qed

lemma timer_ids_event:
  assumes "timer_ids w" "canHappen ev w" shows "timer_ids (onWaitEvent ev w)"
proof (cases ev)
  case (InitCalled b)
  with assms show ?thesis by (simp add: init_tracker_def timer_ids_startTracking)
next
  case LeaderTakeover
  with assms show ?thesis by (simp add: timer_ids_startTracking)
next
  case LeaderStepdown
  show ?thesis
  proof (cases "wt_mainTimer w")
    case None
    with assms show ?thesis by (simp add: LeaderStepdown stopTracking_def)
  next
    case (Some i)
    then have "wt_timers (stopTracking w) = filter (\<lambda>p. fst p \<noteq> i \<and> fst p \<notin> snd ` set (wt_waitingExecutions w)) (wt_timers w)"
      by (auto simp: stopTracking_def clearTimers_timers clearTimer_def AList.delete_eq intro!: filter_cong)
    then show ?thesis unfolding LeaderStepdown by (intro timer_ids_filter [OF assms(1)]) simp_all
  qed
next
  case (TimerDue i)
  with assms show ?thesis by (simp add: timer_ids_timerFires)
next
  case (DatabaseAnswers rows dbTime)
  then have "distinct (map fst (newExecutions rows w))" using assms(2) by (simp add: newExecutions_ok)
  from scheduleRows_exact [OF assms(1) this] have "timer_ids (pollEnds (fold (scheduleRow dbTime) (newExecutions rows w) w))"
    by (simp add: timer_ids_def pollEnds_def)
  moreover have "timer_ids (pollEnds w)" using assms(1) by (simp add: timer_ids_def pollEnds_def)
  ultimately show ?thesis by (simp add: DatabaseAnswers pollAnswered_def)
next
  case (StopRequested e)
  have "timer_ids (stopExecution_tracker e w)"
  proof (cases "map_of (wt_waitingExecutions w) e")
    case None
    with assms show ?thesis by (simp add: stopExecution_tracker_def)
  next
    case (Some i)
    then show ?thesis
      by (intro timer_ids_delete [OF assms(1), of _ i]) (simp_all add: stopExecution_tracker_def clearTimer_def)
  qed
  then show ?thesis by (simp add: StopRequested)
qed (use assms in \<open>simp_all add: timer_ids_def pollEnds_def resumeEnds_def childEnds_def startExecution_def Let_def\<close>)

lemma tracked_timer_ids: "tracked allowed (newTracker now) tr w \<Longrightarrow> timer_ids w"
proof (induction rule: tracked.induct)
  case Begin
  show ?case by (simp add: timer_ids_def newTracker_def)
qed (rule timer_ids_event)

text \<open>The answer of a poll: an execution that has an entry already keeps it, an execution of the answer that has none
  gets an entry and a new timer, due when the rest of its waiting time (none, if that is over) has passed; all other
  entries and all timers set before stay, and the tracker is ready to poll again.\<close>
lemma poll_schedules:
  fixes dbTime :: int
  assumes "tracked allowed (newTracker now) tr w" and "distinct (map fst rows)" and "wt_isPolling w"
  defines "v \<equiv> pollAnswered rows dbTime w"
  shows "\<not> wt_isPolling v \<and> (\<forall>i t. map_of (wt_timers w) i = Some t \<longrightarrow> map_of (wt_timers v) i = Some t) \<and>
     (\<forall>e. isTracked e w \<or> (\<forall>d. (e, Some d) \<notin> set rows) \<longrightarrow> map_of (wt_waitingExecutions v) e = map_of (wt_waitingExecutions w) e) \<and>
     (\<forall>e d. \<not> isTracked e w \<and> (e, Some d) \<in> set rows \<longrightarrow> (\<exists>i. map_of (wt_waitingExecutions v) e = Some i \<and> map_of (wt_timers w) i = None \<and>
        map_of (wt_timers v) i = Some \<lparr>pt_due = wt_now w + max (d - dbTime) 0, pt_job = ResumeExecution e, pt_every = None\<rparr>))"
proof -
  define u where "u = fold (scheduleRow dbTime) (newExecutions rows w) w"
  note S = scheduleRows_exact [OF tracked_timer_ids [OF assms(1)] newExecutions_ok(1) [OF assms(2), of w], of dbTime, folded u_def]
  have v: "wt_timers v = wt_timers u" "wt_waitingExecutions v = wt_waitingExecutions u" "\<not> wt_isPolling v"
    by (simp_all add: v_def u_def pollAnswered_def pollEnds_def newExecutions_def)
  have new: "(e, d) \<in> set (newExecutions rows w) \<longleftrightarrow> \<not> isTracked e w \<and> (e, d) \<in> set rows" for e d
    by (auto simp: newExecutions_def)
  show ?thesis using S v(3) unfolding v(1,2) new by blast
qed

lemma poll_schedules_witness:
  "\<exists>tr w i. waitRun (\<lambda>_ _. True) [LeaderTakeover] [] (newTracker 500) = Some (tr, w) \<and>
     map_of (wt_waitingExecutions (pollAnswered [(''7'', Some 1030)] 1000 w)) ''7'' = Some i \<and>
     map_of (wt_timers (pollAnswered [(''7'', Some 1030)] 1000 w)) i =
       Some \<lparr>pt_due = 530, pt_job = ResumeExecution ''7'', pt_every = None\<rparr>"
proof -
  have "waitRun (\<lambda>_ _. True) [LeaderTakeover] [] (newTracker 500) \<noteq> None" by code_simp
  then obtain tr w where r: "waitRun (\<lambda>_ _. True) [LeaderTakeover] [] (newTracker 500) = Some (tr, w)" by auto
  have "map_option (\<lambda>p. (wt_isPolling (snd p), isTracked ''7'' (snd p), wt_now (snd p)))
      (waitRun (\<lambda>_ _. True) [LeaderTakeover] [] (newTracker 500)) = Some (True, False, 500)"
    by code_simp
  then have h: "wt_isPolling w" "\<not> isTracked ''7'' w" "wt_now w = 500"
    unfolding r by (simp_all only: option.map option.inject snd_conv prod.inject simp_thms)
  have one: "(''7'', Some (1030::int)) \<in> set [(''7'', Some 1030)]" by simp
  have "distinct (map fst [(''7'', Some (1030::int))])" by simp
  from poll_schedules [OF waitRun_tracked [OF r tracked.Begin] this h(1), of 1000] h(2) one
  have "\<exists>i. map_of (wt_waitingExecutions (pollAnswered [(''7'', Some 1030)] 1000 w)) ''7'' = Some i \<and> map_of (wt_timers w) i = None \<and>
     map_of (wt_timers (pollAnswered [(''7'', Some 1030)] 1000 w)) i =
       Some \<lparr>pt_due = wt_now w + max (1030 - 1000) 0, pt_job = ResumeExecution ''7'', pt_every = None\<rparr>"
    by blast
  with r h(3) show ?thesis by auto
qed

section \<open>A change of the leader\<close>

text \<open>
  The events by which someone else takes care of an execution: it is stopped, or a child that has it as its parent is resumed.
\<close>

fun concerns :: "string \<Rightarrow> wait_event \<Rightarrow> bool" where
  "concerns e (StopRequested f) = (f = e)"
| "concerns e (ResumeEnds c found outcome) = (c = e \<or> resumeOutcome found outcome = Inr (Some e))"
| "concerns e _ = False"

definition lost :: "string \<Rightarrow> tracker \<Rightarrow> bool" where
  "lost e w \<longleftrightarrow> isTracked e w \<and> e \<notin> set (wt_resuming w) \<and> e \<notin> snd ` set (wt_children w) \<and>
     ResumeExecution e \<notin> (pt_job \<circ> snd) ` set (wt_timers w)"

lemma lost_cong:
  assumes "wt_timers v = wt_timers w" "wt_waitingExecutions v = wt_waitingExecutions w" "wt_resuming v = wt_resuming w"
    "wt_children v = wt_children w"
  shows "lost e v = lost e w"
  unfolding lost_def isTracked_def assms ..

lemma lost_scheduleRows:
  assumes "lost e w" "\<forall>row \<in> set rows. fst row \<noteq> e" shows "lost e (fold (scheduleRow dbTime) rows w)"
  using assms
proof (induction rows arbitrary: w)
  case (Cons row rows)
  have "lost e (scheduleRow dbTime row w)"
  proof (cases "snd row")
    case None
    then obtain f where "row = (f, None)" by (cases row) simp
    then have "lost e (scheduleRow dbTime row w) = lost e w" by (intro lost_cong) simp_all
    with Cons.prems(1) show ?thesis by simp
  next
    case (Some d)
    then obtain f where row: "row = (f, Some d)" by (cases row) simp
    then have "f \<noteq> e" using Cons.prems(2) by simp
    with Cons.prems(1) show ?thesis by (simp add: row lost_def setTimer_def isTracked_def)
  qed
  with Cons show ?case by simp
qed simp

lemma jobs_timerFires: "(pt_job \<circ> snd) ` set (wt_timers (timerFires i w)) \<subseteq> (pt_job \<circ> snd) ` set (wt_timers w)"
proof (cases "map_of (wt_timers w) i")
  case None
  then show ?thesis by (simp add: timerFires_def)
next
  case (Some s)
  have "(i, s) \<in> set (wt_timers w)" using Some by (rule map_of_SomeD)
  then have j: "pt_job s \<in> (pt_job \<circ> snd) ` set (wt_timers w)" by (force intro: rev_image_eqI)
  have upd: "set (AList.update i t al) \<subseteq> insert (i, t) (set al)" for t and al :: "(nat \<times> pending_timer) list"
    by (induction al) auto
  have "(pt_job \<circ> snd) ` set (AList.update i (s\<lparr>pt_due := d\<rparr>) (wt_timers w)) \<subseteq> (pt_job \<circ> snd) ` set (wt_timers w)" for d
    by (rule subset_trans [OF image_mono [OF upd]]) (use j in simp)
  moreover have "(pt_job \<circ> snd) ` set (AList.delete i (wt_timers w)) \<subseteq> (pt_job \<circ> snd) ` set (wt_timers w)"
    by (auto simp: AList.delete_eq)
  ultimately show ?thesis
    by (simp add: timerFires_def Let_def Some startExecution_def clearTimer_def split: option.split timer_job.split)
qed

lemma lost_timerFires:
  assumes "lost e w" shows "lost e (timerFires i w)"
proof (cases "map_of (wt_timers w) i")
  case None
  with assms show ?thesis by (simp add: timerFires_def)
next
  case (Some s)
  have "(i, s) \<in> set (wt_timers w)" using Some by (rule map_of_SomeD)
  then have j: "pt_job s \<noteq> ResumeExecution e" using assms unfolding lost_def by (force intro: rev_image_eqI)
  have "isTracked e (timerFires i w)" "wt_children (timerFires i w) = wt_children w"
    using assms by (simp_all add: lost_def timerFires_def Let_def Some startExecution_def clearTimer_def isTracked_def
        split: option.split timer_job.split)
  moreover have "e \<notin> set (wt_resuming (timerFires i w))"
    using assms j by (auto simp: lost_def timerFires_def Let_def Some startExecution_def clearTimer_def split: option.split timer_job.split)
  ultimately show ?thesis using jobs_timerFires [of i w] assms unfolding lost_def by auto
qed

lemma lost_fewer:
  assumes "lost e w" "isTracked e v" "set (wt_timers v) \<subseteq> set (wt_timers w)" "wt_resuming v = wt_resuming w" "wt_children v = wt_children w"
  shows "lost e v"
  using assms unfolding lost_def by auto

lemma lost_stopTracking:
  assumes "lost e w" shows "lost e (stopTracking w)"
  using assms by (intro lost_fewer [OF assms]) (auto simp: lost_def isTracked_def stopTracking_def clearTimers_timers clearTimer_def
      set_AList_delete split: option.split)

lemma lost_stopExecution:
  assumes "lost e w" "f \<noteq> e" shows "lost e (stopExecution_tracker f w)"
  using assms by (intro lost_fewer [OF assms(1)]) (auto simp: lost_def stopExecution_tracker_def isTracked_def clearTimer_def
      set_AList_delete split: option.split)

lemma lost_startTracking: "lost e w \<Longrightarrow> lost e (startTracking w)"
  by (simp add: lost_def startTracking_def setTimer_def isTracked_def)

lemma lost_event:
  assumes "lost e w" "canHappen ev w" "\<not> concerns e ev" shows "lost e (onWaitEvent ev w)"
proof (cases ev)
  case (DatabaseAnswers rows dbTime)
  have "lost e (fold (scheduleRow dbTime) (newExecutions rows w) w)"
    using assms(1) by (intro lost_scheduleRows) (auto simp: newExecutions_def lost_def)
  then have "lost e (pollEnds (fold (scheduleRow dbTime) (newExecutions rows w) w))" "lost e (pollEnds w)"
    using assms(1) by (simp_all add: lost_def isTracked_def pollEnds_def)
  then show ?thesis by (simp add: DatabaseAnswers pollAnswered_def)
next
  case (ResumeEnds c found outcome)
  then have c: "c \<noteq> e" "resumeOutcome found outcome \<noteq> Inr (Some e)" using assms(3) by simp_all
  then have "e \<notin> snd ` set (wt_children (resumeEnds c (resumeOutcome found outcome) w))"
    using assms(1) by (auto simp: lost_def resumeEnds_def split: sum.split option.split)
  moreover have "e \<notin> set (wt_resuming (resumeEnds c (resumeOutcome found outcome) w))"
    using assms(1) notin_set_remove1 [of e "wt_resuming w" c] by (simp add: lost_def resumeEnds_def)
  ultimately show ?thesis using assms(1) c(1) by (simp add: ResumeEnds lost_def resumeEnds_def isTracked_def)
next
  case (ChildEnds c p results updated)
  then have "p \<noteq> e" using assms(1,2) by (force simp: lost_def)
  moreover have "set (remove1 (c, p) (wt_children w)) \<subseteq> set (wt_children w)" by (rule set_remove1_subset)
  ultimately show ?thesis using assms(1) by (auto simp: ChildEnds lost_def childEnds_def Let_def startExecution_def isTracked_def)
next
  case DatabaseFails
  with assms(1) show ?thesis by (simp add: lost_def isTracked_def pollEnds_def)
next
  case (TimePasses ms)
  with assms(1) show ?thesis by (simp add: lost_def isTracked_def)
qed (use assms in \<open>simp_all add: lost_startTracking init_tracker_def lost_timerFires lost_stopTracking lost_stopExecution\<close>)

lemma lost_tracked: "tracked (\<lambda>ev _. \<not> concerns e ev) w tr v \<Longrightarrow> lost e w \<Longrightarrow> lost e v"
  by (induction rule: tracked.induct) (auto intro: lost_event)

lemma lost_resumptions: "lost e w \<Longrightarrow> resumptions e w = 0"
  by (force simp: lost_def resumptions_def filter_empty_conv)

lemma stepdown_loses:
  assumes "sched_inv w" "wt_mainTimer w \<noteq> None" "isTracked e w" "e \<notin> set (wt_resuming w)" "e \<notin> snd ` set (wt_children w)"
  shows "lost e (stopTracking w)"
proof -
  have te: "timer_entries w" and ti: "timer_ids w" using assms(1) by (simp_all add: sched_inv_def)
  have "pt_job t \<noteq> ResumeExecution e" if t: "(i, t) \<in> set (wt_timers w)" "i \<notin> snd ` set (wt_waitingExecutions w)" for i t
  proof
    assume "pt_job t = ResumeExecution e"
    moreover have "map_of (wt_timers w) i = Some t" using ti t(1) by (simp add: timer_ids_def)
    ultimately have "map_of (wt_waitingExecutions w) e = Some i" using te unfolding timer_entries_def by blast
    then show False using t(2) by (force dest: map_of_SomeD)
  qed
  then have "\<forall>p \<in> set (wt_timers (stopTracking w)). pt_job (snd p) \<noteq> ResumeExecution e"
    using assms(2) by (auto simp: stopTracking_def clearTimers_timers clearTimer_def AList.delete_eq)
  then have "ResumeExecution e \<notin> (pt_job \<circ> snd) ` set (wt_timers (stopTracking w))" by force
  then show ?thesis using assms(3-5) by (simp add: lost_def isTracked_def)
qed

text \<open>An instance that stops tracking because it loses the lead cancels the timers of its waiting executions but keeps their
  entries. As long as nobody stops the execution and no child resumes it, such an execution is never resumed by this instance
  again: whatever happens, also when it takes the lead again and polls find the execution, there is neither a timer nor a
  resumption for it.\<close>
lemma stepdown_strands:
  assumes "tracked undisturbed (newTracker now) tr w" and "wt_mainTimer w \<noteq> None" and "isTracked e w"
    and "e \<notin> set (wt_resuming w)" and "e \<notin> snd ` set (wt_children w)"
    and "tracked (\<lambda>ev _. \<not> concerns e ev) (stopTracking w) tr' v"
  shows "isTracked e v \<and> resumptions e v = 0"
proof -
  have "lost e v" using lost_tracked [OF assms(6)] stepdown_loses [OF tracked_sched_inv [OF assms(1)] assms(2-5)] by blast
  then show ?thesis using lost_resumptions by (simp add: lost_def)
qed

text \<open>The witness: the instance takes the lead again and polls; the execution is waiting in the database, but gets no timer.\<close>

definition exTakeover :: "wait_event list" where
  "exTakeover = [LeaderTakeover, DatabaseAnswers [(''7'', Some 1030)] 1020, TimePasses 6000, TimerDue 2]"

definition exAgain :: "wait_trace \<times> tracker \<Rightarrow> bool \<times> nat option \<times> bool \<times> string list \<times> (string \<times> string) list \<times> nat" where
  "exAgain p = (waitRun (\<lambda>ev _. \<not> concerns ''7'' ev) exTakeover [] (stopTracking (snd p)) \<noteq> None,
     wt_mainTimer (snd p), isTracked ''7'' (snd p), wt_resuming (snd p), wt_children (snd p), resumptions ''7'' (stopTracking (snd p)))"

lemma stepdown_strands_witness:
  "\<exists>tr w tr' v. waitRun undisturbed exTracking [] (newTracker 500) = Some (tr, w) \<and> resumptions ''7'' (stopTracking w) = 0 \<and>
     waitRun (\<lambda>ev _. \<not> concerns ''7'' ev) exTakeover [] (stopTracking w) = Some (tr', v) \<and>
     isTracked ''7'' v \<and> resumptions ''7'' v = 0"
proof -
  have q: "map_option exAgain (waitRun undisturbed exTracking [] (newTracker 500)) = Some (True, Some 0, True, [], [], 0)" by code_simp
  then obtain tr w where r: "waitRun undisturbed exTracking [] (newTracker 500) = Some (tr, w)" by auto
  have h: "waitRun (\<lambda>ev _. \<not> concerns ''7'' ev) exTakeover [] (stopTracking w) \<noteq> None \<and> wt_mainTimer w = Some 0 \<and> isTracked ''7'' w \<and>
      wt_resuming w = [] \<and> wt_children w = [] \<and> resumptions ''7'' (stopTracking w) = 0"
    using q unfolding r exAgain_def option.map snd_conv by (simp only: option.inject prod.inject simp_thms)
  then obtain tr' v where r': "waitRun (\<lambda>ev _. \<not> concerns ''7'' ev) exTakeover [] (stopTracking w) = Some (tr', v)"
    by (metis not_None_eq surj_pair)
  from stepdown_strands [OF waitRun_tracked [OF r tracked.Begin] _ _ _ _ waitRun_tracked [OF r' tracked.Begin]] h
  have "isTracked ''7'' v \<and> resumptions ''7'' v = 0" by simp
  with r r' h show ?thesis by blast
qed

text \<open>
  A poll that is under way when the instance loses the lead sets its timers afterwards: nobody clears them, and the instance
  resumes the execution although it does not lead.
\<close>

lemma poll_after_stepdown:
  "map_option (\<lambda>p. wt_resuming (snd p)) (waitRun (\<lambda>_ _. True)
     [LeaderTakeover, LeaderStepdown, DatabaseAnswers [(''7'', Some 1030)] 1000, TimePasses 30, TimerDue 1] [] (newTracker 500))
   = Some [''7'']"
  by code_simp

text \<open>
  A parent that is started by the end of its child loses its entry at the end of that resumption, while a timer of its own is
  still set; the next poll gives it a second timer.
\<close>

definition exChild :: full_execution where
  "exChild = \<lparr>fe_finished = False, fe_workflowId = Some ''w'', fe_parentExecution = Some \<lparr>re_executionId = ''7'', re_shouldResume = None\<rparr>\<rparr>"

lemma parent_gets_second_timer:
  "map_option (\<lambda>p. resumptions ''7'' (snd p)) (waitRun (\<lambda>_ _. True)
     [LeaderTakeover, DatabaseAnswers [(''8'', Some 1000), (''7'', Some 15000)] 1000, TimerDue 1,
      ResumeEnds ''8'' (Inr (Some exChild)) Resumed, ChildEnds ''8'' ''7'' (Some ''success'') True,
      ResumeEnds ''7'' (Inr (Some (exChild\<lparr>fe_parentExecution := None\<rparr>))) AlreadyResuming,
      TimePasses 5000, TimerDue 0, DatabaseAnswers [(''7'', Some 15000)] 6000] [] (newTracker 500)) = Some 2"
  by code_simp

end
