(* ===== verification/RunnerSupervision.thy ===== *)
theory RunnerSupervision imports Workflow_Types "HOL-Library.Sublist"
begin

text \<open>
  How the server keeps its internal task runner alive (\<open>cli/src/task-runners\<close>): the child process and its restarts
  (\<open>task-runner-process-base.ts\<close>, \<open>task-runner-process-js.ts\<close>), the detector of restart loops, the detector of processes that
  ran out of memory, the sliding window over the exits of the process and the error that a disconnected runner is given.
  Times are milliseconds. The spawned processes, the calls of \<open>start\<close> that wait for the token, and the restarts that \<open>setImmediate\<close>
  holds are part of the state; what is awaited continues with an event of its own, in any order.
\<close>

section \<open>Restart loops\<close>

record loop_detector =
  ld_numRestarts :: nat
  ld_firstRestartedAt :: int

definition MAX_RESTARTS :: nat where
  "MAX_RESTARTS = 5"

definition RESTARTS_WINDOW :: int where
  "RESTARTS_WINDOW = 2 * 1000"

definition newLoopDetector :: "int \<Rightarrow> loop_detector" where
  "newLoopDetector now = \<lparr>ld_numRestarts = 0, ld_firstRestartedAt = now\<rparr>"

definition resetRestarts :: "int \<Rightarrow> loop_detector \<Rightarrow> loop_detector" where
  "resetRestarts now d = d\<lparr>ld_numRestarts := 0, ld_firstRestartedAt := now\<rparr>"

definition increment :: "int \<Rightarrow> loop_detector \<Rightarrow> loop_detector" where
  "increment now d =
     (let d1 = if now > ld_firstRestartedAt d + RESTARTS_WINDOW then resetRestarts now d else d
      in d1\<lparr>ld_numRestarts := Suc (ld_numRestarts d1)\<rparr>)"

definition isMaxCountExceeded :: "loop_detector \<Rightarrow> bool" where
  "isMaxCountExceeded d \<longleftrightarrow> ld_numRestarts d \<ge> MAX_RESTARTS"

definition msSinceFirstIncrement :: "int \<Rightarrow> loop_detector \<Rightarrow> int" where
  "msSinceFirstIncrement now d = now - ld_firstRestartedAt d"

datatype restart_loop_error = TaskRunnerRestartLoopError nat int

definition onExitCounted :: "int \<Rightarrow> loop_detector \<Rightarrow> loop_detector \<times> restart_loop_error option" where
  "onExitCounted now d =
     (let d1 = increment now d
      in (d1, if isMaxCountExceeded d1 then Some (TaskRunnerRestartLoopError (ld_numRestarts d1) (msSinceFirstIncrement now d1)) else None))"

text \<open>The errors the detector emits on a sequence of exits.\<close>

fun detections :: "loop_detector \<Rightarrow> int list \<Rightarrow> restart_loop_error option list" where
  "detections d [] = []"
| "detections d (t # ts) = (let (d1, e) = onExitCounted t d in e # detections d1 ts)"

section \<open>Running out of memory\<close>

record oom_detector =
  od_didProcessOom :: bool

definition onStderr :: "string \<Rightarrow> oom_detector \<Rightarrow> oom_detector" where
  "onStderr data d = (if sublist ''JavaScript heap out of memory'' data then d\<lparr>od_didProcessOom := True\<rparr> else d)"

section \<open>The last exit\<close>

datatype exit_reason = UnknownReason | Oom

record exit_signal =
  sg_lastSignal :: "exit_reason option"
  sg_lastSignalTime :: int
  sg_windowSizeInMs :: int

definition newSignal :: "int option \<Rightarrow> exit_signal" where
  "newSignal windowSize = \<lparr>sg_lastSignal = None, sg_lastSignalTime = 0, sg_windowSizeInMs = orElse windowSize 500\<rparr>"

definition onSignal :: "int \<Rightarrow> exit_reason \<Rightarrow> exit_signal \<Rightarrow> exit_signal" where
  "onSignal now reason s = s\<lparr>sg_lastSignal := Some reason, sg_lastSignalTime := now\<rparr>"

text \<open>
  \<open>getSignal\<close> is called at \<open>now\<close>; \<open>upcoming\<close> is the next exit after the call, if there is one, with its time. The timer is set
  without a delay, which is one millisecond.
\<close>

definition getSignal :: "int \<Rightarrow> (int \<times> exit_reason) option \<Rightarrow> exit_signal \<Rightarrow> exit_reason option" where
  "getSignal now upcoming s =
     (let timeSinceLastEvent = now - sg_lastSignalTime s
      in if timeSinceLastEvent \<le> sg_windowSizeInMs s then sg_lastSignal s
         else (case upcoming of None \<Rightarrow> None | Some (t, reason) \<Rightarrow> if t \<le> now + 1 then Some reason else None))"

datatype runner_mode = Internal | External

datatype disconnect_error =
    TaskRunnerOomError string bool
  | TaskRunnerFailedHeartbeatError nat bool
  | TaskRunnerDisconnectedError string bool

datatype disconnect_reason = ShuttingDown | FailedHeartbeatCheck | UnknownDisconnect

record disconnect_opts =
  do_runnerId :: "string option"
  do_reason :: "disconnect_reason option"
  do_heartbeatInterval :: "nat option"

definition toDisconnectErrorDefault :: "bool \<Rightarrow> disconnect_opts \<Rightarrow> disconnect_error" where
  "toDisconnectErrorDefault cloud opts =
     (case do_heartbeatInterval opts of
        Some interval \<Rightarrow> if do_reason opts = Some FailedHeartbeatCheck \<and> interval \<noteq> 0
          then TaskRunnerFailedHeartbeatError interval (\<not> cloud)
          else TaskRunnerDisconnectedError (orElse (do_runnerId opts) ''Unknown runner ID'') cloud
      | None \<Rightarrow> TaskRunnerDisconnectedError (orElse (do_runnerId opts) ''Unknown runner ID'') cloud)"

definition awaitExitSignal :: "runner_mode \<Rightarrow> int \<Rightarrow> (int \<times> exit_reason) option \<Rightarrow> exit_signal \<Rightarrow> exit_reason" where
  "awaitExitSignal mode now upcoming s = (if mode = External then UnknownReason else orElse (getSignal now upcoming s) UnknownReason)"

definition toDisconnectError ::
  "runner_mode \<Rightarrow> bool \<Rightarrow> int \<Rightarrow> (int \<times> exit_reason) option \<Rightarrow> exit_signal \<Rightarrow> disconnect_opts \<Rightarrow> disconnect_error" where
  "toDisconnectError mode cloud now upcoming s opts =
     (if awaitExitSignal mode now upcoming s = Oom then TaskRunnerOomError (orElse (do_runnerId opts) ''Unknown runner ID'') cloud
      else toDisconnectErrorDefault cloud opts)"

section \<open>The process\<close>

record supervisor =
  sv_now :: int
  sv_process :: "nat option"
  sv_isShuttingDown :: bool
  sv_oomDetector :: "oom_detector option"
  sv_loop :: loop_detector
  sv_signal :: exit_signal
  sv_emitted :: "restart_loop_error list"
  sv_children :: "nat list"
  sv_spawned :: nat
  sv_starting :: nat
  sv_restarts :: nat
  sv_stopping :: "nat list"
  sv_kills :: "(nat \<times> string) list"

definition newSupervisor :: "int \<Rightarrow> supervisor" where
  "newSupervisor now = \<lparr>sv_now = now, sv_process = None, sv_isShuttingDown = False, sv_oomDetector = None, sv_loop = newLoopDetector now,
     sv_signal = newSignal (Some 500), sv_emitted = [], sv_children = [], sv_spawned = 0, sv_starting = 0, sv_restarts = 0,
     sv_stopping = [], sv_kills = []\<rparr>"

text \<open>
  \<open>start\<close> up to its first await, and from the spawning of the process on. A failed assertion rejects the promise.
  The signals sent to children are recorded; when a child exits is up to it.
\<close>

definition startRunner :: "supervisor \<Rightarrow> supervisor result" where
  "startRunner s = assert_ok (sv_process s = None) (s\<lparr>sv_starting := Suc (sv_starting s)\<rparr>)"

definition monitorProcess :: "nat \<Rightarrow> supervisor \<Rightarrow> supervisor" where
  "monitorProcess c s = s\<lparr>sv_oomDetector := Some \<lparr>od_didProcessOom = False\<rparr>\<rparr>"

definition processSpawned :: "supervisor \<Rightarrow> supervisor" where
  "processSpawned s = monitorProcess (sv_spawned s)
     (s\<lparr>sv_starting := sv_starting s - 1, sv_spawned := Suc (sv_spawned s), sv_children := sv_spawned s # sv_children s,
        sv_process := Some (sv_spawned s)\<rparr>)"

definition stopRunnerProcess :: "supervisor \<Rightarrow> supervisor" where
  "stopRunnerProcess s = (case sv_process s of None \<Rightarrow> s
     | Some c \<Rightarrow> s\<lparr>sv_isShuttingDown := True, sv_kills := (c, ''SIGTERM'') # sv_kills s, sv_stopping := c # sv_stopping s\<rparr>)"

definition forceRestart :: "supervisor \<Rightarrow> supervisor" where
  "forceRestart s = (case sv_process s of None \<Rightarrow> s | Some c \<Rightarrow> s\<lparr>sv_kills := (c, ''SIGKILL'') # sv_kills s\<rparr>)"

definition analyzeExitReason :: "supervisor \<Rightarrow> exit_reason" where
  "analyzeExitReason s = (case sv_oomDetector s of None \<Rightarrow> UnknownReason | Some d \<Rightarrow> if od_didProcessOom d then Oom else UnknownReason)"

text \<open>The listeners of the event \<open>exit\<close>: the loop detector and the sliding window.\<close>

definition emitExit :: "exit_reason \<Rightarrow> supervisor \<Rightarrow> supervisor" where
  "emitExit reason s =
     (let (d, e) = onExitCounted (sv_now s) (sv_loop s)
      in s\<lparr>sv_loop := d, sv_emitted := sv_emitted s @ (case e of None \<Rightarrow> [] | Some err \<Rightarrow> [err]),
           sv_signal := onSignal (sv_now s) reason (sv_signal s)\<rparr>)"

definition onProcessExit :: "supervisor \<Rightarrow> supervisor" where
  "onProcessExit s =
     (let s1 = emitExit (analyzeExitReason s) (s\<lparr>sv_process := None\<rparr>)
      in if sv_isShuttingDown s1 then s1 else s1\<lparr>sv_restarts := Suc (sv_restarts s1)\<rparr>)"

text \<open>The exit of a child: its handler, and the calls of \<open>stop\<close> that wait for it, which continue right after the handler.\<close>

definition childExits :: "nat \<Rightarrow> supervisor \<Rightarrow> supervisor" where
  "childExits c s =
     (let s1 = onProcessExit (s\<lparr>sv_children := remove1 c (sv_children s)\<rparr>)
      in if c \<in> set (sv_stopping s1) then s1\<lparr>sv_isShuttingDown := False, sv_stopping := removeAll c (sv_stopping s1)\<rparr> else s1)"

definition restartDue :: "supervisor \<Rightarrow> supervisor" where
  "restartDue s = (let s1 = s\<lparr>sv_restarts := sv_restarts s - 1\<rparr> in case startRunner s1 of Inl e \<Rightarrow> s1 | Inr s2 \<Rightarrow> s2)"

datatype supervision_event =
    StartCalled
  | Spawned
  | SpawnFails
  | StopRequested
  | RunnerUnresponsive
  | ChildExits nat
  | RestartDue
  | StderrData string
  | Elapsed nat

fun onSupervision :: "supervision_event \<Rightarrow> supervisor \<Rightarrow> supervisor" where
  "onSupervision StartCalled s = (case startRunner s of Inl e \<Rightarrow> s | Inr s1 \<Rightarrow> s1)"
| "onSupervision Spawned s = processSpawned s"
| "onSupervision SpawnFails s = s\<lparr>sv_starting := sv_starting s - 1\<rparr>"
| "onSupervision StopRequested s = stopRunnerProcess s"
| "onSupervision RunnerUnresponsive s = forceRestart s"
| "onSupervision (ChildExits c) s = childExits c s"
| "onSupervision RestartDue s = restartDue s"
| "onSupervision (StderrData chunk) s = s\<lparr>sv_oomDetector := map_option (onStderr chunk) (sv_oomDetector s)\<rparr>"
| "onSupervision (Elapsed ms) s = s\<lparr>sv_now := sv_now s + int ms\<rparr>"

fun supervisionCan :: "supervision_event \<Rightarrow> supervisor \<Rightarrow> bool" where
  "supervisionCan Spawned s = (0 < sv_starting s)"
| "supervisionCan SpawnFails s = (0 < sv_starting s)"
| "supervisionCan (ChildExits c) s = (c \<in> set (sv_children s))"
| "supervisionCan RestartDue s = (0 < sv_restarts s)"
| "supervisionCan (StderrData chunk) s = (sv_children s \<noteq> [])"
| "supervisionCan _ s = True"

text \<open>A run, given by its events.\<close>

fun supervised :: "supervision_event list \<Rightarrow> supervisor \<Rightarrow> supervisor option" where
  "supervised [] s = Some s"
| "supervised (ev # evs) s = (if supervisionCan ev s then supervised evs (onSupervision ev s) else None)"

section \<open>The detector is sound and complete\<close>

lemma detections_window:
  assumes "\<forall>x \<in> set ts. x \<le> ld_firstRestartedAt d + RESTARTS_WINDOW" "ld_numRestarts d + length ts \<ge> MAX_RESTARTS" "ts \<noteq> []"
  shows "\<exists>e. Some e \<in> set (detections d ts)"
  using assms
proof (induction ts arbitrary: d)
  case (Cons t ts)
  have inc: "increment t d = d\<lparr>ld_numRestarts := Suc (ld_numRestarts d)\<rparr>" using Cons.prems(1) by (simp add: increment_def)
  show ?case
  proof (cases "Suc (ld_numRestarts d) \<ge> MAX_RESTARTS")
    case True
    then show ?thesis by (auto simp: onExitCounted_def Let_def inc isMaxCountExceeded_def)
  next
    case False
    then have "ts \<noteq> []" using Cons.prems(2) by auto
    then show ?thesis using Cons.IH [of "increment t d"] Cons.prems(1,2) by (auto simp: onExitCounted_def Let_def inc)
  qed
qed simp

lemma detections_complete:
  assumes "\<forall>x \<in> set ts. \<forall>y \<in> set ts. y \<le> x + RESTARTS_WINDOW" "length ts \<ge> MAX_RESTARTS"
    "ld_numRestarts d + length ts \<ge> 2 * MAX_RESTARTS - 1"
  shows "\<exists>e. Some e \<in> set (detections d ts)"
  using assms
proof (induction ts arbitrary: d)
  case Nil
  then show ?case by (simp add: MAX_RESTARTS_def)
next
  case (Cons t ts)
  show ?case
  proof (cases "t > ld_firstRestartedAt d + RESTARTS_WINDOW")
    case True
    then have inc: "increment t d = \<lparr>ld_numRestarts = 1, ld_firstRestartedAt = t\<rparr>" by (simp add: increment_def resetRestarts_def)
    have "\<exists>e. Some e \<in> set (detections (increment t d) ts)"
      by (rule detections_window) (use Cons.prems in \<open>auto simp: inc MAX_RESTARTS_def\<close>)
    then show ?thesis by (auto simp: onExitCounted_def Let_def)
  next
    case False
    then have inc: "increment t d = d\<lparr>ld_numRestarts := Suc (ld_numRestarts d)\<rparr>" by (simp add: increment_def)
    show ?thesis
    proof (cases "Suc (ld_numRestarts d) \<ge> MAX_RESTARTS")
      case True
      then show ?thesis by (auto simp: onExitCounted_def Let_def inc isMaxCountExceeded_def)
    next
      case False
      have "\<exists>e. Some e \<in> set (detections (increment t d) ts)"
        by (rule Cons.IH) (use Cons.prems False in \<open>auto simp: inc MAX_RESTARTS_def\<close>)
      then show ?thesis by (auto simp: onExitCounted_def Let_def)
    qed
  qed
qed

lemma detections_append:
  "detections d (xs @ ys) = detections d xs @ detections (fold increment xs d) ys"
  by (induction xs arbitrary: d) (auto simp: onExitCounted_def Let_def)

lemma length_detections [simp]: "length (detections d ts) = length ts"
  by (induction ts arbitrary: d) (auto simp: onExitCounted_def Let_def)

lemma detections_nth:
  assumes "j < length ts"
  shows "detections d ts ! j = (let d' = fold increment (take (Suc j) ts) d in
    if isMaxCountExceeded d' then Some (TaskRunnerRestartLoopError (ld_numRestarts d') (msSinceFirstIncrement (ts ! j) d')) else None)"
  using assms
proof (induction ts arbitrary: d j)
  case (Cons t ts)
  then show ?case by (cases j) (simp_all add: onExitCounted_def Let_def)
qed simp

text \<open>The exits the detector has counted are the last ones, and lie in the window that begins at its first restart.\<close>

lemma counted_exits:
  assumes "sorted (t0 # ts)"
  defines "d \<equiv> fold increment ts (newLoopDetector t0)"
  shows "ld_numRestarts d \<le> length ts \<and> ld_firstRestartedAt d \<in> set (t0 # ts) \<and>
    (\<forall>x \<in> set (drop (length ts - ld_numRestarts d) ts). ld_firstRestartedAt d \<le> x \<and> x \<le> ld_firstRestartedAt d + RESTARTS_WINDOW)"
  using assms(1) unfolding d_def
proof (induction ts rule: rev_induct)
  case Nil
  then show ?case by (simp add: newLoopDetector_def)
next
  case (snoc t ts)
  define d where "d = fold increment ts (newLoopDetector t0)"
  have s: "sorted (t0 # ts)" "\<forall>x \<in> set (t0 # ts). x \<le> t" using snoc.prems by (auto simp: sorted_append)
  note IH = snoc.IH [OF s(1), folded d_def]
  have f: "fold increment (ts @ [t]) (newLoopDetector t0) = increment t d" by (simp add: d_def)
  show ?case
  proof (cases "t > ld_firstRestartedAt d + RESTARTS_WINDOW")
    case True
    then have "increment t d = \<lparr>ld_numRestarts = 1, ld_firstRestartedAt = t\<rparr>" by (simp add: increment_def resetRestarts_def)
    then show ?thesis unfolding f by (simp add: RESTARTS_WINDOW_def)
  next
    case False
    then have inc: "increment t d = d\<lparr>ld_numRestarts := Suc (ld_numRestarts d)\<rparr>" by (simp add: increment_def)
    have first: "ld_firstRestartedAt d \<le> t" using IH s(2) by blast
    have "drop (length (ts @ [t]) - Suc (ld_numRestarts d)) (ts @ [t]) = drop (length ts - ld_numRestarts d) ts @ [t]" by simp
    then show ?thesis unfolding f inc using IH first False by auto
  qed
qed

text \<open>C21: When the detector reports a restart loop of \<open>n\<close> restarts, there have been at least five, they are the last \<open>n\<close> exits of
  the process, and they all lie within two seconds.\<close>
theorem restart_loop_sound:
  assumes "sorted (t0 # ts)" and "j < length ts"
    and "detections (newLoopDetector t0) ts ! j = Some (TaskRunnerRestartLoopError n ms)"
  shows "5 \<le> n \<and> n \<le> Suc j \<and> ts ! j - ts ! (Suc j - n) \<le> ms \<and> ms \<le> 2000"
proof -
  let ?us = "take (Suc j) ts"
  define d where "d = fold increment ?us (newLoopDetector t0)"
  have d: "isMaxCountExceeded d" "n = ld_numRestarts d" "ms = ts ! j - ld_firstRestartedAt d"
    using assms(3) unfolding detections_nth [OF assms(2)] by (simp_all add: Let_def msSinceFirstIncrement_def split: if_splits flip: d_def)
  have n: "5 \<le> n" using d(1,2) by (simp add: isMaxCountExceeded_def MAX_RESTARTS_def)
  have "sorted (t0 # ?us)" using assms(1) sorted_wrt_take [of "(\<le>)" ts "Suc j"] by (auto dest: in_set_takeD)
  note C = counted_exits [OF this, folded d_def, folded d(2)]
  have len: "length ?us = Suc j" using assms(2) by simp
  have n': "n \<le> Suc j" using C len by simp
  have l: "?us ! j = ts ! j" "?us ! (Suc j - n) = ts ! (Suc j - n)" using n n' assms(2) by simp_all
  have dr: "drop (Suc j - n) ?us ! 0 = ts ! (Suc j - n)" "drop (Suc j - n) ?us ! (n - 1) = ts ! j" "length (drop (Suc j - n) ?us) = n"
    using n n' len l assms(2) by (simp_all add: nth_drop)
  then have "ts ! (Suc j - n) \<in> set (drop (Suc j - n) ?us)" "ts ! j \<in> set (drop (Suc j - n) ?us)"
    using n nth_mem [of 0 "drop (Suc j - n) ?us"] nth_mem [of "n - 1" "drop (Suc j - n) ?us"] by simp_all
  then have "ld_firstRestartedAt d \<le> ts ! (Suc j - n)" "ts ! j \<le> ld_firstRestartedAt d + RESTARTS_WINDOW" using C len by simp_all
  with n n' d(3) show ?thesis by (simp add: RESTARTS_WINDOW_def)
qed

lemma restart_loop_sound_witness:
  "detections (newLoopDetector 0) [5000, 5300, 5600, 5900, 6200] ! 4 = Some (TaskRunnerRestartLoopError 5 1200) \<and>
   (6200::int) - 5000 \<le> 1200"
proof -
  have "detections (newLoopDetector 0) [5000, 5300, 5600, 5900, 6200] ! 4 = Some (TaskRunnerRestartLoopError 5 1200)" by code_simp
  from restart_loop_sound [OF _ _ this] this show ?thesis by simp
qed

text \<open>C22: The detector misses no loop of nine restarts: when nine exits in a row lie within two seconds, it reports a loop at one
  of them, whatever happened before.\<close>
theorem restart_loop_complete:
  assumes "sorted ts" and "i + 9 \<le> length ts" and "ts ! (i + 8) - ts ! i \<le> 2000"
  shows "\<exists>j. i \<le> j \<and> j \<le> i + 8 \<and> detections d ts ! j \<noteq> None"
proof -
  define w where "w = take 9 (drop i ts)"
  have "ts = take i ts @ take 9 (drop i ts) @ drop 9 (drop i ts)" by (simp only: append_take_drop_id)
  then have ts: "ts = take i ts @ w @ drop (i + 9) ts" unfolding w_def drop_drop add.commute [of 9 i] .
  have len: "length w = 9" using assms(2) by (simp add: w_def)
  have nth: "w ! k = ts ! (i + k)" if "k < 9" for k using that assms(2) by (simp add: w_def)
  have bounds: "ts ! i \<le> x \<and> x \<le> ts ! (i + 8)" if "x \<in> set w" for x
  proof -
    obtain k where "k < length w" "w ! k = x" using \<open>x \<in> set w\<close> by (auto simp: in_set_conv_nth)
    then have k: "k < 9" "x = ts ! (i + k)" using len nth [of k] by simp_all
    have "ts ! i \<le> ts ! (i + k)" by (rule sorted_nth_mono [OF assms(1)]) (use k(1) assms(2) in simp_all)
    moreover have "ts ! (i + k) \<le> ts ! (i + 8)" by (rule sorted_nth_mono [OF assms(1)]) (use k(1) assms(2) in simp_all)
    ultimately show ?thesis using k(2) by simp
  qed
  let ?d = "fold increment (take i ts) d"
  have "y \<le> x + RESTARTS_WINDOW" if "x \<in> set w" "y \<in> set w" for x y
    using bounds [OF that(1)] bounds [OF that(2)] assms(3) by (simp add: RESTARTS_WINDOW_def)
  then have "\<exists>e. Some e \<in> set (detections ?d w)"
    by (intro detections_complete) (simp_all add: len MAX_RESTARTS_def)
  then obtain e where "Some e \<in> set (detections ?d w)" by blast
  then obtain k where k: "k < 9" "detections ?d w ! k = Some e" by (auto simp: in_set_conv_nth len)
  have "detections d ts = detections d (take i ts) @ detections ?d w @ detections (fold increment w ?d) (drop (i + 9) ts)"
    by (subst ts) (simp only: detections_append)
  moreover have "length (take i ts) = i" using assms(2) by simp
  ultimately have "detections d ts ! (i + k) = Some e" using k len by (simp add: nth_append)
  with k(1) show ?thesis by (intro exI [of _ "i + k"]) simp
qed

lemma restart_loop_complete_witness:
  "\<exists>j. 1 \<le> j \<and> j \<le> 9 \<and> detections (newLoopDetector 0) [0, 1900, 2000, 2100, 2200, 2300, 2400, 2500, 2600, 2700] ! j \<noteq> None"
  using restart_loop_complete [of "[0, 1900, 2000, 2100, 2200, 2300, 2400, 2500, 2600, 2700]" 1 "newLoopDetector 0"] by simp

text \<open>
  Eight are not enough, although five within two seconds are meant to be a loop: the window does not slide, and a new one
  begins with the first exit after its end. Nor is the first window the one of a restart: it begins with the server.
\<close>

lemma eight_restarts_missed:
  "detections (newLoopDetector 0) [1900, 1920, 1940, 1960, 2001, 2020, 2040, 2060] = replicate 8 None"
  by code_simp

section \<open>One process\<close>

definition one_inv :: "supervisor \<Rightarrow> bool" where
  "one_inv s \<longleftrightarrow> (case sv_process s of None \<Rightarrow> sv_children s = [] \<and> sv_starting s + sv_restarts s \<le> 1
     | Some c \<Rightarrow> sv_children s = [c] \<and> sv_starting s = 0 \<and> sv_restarts s = 0)"

lemma emitExit_keeps [simp]:
  "sv_children (emitExit r s) = sv_children s" "sv_starting (emitExit r s) = sv_starting s" "sv_restarts (emitExit r s) = sv_restarts s"
  "sv_process (emitExit r s) = sv_process s" "sv_isShuttingDown (emitExit r s) = sv_isShuttingDown s" "sv_stopping (emitExit r s) = sv_stopping s"
  by (simp_all add: emitExit_def split: prod.split)

lemma childExits_fields:
  "sv_children (childExits c s) = remove1 c (sv_children s)" "sv_starting (childExits c s) = sv_starting s" "sv_process (childExits c s) = None"
  "sv_restarts (childExits c s) = (if sv_isShuttingDown s then sv_restarts s else Suc (sv_restarts s))"
  by (simp_all add: childExits_def onProcessExit_def Let_def)

lemma one_inv_event:
  assumes "one_inv s" "supervisionCan ev s" "ev \<noteq> StartCalled" shows "one_inv (onSupervision ev s)"
proof (cases ev)
  case Spawned
  then have s: "sv_starting s = 1" "sv_children s = []" "sv_restarts s = 0" using assms by (auto simp: one_inv_def split: option.splits)
  then show ?thesis by (simp add: Spawned one_inv_def processSpawned_def monitorProcess_def)
next
  case (ChildExits c)
  then have "sv_children s = [c]" "sv_starting s = 0" "sv_restarts s = 0" using assms by (auto simp: one_inv_def split: option.splits)
  then show ?thesis by (simp add: ChildExits one_inv_def childExits_fields)
next
  case RestartDue
  then have "sv_restarts s = 1" "sv_children s = []" "sv_starting s = 0" "sv_process s = None"
    using assms by (auto simp: one_inv_def split: option.splits)
  then show ?thesis by (simp add: RestartDue one_inv_def restartDue_def startRunner_def)
qed (use assms in \<open>auto simp: one_inv_def stopRunnerProcess_def forceRestart_def split: option.splits\<close>)

lemma supervised_one_inv: "supervised evs s = Some v \<Longrightarrow> StartCalled \<notin> set evs \<Longrightarrow> one_inv s \<Longrightarrow> one_inv v"
  by (induction evs arbitrary: s) (auto split: if_splits intro: one_inv_event)

lemma one_inv_start: "one_inv (onSupervision StartCalled (newSupervisor now))"
  by (simp add: startRunner_def newSupervisor_def one_inv_def)

lemma supervised_started:
  assumes "supervised (StartCalled # evs) (newSupervisor now) = Some s" "StartCalled \<notin> set evs" shows "one_inv s"
proof -
  have "supervised evs (onSupervision StartCalled (newSupervisor now)) = Some s" using assms(1) by simp
  then show ?thesis using supervised_one_inv assms(2) one_inv_start by blast
qed

text \<open>C19: When the server calls \<open>start\<close> once, then in whatever order spawning, exits, restarts and stops follow, there is never
  more than one of a running process, a start under way and a restart to come, and the process that runs is the one the
  supervisor holds, so that a stop reaches it.\<close>
theorem one_process:
  assumes "supervised (StartCalled # evs) (newSupervisor now) = Some s" and "StartCalled \<notin> set evs"
  shows "length (sv_children s) + sv_starting s + sv_restarts s \<le> 1 \<and>
    sv_children s = (case sv_process s of None \<Rightarrow> [] | Some c \<Rightarrow> [c])"
  using supervised_started [OF assms] by (auto simp: one_inv_def split: option.splits)

definition exRestarted :: "supervision_event list" where
  "exRestarted = [Spawned, Elapsed 700, ChildExits 0, RestartDue, Spawned]"

lemma one_process_witness:
  "\<exists>s. supervised (StartCalled # exRestarted) (newSupervisor 0) = Some s \<and> length (sv_children s) + sv_starting s + sv_restarts s \<le> 1"
proof -
  have "supervised (StartCalled # exRestarted) (newSupervisor 0) \<noteq> None" "StartCalled \<notin> set exRestarted" by code_simp+
  then show ?thesis using one_process by blast
qed

text \<open>
  The assertion at the beginning of \<open>start\<close> does not see a start that waits for its token: two calls in a row make two processes,
  and the first of them is lost.
\<close>

lemma two_starts_two_processes:
  "map_option (\<lambda>s. (sv_children s, sv_process s)) (supervised [StartCalled, StartCalled, Spawned, Spawned] (newSupervisor 0))
   = Some ([1, 0], Some 1)"
  by code_simp

section \<open>Stopping\<close>

definition stopping_inv :: "nat \<Rightarrow> supervisor \<Rightarrow> bool" where
  "stopping_inv c s \<longleftrightarrow> sv_children s = [c] \<and> sv_process s = Some c \<and> sv_isShuttingDown s \<and> sv_starting s = 0 \<and> sv_restarts s = 0"

definition stopped_inv :: "supervisor \<Rightarrow> bool" where
  "stopped_inv s \<longleftrightarrow> sv_children s = [] \<and> sv_process s = None \<and> sv_starting s = 0 \<and> sv_restarts s = 0"

lemma stopping_event:
  assumes "stopping_inv c s" "supervisionCan ev s" "ev \<noteq> StartCalled"
  shows "if ev = ChildExits c then stopped_inv (onSupervision ev s) else stopping_inv c (onSupervision ev s)"
  using assms by (cases ev) (auto simp: stopping_inv_def stopped_inv_def childExits_fields stopRunnerProcess_def forceRestart_def)

lemma stopped_event:
  assumes "stopped_inv s" "supervisionCan ev s" "ev \<noteq> StartCalled"
  shows "stopped_inv (onSupervision ev s)"
  using assms by (cases ev) (auto simp: stopped_inv_def stopRunnerProcess_def forceRestart_def)

lemma supervised_stopped: "supervised evs s = Some v \<Longrightarrow> StartCalled \<notin> set evs \<Longrightarrow> stopped_inv s \<Longrightarrow> stopped_inv v"
  by (induction evs arbitrary: s) (auto split: if_splits intro: stopped_event)

lemma supervised_stopping:
  "supervised evs s = Some v \<Longrightarrow> StartCalled \<notin> set evs \<Longrightarrow> stopping_inv c s \<Longrightarrow>
    if ChildExits c \<in> set evs then stopped_inv v else stopping_inv c v"
proof (induction evs arbitrary: s)
  case (Cons ev evs)
  have r: "supervised evs (onSupervision ev s) = Some v" "supervisionCan ev s" using Cons.prems(1) by (auto split: if_splits)
  have n: "ev \<noteq> StartCalled" "StartCalled \<notin> set evs" using Cons.prems(2) by auto
  note st = stopping_event [OF Cons.prems(3) r(2) n(1)]
  show ?case
  proof (cases "ev = ChildExits c")
    case True
    with st supervised_stopped [OF r(1) n(2)] show ?thesis by simp
  next
    case False
    with st Cons.IH [OF r(1) n(2)] show ?thesis by simp
  qed
qed simp

text \<open>C20: A stop is final while the process runs: from then on, until \<open>start\<close> is called again, no process is spawned and no restart
  is scheduled, and after the exit of the process none is left, however the exit, further stops and forced restarts interleave.\<close>
theorem stop_is_final:
  assumes "supervised (StartCalled # evs) (newSupervisor now) = Some s" and "StartCalled \<notin> set evs" and "sv_process s = Some c"
    and "supervised (StopRequested # evs') s = Some v" and "StartCalled \<notin> set evs'"
  shows "sv_children v = (if ChildExits c \<in> set evs' then [] else [c]) \<and> sv_starting v = 0 \<and> sv_restarts v = 0"
proof -
  have "one_inv s" by (rule supervised_started [OF assms(1,2)])
  then have "stopping_inv c (stopRunnerProcess s)" using assms(3) by (simp add: one_inv_def stopping_inv_def stopRunnerProcess_def)
  with supervised_stopping [of evs' "stopRunnerProcess s" v c] assms(4,5) show ?thesis
    by (auto simp: stopped_inv_def stopping_inv_def split: if_splits)
qed

lemma stop_is_final_witness:
  "\<exists>s v. supervised (StartCalled # exRestarted) (newSupervisor 0) = Some s \<and>
     supervised [StopRequested, ChildExits 1] s = Some v \<and> sv_children v = [] \<and> sv_restarts v = 0"
proof -
  have "map_option (\<lambda>s. (sv_process s, map_option sv_now (supervised [StopRequested, ChildExits 1] s)))
      (supervised (StartCalled # exRestarted) (newSupervisor 0)) = Some (Some 1, Some 700)" by code_simp
  then obtain s where s: "supervised (StartCalled # exRestarted) (newSupervisor 0) = Some s" "sv_process s = Some 1"
      "map_option sv_now (supervised [StopRequested, ChildExits 1] s) = Some 700"
    by (auto simp del: supervised.simps)
  then obtain v where v: "supervised [StopRequested, ChildExits 1] s = Some v" by (auto simp del: supervised.simps)
  have "StartCalled \<notin> set exRestarted" "StartCalled \<notin> set [ChildExits 1]" by code_simp+
  from stop_is_final [OF s(1) this(1) s(2) v this(2)] s(1) v show ?thesis by auto
qed

text \<open>A stop between the exit of a process and its restart does nothing: the process is started after it.\<close>

lemma stop_misses_restart:
  "map_option sv_children (supervised [StartCalled, Spawned, ChildExits 0, StopRequested, RestartDue, Spawned] (newSupervisor 0)) = Some [1]"
  by code_simp

section \<open>Diagnosis\<close>

text \<open>
  The error of a disconnected runner: out of memory exactly if the runner is internal and its last exit, at most 500 ms before
  the call or one millisecond after it, had that reason.
\<close>

lemma toDisconnectError_oom:
  "(\<exists>r b. toDisconnectError mode cloud now upcoming s opts = TaskRunnerOomError r b) \<longleftrightarrow> mode = Internal \<and>
     (if now - sg_lastSignalTime s \<le> sg_windowSizeInMs s then sg_lastSignal s = Some Oom
      else \<exists>t \<le> now + 1. upcoming = Some (t, Oom))"
  by (cases mode) (auto simp: toDisconnectError_def toDisconnectErrorDefault_def awaitExitSignal_def getSignal_def Let_def orElse_def
      split: option.splits if_splits)

text \<open>The class is documented to wait as long as its window for the exit; it waits for the time of a timer without a delay.\<close>

lemma signal_not_awaited:
  "getSignal 10000 (Some (10002, Oom)) (newSignal (Some 500)) = None"
  by code_simp

text \<open>The message of Node.js is looked for in each chunk of the output alone.\<close>

lemma split_message_missed:
  "od_didProcessOom (fold onStderr [''FATAL ERROR: JavaScript heap'', '' out of memory''] \<lparr>od_didProcessOom = False\<rparr>) = False"
  by code_simp

lemma oom_detected_iff:
  "od_didProcessOom (fold onStderr chunks d) \<longleftrightarrow> od_didProcessOom d \<or> (\<exists>c \<in> set chunks. sublist ''JavaScript heap out of memory'' c)"
  by (induction chunks arbitrary: d) (auto simp: onStderr_def)

end
