(* ===== verification/RunnerConnections.thy ===== *)
theory RunnerConnections imports TaskBroker RunnerSupervision
begin

text \<open>
  The server that holds the connections of the task runners (\<open>cli/src/task-runners/task-broker/task-broker-ws-server.ts\<close>), on top of
  the broker of the theory \<open>TaskBroker\<close>. A connection is an object in a list, referred to by its position; the listeners of a
  connection carry the flag \<open>isConnected\<close>. Removing a connection waits for the diagnosis of the disconnect, so a removal under way is
  part of the state, with what is to follow it.
\<close>

section \<open>State\<close>

record connection =
  cc_id :: string
  cc_isAlive :: bool
  cc_isConnected :: bool
  cc_listening :: bool
  cc_closed :: "nat option"

record removal =
  rm_id :: string
  rm_connection :: nat
  rm_reason :: disconnect_reason
  rm_code :: nat
  rm_then :: "nat option"

record ws_server =
  ws_connections :: "connection list"
  ws_runnerConnections :: "(string \<times> nat) list"
  ws_broker :: broker
  ws_removals :: "removal list"
  ws_heartbeat :: bool

definition newServer :: "broker \<Rightarrow> ws_server" where
  "newServer b = \<lparr>ws_connections = [], ws_runnerConnections = [], ws_broker = b, ws_removals = [], ws_heartbeat = False\<rparr>"

definition startServer :: "int \<Rightarrow> ws_server \<Rightarrow> ws_server result" where
  "startServer heartbeatInterval s =
     (if heartbeatInterval \<le> 0 then Inl (UserError ''Heartbeat interval must be greater than 0'') else Inr (s\<lparr>ws_heartbeat := True\<rparr>))"

definition putConnection :: "nat \<Rightarrow> connection \<Rightarrow> ws_server \<Rightarrow> ws_server" where
  "putConnection k c s = s\<lparr>ws_connections := (ws_connections s)[k := c]\<rparr>"

section \<open>Connections come and go\<close>

text \<open>The status codes of \<open>WsStatusCodes\<close>.\<close>

definition CloseNormal :: nat where "CloseNormal = 1000"
definition CloseGoingAway :: nat where "CloseGoingAway = 1001"
definition CloseProtocolError :: nat where "CloseProtocolError = 1002"

text \<open>What a runner's first \<open>runner:info\<close> does once an older connection of the same runner is removed.\<close>

definition connected :: "nat \<Rightarrow> ws_server \<Rightarrow> ws_server \<times> sent list" where
  "connected k s =
     (let c = ws_connections s ! k;
          s = (putConnection k (c\<lparr>cc_isConnected := True\<rparr>) s)\<lparr>ws_runnerConnections := AList.update (cc_id c) k (ws_runnerConnections s)\<rparr>;
          (b, out) = registerRunner (cc_id c) (ws_broker s)
      in (s\<lparr>ws_broker := b\<rparr>, out))"

definition continueWith :: "nat option \<Rightarrow> ws_server \<Rightarrow> ws_server \<times> sent list" where
  "continueWith follow s = (case follow of None \<Rightarrow> (s, []) | Some k \<Rightarrow> connected k s)"

text \<open>\<open>removeConnection\<close> up to the wait for the diagnosis; without a connection it is over at once.\<close>

definition removeConnection :: "string \<Rightarrow> disconnect_reason \<Rightarrow> nat \<Rightarrow> nat option \<Rightarrow> ws_server \<Rightarrow> ws_server \<times> sent list" where
  "removeConnection r reason code follow s = (case map_of (ws_runnerConnections s) r of
       None \<Rightarrow> continueWith follow s
     | Some k \<Rightarrow> (s\<lparr>ws_removals := ws_removals s @ [\<lparr>rm_id = r, rm_connection = k, rm_reason = reason, rm_code = code, rm_then = follow\<rparr>]\<rparr>, []))"

definition closeConnection :: "nat \<Rightarrow> nat \<Rightarrow> ws_server \<Rightarrow> ws_server" where
  "closeConnection k code s = putConnection k ((ws_connections s ! k)\<lparr>cc_closed := Some code\<rparr>) s"

text \<open>The rest of a removal, the \<open>i\<close>-th of those under way.\<close>

definition removalProceeds :: "nat \<Rightarrow> ws_server \<Rightarrow> ws_server \<times> sent list" where
  "removalProceeds i s =
     (let rm = ws_removals s ! i;
          (b, out) = deregisterRunner (rm_id rm) (ws_broker s);
          s = closeConnection (rm_connection rm) (rm_code rm)
                (s\<lparr>ws_broker := b, ws_runnerConnections := AList.delete (rm_id rm) (ws_runnerConnections s),
                   ws_removals := splice1 i (ws_removals s)\<rparr>);
          (s, out') = continueWith (rm_then rm) s
      in (s, out @ out'))"

definition addSocket :: "string \<Rightarrow> ws_server \<Rightarrow> ws_server" where
  "addSocket r s = s\<lparr>ws_connections := ws_connections s @
     [\<lparr>cc_id = r, cc_isAlive = True, cc_isConnected = False, cc_listening = True, cc_closed = None\<rparr>]\<rparr>"

text \<open>A message on a connection: \<open>None\<close> is \<open>runner:info\<close>.\<close>

definition onConnectionMessage ::
  "(nat \<Rightarrow> string) \<Rightarrow> int \<Rightarrow> nat \<Rightarrow> from_runner option \<Rightarrow> ws_server \<Rightarrow> ws_server \<times> sent list" where
  "onConnectionMessage nanoid now k m s =
     (let c = ws_connections s ! k
      in if \<not> cc_isConnected c then
           (case m of None \<Rightarrow> removeConnection (cc_id c) UnknownDisconnect CloseNormal (Some k) s | Some _ \<Rightarrow> (s, []))
         else (case m of None \<Rightarrow> (s, [])
           | Some msg \<Rightarrow> (let (b, out) = onRunnerMessage nanoid now (cc_id c) msg (ws_broker s) in (s\<lparr>ws_broker := b\<rparr>, out))))"

definition onClose :: "nat \<Rightarrow> ws_server \<Rightarrow> ws_server \<times> sent list" where
  "onClose k s =
     (let c = ws_connections s ! k
      in removeConnection (cc_id c) UnknownDisconnect CloseNormal None (putConnection k (c\<lparr>cc_listening := False\<rparr>) s))"

definition onPong :: "nat \<Rightarrow> ws_server \<Rightarrow> ws_server" where
  "onPong k s = putConnection k ((ws_connections s ! k)\<lparr>cc_isAlive := True\<rparr>) s"

section \<open>Heartbeats and the end\<close>

text \<open>
  One round: the loop ends at the first connection that has not answered since the last ping. The result tells whether the
  event \<open>runner:failed-heartbeat-check\<close> is emitted, which restarts an internal runner.
\<close>

fun heartbeatLoop :: "(string \<times> nat) list \<Rightarrow> ws_server \<Rightarrow> ws_server \<times> bool" where
  "heartbeatLoop [] s = (s, False)"
| "heartbeatLoop ((r, k) # rest) s =
     (let c = ws_connections s ! k
      in if \<not> cc_isAlive c then (fst (removeConnection r FailedHeartbeatCheck CloseProtocolError None s), True)
         else heartbeatLoop rest (putConnection k (c\<lparr>cc_isAlive := False\<rparr>) s))"

definition heartbeatTick :: "ws_server \<Rightarrow> ws_server \<times> bool" where
  "heartbeatTick s = heartbeatLoop (ws_runnerConnections s) s"

text \<open>
  Stopping: the heartbeats end and the broker drains; when no task is active or the time for it is over, all connections that are
  there are removed.
\<close>

definition stopServer :: "ws_server \<Rightarrow> ws_server" where
  "stopServer s = s\<lparr>ws_heartbeat := False, ws_broker := startDraining (ws_broker s)\<rparr>"

definition stopConnectedRunners :: "ws_server \<Rightarrow> ws_server" where
  "stopConnectedRunners s = fold (\<lambda>r s. fst (removeConnection r ShuttingDown CloseGoingAway None s)) (map fst (ws_runnerConnections s)) s"

section \<open>Steps\<close>

text \<open>
  The server's own events, and the steps the broker makes on messages of requesters and on its timers. The label is what the broker sends.
\<close>

inductive ws_step :: "(nat \<Rightarrow> string) \<Rightarrow> ws_server \<Rightarrow> sent list \<Rightarrow> ws_server \<Rightarrow> bool" for nanoid where
  Opened: "ws_step nanoid s [] (addSocket r s)"
| Message: "k < length (ws_connections s) \<Longrightarrow> cc_listening (ws_connections s ! k) \<Longrightarrow>
    onConnectionMessage nanoid now k m s = (s', out) \<Longrightarrow> ws_step nanoid s out s'"
| Closed: "k < length (ws_connections s) \<Longrightarrow> cc_listening (ws_connections s ! k) \<Longrightarrow> onClose k s = (s', out) \<Longrightarrow> ws_step nanoid s out s'"
| Pong: "k < length (ws_connections s) \<Longrightarrow> cc_listening (ws_connections s ! k) \<Longrightarrow> ws_step nanoid s [] (onPong k s)"
| Diagnosed: "i < length (ws_removals s) \<Longrightarrow> removalProceeds i s = (s', out) \<Longrightarrow> ws_step nanoid s out s'"
| Heartbeat: "ws_heartbeat s \<Longrightarrow> ws_step nanoid s [] (fst (heartbeatTick s))"
| Stop: "ws_step nanoid s [] (stopServer s)"
| Drained: "ws_step nanoid s [] (stopConnectedRunners s)"
| Requester: "onRequesterMessage nanoid now q m' (ws_broker s) = (b, out) \<Longrightarrow> ws_step nanoid s out (s\<lparr>ws_broker := b\<rparr>)"
| RequesterComes: "ws_step nanoid s [] (s\<lparr>ws_broker := registerRequester q (ws_broker s)\<rparr>)"
| RequesterGoes: "ws_step nanoid s [] (s\<lparr>ws_broker := deregisterRequester q (ws_broker s)\<rparr>)"
| RequestTimer: "handleRequestTimeout j (ws_broker s) = (b, out) \<Longrightarrow> ws_step nanoid s out (s\<lparr>ws_broker := b\<rparr>)"
| AcceptTimer: "runnerAcceptTimeout j (ws_broker s) = (b, out) \<Longrightarrow> ws_step nanoid s out (s\<lparr>ws_broker := b\<rparr>)"
| ReadyTimer: "requesterAcceptTimeout j (ws_broker s) = (b, out) \<Longrightarrow> ws_step nanoid s out (s\<lparr>ws_broker := b\<rparr>)"
| TaskTimer: "handleTaskTimeout external j (ws_broker s) = (b, out) \<Longrightarrow> ws_step nanoid s out (s\<lparr>ws_broker := b\<rparr>)"

definition ws_reaches :: "(nat \<Rightarrow> string) \<Rightarrow> ws_server \<Rightarrow> ws_server \<Rightarrow> bool" where
  "ws_reaches nanoid = (\<lambda>s s'. \<exists>out. ws_step nanoid s out s')\<^sup>*\<^sup>*"

section \<open>The broker sends to known runners only\<close>

definition sends_to :: "string list \<Rightarrow> sent list \<Rightarrow> bool" where
  "sends_to known out \<longleftrightarrow> (\<forall>r m. ToRunner r m \<in> set out \<longrightarrow> r \<in> set known)"

text \<open>A step of the broker that leaves the runners alone.\<close>

definition quiet :: "broker \<Rightarrow> broker \<times> sent list \<Rightarrow> bool" where
  "quiet b res \<longleftrightarrow> tb_knownRunners (fst res) = tb_knownRunners b \<and> sends_to (tb_knownRunners b) (snd res)"

lemma sends_to_simps [simp]:
  "sends_to known []" "sends_to known (xs @ ys) \<longleftrightarrow> sends_to known xs \<and> sends_to known ys"
  "sends_to known (ToRequester q m # xs) = sends_to known xs"
  "sends_to known (ToRunner r m' # xs) \<longleftrightarrow> r \<in> set known \<and> sends_to known xs"
  "sends_to known (messageRequester q m b)" "sends_to (tb_knownRunners b) (messageRunner r m' b)"
  by (auto simp: sends_to_def messageRequester_def messageRunner_def)

lemma quiet_simp: "quiet b (b', out) \<longleftrightarrow> tb_knownRunners b' = tb_knownRunners b \<and> sends_to (tb_knownRunners b) out"
  by (simp add: quiet_def)

lemma quiet_fold:
  assumes "\<And>x b. quiet b (f x b)" "quiet b0 (b, out)"
  shows "quiet b0 (fold (\<lambda>x (b, out). case f x b of (b, out') \<Rightarrow> (b, out @ out')) xs (b, out))"
  using assms(2)
proof (induction xs arbitrary: b out)
  case (Cons x xs)
  obtain b1 out1 where r: "f x b = (b1, out1)" by fastforce
  have "quiet b0 (b1, out @ out1)" using assms(1) [of b x] Cons.prems by (simp add: r quiet_simp)
  with Cons.IH r show ?case by simp
qed simp

lemma known_simps [simp]:
  "tb_knownRunners (setRequest k v b) = tb_knownRunners b" "tb_knownRunners (expireTasks now b) = tb_knownRunners b"
  "tb_knownRunners (dropTask i b) = tb_knownRunners b" "tb_knownRunners (endAccepting i b) = tb_knownRunners b"
  "tb_knownRunners (endReady i b) = tb_knownRunners b" "tb_knownRunners (acceptFailed a b) = tb_knownRunners b"
  "tb_knownRunners (startDraining b) = tb_knownRunners b" "tb_knownRunners (registerRequester q b) = tb_knownRunners b"
  "tb_knownRunners (deregisterRequester q b) = tb_knownRunners b" "tb_knownRunners (forgetRunner i b) = tb_knownRunners b"
  by (simp_all add: setRequest_def expireTasks_def dropTask_def endAccepting_def endReady_def acceptFailed_def startDraining_def
      registerRequester_def deregisterRequester_def forgetRunner_def)

lemma quiet_settleRequest: "quiet b (settleRequest nanoid k b)"
  by (simp add: settleRequest_def acceptOffer_def Let_def quiet_def messageRunner_def split: option.split)

lemma quiet_trans:
  assumes "tb_knownRunners b = tb_knownRunners c" "quiet c res" shows "quiet b res"
  using assms by (simp add: quiet_def)

lemma quiet_settleTasks: "quiet b (settleTasks nanoid now b)"
  unfolding settleTasks_def Let_def by (rule quiet_fold [OF quiet_settleRequest]) (simp add: quiet_simp)

lemma quiet_andThen:
  assumes "quiet b (f b)" "\<And>c. quiet c (g c)" shows "quiet b (andThen f g b)"
proof -
  obtain b1 out1 where f: "f b = (b1, out1)" by fastforce
  obtain b2 out2 where g: "g b1 = (b2, out2)" by fastforce
  show ?thesis using assms(1) assms(2) [of b1] by (simp add: andThen_def f g quiet_simp)
qed

lemma quiet_tasks [simp]:
  "quiet b (cancelTask i reason b)" "quiet b (failTask i b)" "quiet b (taskDoneHandler i b)" "quiet b (taskErrorHandler i b)"
  "quiet b (askRequester i m b)" "quiet b (tellRunner i m' b)" "quiet b (handleRequestTimeout i b)"
  by (simp_all add: cancelTask_def failTask_def taskDoneHandler_def taskErrorHandler_def askRequester_def tellRunner_def
      handleRequestTimeout_def quiet_def split: option.split)

lemma quiet_timeouts [simp]:
  "quiet b (handleTaskTimeout external i b)" "quiet b (runnerAcceptTimeout i b)" "quiet b (requesterAcceptTimeout i b)"
proof -
  show "quiet b (handleTaskTimeout external i b)"
    by (auto simp: handleTaskTimeout_def quiet_simp split: option.split intro!: quiet_andThen)
  show "quiet b (runnerAcceptTimeout i b)" by (simp add: runnerAcceptTimeout_def quiet_simp split: option.split)
  have "quiet b (cancelTask i r (endReady i b))" for r by (rule quiet_trans [of _ "endReady i b"]) simp_all
  then show "quiet b (requesterAcceptTimeout i b)" by (simp add: requesterAcceptTimeout_def quiet_simp)
qed

lemma quiet_requester: "quiet b (onRequesterMessage nanoid now q m b)"
proof (cases m)
  case (Settings i)
  have "quiet b (tellRunner i n (endReady i (b\<lparr>tb_requesterAcceptRejects := xs\<rparr>)))" for n xs
    by (rule quiet_trans [of _ "endReady i (b\<lparr>tb_requesterAcceptRejects := xs\<rparr>)"]) simp_all
  then show ?thesis by (simp add: Settings handleRequesterAccept_def sendTaskSettings_def Let_def quiet_simp)
next
  case (Request i ty)
  show ?thesis unfolding Request onRequesterMessage.simps taskRequested_def
    by (auto simp: quiet_simp intro!: quiet_trans [OF _ quiet_settleTasks])
qed simp_all

lemma quiet_runner: "quiet b (onRunnerMessage nanoid now r m b)"
proof -
  have acc: "quiet b (handleRunnerAccept i b)" for i
    by (simp add: handleRunnerAccept_def runnerAccepted_def Let_def quiet_simp split: option.split)
  have rej: "quiet b (handleRunnerReject i b)" for i
    by (simp add: handleRunnerReject_def quiet_simp split: option.split)
  have dfr: "quiet b (handleRunnerDeferred i b)" for i
    by (simp add: handleRunnerDeferred_def Let_def quiet_simp split: option.split)
  have off: "quiet b (taskOffered nanoid now x b)" for x
    unfolding taskOffered_def by (rule quiet_trans [OF _ quiet_settleTasks]) simp
  show ?thesis by (cases m) (simp_all add: acc rej dfr off quiet_simp)
qed

lemma quiet_failRunnerTask: "quiet b (failRunnerTask x b)"
proof -
  have rej: "quiet c (handleRunnerReject i c)" for i c
    by (simp add: handleRunnerReject_def quiet_simp split: option.split)
  show ?thesis by (cases x) (auto simp: failRunnerTask_def intro!: quiet_andThen rej)
qed

lemma deregisterRunner_sends:
  "tb_knownRunners (fst (deregisterRunner r b)) = sdel r (tb_knownRunners b)"
  "sends_to (sdel r (tb_knownRunners b)) (snd (deregisterRunner r b))"
proof -
  define b1 where "b1 = b\<lparr>tb_knownRunners := sdel r (tb_knownRunners b),
    tb_pendingTaskOffers := filter (\<lambda>x. of_runnerId x \<noteq> r) (tb_pendingTaskOffers b)\<rparr>"
  have "quiet b1 (deregisterRunner r b)"
    unfolding deregisterRunner_def Let_def b1_def [symmetric]
    by (rule quiet_fold [OF quiet_failRunnerTask]) (simp add: quiet_simp)
  then show "tb_knownRunners (fst (deregisterRunner r b)) = sdel r (tb_knownRunners b)"
    "sends_to (sdel r (tb_knownRunners b)) (snd (deregisterRunner r b))"
    by (simp_all add: quiet_def b1_def)
qed

section \<open>The table of connections and the broker's runners\<close>

definition same_runners :: "ws_server \<Rightarrow> bool" where
  "same_runners s \<longleftrightarrow> set (tb_knownRunners (ws_broker s)) = fst ` set (ws_runnerConnections s)"

text \<open>
  What every step of the server keeps: the broker goes on by steps of its own, the table lists the runners the broker knows, and
  what the broker sends has a connection to go to.
\<close>

definition server_ok :: "(nat \<Rightarrow> string) \<Rightarrow> ws_server \<Rightarrow> ws_server \<times> sent list \<Rightarrow> bool" where
  "server_ok nanoid s res \<longleftrightarrow> reaches nanoid (ws_broker s) (ws_broker (fst res)) \<and>
     (same_runners s \<longrightarrow> same_runners (fst res) \<and> sends_to (map fst (ws_runnerConnections (fst res))) (snd res))"

lemma reaches_refl [simp]: "reaches nanoid b b"
  by (simp add: reaches_def)

lemma reaches_deregister: "reaches nanoid b (fst (deregisterRunner r b))"
  by (rule reaches_step, rule Runner_goes, rule prod.collapse [symmetric])

lemma server_ok_local:
  assumes "ws_broker s' = ws_broker s" "ws_runnerConnections s' = ws_runnerConnections s" shows "server_ok nanoid s (s', [])"
  using assms by (simp add: server_ok_def same_runners_def)

lemma sends_to_cong: "set xs = set ys \<Longrightarrow> sends_to xs out = sends_to ys out"
  by (simp add: sends_to_def)

lemma server_ok_quiet:
  assumes "broker_step nanoid (ws_broker s) out b" "quiet (ws_broker s) (b, out)"
  shows "server_ok nanoid s (s\<lparr>ws_broker := b\<rparr>, out)"
proof -
  have "same_runners s \<Longrightarrow> sends_to (map fst (ws_runnerConnections s)) out"
    using assms(2) sends_to_cong [of "tb_knownRunners (ws_broker s)" "map fst (ws_runnerConnections s)" out]
    by (simp add: quiet_simp same_runners_def)
  moreover have "same_runners s \<Longrightarrow> same_runners (s\<lparr>ws_broker := b\<rparr>)" using assms(2) by (simp add: quiet_simp same_runners_def)
  ultimately show ?thesis using reaches_step [OF assms(1)] by (simp add: server_ok_def)
qed

lemma keys_update: "fst ` set (AList.update k v al) = insert k (fst ` set al)"
  by (induction al) auto

lemma keys_delete: "fst ` set (AList.delete k al) = fst ` set al - {k}"
  by (auto simp: AList.delete_eq)

lemma server_ok_connected: "server_ok nanoid s (connected k s)"
  by (simp add: server_ok_def connected_def Let_def registerRunner_def same_runners_def putConnection_def keys_update
      reaches_steps(1) [of nanoid "ws_broker s" "cc_id (ws_connections s ! k)", unfolded registerRunner_def, simplified])

lemma server_ok_continue: "server_ok nanoid s (continueWith follow s)"
  by (simp add: continueWith_def server_ok_connected server_ok_local split: option.split)

lemma server_ok_remove: "server_ok nanoid s (removeConnection r reason code follow s)"
  by (simp add: removeConnection_def server_ok_continue server_ok_local split: option.split)

lemma server_ok_from:
  assumes "ws_broker s1 = ws_broker s" "ws_runnerConnections s1 = ws_runnerConnections s" "server_ok nanoid s1 res"
  shows "server_ok nanoid s res"
  using assms by (simp add: server_ok_def same_runners_def)

lemma connected_table: "sends_to (map fst (ws_runnerConnections s)) out \<Longrightarrow>
    sends_to (map fst (ws_runnerConnections (fst (continueWith follow s)))) out"
  by (auto simp: sends_to_def continueWith_def connected_def Let_def keys_update putConnection_def split: option.split prod.split)

lemma server_ok_removal: "server_ok nanoid s (removalProceeds i s)"
proof -
  define rm where "rm = ws_removals s ! i"
  obtain b out where d: "deregisterRunner (rm_id rm) (ws_broker s) = (b, out)" by fastforce
  define s1 where "s1 = closeConnection (rm_connection rm) (rm_code rm)
    (s\<lparr>ws_broker := b, ws_runnerConnections := AList.delete (rm_id rm) (ws_runnerConnections s), ws_removals := splice1 i (ws_removals s)\<rparr>)"
  obtain s2 out2 where c: "continueWith (rm_then rm) s1 = (s2, out2)" by fastforce
  have eq: "removalProceeds i s = (s2, out @ out2)"
    by (simp add: removalProceeds_def Let_def d c flip: rm_def s1_def)
  have s1: "ws_broker s1 = b" "ws_runnerConnections s1 = AList.delete (rm_id rm) (ws_runnerConnections s)"
    by (simp_all add: s1_def closeConnection_def putConnection_def)
  have k: "tb_knownRunners b = sdel (rm_id rm) (tb_knownRunners (ws_broker s))" "sends_to (tb_knownRunners b) out"
    using deregisterRunner_sends [of "rm_id rm" "ws_broker s"] by (simp_all add: d)
  have ok: "server_ok nanoid s1 (s2, out2)" using server_ok_continue [of nanoid s1 "rm_then rm"] by (simp add: c)
  have "reaches nanoid (ws_broker s) (ws_broker s1)" using reaches_deregister [of nanoid "ws_broker s" "rm_id rm"] by (simp add: d s1)
  then have r: "reaches nanoid (ws_broker s) (ws_broker s2)" by (rule reaches_trans) (use ok in \<open>simp add: server_ok_def\<close>)
  show ?thesis
  proof (cases "same_runners s")
    case True
    then have "same_runners s1" by (simp add: same_runners_def s1 k(1) keys_delete)
    moreover from this have "sends_to (map fst (ws_runnerConnections s1)) out"
      using k(2) sends_to_cong [of "tb_knownRunners b" "map fst (ws_runnerConnections s1)" out] by (simp add: same_runners_def s1(1))
    then have "sends_to (map fst (ws_runnerConnections s2)) out" using connected_table [of s1 out "rm_then rm"] by (simp add: c)
    ultimately show ?thesis using ok r by (simp add: server_ok_def eq)
  next
    case False
    with r show ?thesis by (simp add: server_ok_def eq)
  qed
qed

lemma heartbeatLoop_local:
  "ws_broker (fst (heartbeatLoop al s)) = ws_broker s \<and>
   (set al \<subseteq> set (ws_runnerConnections s) \<longrightarrow> ws_runnerConnections (fst (heartbeatLoop al s)) = ws_runnerConnections s)"
proof (induction al arbitrary: s)
  case (Cons p al)
  obtain r k where p: "p = (r, k)" by fastforce
  have "map_of (ws_runnerConnections s) r \<noteq> None" if "(r, k) \<in> set (ws_runnerConnections s)"
    using that by (metis map_of_eq_None_iff fst_conv image_eqI)
  moreover have "ws_broker (fst (removeConnection r FailedHeartbeatCheck c None s)) = ws_broker s" for c
    by (simp add: removeConnection_def continueWith_def split: option.split)
  ultimately show ?case using Cons.IH [of "putConnection k ((ws_connections s ! k)\<lparr>cc_isAlive := False\<rparr>) s"]
    by (auto simp: p Let_def removeConnection_def continueWith_def putConnection_def split: option.split)
qed simp

lemma stopConnected_local:
  "ws_broker (fold (\<lambda>r s. fst (removeConnection r ShuttingDown c None s)) rs s) = ws_broker s \<and>
   ws_runnerConnections (fold (\<lambda>r s. fst (removeConnection r ShuttingDown c None s)) rs s) = ws_runnerConnections s"
  by (induction rs arbitrary: s) (simp_all add: removeConnection_def continueWith_def split: option.split)

lemma server_ok_message: "server_ok nanoid s (onConnectionMessage nanoid now k m s)"
proof (cases "cc_isConnected (ws_connections s ! k)")
  case False
  then show ?thesis by (simp add: onConnectionMessage_def Let_def server_ok_remove server_ok_local split: option.split)
next
  case True
  show ?thesis
  proof (cases m)
    case None
    with True show ?thesis by (simp add: onConnectionMessage_def Let_def server_ok_local)
  next
    case (Some msg)
    let ?r = "cc_id (ws_connections s ! k)"
    obtain b out where r: "onRunnerMessage nanoid now ?r msg (ws_broker s) = (b, out)" by fastforce
    have "quiet (ws_broker s) (b, out)" using quiet_runner [of "ws_broker s" nanoid now ?r msg] by (simp only: r)
    from server_ok_quiet [OF From_runner [OF r] this] show ?thesis
      using True Some r by (simp add: onConnectionMessage_def Let_def)
  qed
qed

lemma server_ok_step:
  assumes "ws_step nanoid s out s'" shows "server_ok nanoid s (s', out)"
  using assms
proof cases
  case (Opened r)
  then show ?thesis by (simp add: addSocket_def server_ok_local)
next
  case (Message k now m)
  with server_ok_message [of nanoid s now k m] show ?thesis by simp
next
  case (Closed k)
  have "server_ok nanoid s (onClose k s)" unfolding onClose_def Let_def
    by (rule server_ok_from [OF _ _ server_ok_remove]) (simp_all add: putConnection_def)
  with Closed show ?thesis by simp
next
  case (Pong k)
  then show ?thesis by (simp add: onPong_def putConnection_def server_ok_local)
next
  case (Diagnosed i)
  with server_ok_removal [of nanoid s i] show ?thesis by simp
next
  case Heartbeat
  then show ?thesis using heartbeatLoop_local [of "ws_runnerConnections s" s] by (simp add: heartbeatTick_def server_ok_local)
next
  case Stop
  have "reaches nanoid (ws_broker s) (startDraining (ws_broker s))" by (rule reaches_step [OF Draining])
  with Stop show ?thesis by (simp add: stopServer_def server_ok_def same_runners_def)
next
  case Drained
  then show ?thesis using stopConnected_local by (simp add: stopConnectedRunners_def server_ok_local)
next
  case (Requester now q m b)
  have "quiet (ws_broker s) (b, out)" using quiet_requester [of "ws_broker s" nanoid now q m] by (simp only: Requester)
  with Requester show ?thesis by (auto intro: server_ok_quiet From_requester)
next
  case (RequesterComes q)
  have "reaches nanoid (ws_broker s) (registerRequester q (ws_broker s))" by (rule reaches_step [OF broker_step.Requester_comes])
  with RequesterComes show ?thesis by (simp add: server_ok_def same_runners_def)
next
  case (RequesterGoes q)
  have "reaches nanoid (ws_broker s) (deregisterRequester q (ws_broker s))" by (rule reaches_step [OF broker_step.Requester_goes])
  with RequesterGoes show ?thesis by (simp add: server_ok_def same_runners_def)
next
  case (RequestTimer j b)
  have "quiet (ws_broker s) (b, out)" using quiet_tasks(7) [of "ws_broker s" j] by (simp only: RequestTimer)
  with RequestTimer show ?thesis by (auto intro: server_ok_quiet Request_timer)
next
  case (AcceptTimer j b)
  have "quiet (ws_broker s) (b, out)" using quiet_timeouts(2) [of "ws_broker s" j] by (simp only: AcceptTimer)
  with AcceptTimer show ?thesis by (auto intro: server_ok_quiet Runner_timer)
next
  case (ReadyTimer j b)
  have "quiet (ws_broker s) (b, out)" using quiet_timeouts(3) [of "ws_broker s" j] by (simp only: ReadyTimer)
  with ReadyTimer show ?thesis by (auto intro: server_ok_quiet Requester_timer)
next
  case (TaskTimer external j b)
  have "quiet (ws_broker s) (b, out)" using quiet_timeouts(1) [of "ws_broker s" external j] by (simp only: TaskTimer)
  with TaskTimer show ?thesis by (auto intro: server_ok_quiet Task_timer)
qed

lemma ws_reaches_ok:
  assumes "ws_reaches nanoid s s'" "same_runners s"
  shows "reaches nanoid (ws_broker s) (ws_broker s') \<and> same_runners s'"
  using assms unfolding ws_reaches_def
proof (induction rule: rtranclp_induct)
  case (step s1 s2)
  then obtain out where "ws_step nanoid s1 out s2" by blast
  from server_ok_step [OF this] step.IH step.prems show ?case using reaches_trans by (auto simp: server_ok_def)
qed simp

lemma same_runners_new: "newBroker taskTimeout = Inr b \<Longrightarrow> same_runners (newServer b)"
  by (auto simp: newBroker_def newServer_def same_runners_def split: if_splits)


text \<open>A run of the server on connections, messages and removals, for the examples.\<close>

datatype ws_event = WsOpened string | WsMessage nat "from_runner option" | WsClosed nat | WsPong nat | WsDiagnosed nat | WsHeartbeat

fun wsRun :: "(nat \<Rightarrow> string) \<Rightarrow> ws_event list \<Rightarrow> ws_server \<Rightarrow> ws_server option" where
  "wsRun nanoid [] s = Some s"
| "wsRun nanoid (WsOpened r # evs) s = wsRun nanoid evs (addSocket r s)"
| "wsRun nanoid (WsMessage k m # evs) s = (if k < length (ws_connections s) \<and> cc_listening (ws_connections s ! k)
     then wsRun nanoid evs (fst (onConnectionMessage nanoid 0 k m s)) else None)"
| "wsRun nanoid (WsClosed k # evs) s = (if k < length (ws_connections s) \<and> cc_listening (ws_connections s ! k)
     then wsRun nanoid evs (fst (onClose k s)) else None)"
| "wsRun nanoid (WsPong k # evs) s = (if k < length (ws_connections s) \<and> cc_listening (ws_connections s ! k)
     then wsRun nanoid evs (onPong k s) else None)"
| "wsRun nanoid (WsDiagnosed i # evs) s = (if i < length (ws_removals s) then wsRun nanoid evs (fst (removalProceeds i s)) else None)"
| "wsRun nanoid (WsHeartbeat # evs) s = (if ws_heartbeat s then wsRun nanoid evs (fst (heartbeatTick s)) else None)"

lemma ws_reaches_refl: "ws_reaches nanoid s s"
  by (simp add: ws_reaches_def)

lemma ws_reaches_next: "ws_step nanoid s out s1 \<Longrightarrow> ws_reaches nanoid s1 s2 \<Longrightarrow> ws_reaches nanoid s s2"
  unfolding ws_reaches_def by (rule converse_rtranclp_into_rtranclp) blast+

lemma wsRun_reaches: "wsRun nanoid evs s = Some s' \<Longrightarrow> ws_reaches nanoid s s'"
proof (induction evs arbitrary: s)
  case Nil
  then show ?case by (simp add: ws_reaches_refl)
next
  case (Cons ev evs)
  obtain s1 out where s1: "ws_step nanoid s out s1" "wsRun nanoid evs s1 = Some s'"
  proof (cases ev)
    case (WsOpened r)
    with Cons.prems that ws_step.Opened show ?thesis by simp blast
  next
    case (WsMessage k m)
    with Cons.prems that ws_step.Message [OF _ _ prod.collapse [symmetric]] show ?thesis by (simp split: if_splits) blast
  next
    case (WsClosed k)
    with Cons.prems that ws_step.Closed [OF _ _ prod.collapse [symmetric]] show ?thesis by (simp split: if_splits) blast
  next
    case (WsPong k)
    with Cons.prems that ws_step.Pong show ?thesis by (simp split: if_splits) blast
  next
    case (WsDiagnosed i)
    with Cons.prems that ws_step.Diagnosed [OF _ prod.collapse [symmetric]] show ?thesis by (simp split: if_splits) blast
  next
    case WsHeartbeat
    with Cons.prems that ws_step.Heartbeat show ?thesis by (simp split: if_splits) blast
  qed
  from ws_reaches_next [OF s1(1) Cons.IH [OF s1(2)]] show ?case .
qed

definition exConnect :: "ws_event list" where
  "exConnect = [WsOpened ''r'', WsMessage 0 None]"

definition exServerBroker :: broker where
  "exServerBroker = \<lparr>tb_knownRunners = [], tb_requesters = [], tb_tasks = [], tb_isDraining = False, tb_runnerAcceptRejects = [],
       tb_requesterAcceptRejects = [], tb_pendingTaskOffers = [], tb_pendingTaskRequests = [], tb_requests = [],
       tb_accepting = [], tb_ready = [], tb_issued = 0\<rparr>"

lemma exServerBroker_new: "newBroker 60 = Inr exServerBroker"
  by (simp add: newBroker_def exServerBroker_def)


text \<open>
  The connection of a runner that connects again under its id replaces the older one. The older one is closed, and when its
  \<open>close\<close> event comes, the removal finds the id in the table and takes away the new connection: the runner that is
  connected is unknown to the broker.
\<close>

lemma late_close_removes_new_connection:
  "map_option (\<lambda>s. (ws_runnerConnections s, tb_knownRunners (ws_broker s), cc_closed (ws_connections s ! 1)))
     (wsRun exId [WsOpened ''r'', WsMessage 0 None, WsOpened ''r'', WsMessage 1 None, WsDiagnosed 0, WsClosed 0, WsDiagnosed 0]
       (newServer exServerBroker)) = Some ([], [], Some 1000)"
  by code_simp

section \<open>Heartbeats\<close>

text \<open>The entries of the table are those of connections under their own id, and no id is listed twice.\<close>

definition table_ok :: "ws_server \<Rightarrow> bool" where
  "table_ok s \<longleftrightarrow> distinct (map fst (ws_runnerConnections s)) \<and>
     (\<forall>p \<in> set (ws_runnerConnections s). snd p < length (ws_connections s) \<and> cc_id (ws_connections s ! snd p) = fst p)"

lemma table_ok_distinct:
  assumes "table_ok s" shows "distinct (map snd (ws_runnerConnections s))"
proof -
  have "inj_on snd (set (ws_runnerConnections s))"
  proof (rule inj_onI)
    fix p q assume "p \<in> set (ws_runnerConnections s)" "q \<in> set (ws_runnerConnections s)" "snd p = snd q"
    with assms show "p = q" unfolding table_ok_def by (metis prod_eqI)
  qed
  moreover have "distinct (ws_runnerConnections s)" using assms by (simp add: table_ok_def distinct_map)
  ultimately show ?thesis by (simp add: distinct_map)
qed

definition ids :: "ws_server \<Rightarrow> string list" where
  "ids s = map cc_id (ws_connections s)"

definition server_wf :: "ws_server \<Rightarrow> bool" where
  "server_wf s \<longleftrightarrow> distinct (map fst (ws_runnerConnections s)) \<and>
     (\<forall>p \<in> set (ws_runnerConnections s). snd p < length (ids s) \<and> ids s ! snd p = fst p) \<and>
     (\<forall>rm \<in> set (ws_removals s). \<forall>k. rm_then rm = Some k \<longrightarrow> k < length (ids s))"

lemma server_wf_table: "server_wf s \<Longrightarrow> table_ok s"
  by (auto simp: server_wf_def table_ok_def ids_def)

lemma ids_putConnection: "cc_id c = cc_id (ws_connections s ! k) \<Longrightarrow> ids (putConnection k c s) = ids s"
  by (cases "k < length (ws_connections s)") (simp_all add: ids_def putConnection_def map_update list_update_same_conv list_update_beyond)

lemma server_wf_cong:
  assumes "ids v = ids s" "ws_runnerConnections v = ws_runnerConnections s" "ws_removals v = ws_removals s"
  shows "server_wf v = server_wf s"
  unfolding server_wf_def assms ..

lemma server_wf_putConnection:
  assumes "cc_id c = cc_id (ws_connections s ! k)" shows "server_wf (putConnection k c s) = server_wf s"
  by (rule server_wf_cong) (simp_all add: ids_putConnection [OF assms], simp_all add: putConnection_def)

lemma server_wf_connected:
  assumes "server_wf s" "k < length (ids s)" shows "server_wf (fst (connected k s))"
proof -
  have i: "ids (fst (connected k s)) = ids s"
    using ids_putConnection [of "(ws_connections s ! k)\<lparr>cc_isConnected := True\<rparr>" s k]
    by (simp add: connected_def Let_def ids_def putConnection_def split: prod.split)
  have t: "ws_runnerConnections (fst (connected k s)) = AList.update (ids s ! k) k (ws_runnerConnections s)"
      "ws_removals (fst (connected k s)) = ws_removals s"
    using assms(2) by (simp_all add: connected_def Let_def putConnection_def ids_def split: prod.split)
  have d: "distinct (map fst (ws_runnerConnections s))" and
      e: "\<forall>p \<in> set (ws_runnerConnections s). snd p < length (ids s) \<and> ids s ! snd p = fst p" and
      m: "\<forall>rm \<in> set (ws_removals s). \<forall>k. rm_then rm = Some k \<longrightarrow> k < length (ids s)"
    using assms(1) by (simp_all add: server_wf_def)
  have "\<forall>p \<in> set (AList.update (ids s ! k) k (ws_runnerConnections s)). snd p < length (ids s) \<and> ids s ! snd p = fst p"
    unfolding set_AList_update [OF d] using e assms(2) by auto
  then show ?thesis unfolding server_wf_def i t using d m by (simp add: distinct_update)
qed

lemma server_wf_continue:
  assumes "server_wf s" "\<And>k. follow = Some k \<Longrightarrow> k < length (ids s)" shows "server_wf (fst (continueWith follow s))"
  using assms server_wf_connected by (simp add: continueWith_def split: option.split)

lemma server_wf_remove:
  assumes "server_wf s" "\<And>k. follow = Some k \<Longrightarrow> k < length (ids s)"
  shows "server_wf (fst (removeConnection r reason code follow s))"
proof (cases "map_of (ws_runnerConnections s) r")
  case None
  with server_wf_continue [OF assms] show ?thesis by (simp add: removeConnection_def)
next
  case (Some j)
  with assms show ?thesis by (auto simp: removeConnection_def server_wf_def ids_def)
qed

lemma server_wf_removal:
  assumes "server_wf s" "i < length (ws_removals s)" shows "server_wf (fst (removalProceeds i s))"
proof -
  define rm where "rm = ws_removals s ! i"
  obtain b out where d: "deregisterRunner (rm_id rm) (ws_broker s) = (b, out)" by fastforce
  define s0 where "s0 = s\<lparr>ws_broker := b, ws_runnerConnections := AList.delete (rm_id rm) (ws_runnerConnections s), ws_removals := splice1 i (ws_removals s)\<rparr>"
  define s1 where "s1 = closeConnection (rm_connection rm) (rm_code rm) s0"
  have eq: "fst (removalProceeds i s) = fst (continueWith (rm_then rm) s1)"
    by (simp add: removalProceeds_def Let_def d split: prod.split flip: rm_def s0_def s1_def)
  have i0: "ids s0 = ids s" by (simp add: s0_def ids_def)
  have "server_wf s0" using assms(1) set_splice1_subset [of i "ws_removals s"] unfolding server_wf_def i0
    by (auto simp: s0_def distinct_delete set_AList_delete)
  then have wf: "server_wf s1" by (simp add: s1_def closeConnection_def server_wf_putConnection)
  have "rm \<in> set (ws_removals s)" using assms(2) by (simp add: rm_def)
  then have "k < length (ids s)" if "rm_then rm = Some k" for k using assms(1) that unfolding server_wf_def by blast
  moreover have "ids s1 = ids s" using i0 by (simp add: s1_def closeConnection_def ids_putConnection)
  ultimately show ?thesis unfolding eq by (intro server_wf_continue [OF wf]) simp
qed

lemma server_wf_heartbeat: "server_wf s \<Longrightarrow> server_wf (fst (heartbeatLoop al s))"
proof (induction al arbitrary: s)
  case (Cons p al)
  obtain r k where p: "p = (r, k)" by fastforce
  have "server_wf (putConnection k ((ws_connections s ! k)\<lparr>cc_isAlive := False\<rparr>) s)"
    using Cons.prems by (simp add: server_wf_putConnection)
  with Cons.IH server_wf_remove [OF Cons.prems, of None] show ?case by (simp add: p Let_def)
qed simp

lemma server_wf_message:
  assumes "server_wf s" "k < length (ws_connections s)" shows "server_wf (fst (onConnectionMessage nanoid now k m s))"
proof -
  have c: "server_wf (s\<lparr>ws_broker := b\<rparr>) = server_wf s" for b by (rule server_wf_cong) (simp_all add: ids_def)
  have l: "k < length (ids s)" using assms(2) by (simp add: ids_def)
  have "server_wf (fst (removeConnection r reason code (Some k) s))" for r reason code
    by (rule server_wf_remove [OF assms(1)]) (use l in simp)
  then show ?thesis using assms(1) c by (simp add: onConnectionMessage_def Let_def split: option.split prod.split)
qed

lemma server_wf_step:
  assumes "ws_step nanoid s out s'" "server_wf s" shows "server_wf s'"
  using assms(1)
proof cases
  case (Opened r)
  have "ids s' = ids s @ [r]" by (simp add: Opened addSocket_def ids_def)
  moreover have "ws_runnerConnections s' = ws_runnerConnections s" "ws_removals s' = ws_removals s"
    by (simp_all add: Opened addSocket_def)
  ultimately show ?thesis using assms(2) unfolding server_wf_def by (auto simp: nth_append less_Suc_eq)
next
  case (Message k now m)
  with server_wf_message [OF assms(2), of k nanoid now m] show ?thesis by simp
next
  case (Closed k)
  have "server_wf (putConnection k ((ws_connections s ! k)\<lparr>cc_listening := False\<rparr>) s)" using assms(2) by (simp add: server_wf_putConnection)
  from server_wf_remove [OF this, of None] have "server_wf (fst (onClose k s))" by (simp add: onClose_def Let_def)
  with Closed show ?thesis by simp
next
  case (Pong k)
  with assms(2) show ?thesis by (simp add: onPong_def server_wf_putConnection)
next
  case (Diagnosed i)
  with server_wf_removal [OF assms(2), of i] show ?thesis by simp
next
  case Heartbeat
  with server_wf_heartbeat [OF assms(2)] show ?thesis by (simp add: heartbeatTick_def)
next
  case Drained
  have "server_wf (fold (\<lambda>r s. fst (removeConnection r ShuttingDown CloseGoingAway None s)) rs s)" for rs
    by (rule fold_invariant_set [where P = server_wf, OF assms(2)]) (rule server_wf_remove, simp_all)
  with Drained show ?thesis by (simp add: stopConnectedRunners_def)
qed (use assms(2) in \<open>auto simp: server_wf_def ids_def stopServer_def\<close>)

lemma ws_reaches_wf: "ws_reaches nanoid s s' \<Longrightarrow> server_wf s \<Longrightarrow> server_wf s'"
  unfolding ws_reaches_def by (induction rule: rtranclp_induct) (auto intro: server_wf_step)

lemma heartbeatLoop_exact:
  assumes "distinct (map snd al)" "\<forall>p \<in> set al. snd p < length (ws_connections s) \<and> map_of (ws_runnerConnections s) (fst p) = Some (snd p)"
    "heartbeatLoop al s = (v, failed)"
  shows "(if failed then \<exists>p \<in> set al. \<not> cc_isAlive (ws_connections s ! snd p) \<and>
        ws_removals v = ws_removals s @ [\<lparr>rm_id = fst p, rm_connection = snd p, rm_reason = FailedHeartbeatCheck, rm_code = CloseProtocolError, rm_then = None\<rparr>]
      else ws_removals v = ws_removals s \<and> (\<forall>p \<in> set al. cc_isAlive (ws_connections s ! snd p) \<and> \<not> cc_isAlive (ws_connections v ! snd p))) \<and>
    (\<forall>k. k \<notin> snd ` set al \<longrightarrow> ws_connections v ! k = ws_connections s ! k)"
  using assms
proof (induction al arbitrary: s)
  case (Cons p al)
  show ?case
  proof (cases "cc_isAlive (ws_connections s ! snd p)")
    case True
    define s1 where "s1 = putConnection (snd p) ((ws_connections s ! snd p)\<lparr>cc_isAlive := False\<rparr>) s"
    have new: "snd p \<notin> snd ` set al" using Cons.prems(1) by simp
    have other: "ws_connections s1 ! k = ws_connections s ! k" if "k \<noteq> snd p" for k
      using that not_sym [OF that] by (simp add: s1_def putConnection_def)
    have n: "ws_connections s1 ! snd q = ws_connections s ! snd q" if "q \<in> set al" for q
      using new that by (metis other imageI)
    have s1: "ws_removals s1 = ws_removals s" "ws_runnerConnections s1 = ws_runnerConnections s" "length (ws_connections s1) = length (ws_connections s)"
        "\<not> cc_isAlive (ws_connections s1 ! snd p)"
      using Cons.prems(2) by (simp_all add: s1_def putConnection_def)
    have r: "heartbeatLoop al s1 = (v, failed)" using Cons.prems(3) True by (cases p) (simp add: s1_def)
    have "distinct (map snd al)" using Cons.prems(1) by simp
    moreover have "\<forall>q \<in> set al. snd q < length (ws_connections s1) \<and> map_of (ws_runnerConnections s1) (fst q) = Some (snd q)"
      using Cons.prems(2) s1 by simp
    ultimately have IH: "(if failed then \<exists>q \<in> set al. \<not> cc_isAlive (ws_connections s1 ! snd q) \<and>
        ws_removals v = ws_removals s1 @ [\<lparr>rm_id = fst q, rm_connection = snd q, rm_reason = FailedHeartbeatCheck, rm_code = CloseProtocolError, rm_then = None\<rparr>]
      else ws_removals v = ws_removals s1 \<and> (\<forall>q \<in> set al. cc_isAlive (ws_connections s1 ! snd q) \<and> \<not> cc_isAlive (ws_connections v ! snd q))) \<and>
      (\<forall>k. k \<notin> snd ` set al \<longrightarrow> ws_connections v ! k = ws_connections s1 ! k)"
      using Cons.IH r by blast
    have p': "\<not> cc_isAlive (ws_connections v ! snd p)" using IH new s1(4) by simp
    have rest: "\<forall>k. k \<notin> snd ` set (p # al) \<longrightarrow> ws_connections v ! k = ws_connections s ! k" using IH other by auto
    show ?thesis
    proof (cases failed)
      case True
      then obtain q where "q \<in> set al" "\<not> cc_isAlive (ws_connections s ! snd q)"
          "ws_removals v = ws_removals s @ [\<lparr>rm_id = fst q, rm_connection = snd q, rm_reason = FailedHeartbeatCheck, rm_code = CloseProtocolError, rm_then = None\<rparr>]"
        using IH n s1(1) by auto
      with True rest show ?thesis by (simp add: bex_simps) blast
    next
      case False
      with IH n s1(1) p' rest \<open>cc_isAlive (ws_connections s ! snd p)\<close> show ?thesis by simp
    qed
  next
    case False
    then show ?thesis using Cons.prems by (cases p) (auto simp: removeConnection_def)
  qed
qed simp

text \<open>A heartbeat round, in every reachable state of the server: it fails exactly if some runner has not answered since its last
  ping; then it takes away one such runner, and only that one. Otherwise every connected runner is asked for a new answer.\<close>
lemma heartbeat_round:
  assumes "newBroker taskTimeout = Inr b" and "ws_reaches nanoid (newServer b) s" and "heartbeatTick s = (v, failed)"
  shows "(failed \<longleftrightarrow> (\<exists>(r, k) \<in> set (ws_runnerConnections s). \<not> cc_isAlive (ws_connections s ! k))) \<and>
    (if failed then \<exists>(r, k) \<in> set (ws_runnerConnections s). \<not> cc_isAlive (ws_connections s ! k) \<and>
        ws_removals v = ws_removals s @ [\<lparr>rm_id = r, rm_connection = k, rm_reason = FailedHeartbeatCheck, rm_code = CloseProtocolError, rm_then = None\<rparr>]
      else ws_removals v = ws_removals s \<and> (\<forall>(r, k) \<in> set (ws_runnerConnections s). \<not> cc_isAlive (ws_connections v ! k)))"
proof -
  have "server_wf (newServer b)" by (simp add: server_wf_def newServer_def)
  then have wf: "server_wf s" by (rule ws_reaches_wf [OF assms(2)])
  have "\<forall>p \<in> set (ws_runnerConnections s). snd p < length (ws_connections s) \<and> map_of (ws_runnerConnections s) (fst p) = Some (snd p)"
    using wf by (simp add: server_wf_def ids_def)
  from heartbeatLoop_exact [OF table_ok_distinct [OF server_wf_table [OF wf]] this assms(3) [unfolded heartbeatTick_def]]
  show ?thesis by (cases failed) (auto simp: case_prod_unfold)
qed

definition exSilent :: "ws_event list" where
  "exSilent = exConnect @ [WsOpened ''p'', WsMessage 1 None]"

lemma heartbeat_round_witness:
  "\<exists>s v. wsRun exId exSilent (newServer exServerBroker) = Some s \<and> heartbeatTick s = (v, False) \<and> ws_removals v = []"
proof -
  have "map_option (\<lambda>s. (ws_removals s, snd (heartbeatTick s))) (wsRun exId exSilent (newServer exServerBroker)) = Some ([], False)" by code_simp
  then obtain s where s: "wsRun exId exSilent (newServer exServerBroker) = Some s" "ws_removals s = []" "snd (heartbeatTick s) = False" by auto
  obtain v failed where v: "heartbeatTick s = (v, failed)" by fastforce
  with s(3) have f: "failed = False" by simp
  from heartbeat_round [OF exServerBroker_new wsRun_reaches [OF s(1)] v] s(1,2) v f show ?thesis by auto
qed

end
