(* ===== verification/TypeValidation.thy ===== *)
theory TypeValidation imports Workflow_Types
begin

text \<open>
  The validation of a value against the type of a field (\<open>workflow/src/type-validation.ts\<close>), which converts the value where it can:
  one \<open>tryToParse...\<close> function for a type, and \<open>validateFieldType\<close> over all of them. Values are JavaScript values; numbers
  are \<open>NaN\<close> or elements of an ordered ring, and a \<open>DateTime\<close> is opaque. What belongs to the JavaScript engine or to
  luxon (reading and printing numbers and dates, \<open>JSON\<close>, \<open>URL\<close>) is the argument \<open>host\<close>. An exception is a value of the result type.
\<close>

section \<open>Values\<close>

datatype 'n js_number = NaN | Num 'n

datatype ('n, 'd) js_value =
    VUndefined
  | VNull
  | VBool bool
  | VNumber "'n js_number"
  | VString string
  | VArray "('n, 'd) js_value list"
  | VObject "(string \<times> ('n, 'd) js_value) list"
  | VDate "int option"
  | VDateTime 'd

record ('n, 'd) js_host =
  host_parseNumber :: "string \<Rightarrow> 'n option"
  host_showNumber :: "'n \<Rightarrow> string"
  host_showDate :: "int \<Rightarrow> string"
  host_showDateTime :: "'d \<Rightarrow> string"
  host_stringify :: "('n, 'd) js_value \<Rightarrow> string"
  host_jsonParse :: "string \<Rightarrow> ('n, 'd) js_value option"
  host_parseJSObject :: "string \<Rightarrow> ('n, 'd) js_value option"
  host_isValid :: "'d \<Rightarrow> bool"
  host_toMillis :: "'d \<Rightarrow> int"
  host_fromMillis :: "int \<Rightarrow> 'd"
  host_fromISO :: "string \<Rightarrow> 'd"
  host_fromHTTP :: "string \<Rightarrow> 'd"
  host_fromRFC2822 :: "string \<Rightarrow> 'd"
  host_fromSQL :: "string \<Rightarrow> 'd"
  host_dateParse :: "string \<Rightarrow> int option"
  host_urlProtocol :: "string \<Rightarrow> string option"
  host_regexTest :: "string \<Rightarrow> string \<Rightarrow> string \<Rightarrow> bool option"

fun jsTypeof :: "('n, 'd) js_value \<Rightarrow> string" where
  "jsTypeof VUndefined = ''undefined''"
| "jsTypeof (VBool b) = ''boolean''"
| "jsTypeof (VNumber x) = ''number''"
| "jsTypeof (VString s) = ''string''"
| "jsTypeof _ = ''object''"

fun isArray :: "('n, 'd) js_value \<Rightarrow> bool" where
  "isArray (VArray xs) = True"
| "isArray _ = False"

fun toBoolean :: "('n :: zero, 'd) js_value \<Rightarrow> bool" where
  "toBoolean VUndefined = False"
| "toBoolean VNull = False"
| "toBoolean (VBool b) = b"
| "toBoolean (VNumber x) = (x \<noteq> NaN \<and> x \<noteq> Num 0)"
| "toBoolean (VString s) = (s \<noteq> [])"
| "toBoolean _ = True"

definition isSpace :: "char \<Rightarrow> bool" where
  "isSpace c \<longleftrightarrow> (of_char c :: nat) \<in> {9, 10, 11, 12, 13, 32, 160}"

definition trim :: "string \<Rightarrow> string" where
  "trim s = rev (dropWhile isSpace (rev (dropWhile isSpace s)))"

definition lowerChar :: "char \<Rightarrow> char" where
  "lowerChar c = (let n = of_char c :: nat in if 65 \<le> n \<and> n \<le> 90 then char_of (n + 32) else c)"

definition lowerCase :: "string \<Rightarrow> string" where
  "lowerCase s = map lowerChar s"

definition joinWith :: "string \<Rightarrow> string list \<Rightarrow> string" where
  "joinWith sep xs = concat (case xs of [] \<Rightarrow> [] | y # ys \<Rightarrow> y # map (\<lambda>z. sep @ z) ys)"

text \<open>\<open>String(value)\<close> and \<open>Number(value)\<close>; \<open>null\<close> and \<open>undefined\<close> leave their place in an array empty.\<close>

definition elementString :: "('n, 'd) js_value \<Rightarrow> string \<Rightarrow> string" where
  "elementString v s = (case v of VUndefined \<Rightarrow> [] | VNull \<Rightarrow> [] | _ \<Rightarrow> s)"

fun jsToString :: "('n, 'd) js_host \<Rightarrow> ('n, 'd) js_value \<Rightarrow> string" where
  "jsToString h VUndefined = ''undefined''"
| "jsToString h VNull = ''null''"
| "jsToString h (VBool b) = (if b then ''true'' else ''false'')"
| "jsToString h (VNumber NaN) = ''NaN''"
| "jsToString h (VNumber (Num n)) = host_showNumber h n"
| "jsToString h (VString s) = s"
| "jsToString h (VArray xs) = joinWith '','' (map (\<lambda>v. elementString v (jsToString h v)) xs)"
| "jsToString h (VObject ps) = ''[object Object]''"
| "jsToString h (VDate None) = ''Invalid Date''"
| "jsToString h (VDate (Some ms)) = host_showDate h ms"
| "jsToString h (VDateTime d) = host_showDateTime h d"

definition stringToNumber :: "('n :: linordered_idom, 'd) js_host \<Rightarrow> string \<Rightarrow> 'n js_number" where
  "stringToNumber h s = (if trim s = [] then Num 0 else case host_parseNumber h (trim s) of None \<Rightarrow> NaN | Some n \<Rightarrow> Num n)"

fun jsToNumber :: "('n :: linordered_idom, 'd) js_host \<Rightarrow> ('n, 'd) js_value \<Rightarrow> 'n js_number" where
  "jsToNumber h VUndefined = NaN"
| "jsToNumber h VNull = Num 0"
| "jsToNumber h (VBool b) = Num (if b then 1 else 0)"
| "jsToNumber h (VNumber x) = x"
| "jsToNumber h (VString s) = stringToNumber h s"
| "jsToNumber h (VArray xs) = stringToNumber h (jsToString h (VArray xs))"
| "jsToNumber h (VObject ps) = NaN"
| "jsToNumber h (VDate ms) = (case ms of None \<Rightarrow> NaN | Some t \<Rightarrow> Num (of_int t))"
| "jsToNumber h (VDateTime d) = (if host_isValid h d then Num (of_int (host_toMillis h d)) else NaN)"

section \<open>Patterns\<close>

text \<open>
  The regular expressions of the file. A pattern gives the rests of a string that can follow a match at its beginning; a string
  matches as a whole if nothing can be left.
\<close>

type_synonym matcher = "string \<Rightarrow> string list"

definition oneOf :: "(char \<Rightarrow> bool) \<Rightarrow> matcher" where
  "oneOf p s = (case s of [] \<Rightarrow> [] | c # cs \<Rightarrow> if p c then [cs] else [])"

fun manyOf :: "(char \<Rightarrow> bool) \<Rightarrow> matcher" where
  "manyOf p [] = [[]]"
| "manyOf p (c # cs) = (c # cs) # (if p c then manyOf p cs else [])"

definition andThenMatch :: "matcher \<Rightarrow> matcher \<Rightarrow> matcher" where
  "andThenMatch m n s = concat (map n (m s))"

definition optionally :: "matcher \<Rightarrow> matcher" where
  "optionally m s = m s @ [s]"

definition inSequence :: "matcher list \<Rightarrow> matcher" where
  "inSequence ms = foldr andThenMatch ms (\<lambda>s. [s])"

definition matchesAll :: "matcher \<Rightarrow> string \<Rightarrow> bool" where
  "matchesAll m s \<longleftrightarrow> [] \<in> set (m s)"

definition isDigit :: "char \<Rightarrow> bool" where
  "isDigit c \<longleftrightarrow> 48 \<le> (of_char c :: nat) \<and> (of_char c :: nat) \<le> 57"

definition isLetter :: "char \<Rightarrow> bool" where
  "isLetter c \<longleftrightarrow> 65 \<le> (of_char c :: nat) \<and> (of_char c :: nat) \<le> 90 \<or> 97 \<le> (of_char c :: nat) \<and> (of_char c :: nat) \<le> 122"

definition alphanumericPattern :: matcher where
  "alphanumericPattern = inSequence [oneOf (\<lambda>c. isLetter c \<or> c = CHR ''_''), manyOf (\<lambda>c. isLetter c \<or> isDigit c \<or> c = CHR ''_'')]"

definition timePattern :: matcher where
  "timePattern =
     (let d = oneOf isDigit; colon = oneOf (\<lambda>c. c = CHR '':''); sign = oneOf (\<lambda>c. c = CHR ''-'' \<or> c = CHR ''+'')
      in inSequence [d, d, colon, d, d, optionally (inSequence [colon, d, d]), optionally (inSequence [sign, d, d, d, d]),
           optionally (inSequence [sign, d, optionally d, optionally (inSequence [colon, d, d])])])"

definition jwtPattern :: matcher where
  "jwtPattern =
     (let p = (\<lambda>c. isLetter c \<or> isDigit c \<or> c \<in> {CHR ''-'', CHR ''_''}); dot = oneOf (\<lambda>c. c = CHR ''.'')
      in inSequence [oneOf p, manyOf p, dot, oneOf p, manyOf p, dot, manyOf (\<lambda>c. p c \<or> c \<in> {CHR ''.'', CHR ''+'', CHR ''/'', CHR ''=''})])"

section \<open>Parsing to one type\<close>

definition tryToParseNumber :: "('n :: linordered_idom, 'd) js_host \<Rightarrow> ('n, 'd) js_value \<Rightarrow> 'n js_number result" where
  "tryToParseNumber h v = (if jsToNumber h v = NaN then Inl (ApplicationError ''Failed to parse value to number'') else Inr (jsToNumber h v))"

definition tryToParseString :: "('n, 'd) js_host \<Rightarrow> ('n, 'd) js_value \<Rightarrow> string" where
  "tryToParseString h v =
     (if jsTypeof v = ''object'' then host_stringify h v else if v = VUndefined then [] else jsToString h v)"

definition tryToParseAlphanumericString :: "('n, 'd) js_host \<Rightarrow> ('n, 'd) js_value \<Rightarrow> string result" where
  "tryToParseAlphanumericString h v =
     (let parsed = tryToParseString h v
      in if matchesAll alphanumericPattern parsed then Inr parsed else Inl (ApplicationError ''Value is not a valid alphanumeric string''))"

definition tryToParseBoolean :: "('n :: linordered_idom, 'd) js_host \<Rightarrow> ('n, 'd) js_value \<Rightarrow> bool result" where
  "tryToParseBoolean h v =
     (let viaNumber = (if jsToNumber h v = Num 0 then Inr False else if jsToNumber h v = Num 1 then Inr True
                       else Inl (ApplicationError ''Failed to parse value as boolean''))
      in case v of
           VBool b \<Rightarrow> Inr b
         | VString s \<Rightarrow> if lowerCase s \<in> {''true'', ''false''} then Inr (lowerCase s = ''true'')
                        else if trim s \<noteq> [] then viaNumber else Inl (ApplicationError ''Failed to parse value as boolean'')
         | _ \<Rightarrow> viaNumber)"

text \<open>The first valid date among several.\<close>

definition firstValid :: "('n, 'd) js_host \<Rightarrow> 'd list \<Rightarrow> 'd option" where
  "firstValid h ds = find (host_isValid h) ds"

definition tryToParseDateTime :: "('n, 'd) js_host \<Rightarrow> ('n, 'd) js_value \<Rightarrow> 'd result" where
  "tryToParseDateTime h v =
     (let dateString = trim (jsToString h v);
          itself = (case v of VDateTime d \<Rightarrow> [d] | VDate (Some ms) \<Rightarrow> [host_fromMillis h ms] | _ \<Rightarrow> []);
          parsed = [host_fromISO h dateString, host_fromHTTP h dateString, host_fromRFC2822 h dateString, host_fromSQL h dateString];
          millis = (case host_dateParse h dateString of None \<Rightarrow> [] | Some ms \<Rightarrow> [host_fromMillis h ms])
      in case firstValid h (itself @ parsed @ millis) of
           Some d \<Rightarrow> Inr d | None \<Rightarrow> Inl (ApplicationError ''Value is not a valid date''))"

definition tryToParseTime :: "('n, 'd) js_host \<Rightarrow> ('n, 'd) js_value \<Rightarrow> string result" where
  "tryToParseTime h v = (if matchesAll timePattern (jsToString h v) then Inr (jsToString h v)
     else Inl (ApplicationError ''Value is not a valid time''))"

definition doubleQuotes :: "string \<Rightarrow> string" where
  "doubleQuotes s = map (\<lambda>c. if c = CHR 0x27 then CHR 0x22 else c) s"

definition tryToParseArray :: "('n, 'd) js_host \<Rightarrow> ('n, 'd) js_value \<Rightarrow> ('n, 'd) js_value list result" where
  "tryToParseArray h v = (case v of VArray xs \<Rightarrow> Inr xs
     | _ \<Rightarrow> (let s = jsToString h v;
                parsed = (case host_jsonParse h s of Some w \<Rightarrow> Some w | None \<Rightarrow> host_jsonParse h (doubleQuotes s))
            in case parsed of Some (VArray xs) \<Rightarrow> Inr xs | _ \<Rightarrow> Inl (ApplicationError ''Value is not a valid array'')))"

text \<open>\<open>jsonParse\<close> of \<open>utils.ts\<close> with \<open>acceptJSObject\<close>.\<close>

definition jsonParseLoose :: "('n, 'd) js_host \<Rightarrow> string \<Rightarrow> ('n, 'd) js_value option" where
  "jsonParseLoose h s = (case host_jsonParse h s of Some v \<Rightarrow> Some v | None \<Rightarrow> host_parseJSObject h s)"

definition tryToParseObject :: "('n :: zero, 'd) js_host \<Rightarrow> ('n, 'd) js_value \<Rightarrow> ('n, 'd) js_value result" where
  "tryToParseObject h v =
     (if toBoolean v \<and> jsTypeof v = ''object'' \<and> \<not> isArray v then Inr v
      else case jsonParseLoose h (jsToString h v) of
          None \<Rightarrow> Inl (ApplicationError ''Value is not a valid object'')
        | Some w \<Rightarrow> if jsTypeof w \<noteq> ''object'' \<or> isArray w then Inl (ApplicationError ''Value is not a valid object'') else Inr w)"

fun isBinaryValue :: "('n, 'd) js_value \<Rightarrow> bool" where
  "isBinaryValue (VObject ps) \<longleftrightarrow> map_of ps ''mimeType'' \<noteq> None \<and> (map_of ps ''data'' \<noteq> None \<or> map_of ps ''id'' \<noteq> None)"
| "isBinaryValue _ = False"

definition tryToParseBinary :: "('n :: zero, 'd) js_value \<Rightarrow> ('n, 'd) js_value result" where
  "tryToParseBinary v = (if \<not> toBoolean v \<or> jsTypeof v \<noteq> ''object'' \<or> isArray v \<or> \<not> isBinaryValue v
     then Inl (ApplicationError ''Value is not a valid binary data object'') else Inr v)"

definition ALLOWED_URL_PROTOCOLS :: "string list" where
  "ALLOWED_URL_PROTOCOLS = [''http:'', ''https:'', ''ftp:'', ''file:'']"

fun includesString :: "string \<Rightarrow> string \<Rightarrow> bool" where
  "includesString s part = (take (length part) s = part \<or> (case s of [] \<Rightarrow> False | _ # cs \<Rightarrow> includesString cs part))"

declare includesString.simps [simp del]

definition tryToParseUrl :: "('n, 'd) js_host \<Rightarrow> ('n, 'd) js_value \<Rightarrow> string result" where
  "tryToParseUrl h v =
     (let v = (case v of VString s \<Rightarrow> if \<not> includesString s ''://'' then VString (''https://'' @ s) else v | _ \<Rightarrow> v);
          s = jsToString h v; err = Inl (ApplicationError (''The value '' @ [CHR 0x22] @ s @ [CHR 0x22] @ '' is not a valid url.''))
      in case host_urlProtocol h s of None \<Rightarrow> err
         | Some protocol \<Rightarrow> if protocol \<notin> set ALLOWED_URL_PROTOCOLS then err else Inr s)"

definition tryToParseJwt :: "('n :: zero, 'd) js_host \<Rightarrow> ('n, 'd) js_value \<Rightarrow> string result" where
  "tryToParseJwt h v =
     (let s = jsToString h v; err = Inl (ApplicationError (''The value '' @ [CHR 0x22] @ s @ [CHR 0x22] @ '' is not a valid JWT token.''))
      in if \<not> toBoolean v then err else if \<not> matchesAll jwtPattern s then err else Inr s)"

section \<open>Form fields\<close>

definition ALLOWED_FORM_FIELDS_KEYS :: "string list" where
  "ALLOWED_FORM_FIELDS_KEYS = [''fieldLabel'', ''fieldType'', ''placeholder'', ''defaultValue'', ''fieldOptions'', ''multiselect'',
     ''multipleFiles'', ''acceptFileTypes'', ''formatDate'', ''requiredField'', ''fieldValue'', ''elementName'', ''html'', ''fieldName'',
     ''limitSelection'', ''numberOfSelections'', ''minSelections'', ''maxSelections'']"

definition ALLOWED_FIELD_TYPES :: "string list" where
  "ALLOWED_FIELD_TYPES = [''date'', ''dropdown'', ''email'', ''file'', ''number'', ''password'', ''text'', ''textarea'', ''checkbox'',
     ''radio'', ''html'', ''hiddenField'']"

definition quoted :: "string \<Rightarrow> string" where
  "quoted s = [CHR 0x27] @ s @ [CHR 0x27]"

definition escapeChar :: "char \<Rightarrow> string" where
  "escapeChar c = (if c = CHR ''<'' then ''&lt;'' else if c = CHR ''>'' then ''&gt;'' else [c])"

definition escapeTags :: "string \<Rightarrow> string" where
  "escapeTags s = concat (map escapeChar s)"

definition invalidJson :: js_error where
  "invalidJson = ApplicationError ''Value is not valid JSON''"

text \<open>
  One entry of a field. The loop changes no value but the one of its key, so it is a map over the entries that can throw; an
  error that is not an \<open>ApplicationError\<close> ends as \<open>invalidJson\<close>.
\<close>

definition cleanValue :: "('n, 'd) js_host \<Rightarrow> string \<Rightarrow> ('n, 'd) js_value \<Rightarrow> ('n, 'd) js_value" where
  "cleanValue h key v =
     (if key \<noteq> ''fieldOptions'' \<and> jsTypeof v \<notin> {''string'', ''number'', ''boolean''} then VString (jsToString h v)
      else case v of VString s \<Rightarrow> if key \<noteq> ''html'' then VString (escapeTags s) else v | _ \<Rightarrow> v)"

definition checkOption :: "nat \<Rightarrow> nat \<Rightarrow> ('n, 'd) js_value \<Rightarrow> unit result" where
  "checkOption index optionIndex v =
     (let bad = Inl (ApplicationError (''Field dropdown in field '' @ nat_string index @ '' has an invalid option '' @ nat_string optionIndex))
      in case v of
           VUndefined \<Rightarrow> Inl invalidJson
         | VNull \<Rightarrow> Inl invalidJson
         | VObject ps \<Rightarrow> if length ps \<noteq> 1 then bad else (case map_of ps ''option'' of Some (VString s) \<Rightarrow> Inr () | _ \<Rightarrow> bad)
         | _ \<Rightarrow> bad)"

definition checkFieldOptions :: "nat \<Rightarrow> ('n :: zero, 'd) js_value \<Rightarrow> ('n, 'd) js_value result" where
  "checkFieldOptions index v =
     (let w = (if isArray v then VObject [(''values'', v)] else v);
          missing = Inl (ApplicationError (''Field dropdown in field '' @ nat_string index @
            '' does has no '' @ quoted ''values'' @ '' property that contain an array of options''))
      in if jsTypeof w \<noteq> ''object'' then missing
         else if w = VNull then Inl invalidJson
         else (case w of
             VObject ps \<Rightarrow> (case map_of ps ''values'' of
                 None \<Rightarrow> missing
               | Some vs \<Rightarrow> if \<not> toBoolean vs then missing
                   else (case vs of
                       VArray opts \<Rightarrow> ebind (efold (\<lambda>(i, opt) _. checkOption index i opt) (enumerate 0 opts) ()) (\<lambda>_. Inr w)
                     | _ \<Rightarrow> Inl invalidJson))
           | _ \<Rightarrow> missing))"

definition processEntry :: "('n :: zero, 'd) js_host \<Rightarrow> nat \<Rightarrow> string \<times> ('n, 'd) js_value \<Rightarrow> (string \<times> ('n, 'd) js_value) result" where
  "processEntry h index = (\<lambda>(key, v).
     if key \<notin> set ALLOWED_FORM_FIELDS_KEYS
     then Inl (ApplicationError (''Key '' @ quoted key @ '' in field '' @ nat_string index @ '' is not valid for form fields''))
     else let w = cleanValue h key v
       in if key = ''fieldType'' \<and> w \<notin> VString ` set ALLOWED_FIELD_TYPES
          then Inl (ApplicationError (''Field type '' @ quoted (jsToString h w) @ '' in field '' @ nat_string index @ '' is not valid for form fields''))
          else if key = ''fieldOptions'' then ebind (checkFieldOptions index w) (\<lambda>w'. Inr (key, w'))
          else Inr (key, w))"

definition processEntries :: "('n :: zero, 'd) js_host \<Rightarrow> nat \<Rightarrow> (string \<times> ('n, 'd) js_value) list \<Rightarrow> (string \<times> ('n, 'd) js_value) list result" where
  "processEntries h index ps = efold (\<lambda>entry acc. ebind (processEntry h index entry) (\<lambda>e. Inr (acc @ [e]))) ps []"

text \<open>A field of the list: \<open>Object.keys\<close> of a string or an array are its indices, of a number or truth value there are none.\<close>

definition processField :: "('n :: zero, 'd) js_host \<Rightarrow> nat \<Rightarrow> ('n, 'd) js_value \<Rightarrow> ('n, 'd) js_value result" where
  "processField h index v =
     (let badKey = Inl (ApplicationError (''Key '' @ quoted ''0'' @ '' in field '' @ nat_string index @ '' is not valid for form fields''))
      in case v of
           VObject ps \<Rightarrow> ebind (processEntries h index ps) (\<lambda>ps'. Inr (VObject ps'))
         | VUndefined \<Rightarrow> Inl invalidJson
         | VNull \<Rightarrow> Inl invalidJson
         | VString s \<Rightarrow> if s = [] then Inr v else badKey
         | VArray xs \<Rightarrow> if xs = [] then Inr v else badKey
         | _ \<Rightarrow> Inr v)"

definition tryToParseJsonToFormFields :: "('n :: zero, 'd) js_host \<Rightarrow> ('n, 'd) js_value \<Rightarrow> ('n, 'd) js_value list result" where
  "tryToParseJsonToFormFields h v = (case jsonParseLoose h (jsToString h v) of
       Some (VArray rawFields) \<Rightarrow>
         efold (\<lambda>(index, field) acc. ebind (processField h index field) (\<lambda>f. Inr (acc @ [f]))) (enumerate 0 rawFields) []
     | _ \<Rightarrow> Inl invalidJson)"

section \<open>All types\<close>

datatype field_type =
    FBoolean | FNumber | FString | FAlphanumeric | FDateTime | FTime | FArray | FObject | FOptions | FUrl | FJwt | FFormFields | FBinary

fun fieldTypeName :: "field_type \<Rightarrow> string" where
  "fieldTypeName FBoolean = ''boolean''"
| "fieldTypeName FNumber = ''number''"
| "fieldTypeName FString = ''string''"
| "fieldTypeName FAlphanumeric = ''string-alphanumeric''"
| "fieldTypeName FDateTime = ''dateTime''"
| "fieldTypeName FTime = ''time''"
| "fieldTypeName FArray = ''array''"
| "fieldTypeName FObject = ''object''"
| "fieldTypeName FOptions = ''options''"
| "fieldTypeName FUrl = ''url''"
| "fieldTypeName FJwt = ''jwt''"
| "fieldTypeName FFormFields = ''form-fields''"
| "fieldTypeName FBinary = ''binary''"

datatype ('n, 'd) validation_result = Valid "('n, 'd) js_value option" | Invalid string

record ('n, 'd) validate_options =
  vo_valueOptions :: "('n, 'd) js_value list"
  vo_strict :: bool
  vo_parseStrings :: bool

fun getValueDescription :: "('n, 'd) js_host \<Rightarrow> ('n, 'd) js_value \<Rightarrow> string" where
  "getValueDescription h VNull = quoted ''null''"
| "getValueDescription h (VArray xs) = ''array''"
| "getValueDescription h v = (if jsTypeof v = ''object'' then ''object'' else quoted (jsToString h v))"

text \<open>A parse function's result as a validation result, with the message for any exception.\<close>

definition orInvalid :: "string \<Rightarrow> ('n, 'd) js_value result \<Rightarrow> ('n, 'd) validation_result" where
  "orInvalid message r = (case r of Inl e \<Rightarrow> Invalid message | Inr w \<Rightarrow> Valid (Some w))"

text \<open>Strict equality of primitive values; two objects are only equal if they are the same object, which the options never hold.\<close>

fun strictEquals :: "('n, 'd) js_value \<Rightarrow> ('n, 'd) js_value \<Rightarrow> bool" where
  "strictEquals (VNumber (Num m)) (VNumber (Num n)) = (m = n)"
| "strictEquals (VString s) (VString t) = (s = t)"
| "strictEquals (VBool a) (VBool b) = (a = b)"
| "strictEquals VNull VNull = True"
| "strictEquals VUndefined VUndefined = True"
| "strictEquals _ _ = False"

definition errorMessage :: "js_error \<Rightarrow> string" where
  "errorMessage e = (case e of ApplicationError m \<Rightarrow> m | _ \<Rightarrow> [])"

definition validateFieldType ::
  "('n :: linordered_idom, 'd) js_host \<Rightarrow> string \<Rightarrow> ('n, 'd) js_value \<Rightarrow> field_type \<Rightarrow> ('n, 'd) validate_options \<Rightarrow> ('n, 'd) validation_result" where
  "validateFieldType h fieldName v ty opts =
     (if v = VNull \<or> v = VUndefined then Valid None
      else
        let strict = vo_strict opts;
            default = quoted fieldName @ '' expects a '' @ fieldTypeName ty @ '' but we got '' @ getValueDescription h v
        in case ty of
             FString \<Rightarrow> if \<not> vo_parseStrings opts then Valid (Some v)
                else if strict \<and> jsTypeof v \<noteq> ''string'' then Invalid default
                else Valid (Some (VString (tryToParseString h v)))
           | FAlphanumeric \<Rightarrow> orInvalid ''Value is not a valid alphanumeric string, only letters, numbers and underscore allowed''
                (map_sum id VString (tryToParseAlphanumericString h v))
           | FNumber \<Rightarrow> if strict \<and> jsTypeof v \<noteq> ''number'' then Invalid default
                else orInvalid default (map_sum id VNumber (tryToParseNumber h v))
           | FBoolean \<Rightarrow> if strict \<and> jsTypeof v \<noteq> ''boolean'' then Invalid default
                else orInvalid default (map_sum id VBool (tryToParseBoolean h v))
           | FDateTime \<Rightarrow> orInvalid (default @ '' <br/><br/> Consider using <a href='' @ [CHR 0x22] @
                  ''https://moment.github.io/luxon/api-docs/index.html#datetimefromformat'' @ [CHR 0x22] @ '' target='' @ [CHR 0x22] @ ''_blank'' @
                  [CHR 0x22] @ ''><code>DateTime.fromFormat</code></a> to work with custom date formats.'')
                (map_sum id VDateTime (tryToParseDateTime h v))
           | FTime \<Rightarrow> orInvalid (quoted fieldName @ '' expects time (hh:mm:(:ss)) but we got '' @ getValueDescription h v @ ''.'')
                (map_sum id VString (tryToParseTime h v))
           | FBinary \<Rightarrow> orInvalid (default @ ''. Make sure the value is a valid binary data object with '' @ quoted ''mimeType'' @ '' and '' @
                  quoted ''data'' @ '' or '' @ quoted ''id'' @ '' property.'') (tryToParseBinary v)
           | FObject \<Rightarrow> if strict \<and> jsTypeof v \<noteq> ''object'' then Invalid default else orInvalid default (tryToParseObject h v)
           | FArray \<Rightarrow> if strict \<and> \<not> isArray v then Invalid default else orInvalid default (map_sum id VArray (tryToParseArray h v))
           | FOptions \<Rightarrow> if \<not> (\<exists>w \<in> set (vo_valueOptions opts). strictEquals w v)
                then Invalid (quoted fieldName @ '' expects one of the following values: ['' @
                  joinWith '', '' (map (\<lambda>w. elementString w (jsToString h w)) (vo_valueOptions opts)) @ ''] but we got '' @ getValueDescription h v)
                else Valid (Some v)
           | FUrl \<Rightarrow> orInvalid default (map_sum id VString (tryToParseUrl h v))
           | FJwt \<Rightarrow> orInvalid ''Value is not a valid JWT token'' (map_sum id VString (tryToParseJwt h v))
           | FFormFields \<Rightarrow> (case tryToParseJsonToFormFields h v of Inl e \<Rightarrow> Invalid (errorMessage e) | Inr fs \<Rightarrow> Valid (Some (VArray fs))))"

section \<open>What a validated value is\<close>

text \<open>The shape of a form field that is an object: its keys are known, its type is one of the list, its options are named strings.\<close>

fun optionsShape :: "('n, 'd) js_value \<Rightarrow> bool" where
  "optionsShape (VObject ps) \<longleftrightarrow> (\<exists>opts. map_of ps ''values'' = Some (VArray opts) \<and>
     (\<forall>opt \<in> set opts. \<exists>s. opt = VObject [(''option'', VString s)]))"
| "optionsShape _ = False"

fun fieldShape :: "('n, 'd) js_value \<Rightarrow> bool" where
  "fieldShape (VObject ps) \<longleftrightarrow> (\<forall>(k, v) \<in> set ps. k \<in> set ALLOWED_FORM_FIELDS_KEYS \<and>
     (k = ''fieldType'' \<longrightarrow> v \<in> VString ` set ALLOWED_FIELD_TYPES) \<and> (k = ''fieldOptions'' \<longrightarrow> optionsShape v))"
| "fieldShape v \<longleftrightarrow> v \<noteq> VNull \<and> v \<noteq> VUndefined"

fun hasType :: "('n, 'd) js_host \<Rightarrow> ('n, 'd) validate_options \<Rightarrow> field_type \<Rightarrow> ('n, 'd) js_value \<Rightarrow> bool" where
  "hasType h opts FString v = (vo_parseStrings opts \<longrightarrow> (\<exists>s. v = VString s))"
| "hasType h opts FAlphanumeric v = (\<exists>s. v = VString s \<and> matchesAll alphanumericPattern s)"
| "hasType h opts FNumber v = (\<exists>n. v = VNumber (Num n))"
| "hasType h opts FBoolean v = (\<exists>b. v = VBool b)"
| "hasType h opts FDateTime v = (\<exists>d. v = VDateTime d \<and> host_isValid h d)"
| "hasType h opts FTime v = (\<exists>s. v = VString s \<and> matchesAll timePattern s)"
| "hasType h opts FArray v = (\<exists>xs. v = VArray xs)"
| "hasType h opts FObject v = (jsTypeof v = ''object'' \<and> \<not> isArray v)"
| "hasType h opts FOptions v = (\<exists>w \<in> set (vo_valueOptions opts). strictEquals w v)"
| "hasType h opts FUrl v = (\<exists>s protocol. v = VString s \<and> host_urlProtocol h s = Some protocol \<and> protocol \<in> set ALLOWED_URL_PROTOCOLS)"
| "hasType h opts FJwt v = (\<exists>s. v = VString s \<and> matchesAll jwtPattern s)"
| "hasType h opts FFormFields v = (\<exists>fs. v = VArray fs \<and> (\<forall>f \<in> set fs. fieldShape f))"
| "hasType h opts FBinary v = isBinaryValue v"

text \<open>A loop that collects results holds the result of each element.\<close>

lemma efold_collect:
  "efold (\<lambda>x acc. ebind (f x) (\<lambda>y. Inr (acc @ [y]))) xs acc = Inr ys \<longleftrightarrow> (\<exists>zs. ys = acc @ zs \<and> list_all2 (\<lambda>x z. f x = Inr z) xs zs)"
proof (induction xs arbitrary: acc)
  case (Cons x xs)
  show ?case
  proof (cases "f x")
    case (Inr y)
    then show ?thesis using Cons.IH [of "acc @ [y]"] by (auto simp: list_all2_Cons1)
  qed (simp add: list_all2_Cons1)
qed auto

lemma efold_check:
  "efold (\<lambda>x _. f x) xs () = Inr () \<longleftrightarrow> (\<forall>x \<in> set xs. f x = Inr ())"
proof (induction xs)
  case (Cons x xs)
  then show ?case by (cases "f x") auto
qed simp

lemma orInvalid_Valid [simp]: "orInvalid m r = Valid w \<longleftrightarrow> (\<exists>x. r = Inr x \<and> w = Some x)"
  by (cases r) (auto simp: orInvalid_def)

lemma map_sum_Inr [simp]: "map_sum id f r = Inr y \<longleftrightarrow> (\<exists>x. r = Inr x \<and> y = f x)"
  by (cases r) auto

lemma checkOption_ok: "checkOption i j v = Inr () \<Longrightarrow> \<exists>s. v = VObject [(''option'', VString s)]"
  by (auto simp: checkOption_def Let_def length_Suc_conv split: js_value.splits if_splits option.splits)

lemma checkFieldOptions_ok:
  assumes "checkFieldOptions index v = Inr w" shows "optionsShape w"
proof -
  define u where "u = (if isArray v then VObject [(''values'', v)] else v)"
  obtain ps opts where u: "u = VObject ps" "map_of ps ''values'' = Some (VArray opts)" "w = u"
      "efold (\<lambda>(i, opt) _. checkOption index i opt) (enumerate 0 opts) () = Inr ()"
    using assms unfolding checkFieldOptions_def Let_def u_def [symmetric]
    by (auto split: if_splits js_value.splits option.splits)
  have "\<forall>p \<in> set (enumerate 0 opts). checkOption index (fst p) (snd p) = Inr ()"
    using u(4) by (simp add: case_prod_unfold efold_check)
  then have "\<exists>s. opt = VObject [(''option'', VString s)]" if "opt \<in> set opts" for opt
    using that checkOption_ok by (metis in_set_conv_nth length_enumerate nth_enumerate_eq nth_mem snd_conv)
  with u(1-3) show ?thesis by simp
qed

lemma processEntry_ok:
  assumes "processEntry h index (k, v) = Inr q"
  shows "fst q = k \<and> k \<in> set ALLOWED_FORM_FIELDS_KEYS \<and> (k = ''fieldType'' \<longrightarrow> snd q \<in> VString ` set ALLOWED_FIELD_TYPES) \<and>
     (k = ''fieldOptions'' \<longrightarrow> optionsShape (snd q)) \<and> (k \<noteq> ''fieldOptions'' \<longrightarrow> snd q = cleanValue h k v)"
proof (cases "k = ''fieldOptions''")
  case True
  with assms show ?thesis by (auto simp: processEntry_def Let_def split: if_splits dest: checkFieldOptions_ok)
next
  case False
  with assms show ?thesis by (auto simp: processEntry_def Let_def split: if_splits)
qed

lemma processField_ok:
  assumes "processField h index v = Inr f" shows "fieldShape f"
proof (cases v)
  case (VObject ps)
  then obtain qs where q: "f = VObject qs" "list_all2 (\<lambda>p q. processEntry h index p = Inr q) ps qs"
    using assms by (auto simp: processField_def processEntries_def efold_collect)
  have "k \<in> set ALLOWED_FORM_FIELDS_KEYS \<and> (k = ''fieldType'' \<longrightarrow> w \<in> VString ` set ALLOWED_FIELD_TYPES) \<and> (k = ''fieldOptions'' \<longrightarrow> optionsShape w)"
    if kw: "(k, w) \<in> set qs" for k w
  proof -
    obtain i where i: "i < length qs" "qs ! i = (k, w)" using kw by (auto simp: in_set_conv_nth)
    obtain k' v' where p: "ps ! i = (k', v')" by fastforce
    have "processEntry h index (k', v') = Inr (k, w)" using list_all2_nthD2 [OF q(2) i(1)] i(2) p by simp
    from processEntry_ok [OF this, unfolded fst_conv snd_conv] show ?thesis by blast
  qed
  then show ?thesis unfolding q(1) by auto
qed (use assms in \<open>auto simp: processField_def split: if_splits\<close>)

lemma formFields_ok:
  assumes "tryToParseJsonToFormFields h v = Inr fs"
  obtains raw where "jsonParseLoose h (jsToString h v) = Some (VArray raw)" "length fs = length raw"
    "\<forall>i < length raw. processField h i (raw ! i) = Inr (fs ! i)"
proof -
  obtain raw where r: "jsonParseLoose h (jsToString h v) = Some (VArray raw)"
      "efold (\<lambda>(index, field) acc. ebind (processField h index field) (\<lambda>f. Inr (acc @ [f]))) (enumerate 0 raw) [] = Inr fs"
    using assms by (auto simp: tryToParseJsonToFormFields_def split: option.splits js_value.splits)
  then have "list_all2 (\<lambda>p f. processField h (fst p) (snd p) = Inr f) (enumerate 0 raw) fs"
    by (simp add: case_prod_unfold efold_collect)
  then have "length fs = length raw" "\<forall>i < length raw. processField h i (raw ! i) = Inr (fs ! i)"
    by (auto simp: list_all2_conv_all_nth nth_enumerate_eq)
  with r(1) that show ?thesis by blast
qed

lemma formFields_shape: "tryToParseJsonToFormFields h v = Inr fs \<Longrightarrow> f \<in> set fs \<Longrightarrow> fieldShape f"
  by (erule formFields_ok) (auto simp: in_set_conv_nth intro: processField_ok)

lemma validated_hasType:
  assumes "validateFieldType h fieldName v ty opts = Valid (Some w)" shows "hasType h opts ty w"
proof (cases ty)
  case FNumber
  then show ?thesis using assms
    by (cases "jsToNumber h v") (auto simp: validateFieldType_def Let_def tryToParseNumber_def split: if_splits)
next
  case FDateTime
  then show ?thesis using assms
    by (auto simp: validateFieldType_def Let_def tryToParseDateTime_def firstValid_def find_Some_iff split: if_splits option.splits)
next
  case FUrl
  then show ?thesis using assms
    by (auto simp: validateFieldType_def Let_def tryToParseUrl_def split: if_splits option.splits)
next
  case FFormFields
  then show ?thesis using assms by (auto simp: validateFieldType_def split: if_splits sum.splits dest: formFields_shape)
next
  case FObject
  then show ?thesis using assms
    by (auto simp: validateFieldType_def Let_def tryToParseObject_def split: if_splits option.splits)
qed (use assms in \<open>auto simp: validateFieldType_def Let_def tryToParseAlphanumericString_def tryToParseTime_def tryToParseJwt_def
      tryToParseBinary_def split: if_splits\<close>)

text \<open>A host that knows one number, one date, one list and one address, for the examples.\<close>

definition exHost :: "(int, int) js_host" where
  "exHost = \<lparr>host_parseNumber = (\<lambda>s. if s = ''42'' then Some 42 else None), host_showNumber = (\<lambda>n. if n = 42 then ''42'' else ''0''),
     host_showDate = (\<lambda>ms. ''date''), host_showDateTime = (\<lambda>d. ''2024-01-01''), host_stringify = (\<lambda>v. ''{}''),
     host_jsonParse = (\<lambda>s. if s = ''null'' then Some VNull
        else if s = ''[label]'' then Some (VArray [VObject [(''fieldLabel'', VString ''<b>'')]])
        else if s = ''[labels]'' then Some (VArray [VObject [(''fieldLabel'', VArray [VString ''<b>''])]]) else None),
     host_parseJSObject = (\<lambda>s. None), host_isValid = (\<lambda>d. 0 < d), host_toMillis = id, host_fromMillis = id,
     host_fromISO = (\<lambda>s. if s = ''2024-01-01'' then 1704067200000 else 0), host_fromHTTP = (\<lambda>s. 0), host_fromRFC2822 = (\<lambda>s. 0),
     host_fromSQL = (\<lambda>s. 0), host_dateParse = (\<lambda>s. None),
     host_urlProtocol = (\<lambda>s. if take 8 s = ''https://'' then Some ''https:'' else None),
     host_regexTest = (\<lambda>pattern flags s. Some (pattern = s))\<rparr>"

definition exOptions :: "(int, int) validate_options" where
  "exOptions = \<lparr>vo_valueOptions = [], vo_strict = False, vo_parseStrings = True\<rparr>"

text \<open>C27: What is validated has the type it was validated against: whatever the value, the type and the options, a valid result
  with a value holds one of that type, a number that is not \<open>NaN\<close>, a string of the pattern, a valid date, an address of an
  allowed protocol, form fields of known keys, types and options, and so on.\<close>
theorem validated_value_typed:
  assumes "validateFieldType h fieldName v ty opts = Valid (Some w)"
  shows "hasType h opts ty w"
  using assms by (rule validated_hasType)

lemma validated_value_typed_witness:
  "\<exists>w. validateFieldType exHost ''age'' (VString '' 42'') FNumber exOptions = Valid (Some w) \<and> hasType exHost exOptions FNumber w"
proof -
  have v: "validateFieldType exHost ''age'' (VString '' 42'') FNumber exOptions = Valid (Some (VNumber (Num 42)))" by code_simp
  from validated_value_typed [OF v] v show ?thesis by blast
qed

text \<open>The type \<open>object\<close> admits \<open>null\<close> where a string spells it, because \<open>typeof null\<close> is \<open>'object'\<close>.\<close>

lemma null_is_an_object:
  "validateFieldType exHost ''o'' (VString ''null'') FObject exOptions = Valid (Some VNull)"
  by code_simp

section \<open>Validation does not change what has the type\<close>

lemma strict_keeps:
  assumes "validateFieldType h fieldName v ty opts = Valid (Some w)" "vo_strict opts" "ty \<in> {FString, FNumber, FBoolean, FArray}"
  shows "w = v"
proof (cases ty)
  case FNumber
  then show ?thesis using assms by (cases v) (auto simp: validateFieldType_def Let_def tryToParseNumber_def split: if_splits)
next
  case FString
  then show ?thesis using assms by (cases v) (auto simp: validateFieldType_def Let_def tryToParseString_def split: if_splits)
next
  case FBoolean
  then show ?thesis using assms by (cases v) (auto simp: validateFieldType_def Let_def tryToParseBoolean_def split: if_splits)
next
  case FArray
  then show ?thesis using assms by (cases v) (auto simp: validateFieldType_def Let_def tryToParseArray_def split: if_splits)
qed (use assms in auto)

lemma alphanumeric_nonempty: "\<not> matchesAll alphanumericPattern []"
  by code_simp

lemma jwt_nonempty: "\<not> matchesAll jwtPattern []"
  by code_simp

lemma typed_is_fixed:
  assumes "hasType h opts ty w" "ty \<in> {FAlphanumeric, FNumber, FBoolean, FDateTime, FTime, FArray, FJwt, FBinary}"
  shows "validateFieldType h fieldName w ty opts = Valid (Some w)"
proof (cases ty)
  case FBinary
  then show ?thesis using assms by (cases w) (auto simp: validateFieldType_def Let_def tryToParseBinary_def)
next
  case FJwt
  then obtain s where "w = VString s" "matchesAll jwtPattern s" using assms by auto
  moreover have "s \<noteq> []" using calculation(2) jwt_nonempty by blast
  ultimately show ?thesis using FJwt by (simp add: validateFieldType_def tryToParseJwt_def Let_def)
next
  case FDateTime
  then show ?thesis using assms by (auto simp: validateFieldType_def Let_def tryToParseDateTime_def firstValid_def)
next
  case FNumber
  then show ?thesis using assms by (auto simp: validateFieldType_def Let_def tryToParseNumber_def)
next
  case FBoolean
  then show ?thesis using assms by (auto simp: validateFieldType_def Let_def tryToParseBoolean_def)
next
  case FArray
  then show ?thesis using assms by (auto simp: validateFieldType_def Let_def tryToParseArray_def)
next
  case FTime
  then show ?thesis using assms by (auto simp: validateFieldType_def Let_def tryToParseTime_def)
next
  case FAlphanumeric
  then show ?thesis using assms by (auto simp: validateFieldType_def Let_def tryToParseAlphanumericString_def tryToParseString_def)
qed (use assms in auto)

text \<open>Validating twice is validating once: a value that came out of the validation against a simple type is accepted again
  unchanged, be the second validation strict or not.\<close>
lemma validation_idempotent:
  assumes "validateFieldType h fieldName v ty opts = Valid (Some w)"
    and "ty \<in> {FAlphanumeric, FNumber, FBoolean, FDateTime, FTime, FArray, FJwt, FBinary}"
  shows "validateFieldType h fieldName w ty (opts\<lparr>vo_strict := b\<rparr>) = Valid (Some w)"
proof (rule typed_is_fixed [OF _ assms(2)])
  show "hasType h (opts\<lparr>vo_strict := b\<rparr>) ty w" using validated_hasType [OF assms(1)] assms(2) by (cases ty) simp_all
qed

lemma validation_idempotent_witness:
  "validateFieldType exHost ''age'' (VString '' 42'') FNumber exOptions = Valid (Some (VNumber (Num 42))) \<and>
   validateFieldType exHost ''age'' (VNumber (Num 42)) FNumber (exOptions\<lparr>vo_strict := True\<rparr>) = Valid (Some (VNumber (Num 42)))"
proof -
  have v: "validateFieldType exHost ''age'' (VString '' 42'') FNumber exOptions = Valid (Some (VNumber (Num 42)))" by code_simp
  have "FNumber \<in> {FAlphanumeric, FNumber, FBoolean, FDateTime, FTime, FArray, FJwt, FBinary}" by simp
  from validation_idempotent [OF v this, of True] v show ?thesis by blast
qed

section \<open>Form fields are cleaned\<close>

lemma escapeTags_free: "CHR ''<'' \<notin> set (escapeTags s) \<and> CHR ''>'' \<notin> set (escapeTags s)"
  by (induction s) (auto simp: escapeTags_def escapeChar_def)

text \<open>C30: Form fields that are given as text come out without tags: when the fields are accepted, there are as many as were given,
  each with the entries that were given, and a text under any key but \<open>html\<close> and \<open>fieldOptions\<close> has its angle brackets escaped.\<close>
theorem form_fields_escaped:
  assumes "tryToParseJsonToFormFields h v = Inr fs" and "jsonParseLoose h (jsToString h v) = Some (VArray raw)"
    and "i < length raw" and "raw ! i = VObject ps" and "j < length ps" and "ps ! j = (k, VString s)" and "k \<notin> {''html'', ''fieldOptions''}"
  shows "length fs = length raw \<and> (\<exists>qs. fs ! i = VObject qs \<and> map fst qs = map fst ps \<and>
    qs ! j = (k, VString (escapeTags s)) \<and> CHR ''<'' \<notin> set (escapeTags s) \<and> CHR ''>'' \<notin> set (escapeTags s))"
proof -
  obtain raw' where r: "jsonParseLoose h (jsToString h v) = Some (VArray raw')" "length fs = length raw'"
      "\<forall>i < length raw'. processField h i (raw' ! i) = Inr (fs ! i)"
    using formFields_ok [OF assms(1)] .
  have raw: "raw' = raw" using r(1) assms(2) by simp
  have "processField h i (VObject ps) = Inr (fs ! i)" using r(3) assms(3) raw unfolding assms(4) [symmetric] by blast
  then obtain qs where q: "fs ! i = VObject qs" "list_all2 (\<lambda>p q. processEntry h i p = Inr q) ps qs"
    by (force simp: processField_def processEntries_def efold_collect)
  have keys: "map fst qs = map fst ps"
  proof (rule nth_equalityI)
    show "length (map fst qs) = length (map fst ps)" using q(2) by (simp add: list_all2_lengthD)
    fix m assume "m < length (map fst qs)"
    then have m: "m < length ps" "m < length qs" using q(2) by (simp_all add: list_all2_lengthD)
    obtain k' v' where p: "ps ! m = (k', v')" by fastforce
    have "processEntry h i (k', v') = Inr (qs ! m)" using list_all2_nthD [OF q(2) m(1)] p by simp
    with processEntry_ok p m show "map fst qs ! m = map fst ps ! m" by fastforce
  qed
  have "processEntry h i (k, VString s) = Inr (qs ! j)" using list_all2_nthD [OF q(2) assms(5)] assms(6) by simp
  then have "fst (qs ! j) = k" "snd (qs ! j) = cleanValue h k (VString s)" using processEntry_ok assms(7) by fastforce+
  then have "qs ! j = (k, VString (escapeTags s))" using assms(7) by (cases "qs ! j") (simp add: cleanValue_def)
  then show ?thesis using r(2) raw q(1) keys escapeTags_free by blast
qed

lemma form_fields_escaped_witness:
  "\<exists>fs qs. tryToParseJsonToFormFields exHost (VString ''[label]'') = Inr fs \<and> fs ! 0 = VObject qs \<and>
     qs ! 0 = (''fieldLabel'', VString (escapeTags ''<b>''))"
proof -
  let ?raw = "[VObject [(''fieldLabel'', VString ''<b>'')]] :: (int, int) js_value list"
  have j: "jsonParseLoose exHost (jsToString exHost (VString ''[label]'')) = Some (VArray ?raw)" by code_simp
  have "\<exists>fs. tryToParseJsonToFormFields exHost (VString ''[label]'') = Inr fs"
  proof -
    have "tryToParseJsonToFormFields exHost (VString ''[label]'') = Inr [VObject [(''fieldLabel'', VString ''&lt;b&gt;'')]]" by code_simp
    then show ?thesis by blast
  qed
  then obtain fs where fs: "tryToParseJsonToFormFields exHost (VString ''[label]'') = Inr fs" by blast
  have "?raw ! 0 = VObject [(''fieldLabel'', VString ''<b>'')]" by simp
  from form_fields_escaped [OF fs j _ this, of 0 "''fieldLabel''" "''<b>''"] fs show ?thesis by auto
qed

text \<open>A value that is not a text is turned into one after the place where texts are escaped, so the brackets of a list stay.\<close>

lemma list_label_not_escaped:
  "tryToParseJsonToFormFields exHost (VString ''[labels]'') = Inr [VObject [(''fieldLabel'', VString ''<b>'')]]"
  by code_simp

end
