(* ===== verification/FilterParameter.thy ===== *)
theory FilterParameter imports TypeValidation
begin

text \<open>
  The filter parameter of the If, Filter and Switch nodes (\<open>workflow/src/node-parameters/filter-parameter.ts\<close>): the
  conversion of the two values of a condition to the types of its operator, the evaluation of a condition and of a filter, and the
  check of a filter in the editor. Values and their validation are those of \<open>TypeValidation\<close>. The cases of
  \<open>executeFilterCondition\<close> fall through to the next type where no operation matches, as in the source. The result of a condition
  is what its callers test, a truth value; regular expressions belong to the \<open>host\<close>.
\<close>

section \<open>Filters\<close>

datatype filter_operator_type = OpString | OpNumber | OpBoolean | OpArray | OpObject | OpDateTime | OpAny

record filter_operator =
  fo_type :: filter_operator_type
  fo_operation :: string
  fo_rightType :: "filter_operator_type option"
  fo_singleValue :: bool

record ('n, 'd) filter_condition =
  fc_leftValue :: "('n, 'd) js_value"
  fc_rightValue :: "('n, 'd) js_value"
  fc_operator :: filter_operator

record filter_options =
  fp_caseSensitive :: bool
  fp_strict :: bool
  fp_version :: "nat option"

record filter_metadata =
  fm_index :: "nat option"
  fm_itemIndex :: "nat option"
  fm_unresolvedExpressions :: bool
  fm_inline :: bool

datatype filter_combinator = CombineAnd | CombineOr | CombineUnknown string

record ('n, 'd) filter_value =
  fv_options :: filter_options
  fv_conditions :: "('n, 'd) filter_condition list"
  fv_combinator :: filter_combinator

datatype filter_error = FilterError string string | FilterTypeError | FilterSyntaxError

fun filterTypeName :: "filter_operator_type \<Rightarrow> string" where
  "filterTypeName OpString = ''string''"
| "filterTypeName OpNumber = ''number''"
| "filterTypeName OpBoolean = ''boolean''"
| "filterTypeName OpArray = ''array''"
| "filterTypeName OpObject = ''object''"
| "filterTypeName OpDateTime = ''dateTime''"
| "filterTypeName OpAny = ''any''"

fun fieldTypeOf :: "filter_operator_type \<Rightarrow> field_type" where
  "fieldTypeOf OpNumber = FNumber"
| "fieldTypeOf OpBoolean = FBoolean"
| "fieldTypeOf OpArray = FArray"
| "fieldTypeOf OpObject = FObject"
| "fieldTypeOf OpDateTime = FDateTime"
| "fieldTypeOf _ = FString"

section \<open>The values of a condition\<close>

definition filterValidation :: "bool \<Rightarrow> bool \<Rightarrow> ('n, 'd) validate_options" where
  "filterValidation strict parseStrings = \<lparr>vo_valueOptions = [], vo_strict = strict, vo_parseStrings = parseStrings\<rparr>"

definition blankValue :: "('n, 'd) js_value \<Rightarrow> bool" where
  "blankValue v = (case v of VString s \<Rightarrow> trim s = [] | VArray xs \<Rightarrow> xs = [] | _ \<Rightarrow> False)"

definition parseSingleFilterValue ::
  "('n :: linordered_idom, 'd) js_host \<Rightarrow> ('n, 'd) js_value \<Rightarrow> filter_operator_type \<Rightarrow> bool \<Rightarrow> nat \<Rightarrow> ('n, 'd) validation_result" where
  "parseSingleFilterValue h v ty strict version =
     (if ty = OpAny \<or> v = VNull \<or> v = VUndefined then Valid (Some v)
      else if ty = OpBoolean \<and> \<not> strict then
        (case (if version \<ge> 2 then validateFieldType h ''filter'' v FBoolean (filterValidation False False) else Invalid []) of
           Valid w \<Rightarrow> Valid w | Invalid m \<Rightarrow> Valid (Some (VBool (toBoolean v))))
      else if ty = OpNumber \<and> v = VNumber NaN then Valid (Some v)
      else if ty = OpNumber \<and> version \<ge> 3 \<and> blankValue v then Valid (Some VNull)
      else validateFieldType h ''filter'' v (fieldTypeOf ty) (filterValidation strict True))"

definition withIndefiniteArticle :: "string \<Rightarrow> string" where
  "withIndefiniteArticle noun = (if noun = [] \<or> hd noun \<in> set ''aeiou'' then ''an '' else ''a '') @ noun"

definition filterSuffix :: "filter_metadata \<Rightarrow> string" where
  "filterSuffix m = (if fm_inline m then ''[item '' @ nat_string (orElse (fm_itemIndex m) 0) @ '']''
     else ''[condition '' @ nat_string (orElse (fm_index m) 0) @ '', item '' @ nat_string (orElse (fm_itemIndex m) 0) @ '']'')"

definition composeInvalidTypeMessage :: "bool \<Rightarrow> string \<Rightarrow> string \<Rightarrow> string \<Rightarrow> string \<Rightarrow> string" where
  "composeInvalidTypeMessage strict suffix ty fromType v =
     (if strict then ''Wrong type: '' @ quoted v @ '' is '' @ withIndefiniteArticle (lowerCase fromType) @
          '' but was expecting '' @ withIndefiniteArticle ty @ '' '' @ suffix
      else ''Conversion error: the '' @ lowerCase fromType @ '' '' @ quoted v @ '' can'' @ [CHR 0x27] @ ''t be converted to '' @
          withIndefiniteArticle ty @ '' '' @ suffix)"

definition getTypeDescription :: "bool \<Rightarrow> string" where
  "getTypeDescription strict =
     (if strict then ''Try changing the type of comparison. Alternatively you can enable '' @ quoted ''Convert types where required'' @ ''.''
      else ''Try changing the type of the comparison.'')"

definition composeInvalidTypeDescription :: "bool \<Rightarrow> string \<Rightarrow> string \<Rightarrow> string" where
  "composeInvalidTypeDescription strict ty valuePosition =
     (let convert = (if ty = ''string'' then ''.toString()'' else if ty = ''number'' then ''.toNumber()''
                     else if ty = ''boolean'' then ''.toBoolean()'' else []);
          nl = [CHR 0x0A]
      in if strict \<and> convert \<noteq> []
         then nl @ ''<p>Try either:</p>'' @ nl @ ''<ol>'' @ nl @ ''  <li>Enabling '' @ quoted ''Convert types where required'' @ ''</li>'' @ nl @
           ''  <li>Converting the '' @ valuePosition @ '' field to '' @ withIndefiniteArticle ty @ '' by adding <code>'' @ convert @ ''</code></li>'' @
           nl @ ''</ol>'' @ nl @ [CHR 0x09, CHR 0x09, CHR 0x09]
         else getTypeDescription strict)"

fun isValid :: "('n, 'd) validation_result \<Rightarrow> bool" where
  "isValid (Valid w) = True"
| "isValid (Invalid m) = False"

fun newValue :: "('n, 'd) validation_result \<Rightarrow> ('n, 'd) js_value" where
  "newValue (Valid (Some w)) = w"
| "newValue _ = VUndefined"

definition isExpression :: "('n, 'd) js_value \<Rightarrow> bool" where
  "isExpression v = (case v of VString s \<Rightarrow> s \<noteq> [] \<and> hd s = CHR ''='' | _ \<Rightarrow> False)"

definition parseFilterConditionValues ::
  "('n :: linordered_idom, 'd) js_host \<Rightarrow> ('n, 'd) filter_condition \<Rightarrow> filter_options \<Rightarrow> filter_metadata \<Rightarrow>
    filter_error + ('n, 'd) js_value \<times> ('n, 'd) js_value" where
  "parseFilterConditionValues h condition options metadata =
     (let strict = fp_strict options; version = orElse (fp_version options) 1;
          operator = fc_operator condition; l = fc_leftValue condition; r = fc_rightValue condition;
          rightType = orElse (fo_rightType operator) (fo_type operator);
          parsedLeft = parseSingleFilterValue h l (fo_type operator) strict version;
          parsedRight = parseSingleFilterValue h r rightType strict version;
          leftValid = (isValid parsedLeft \<or> fm_unresolvedExpressions metadata \<and> isExpression l);
          rightValid = (isValid parsedRight \<or> fo_singleValue operator \<or> fm_unresolvedExpressions metadata \<and> isExpression r);
          suffix = filterSuffix metadata
      in if \<not> leftValid \<and> \<not> rightValid \<and> jsTypeof l = jsTypeof r
         then Inl (FilterError (''Comparison type expects '' @ withIndefiniteArticle (filterTypeName (fo_type operator)) @
             '' but both fields are '' @ withIndefiniteArticle (jsTypeof l)) (getTypeDescription strict))
         else if \<not> leftValid
         then Inl (FilterError (composeInvalidTypeMessage strict suffix (filterTypeName (fo_type operator)) (jsTypeof l) (jsToString h l))
             (composeInvalidTypeDescription strict (filterTypeName (fo_type operator)) ''first''))
         else if \<not> rightValid
         then Inl (FilterError (composeInvalidTypeMessage strict suffix (filterTypeName rightType) (jsTypeof r) (jsToString h r))
             (composeInvalidTypeDescription strict (filterTypeName rightType) ''second''))
         else Inr (newValue parsedLeft, newValue parsedRight))"

section \<open>Evaluating a condition\<close>

text \<open>A pattern \<open>/source/flags\<close>, or the source alone.\<close>

definition regexParts :: "string \<Rightarrow> (string \<times> string) option" where
  "regexParts pattern = (case pattern of [] \<Rightarrow> None
     | c # rest \<Rightarrow>
        (let flags = rev (takeWhile (\<lambda>x. x \<noteq> CHR ''/'') (rev rest)); body = take (length rest - length flags - 1) rest
         in if c = CHR ''/'' \<and> CHR ''/'' \<in> set rest \<and> set flags \<subseteq> set ''gimusy'' \<and> CHR 0x0A \<notin> set body \<and> CHR 0x0D \<notin> set body
            then Some (body, flags) else None))"

definition testPattern :: "('n :: zero, 'd) js_host \<Rightarrow> ('n, 'd) js_value \<Rightarrow> string \<Rightarrow> filter_error + bool" where
  "testPattern h v s =
     (let pattern = (case v of VString t \<Rightarrow> t | _ \<Rightarrow> []);
          (body, flags) = (case regexParts pattern of None \<Rightarrow> (pattern, []) | Some p \<Rightarrow> p)
      in if jsTypeof v \<noteq> ''string'' \<and> toBoolean v then Inl FilterTypeError
         else case host_regexTest h body flags s of None \<Rightarrow> Inl FilterSyntaxError | Some b \<Rightarrow> Inr b)"

fun nullish :: "('n, 'd) js_value \<Rightarrow> bool" where
  "nullish VUndefined = True"
| "nullish VNull = True"
| "nullish _ = False"

definition sameValueZero :: "('n, 'd) js_value \<Rightarrow> ('n, 'd) js_value \<Rightarrow> bool" where
  "sameValueZero a b \<longleftrightarrow> strictEquals a b \<or> a = VNumber NaN \<and> b = VNumber NaN"

definition arrayContainsValue :: "('n, 'd) js_value list \<Rightarrow> ('n, 'd) js_value \<Rightarrow> bool \<Rightarrow> bool" where
  "arrayContainsValue xs v ignoreCase = (case v of
       VString s \<Rightarrow> if ignoreCase then (\<exists>x \<in> set xs. case x of VString t \<Rightarrow> lowerCase t = lowerCase s | _ \<Rightarrow> False)
                    else (\<exists>x \<in> set xs. sameValueZero x v)
     | _ \<Rightarrow> (\<exists>x \<in> set xs. sameValueZero x v))"

text \<open>The comparison of numbers; every comparison with \<open>NaN\<close> is false.\<close>

fun numLess :: "'n :: linorder js_number \<Rightarrow> 'n js_number \<Rightarrow> bool" where
  "numLess (Num m) (Num n) = (m < n)"
| "numLess _ _ = False"

fun numLessEq :: "'n :: linorder js_number \<Rightarrow> 'n js_number \<Rightarrow> bool" where
  "numLessEq (Num m) (Num n) = (m \<le> n)"
| "numLessEq _ _ = False"

definition startsWithString :: "string \<Rightarrow> string \<Rightarrow> bool" where
  "startsWithString s part \<longleftrightarrow> take (length part) s = part"

definition endsWithString :: "string \<Rightarrow> string \<Rightarrow> bool" where
  "endsWithString s part \<longleftrightarrow> length part \<le> length s \<and> drop (length s - length part) s = part"

text \<open>The cases of the operator types: \<open>Inr None\<close> goes on to the next case.\<close>

type_synonym block = "filter_error + bool option"

definition decided :: "bool \<Rightarrow> block" where
  "decided b = Inr (Some b)"

definition stringOperation :: "('n :: zero, 'd) js_host \<Rightarrow> string \<Rightarrow> ('n, 'd) js_value \<Rightarrow> ('n, 'd) js_value \<Rightarrow> block" where
  "stringOperation h operation left right =
     (let s = jsToString h left; t = jsToString h right
      in if operation = ''empty'' then decided (s = [])
         else if operation = ''notEmpty'' then decided (s \<noteq> [])
         else if operation = ''equals'' then decided (strictEquals left right)
         else if operation = ''notEquals'' then decided (\<not> strictEquals left right)
         else if operation = ''contains'' then decided (includesString s t)
         else if operation = ''notContains'' then decided (\<not> includesString s t)
         else if operation = ''startsWith'' then decided (startsWithString s t)
         else if operation = ''notStartsWith'' then decided (\<not> startsWithString s t)
         else if operation = ''endsWith'' then decided (endsWithString s t)
         else if operation = ''notEndsWith'' then decided (\<not> endsWithString s t)
         else if operation = ''regex'' then map_sum id Some (testPattern h right s)
         else if operation = ''notRegex'' then map_sum id (\<lambda>b. Some (\<not> b)) (testPattern h right s)
         else Inr None)"

definition lowered :: "bool \<Rightarrow> ('n, 'd) js_value \<Rightarrow> ('n, 'd) js_value" where
  "lowered ignoreCase v = (case v of VString s \<Rightarrow> if ignoreCase then VString (lowerCase s) else v | _ \<Rightarrow> v)"

definition orEmpty :: "('n, 'd) js_value \<Rightarrow> ('n, 'd) js_value" where
  "orEmpty v = (if nullish v then VString [] else v)"

definition stringCase :: "('n :: zero, 'd) js_host \<Rightarrow> bool \<Rightarrow> string \<Rightarrow> ('n, 'd) js_value \<Rightarrow> ('n, 'd) js_value \<Rightarrow> block" where
  "stringCase h ignoreCase operation l r =
     stringOperation h operation (orEmpty (lowered ignoreCase l))
       (orEmpty (lowered (ignoreCase \<and> operation \<notin> {''regex'', ''notRegex''}) r))"

definition numberCase :: "('n :: linordered_idom, 'd) js_host \<Rightarrow> bool \<Rightarrow> string \<Rightarrow> ('n, 'd) js_value \<Rightarrow> ('n, 'd) js_value \<Rightarrow> block" where
  "numberCase h exist operation l r =
     (let m = jsToNumber h l; n = jsToNumber h r
      in if operation = ''empty'' then decided (\<not> exist)
         else if operation = ''notEmpty'' then decided exist
         else if operation = ''equals'' then decided (strictEquals l r)
         else if operation = ''notEquals'' then decided (\<not> strictEquals l r)
         else if operation = ''gt'' then decided (numLess n m)
         else if operation = ''lt'' then decided (numLess m n)
         else if operation = ''gte'' then decided (numLessEq n m)
         else if operation = ''lte'' then decided (numLessEq m n)
         else Inr None)"

definition compareDates :: "('n, 'd) js_host \<Rightarrow> (int \<Rightarrow> int \<Rightarrow> bool) \<Rightarrow> ('n, 'd) js_value \<Rightarrow> ('n, 'd) js_value \<Rightarrow> block" where
  "compareDates h p l r = (case (l, r) of
     (VDateTime a, VDateTime b) \<Rightarrow> decided (p (host_toMillis h a) (host_toMillis h b)) | _ \<Rightarrow> Inl FilterTypeError)"

definition dateCase :: "('n :: zero, 'd) js_host \<Rightarrow> bool \<Rightarrow> string \<Rightarrow> ('n, 'd) js_value \<Rightarrow> ('n, 'd) js_value \<Rightarrow> block" where
  "dateCase h exist operation l r =
     (if operation = ''empty'' then decided (\<not> exist)
      else if operation = ''notEmpty'' then decided exist
      else if \<not> toBoolean l \<or> \<not> toBoolean r then decided False
      else if operation = ''equals'' then compareDates h (=) l r
      else if operation = ''notEquals'' then compareDates h (\<noteq>) l r
      else if operation = ''after'' then compareDates h (>) l r
      else if operation = ''before'' then compareDates h (<) l r
      else if operation = ''afterOrEquals'' then compareDates h (\<ge>) l r
      else if operation = ''beforeOrEquals'' then compareDates h (\<le>) l r
      else Inr None)"

definition booleanCase :: "bool \<Rightarrow> string \<Rightarrow> ('n :: zero, 'd) js_value \<Rightarrow> ('n, 'd) js_value \<Rightarrow> block" where
  "booleanCase exist operation l r =
     (if operation = ''empty'' then decided (\<not> exist)
      else if operation = ''notEmpty'' then decided exist
      else if operation = ''true'' then decided (toBoolean l)
      else if operation = ''false'' then decided (\<not> toBoolean l)
      else if operation = ''equals'' then decided (strictEquals l r)
      else if operation = ''notEquals'' then decided (\<not> strictEquals l r)
      else Inr None)"

text \<open>The length of an array as a number; other values have none, which compares like \<open>NaN\<close>.\<close>

definition lengthOf :: "('n :: linordered_idom, 'd) js_value \<Rightarrow> ('n, 'd) js_value" where
  "lengthOf v = (case v of VArray xs \<Rightarrow> VNumber (Num (of_nat (length xs))) | _ \<Rightarrow> VUndefined)"

definition arrayOperation :: "('n :: linordered_idom, 'd) js_host \<Rightarrow> bool \<Rightarrow> string \<Rightarrow> ('n, 'd) js_value \<Rightarrow> ('n, 'd) js_value \<Rightarrow> block" where
  "arrayOperation h ignoreCase operation left r =
     (let m = jsToNumber h (lengthOf left); n = jsToNumber h r
      in if operation = ''contains'' then (case left of VArray xs \<Rightarrow> decided (arrayContainsValue xs r ignoreCase) | _ \<Rightarrow> Inl FilterTypeError)
         else if operation = ''notContains'' then (case left of VArray xs \<Rightarrow> decided (\<not> arrayContainsValue xs r ignoreCase) | _ \<Rightarrow> Inl FilterTypeError)
         else if operation = ''lengthEquals'' then decided (strictEquals (lengthOf left) r)
         else if operation = ''lengthNotEquals'' then decided (\<not> strictEquals (lengthOf left) r)
         else if operation = ''lengthGt'' then decided (numLess n m)
         else if operation = ''lengthLt'' then decided (numLess m n)
         else if operation = ''lengthGte'' then decided (numLessEq n m)
         else if operation = ''lengthLte'' then decided (numLessEq m n)
         else if operation = ''empty'' then decided (left = VArray [])
         else if operation = ''notEmpty'' then decided (left \<noteq> VArray [])
         else Inr None)"

definition arrayCase :: "('n :: linordered_idom, 'd) js_host \<Rightarrow> bool \<Rightarrow> string \<Rightarrow> ('n, 'd) js_value \<Rightarrow> ('n, 'd) js_value \<Rightarrow> block" where
  "arrayCase h ignoreCase operation l r = arrayOperation h ignoreCase operation (if nullish l then VArray [] else l) r"

definition noKeys :: "('n, 'd) js_value \<Rightarrow> bool" where
  "noKeys v = (case v of VObject ps \<Rightarrow> ps = [] | VArray xs \<Rightarrow> xs = [] | VString s \<Rightarrow> s = [] | VDateTime d \<Rightarrow> False | _ \<Rightarrow> True)"

definition objectCase :: "string \<Rightarrow> ('n :: zero, 'd) js_value \<Rightarrow> block" where
  "objectCase operation l =
     (if operation = ''empty'' then decided (\<not> toBoolean l \<or> noKeys l)
      else if operation = ''notEmpty'' then decided (toBoolean l \<and> \<not> noKeys l)
      else Inr None)"

text \<open>The first case that decides; when none does, the operator is unknown, which is false.\<close>

fun firstDecided :: "block list \<Rightarrow> filter_error + bool" where
  "firstDecided [] = Inr False"
| "firstDecided (Inl e # bs) = Inl e"
| "firstDecided (Inr None # bs) = firstDecided bs"
| "firstDecided (Inr (Some b) # bs) = Inr b"

definition evaluate ::
  "('n :: linordered_idom, 'd) js_host \<Rightarrow> filter_operator_type \<Rightarrow> string \<Rightarrow> bool \<Rightarrow> ('n, 'd) js_value \<Rightarrow> ('n, 'd) js_value \<Rightarrow> filter_error + bool" where
  "evaluate h ty operation ignoreCase l r =
     (let exist = (\<not> nullish l \<and> l \<noteq> VNumber NaN);
          number = numberCase h exist operation l r; date = dateCase h exist operation l r;
          boolean = booleanCase exist operation l r; array = arrayCase h ignoreCase operation l r; object = objectCase operation l
      in if operation = ''exists'' then Inr exist
         else if operation = ''notExists'' then Inr (\<not> exist)
         else firstDecided (case ty of
             OpString \<Rightarrow> [stringCase h ignoreCase operation l r]
           | OpNumber \<Rightarrow> [number, date, boolean, array, object]
           | OpDateTime \<Rightarrow> [date, boolean, array, object]
           | OpBoolean \<Rightarrow> [boolean, array, object]
           | OpArray \<Rightarrow> [array, object]
           | OpObject \<Rightarrow> [object]
           | OpAny \<Rightarrow> []))"

definition executeFilterCondition ::
  "('n :: linordered_idom, 'd) js_host \<Rightarrow> ('n, 'd) filter_condition \<Rightarrow> filter_options \<Rightarrow> filter_metadata \<Rightarrow> filter_error + bool" where
  "executeFilterCondition h condition options metadata =
     ebind (parseFilterConditionValues h condition options metadata)
       (\<lambda>(l, r). evaluate h (fo_type (fc_operator condition)) (fo_operation (fc_operator condition)) (\<not> fp_caseSensitive options) l r)"

section \<open>Evaluating a filter\<close>

fun everyPass :: "('a \<Rightarrow> 'e + bool) \<Rightarrow> 'a list \<Rightarrow> 'e + bool" where
  "everyPass f [] = Inr True"
| "everyPass f (x # xs) = ebind (f x) (\<lambda>b. if b then everyPass f xs else Inr False)"

fun somePass :: "('a \<Rightarrow> 'e + bool) \<Rightarrow> 'a list \<Rightarrow> 'e + bool" where
  "somePass f [] = Inr False"
| "somePass f (x # xs) = ebind (f x) (\<lambda>b. if b then Inr True else somePass f xs)"

definition conditionPass ::
  "('n :: linordered_idom, 'd) js_host \<Rightarrow> filter_options \<Rightarrow> nat option \<Rightarrow> nat \<times> ('n, 'd) filter_condition \<Rightarrow> filter_error + bool" where
  "conditionPass h options itemIndex = (\<lambda>(index, condition). executeFilterCondition h condition options
     \<lparr>fm_index = Some index, fm_itemIndex = itemIndex, fm_unresolvedExpressions = False, fm_inline = False\<rparr>)"

definition executeFilter :: "('n :: linordered_idom, 'd) js_host \<Rightarrow> ('n, 'd) filter_value \<Rightarrow> nat option \<Rightarrow> filter_error + bool" where
  "executeFilter h v itemIndex =
     (let pass = conditionPass h (fv_options v) itemIndex; cs = enumerate 0 (fv_conditions v)
      in case fv_combinator v of CombineAnd \<Rightarrow> everyPass pass cs | CombineOr \<Rightarrow> somePass pass cs | CombineUnknown s \<Rightarrow> Inr False)"

text \<open>
  The check of a filter in the editor. It looks for a \<open>FilterError\<close> that is thrown; \<open>parseFilterConditionValues\<close> returns its
  error, and so every condition leaves the issues as they are.
\<close>

definition validateFilterParameter ::
  "('n :: linordered_idom, 'd) js_host \<Rightarrow> string \<Rightarrow> ('n, 'd) filter_value \<Rightarrow> (string \<times> string list) list" where
  "validateFilterParameter h nm v =
     fold (\<lambda>(index, condition) issues.
        let returned = parseFilterConditionValues h condition (fv_options v)
              \<lparr>fm_index = Some index, fm_itemIndex = None, fm_unresolvedExpressions = True, fm_inline = True\<rparr>
        in issues) (enumerate 0 (fv_conditions v)) []"

section \<open>The values of a condition have the type of its operator\<close>

text \<open>Besides values of the type, a missing value, \<open>null\<close> and, for numbers, \<open>NaN\<close> are let through.\<close>

definition filterTyped :: "('n, 'd) js_host \<Rightarrow> filter_operator_type \<Rightarrow> ('n, 'd) js_value \<Rightarrow> bool" where
  "filterTyped h ty v \<longleftrightarrow> ty = OpAny \<or> nullish v \<or> ty = OpNumber \<and> v = VNumber NaN \<or> hasType h (filterValidation False True) (fieldTypeOf ty) v"

lemma hasType_options: "ty \<noteq> FString \<Longrightarrow> ty \<noteq> FOptions \<Longrightarrow> hasType h opts ty v = hasType h opts' ty v"
  by (cases ty) simp_all

lemma parseSingle_typed:
  assumes "isValid (parseSingleFilterValue h v ty strict version)"
  shows "filterTyped h ty (newValue (parseSingleFilterValue h v ty strict version))"
proof -
  have typed: "filterTyped h ty (newValue res)"
    if "res = validateFieldType h ''filter'' v (fieldTypeOf ty) opts" "isValid res" "vo_parseStrings opts" "vo_valueOptions opts = []" for res opts
  proof (cases res)
    case (Valid w)
    show ?thesis
    proof (cases w)
      case None
      with Valid show ?thesis by (simp add: filterTyped_def)
    next
      case (Some x)
      have "hasType h opts (fieldTypeOf ty) x" using that(1) Valid Some by (intro validated_hasType [of h "''filter''" v]) simp
      then have "hasType h (filterValidation False True) (fieldTypeOf ty) x"
        using that(3) by (cases ty) (auto simp: filterValidation_def)
      then show ?thesis by (simp add: Valid Some filterTyped_def)
    qed
  qed (use that in simp)
  show ?thesis
  proof (cases "ty = OpAny \<or> v = VNull \<or> v = VUndefined")
    case True
    then show ?thesis by (auto simp: parseSingleFilterValue_def filterTyped_def)
  next
    case given: False
    show ?thesis
    proof (cases "ty = OpBoolean \<and> \<not> strict")
      case True
      let ?r = "if version \<ge> 2 then validateFieldType h ''filter'' v FBoolean (filterValidation False False) else Invalid []"
      have eq: "parseSingleFilterValue h v ty strict version =
          (case ?r of Valid w \<Rightarrow> Valid w | Invalid m \<Rightarrow> Valid (Some (VBool (toBoolean v))))"
        using given True by (simp add: parseSingleFilterValue_def)
      show ?thesis
      proof (cases ?r)
        case (Valid w)
        then have r: "validateFieldType h ''filter'' v FBoolean (filterValidation False False) = Valid w" by (simp split: if_splits)
        show ?thesis
        proof (cases w)
          case None
          with eq Valid show ?thesis by (simp add: filterTyped_def)
        next
          case (Some x)
          from validated_hasType [OF r [unfolded Some]] show ?thesis using eq Valid Some True by (simp add: filterTyped_def)
        qed
      next
        case (Invalid m)
        with eq True show ?thesis by (simp add: filterTyped_def)
      qed
    next
      case notLoose: False
      show ?thesis
      proof (cases "ty = OpNumber \<and> (v = VNumber NaN \<or> version \<ge> 3 \<and> blankValue v)")
        case True
        then show ?thesis by (auto simp: parseSingleFilterValue_def filterTyped_def)
      next
        case False
        then have "parseSingleFilterValue h v ty strict version = validateFieldType h ''filter'' v (fieldTypeOf ty) (filterValidation strict True)"
          using given notLoose by (auto simp: parseSingleFilterValue_def)
        then show ?thesis using typed assms by (simp add: filterValidation_def)
      qed
    qed
  qed
qed

lemma newValue_invalid: "\<not> isValid r \<Longrightarrow> newValue r = VUndefined"
  by (cases r) simp_all

text \<open>C29: The values a condition is evaluated on have the types of its operator: whenever the two values of a condition are accepted,
  converted or not, each of them is missing, \<open>null\<close>, \<open>NaN\<close> where a number is expected, or a value of the expected type.\<close>
theorem filter_values_typed:
  assumes "parseFilterConditionValues h condition options metadata = Inr (l, r)"
  shows "filterTyped h (fo_type (fc_operator condition)) l \<and>
    filterTyped h (orElse (fo_rightType (fc_operator condition)) (fo_type (fc_operator condition))) r"
proof -
  have ok: "filterTyped h ty (newValue (parseSingleFilterValue h v ty strict version))" for ty v strict version
    using parseSingle_typed [of h v ty strict version] newValue_invalid [of "parseSingleFilterValue h v ty strict version"]
    by (cases "isValid (parseSingleFilterValue h v ty strict version)") (simp_all add: filterTyped_def)
  show ?thesis using assms ok by (auto simp: parseFilterConditionValues_def Let_def split: if_splits)
qed

section \<open>Operators and their opposites\<close>

fun oppositePairs :: "filter_operator_type \<Rightarrow> (string \<times> string) list" where
  "oppositePairs OpString = [(''exists'', ''notExists''), (''empty'', ''notEmpty''), (''equals'', ''notEquals''), (''contains'', ''notContains''),
     (''startsWith'', ''notStartsWith''), (''endsWith'', ''notEndsWith''), (''regex'', ''notRegex'')]"
| "oppositePairs OpNumber = [(''exists'', ''notExists''), (''empty'', ''notEmpty''), (''equals'', ''notEquals'')]"
| "oppositePairs OpDateTime = [(''exists'', ''notExists''), (''empty'', ''notEmpty'')]"
| "oppositePairs OpBoolean = [(''exists'', ''notExists''), (''empty'', ''notEmpty''), (''true'', ''false''), (''equals'', ''notEquals'')]"
| "oppositePairs OpArray = [(''exists'', ''notExists''), (''empty'', ''notEmpty''), (''contains'', ''notContains''), (''lengthEquals'', ''lengthNotEquals'')]"
| "oppositePairs OpObject = [(''exists'', ''notExists''), (''empty'', ''notEmpty'')]"
| "oppositePairs OpAny = [(''exists'', ''notExists'')]"

definition opposite :: "filter_operator_type \<Rightarrow> string \<Rightarrow> string \<Rightarrow> bool" where
  "opposite ty a b \<longleftrightarrow> (a, b) \<in> set (oppositePairs ty) \<or> (b, a) \<in> set (oppositePairs ty)"

definition negated :: "filter_error + bool \<Rightarrow> filter_error + bool" where
  "negated r = map_sum id Not r"

lemma negated_simps [simp]: "negated (Inl e) = Inl e" "negated (Inr b) = Inr (\<not> b)" "negated (negated r) = r"
  by (simp_all add: negated_def, cases r) simp_all

lemma stringOperation_simps:
  "stringOperation h ''empty'' l r = decided (jsToString h l = [])"
  "stringOperation h ''notEmpty'' l r = decided (jsToString h l \<noteq> [])"
  "stringOperation h ''equals'' l r = decided (strictEquals l r)"
  "stringOperation h ''notEquals'' l r = decided (\<not> strictEquals l r)"
  "stringOperation h ''contains'' l r = decided (includesString (jsToString h l) (jsToString h r))"
  "stringOperation h ''notContains'' l r = decided (\<not> includesString (jsToString h l) (jsToString h r))"
  "stringOperation h ''startsWith'' l r = decided (startsWithString (jsToString h l) (jsToString h r))"
  "stringOperation h ''notStartsWith'' l r = decided (\<not> startsWithString (jsToString h l) (jsToString h r))"
  "stringOperation h ''endsWith'' l r = decided (endsWithString (jsToString h l) (jsToString h r))"
  "stringOperation h ''notEndsWith'' l r = decided (\<not> endsWithString (jsToString h l) (jsToString h r))"
  "stringOperation h ''regex'' l r = map_sum id Some (testPattern h r (jsToString h l))"
  "stringOperation h ''notRegex'' l r = map_sum id (\<lambda>b. Some (\<not> b)) (testPattern h r (jsToString h l))"
  by (simp_all add: stringOperation_def)

lemma case_simps:
  "numberCase h e ''empty'' l r = decided (\<not> e)" "numberCase h e ''notEmpty'' l r = decided e"
  "numberCase h e ''equals'' l r = decided (strictEquals l r)" "numberCase h e ''notEquals'' l r = decided (\<not> strictEquals l r)"
  "dateCase h e ''empty'' l r = decided (\<not> e)" "dateCase h e ''notEmpty'' l r = decided e"
  "booleanCase e ''empty'' l r = decided (\<not> e)" "booleanCase e ''notEmpty'' l r = decided e"
  "booleanCase e ''true'' l r = decided (toBoolean l)" "booleanCase e ''false'' l r = decided (\<not> toBoolean l)"
  "booleanCase e ''equals'' l r = decided (strictEquals l r)" "booleanCase e ''notEquals'' l r = decided (\<not> strictEquals l r)"
  "objectCase ''empty'' l = decided (\<not> toBoolean l \<or> noKeys l)" "objectCase ''notEmpty'' l = decided (toBoolean l \<and> \<not> noKeys l)"
  "arrayOperation h c ''lengthEquals'' l r = decided (strictEquals (lengthOf l) r)"
  "arrayOperation h c ''lengthNotEquals'' l r = decided (\<not> strictEquals (lengthOf l) r)"
  "arrayOperation h c ''empty'' l r = decided (l = VArray [])" "arrayOperation h c ''notEmpty'' l r = decided (l \<noteq> VArray [])"
  "arrayOperation h c ''contains'' l r = (case l of VArray xs \<Rightarrow> decided (arrayContainsValue xs r c) | _ \<Rightarrow> Inl FilterTypeError)"
  "arrayOperation h c ''notContains'' l r = (case l of VArray xs \<Rightarrow> decided (\<not> arrayContainsValue xs r c) | _ \<Rightarrow> Inl FilterTypeError)"
  by (simp_all add: numberCase_def dateCase_def booleanCase_def objectCase_def arrayOperation_def)

lemma firstDecided_decided [simp]: "firstDecided (decided b # bs) = Inr b"
  by (simp add: decided_def)

lemma regex_opposite: "firstDecided (map_sum id (\<lambda>b. Some (\<not> b)) t # bs) = negated (firstDecided (map_sum id Some t # bs))"
  by (cases t) simp_all

lemma contains_decides:
  "firstDecided ((case l of VArray xs \<Rightarrow> decided (f xs) | _ \<Rightarrow> Inl e) # bs) = (case l of VArray xs \<Rightarrow> Inr (f xs) | _ \<Rightarrow> Inl e)"
  by (cases l) simp_all

lemma evaluate_exists:
  "evaluate h ty ''notExists'' c l r = negated (evaluate h ty ''exists'' c l r)"
  by (simp add: evaluate_def)

lemma evaluate_pairs:
  "list_all (\<lambda>(a, b). evaluate h ty b c l r = negated (evaluate h ty a c l r)) (oppositePairs ty)"
proof (cases ty)
  case OpString
  show ?thesis unfolding OpString
    by (simp add: evaluate_exists) (simp add: evaluate_def stringCase_def stringOperation_simps regex_opposite)
next
  case OpNumber
  show ?thesis unfolding OpNumber by (simp add: evaluate_exists) (simp add: evaluate_def case_simps)
next
  case OpDateTime
  show ?thesis unfolding OpDateTime by (simp add: evaluate_exists) (simp add: evaluate_def case_simps)
next
  case OpBoolean
  show ?thesis unfolding OpBoolean by (simp add: evaluate_exists) (simp add: evaluate_def case_simps)
next
  case OpArray
  show ?thesis unfolding OpArray by (simp add: evaluate_exists) (simp add: evaluate_def arrayCase_def case_simps contains_decides split: js_value.split)
next
  case OpObject
  show ?thesis unfolding OpObject by (simp add: evaluate_exists) (simp add: evaluate_def case_simps)
next
  case OpAny
  show ?thesis unfolding OpAny by (simp add: evaluate_exists)
qed

lemma evaluate_opposite:
  assumes "opposite ty a b" shows "evaluate h ty b c l r = negated (evaluate h ty a c l r)"
  using assms evaluate_pairs [of h ty c l r] unfolding opposite_def list_all_iff by fastforce

section \<open>Filters and their opposites\<close>

definition oppositeCondition :: "('n, 'd) filter_condition \<Rightarrow> ('n, 'd) filter_condition \<Rightarrow> bool" where
  "oppositeCondition p q \<longleftrightarrow> fc_leftValue q = fc_leftValue p \<and> fc_rightValue q = fc_rightValue p \<and>
     (\<exists>operation. fc_operator q = (fc_operator p)\<lparr>fo_operation := operation\<rparr> \<and> opposite (fo_type (fc_operator p)) (fo_operation (fc_operator p)) operation)"

lemma parse_opposite:
  assumes "oppositeCondition p q"
  shows "parseFilterConditionValues h q options m = parseFilterConditionValues h p options m"
proof -
  have "fc_leftValue q = fc_leftValue p" "fc_rightValue q = fc_rightValue p" "fo_type (fc_operator q) = fo_type (fc_operator p)"
    "fo_rightType (fc_operator q) = fo_rightType (fc_operator p)" "fo_singleValue (fc_operator q) = fo_singleValue (fc_operator p)"
    using assms by (auto simp: oppositeCondition_def)
  then show ?thesis unfolding parseFilterConditionValues_def Let_def by (simp only:)
qed

lemma execute_opposite:
  assumes "oppositeCondition p q"
  shows "executeFilterCondition h q options m = negated (executeFilterCondition h p options m)"
proof (cases "parseFilterConditionValues h p options m")
  case (Inl e)
  then show ?thesis by (simp add: executeFilterCondition_def parse_opposite [OF assms])
next
  case (Inr lr)
  obtain l r where "lr = (l, r)" by (cases lr)
  with Inr assms show ?thesis
    by (auto simp: executeFilterCondition_def parse_opposite [OF assms] oppositeCondition_def intro: evaluate_opposite)
qed

lemma every_some:
  assumes "list_all2 (\<lambda>x y. g y = negated (f x)) xs ys"
  shows "somePass g ys = negated (everyPass f xs)" "everyPass g ys = negated (somePass f xs)"
proof -
  show "somePass g ys = negated (everyPass f xs)" using assms
  proof (induction rule: list_all2_induct)
    case (Cons x xs y ys)
    then show ?case by (cases "f x") simp_all
  qed simp
  show "everyPass g ys = negated (somePass f xs)" using assms
  proof (induction rule: list_all2_induct)
    case (Cons x xs y ys)
    then show ?case by (cases "f x") simp_all
  qed simp
qed

fun swapCombinator :: "filter_combinator \<Rightarrow> filter_combinator" where
  "swapCombinator CombineAnd = CombineOr"
| "swapCombinator CombineOr = CombineAnd"
| "swapCombinator c = c"

lemma conditions_opposite:
  assumes "list_all2 oppositeCondition ps qs"
  shows "list_all2 (\<lambda>x y. conditionPass h options i y = negated (conditionPass h options i x)) (enumerate n ps) (enumerate n qs)"
  using assms
proof (induction arbitrary: n rule: list_all2_induct)
  case (Cons p ps q qs)
  from execute_opposite [OF Cons.hyps(1)] Cons.IH show ?case by (simp add: conditionPass_def)
qed simp


text \<open>Conditions for the examples: an age of at least 42, and a name.\<close>

definition exCondition :: "(int, int) js_value \<Rightarrow> filter_operator_type \<Rightarrow> string \<Rightarrow> (int, int) js_value \<Rightarrow> (int, int) filter_condition" where
  "exCondition l ty operation r = \<lparr>fc_leftValue = l, fc_rightValue = r,
     fc_operator = \<lparr>fo_type = ty, fo_operation = operation, fo_rightType = None, fo_singleValue = False\<rparr>\<rparr>"

definition exFilterOptions :: "bool \<Rightarrow> filter_options" where
  "exFilterOptions strict = \<lparr>fp_caseSensitive = False, fp_strict = strict, fp_version = Some 2\<rparr>"

definition exFilter :: "filter_combinator \<Rightarrow> string \<Rightarrow> string \<Rightarrow> (int, int) filter_value" where
  "exFilter combinator a b = \<lparr>fv_options = exFilterOptions False,
     fv_conditions = [exCondition (VString ''42'') OpNumber a (VNumber (Num 42)), exCondition (VString ''Ada'') OpString b (VString ''ADA'')],
     fv_combinator = combinator\<rparr>"

definition exMetadata :: filter_metadata where
  "exMetadata = \<lparr>fm_index = None, fm_itemIndex = None, fm_unresolvedExpressions = False, fm_inline = False\<rparr>"

lemma filter_values_typed_witness:
  "\<exists>l r. parseFilterConditionValues exHost (exCondition (VString ''42'') OpNumber ''equals'' (VNumber (Num 42))) (exFilterOptions False) exMetadata
     = Inr (l, r) \<and> filterTyped exHost OpNumber l \<and> filterTyped exHost OpNumber r"
proof -
  let ?c = "exCondition (VString ''42'') OpNumber ''equals'' (VNumber (Num 42))"
  have p: "parseFilterConditionValues exHost ?c (exFilterOptions False) exMetadata = Inr (VNumber (Num 42), VNumber (Num 42))" by code_simp
  from filter_values_typed [OF p] have "filterTyped exHost OpNumber (VNumber (Num 42))" by (simp add: exCondition_def)
  with p show ?thesis by blast
qed


text \<open>A date that is missing is neither equal nor not equal to another, so these two are no opposites.\<close>

lemma missing_date_neither:
  "evaluate exHost OpDateTime ''equals'' True VNull (VDateTime 5) = Inr False \<and>
   evaluate exHost OpDateTime ''notEquals'' True VNull (VDateTime 5) = Inr False"
  by code_simp

text \<open>
  The editor's check finds nothing: no filter has an issue, also one whose evaluation throws. The error is returned, and the check
  waits for it to be thrown.
\<close>

lemma validateFilterParameter_silent: "validateFilterParameter h nm v = []"
proof -
  have "fold (\<lambda>(index, condition) issues. issues) xs acc = acc" for xs :: "(nat \<times> ('a, 'b) filter_condition) list" and acc :: "(string \<times> string list) list"
    by (induction xs arbitrary: acc) auto
  then show ?thesis by (simp add: validateFilterParameter_def)
qed

lemma invalid_filter_without_issue:
  "validateFilterParameter exHost ''conditions'' (exFilter CombineAnd ''equals'' ''equals''\<lparr>fv_options := exFilterOptions True\<rparr>) = [] \<and>
   (\<exists>e. executeFilter exHost (exFilter CombineAnd ''equals'' ''equals''\<lparr>fv_options := exFilterOptions True\<rparr>) None = Inl e)"
proof -
  have "map_sum (\<lambda>e. ()) id (executeFilter exHost (exFilter CombineAnd ''equals'' ''equals''\<lparr>fv_options := exFilterOptions True\<rparr>) None) = Inl ()"
    by code_simp
  then have "\<exists>e. executeFilter exHost (exFilter CombineAnd ''equals'' ''equals''\<lparr>fv_options := exFilterOptions True\<rparr>) None = Inl e"
    by (cases "executeFilter exHost (exFilter CombineAnd ''equals'' ''equals''\<lparr>fv_options := exFilterOptions True\<rparr>) None") simp_all
  then show ?thesis by (simp add: validateFilterParameter_silent)
qed

text \<open>An operation that its type does not have is looked up among the types after it instead of being unknown.\<close>

lemma unknown_operation_falls_through:
  "evaluate exHost OpNumber ''true'' True (VNumber (Num 5)) (VNumber (Num 1)) = Inr True"
  by code_simp

end
