(* ===== verification/DisplayConditions.thy ===== *)
theory DisplayConditions imports FilterParameter
begin

text \<open>
  The conditions under which a node shows a parameter (\<open>workflow/src/node-helpers.ts\<close>): the values a condition is about, the
  operators of a condition, the features of a node version, and \<open>displayParameter\<close>. The values of a node's parameters are JavaScript
  values. lodash's \<open>get\<close> and \<open>isEqual\<close>, the \<open>toJSON\<close> of dates, the node and the description of its type are the argument \<open>param_env\<close>.
\<close>

section \<open>Data\<close>

record ('n, 'd) type_description =
  td_name :: string
  td_features :: "(string \<times> ('n, 'd) js_value list) list option"

record ('n, 'd) param_env =
  pe_host :: "('n, 'd) js_host"
  pe_get :: "('n, 'd) js_value \<Rightarrow> string \<Rightarrow> ('n, 'd) js_value"
  pe_isEqual :: "('n, 'd) js_value \<Rightarrow> ('n, 'd) js_value \<Rightarrow> bool"
  pe_toJSON :: "('n, 'd) js_value \<Rightarrow> string option"
  pe_typeVersion :: "'n option"
  pe_description :: "('n, 'd) type_description option"

record ('n, 'd) display_options =
  do_show :: "(string \<times> ('n, 'd) js_value list) list option"
  do_hide :: "(string \<times> ('n, 'd) js_value list) list option"

section \<open>Comparing values\<close>

text \<open>The operators \<open><\<close> and \<open><=\<close>: two texts are compared by their characters, everything else by number.\<close>

fun stringLess :: "string \<Rightarrow> string \<Rightarrow> bool" where
  "stringLess s [] = False"
| "stringLess [] (c # t) = True"
| "stringLess (b # s) (c # t) = (if b = c then stringLess s t else (of_char b :: nat) < of_char c)"

fun toPrimitive :: "('n :: linordered_idom, 'd) js_host \<Rightarrow> ('n, 'd) js_value \<Rightarrow> ('n, 'd) js_value" where
  "toPrimitive h (VArray xs) = VString (jsToString h (VArray xs))"
| "toPrimitive h (VObject ps) = VString (jsToString h (VObject ps))"
| "toPrimitive h (VDate t) = VNumber (jsToNumber h (VDate t))"
| "toPrimitive h (VDateTime d) = VNumber (jsToNumber h (VDateTime d))"
| "toPrimitive h v = v"

definition jsLess :: "('n :: linordered_idom, 'd) js_host \<Rightarrow> ('n, 'd) js_value \<Rightarrow> ('n, 'd) js_value \<Rightarrow> bool" where
  "jsLess h v w = (case (toPrimitive h v, toPrimitive h w) of
     (VString s, VString t) \<Rightarrow> stringLess s t | (x, y) \<Rightarrow> numLess (jsToNumber h x) (jsToNumber h y))"

definition jsLessEq :: "('n :: linordered_idom, 'd) js_host \<Rightarrow> ('n, 'd) js_value \<Rightarrow> ('n, 'd) js_value \<Rightarrow> bool" where
  "jsLessEq h v w = (case (toPrimitive h v, toPrimitive h w) of
     (VString s, VString t) \<Rightarrow> \<not> stringLess t s | (x, y) \<Rightarrow> numLessEq (jsToNumber h x) (jsToNumber h y))"

section \<open>Conditions\<close>

text \<open>The value under a key; reading a key of \<open>null\<close> or \<open>undefined\<close> throws, other values have no such key.\<close>

definition propertyOf :: "('n, 'd) js_value \<Rightarrow> string \<Rightarrow> ('n, 'd) js_value" where
  "propertyOf v key = (case v of VObject ps \<Rightarrow> orElse (map_of ps key) VUndefined | _ \<Rightarrow> VUndefined)"

fun firstEntry :: "('n, 'd) js_value \<Rightarrow> (string \<times> ('n, 'd) js_value) option" where
  "firstEntry (VObject (p # ps)) = Some p"
| "firstEntry (VArray (x # xs)) = Some (''0'', x)"
| "firstEntry (VString (c # cs)) = Some (''0'', VString [c])"
| "firstEntry v = None"

definition includesValue :: "('n, 'd) js_host \<Rightarrow> ('n, 'd) js_value \<Rightarrow> ('n, 'd) js_value \<Rightarrow> bool result" where
  "includesValue h v target = (case v of
       VString s \<Rightarrow> Inr (includesString s (jsToString h target))
     | VArray xs \<Rightarrow> Inr (\<exists>x \<in> set xs. sameValueZero x target)
     | _ \<Rightarrow> Inl TypeError)"

definition onString :: "(string \<Rightarrow> bool) \<Rightarrow> ('n, 'd) js_value \<Rightarrow> bool result" where
  "onString f v = (case v of VString s \<Rightarrow> Inr (f s) | _ \<Rightarrow> Inl TypeError)"

definition isPresent :: "('n, 'd) js_value \<Rightarrow> bool" where
  "isPresent v \<longleftrightarrow> \<not> nullish v \<and> v \<noteq> VString []"

definition conditionHolds ::
  "('n :: linordered_idom, 'd) param_env \<Rightarrow> string \<Rightarrow> ('n, 'd) js_value \<Rightarrow> ('n, 'd) js_value \<Rightarrow> bool result" where
  "conditionHolds env key target v =
     (let h = pe_host env
      in if key = ''eq'' then Inr (pe_isEqual env v target)
         else if key = ''not'' then Inr (\<not> pe_isEqual env v target)
         else if key = ''gte'' then Inr (jsLessEq h target v)
         else if key = ''lte'' then Inr (jsLessEq h v target)
         else if key = ''gt'' then Inr (jsLess h target v)
         else if key = ''lt'' then Inr (jsLess h v target)
         else if key = ''between''
         then (if nullish target then Inl TypeError
               else Inr (jsLessEq h (propertyOf target ''from'') v \<and> jsLessEq h v (propertyOf target ''to'')))
         else if key = ''includes'' then includesValue h v target
         else if key = ''startsWith'' then onString (\<lambda>s. startsWithString s (jsToString h target)) v
         else if key = ''endsWith'' then onString (\<lambda>s. endsWithString s (jsToString h target)) v
         else if key = ''regex''
         then (case host_regexTest h (if target = VUndefined then [] else jsToString h target) [] (jsToString h v) of
                 None \<Rightarrow> Inl (PlainError ''SyntaxError'') | Some b \<Rightarrow> Inr b)
         else if key = ''exists'' then Inr (isPresent v)
         else Inr False)"

text \<open>The object under \<open>_cnd\<close> where a condition has one.\<close>

definition conditionOf :: "('n :: zero, 'd) js_value \<Rightarrow> ('n, 'd) js_value option" where
  "conditionOf condition = (case condition of
     VObject ps \<Rightarrow> (let c = propertyOf condition ''_cnd'' in if toBoolean c \<and> length ps = 1 then Some c else None) | _ \<Rightarrow> None)"

definition checkCondition :: "('n :: linordered_idom, 'd) param_env \<Rightarrow> ('n, 'd) js_value list \<Rightarrow> ('n, 'd) js_value \<Rightarrow> bool result" where
  "checkCondition env actualValues condition = (case conditionOf condition of
       Some c \<Rightarrow> (case firstEntry c of
           None \<Rightarrow> Inl TypeError
         | Some (key, target) \<Rightarrow> if actualValues = [] then Inr (key = ''not'') else everyPass (conditionHolds env key target) actualValues)
     | None \<Rightarrow> Inr (\<exists>v \<in> set actualValues. sameValueZero v condition))"

definition checkConditions :: "('n :: linordered_idom, 'd) param_env \<Rightarrow> ('n, 'd) js_value list \<Rightarrow> ('n, 'd) js_value list \<Rightarrow> bool result" where
  "checkConditions env conditions actualValues = somePass (checkCondition env actualValues) conditions"

section \<open>The values a condition is about\<close>

definition evaluateFeature :: "('n :: linordered_idom, 'd) param_env \<Rightarrow> ('n, 'd) js_value list \<Rightarrow> 'n \<Rightarrow> bool result" where
  "evaluateFeature env conditions nodeVersion = checkConditions env conditions [VNumber (Num nodeVersion)]"

definition getNodeFeatures ::
  "('n :: linordered_idom, 'd) param_env \<Rightarrow> (string \<times> ('n, 'd) js_value list) list option \<Rightarrow> 'n \<Rightarrow> (string \<times> bool) list result" where
  "getNodeFeatures env featuresDef nodeVersion = (case featuresDef of
       None \<Rightarrow> Inr []
     | Some defs \<Rightarrow> efold (\<lambda>(nm, conditions) features.
          ebind (evaluateFeature env conditions nodeVersion) (\<lambda>b. Inr (AList.update nm b features))) defs [])"

text \<open>A resource locator stands for its value.\<close>

definition unwrapLocator :: "('n :: zero, 'd) js_value \<Rightarrow> ('n, 'd) js_value" where
  "unwrapLocator v = (if toBoolean (propertyOf v ''__rl'') then propertyOf v ''value'' else v)"

definition asValues :: "('n, 'd) js_value \<Rightarrow> ('n, 'd) js_value list" where
  "asValues v = (case v of VArray xs \<Rightarrow> xs | _ \<Rightarrow> [v])"

definition enabledFeatures :: "('n :: linordered_idom, 'd) param_env \<Rightarrow> ('n, 'd) js_value list result" where
  "enabledFeatures env = (case (pe_description env, pe_typeVersion env) of
       (Some d, Some version) \<Rightarrow>
         if td_features d = None \<or> version = 0 then Inr []
         else ebind (getNodeFeatures env (td_features d) version) (\<lambda>features. Inr (map (VString \<circ> fst) (filter snd features)))
     | _ \<Rightarrow> Inr [])"

definition getPropertyValues ::
  "('n :: linordered_idom, 'd) param_env \<Rightarrow> ('n, 'd) js_value \<Rightarrow> string \<Rightarrow> ('n, 'd) js_value \<Rightarrow> ('n, 'd) js_value list result" where
  "getPropertyValues env nodeValues propertyName nodeValuesRoot =
     (let answer = (\<lambda>v. Inr (asValues (unwrapLocator v)))
      in if propertyName \<noteq> [] \<and> hd propertyName = CHR ''/'' then answer (pe_get env nodeValuesRoot (tl propertyName))
         else if propertyName = ''@version'' then answer (VNumber (Num (orElse (pe_typeVersion env) 0)))
         else if propertyName = ''@tool''
         then answer (VBool (case pe_description env of None \<Rightarrow> False | Some d \<Rightarrow> endsWithString (td_name d) ''Tool''))
         else if propertyName = ''@feature'' then enabledFeatures env
         else answer (pe_get env nodeValues propertyName))"

section \<open>Displaying a parameter\<close>

text \<open>The loops over the rules: \<open>Some b\<close> is a \<open>return b\<close> in the body.\<close>

fun showRules ::
  "('n :: linordered_idom, 'd) param_env \<Rightarrow> ('n, 'd) js_value \<Rightarrow> ('n, 'd) js_value \<Rightarrow> (string \<times> ('n, 'd) js_value list) list \<Rightarrow> bool option result" where
  "showRules env nodeValues root [] = Inr None"
| "showRules env nodeValues root ((propertyName, conditions) # rules) =
     ebind (getPropertyValues env nodeValues propertyName root) (\<lambda>vs.
       if list_ex isExpression vs then Inr (Some True)
       else ebind (checkConditions env conditions vs) (\<lambda>b. if \<not> b then Inr (Some False) else showRules env nodeValues root rules))"

fun hideRules ::
  "('n :: linordered_idom, 'd) param_env \<Rightarrow> ('n, 'd) js_value \<Rightarrow> ('n, 'd) js_value \<Rightarrow> (string \<times> ('n, 'd) js_value list) list \<Rightarrow> bool option result" where
  "hideRules env nodeValues root [] = Inr None"
| "hideRules env nodeValues root ((propertyName, conditions) # rules) =
     ebind (getPropertyValues env nodeValues propertyName root) (\<lambda>vs.
       ebind (if vs = [] then Inr False else checkConditions env conditions vs) (\<lambda>b.
         if b then Inr (Some False) else hideRules env nodeValues root rules))"

definition displayParameter ::
  "('n :: linordered_idom, 'd) param_env \<Rightarrow> ('n, 'd) js_value \<Rightarrow> ('n, 'd) display_options option \<Rightarrow> ('n, 'd) js_value option \<Rightarrow> bool result" where
  "displayParameter env nodeValues displayOptions nodeValuesRoot = (case displayOptions of
       None \<Rightarrow> Inr True
     | Some d \<Rightarrow>
         (let root = orElse nodeValuesRoot nodeValues
          in ebind (showRules env nodeValues root (orElse (do_show d) [])) (\<lambda>r. case r of
               Some b \<Rightarrow> Inr b
             | None \<Rightarrow> ebind (hideRules env nodeValues root (orElse (do_hide d) [])) (\<lambda>r. Inr (orElse r True)))))"

definition displayParameterPath ::
  "('n :: linordered_idom, 'd) param_env \<Rightarrow> ('n, 'd) js_value \<Rightarrow> ('n, 'd) display_options option \<Rightarrow> string \<Rightarrow> bool result" where
  "displayParameterPath env nodeValues displayOptions path =
     (let resolved = (if path \<noteq> [] then pe_get env nodeValues path else nodeValues);
          root = (if takeWhile (\<lambda>c. c \<noteq> CHR ''.'') path = ''parameters'' then pe_get env nodeValues ''parameters'' else nodeValues)
      in displayParameter env resolved displayOptions (if toBoolean root then Some root else None))"

text \<open>An expression among the values of a rule decides: the rules after it and those that hide the parameter are not read.\<close>

lemma expression_decides:
  assumes "do_show d = Some ((propertyName, conditions) # rules)"
    and "getPropertyValues env vals propertyName root = Inr vs" and "list_ex isExpression vs"
  shows "displayParameter env vals (Some d) (Some root) = Inr True"
  using assms by (simp add: displayParameter_def)

end
