(* ===== verification/ParameterOrder.thy ===== *)
theory ParameterOrder imports DisplayConditions
begin

text \<open>
  The order in which the parameters of a node are resolved (\<open>getParameterDependencies\<close> and \<open>getParameterResolveOrder\<close> of
  \<open>workflow/src/node-helpers.ts\<close>). A parameter depends on those its display options name. The loop takes an index from the front of
  a queue and puts it back at the end for each dependency that is not resolved; the statement that was meant to leave
  the iteration there only goes on with the inner loop, so the index is added to the order all the same. The loop ends on every input, which
  the termination proof shows.
\<close>

section \<open>Properties of a node\<close>

datatype ('n, 'd) node_property = NodeProperty
  (np_name: string)
  (np_type: string)
  (np_default: "('n, 'd) js_value")
  (np_displayOptions: "('n, 'd) display_options option")
  (np_noDataExpression: bool)
  (np_multipleValues: "bool option")
  (np_options: "('n, 'd) node_property list")
  (np_collections: "(string \<times> ('n, 'd) node_property list) list")

section \<open>Dependencies\<close>

definition ruleNames :: "('n, 'd) display_options option \<Rightarrow> string list" where
  "ruleNames displayOptions = (case displayOptions of
     None \<Rightarrow> [] | Some d \<Rightarrow> map fst (orElse (do_show d) []) @ map fst (orElse (do_hide d) []))"

definition startsWithChar :: "char \<Rightarrow> string \<Rightarrow> bool" where
  "startsWithChar c s \<longleftrightarrow> s \<noteq> [] \<and> hd s = c"

definition addDependency :: "string \<Rightarrow> string list \<Rightarrow> string list" where
  "addDependency parameterName ds = (if parameterName \<in> set ds \<or> startsWithChar CHR ''@'' parameterName then ds else ds @ [parameterName])"

definition getParameterDependencies :: "('n, 'd) node_property list \<Rightarrow> (string \<times> string list) list" where
  "getParameterDependencies properties =
     fold (\<lambda>p dependencies. AList.update (np_name p)
        (fold addDependency (ruleNames (np_displayOptions p)) (orElse (map_of dependencies (np_name p)) [])) dependencies) properties []"

section \<open>The order\<close>

definition missingDependencies :: "string list \<Rightarrow> string list \<Rightarrow> string list" where
  "missingDependencies resolved ds = filter (\<lambda>d. d \<notin> set resolved \<and> \<not> startsWithChar CHR ''/'' d) ds"

definition maxIterations :: js_error where
  "maxIterations = ApplicationError ''Could not resolve parameter dependencies. Max iterations reached! Hint: If `displayOptions` are specified in any child parameter of a parent `collection` or `fixedCollection`, remove the `displayOptions` from the child parameter.''"

text \<open>For the termination: the names of the queue that are not resolved, and the entries of the queue that will not be put back.\<close>

definition unresolvedNames :: "string list \<Rightarrow> nat list \<Rightarrow> string list \<Rightarrow> string set" where
  "unresolvedNames names queue resolved = (\<lambda>i. names ! i) ` set queue - set resolved"

definition readyEntries :: "string list \<Rightarrow> (string \<times> string list) list \<Rightarrow> nat list \<Rightarrow> string list \<Rightarrow> nat list" where
  "readyEntries names dependencies queue resolved =
     filter (\<lambda>i. missingDependencies resolved (orElse (map_of dependencies (names ! i)) []) = []) queue"

lemma missing_same: "set resolved = set resolved' \<Longrightarrow> missingDependencies resolved ds = missingDependencies resolved' ds"
  by (simp add: missingDependencies_def)

lemma unresolved_pop:
  assumes "set queue' \<subseteq> insert i (set queue)"
  shows "card (unresolvedNames names queue' (resolved @ [names ! i])) \<le> card (unresolvedNames names (i # queue) resolved)"
    and "card (unresolvedNames names queue' (resolved @ [names ! i])) = card (unresolvedNames names (i # queue) resolved) \<Longrightarrow>
         names ! i \<in> set resolved"
proof -
  have sub: "unresolvedNames names queue' (resolved @ [names ! i]) \<subseteq> unresolvedNames names (i # queue) resolved - {names ! i}"
    using assms by (auto simp: unresolvedNames_def)
  have fin: "finite (unresolvedNames names (i # queue) resolved)" by (simp add: unresolvedNames_def)
  show "card (unresolvedNames names queue' (resolved @ [names ! i])) \<le> card (unresolvedNames names (i # queue) resolved)"
    using sub fin by (intro card_mono) auto
  assume eq: "card (unresolvedNames names queue' (resolved @ [names ! i])) = card (unresolvedNames names (i # queue) resolved)"
  show "names ! i \<in> set resolved"
  proof (rule ccontr)
    assume "names ! i \<notin> set resolved"
    then have "names ! i \<in> unresolvedNames names (i # queue) resolved" by (simp add: unresolvedNames_def)
    with sub have "unresolvedNames names queue' (resolved @ [names ! i]) \<subset> unresolvedNames names (i # queue) resolved" by blast
    from psubset_card_mono [OF fin this] eq show False by simp
  qed
qed

lemma ready_same: "x \<in> set resolved \<Longrightarrow> readyEntries names dependencies queue (resolved @ [x]) = readyEntries names dependencies queue resolved"
  unfolding readyEntries_def by (intro filter_cong refl) (metis missing_same insert_absorb list.simps(15) rotate1.simps(2) set_rotate1)

function resolveLoop ::
  "string list \<Rightarrow> (string \<times> string list) list \<Rightarrow> nat list \<Rightarrow> nat list \<Rightarrow> string list \<Rightarrow> int \<Rightarrow> nat \<Rightarrow> int \<Rightarrow> nat list result" where
  "resolveLoop names dependencies [] order resolved iterations lastIndexLength lastIndexReduction = Inr order"
| "resolveLoop names dependencies (i # queue) order resolved iterations lastIndexLength lastIndexReduction =
     (if length names \<le> i then Inl TypeError
      else case map_of dependencies (names ! i) of
          None \<Rightarrow> Inl TypeError
        | Some ds \<Rightarrow>
            if ds = []
            then resolveLoop names dependencies queue (order @ [i]) (resolved @ [names ! i]) (iterations + 1) lastIndexLength lastIndexReduction
            else
              (let queue' = queue @ replicate (length (missingDependencies resolved ds)) i;
                   reduction = (if length queue' < lastIndexLength then iterations + 1 else lastIndexReduction)
               in if iterations + 1 > reduction + int (length names)
                  then Inl maxIterations
                  else resolveLoop names dependencies queue' (order @ [i]) (resolved @ [names ! i]) (iterations + 1) (length queue') reduction))"
  by pat_completeness auto
termination
proof (relation "measures [\<lambda>(names, dependencies, queue, order, resolved, iterations, lastLength, lastReduction). card (unresolvedNames names queue resolved),
    \<lambda>(names, dependencies, queue, order, resolved, iterations, lastLength, lastReduction). length (readyEntries names dependencies queue resolved),
    \<lambda>(names, dependencies, queue, order, resolved, iterations, lastLength, lastReduction). if length queue < lastLength then 1 else 0,
    \<lambda>(names, dependencies, queue, order, resolved, iterations, lastLength, lastReduction). nat (lastReduction + int (length names) + 1 - iterations)]", goal_cases)
  case 1
  then show ?case by simp
next
  case (2 names dependencies i queue order resolved iterations lastLength lastReduction ds)
  have sub: "set queue \<subseteq> insert i (set queue)" by auto
  show ?case
  proof (cases "card (unresolvedNames names queue (resolved @ [names ! i])) = card (unresolvedNames names (i # queue) resolved)")
    case False
    with unresolved_pop(1) [OF sub, of names resolved] show ?thesis by simp
  next
    case True
    from ready_same [OF unresolved_pop(2) [OF sub True], of names dependencies queue]
    have "length (readyEntries names dependencies queue (resolved @ [names ! i])) < length (readyEntries names dependencies (i # queue) resolved)"
      using 2 by (simp add: readyEntries_def missingDependencies_def)
    with True show ?thesis by simp
  qed
next
  case (3 names dependencies i queue order resolved iterations lastLength lastReduction ds queue' reduction)
  have "queue' = queue @ replicate (length (missingDependencies resolved ds)) i" using 3 by simp
  then have sub: "set queue' \<subseteq> insert i (set queue)" by (auto simp: set_replicate_conv_if)
  show ?case
  proof (cases "card (unresolvedNames names queue' (resolved @ [names ! i])) = card (unresolvedNames names (i # queue) resolved)")
    case False
    with unresolved_pop(1) [OF sub, of names resolved] show ?thesis by simp
  next
    case True
    from unresolved_pop(2) [OF sub True] have "names ! i \<in> set resolved" .
    note same = ready_same [OF this, of names dependencies queue']
    show ?thesis
    proof (cases "missingDependencies resolved ds = []")
      case True
      with 3 same have "length (readyEntries names dependencies queue' (resolved @ [names ! i])) < length (readyEntries names dependencies (i # queue) resolved)"
        by (simp add: readyEntries_def)
      with \<open>card _ = card _\<close> show ?thesis by simp
    next
      case False
      have r: "length (readyEntries names dependencies queue' (resolved @ [names ! i])) = length (readyEntries names dependencies (i # queue) resolved)"
        using 3 same False by (simp add: readyEntries_def)
      have len: "length (i # queue) \<le> length queue'" using 3 False by (cases "missingDependencies resolved ds") simp_all
      show ?thesis
      proof (cases "length (i # queue) < lastLength")
        case True
        with r \<open>card _ = card _\<close> show ?thesis by simp
      next
        case False
        then have "reduction = lastReduction" using 3 len by simp
        with 3 False r \<open>card _ = card _\<close> show ?thesis by simp
      qed
    qed
  qed
qed

declare resolveLoop.simps(2) [simp del]

definition getParameterResolveOrder :: "('n, 'd) node_property list \<Rightarrow> (string \<times> string list) list \<Rightarrow> nat list result" where
  "getParameterResolveOrder properties dependencies =
     resolveLoop (map np_name properties) dependencies [0..<length properties] [] [] 0 (length properties) (- 1)"

section \<open>What the order guarantees\<close>

text \<open>Every pass of the loop adds to the order the index it took from the queue, with its name to the resolved ones.\<close>

lemma resolveLoop_rule:
  assumes "resolveLoop names dependencies queue order resolved iterations len red = Inr r"
    and "\<And>resolved. P [] r resolved"
    and "\<And>i queue order resolved ds. i < length names \<Longrightarrow> map_of dependencies (names ! i) = Some ds \<Longrightarrow>
      P (queue @ replicate (length (missingDependencies resolved ds)) i) (order @ [i]) (resolved @ [names ! i]) \<Longrightarrow> P (i # queue) order resolved"
  shows "P queue order resolved"
  using assms
proof (induction names dependencies queue order resolved iterations len red rule: resolveLoop.induct)
  case (2 names dependencies i queue order resolved iterations len red)
  note run = 2(3) [unfolded resolveLoop.simps(2)]
  have i: "i < length names" using run by (auto split: if_splits)
  then obtain ds where ds: "map_of dependencies (names ! i) = Some ds" using run by (auto split: option.splits)
  have "P (queue @ replicate (length (missingDependencies resolved ds)) i) (order @ [i]) (resolved @ [names ! i])"
  proof (cases "ds = []")
    case True
    have rec: "resolveLoop names dependencies queue (order @ [i]) (resolved @ [names ! i]) (iterations + 1) len red = Inr r"
      using run i ds True by simp
    from 2(1) [OF _ ds True rec 2(4,5)] i True show ?thesis by (simp add: missingDependencies_def)
  next
    case False
    define q where "q = queue @ replicate (length (missingDependencies resolved ds)) i"
    define red' where "red' = (if length q < len then iterations + 1 else red)"
    have e: "\<not> iterations + 1 > red' + int (length names)"
      "resolveLoop names dependencies q (order @ [i]) (resolved @ [names ! i]) (iterations + 1) (length q) red' = Inr r"
      using run i ds False unfolding q_def red'_def by (auto simp: Let_def split: if_splits)
    from 2(2) [OF _ ds False q_def red'_def e 2(4,5)] i show ?thesis by (simp add: q_def)
  qed
  from 2(5) [OF i ds this] show ?case .
qed simp

lemma resolveLoop_prefix:
  assumes "resolveLoop names dependencies queue order resolved iterations len red = Inr r"
  shows "\<exists>zs. r = order @ queue @ zs"
  using assms by (rule resolveLoop_rule) auto

lemma resolveLoop_indices:
  assumes "resolveLoop names dependencies queue order resolved iterations len red = Inr r" "set order \<subseteq> {..<length names}"
  shows "set r \<subseteq> {..<length names}"
proof -
  have "set order \<subseteq> {..<length names} \<longrightarrow> set r \<subseteq> {..<length names}"
    using assms(1) by (rule resolveLoop_rule) auto
  with assms(2) show ?thesis by simp
qed

text \<open>An index is settled at a place where everything it depends on was resolved before.\<close>

definition settledIn :: "string list \<Rightarrow> (string \<times> string list) list \<Rightarrow> nat list \<Rightarrow> nat \<Rightarrow> bool" where
  "settledIn names dependencies r i \<longleftrightarrow> (\<exists>k < length r. r ! k = i \<and>
     (\<forall>d \<in> set (orElse (map_of dependencies (names ! i)) []). startsWithChar CHR ''/'' d \<or> d \<in> (\<lambda>j. names ! j) ` set (take k r)))"

lemma resolveLoop_settled:
  assumes "resolveLoop names dependencies queue order resolved iterations len red = Inr r"
    and "resolved = map (\<lambda>j. names ! j) order" and "i \<in> set queue"
  shows "settledIn names dependencies r i"
proof -
  have "(\<exists>zs. r = order @ queue @ zs) \<and>
      (resolved = map (\<lambda>j. names ! j) order \<longrightarrow> (\<forall>i \<in> set queue. settledIn names dependencies r i))" (is "?P queue order resolved")
    using assms(1)
  proof (rule resolveLoop_rule)
    fix i :: nat and queue order :: "nat list" and resolved ds
    let ?queue' = "queue @ replicate (length (missingDependencies resolved ds)) i"
    assume ds: "map_of dependencies (names ! i) = Some ds" and IH: "?P ?queue' (order @ [i]) (resolved @ [names ! i])"
    then obtain zs where zs: "r = order @ i # queue @ zs" by auto
    have "settledIn names dependencies r j" if resolved: "resolved = map (\<lambda>j. names ! j) order" and j: "j \<in> set (i # queue)" for j
    proof (cases "j \<in> set ?queue'")
      case True
      with IH resolved show ?thesis by simp
    next
      case False
      with j have "j = i" "missingDependencies resolved ds = []" by (auto simp: set_replicate_conv_if split: if_splits)
      then show ?thesis unfolding settledIn_def by (intro exI [of _ "length order"]) (auto simp: zs ds resolved missingDependencies_def filter_empty_conv)
    qed
    with zs show "?P (i # queue) order resolved" by simp
  qed simp
  with assms(2,3) show ?thesis by blast
qed


text \<open>Two parameters of which the first is only shown for a value of the second, and one that depends on a name that is not there.\<close>

definition exProperty :: "string \<Rightarrow> string list \<Rightarrow> (int, int) node_property" where
  "exProperty nm shown = NodeProperty nm ''string'' (VString [])
     (if shown = [] then None else Some \<lparr>do_show = Some (map (\<lambda>d. (d, [VString ''x''])) shown), do_hide = None\<rparr>) False None [] []"

definition exProperties :: "(int, int) node_property list" where
  "exProperties = [exProperty ''operation'' [''resource'', ''/mode'', ''@version''], exProperty ''resource'' []]"


text \<open>A parameter is resolved before the one it depends on, and then once more.\<close>

lemma resolved_before_its_dependency:
  "getParameterDependencies exProperties = [(''operation'', [''resource'', ''/mode'']), (''resource'', [])] \<and>
   getParameterResolveOrder exProperties (getParameterDependencies exProperties) = Inr [0, 1, 0]"
  by (rule conjI; code_simp)

lemma unknown_dependency_throws:
  "getParameterResolveOrder [exProperty ''operation'' [''resource'']] (getParameterDependencies [exProperty ''operation'' [''resource'']]) = Inl maxIterations"
  by code_simp

end
