(* ===== verification/NodeParameters.thy ===== *)
theory NodeParameters imports ParameterOrder
begin

text \<open>
  The values of a node's parameters with or without their defaults (\<open>getNodeParameters\<close> of \<open>workflow/src/node-helpers.ts\<close>).
  The call of the function on itself for the display conditions, with \<open>onlySimpleTypes\<close> and \<open>dataIsResolved\<close>, goes no deeper
  and is \<open>simpleParameters\<close>; the calls for the parameters in a collection are the recursion of \<open>getNodeParameters\<close> over the tree
  of the properties. The two objects the loop fills are the fields of \<open>build\<close>; where the code tests the object that is being filled
  (\<open>nodeValuesDisplayCheck\<close> and \<open>nodeValuesRoot\<close> without a check of their own), the model reads its state at that time.
\<close>

section \<open>Copies and entries of values\<close>

fun jsonString :: "string option \<Rightarrow> ('n, 'd) js_value" where
  "jsonString None = VNull"
| "jsonString (Some s) = VString s"

fun deepCopy :: "('n, 'd) param_env \<Rightarrow> ('n, 'd) js_value \<Rightarrow> ('n, 'd) js_value" where
  "deepCopy env (VArray xs) = VArray (map (deepCopy env) xs)"
| "deepCopy env (VObject ps) = VObject (map (\<lambda>(k, v). (k, deepCopy env v)) ps)"
| "deepCopy env (VDate t) = jsonString (pe_toJSON env (VDate t))"
| "deepCopy env (VDateTime d) = jsonString (pe_toJSON env (VDateTime d))"
| "deepCopy env v = v"

text \<open>\<open>Object.entries\<close>: of a list or a text they are the elements under their indices.\<close>

definition indexed :: "('n, 'd) js_value list \<Rightarrow> (string \<times> ('n, 'd) js_value) list" where
  "indexed xs = map (\<lambda>(i, x). (nat_string i, x)) (enumerate 0 xs)"

definition ownEntries :: "('n, 'd) js_value \<Rightarrow> (string \<times> ('n, 'd) js_value) list" where
  "ownEntries v = (case v of VObject ps \<Rightarrow> ps | VArray xs \<Rightarrow> indexed xs | VString s \<Rightarrow> indexed (map (\<lambda>c. VString [c]) s) | _ \<Rightarrow> [])"

definition memberOf :: "('n, 'd) js_value \<Rightarrow> string \<Rightarrow> ('n, 'd) js_value" where
  "memberOf v key = orElse (map_of (ownEntries v) key) VUndefined"

definition objectKeys :: "('n, 'd) js_value \<Rightarrow> string list" where
  "objectKeys v = map fst (ownEntries v)"

definition spreadInto :: "(string \<times> ('n, 'd) js_value) list \<Rightarrow> ('n, 'd) js_value \<Rightarrow> (string \<times> ('n, 'd) js_value) list" where
  "spreadInto ps v = fold (\<lambda>(k, w). AList.update k w) (ownEntries v) ps"

section \<open>One parameter of a simple type\<close>

record ('n, 'd) build =
  bd_parameters :: "(string \<times> ('n, 'd) js_value) list"
  bd_full :: "(string \<times> ('n, 'd) js_value) list"

definition emptyBuild :: "('n, 'd) build" where
  "emptyBuild = \<lparr>bd_parameters = [], bd_full = []\<rparr>"

definition setBoth :: "string \<Rightarrow> ('n, 'd) js_value \<Rightarrow> ('n, 'd) build \<Rightarrow> ('n, 'd) build" where
  "setBoth nm v st = \<lparr>bd_parameters = AList.update nm v (bd_parameters st), bd_full = AList.update nm v (bd_full st)\<rparr>"

text \<open>The arguments of a pass over the properties; without a check of its own it is about the parameters filled so far.\<close>

record ('n, 'd) pass_arguments =
  ps_values :: "('n, 'd) js_value"
  ps_returnDefaults :: bool
  ps_returnNoneDisplayed :: bool
  ps_onlySimpleTypes :: bool
  ps_parentType :: "string option"
  ps_check :: "('n, 'd) js_value option"
  ps_root :: "('n, 'd) js_value option"
  ps_duplicates :: "string list"

definition nodeValuesDisplayCheck :: "('n, 'd) pass_arguments \<Rightarrow> ('n, 'd) build \<Rightarrow> ('n, 'd) js_value" where
  "nodeValuesDisplayCheck a st = orElse (ps_check a) (VObject (bd_full st))"

definition nodeValuesRoot :: "('n, 'd) pass_arguments \<Rightarrow> ('n, 'd) build \<Rightarrow> ('n, 'd) js_value" where
  "nodeValuesRoot a st = orElse (ps_root a) (nodeValuesDisplayCheck a st)"

definition isDisplayed ::
  "('n :: linordered_idom, 'd) param_env \<Rightarrow> ('n, 'd) pass_arguments \<Rightarrow> ('n, 'd) build \<Rightarrow> ('n, 'd) node_property \<Rightarrow> bool result" where
  "isDisplayed env a st p = displayParameter env (nodeValuesDisplayCheck a st) (np_displayOptions p) (Some (nodeValuesRoot a st))"

definition complexTypes :: "string list" where
  "complexTypes = [''collection'', ''fixedCollection'']"

definition defaultFilterOptions :: "(string \<times> ('n :: linordered_idom, 'd) js_value) list" where
  "defaultFilterOptions = [(''caseSensitive'', VBool True), (''leftValue'', VString []), (''typeValidation'', VString ''strict''),
     (''version'', VNumber (Num 1))]"

text \<open>A filter is completed; the properties a list would get are left out.\<close>

definition completeFilter :: "('n :: linordered_idom, 'd) js_value \<Rightarrow> ('n, 'd) js_value result" where
  "completeFilter v = (case v of
       VObject ps \<Rightarrow>
         (let qs = (if nullish (memberOf v ''combinator'') then AList.update ''combinator'' (VString ''and'') ps else ps)
          in Inr (VObject (AList.update ''options'' (VObject (spreadInto defaultFilterOptions (memberOf v ''options''))) qs)))
     | VArray xs \<Rightarrow> Inr v
     | _ \<Rightarrow> Inl TypeError)"

definition valueOrDefault ::
  "('n :: linordered_idom, 'd) param_env \<Rightarrow> ('n, 'd) node_property \<Rightarrow> ('n, 'd) js_value \<Rightarrow> ('n, 'd) js_value result" where
  "valueOrDefault env p v =
     (let default = np_default p; copy = deepCopy env v
      in if np_type p \<in> {''boolean'', ''number'', ''options''} then Inr (if v \<noteq> VUndefined then copy else default)
         else if np_type p = ''resourceLocator'' \<and> jsTypeof default = ''object''
         then Inr (if v \<noteq> VUndefined then copy else VObject (spreadInto [(''__rl'', VBool True)] default))
         else if np_type p = ''filter'' \<and> jsTypeof v = ''object'' \<and> v \<noteq> VNull then completeFilter copy
         else Inr (if nullish copy then default else copy))"

definition differsFromDefault ::
  "('n, 'd) param_env \<Rightarrow> string option \<Rightarrow> ('n, 'd) node_property \<Rightarrow> ('n, 'd) js_value \<Rightarrow> bool" where
  "differsFromDefault env parentType p v \<longleftrightarrow>
     \<not> strictEquals v (np_default p) \<and> jsTypeof v \<noteq> ''object'' \<or>
     jsTypeof v = ''object'' \<and> \<not> pe_isEqual env v (np_default p) \<or>
     v \<noteq> VUndefined \<and> parentType = Some ''collection''"

definition stripExpression :: "('n, 'd) node_property \<Rightarrow> ('n, 'd) build \<Rightarrow> ('n, 'd) build" where
  "stripExpression p st = (case map_of (bd_parameters st) (np_name p) of
       Some (VString s) \<Rightarrow> if np_noDataExpression p \<and> isExpression (VString s :: ('n, 'd) js_value)
         then setBoth (np_name p) (VString (tl s)) st else st
     | _ \<Rightarrow> st)"

text \<open>The first part of the loop's body; the truth value says whether the iteration goes on to the part for the complex types.\<close>

definition visitSimple ::
  "('n :: linordered_idom, 'd) param_env \<Rightarrow> ('n, 'd) pass_arguments \<Rightarrow> ('n, 'd) node_property \<Rightarrow> ('n, 'd) build \<Rightarrow> (('n, 'd) build \<times> bool) result" where
  "visitSimple env a p st =
     (let v = memberOf (ps_values a) (np_name p); goOn = \<not> ps_onlySimpleTypes a
      in if \<not> toBoolean (ps_values a) \<or> v = VUndefined \<and> (\<not> ps_returnDefaults a \<or> ps_parentType a = Some ''collection'') then Inr (st, False)
         else ebind (if ps_returnNoneDisplayed a then Inr True else isDisplayed env a st p) (\<lambda>shown.
           if \<not> shown then Inr (st, False)
           else if np_type p \<in> set complexTypes then Inr (st, goOn)
           else ebind (if np_name p \<in> set (ps_duplicates a) then isDisplayed env a st p else Inr True) (\<lambda>shown.
             if \<not> shown then Inr (st, False)
             else if ps_returnDefaults a
             then ebind (valueOrDefault env p v) (\<lambda>w. Inr (stripExpression p (setBoth (np_name p) w st), goOn))
             else if differsFromDefault env (ps_parentType a) p v then Inr (setBoth (np_name p) (deepCopy env v) st, False)
             else Inr (stripExpression p st, goOn))))"

section \<open>Collections\<close>

type_synonym ('n, 'd) recursion =
  "('n, 'd) node_property list \<Rightarrow> ('n, 'd) js_value \<Rightarrow> ('n, 'd) js_value \<Rightarrow> string \<Rightarrow> (string \<times> ('n, 'd) js_value) list result"

definition copyToFull :: "string \<Rightarrow> ('n, 'd) build \<Rightarrow> ('n, 'd) build" where
  "copyToFull nm st = st\<lparr>bd_full := AList.update nm (orElse (map_of (bd_parameters st) nm) VUndefined) (bd_full st)\<rparr>"

definition setParameter :: "string \<Rightarrow> ('n, 'd) js_value \<Rightarrow> ('n, 'd) build \<Rightarrow> ('n, 'd) build" where
  "setParameter nm v st = st\<lparr>bd_parameters := AList.update nm v (bd_parameters st)\<rparr>"

definition visitCollection ::
  "('n :: linordered_idom, 'd) param_env \<Rightarrow> ('n, 'd) pass_arguments \<Rightarrow> ('n, 'd) recursion \<Rightarrow> ('n, 'd) node_property \<Rightarrow> ('n, 'd) build \<Rightarrow> ('n, 'd) build result" where
  "visitCollection env a rec p st =
     (let v = memberOf (ps_values a) (np_name p)
      in if np_multipleValues p = Some True
         then Inr (copyToFull (np_name p)
           (if v \<noteq> VUndefined then setParameter (np_name p) (deepCopy env v) st
            else if ps_returnDefaults a then setParameter (np_name p) (if isArray (np_default p) then deepCopy env (np_default p) else VArray []) st
            else st))
         else if v \<noteq> VUndefined
         then ebind (rec (np_options p) v (nodeValuesRoot a st) (np_type p)) (\<lambda>ps. Inr (setBoth (np_name p) (VObject ps) st))
         else if ps_returnDefaults a then Inr (setBoth (np_name p) (deepCopy env (np_default p)) st)
         else Inr st)"

definition elementsOf :: "('n, 'd) js_value \<Rightarrow> ('n, 'd) js_value list result" where
  "elementsOf v = (case v of VArray xs \<Rightarrow> Inr xs | VString s \<Rightarrow> Inr (map (\<lambda>c. VString [c]) s) | _ \<Rightarrow> Inl TypeError)"

definition optionMissing :: js_error where
  "optionMissing = ApplicationError ''Could not find property option''"

definition collectItems ::
  "('n, 'd) recursion \<Rightarrow> ('n, 'd) node_property \<Rightarrow> ('n, 'd) js_value \<Rightarrow> string \<Rightarrow> ('n, 'd) js_value list \<Rightarrow> ('n, 'd) js_value list result" where
  "collectItems rec p root itemName xs = efold (\<lambda>x acc. case map_of (np_collections p) itemName of
       None \<Rightarrow> Inl optionMissing
     | Some properties \<Rightarrow> ebind (rec properties x root (np_type p)) (\<lambda>ps. Inr (acc @ [VObject ps]))) xs []"

definition hasNonDefaultValues ::
  "('n :: zero, 'd) param_env \<Rightarrow> ('n, 'd) node_property list \<Rightarrow> ('n, 'd) js_value \<Rightarrow> bool" where
  "hasNonDefaultValues env properties v \<longleftrightarrow> toBoolean v \<and>
     list_ex (\<lambda>key. case find (\<lambda>f. np_name f = key) properties of
       None \<Rightarrow> False | Some f \<Rightarrow> \<not> pe_isEqual env (memberOf v key) (np_default f)) (objectKeys v)"

text \<open>One key of a fixed collection; the state holds \<open>collectionValues\<close> and \<open>hadAnyVisibleFields\<close>.\<close>

definition visitItem ::
  "('n :: linordered_idom, 'd) param_env \<Rightarrow> ('n, 'd) pass_arguments \<Rightarrow> ('n, 'd) recursion \<Rightarrow> ('n, 'd) js_value \<Rightarrow> ('n, 'd) js_value \<Rightarrow> ('n, 'd) node_property \<Rightarrow>
    string \<Rightarrow> (string \<times> ('n, 'd) js_value) list \<times> bool \<Rightarrow> ((string \<times> ('n, 'd) js_value) list \<times> bool) result" where
  "visitItem env a rec root propertyValues p itemName = (\<lambda>(collectionValues, hadAny).
     if np_multipleValues p = Some True
     then (if jsTypeof propertyValues \<noteq> ''object'' \<or> isArray propertyValues then Inr (collectionValues, hadAny)
           else ebind (elementsOf (memberOf propertyValues itemName)) (\<lambda>xs.
                ebind (collectItems rec p root itemName xs) (\<lambda>ys. Inr (AList.update itemName (VArray ys) collectionValues, hadAny))))
     else (case map_of (np_collections p) itemName of
         None \<Rightarrow> Inr (collectionValues, hadAny)
       | Some properties \<Rightarrow>
           (let v = memberOf (ps_values a) (np_name p)
            in if nullish v then Inl TypeError
               else ebind (rec properties (memberOf v itemName) root (np_type p)) (\<lambda>ps.
                 let hadVisible = (ps \<noteq> [] \<or> \<not> hasNonDefaultValues env properties (memberOf v itemName))
                 in if ps \<noteq> [] \<or> \<not> ps_returnDefaults a \<and> hadVisible \<and> toBoolean propertyValues \<and> memberOf propertyValues itemName \<noteq> VUndefined
                    then Inr (AList.update itemName (VObject ps) collectionValues, hadAny \<or> hadVisible)
                    else Inr (collectionValues, hadAny \<or> hadVisible)))))"

text \<open>An iteration goes on with the next parameter or returns from the function.\<close>

datatype ('n, 'd) visit = Going "('n, 'd) build" | Returned "(string \<times> ('n, 'd) js_value) list"

definition isObjectValue :: "('n, 'd) js_value \<Rightarrow> bool" where
  "isObjectValue v = (case v of VObject ps \<Rightarrow> True | _ \<Rightarrow> False)"

definition visitFixedCollection ::
  "('n :: linordered_idom, 'd) param_env \<Rightarrow> ('n, 'd) pass_arguments \<Rightarrow> ('n, 'd) recursion \<Rightarrow> ('n, 'd) node_property \<Rightarrow> ('n, 'd) build \<Rightarrow> ('n, 'd) visit result" where
  "visitFixedCollection env a rec p st =
     (let copy = deepCopy env (memberOf (ps_values a) (np_name p));
          propertyValues = (if ps_returnDefaults a \<and> copy = VUndefined then deepCopy env (np_default p) else copy);
          single = (np_multipleValues p = Some False); ks = objectKeys propertyValues
      in if \<not> ps_returnDefaults a \<and> single \<and> toBoolean propertyValues \<and> ks = []
         then Inr (Returned (ownEntries (deepCopy env (ps_values a))))
         else ebind (efold (visitItem env a rec (nodeValuesRoot a st) propertyValues p) ks ([], False)) (\<lambda>(collectionValues, hadAny).
           let st = (if \<not> ps_returnDefaults a \<and> hadAny \<and> single \<and> collectionValues = [] \<and> isObjectValue propertyValues \<and> ks \<noteq> []
                     then setParameter (np_name p) (VObject (map (\<lambda>k. (k, VObject [])) ks)) st else st)
           in Inr (Going (if collectionValues \<noteq> [] \<or> ps_returnDefaults a then setBoth (np_name p) (VObject collectionValues) st else st))))"

definition visitProperty ::
  "('n :: linordered_idom, 'd) param_env \<Rightarrow> ('n, 'd) pass_arguments \<Rightarrow> ('n, 'd) recursion \<Rightarrow> ('n, 'd) node_property \<Rightarrow> ('n, 'd) visit \<Rightarrow> ('n, 'd) visit result" where
  "visitProperty env a rec p s = (case s of
       Returned ps \<Rightarrow> Inr s
     | Going st \<Rightarrow> ebind (visitSimple env a p st) (\<lambda>(st, goOn).
         if goOn \<and> np_type p = ''collection'' then ebind (visitCollection env a rec p st) (\<lambda>st. Inr (Going st))
         else if goOn \<and> np_type p = ''fixedCollection'' then visitFixedCollection env a rec p st
         else Inr (Going st)))"

section \<open>All parameters\<close>

definition duplicateParameterNames :: "('n, 'd) node_property list \<Rightarrow> string list" where
  "duplicateParameterNames properties = fst (fold (\<lambda>p (duplicates, names).
     if np_name p \<in> set names then (sadd (np_name p) duplicates, names) else (duplicates, names @ [np_name p])) properties ([], []))"

definition simpleParameters ::
  "('n :: linordered_idom, 'd) param_env \<Rightarrow> ('n, 'd) node_property list \<Rightarrow> ('n, 'd) js_value \<Rightarrow> string option \<Rightarrow> ('n, 'd) js_value option \<Rightarrow>
    (string \<times> ('n, 'd) js_value) list result" where
  "simpleParameters env properties values parentType root =
     (let a = \<lparr>ps_values = values, ps_returnDefaults = True, ps_returnNoneDisplayed = True, ps_onlySimpleTypes = True, ps_parentType = parentType,
           ps_check = None, ps_root = root, ps_duplicates = duplicateParameterNames properties\<rparr>
      in ebind (getParameterResolveOrder properties (getParameterDependencies properties)) (\<lambda>order.
         ebind (efold (\<lambda>i st. ebind (visitSimple env a (properties ! i) st) (\<lambda>(st, goOn). Inr st)) order emptyBuild) (\<lambda>st. Inr (bd_parameters st))))"

definition passOver ::
  "('n, 'd) node_property list \<Rightarrow> ('n, 'd) js_value \<Rightarrow> bool \<Rightarrow> bool \<Rightarrow> string option \<Rightarrow> ('n, 'd) js_value option \<Rightarrow> ('n, 'd) js_value option \<Rightarrow> ('n, 'd) pass_arguments" where
  "passOver properties values returnDefaults returnNoneDisplayed parentType check root =
     \<lparr>ps_values = values, ps_returnDefaults = returnDefaults, ps_returnNoneDisplayed = returnNoneDisplayed, ps_onlySimpleTypes = False,
      ps_parentType = parentType, ps_check = check, ps_root = root, ps_duplicates = duplicateParameterNames properties\<rparr>"

text \<open>The recursive calls are about the options of a property only.\<close>

definition subProperties :: "('n, 'd) node_property \<Rightarrow> ('n, 'd) node_property list set" where
  "subProperties p = insert (np_options p) (snd ` set (np_collections p))"

lemma collectItems_cong:
  "(\<And>qs v root t. qs \<in> subProperties p \<Longrightarrow> rec qs v root t = rec' qs v root t) \<Longrightarrow> collectItems rec p root itemName xs = collectItems rec' p root itemName xs"
  unfolding collectItems_def by (intro efold_cong refl) (auto split: option.split dest!: map_of_SomeD simp: subProperties_def image_iff, metis snd_conv)

lemma visitItem_cong:
  assumes "\<And>qs v root t. qs \<in> subProperties p \<Longrightarrow> rec qs v root t = rec' qs v root t"
  shows "visitItem env a rec root pv p itemName s = visitItem env a rec' root pv p itemName s"
proof -
  have "rec properties v root t = rec' properties v root t" if "map_of (np_collections p) itemName = Some properties" for properties v root t
    using assms [of properties] map_of_SomeD [OF that] by (force simp: subProperties_def)
  then show ?thesis
    by (cases s; cases "map_of (np_collections p) itemName")
      (simp_all add: visitItem_def Let_def collectItems_cong [of p rec rec', OF assms] cong del: if_weak_cong)
qed

lemma visitProperty_cong [fundef_cong]:
  assumes "p = p'" "s = s'" "\<And>qs v root t. qs \<in> subProperties p' \<Longrightarrow> rec qs v root t = rec' qs v root t"
  shows "visitProperty env a rec p s = visitProperty env a rec' p' s'"
proof -
  have c: "visitCollection env a rec p = visitCollection env a rec' p"
    using assms by (intro ext) (simp add: visitCollection_def subProperties_def Let_def)
  have f: "visitFixedCollection env a rec p = visitFixedCollection env a rec' p"
  proof (rule ext)
    fix st
    have "visitItem env a rec (nodeValuesRoot a st) pv p = visitItem env a rec' (nodeValuesRoot a st) pv p" for pv
      using assms by (intro ext visitItem_cong) simp
    then show "visitFixedCollection env a rec p st = visitFixedCollection env a rec' p st" by (simp add: visitFixedCollection_def Let_def)
  qed
  show ?thesis unfolding visitProperty_def c f unfolding assms(1,2) ..
qed

lemma size_subProperties:
  assumes "qs \<in> subProperties p" shows "size_list size qs < size p"
proof (cases p)
  case (NodeProperty nm t d dis noData mult options collections)
  show ?thesis
  proof (cases "qs = options")
    case False
    with assms NodeProperty obtain k where "(k, qs) \<in> set collections" by (auto simp: subProperties_def)
    then have "size_prod (\<lambda>_. 0) (size_list size) (k, qs) \<le> size_list (size_prod (\<lambda>_. 0) (size_list size)) collections"
      by (intro size_list_estimation' [of "(k, qs)"]) simp_all
    then show ?thesis by (simp add: NodeProperty)
  qed (simp add: NodeProperty)
qed

lemma resolve_index: "getParameterResolveOrder properties dependencies = Inr order \<Longrightarrow> i \<in> set order \<Longrightarrow> i < length properties"
  unfolding getParameterResolveOrder_def using resolveLoop_indices by fastforce

lemma resolve_all: "getParameterResolveOrder properties dependencies = Inr order \<Longrightarrow> i < length properties \<Longrightarrow> i \<in> set order"
  unfolding getParameterResolveOrder_def using resolveLoop_prefix by fastforce

text \<open>The pass over one level, with the recursion as an argument.\<close>

definition levelParameters ::
  "('n :: linordered_idom, 'd) param_env \<Rightarrow> ('n, 'd) node_property list \<Rightarrow> ('n, 'd) js_value \<Rightarrow> bool \<Rightarrow> bool \<Rightarrow> string option \<Rightarrow> ('n, 'd) js_value option \<Rightarrow>
    ('n, 'd) recursion \<Rightarrow> (string \<times> ('n, 'd) js_value) list result" where
  "levelParameters env properties values returnDefaults returnNoneDisplayed parentType root rec =
     ebind (if returnNoneDisplayed then Inr None
            else ebind (simpleParameters env properties values parentType root) (\<lambda>ps. Inr (Some (VObject ps)))) (\<lambda>check.
     ebind (getParameterResolveOrder properties (getParameterDependencies properties)) (\<lambda>order.
     ebind (efold (\<lambda>i. visitProperty env (passOver properties values returnDefaults returnNoneDisplayed parentType check root) rec (properties ! i))
          order (Going emptyBuild))
       (\<lambda>s. Inr (case s of Going st \<Rightarrow> bd_parameters st | Returned ps \<Rightarrow> ps))))"

lemma levelParameters_cong [fundef_cong]:
  assumes "properties = properties'" "\<And>p qs v root t. p \<in> set properties' \<Longrightarrow> qs \<in> subProperties p \<Longrightarrow> rec qs v root t = rec' qs v root t"
  shows "levelParameters env properties vals returnDefaults returnNoneDisplayed parentType root rec =
    levelParameters env properties' vals returnDefaults returnNoneDisplayed parentType root rec'"
  unfolding levelParameters_def assms(1)
  by (intro ebind_cong efold_cong visitProperty_cong refl assms(2)) (auto dest: resolve_index)

function getNodeParameters ::
  "('n :: linordered_idom, 'd) param_env \<Rightarrow> ('n, 'd) node_property list \<Rightarrow> ('n, 'd) js_value \<Rightarrow> bool \<Rightarrow> bool \<Rightarrow> string option \<Rightarrow> ('n, 'd) js_value option \<Rightarrow>
    (string \<times> ('n, 'd) js_value) list result" where
  "getNodeParameters env properties values returnDefaults returnNoneDisplayed parentType root =
     levelParameters env properties values returnDefaults returnNoneDisplayed parentType root
       (\<lambda>ps v rootValues t. getNodeParameters env ps v returnDefaults returnNoneDisplayed (Some t) (Some rootValues))"
  by pat_completeness auto
termination
proof (relation "measure (\<lambda>(env, properties, rest). size_list size properties)", goal_cases)
  case (2 env properties vals returnDefaults returnNoneDisplayed parentType root p qs v rootValues t)
  from 2(1) have "size p \<le> size_list size properties" by (simp add: size_list_estimation')
  with size_subProperties [OF 2(2)] show ?case by simp
qed simp

declare getNodeParameters.simps [simp del]

section \<open>Only displayed parameters\<close>

lemma map_of_setBoth [simp]:
  "map_of (bd_parameters (setBoth k v st)) = (map_of (bd_parameters st))(k \<mapsto> v)"
  by (simp add: setBoth_def update_conv')

definition keysOf :: "('n, 'd) build \<Rightarrow> string set" where
  "keysOf st = dom (map_of (bd_parameters st))"

lemma keysOf_simps [simp]:
  "keysOf emptyBuild = {}" "keysOf (setBoth k v st) = insert k (keysOf st)" "keysOf (setParameter k v st) = insert k (keysOf st)"
  "keysOf (copyToFull k st) = keysOf st"
  by (auto simp: keysOf_def emptyBuild_def setParameter_def copyToFull_def update_conv')

lemma keysOf_strip: "keysOf (stripExpression p st) = keysOf st"
  by (auto simp: stripExpression_def keysOf_def insert_absorb dom_def split: option.split js_value.split)

lemma visitSimple_keys:
  assumes "visitSimple env a p st = Inr (st', goOn)"
  shows "keysOf st' \<subseteq> insert (np_name p) (keysOf st)"
    and "ps_returnNoneDisplayed a \<or> isDisplayed env a st p = Inr True \<or> st' = st \<and> \<not> goOn"
  using assms by (auto simp: visitSimple_def Let_def keysOf_strip split: if_splits)

lemma visitCollection_keys: "visitCollection env a rec p st = Inr st' \<Longrightarrow> keysOf st' \<subseteq> insert (np_name p) (keysOf st)"
  by (auto simp: visitCollection_def Let_def split: if_splits)

lemma visitFixedCollection_keys:
  "visitFixedCollection env a rec p st = Inr (Going st') \<Longrightarrow> keysOf st' \<subseteq> insert (np_name p) (keysOf st)"
  by (auto simp: visitFixedCollection_def Let_def split: if_splits prod.splits)

lemma visitFixedCollection_returns:
  "visitFixedCollection env a rec p st = Inr (Returned ps) \<Longrightarrow> \<not> ps_returnDefaults a \<and> np_multipleValues p = Some False"
  by (auto simp: visitFixedCollection_def Let_def split: if_splits prod.splits)

definition displayedIn ::
  "('n :: linordered_idom, 'd) param_env \<Rightarrow> (string \<times> ('n, 'd) js_value) list \<Rightarrow> ('n, 'd) js_value option \<Rightarrow> ('n, 'd) node_property \<Rightarrow> bool result" where
  "displayedIn env full root p = displayParameter env (VObject full) (np_displayOptions p) (Some (orElse root (VObject full)))"

lemma isDisplayed_check: "ps_check a = Some (VObject full) \<Longrightarrow> isDisplayed env a st p = displayedIn env full (ps_root a) p"
  by (simp add: isDisplayed_def displayedIn_def nodeValuesRoot_def nodeValuesDisplayCheck_def)

text \<open>What a visit leaves: only names of displayed properties among the new ones, and no early return but for a fixed collection with one value.\<close>

definition onlyShown ::
  "('n :: linordered_idom, 'd) param_env \<Rightarrow> (string \<times> ('n, 'd) js_value) list \<Rightarrow> ('n, 'd) js_value option \<Rightarrow> ('n, 'd) node_property list \<Rightarrow> ('n, 'd) visit \<Rightarrow> bool" where
  "onlyShown env full root properties s = (case s of
       Going st \<Rightarrow> \<forall>nm \<in> keysOf st. \<exists>p \<in> set properties. np_name p = nm \<and> displayedIn env full root p = Inr True
     | Returned ps \<Rightarrow> False)"

lemma visitProperty_onlyShown:
  assumes "onlyShown env full (ps_root a) properties s" and "visitProperty env a rec p s = Inr s'" and "p \<in> set properties"
    and "ps_check a = Some (VObject full)" and "\<not> ps_returnNoneDisplayed a"
    and "ps_returnDefaults a \<or> np_type p \<noteq> ''fixedCollection'' \<or> np_multipleValues p \<noteq> Some False"
  shows "onlyShown env full (ps_root a) properties s'"
proof -
  obtain st where s: "s = Going st" using assms(1) by (cases s) (simp_all add: onlyShown_def)
  obtain st1 goOn where v: "visitSimple env a p st = Inr (st1, goOn)" using assms(2) s by (auto simp: visitProperty_def)
  note rest = assms(2) [unfolded s visitProperty_def, simplified, unfolded v, simplified]
  show ?thesis
  proof (cases "displayedIn env full (ps_root a) p = Inr True")
    case True
    have "\<exists>st'. s' = Going st' \<and> keysOf st' \<subseteq> insert (np_name p) (keysOf st)"
      using rest visitSimple_keys(1) [OF v] visitCollection_keys [of env a rec p st1] visitFixedCollection_keys [of env a rec p st1]
        visitFixedCollection_returns [of env a rec p st1] assms(6)
      by (cases s') (fastforce split: if_splits)+
    then show ?thesis using assms(1,3) True s unfolding onlyShown_def by fastforce
  next
    case False
    then have "st1 = st" "\<not> goOn" using visitSimple_keys(2) [OF v] isDisplayed_check [OF assms(4), of env st p] assms(5) by auto
    with rest assms(1) s show ?thesis by simp
  qed
qed

text \<open>C25: A parameter that is not displayed has no value: every name in the parameters of a node, taken without the hidden ones, is the name of a
  property whose display options hold for the node's full values, with or without defaults. This holds unless the pass
  without defaults meets a fixed collection for one value, where it may return all values.\<close>
theorem only_displayed_parameters:
  assumes "getNodeParameters env properties vals returnDefaults False parentType root = Inr ps"
    and "simpleParameters env properties vals parentType root = Inr full"
    and "returnDefaults \<or> (\<forall>p \<in> set properties. np_type p = ''fixedCollection'' \<longrightarrow> np_multipleValues p \<noteq> Some False)"
    and "(nm, v) \<in> set ps"
  shows "\<exists>p \<in> set properties. np_name p = nm \<and> displayedIn env full root p = Inr True"
proof -
  let ?a = "passOver properties vals returnDefaults False parentType (Some (VObject full)) root"
  let ?rec = "\<lambda>ps v rootValues t. getNodeParameters env ps v returnDefaults False (Some t) (Some rootValues)"
  obtain order s where o: "getParameterResolveOrder properties (getParameterDependencies properties) = Inr order"
      "efold (\<lambda>i. visitProperty env ?a ?rec (properties ! i)) order (Going emptyBuild) = Inr s"
      "ps = (case s of Going st \<Rightarrow> bd_parameters st | Returned ps \<Rightarrow> ps)"
    using assms(1) by (auto simp: getNodeParameters.simps [of env properties] levelParameters_def assms(2))
  have "onlyShown env full root properties s"
  proof (rule efold_invariant [OF o(2)])
    show "onlyShown env full root properties (Going emptyBuild)" by (simp add: onlyShown_def)
    fix i u w assume i: "i \<in> set order" and u: "onlyShown env full root properties u" and w: "visitProperty env ?a ?rec (properties ! i) u = Inr w"
    have p: "properties ! i \<in> set properties" using resolve_index [OF o(1) i] by simp
    have "ps_root ?a = root" by (simp add: passOver_def)
    with visitProperty_onlyShown [of env full ?a properties u ?rec "properties ! i" w] u w p assms(3)
    show "onlyShown env full root properties w" by (auto simp: passOver_def)
  qed
  then show ?thesis using o(3) assms(4) by (cases s) (auto simp: onlyShown_def keysOf_def dom_map_of_conv_image_fst image_iff, force)
qed

section \<open>Saving without defaults loses nothing\<close>

text \<open>Properties of simple types with names of their own and a default that is not an object; filters and resource locators, whose values
  are completed, are not among them.\<close>

definition plainProperty :: "('n, 'd) node_property \<Rightarrow> bool" where
  "plainProperty p \<longleftrightarrow> np_type p \<notin> {''collection'', ''fixedCollection'', ''filter'', ''resourceLocator''} \<and> jsTypeof (np_default p) \<noteq> ''object''"

definition plainProperties :: "('n, 'd) node_property list \<Rightarrow> bool" where
  "plainProperties properties \<longleftrightarrow> distinct (map np_name properties) \<and> list_all plainProperty properties"

lemma deepCopy_idem [simp]: "deepCopy env (deepCopy env v) = deepCopy env v"
proof (induction env v rule: deepCopy.induct)
  case (3 env t)
  then show ?case by (cases "pe_toJSON env (VDate t)") simp_all
next
  case (4 env d)
  then show ?case by (cases "pe_toJSON env (VDateTime d)") simp_all
qed auto

lemma deepCopy_undefined [simp]: "deepCopy env v = VUndefined \<longleftrightarrow> v = VUndefined"
proof (cases v)
  case (VDate t)
  then show ?thesis by (cases "pe_toJSON env v") simp_all
next
  case (VDateTime d)
  then show ?thesis by (cases "pe_toJSON env v") simp_all
qed simp_all

lemma duplicates_none:
  assumes "distinct (map np_name properties)" shows "duplicateParameterNames properties = []"
proof -
  have "fold (\<lambda>p (duplicates, names). if np_name p \<in> set names then (sadd (np_name p) duplicates, names) else (duplicates, names @ [np_name p])) ps (ds, ns)
      = (ds, ns @ map np_name ps)" if "distinct (map np_name ps)" "set ns \<inter> np_name ` set ps = {}" for ps :: "('a, 'b) node_property list" and ds ns
    using that by (induction ps arbitrary: ns) auto
  from this [of properties "[]" "[]"] assms show ?thesis by (simp add: duplicateParameterNames_def)
qed

text \<open>What the pass without defaults keeps of a parameter.\<close>

definition keepsValue :: "('n, 'd) param_env \<Rightarrow> ('n, 'd) js_value \<Rightarrow> ('n, 'd) node_property \<Rightarrow> bool" where
  "keepsValue env vals p \<longleftrightarrow> memberOf vals (np_name p) \<noteq> VUndefined \<and> differsFromDefault env None p (memberOf vals (np_name p))"

definition savedState ::
  "('n, 'd) param_env \<Rightarrow> ('n, 'd) js_value \<Rightarrow> ('n, 'd) node_property list \<Rightarrow> ('n, 'd) visit \<Rightarrow> bool" where
  "savedState env vals properties s = (case s of
       Going st \<Rightarrow> \<forall>p \<in> set properties. map_of (bd_parameters st) (np_name p) \<noteq> None \<longrightarrow>
         keepsValue env vals p \<and> map_of (bd_parameters st) (np_name p) = Some (deepCopy env (memberOf vals (np_name p)))
     | Returned ps \<Rightarrow> False)"

lemma visit_saves:
  assumes "plainProperty p" "p \<in> set properties" "distinct (map np_name properties)"
    and "savedState env vals properties (Going st)"
    and "ps_values a = vals" "toBoolean vals" "\<not> ps_returnDefaults a" "ps_parentType a = None" "ps_duplicates a = []"
    and "memberOf vals (np_name p) = VUndefined \<or> ps_returnNoneDisplayed a \<or> isDisplayed env a st p = Inr True"
  shows "visitProperty env a rec p (Going st) =
    Inr (Going (if keepsValue env vals p then setBoth (np_name p) (deepCopy env (memberOf vals (np_name p))) st else st))"
proof -
  have "stripExpression p st = st" if "\<not> keepsValue env vals p"
    using assms(2,4) that by (auto simp: savedState_def stripExpression_def split: option.split)
  with assms show ?thesis
    by (auto simp: visitProperty_def visitSimple_def Let_def keepsValue_def plainProperty_def complexTypes_def)
qed

lemma savedState_step:
  assumes "savedState env vals properties (Going st)" "p \<in> set properties" "distinct (map np_name properties)" "keepsValue env vals p"
  shows "savedState env vals properties (Going (setBoth (np_name p) (deepCopy env (memberOf vals (np_name p))) st))"
proof -
  have "q = p" if "q \<in> set properties" "np_name q = np_name p" for q
    using that assms(2,3) by (auto simp: distinct_map inj_on_def)
  then show ?thesis using assms(1,2,4) by (auto simp: savedState_def)
qed

text \<open>No parameter that is hidden has a value, as in a node that was saved.\<close>

definition hiddenUnset ::
  "('n :: linordered_idom, 'd) param_env \<Rightarrow> ('n, 'd) node_property list \<Rightarrow> ('n, 'd) js_value \<Rightarrow> ('n, 'd) js_value option \<Rightarrow> bool" where
  "hiddenUnset env properties vals root = (case simpleParameters env properties vals None root of
       Inl e \<Rightarrow> True
     | Inr full \<Rightarrow> list_all (\<lambda>p. memberOf vals (np_name p) = VUndefined \<or> displayedIn env full root p = Inr True) properties)"

text \<open>The saved parameters hold what is kept, and nothing else.\<close>

lemma saved_parameters:
  assumes plain: "plainProperties properties" and vals: "toBoolean vals"
    and shown: "noneDisplayed \<or> hiddenUnset env properties vals root"
    and saved: "getNodeParameters env properties vals False noneDisplayed None root = Inr ps"
    and p: "p \<in> set properties"
  shows "memberOf (VObject ps) (np_name p) = (if keepsValue env vals p then deepCopy env (memberOf vals (np_name p)) else VUndefined)"
proof -
  have dist: "distinct (map np_name properties)" and plain: "\<And>q. q \<in> set properties \<Longrightarrow> plainProperty q"
    using plain by (auto simp: plainProperties_def list_all_iff)
  let ?rec = "\<lambda>ps v rootValues t. getNodeParameters env ps v False noneDisplayed (Some t) (Some rootValues)"
  let ?step = "\<lambda>a i. visitProperty env a ?rec (properties ! i)"
  obtain check order s where c: "(if noneDisplayed then Inr None else ebind (simpleParameters env properties vals None root) (\<lambda>ps. Inr (Some (VObject ps)))) = Inr check"
      and o: "getParameterResolveOrder properties (getParameterDependencies properties) = Inr order"
      and run: "efold (?step (passOver properties vals False noneDisplayed None check root)) order (Going emptyBuild) = Inr s"
      and ps: "ps = (case s of Going st \<Rightarrow> bd_parameters st | Returned ps \<Rightarrow> ps)"
    using saved by (subst (asm) getNodeParameters.simps) (auto simp: levelParameters_def)
  define a where "a = passOver properties vals False noneDisplayed None check root"
  have a: "ps_values a = vals" "\<not> ps_returnDefaults a" "ps_parentType a = None" "ps_duplicates a = []" "ps_returnNoneDisplayed a = noneDisplayed"
    by (simp_all add: a_def passOver_def duplicates_none [OF dist])
  have vis: "memberOf vals (np_name q) = VUndefined \<or> ps_returnNoneDisplayed a \<or> isDisplayed env a st q = Inr True" if "q \<in> set properties" for q st
  proof (cases noneDisplayed)
    case False
    then obtain full where full: "simpleParameters env properties vals None root = Inr full" "check = Some (VObject full)" using c by auto
    have "isDisplayed env a st q = displayedIn env full root q"
      using isDisplayed_check [of a full env st q] full(2) by (simp add: a_def passOver_def)
    then show ?thesis using shown full(1) that False by (auto simp: hiddenUnset_def list_all_iff)
  qed (simp add: a)
  have step: "?step a i (Going st) = Inr (Going (if keepsValue env vals (properties ! i)
        then setBoth (np_name (properties ! i)) (deepCopy env (memberOf vals (np_name (properties ! i)))) st else st))"
    if "i \<in> set order" "savedState env vals properties (Going st)" for i st
  proof -
    have i: "properties ! i \<in> set properties" using resolve_index [OF o that(1)] by simp
    show ?thesis by (rule visit_saves [OF plain [OF i] i dist that(2) a(1) vals a(2-4) vis [OF i]])
  qed
  define has where "has k s = (case s of Going st \<Rightarrow> map_of (bd_parameters st) (np_name k) = Some (deepCopy env (memberOf vals (np_name k))) | Returned ps \<Rightarrow> False)"
    for k :: "('a, 'b) node_property" and s :: "('a, 'b) visit"
  have keep: "savedState env vals properties w" if i: "i \<in> set order" and sv: "savedState env vals properties u" and w: "?step a i u = Inr w" for i u w
  proof -
    obtain st where u: "u = Going st" using sv by (cases u) (simp_all add: savedState_def)
    have "properties ! i \<in> set properties" using resolve_index [OF o i] by simp
    then show ?thesis using sv w step [OF i, of st] savedState_step [of env vals properties st "properties ! i"] dist u by (auto split: if_splits)
  qed
  have start: "savedState env vals properties (Going emptyBuild)" by (simp add: savedState_def emptyBuild_def)
  have final: "savedState env vals properties s" by (rule efold_invariant [where P = "savedState env vals properties", OF run [folded a_def] start keep])
  then obtain st where st: "s = Going st" by (cases s) (simp_all add: savedState_def)
  show ?thesis
  proof (cases "keepsValue env vals p")
    case False
    with final st p have "map_of (bd_parameters st) (np_name p) = None" by (auto simp: savedState_def)
    with False st ps show ?thesis by (simp add: memberOf_def ownEntries_def)
  next
    case True
    obtain i where i: "i < length properties" "properties ! i = p" using p by (auto simp: in_set_conv_nth)
    have "has p s"
    proof (rule efold_reaches [where P = "savedState env vals properties", OF run [folded a_def] resolve_all [OF o i(1)] start keep])
      fix u w assume u: "savedState env vals properties u" and w: "?step a i u = Inr w"
      obtain st where "u = Going st" using u by (cases u) (simp_all add: savedState_def)
      with step [OF resolve_all [OF o i(1)], of st] u w i(2) True show "has p w" by (auto simp: has_def)
    next
      fix j u w assume j: "j \<in> set order" and u: "savedState env vals properties u" "has p u" and w: "?step a j u = Inr w"
      obtain st where "u = Going st" using u(1) by (cases u) (simp_all add: savedState_def)
      with step [OF j, of st] u w show "has p w" by (auto simp: has_def split: if_splits)
    qed
    with True st ps show ?thesis by (simp add: has_def memberOf_def ownEntries_def)
  qed
qed

text \<open>A pass with defaults sees no difference between the values and what was kept of them.\<close>

lemma valueOrDefault_kept:
  assumes "plainProperty p" and "\<And>v w. pe_isEqual env v w \<Longrightarrow> jsTypeof v = jsTypeof w"
    and "w = (if v \<noteq> VUndefined \<and> differsFromDefault env None p v then deepCopy env v else VUndefined)"
  shows "valueOrDefault env p w = valueOrDefault env p v"
proof (cases "v \<noteq> VUndefined \<and> differsFromDefault env None p v")
  case True
  with assms show ?thesis by (simp add: valueOrDefault_def plainProperty_def Let_def)
next
  case False
  have "v = VUndefined \<or> strictEquals v (np_default p)"
    using False assms(1,2) by (auto simp: differsFromDefault_def plainProperty_def)
  then have "v = VUndefined \<or> v = np_default p \<and> deepCopy env v = v"
    using assms(1) by (cases "(v, np_default p)" rule: strictEquals.cases) (auto simp: plainProperty_def)
  with False assms show ?thesis by (auto simp: valueOrDefault_def plainProperty_def Let_def)
qed

lemma visitSimple_kept:
  assumes "valueOrDefault env p (memberOf vals' (np_name p)) = valueOrDefault env p (memberOf vals (np_name p))"
    and "plainProperty p" "ps_returnDefaults a" "ps_parentType a = None" "toBoolean vals" "toBoolean vals'"
  shows "visitSimple env (a\<lparr>ps_values := vals'\<rparr>) p st = visitSimple env (a\<lparr>ps_values := vals\<rparr>) p st"
proof -
  have d: "isDisplayed env (a\<lparr>ps_values := vals'\<rparr>) = isDisplayed env (a\<lparr>ps_values := vals\<rparr>)"
    by (intro ext) (simp add: isDisplayed_def nodeValuesRoot_def nodeValuesDisplayCheck_def)
  show ?thesis using assms(2-6) by (simp add: visitSimple_def Let_def d assms(1) cong: if_cong)
qed

lemma visitProperty_kept:
  assumes "visitSimple env a p = visitSimple env b p" "plainProperty p"
  shows "visitProperty env a rec p s = visitProperty env b rec' p s"
  using assms(2) by (simp add: visitProperty_def assms(1) plainProperty_def split: visit.split prod.split)


section \<open>Examples\<close>

definition exParameterEnv :: "(int, int) param_env" where
  "exParameterEnv = \<lparr>pe_host = exHost, pe_get = memberOf, pe_isEqual = (=), pe_toJSON = (\<lambda>v. None), pe_typeVersion = Some 1, pe_description = None\<rparr>"

definition exShown :: "string \<Rightarrow> string \<Rightarrow> (int, int) display_options option" where
  "exShown nm v = Some \<lparr>do_show = Some [(nm, [VString v])], do_hide = None\<rparr>"

definition exParameter :: "string \<Rightarrow> string \<Rightarrow> (int, int) js_value \<Rightarrow> (int, int) display_options option \<Rightarrow> (int, int) node_property" where
  "exParameter nm t d display = NodeProperty nm t d display False None [] []"

definition exNode :: "(int, int) node_property list" where
  "exNode = [exParameter ''operation'' ''options'' (VString ''get'') (exShown ''resource'' ''user''),
     exParameter ''resource'' ''options'' (VString ''user'') None, exParameter ''limit'' ''number'' (VNumber (Num 50)) None]"

definition exValues :: "(int, int) js_value" where
  "exValues = VObject [(''resource'', VString ''user''), (''operation'', VString ''delete''), (''limit'', VNumber (Num 50))]"

lemma exNode_level:
  "levelParameters exParameterEnv exNode exValues False False None None rec = Inr [(''operation'', VString ''delete'')]"
  "levelParameters exParameterEnv exNode exValues True False None None rec =
     Inr [(''operation'', VString ''delete''), (''resource'', VString ''user''), (''limit'', VNumber (Num 50))]"
  by code_simp+


definition exFull :: "(string \<times> (int, int) js_value) list" where
  "exFull = [(''operation'', VString ''delete''), (''resource'', VString ''user''), (''limit'', VNumber (Num 50))]"

lemma only_displayed_parameters_witness:
  "\<exists>p. p \<in> set exNode \<and> np_name p = ''operation'' \<and> displayedIn exParameterEnv exFull None p = Inr True"
proof -
  have saved: "getNodeParameters exParameterEnv exNode exValues False False None None = Inr [(''operation'', VString ''delete'')]"
    by (simp only: getNodeParameters.simps [of exParameterEnv exNode] exNode_level)
  have full: "simpleParameters exParameterEnv exNode exValues None None = Inr exFull" by code_simp
  have single: "False \<or> (\<forall>p \<in> set exNode. np_type p = ''fixedCollection'' \<longrightarrow> np_multipleValues p \<noteq> Some False)"
    by (simp add: exNode_def exParameter_def)
  have "(''operation'', VString ''delete'') \<in> set [(''operation'', VString ''delete'' :: (int, int) js_value)]" by simp
  from only_displayed_parameters [OF saved full single this] show ?thesis by blast
qed

text \<open>A hidden parameter that has a value can decide on another one, which is then lost: \<open>resource\<close> is hidden and shows \<open>operation\<close>.\<close>

definition exHidden :: "(int, int) node_property list" where
  "exHidden = [exParameter ''operation'' ''options'' (VString ''get'') (exShown ''resource'' ''user''),
     exParameter ''resource'' ''options'' (VString ''file'') (exShown ''mode'' ''x''), exParameter ''mode'' ''options'' (VString ''y'') None]"

definition exHiddenValues :: "(int, int) js_value" where
  "exHiddenValues = VObject [(''resource'', VString ''user''), (''operation'', VString ''delete'')]"

lemma exHidden_level:
  "levelParameters exParameterEnv exHidden exHiddenValues False False None None rec = Inr [(''operation'', VString ''delete'')]"
  "levelParameters exParameterEnv exHidden exHiddenValues True False None None rec = Inr [(''operation'', VString ''delete''), (''mode'', VString ''y'')]"
  "levelParameters exParameterEnv exHidden (VObject [(''operation'', VString ''delete'')]) True False None None rec = Inr [(''mode'', VString ''y'')]"
  by code_simp+

lemma hidden_value_lost:
  "getNodeParameters exParameterEnv exHidden exHiddenValues False False None None = Inr [(''operation'', VString ''delete'')] \<and>
   getNodeParameters exParameterEnv exHidden exHiddenValues True False None None = Inr [(''operation'', VString ''delete''), (''mode'', VString ''y'')] \<and>
   getNodeParameters exParameterEnv exHidden (VObject [(''operation'', VString ''delete'')]) True False None None = Inr [(''mode'', VString ''y'')]"
  by (simp only: getNodeParameters.simps [of exParameterEnv exHidden] exHidden_level simp_thms)

text \<open>An empty fixed collection for one value makes the pass without defaults return all values of the node, those with their default as well.\<close>

definition exFixed :: "(int, int) js_value \<Rightarrow> (int, int) node_property" where
  "exFixed d = NodeProperty ''schedule'' ''fixedCollection'' d None False (Some False) [] [(''rule'', [exParameter ''hour'' ''number'' (VNumber (Num 0)) None])]"

definition exTwo :: "(int, int) node_property list" where
  "exTwo = [exParameter ''limit'' ''number'' (VNumber (Num 50)) None, exFixed (VObject [])]"

lemma exFixed_level:
  "levelParameters exParameterEnv exTwo (VObject [(''limit'', VNumber (Num 50)), (''schedule'', VObject [])]) False False None None rec =
     Inr [(''limit'', VNumber (Num 50)), (''schedule'', VObject [])]"
  "levelParameters exParameterEnv exTwo (VObject [(''limit'', VNumber (Num 50))]) False False None None rec = Inr []"
  "levelParameters exParameterEnv [exFixed (VObject [(''rule'', VObject [(''hour'', VNumber (Num 9))])])] (VObject []) True False None None rec = Inl TypeError"
  by code_simp+

lemma empty_fixed_collection_returns_all:
  "getNodeParameters exParameterEnv exTwo (VObject [(''limit'', VNumber (Num 50)), (''schedule'', VObject [])]) False False None None =
     Inr [(''limit'', VNumber (Num 50)), (''schedule'', VObject [])] \<and>
   getNodeParameters exParameterEnv exTwo (VObject [(''limit'', VNumber (Num 50))]) False False None None = Inr []"
  by (simp only: getNodeParameters.simps [of exParameterEnv exTwo] exFixed_level simp_thms)

text \<open>The default of a fixed collection for one value is read, but its items are looked up in the values, where there are none.\<close>

lemma default_fixed_collection_throws:
  "getNodeParameters exParameterEnv [exFixed (VObject [(''rule'', VObject [(''hour'', VNumber (Num 9))])])] (VObject []) True False None None = Inl TypeError"
  by (simp only: getNodeParameters.simps [of exParameterEnv "[exFixed d]" for d] exFixed_level)

end
